(* ===== verification/Lens_Prelude.thy ===== *)
theory Lens_Prelude
  imports Main "HOL-Library.AList" "HOL-Library.Sublist"
begin

text \<open>
  Shared vocabulary of the development.

  \<^item> JavaScript's \<open>Map\<close> keeps its entries in insertion order: \<open>set\<close> on a present key replaces
    the value in place, on a new key it appends, and \<open>delete\<close> removes the entry. That is
    \<^const>\<open>AList.update\<close> and \<^const>\<open>AList.delete\<close> on association lists with distinct keys,
    and \<^const>\<open>map_of\<close> is \<open>get\<close>. The type is named \<open>jmap\<close>.
  \<^item> Two interfaces, as locales: a keyed store (what a lookup returns after a write) and a
    machine whose every event keeps an invariant. Every component that has such an
    interface interprets the locale on its own definitions.
  \<^item> List lemmas the components share.
\<close>

named_theorems store_simps "what a lookup returns after a write or a deletion"
named_theorems bound_intros "size bounds of the capped containers"

section \<open>JavaScript maps\<close>

type_synonym ('k, 'v) jmap = "('k \<times> 'v) list"

abbreviation (input) jm_get :: "('k, 'v) jmap \<Rightarrow> 'k \<Rightarrow> 'v option" where
  "jm_get m k \<equiv> map_of m k"

abbreviation (input) jm_set :: "'k \<Rightarrow> 'v \<Rightarrow> ('k, 'v) jmap \<Rightarrow> ('k, 'v) jmap" where
  "jm_set k v m \<equiv> AList.update k v m"

abbreviation (input) jm_delete :: "'k \<Rightarrow> ('k, 'v) jmap \<Rightarrow> ('k, 'v) jmap" where
  "jm_delete k m \<equiv> AList.delete k m"

definition jm_has :: "('k, 'v) jmap \<Rightarrow> 'k \<Rightarrow> bool" where
  "jm_has m k = (jm_get m k \<noteq> None)"

abbreviation (input) jm_keys :: "('k, 'v) jmap \<Rightarrow> 'k list" where
  "jm_keys m \<equiv> map fst m"

definition jm_wf :: "('k, 'v) jmap \<Rightarrow> bool" where
  "jm_wf m = distinct (jm_keys m)"

section \<open>Interfaces\<close>

text \<open>The contract of a keyed store: the latest write of a key is what a read returns.\<close>

locale keyed_store =
  fixes get :: "'m \<Rightarrow> 'k \<Rightarrow> 'v option"
    and put :: "'k \<Rightarrow> 'v \<Rightarrow> 'm \<Rightarrow> 'm"
    and wf :: "'m \<Rightarrow> bool"
  assumes get_put: "get (put k v m) k' = (if k' = k then Some v else get m k')"
    and wf_put: "wf m \<Longrightarrow> wf (put k v m)"
begin

lemma get_put_same: "get (put k v m) k = Some v"
  by (simp add: get_put)

lemma get_put_other: "k' \<noteq> k \<Longrightarrow> get (put k v m) k' = get m k'"
  by (simp add: get_put)

text \<open>Writing a list of entries in order: the last entry of a key wins.\<close>

lemma get_puts:
  "get (fold (\<lambda>(k, v). put k v) kvs m) k =
     (case map_of (rev kvs) k of Some v \<Rightarrow> Some v | None \<Rightarrow> get m k)"
  by (induction kvs arbitrary: m)
     (auto simp: get_put map_add_def split: option.splits)

lemma wf_puts: "wf m \<Longrightarrow> wf (fold (\<lambda>(k, v). put k v) kvs m)"
  by (induction kvs arbitrary: m) (auto simp: wf_put)

end

text \<open>A keyed store whose entries can be dropped.\<close>

locale deletable_store = keyed_store get put wf
  for get :: "'m \<Rightarrow> 'k \<Rightarrow> 'v option" and put :: "'k \<Rightarrow> 'v \<Rightarrow> 'm \<Rightarrow> 'm" and wf :: "'m \<Rightarrow> bool" +
  fixes del :: "'k \<Rightarrow> 'm \<Rightarrow> 'm"
  assumes get_del: "get (del k m) k' = (if k' = k then None else get m k')"
    and wf_del: "wf m \<Longrightarrow> wf (del k m)"
begin

lemma get_del_put: "get (del k (put k v m)) = get (del k m)"
  by (rule ext) (simp add: get_del get_put)

lemma get_put_del: "get (put k v (del k m)) = get (put k v m)"
  by (rule ext) (simp add: get_del get_put)

end

text \<open>
  A machine driven by events: \<open>apply e s\<close> is the state after event \<open>e\<close>. An invariant that
  every event keeps holds after every run, whatever the interleaving of the events.
\<close>

locale event_machine =
  fixes apply_event :: "'e \<Rightarrow> 's \<Rightarrow> 's"
    and inv :: "'s \<Rightarrow> bool"
  assumes step_inv: "inv s \<Longrightarrow> inv (apply_event e s)"
begin

lemma run_inv: "inv s \<Longrightarrow> inv (fold apply_event es s)"
  by (induction es arbitrary: s) (auto intro: step_inv)

lemma run_prefix_inv: "inv s \<Longrightarrow> prefix es' es \<Longrightarrow> inv (fold apply_event es' s)"
  by (rule run_inv)

end

text \<open>
  A machine whose invariant needs a condition on the states it passes through, one that
  its environment has to keep. \<open>along P f es s\<close>: the condition holds before every event.
\<close>

fun along :: "('s \<Rightarrow> bool) \<Rightarrow> ('e \<Rightarrow> 's \<Rightarrow> 's) \<Rightarrow> 'e list \<Rightarrow> 's \<Rightarrow> bool" where
  "along P f [] s = True"
| "along P f (e # es) s = (P s \<and> along P f es (f e s))"

locale guarded_machine =
  fixes apply_event :: "'e \<Rightarrow> 's \<Rightarrow> 's"
    and guard :: "'s \<Rightarrow> bool"
    and inv :: "'s \<Rightarrow> bool"
  assumes guarded_step_inv: "inv s \<Longrightarrow> guard s \<Longrightarrow> inv (apply_event e s)"
begin

lemma guarded_run_inv: "inv s \<Longrightarrow> along guard apply_event es s \<Longrightarrow> inv (fold apply_event es s)"
  by (induction es arbitrary: s) (auto intro: guarded_step_inv)

end

section \<open>The map model implements the store interface\<close>

interpretation jm: deletable_store "jm_get" "jm_set" "jm_wf" "jm_delete"
  by unfold_locales
     (simp_all add: update_conv delete_conv jm_wf_def distinct_update distinct_delete)

lemmas jm_get_set [store_simps] = jm.get_put
  and jm_get_delete [store_simps] = jm.get_del

lemma jm_has_set [store_simps]: "jm_has (jm_set k v m) k' = (k' = k \<or> jm_has m k')"
  by (simp add: jm_has_def jm_get_set)

lemma jm_has_delete [store_simps]: "jm_has (jm_delete k m) k' = (k' \<noteq> k \<and> jm_has m k')"
  by (simp add: jm_has_def jm_get_delete)

lemma jm_has_iff: "jm_has m k \<longleftrightarrow> k \<in> set (jm_keys m)"
  by (simp add: jm_has_def map_of_eq_None_iff)

lemma jm_wf_Nil [simp]: "jm_wf []"
  by (simp add: jm_wf_def)

lemma jm_wf_Cons: "jm_wf ((k, v) # m) \<longleftrightarrow> k \<notin> set (jm_keys m) \<and> jm_wf m"
  by (simp add: jm_wf_def)

lemma jm_wf_drop: "jm_wf m \<Longrightarrow> jm_wf (drop n m)"
  by (metis distinct_drop drop_map jm_wf_def)

lemma jm_wf_filter: "jm_wf m \<Longrightarrow> jm_wf (filter P m)"
  by (simp add: jm_wf_def distinct_map_filter)

lemma jm_get_in: "jm_get m k = Some v \<Longrightarrow> (k, v) \<in> set m"
  by (rule map_of_SomeD)

lemma jm_get_key: "jm_get m k = Some v \<Longrightarrow> k \<in> set (jm_keys m)"
  using jm_get_in by force

lemma jm_in_get: "jm_wf m \<Longrightarrow> (k, v) \<in> set m \<Longrightarrow> jm_get m k = Some v"
  by (simp add: jm_wf_def)

lemma jm_delete_notin: "k \<notin> set (jm_keys m) \<Longrightarrow> jm_delete k m = m"
  by (rule delete_id) simp

lemma jm_set_notin: "k \<notin> set (jm_keys m) \<Longrightarrow> jm_set k v m = m @ [(k, v)]"
  by (induction m) auto

lemma jm_delete_hd: "jm_wf ((k, v) # m) \<Longrightarrow> jm_delete k ((k, v) # m) = m"
  by (simp add: jm_wf_Cons jm_delete_notin)

lemma length_jm_delete: "length (jm_delete k m) \<le> length m"
  by (simp add: AList.delete_eq)

lemma length_jm_set: "length (jm_set k v m) = (if jm_has m k then length m else Suc (length m))"
  by (induction m) (auto simp: jm_has_def)

lemma jm_keys_delete: "jm_keys (jm_delete k m) = filter (\<lambda>x. x \<noteq> k) (jm_keys m)"
  by (induction m) auto

lemma jm_keys_set: "jm_keys (jm_set k v m) = (if k \<in> set (jm_keys m) then jm_keys m else jm_keys m @ [k])"
  by (simp add: update_keys)

section \<open>Lists\<close>

text \<open>The last \<open>n\<close> elements of a list.\<close>

definition lastn :: "nat \<Rightarrow> 'a list \<Rightarrow> 'a list" where
  "lastn n xs = drop (length xs - n) xs"

lemma length_lastn: "length (lastn n xs) = min n (length xs)"
  by (simp add: lastn_def min_def)

lemma lastn_all: "length xs \<le> n \<Longrightarrow> lastn n xs = xs"
  by (simp add: lastn_def)

lemma set_lastn: "set (lastn n xs) \<subseteq> set xs"
  by (simp add: lastn_def set_drop_subset)

lemma lastn_append_one: "0 < n \<Longrightarrow> lastn n (xs @ [x]) = lastn (n - 1) xs @ [x]"
  by (cases "n - 1 \<le> length xs") (auto simp: lastn_def Suc_diff_le)

lemma find_SomeD: "find P xs = Some x \<Longrightarrow> x \<in> set xs \<and> P x"
  by (induction xs) (auto split: if_splits)

section \<open>Strings\<close>

text \<open>
  Names, keys and paths are \<open>string\<close>s: their characters are the code units \<open>0..255\<close> of the
  source's strings. \<open>trim\<close> strips the white space JavaScript strips in that range.
\<close>

definition is_js_space :: "char \<Rightarrow> bool" where
  "is_js_space c = (of_char c \<in> {9, 10, 11, 12, 13, 32, 160 :: nat})"

definition js_trim :: "string \<Rightarrow> string" where
  "js_trim s = rev (dropWhile is_js_space (rev (dropWhile is_js_space s)))"

definition starts_with :: "string \<Rightarrow> string \<Rightarrow> bool" where
  "starts_with s p = (take (length p) s = p)"

definition ends_with :: "string \<Rightarrow> string \<Rightarrow> bool" where
  "ends_with s p = (length p \<le> length s \<and> drop (length s - length p) s = p)"

end
