(* ===== verification/Line_Evidence.thy ===== *)
theory Line_Evidence
  imports Lens_Prelude "HOL-Library.Word"
begin

text \<open>
  Line evidence of the read guard: the free functions of \<open>src/clients/read-guard.ts\<close> that
  split files into lines, hash lines, and compare a recorded view of a file with its present
  content.

  A text is a list of UTF-16 code units. The disk is a function from paths to what a call
  observes of a file: its size, its times (\<open>mtimeMs\<close> and \<open>mtime.getTime()\<close> apart; they are
  only compared for equality), the decoded text, and the sha256 of its bytes. A failing
  \<open>stat\<close> or \<open>read\<close> is \<open>None\<close>. sha256 of a text is a parameter. \<open>scan_hashes\<close> is what
  \<open>scanFileLines(path, [{offset, limit}], {count: false}).hashes(offset, limit)\<close> returns; the
  chunked reading of the source is modelled by its result on whole lines, which keep a carriage
  return before the newline.
\<close>

unbundle bit_operations_syntax

section \<open>Lines and their hashes\<close>

type_synonym code_unit = "16 word"
type_synonym js_text = "code_unit list"

definition LF :: code_unit where "LF = 10"
definition CR :: code_unit where "CR = 13"

text \<open>\<open>text.split(/\r?\n/)\<close>: \<open>acc\<close> is the current line in reverse.\<close>

fun split_from :: "js_text \<Rightarrow> js_text \<Rightarrow> js_text list" where
  "split_from acc [] = [rev acc]"
| "split_from acc [c] = (if c = LF then [rev acc, []] else [rev (c # acc)])"
| "split_from acc (c # d # rest) =
     (if c = LF then rev acc # split_from [] (d # rest)
      else if c = CR \<and> d = LF then rev acc # split_from [] rest
      else split_from (c # acc) (d # rest))"

definition splitLines :: "js_text \<Rightarrow> js_text list" where
  "splitLines s = split_from [] s"

definition strip_cr :: "js_text \<Rightarrow> js_text" where
  "strip_cr line = (if line \<noteq> [] \<and> last line = CR then butlast line else line)"

text \<open>
  The loop of \<open>splitLinesThrough\<close>: \<open>n\<close> lines may still be pushed and \<open>rest\<close> is the text from
  \<open>start\<close> on.
\<close>

fun through_loop :: "nat \<Rightarrow> js_text \<Rightarrow> js_text list" where
  "through_loop 0 rest = []"
| "through_loop (Suc n) rest =
     (if LF \<notin> set rest then [rest]
      else let line = strip_cr (takeWhile (\<lambda>c. c \<noteq> LF) rest);
               rest' = tl (dropWhile (\<lambda>c. c \<noteq> LF) rest)
           in if rest' = [] \<and> n > 0 then [line, []] else line # through_loop n rest')"

definition splitLinesThrough :: "js_text \<Rightarrow> int \<Rightarrow> js_text list" where
  "splitLinesThrough s maxLines = (if maxLines \<le> 0 then [] else through_loop (nat maxLines) s)"

text \<open>The characters \<open>\s\<close> matches.\<close>

definition is_space16 :: "code_unit \<Rightarrow> bool" where
  "is_space16 c =
     (c \<in> {9, 10, 11, 12, 13, 32, 0xA0, 0x1680, 0x2028, 0x2029, 0x202F, 0x205F, 0x3000, 0xFEFF} \<or>
      0x2000 \<le> c \<and> c \<le> 0x200A)"

definition fnv_step :: "32 word \<Rightarrow> code_unit \<Rightarrow> 32 word" where
  "fnv_step hash c = (hash XOR ucast c) * 16777619"

definition fnv1a :: "js_text \<Rightarrow> 32 word" where
  "fnv1a s = foldl fnv_step 2166136261 s"

definition hex_digit :: "nat \<Rightarrow> char" where
  "hex_digit n = (if n < 10 then char_of (48 + n) else char_of (87 + n))"

text \<open>\<open>toString(16).padStart(8, "0")\<close> of a 32-bit value.\<close>

definition hex8 :: "32 word \<Rightarrow> string" where
  "hex8 w = map (\<lambda>i. hex_digit (unat w div 16 ^ i mod 16)) [7, 6, 5, 4, 3, 2, 1, 0]"

definition lineContentHash :: "js_text \<Rightarrow> string" where
  "lineContentHash line = hex8 (fnv1a (filter (\<lambda>c. \<not> is_space16 c) line))"

section \<open>Read records\<close>

datatype credit_reason = MatchLinesOnly | DeliveredContextFlags | CallerMargin

record search_credit =
  sc_marginBefore :: int
  sc_marginAfter :: int
  sc_reason :: credit_reason

record symbol_info =
  sy_name :: string
  sy_kind :: string
  sy_startLine :: int
  sy_endLine :: int

record content_binding =
  cb_hash :: string
  cb_fullFile :: bool
  cb_offset :: int
  cb_limit :: int

type_synonym line_hashes = "(int \<times> string) list"

record read_record =
  rr_filePath :: string
  rr_requestedOffset :: int
  rr_requestedLimit :: int
  rr_effectiveOffset :: int
  rr_effectiveLimit :: int
  rr_expandedByLsp :: bool
  rr_enclosingSymbol :: "symbol_info option"
  rr_lineHashes :: "line_hashes option"
  rr_contentBinding :: "content_binding option"
  rr_searchCredit :: "search_credit option"
  rr_turnIndex :: int
  rr_writeIndex :: int
  rr_timestamp :: int
  rr_source :: "string option"
  rr_provisional :: bool
  rr_toolCallId :: "string option"

type_synonym line_range = "int \<times> int"

record disk_file =
  df_size :: int
  df_mtimeMs :: int
  df_ctimeMs :: int
  df_mtime :: int
  df_ctime :: int
  df_text :: js_text
  df_sha256 :: string

type_synonym disk = "string \<Rightarrow> disk_file option"

definition READ_HASH_MAX_LINES :: int where "READ_HASH_MAX_LINES = 3000"
definition READ_BINDING_MAX_BYTES :: int where "READ_BINDING_MAX_BYTES = 4 * 1024 * 1024"
definition SCAN_MAX_BYTES :: int where "SCAN_MAX_BYTES = 536870888"

definition read_lines :: "disk \<Rightarrow> string \<Rightarrow> js_text list option" where
  "read_lines disk path = map_option (splitLines \<circ> df_text) (disk path)"

text \<open>\<open>lines[lineNo - 1]\<close> for a line number within the file.\<close>

definition line_at :: "js_text list \<Rightarrow> int \<Rightarrow> js_text option" where
  "line_at lines lineNo =
     (if 1 \<le> lineNo \<and> lineNo \<le> int (length lines) then Some (lines ! nat (lineNo - 1)) else None)"

definition readRangeCoversLine :: "read_record \<Rightarrow> int \<Rightarrow> bool" where
  "readRangeCoversLine read lineNo =
     (lineNo \<ge> rr_effectiveOffset read \<and> lineNo \<le> rr_effectiveOffset read + rr_effectiveLimit read - 1)"

text \<open>
  The position of the newest confirmed record whose range covers the line. The source compares
  records by reference, so the model keeps positions.
\<close>

definition newestViewOfLine :: "read_record list \<Rightarrow> int \<Rightarrow> nat option" where
  "newestViewOfLine reads lineNo =
     find (\<lambda>i. \<not> rr_provisional (reads ! i) \<and> readRangeCoversLine (reads ! i) lineNo)
       (rev [0..<length reads])"

definition hashLines :: "js_text list \<Rightarrow> int \<Rightarrow> line_hashes option" where
  "hashLines lines firstLine =
     (if lines = [] then None
      else Some (map (\<lambda>i. (firstLine + int i, lineContentHash (lines ! i))) [0..<length lines]))"

definition hashedWindow :: "int \<Rightarrow> int \<Rightarrow> line_range option" where
  "hashedWindow offset lim =
     (if lim \<le> 0 \<or> lim > READ_HASH_MAX_LINES then None
      else let first = max 1 offset; final = offset + lim - 1
           in if final < first then None else Some (first, final))"

text \<open>The lines of a file cut at newlines only, as the scan sees them.\<close>

fun lf_from :: "js_text \<Rightarrow> js_text \<Rightarrow> js_text list" where
  "lf_from acc [] = [rev acc]"
| "lf_from acc (c # rest) = (if c = LF then rev acc # lf_from [] rest else lf_from (c # acc) rest)"

definition scan_hashes :: "disk \<Rightarrow> string \<Rightarrow> int \<Rightarrow> int \<Rightarrow> line_hashes option" where
  "scan_hashes disk path offset lim =
     (case disk path of
        None \<Rightarrow> None
      | Some f \<Rightarrow>
          if df_size f > SCAN_MAX_BYTES then None
          else case hashedWindow offset lim of
                 None \<Rightarrow> None
               | Some (first, final) \<Rightarrow>
                   hashLines (take (nat (final - first + 1)) (drop (nat (first - 1)) (lf_from [] (df_text f)))) first)"

definition deliveredLineEvidence :: "js_text \<Rightarrow> int \<Rightarrow> nat \<times> line_hashes option" where
  "deliveredLineEvidence s offset =
     (let lines = splitLines s
      in (length lines,
          if int (length lines) \<le> READ_HASH_MAX_LINES then hashLines lines offset else None))"

record snapshot_evidence =
  se_checked :: bool
  se_matches :: bool
  se_missing :: "int list"
  se_mismatched :: "int list"

definition recorded_hash :: "read_record \<Rightarrow> int \<Rightarrow> string option" where
  "recorded_hash read lineNo =
     (case rr_lineHashes read of None \<Rightarrow> None | Some hashes \<Rightarrow> map_of hashes lineNo)"

definition line_matches :: "js_text list \<Rightarrow> read_record \<Rightarrow> int \<Rightarrow> bool" where
  "line_matches lines read lineNo =
     (case line_at lines lineNo of
        None \<Rightarrow> False
      | Some line \<Rightarrow> recorded_hash read lineNo = Some (lineContentHash line))"

definition currentLinesMatchReadSnapshot ::
  "disk \<Rightarrow> string \<Rightarrow> read_record \<Rightarrow> line_range \<Rightarrow> snapshot_evidence" where
  "currentLinesMatchReadSnapshot disk path read rng =
     (let nums = [fst rng..snd rng];
          missing = filter (\<lambda>n. \<not> readRangeCoversLine read n \<or> recorded_hash read n = None) nums
      in if missing \<noteq> [] then
           \<lparr>se_checked = False, se_matches = False, se_missing = missing, se_mismatched = []\<rparr>
         else case read_lines disk path of
                None \<Rightarrow>
                  \<lparr>se_checked = True, se_matches = False, se_missing = [], se_mismatched = nums\<rparr>
              | Some lines \<Rightarrow>
                  let bad = filter (\<lambda>n. \<not> line_matches lines read n) nums
                  in \<lparr>se_checked = True, se_matches = (bad = []), se_missing = [], se_mismatched = bad\<rparr>)"

section \<open>Content bindings\<close>

type_synonym text_hash = "js_text \<Rightarrow> string"

text \<open>\<open>lines.join("\n")\<close>.\<close>

fun join_lf :: "js_text list \<Rightarrow> js_text" where
  "join_lf [] = []"
| "join_lf [x] = x"
| "join_lf (x # y # xs) = x @ [LF] @ join_lf (y # xs)"

definition captureReadContentBinding ::
  "disk \<Rightarrow> text_hash \<Rightarrow> string \<Rightarrow> int \<Rightarrow> int \<Rightarrow> content_binding option" where
  "captureReadContentBinding disk sha path offset lim =
     (case disk path of
        None \<Rightarrow> None
      | Some f \<Rightarrow>
          if df_size f > READ_BINDING_MAX_BYTES then None
          else
            let content = df_text f;
                lines = splitLinesThrough content (READ_HASH_MAX_LINES + 1)
            in if int (length lines) \<le> READ_HASH_MAX_LINES then
                 Some \<lparr>cb_hash = sha content, cb_fullFile = True, cb_offset = 1,
                       cb_limit = int (length lines)\<rparr>
               else
                 let scopedOffset = max 1 offset;
                     scopedLimit = min (max 0 lim) READ_HASH_MAX_LINES
                 in if scopedLimit = 0 then None
                    else
                      let rangeLines = splitLinesThrough content (scopedOffset - 1 + scopedLimit);
                          scopedContent = join_lf (take (nat scopedLimit) (drop (nat (scopedOffset - 1)) rangeLines))
                      in Some \<lparr>cb_hash = sha scopedContent, cb_fullFile = False,
                               cb_offset = scopedOffset, cb_limit = scopedLimit\<rparr>)"

definition currentContentMatchesBinding ::
  "disk \<Rightarrow> text_hash \<Rightarrow> string \<Rightarrow> content_binding \<Rightarrow> bool" where
  "currentContentMatchesBinding disk sha path binding =
     (case disk path of
        None \<Rightarrow> False
      | Some f \<Rightarrow>
          let bound = (if cb_fullFile binding then df_text f
                       else join_lf (take (nat (cb_limit binding))
                              (drop (nat (cb_offset binding - 1)) (splitLines (df_text f)))))
          in sha bound = cb_hash binding)"

section \<open>Splitting\<close>

lemma split_from_no_lf: "LF \<notin> set s \<Longrightarrow> split_from acc s = [rev acc @ s]"
  by (induction acc s rule: split_from.induct) auto

lemma strip_cr_snoc: "strip_cr (xs @ [c]) = (if c = CR then xs else xs @ [c])"
  by (simp add: strip_cr_def)

text \<open>Splitting cuts at the first newline and drops a carriage return before it.\<close>

lemma split_from_cut:
  "LF \<notin> set p \<Longrightarrow> p \<noteq> [] \<or> acc = [] \<or> hd acc \<noteq> CR \<Longrightarrow>
     split_from acc (p @ LF # rest) = (rev acc @ strip_cr p) # split_from [] rest"
proof (induction p arbitrary: acc)
  case Nil
  then show ?case by (cases rest) (simp_all add: strip_cr_def)
next
  case (Cons c p)
  then have c: "c \<noteq> LF" by auto
  show ?case
  proof (cases p)
    case Nil
    with c show ?thesis by (cases rest) (simp_all add: strip_cr_def CR_def LF_def)
  next
    case (Cons d q)
    with c Cons.prems Cons.IH [of "c # acc"] show ?thesis by (auto simp: strip_cr_def)
  qed
qed

lemma lf_split_text:
  assumes "LF \<in> set s"
  shows "s = takeWhile (\<lambda>c. c \<noteq> LF) s @ LF # tl (dropWhile (\<lambda>c. c \<noteq> LF) s)"
  using assms by (induction s) auto

lemma splitLines_cut:
  assumes "LF \<in> set s"
  shows "splitLines s =
    strip_cr (takeWhile (\<lambda>c. c \<noteq> LF) s) # splitLines (tl (dropWhile (\<lambda>c. c \<noteq> LF) s))"
proof -
  have "LF \<notin> set (takeWhile (\<lambda>c. c \<noteq> LF) s)" by (auto dest: set_takeWhileD)
  from split_from_cut [OF this, of "[]" "tl (dropWhile (\<lambda>c. c \<noteq> LF) s)"] show ?thesis
    unfolding splitLines_def by (subst lf_split_text [OF assms]) simp
qed

lemma splitLines_no_lf: "LF \<notin> set s \<Longrightarrow> splitLines s = [s]"
  by (simp add: splitLines_def split_from_no_lf)

lemma through_loop_take: "through_loop n s = take n (splitLines s)"
proof (induction n s rule: through_loop.induct)
  case (2 n rest)
  show ?case
  proof (cases "LF \<in> set rest")
    case False
    then show ?thesis by (simp add: splitLines_no_lf)
  next
    case True
    have "splitLines [] = [[]]" by (simp add: splitLines_def)
    with True 2 show ?thesis by (cases n) (auto simp: splitLines_cut Let_def)
  qed
qed simp

lemma splitLines_nonempty [simp]: "splitLines s \<noteq> []"
  by (cases "LF \<in> set s") (simp_all add: splitLines_cut splitLines_no_lf)

section \<open>Hashing\<close>

lemma hash_ignores_space:
  "filter (\<lambda>c. \<not> is_space16 c) a = filter (\<lambda>c. \<not> is_space16 c) b \<Longrightarrow> lineContentHash a = lineContentHash b"
  by (simp add: lineContentHash_def)

lemma CR_space: "is_space16 CR"
  by (simp add: is_space16_def CR_def)

lemma hash_strip_cr [simp]: "lineContentHash (strip_cr line) = lineContentHash line"
proof (cases "line \<noteq> [] \<and> last line = CR")
  case True
  then obtain q where "line = q @ [CR]" by (metis append_butlast_last_id)
  then show ?thesis by (intro hash_ignores_space) (simp add: strip_cr_def CR_space)
qed (auto simp: strip_cr_def)

lemma lf_from_no_lf: "LF \<notin> set s \<Longrightarrow> lf_from acc s = [rev acc @ s]"
  by (induction acc s rule: lf_from.induct) auto

lemma lf_from_cut: "LF \<notin> set p \<Longrightarrow> lf_from acc (p @ LF # rest) = (rev acc @ p) # lf_from [] rest"
  by (induction p arbitrary: acc) auto

text \<open>The scan's lines differ from the split lines by carriage returns only, which no hash sees.\<close>

lemma lf_from_hashes: "map lineContentHash (lf_from [] s) = map lineContentHash (splitLines s)"
proof (induction s rule: length_induct)
  case (1 s)
  show ?case
  proof (cases "LF \<in> set s")
    case False
    then show ?thesis by (simp add: lf_from_no_lf splitLines_no_lf)
  next
    case True
    let ?p = "takeWhile (\<lambda>c. c \<noteq> LF) s" and ?r = "tl (dropWhile (\<lambda>c. c \<noteq> LF) s)"
    have p: "LF \<notin> set ?p" by (auto dest: set_takeWhileD)
    have "length s = length ?p + Suc (length ?r)" using lf_split_text [OF True] by (metis length_Cons length_append)
    then have IH: "map lineContentHash (lf_from [] ?r) = map lineContentHash (splitLines ?r)"
      using 1 by (metis add_Suc_right le_add2 less_Suc_eq_le)
    have "lf_from [] s = ?p # lf_from [] ?r"
      using lf_from_cut [OF p, of "[]" ?r] lf_split_text [OF True] by simp
    with IH show ?thesis by (simp add: splitLines_cut [OF True])
  qed
qed

text \<open>The hexadecimal rendering loses nothing.\<close>

lemma of_char_hex_digit: "n < 16 \<Longrightarrow> (of_char (hex_digit n) :: nat) = (if n < 10 then 48 + n else 87 + n)"
  by (simp add: hex_digit_def)

lemma hex_digit_inject: "m < 16 \<Longrightarrow> n < 16 \<Longrightarrow> hex_digit m = hex_digit n \<Longrightarrow> m = n"
proof -
  assume mn: "m < 16" "n < 16" and "hex_digit m = hex_digit n"
  then have "(of_char (hex_digit m) :: nat) = of_char (hex_digit n)" by simp
  then have "(if m < 10 then 48 + m else 87 + m) = (if n < 10 then 48 + n else 87 + n)"
    unfolding of_char_hex_digit [OF mn(1)] of_char_hex_digit [OF mn(2)] .
  then show "m = n" by (simp split: if_splits)
qed

lemma hex_digits_mod:
  fixes x y :: nat
  shows "(\<And>i. i < k \<Longrightarrow> x div 16 ^ i mod 16 = y div 16 ^ i mod 16) \<Longrightarrow> x mod 16 ^ k = y mod 16 ^ k"
proof (induction k)
  case (Suc k)
  have "z mod 16 ^ Suc k = 16 ^ k * (z div 16 ^ k mod 16) + z mod 16 ^ k" for z :: nat
    using mod_mult2_eq [of z "16 ^ k" 16] by (simp add: mult.commute)
  with Suc show ?case by simp
qed simp

lemma hex8_inject: "hex8 a = hex8 b \<longleftrightarrow> a = b"
proof
  assume eq: "hex8 a = hex8 b"
  have "unat a div 16 ^ i mod 16 = unat b div 16 ^ i mod 16" if "i < 8" for i
  proof -
    from that have i: "i \<in> set [7, 6, 5, 4, 3, 2, 1, 0]" by auto
    from eq have "\<forall>i \<in> set [7, 6, 5, 4, 3, 2, 1, 0]. hex_digit (unat a div 16 ^ i mod 16) = hex_digit (unat b div 16 ^ i mod 16)"
      unfolding hex8_def by (simp only: map_eq_conv)
    with i have "hex_digit (unat a div 16 ^ i mod 16) = hex_digit (unat b div 16 ^ i mod 16)" by blast
    then show ?thesis by (intro hex_digit_inject) simp_all
  qed
  then have "unat a mod 16 ^ 8 = unat b mod 16 ^ 8" by (rule hex_digits_mod)
  moreover have "unat w < 16 ^ 8" for w :: "32 word" using unsigned_less [where 'a = nat and w = w] by simp
  ultimately show "a = b" by (simp add: word_unat_eq_iff)
qed simp

section \<open>Properties\<close>

text \<open>
  The bounded splitter is a prefix of the full one. \<open>splitLinesThrough\<close>, which stops
  scanning early, returns exactly the first lines that \<open>split(/\r?\n/)\<close> returns, with carriage
  returns, empty lines and a trailing newline treated alike.
\<close>

theorem splitLinesThrough_is_prefix:
  "splitLinesThrough s n = take (nat n) (splitLines s)"
  by (simp add: splitLinesThrough_def through_loop_take)

text \<open>
  a line hash is eight hexadecimal digits that identify the 32-bit FNV-1a state of the line
  without its white space: two lines have the same hash exactly when those states agree, so
  reformatting within a line never makes recorded evidence stale.
\<close>

theorem lineContentHash_identifies_fnv_state:
  "length (lineContentHash a) = 8 \<and>
   (lineContentHash a = lineContentHash b \<longleftrightarrow>
      fnv1a (filter (\<lambda>c. \<not> is_space16 c) a) = fnv1a (filter (\<lambda>c. \<not> is_space16 c) b))"
  by (simp add: lineContentHash_def hex8_inject) (simp add: hex8_def)

lemma map_of_hashLines:
  assumes "hashLines lines first = Some hashes" and "k < length lines"
  shows "map_of hashes (first + int k) = Some (lineContentHash (lines ! k))"
proof -
  have "map_of (map (\<lambda>i. (first + int i, lineContentHash (lines ! i))) is) (first + int k) =
      (if k \<in> set is then Some (lineContentHash (lines ! k)) else None)" for "is"
    by (induction "is") auto
  with assms show ?thesis by (auto simp: hashLines_def split: if_splits)
qed

lemma scan_hashes_line:
  assumes f: "disk path = Some f" "df_size f \<le> SCAN_MAX_BYTES"
    and win: "hashedWindow offset lim = Some (first, final)"
    and n: "first \<le> n" "n \<le> final" "n \<le> int (length (splitLines (df_text f)))"
  shows "\<exists>hashes. scan_hashes disk path offset lim = Some hashes \<and>
    map_of hashes n = Some (lineContentHash (splitLines (df_text f) ! nat (n - 1)))"
proof -
  let ?all = "lf_from [] (df_text f)"
  let ?shown = "take (nat (final - first + 1)) (drop (nat (first - 1)) ?all)"
  have first: "1 \<le> first" using win by (auto simp: hashedWindow_def Let_def split: if_splits)
  have len: "length ?all = length (splitLines (df_text f))"
    using arg_cong [OF lf_from_hashes, of length "df_text f"] by simp
  have k: "nat (n - first) < length ?shown"
    using n first len by (auto simp: min_def nat_less_iff)
  then have "?shown \<noteq> []" by auto
  then obtain hashes where hashes: "hashLines ?shown first = Some hashes" by (auto simp: hashLines_def)
  have "map_of hashes n = Some (lineContentHash (?shown ! nat (n - first)))"
    using map_of_hashLines [OF hashes k] n by simp
  also have "?shown ! nat (n - first) = ?all ! nat (n - 1)"
    using k n first by (simp add: nat_add_distrib [symmetric])
  also have "lineContentHash (?all ! nat (n - 1)) = lineContentHash (splitLines (df_text f) ! nat (n - 1))"
    using arg_cong [OF lf_from_hashes, of "\<lambda>hs. hs ! nat (n - 1)" "df_text f"] n first len by simp
  finally show ?thesis using f win hashes by (auto simp: scan_hashes_def)
qed

lemma fresh_line_matches:
  assumes f: "disk path = Some f" "df_size f \<le> SCAN_MAX_BYTES"
    and win: "hashedWindow (rr_effectiveOffset r) (rr_effectiveLimit r) = Some (first, final)"
    and hashes: "rr_lineHashes r = scan_hashes disk path (rr_effectiveOffset r) (rr_effectiveLimit r)"
    and n: "first \<le> n" "n \<le> final" "n \<le> int (length (splitLines (df_text f)))"
  shows "line_matches (splitLines (df_text f)) r n" and "readRangeCoversLine r n" and "recorded_hash r n \<noteq> None"
proof -
  obtain hs where "scan_hashes disk path (rr_effectiveOffset r) (rr_effectiveLimit r) = Some hs"
    "map_of hs n = Some (lineContentHash (splitLines (df_text f) ! nat (n - 1)))"
    using scan_hashes_line [where disk = disk and path = path, OF f win n] by blast
  moreover have "1 \<le> first" and w: "first = max 1 (rr_effectiveOffset r)"
      "final = rr_effectiveOffset r + rr_effectiveLimit r - 1"
    using win by (auto simp: hashedWindow_def Let_def split: if_splits)
  ultimately show "line_matches (splitLines (df_text f)) r n" "recorded_hash r n \<noteq> None"
    using n hashes by (simp_all add: line_matches_def line_at_def recorded_hash_def)
  show "readRangeCoversLine r n" using n w by (auto simp: readRangeCoversLine_def)
qed

text \<open>A two-line file and a record of both lines, for the concrete instances.\<close>

definition demo_text :: js_text where "demo_text = [97, CR, LF, 98]"

definition demo_disk :: disk where
  "demo_disk path =
     (if path = ''/a.ts'' then Some \<lparr>df_size = 4, df_mtimeMs = 7, df_ctimeMs = 7, df_mtime = 7, df_ctime = 7,
        df_text = demo_text, df_sha256 = ''ab''\<rparr> else None)"

definition demo_read :: read_record where
  "demo_read =
     \<lparr>rr_filePath = ''/a.ts'', rr_requestedOffset = 1, rr_requestedLimit = 2, rr_effectiveOffset = 1,
      rr_effectiveLimit = 2, rr_expandedByLsp = False, rr_enclosingSymbol = None,
      rr_lineHashes = scan_hashes demo_disk ''/a.ts'' 1 2, rr_contentBinding = None, rr_searchCredit = None,
      rr_turnIndex = 1, rr_writeIndex = 1, rr_timestamp = 1, rr_source = None, rr_provisional = False,
      rr_toolCallId = None\<rparr>"

lemma demo_lines: "splitLines demo_text = [[97], [98]]"
  by (simp add: splitLines_def demo_text_def CR_def LF_def)

text \<open>
  evidence captured by a read is valid as long as the file is unchanged. For a record whose
  hashes were scanned from the file, every range of shown lines within the file is found checked
  and matching against that same file.
\<close>

theorem fresh_evidence_matches:
  assumes f: "disk path = Some f" "df_size f \<le> SCAN_MAX_BYTES"
    and win: "hashedWindow (rr_effectiveOffset r) (rr_effectiveLimit r) = Some (first, final)"
    and hashes: "rr_lineHashes r = scan_hashes disk path (rr_effectiveOffset r) (rr_effectiveLimit r)"
    and range: "first \<le> a" "b \<le> final" "b \<le> int (length (splitLines (df_text f)))"
  shows "currentLinesMatchReadSnapshot disk path r (a, b) =
    \<lparr>se_checked = True, se_matches = True, se_missing = [], se_mismatched = []\<rparr>"
proof -
  have ok: "line_matches (splitLines (df_text f)) r n \<and> readRangeCoversLine r n \<and> recorded_hash r n \<noteq> None"
    if "n \<in> set [a..b]" for n
    using fresh_line_matches [where disk = disk and path = path, OF f win hashes] that range by auto
  then have "filter (\<lambda>n. \<not> readRangeCoversLine r n \<or> recorded_hash r n = None) [a..b] = []"
    "filter (\<lambda>n. \<not> line_matches (splitLines (df_text f)) r n) [a..b] = []"
    by (simp_all add: filter_empty_conv)
  then show ?thesis
    using f(1) by (simp add: currentLinesMatchReadSnapshot_def read_lines_def Let_def)
qed

theorem fresh_evidence_matches_witness:
  "currentLinesMatchReadSnapshot demo_disk ''/a.ts'' demo_read (1, 2) =
     \<lparr>se_checked = True, se_matches = True, se_missing = [], se_mismatched = []\<rparr>"
proof -
  have f: "demo_disk ''/a.ts'' = Some \<lparr>df_size = 4, df_mtimeMs = 7, df_ctimeMs = 7, df_mtime = 7, df_ctime = 7,
      df_text = demo_text, df_sha256 = ''ab''\<rparr>" (is "_ = Some ?f") by (simp add: demo_disk_def)
  have "hashedWindow (rr_effectiveOffset demo_read) (rr_effectiveLimit demo_read) = Some (1, 2)"
    by (simp add: demo_read_def hashedWindow_def READ_HASH_MAX_LINES_def)
  from fresh_evidence_matches [where disk = demo_disk and path = "''/a.ts''", OF f _ this, of 1 2] show ?thesis
    by (simp add: SCAN_MAX_BYTES_def demo_lines) (simp add: demo_read_def)
qed

section \<open>Literals\<close>

text \<open>The text of an ASCII literal, and the code unit of a colon.\<close>

definition units :: "string \<Rightarrow> js_text" where
  "units s = map of_char s"

definition COLON :: code_unit where "COLON = 58"

end
