(* ===== verification/Posix_Path.thy ===== *)
theory Posix_Path
  imports Line_Evidence
begin

text \<open>
  The POSIX half of Node's \<open>path\<close> module, as far as the repository uses it: \<open>dirname\<close>,
  \<open>basename\<close>, \<open>normalize\<close>, \<open>join\<close>, \<open>resolve\<close>, \<open>relative\<close>, \<open>isAbsolute\<close>. A path is a text
  (a list of code units); its segments are what \<open>split("/")\<close> gives. A canonical path is
  the form the kernel answers with: absolute, no empty and no dot segment, no trailing slash.
\<close>

definition SLASH :: code_unit where "SLASH = 47"
definition DOT :: code_unit where "DOT = 46"

section \<open>Splitting and joining at slashes\<close>

fun split_slash :: "js_text \<Rightarrow> js_text list" where
  "split_slash [] = [[]]"
| "split_slash (c # cs) =
     (case split_slash cs of
        [] \<Rightarrow> [[c]]
      | s # ss \<Rightarrow> if c = SLASH then [] # s # ss else (c # s) # ss)"

fun join_slash :: "js_text list \<Rightarrow> js_text" where
  "join_slash [] = []"
| "join_slash [s] = s"
| "join_slash (s # ss) = s @ SLASH # join_slash ss"

lemma split_slash_not_Nil [simp]: "split_slash p \<noteq> []"
  by (induction p) (auto split: list.splits)

lemma split_slash_Cons_if:
  "split_slash (c # cs) =
     (if c = SLASH then [] # split_slash cs else (c # hd (split_slash cs)) # tl (split_slash cs))"
  by (auto split: list.splits)

declare split_slash.simps(2) [simp del]
declare split_slash_Cons_if [simp]

lemma join_split_slash [simp]: "join_slash (split_slash p) = p"
proof (induction p)
  case (Cons c cs)
  obtain s ss where split: "split_slash cs = s # ss" by (cases "split_slash cs") auto
  with Cons show ?case by (cases ss) auto
qed simp

lemma split_slash_word: "SLASH \<notin> set w \<Longrightarrow> split_slash w = [w]"
  by (induction w) auto

lemma split_slash_append: "split_slash (p @ SLASH # q) = split_slash p @ split_slash q"
proof (induction p)
  case (Cons c cs)
  then show ?case by (cases "split_slash cs") auto
qed simp

lemma split_slash_Cons: "SLASH \<notin> set w \<Longrightarrow> split_slash (w @ SLASH # q) = w # split_slash q"
  by (simp add: split_slash_append split_slash_word)

lemma split_slash_slashless: "s \<in> set (split_slash p) \<Longrightarrow> SLASH \<notin> set s"
proof (induction p arbitrary: s)
  case (Cons c cs)
  obtain t ts where split: "split_slash cs = t # ts" by (cases "split_slash cs") auto
  with Cons show ?case by (auto split: if_splits)
qed simp

text \<open>The segments that name something: the empty ones come from doubled and outer slashes.\<close>

definition segs :: "js_text \<Rightarrow> js_text list" where
  "segs p = filter (\<lambda>s. s \<noteq> []) (split_slash p)"

lemma segs_append: "segs (p @ SLASH # q) = segs p @ segs q"
  by (simp add: segs_def split_slash_append)

lemma segs_Nil [simp]: "segs [] = []"
  by (simp add: segs_def)

lemma segs_Cons_SLASH [simp]: "segs (SLASH # q) = segs q"
  by (simp add: segs_def)

lemma segs_word: "SLASH \<notin> set w \<Longrightarrow> w \<noteq> [] \<Longrightarrow> segs w = [w]"
  by (simp add: segs_def split_slash_word)

lemma segs_slashes: "set q \<subseteq> {SLASH} \<Longrightarrow> segs q = []"
  by (induction q) auto

lemma segs_append_slashes: "set q \<subseteq> {SLASH} \<Longrightarrow> segs (p @ q) = segs p"
  by (cases q) (auto simp: segs_append segs_slashes)

section \<open>Dot segments\<close>

definition plain :: "js_text \<Rightarrow> bool" where
  "plain s = (s \<noteq> [] \<and> s \<noteq> [DOT] \<and> s \<noteq> [DOT, DOT] \<and> SLASH \<notin> set s)"

text \<open>\<open>normalizeString\<close>, on segments: \<open>seen\<close> holds the kept ones, last first.\<close>

fun fold_dots :: "bool \<Rightarrow> js_text list \<Rightarrow> js_text list \<Rightarrow> js_text list" where
  "fold_dots allowAboveRoot seen [] = rev seen"
| "fold_dots allowAboveRoot seen (s # ss) =
     (if s = [] \<or> s = [DOT] then fold_dots allowAboveRoot seen ss
      else if s = [DOT, DOT]
      then (if seen \<noteq> [] \<and> hd seen \<noteq> [DOT, DOT] then fold_dots allowAboveRoot (tl seen) ss
            else if allowAboveRoot then fold_dots allowAboveRoot ([DOT, DOT] # seen) ss
            else fold_dots allowAboveRoot seen ss)
      else fold_dots allowAboveRoot (s # seen) ss)"

lemma fold_dots_plain:
  "list_all plain seen \<Longrightarrow> list_all (\<lambda>s. SLASH \<notin> set s) ss \<Longrightarrow> list_all plain (fold_dots False seen ss)"
proof (induction ss arbitrary: seen)
  case (Cons s ss)
  have "list_all plain (tl seen)" using Cons.prems(1) by (cases seen) auto
  moreover have "list_all plain (s # seen)" if "s \<noteq> []" "s \<noteq> [DOT]" "s \<noteq> [DOT, DOT]"
    using that Cons.prems by (simp add: plain_def [of s])
  ultimately show ?case using Cons by simp
qed (simp add: list_all_iff)

lemma fold_dots_id: "list_all plain ss \<Longrightarrow> fold_dots allow seen ss = rev seen @ ss"
  by (induction ss arbitrary: seen) (auto simp: plain_def)

lemma fold_dots_drop_empty: "fold_dots allow seen (filter (\<lambda>s. s \<noteq> []) ss) = fold_dots allow seen ss"
  by (induction ss arbitrary: seen) auto

section \<open>The functions\<close>

definition isAbsolute :: "js_text \<Rightarrow> bool" where
  "isAbsolute p = (p \<noteq> [] \<and> hd p = SLASH)"

definition dirname :: "js_text \<Rightarrow> js_text" where
  "dirname p =
     (if p = [] then [DOT]
      else
        let hasRoot = (hd p = SLASH);
            rest = dropWhile (\<lambda>c. c \<noteq> SLASH) (dropWhile (\<lambda>c. c = SLASH) (rev (tl p)))
        in if rest = [] then (if hasRoot then [SLASH] else [DOT])
           else if hasRoot \<and> length rest = 1 then [SLASH, SLASH]
           else take (length rest) p)"

definition basename :: "js_text \<Rightarrow> js_text" where
  "basename p = rev (takeWhile (\<lambda>c. c \<noteq> SLASH) (dropWhile (\<lambda>c. c = SLASH) (rev p)))"

definition normalize :: "js_text \<Rightarrow> js_text" where
  "normalize p =
     (if p = [] then [DOT]
      else
        let trailing = (last p = SLASH);
            body = join_slash (fold_dots (\<not> isAbsolute p) [] (split_slash p))
        in if body = [] then (if isAbsolute p then [SLASH] else if trailing then [DOT, SLASH] else [DOT])
           else let full = (if trailing then body @ [SLASH] else body)
                in if isAbsolute p then SLASH # full else full)"

definition path_join :: "js_text list \<Rightarrow> js_text" where
  "path_join parts = normalize (join_slash (filter (\<lambda>s. s \<noteq> []) parts))"

text \<open>\<open>path.resolve(p)\<close> in a process whose working directory is \<open>cwd\<close>.\<close>

definition path_resolve :: "js_text \<Rightarrow> js_text \<Rightarrow> js_text" where
  "path_resolve cwd p =
     SLASH # join_slash (fold_dots False [] (split_slash (if isAbsolute p then p else cwd @ SLASH # p)))"

fun strip_common :: "js_text list \<Rightarrow> js_text list \<Rightarrow> js_text list \<times> js_text list" where
  "strip_common (a # as) (b # bs) = (if a = b then strip_common as bs else (a # as, b # bs))"
| "strip_common as bs = (as, bs)"

definition path_relative :: "js_text \<Rightarrow> js_text \<Rightarrow> js_text \<Rightarrow> js_text" where
  "path_relative cwd origin target =
     (let (up, down) = strip_common (segs (path_resolve cwd origin)) (segs (path_resolve cwd target))
      in join_slash (map (\<lambda>_. [DOT, DOT]) up @ down))"

section \<open>Canonical paths\<close>

definition abs_path :: "js_text list \<Rightarrow> js_text" where
  "abs_path ss = SLASH # join_slash ss"

definition canonical :: "js_text \<Rightarrow> bool" where
  "canonical p = (list_all plain (segs p) \<and> p = abs_path (segs p))"

lemma join_slash_append:
  "as \<noteq> [] \<Longrightarrow> bs \<noteq> [] \<Longrightarrow> join_slash (as @ bs) = join_slash as @ SLASH # join_slash bs"
proof (induction as rule: join_slash.induct)
  case (2 s)
  then show ?case by (cases bs) auto
qed auto

lemma plain_not_Nil: "list_all plain ss \<Longrightarrow> [] \<notin> set ss"
  by (auto simp: list_all_iff plain_def)

lemma split_join_slash:
  "ss \<noteq> [] \<Longrightarrow> list_all (\<lambda>s. SLASH \<notin> set s) ss \<Longrightarrow> split_slash (join_slash ss) = ss"
  by (induction ss rule: join_slash.induct) (auto simp: split_slash_word split_slash_Cons)

lemma plain_slashless: "list_all plain ss \<Longrightarrow> list_all (\<lambda>s. SLASH \<notin> set s) ss"
  by (auto simp: list_all_iff plain_def)

lemma segs_join_slash: "list_all plain ss \<Longrightarrow> segs (join_slash ss) = ss"
proof (cases "ss = []")
  case False
  assume plain: "list_all plain ss"
  have "segs (join_slash ss) = filter (\<lambda>s. s \<noteq> []) ss"
    unfolding segs_def split_join_slash [OF False plain_slashless [OF plain]] by (rule refl)
  also have "\<dots> = ss" using plain_not_Nil [OF plain] by (induction ss) auto
  finally show ?thesis .
qed simp

lemma segs_abs_path [simp]: "list_all plain ss \<Longrightarrow> segs (abs_path ss) = ss"
  by (simp add: abs_path_def segs_join_slash)

lemma canonical_abs_path [simp]: "list_all plain ss \<Longrightarrow> canonical (abs_path ss)"
  by (simp add: canonical_def)

lemma canonicalE:
  assumes "canonical p" obtains ss where "list_all plain ss" "p = abs_path ss" "segs p = ss"
  using assms unfolding canonical_def by blast

lemma abs_path_Nil [simp]: "abs_path [] = [SLASH]"
  by (simp add: abs_path_def)

lemma isAbsolute_abs_path [simp]: "isAbsolute (abs_path ss)"
  by (simp add: abs_path_def isAbsolute_def)

lemma join_slash_empty: "join_slash ss = [] \<longleftrightarrow> ss = [] \<or> ss = [[]]"
  by (cases ss rule: join_slash.cases) auto

lemma join_plain_empty [simp]: "list_all plain ss \<Longrightarrow> join_slash ss = [] \<longleftrightarrow> ss = []"
  by (auto simp: join_slash_empty plain_def)

lemma abs_path_snoc:
  "abs_path (ss @ [m]) = (if ss = [] then SLASH # m else abs_path ss @ SLASH # m)"
  by (simp add: abs_path_def join_slash_append)

section \<open>Parents and names\<close>

text \<open>The parts of a path that does not end in a slash.\<close>

lemma basename_slash:
  assumes "SLASH \<notin> set m" "m \<noteq> []" shows "basename (p @ SLASH # m) = m"
proof -
  obtain c cs where "rev m = c # cs" using assms(2) by (cases "rev m") auto
  moreover have "SLASH \<notin> set (rev m)" using assms(1) by simp
  ultimately have "dropWhile (\<lambda>c. c = SLASH) (rev m @ SLASH # rev p) = rev m @ SLASH # rev p" by auto
  moreover have "takeWhile (\<lambda>c. c \<noteq> SLASH) (rev m @ SLASH # rev p) = rev m"
    using assms(1) by (subst takeWhile_append2) auto
  ultimately show ?thesis by (simp add: basename_def)
qed

lemma dirname_slash:
  assumes "SLASH \<notin> set m" "m \<noteq> []"
  shows "dirname (p @ SLASH # m) = (if p = [] then [SLASH] else if p = [SLASH] then [SLASH, SLASH] else p)"
proof -
  have skip: "dropWhile (\<lambda>c. c = SLASH) (rev m @ ys) = rev m @ ys" for ys
  proof -
    obtain c cs where "rev m = c # cs" using assms(2) by (cases "rev m") auto
    moreover have "SLASH \<notin> set (rev m)" using assms(1) by simp
    ultimately show ?thesis by auto
  qed
  have word: "dropWhile (\<lambda>c. c \<noteq> SLASH) (rev m @ ys) = dropWhile (\<lambda>c. c \<noteq> SLASH) ys" for ys
    using assms(1) by (subst dropWhile_append2) auto
  show ?thesis
  proof (cases p)
    case Nil
    then show ?thesis using word [of "[]"] skip [of "[]"] by (simp add: dirname_def)
  next
    case (Cons c cs)
    have "rev (tl (p @ SLASH # m)) = rev m @ SLASH # rev cs" by (simp add: Cons)
    then have rest: "dropWhile (\<lambda>c. c \<noteq> SLASH) (dropWhile (\<lambda>c. c = SLASH) (rev (tl (p @ SLASH # m)))) = SLASH # rev cs"
      by (simp only: skip word) simp
    then show ?thesis unfolding dirname_def Let_def rest by (auto simp: Cons)
  qed
qed

lemma basename_abs_path: "plain m \<Longrightarrow> basename (abs_path (ss @ [m])) = m"
  using basename_slash [of m "[]"] basename_slash [of m "abs_path ss"]
  by (auto simp: abs_path_snoc plain_def)

lemma dirname_abs_path:
  assumes "list_all plain ss" "plain m" shows "dirname (abs_path (ss @ [m])) = abs_path ss"
proof (cases "ss = []")
  case True
  then show ?thesis using assms(2) dirname_slash [of m "[]"] by (simp add: abs_path_def plain_def)
next
  case False
  then have "abs_path ss \<noteq> [SLASH]" using assms(1) by (simp add: abs_path_def)
  then show ?thesis using False assms(2) dirname_slash [of m "abs_path ss"]
    by (simp add: abs_path_snoc plain_def) (simp add: abs_path_def)
qed

section \<open>Rooted paths\<close>

text \<open>An absolute path that does not open with two slashes.\<close>

definition rooted :: "js_text \<Rightarrow> bool" where
  "rooted p = (isAbsolute p \<and> (tl p = [] \<or> hd (tl p) \<noteq> SLASH))"

lemma plain_hd: "plain s \<Longrightarrow> s \<noteq> [] \<and> hd s \<noteq> SLASH"
  by (cases s) (auto simp: plain_def)

lemma rooted_abs_path [simp]: "list_all plain ss \<Longrightarrow> rooted (abs_path ss)"
  by (cases ss rule: join_slash.cases) (auto simp: rooted_def isAbsolute_def abs_path_def hd_append dest: plain_hd)

lemma canonical_rooted: "canonical p \<Longrightarrow> rooted p"
  by (auto elim: canonicalE)

text \<open>A rooted path other than the root is a parent, a slash, a name and trailing slashes.\<close>

lemma rooted_cases:
  assumes "rooted p"
  obtains (root_dir) "p = [SLASH]"
    | (entry) d m t where "p = d @ SLASH # m @ t" "SLASH \<notin> set m" "m \<noteq> []" "set t \<subseteq> {SLASH}" "d = [] \<or> rooted d"
proof (cases "tl p = []")
  case True
  with assms show ?thesis by (cases p) (auto simp: rooted_def isAbsolute_def intro: root_dir)
next
  case False
  from assms False obtain c cs where p: "p = SLASH # c # cs" and c: "c \<noteq> SLASH"
    unfolding rooted_def isAbsolute_def by (cases p; cases "tl p") auto
  define t where "t = rev (takeWhile (\<lambda>c. c = SLASH) (rev p))"
  define skip where "skip = dropWhile (\<lambda>c. c = SLASH) (rev p)"
  define m where "m = rev (takeWhile (\<lambda>c. c \<noteq> SLASH) skip)"
  define r where "r = dropWhile (\<lambda>c. c \<noteq> SLASH) skip"
  have "c \<in> set p" using p by simp
  then have skip: "skip \<noteq> []" using c unfolding skip_def by (auto simp: dropWhile_eq_Nil_conv)
  then have "hd skip \<noteq> SLASH" unfolding skip_def using hd_dropWhile [of "\<lambda>c. c = SLASH" "rev p"] by blast
  then have m: "m \<noteq> []" unfolding m_def using skip by (cases skip) auto
  have "rev p = rev t @ skip" unfolding t_def skip_def by simp
  moreover have "skip = rev m @ r" unfolding m_def r_def by simp
  ultimately have "rev p = rev t @ rev m @ r" by simp
  then have split: "p = rev r @ m @ t" by (metis append_assoc rev_append rev_rev_ident)
  have slashless: "SLASH \<notin> set m" unfolding m_def using set_takeWhileD [of SLASH "\<lambda>c. c \<noteq> SLASH" skip] by auto
  have "r \<noteq> []"
  proof
    assume "r = []"
    with split m have "hd p \<in> set m" by (cases m) auto
    with slashless p show False by simp
  qed
  then have "hd r = SLASH" unfolding r_def using hd_dropWhile [of "\<lambda>c. c \<noteq> SLASH" skip] by blast
  with \<open>r \<noteq> []\<close> obtain d where d: "rev r = d @ [SLASH]" by (cases r) auto
  have "d = [] \<or> rooted d"
  proof (cases d)
    case (Cons e es)
    with split d p have "e = SLASH" by simp
    moreover have "es = [] \<longrightarrow> False"
      using split d p c Cons by auto
    moreover have "es \<noteq> [] \<longrightarrow> hd es = c" using split d p Cons by (cases es) auto
    ultimately show ?thesis using Cons c by (auto simp: rooted_def isAbsolute_def)
  qed simp
  moreover have "set t \<subseteq> {SLASH}" unfolding t_def by (auto dest: set_takeWhileD)
  ultimately show ?thesis using split d m slashless entry [of d m t] by simp
qed

lemma basename_trailing: "set t \<subseteq> {SLASH} \<Longrightarrow> basename (p @ t) = basename p"
proof -
  assume "set t \<subseteq> {SLASH}"
  then have "dropWhile (\<lambda>c. c = SLASH) (rev t @ rev p) = dropWhile (\<lambda>c. c = SLASH) (rev p)"
    by (intro dropWhile_append2) auto
  then show ?thesis by (simp add: basename_def)
qed

lemma dirname_trailing:
  assumes "set t \<subseteq> {SLASH}" "tl p \<noteq> []" shows "dirname (p @ t) = dirname p"
proof -
  obtain c cs where p: "p = c # cs" using assms(2) by (cases p) auto
  let ?rest = "dropWhile (\<lambda>c. c \<noteq> SLASH) (dropWhile (\<lambda>c. c = SLASH) (rev cs))"
  have "dropWhile (\<lambda>c. c = SLASH) (rev t @ rev cs) = dropWhile (\<lambda>c. c = SLASH) (rev cs)"
    by (rule dropWhile_append2) (use assms(1) in auto)
  then have rest: "dropWhile (\<lambda>c. c \<noteq> SLASH) (dropWhile (\<lambda>c. c = SLASH) (rev (tl (p @ t)))) = ?rest"
    by (simp only: p list.sel append_Cons rev_append)
  have "length ?rest \<le> length cs"
    by (metis dual_order.trans length_dropWhile_le length_rev)
  then have "length ?rest \<le> length p" by (simp only: p list.size add_Suc_right add_0_right le_SucI)
  moreover have "n \<le> length p \<Longrightarrow> take n (p @ t) = take n p" for n by simp
  ultimately have "take (length ?rest) (p @ t) = take (length ?rest) p" by blast
  then show ?thesis unfolding dirname_def Let_def rest by (simp only: p list.sel append_Cons list.distinct if_False)
qed

lemma rooted_parts:
  assumes "rooted p" "p \<noteq> [SLASH]"
  obtains d where "dirname p = (if d = [] then [SLASH] else d)" "d = [] \<or> rooted d"
    "segs p = segs d @ [basename p]" "basename p \<noteq> []" "SLASH \<notin> set (basename p)"
    "length d < length p"
  using assms(1)
proof (cases rule: rooted_cases)
  case (entry d m t)
  have tail: "tl (d @ SLASH # m) \<noteq> []" using entry(3) by (cases d) auto
  have name: "basename p = m"
    using basename_trailing [OF entry(4), of "d @ SLASH # m"] basename_slash [OF entry(2,3), of d]
    by (simp add: entry(1))
  have "d \<noteq> [SLASH]"
    using assms(1) entry(1) by (auto simp: rooted_def isAbsolute_def)
  then have dir: "dirname p = (if d = [] then [SLASH] else d)"
    using dirname_trailing [OF entry(4) tail] dirname_slash [OF entry(2,3), of d] by (simp add: entry(1))
  have "segs p = segs d @ [m]"
    using segs_append_slashes [OF entry(4), of "d @ SLASH # m"]
    by (simp add: entry(1) segs_append segs_word [OF entry(2,3)])
  with dir entry name show ?thesis by (intro that [of d]) simp_all
qed (use assms(2) in auto)

lemma rooted_step:
  assumes "rooted p" "p \<noteq> [SLASH]"
  shows "rooted (dirname p)" and "basename p \<noteq> []" and "SLASH \<notin> set (basename p)"
    and "segs p = segs (dirname p) @ [basename p]" and "dirname p \<noteq> p"
proof -
  have "rooted [SLASH]" by (simp add: rooted_def isAbsolute_def)
  with rooted_parts [OF assms]
  show "rooted (dirname p)" "basename p \<noteq> []" "SLASH \<notin> set (basename p)"
    "segs p = segs (dirname p) @ [basename p]" "dirname p \<noteq> p"
    using assms(2) by (metis, metis, metis, metis segs_Cons_SLASH segs_Nil, metis less_irrefl)
qed

text \<open>What \<open>normalize\<close> and \<open>join\<close> make of an absolute path.\<close>

lemma split_slash_absolute: "isAbsolute p \<Longrightarrow> split_slash p = [] # split_slash (tl p)"
  by (cases p) (auto simp: isAbsolute_def)

lemma normalize_absolute:
  assumes "isAbsolute p" "last p \<noteq> SLASH"
  shows "normalize p = abs_path (fold_dots False [] (segs p))"
proof -
  have "p \<noteq> []" using assms(1) by (simp add: isAbsolute_def)
  moreover have "fold_dots False [] (segs p) = fold_dots False [] (split_slash p)"
    by (simp add: segs_def fold_dots_drop_empty)
  ultimately show ?thesis using assms by (simp add: normalize_def abs_path_def Let_def)
qed

lemma join_slash_head: "join_slash (s # ss) = (if ss = [] then s else s @ SLASH # join_slash ss)"
  by (cases ss) auto

lemma path_join_absolute:
  assumes "canonical real" "[] \<notin> set ms" "list_all (\<lambda>m. SLASH \<notin> set m) ms" "ms \<noteq> []"
  shows "path_join (real # ms) = abs_path (fold_dots False [] (segs real @ ms))"
proof -
  from assms(1) have abs: "isAbsolute real" and "real \<noteq> []" by (auto elim!: canonicalE simp: abs_path_def isAbsolute_def)
  have all: "filter (\<lambda>s. s \<noteq> []) (real # ms) = real # ms"
    using \<open>real \<noteq> []\<close> assms(2) by (auto intro: filter_True)
  define whole where "whole = real @ SLASH # join_slash ms"
  have whole: "join_slash (real # ms) = whole" using assms(4) by (simp add: whole_def join_slash_head)
  have "isAbsolute whole" using abs by (auto simp: whole_def isAbsolute_def)
  moreover have "last whole \<noteq> SLASH"
  proof -
    have "last (join_slash ms) = last (last ms) \<and> join_slash ms \<noteq> []" using assms(2,4)
      by (induction ms rule: join_slash.induct) auto
    moreover have "last (last ms) \<in> set (last ms)" "last ms \<in> set ms" using assms(2,4)
      by (metis last_in_set)+
    ultimately show ?thesis using assms(3) by (auto simp: whole_def list_all_iff)
  qed
  ultimately have "normalize whole = abs_path (fold_dots False [] (segs whole))" by (rule normalize_absolute)
  moreover have "segs whole = segs real @ ms"
  proof -
    have "segs (join_slash ms) = filter (\<lambda>s. s \<noteq> []) ms"
      unfolding segs_def split_join_slash [OF assms(4,3)] by (rule refl)
    moreover have "filter (\<lambda>s. s \<noteq> []) ms = ms" using assms(2) by (auto intro: filter_True)
    ultimately show ?thesis by (simp add: whole_def segs_append)
  qed
  ultimately show ?thesis unfolding path_join_def all whole by simp
qed

section \<open>The directories above a path\<close>

text \<open>The path itself, its \<open>dirname\<close> and so on, up to the one that is its own \<open>dirname\<close>.\<close>

lemma dirname_shorter:
  assumes "dirname p \<noteq> p" "dirname p \<noteq> [DOT]" shows "length (dirname p) < length p"
proof (cases p)
  case (Cons c cs)
  let ?skip = "dropWhile (\<lambda>c. c = SLASH) (rev cs)"
  let ?rest = "dropWhile (\<lambda>c. c \<noteq> SLASH) ?skip"
  have skip: "length ?skip \<le> length cs" by (metis length_dropWhile_le length_rev)
  have rest: "length ?rest < length ?skip" if "?rest \<noteq> []"
  proof (cases ?skip)
    case (Cons a list)
    then have "a \<noteq> SLASH" using hd_dropWhile [of "\<lambda>c. c = SLASH" "rev cs"] by auto
    with Cons show ?thesis by (simp add: less_Suc_eq_le length_dropWhile_le)
  next
    case Nil
    with that show ?thesis by (metis dropWhile.simps(1))
  qed
  show ?thesis
  proof (cases "?rest = []")
    case True
    then have "dirname p = (if c = SLASH then [SLASH] else [DOT])"
      unfolding dirname_def Let_def Cons by (simp only: list.sel list.distinct if_True if_False refl)
    with assms Cons have "dirname p = [SLASH]" "cs \<noteq> []" by (auto split: if_splits)
    then show ?thesis by (simp add: Cons)
  next
    case False
    then have dir: "dirname p = (if c = SLASH \<and> length ?rest = 1 then [SLASH, SLASH] else take (length ?rest) p)"
      unfolding dirname_def Let_def Cons by (simp only: list.sel list.distinct if_False)
    have "length ?rest < length cs" using rest [OF False] skip by linarith
    then show ?thesis unfolding dir by (cases "c = SLASH \<and> length ?rest = 1") (simp_all add: Cons)
  qed
qed (use assms in \<open>auto simp: dirname_def\<close>)

lemma dirname_DOT [simp]: "dirname [DOT] = [DOT]"
  by (simp add: dirname_def DOT_def SLASH_def)

function ancestors :: "js_text \<Rightarrow> js_text list" where
  "ancestors current =
     (let parent = dirname current in if parent = current then [current] else current # ancestors parent)"
  by pat_completeness auto
termination
  by (relation "measure (\<lambda>p. if p = [DOT] then 0 else Suc (length p))")
     (auto dest: dirname_shorter)

declare ancestors.simps [simp del]

lemma ancestors_self: "k \<in> set (ancestors k)"
  by (subst ancestors.simps) (simp add: Let_def)

end
