(* ===== verification/Spawn_Cooldown.thy ===== *)
theory Spawn_Cooldown
  imports Posix_Path
begin

text \<open>
  \<open>src/clients/spawn-timeout-cooldown.ts\<close>: the commands whose spawn timed out in this session,
  shared by every lane that would run them. \<open>toLowerCase\<close>, the clock and the normalization of a
  logged path are arguments.
\<close>

record SpawnTimeoutRecord =
  st_tool :: js_text
  st_command :: js_text
  st_phase :: js_text
  st_atMs :: int

datatype teardown_outcome = Exited | Killed_by_signal | Escalate_kill

record NoteSpawnTimeoutInput =
  ni_tool :: js_text
  ni_command :: js_text
  ni_phase :: js_text
  ni_durationMs :: "int option"
  ni_teardown :: "(int \<times> teardown_outcome) option"

text \<open>The row \<open>logLatency\<close> gets.\<close>

record cooldown_row =
  cr_toolName :: js_text
  cr_filePath :: js_text
  cr_durationMs :: int
  cr_command :: js_text
  cr_wrapperKind :: js_text
  cr_timeoutPhase :: js_text
  cr_timeoutBudgetMs :: "int option"
  cr_teardown :: "(int \<times> teardown_outcome) option"

record cooldown_state =
  cs_timedOutByCommand :: "(js_text, SpawnTimeoutRecord) jmap"
  cs_rows :: "cooldown_row list"

definition DOT :: code_unit where "DOT = 46"

text \<open>
  \<open>path.extname\<close> of a base name: from its last dot on, if something but dots stands before it;
  two dots alone have none.
\<close>

definition extname_of_base :: "js_text \<Rightarrow> js_text" where
  "extname_of_base base =
     (let ext = rev (takeWhile (\<lambda>c. c \<noteq> DOT) (rev base));
          before = take (length base - length ext - 1) base
      in if DOT \<notin> set base \<or> before = [] \<or> base = [DOT, DOT] then [] else DOT # ext)"

definition wrapperKindOf :: "js_text \<Rightarrow> js_text" where
  "wrapperKindOf command =
     (let ext = extname_of_base (basename command) in if ext \<noteq> [] then tl ext else units ''bare'')"

text \<open>\<open>base.replace(/\.[^.]+$/, "")\<close>.\<close>

definition drop_extension :: "js_text \<Rightarrow> js_text" where
  "drop_extension base =
     (let ext = takeWhile (\<lambda>c. c \<noteq> DOT) (rev base)
      in if DOT \<in> set base \<and> ext \<noteq> [] then take (length base - length ext - 1) base else base)"

definition cooldownKey :: "(js_text \<Rightarrow> js_text) \<Rightarrow> js_text \<Rightarrow> js_text" where
  "cooldownKey toLowerCase command = toLowerCase (drop_extension (basename command))"

definition noteSpawnTimeout ::
    "(js_text \<Rightarrow> js_text) \<Rightarrow> (js_text \<Rightarrow> js_text) \<Rightarrow> int \<Rightarrow> NoteSpawnTimeoutInput \<Rightarrow> cooldown_state \<Rightarrow> cooldown_state" where
  "noteSpawnTimeout toLowerCase normalizeLoggedPath now i st =
     st\<lparr>cs_timedOutByCommand := jm_set (cooldownKey toLowerCase (ni_command i))
          \<lparr>st_tool = ni_tool i, st_command = ni_command i, st_phase = ni_phase i, st_atMs = now\<rparr> (cs_timedOutByCommand st),
        cs_rows := cs_rows st @ [\<lparr>cr_toolName = ni_tool i, cr_filePath = normalizeLoggedPath (ni_command i),
          cr_durationMs = (case ni_durationMs i of Some ms \<Rightarrow> ms | None \<Rightarrow> 0), cr_command = ni_command i,
          cr_wrapperKind = wrapperKindOf (ni_command i), cr_timeoutPhase = ni_phase i,
          cr_timeoutBudgetMs = ni_durationMs i, cr_teardown = ni_teardown i\<rparr>]\<rparr>"

definition isInSpawnTimeoutCooldown :: "(js_text \<Rightarrow> js_text) \<Rightarrow> js_text \<Rightarrow> cooldown_state \<Rightarrow> bool" where
  "isInSpawnTimeoutCooldown toLowerCase command st = jm_has (cs_timedOutByCommand st) (cooldownKey toLowerCase command)"

definition resetSpawnTimeoutCooldowns :: "cooldown_state \<Rightarrow> cooldown_state" where
  "resetSpawnTimeoutCooldowns st = st\<lparr>cs_timedOutByCommand := []\<rparr>"

datatype cooldown_event = Timed_out_at int NoteSpawnTimeoutInput | Session_start

fun cooldown_step :: "(js_text \<Rightarrow> js_text) \<Rightarrow> (js_text \<Rightarrow> js_text) \<Rightarrow> cooldown_event \<Rightarrow> cooldown_state \<Rightarrow> cooldown_state" where
  "cooldown_step lower norm (Timed_out_at now i) st = noteSpawnTimeout lower norm now i st"
| "cooldown_step lower norm Session_start st = resetSpawnTimeoutCooldowns st"

text \<open>The commands that timed out since the last session start.\<close>

fun timed_out_since :: "cooldown_event \<Rightarrow> js_text list \<Rightarrow> js_text list" where
  "timed_out_since (Timed_out_at now i) cs = ni_command i # cs"
| "timed_out_since Session_start cs = []"

text \<open>
  A command is skipped exactly when a command with its base name, without extension and case,
  timed out since the session began, whichever lane paid for it; and every timeout leaves a row.
\<close>

theorem cooldown_is_shared_by_name:
  "isInSpawnTimeoutCooldown lower command (fold (cooldown_step lower norm) es \<lparr>cs_timedOutByCommand = [], cs_rows = []\<rparr>) =
     (cooldownKey lower command \<in> cooldownKey lower ` set (fold timed_out_since es [])) \<and>
   length (cs_rows (fold (cooldown_step lower norm) es \<lparr>cs_timedOutByCommand = [], cs_rows = []\<rparr>)) =
     length (filter (\<lambda>e. e \<noteq> Session_start) es)"
proof -
  have "(jm_has (cs_timedOutByCommand (fold (cooldown_step lower norm) es st)) k \<longleftrightarrow>
      k \<in> cooldownKey lower ` set (fold timed_out_since es cs)) \<and>
    length (cs_rows (fold (cooldown_step lower norm) es st)) = length (cs_rows st) + length (filter (\<lambda>e. e \<noteq> Session_start) es)"
    if "\<And>k. jm_has (cs_timedOutByCommand st) k \<longleftrightarrow> k \<in> cooldownKey lower ` set cs" for st cs k
    using that
  proof (induction es arbitrary: st cs)
    case (Cons e es)
    have "jm_has (cs_timedOutByCommand (cooldown_step lower norm e st)) k \<longleftrightarrow> k \<in> cooldownKey lower ` set (timed_out_since e cs)" for k
    proof (cases e)
      case (Timed_out_at now i)
      with Cons.prems [of k] show ?thesis by (simp add: noteSpawnTimeout_def jm_has_set)
    qed (simp add: resetSpawnTimeoutCooldowns_def jm_has_iff)
    from Cons.IH [OF this] show ?case
      by (cases e) (auto simp: noteSpawnTimeout_def resetSpawnTimeoutCooldowns_def)
  qed simp
  from this [of "\<lparr>cs_timedOutByCommand = [], cs_rows = []\<rparr>" "[]"] show ?thesis
    by (auto simp: isInSpawnTimeoutCooldown_def jm_has_def)
qed

text \<open>Executables that differ in what looks like an extension share a cooldown.\<close>

lemma versions_share_a_cooldown:
  "cooldownKey id (units ''/usr/bin/python3.11'') = cooldownKey id (units ''/usr/bin/python3.12'')"
  by code_simp

end
