(* ===== verification/Text_Lines.thy ===== *)
theory Text_Lines
  imports Line_Evidence
begin

text \<open>
  Texts as the LSP edit path sees them: splitting at line feeds only
  (\<open>content.split("\n")\<close>; \<open>join_lf\<close> of \<open>Line_Evidence\<close> is \<open>lines.join("\n")\<close>), reading one line
  (\<open>lineTextAt\<close> of \<open>src/clients/lsp/content-scan.ts\<close>), line endings
  (\<open>src/clients/host-edit-normalize.ts\<close>) and position encodings
  (\<open>src/clients/lsp/position-encoding.ts\<close>).

  A text is a list of UTF-16 code units, so a character outside the basic plane is a pair of
  surrogates and a lone surrogate is possible, as in JavaScript. \<open>Buffer.byteLength\<close> counts
  a lone surrogate as the three bytes of U+FFFD.
\<close>

section \<open>Splitting and joining at line feeds\<close>

fun split_lf :: "js_text \<Rightarrow> js_text list" where
  "split_lf [] = [[]]"
| "split_lf (c # cs) =
     (if c = LF then [] # split_lf cs
      else (c # hd (split_lf cs)) # tl (split_lf cs))"

text \<open>The loop of \<open>lineTextAt\<close>: \<open>rest\<close> is the text from \<open>start\<close> on.\<close>

fun lineTextAt :: "js_text \<Rightarrow> nat \<Rightarrow> js_text" where
  "lineTextAt rest 0 = takeWhile (\<lambda>c. c \<noteq> LF) rest"
| "lineTextAt rest (Suc n) =
     (if LF \<notin> set rest then [] else lineTextAt (tl (dropWhile (\<lambda>c. c \<noteq> LF) rest)) n)"

section \<open>Line endings\<close>

datatype line_ending = CRLF_Ending | LF_Ending

text \<open>\<open>s.indexOf(needle)\<close>.\<close>

fun index_of :: "js_text \<Rightarrow> js_text \<Rightarrow> nat option" where
  "index_of [] needle = (if needle = [] then Some 0 else None)"
| "index_of (c # cs) needle =
     (if take (length needle) (c # cs) = needle then Some 0
      else map_option Suc (index_of cs needle))"

definition detectLineEnding :: "js_text \<Rightarrow> line_ending" where
  "detectLineEnding content =
     (case index_of content [LF] of
        None \<Rightarrow> LF_Ending
      | Some lfIdx \<Rightarrow>
          (case index_of content [CR, LF] of
             None \<Rightarrow> LF_Ending
           | Some crlfIdx \<Rightarrow> if crlfIdx < lfIdx then CRLF_Ending else LF_Ending))"

text \<open>\<open>text.replace(/\r\n/g, "\n")\<close>.\<close>

fun crlf_to_lf :: "js_text \<Rightarrow> js_text" where
  "crlf_to_lf [] = []"
| "crlf_to_lf [c] = [c]"
| "crlf_to_lf (c # d # rest) =
     (if c = CR \<and> d = LF then LF # crlf_to_lf rest else c # crlf_to_lf (d # rest))"

definition normalizeToLF :: "js_text \<Rightarrow> js_text" where
  "normalizeToLF t = map (\<lambda>c. if c = CR then LF else c) (crlf_to_lf t)"

definition restoreLineEndings :: "js_text \<Rightarrow> line_ending \<Rightarrow> js_text" where
  "restoreLineEndings t ending =
     (case ending of
        CRLF_Ending \<Rightarrow> concat (map (\<lambda>c. if c = LF then [CR, LF] else [c]) t)
      | LF_Ending \<Rightarrow> t)"

section \<open>Position encodings\<close>

datatype position_encoding = UTF8 | UTF16 | UTF32

definition is_high :: "code_unit \<Rightarrow> bool" where
  "is_high c = (0xD800 \<le> c \<and> c \<le> 0xDBFF)"

definition is_low :: "code_unit \<Rightarrow> bool" where
  "is_low c = (0xDC00 \<le> c \<and> c \<le> 0xDFFF)"

text \<open>\<open>Buffer.byteLength(s, "utf8")\<close> and \<open>[...s].length\<close>.\<close>

definition utf8_width :: "code_unit \<Rightarrow> nat" where
  "utf8_width c = (if c < 0x80 then 1 else if c < 0x800 then 2 else 3)"

fun utf8_length :: "js_text \<Rightarrow> nat" where
  "utf8_length [] = 0"
| "utf8_length [c] = utf8_width c"
| "utf8_length (c # d # rest) =
     (if is_high c \<and> is_low d then 4 + utf8_length rest
      else utf8_width c + utf8_length (d # rest))"

fun code_points :: "js_text \<Rightarrow> nat" where
  "code_points [] = 0"
| "code_points [c] = 1"
| "code_points (c # d # rest) =
     (if is_high c \<and> is_low d then 1 + code_points rest else 1 + code_points (d # rest))"

definition convertCharacterOffset :: "position_encoding \<Rightarrow> js_text \<Rightarrow> nat \<Rightarrow> nat" where
  "convertCharacterOffset encoding lineText utf16Character =
     (if encoding = UTF16 then utf16Character
      else if utf16Character = 0 then 0
      else let clamped = min utf16Character (length lineText);
               pre = take clamped lineText
           in if encoding = UTF8 then utf8_length pre else code_points pre)"

section \<open>Lemmas on lines\<close>

lemma split_lf_not_Nil [simp]: "split_lf s \<noteq> []"
  by (cases s) auto

lemma split_lf_decomp: "hd (split_lf s) # tl (split_lf s) = split_lf s"
  by simp

lemma join_lf_Cons: "ls \<noteq> [] \<Longrightarrow> join_lf (l # ls) = l @ LF # join_lf ls"
  by (cases ls) auto

lemma join_lf_cons_head: "join_lf ((a @ x) # ys) = a @ join_lf (x # ys)"
  by (cases ys) auto

lemma join_lf_append: "ms \<noteq> [] \<Longrightarrow> ls \<noteq> [] \<Longrightarrow> join_lf (ls @ ms) = join_lf ls @ LF # join_lf ms"
  by (induction ls rule: join_lf.induct) (auto simp: join_lf_Cons)

lemma join_split_lf [simp]: "join_lf (split_lf s) = s"
proof (induction s)
  case (Cons c cs)
  show ?case
  proof (cases "c = LF")
    case True
    with Cons show ?thesis by (simp add: join_lf_Cons)
  next
    case False
    have "join_lf ((c # hd (split_lf cs)) # tl (split_lf cs)) = c # join_lf (hd (split_lf cs) # tl (split_lf cs))"
      using join_lf_cons_head [of "[c]"] by simp
    with False Cons show ?thesis by simp
  qed
qed simp

lemma split_lf_no_LF: "l \<in> set (split_lf s) \<Longrightarrow> LF \<notin> set l"
proof (induction s arbitrary: l)
  case (Cons c cs)
  then show ?case
    by (cases "split_lf cs") (auto split: if_splits)
qed simp

lemma split_lf_prefix: "LF \<notin> set a \<Longrightarrow> split_lf (a @ b) = (a @ hd (split_lf b)) # tl (split_lf b)"
  by (induction a) auto

lemma split_lf_nth_no_LF: "i < length (split_lf s) \<Longrightarrow> LF \<notin> set (split_lf s ! i)"
  by (metis nth_mem split_lf_no_LF)

text \<open>Joining back a split that replaced one line.\<close>

lemma join_split_append: "join_lf (split_lf u @ ys) = join_lf (u # ys)"
  by (cases "ys = []") (simp_all add: join_lf_append join_lf_Cons)

lemma split_lf_line: "LF \<notin> set l \<Longrightarrow> split_lf (l @ LF # s) = l # split_lf s"
  by (induction l) auto

lemma split_lf_single: "LF \<notin> set l \<Longrightarrow> split_lf l = [l]"
  by (induction l) auto

lemma text_line_cases:
  obtains (last_line) "LF \<notin> set s"
  | (line) l rest where "s = l @ LF # rest" "LF \<notin> set l"
      "takeWhile (\<lambda>c. c \<noteq> LF) s = l" "tl (dropWhile (\<lambda>c. c \<noteq> LF) s) = rest"
proof (cases "LF \<in> set s")
  case True
  then obtain l rest where s: "s = l @ LF # rest" "LF \<notin> set l" by (meson split_list_first)
  from s(2) have all: "\<forall>c \<in> set l. c \<noteq> LF" by blast
  show ?thesis
    by (rule line [OF s]) (simp_all add: s(1) all takeWhile_append2 dropWhile_append2)
qed (rule last_line)

lemma lineTextAt_split:
  "lineTextAt s n = (if n < length (split_lf s) then split_lf s ! n else [])"
proof (induction n arbitrary: s)
  case 0
  show ?case
    by (cases s rule: text_line_cases) (auto simp: split_lf_single split_lf_line takeWhile_eq_all_conv)
next
  case (Suc n)
  show ?case
    by (cases s rule: text_line_cases) (auto simp: split_lf_single split_lf_line Suc)
qed

end
