(* ===== verification/Oldtext_Patch.thy ===== *)
theory Oldtext_Patch
  imports Text_Lines
begin

text \<open>
  Matching the old text of an edit against a file: the normalization and the match decision of
  the host's edit tool (\<open>src/clients/host-edit-normalize.ts\<close>), the line range of a unique match
  and the repair of trailing white space (\<open>src/clients/oldtext-autopatch.ts\<close>).

  Unicode normalization (\<open>String.prototype.normalize\<close>) is an argument.
\<close>

section \<open>The match space of the host\<close>

definition HOST_SMART_SINGLE_QUOTES :: "code_unit list" where
  "HOST_SMART_SINGLE_QUOTES = [0x2018, 0x2019, 0x201A, 0x201B]"

definition HOST_SMART_DOUBLE_QUOTES :: "code_unit list" where
  "HOST_SMART_DOUBLE_QUOTES = [0x201C, 0x201D, 0x201E, 0x201F]"

definition HOST_UNICODE_DASHES :: "code_unit list" where
  "HOST_UNICODE_DASHES = [0x2010, 0x2011, 0x2012, 0x2013, 0x2014, 0x2015, 0x2212]"

definition HOST_SPECIAL_SPACES :: "code_unit list" where
  "HOST_SPECIAL_SPACES = [0xA0, 0x2002, 0x2003, 0x2004, 0x2005, 0x2006, 0x2007, 0x2008, 0x2009, 0x200A,
     0x202F, 0x205F, 0x3000]"

definition HOST_BOM_CODE_POINT :: code_unit where
  "HOST_BOM_CODE_POINT = 0xFEFF"

definition trim_end :: "js_text \<Rightarrow> js_text" where
  "trim_end line = rev (dropWhile is_space16 (rev line))"

definition blank_line :: "js_text \<Rightarrow> bool" where
  "blank_line line = list_all is_space16 line"

text \<open>The four replacements, on one code unit: their classes are disjoint.\<close>

definition fold_unit :: "code_unit \<Rightarrow> code_unit" where
  "fold_unit c =
     (if c \<in> set HOST_SMART_SINGLE_QUOTES then 39
      else if c \<in> set HOST_SMART_DOUBLE_QUOTES then 34
      else if c \<in> set HOST_UNICODE_DASHES then 45
      else if c \<in> set HOST_SPECIAL_SPACES then 32
      else c)"

definition normalizeForFuzzyMatch :: "(js_text \<Rightarrow> js_text) \<Rightarrow> js_text \<Rightarrow> js_text" where
  "normalizeForFuzzyMatch nfkc s = map fold_unit (join_lf (map trim_end (split_lf (nfkc s))))"

definition stripBom :: "js_text \<Rightarrow> js_text \<times> js_text" where
  "stripBom content =
     (case content of
        c # rest \<Rightarrow> (if c = HOST_BOM_CODE_POINT then ([c], rest) else ([], content))
      | [] \<Rightarrow> ([], content))"

definition normalizeForGuardMatch :: "(js_text \<Rightarrow> js_text) \<Rightarrow> js_text \<Rightarrow> js_text" where
  "normalizeForGuardMatch nfkc s = normalizeForFuzzyMatch nfkc (normalizeToLF (snd (stripBom s)))"

section \<open>Occurrences\<close>

lemma index_of_Some:
  "index_of s needle = Some i \<longleftrightarrow>
     (take (length needle) (drop i s) = needle \<and> i + length needle \<le> length s \<and>
      (\<forall>j < i. take (length needle) (drop j s) \<noteq> needle))"
proof (induction s arbitrary: i)
  case (Cons c cs)
  show ?case
  proof (cases i)
    case 0
    have "take (length needle) (c # cs) = needle \<Longrightarrow> length needle \<le> Suc (length cs)"
      by (metis length_Cons length_take min.cobounded1)
    with 0 show ?thesis by auto
  next
    case (Suc j)
    have "(\<forall>k < Suc j. take (length needle) (drop k (c # cs)) \<noteq> needle) \<longleftrightarrow>
        take (length needle) (c # cs) \<noteq> needle \<and> (\<forall>k < j. take (length needle) (drop k cs) \<noteq> needle)"
      by (auto simp: less_Suc_eq_0_disj)
    with Suc Cons.IH [of j] show ?thesis by auto
  qed
qed auto

lemma index_of_le: "index_of s needle = Some i \<Longrightarrow> i + length needle \<le> length s"
  by (simp add: index_of_Some)

lemma index_of_split:
  assumes "index_of s needle = Some i"
  shows "s = take i s @ needle @ drop (i + length needle) s"
proof -
  have "drop i s = needle @ drop (length needle) (drop i s)"
    using assms append_take_drop_id [of "length needle" "drop i s"] by (simp add: index_of_Some)
  then show ?thesis by (metis append_take_drop_id drop_drop add.commute)
qed

lemma index_of_None: "index_of s needle = None \<longleftrightarrow> (\<nexists>pre post. s = pre @ needle @ post)"
proof (induction s)
  case (Cons c cs)
  have "(\<exists>pre post. c # cs = pre @ needle @ post) \<longleftrightarrow>
      take (length needle) (c # cs) = needle \<or> (\<exists>pre post. cs = pre @ needle @ post)"
    (is "?l \<longleftrightarrow> ?r")
  proof
    assume ?l
    then obtain pre post where "c # cs = pre @ needle @ post" by blast
    then show ?r by (cases pre) auto
  next
    assume ?r
    then show ?l
    proof
      assume "take (length needle) (c # cs) = needle"
      then have "c # cs = [] @ needle @ drop (length needle) (c # cs)" by (metis append_Nil append_take_drop_id)
      then show ?l by blast
    next
      assume "\<exists>pre post. cs = pre @ needle @ post"
      then obtain pre post where "c # cs = (c # pre) @ needle @ post" by auto
      then show ?l by blast
    qed
  qed
  with Cons show ?case by auto
qed auto

function count_loop :: "js_text \<Rightarrow> js_text \<Rightarrow> nat" where
  "count_loop needle rest =
     (if rest = [] \<or> needle = [] then 0
      else case index_of rest needle of
             None \<Rightarrow> 0
           | Some i \<Rightarrow> 1 + count_loop needle (drop (i + length needle) rest))"
  by pat_completeness auto
termination by (relation "measure (\<lambda>(needle, rest). length rest)") auto

declare count_loop.simps [simp del]

definition countOccurrences :: "js_text \<Rightarrow> js_text \<Rightarrow> nat" where
  "countOccurrences haystack needle = (if needle = [] then 0 else count_loop needle haystack)"

text \<open>\<open>text.split(needle)\<close> for a needle that is not empty.\<close>

function split_on :: "js_text \<Rightarrow> js_text \<Rightarrow> js_text list" where
  "split_on needle s =
     (if needle = [] then [s]
      else case index_of s needle of
             None \<Rightarrow> [s]
           | Some i \<Rightarrow> take i s # split_on needle (drop (i + length needle) s))"
  by pat_completeness auto
termination
  by (relation "measure (\<lambda>(needle, s). length s)") (auto dest!: index_of_le simp flip: length_greater_0_conv)

declare split_on.simps [simp del]

lemma split_on_count: "needle \<noteq> [] \<Longrightarrow> length (split_on needle s) = 1 + count_loop needle s"
proof (induction needle s rule: split_on.induct)
  case (1 needle s)
  show ?case
  proof (cases "s = []")
    case True
    with 1 show ?thesis by (simp add: split_on.simps [of needle] count_loop.simps [of needle])
  next
    case False
    with 1 show ?thesis
      by (auto simp: split_on.simps [of needle s] count_loop.simps [of needle s] split: option.split)
  qed
qed

lemma count_zero: "needle \<noteq> [] \<Longrightarrow> count_loop needle s = 0 \<longleftrightarrow> index_of s needle = None"
  by (cases s) (auto simp: count_loop.simps [of needle] split: option.split)

lemma count_one:
  "needle \<noteq> [] \<Longrightarrow> count_loop needle s = 1 \<longleftrightarrow>
     (\<exists>i. index_of s needle = Some i \<and> index_of (drop (i + length needle) s) needle = None)"
  using count_zero [of needle]
  by (cases s) (auto simp: count_loop.simps [of needle "_ # _"] count_loop.simps [of needle "[]"] split: option.split)

section \<open>The host's match decision\<close>

record HostMatchOutcome =
  hm_wouldApply :: bool
  hm_occurrences :: nat
  hm_usedFuzzyMatch :: bool

definition hostWouldApplyOldText :: "(js_text \<Rightarrow> js_text) \<Rightarrow> js_text \<Rightarrow> js_text \<Rightarrow> HostMatchOutcome" where
  "hostWouldApplyOldText nfkc content oldText =
     (let c = normalizeToLF (snd (stripBom content));
          ot = normalizeToLF (snd (stripBom oldText))
      in if ot = [] then \<lparr>hm_wouldApply = False, hm_occurrences = 0, hm_usedFuzzyMatch = False\<rparr>
         else let exactFound = (index_of c ot \<noteq> None);
                  fuzzyContent = normalizeForFuzzyMatch nfkc c;
                  fuzzyOldText = normalizeForFuzzyMatch nfkc ot;
                  fuzzyFound = (index_of fuzzyContent fuzzyOldText \<noteq> None);
                  occurrences = (if fuzzyOldText = [] then 0
                                 else length (split_on fuzzyOldText fuzzyContent) - 1)
              in \<lparr>hm_wouldApply = ((exactFound \<or> fuzzyFound) \<and> occurrences = 1),
                  hm_occurrences = occurrences,
                  hm_usedFuzzyMatch = (\<not> exactFound \<and> fuzzyFound)\<rparr>)"

section \<open>The line range of a unique match\<close>

definition line_feeds :: "js_text \<Rightarrow> nat" where
  "line_feeds s = length (filter (\<lambda>c. c = LF) s)"

text \<open>The start line and the end line, from 1.\<close>

definition findUniqueMatchLineRange :: "(js_text \<Rightarrow> js_text) \<Rightarrow> js_text \<Rightarrow> js_text \<Rightarrow> (nat \<times> nat) option" where
  "findUniqueMatchLineRange nfkc matchNormalizedContent oldText =
     (let needle = normalizeForGuardMatch nfkc oldText
      in if needle = [] then None
         else case index_of matchNormalizedContent needle of
                None \<Rightarrow> None
              | Some firstIdx \<Rightarrow>
                  (if index_of (drop (firstIdx + length needle) matchNormalizedContent) needle \<noteq> None then None
                   else let startLine = 1 + line_feeds (take firstIdx matchNormalizedContent);
                            lineCount = 1 + line_feeds needle
                        in Some (startLine, startLine + lineCount - 1)))"

lemma range_found_iff:
  "(\<exists>r. findUniqueMatchLineRange nfkc content oldText = Some r) \<longleftrightarrow>
     countOccurrences content (normalizeForGuardMatch nfkc oldText) = 1"
proof (cases "normalizeForGuardMatch nfkc oldText = []")
  case False
  then show ?thesis
    using count_one [OF False, of content]
    by (auto simp: findUniqueMatchLineRange_def Let_def countOccurrences_def split: option.split)
qed (simp add: findUniqueMatchLineRange_def countOccurrences_def)

text \<open>
  C18: The guard finds the range of an old text in the normalized content exactly when the host
  would apply that edit: both count occurrences that do not overlap, in the same space.
\<close>

theorem guard_range_iff_host_applies:
  assumes "nfkc [] = []"
  shows "(\<exists>r. findUniqueMatchLineRange nfkc (normalizeForGuardMatch nfkc content) oldText = Some r) \<longleftrightarrow>
    hm_wouldApply (hostWouldApplyOldText nfkc content oldText)"
proof -
  let ?c = "normalizeForGuardMatch nfkc content" and ?n = "normalizeForGuardMatch nfkc oldText"
  show ?thesis
  proof (cases "normalizeToLF (snd (stripBom oldText)) = []")
    case True
    then have "?n = []"
      using assms by (simp add: normalizeForGuardMatch_def normalizeForFuzzyMatch_def trim_end_def)
    with True show ?thesis unfolding range_found_iff by (simp add: countOccurrences_def hostWouldApplyOldText_def)
  next
    case False
    have "countOccurrences ?c ?n = 1 \<Longrightarrow> index_of ?c ?n \<noteq> None"
      using count_zero [of ?n ?c] by (auto simp: countOccurrences_def split: if_splits)
    with False show ?thesis
      using split_on_count [of ?n ?c]
      unfolding range_found_iff
      by (auto simp: countOccurrences_def hostWouldApplyOldText_def Let_def normalizeForGuardMatch_def [symmetric])
  qed
qed

text \<open>Lines and line feeds.\<close>

lemma split_lf_length: "length (split_lf s) = 1 + line_feeds s"
  by (induction s) (auto simp: line_feeds_def)

lemma split_lf_append:
  "split_lf (a @ b) = butlast (split_lf a) @ (last (split_lf a) @ hd (split_lf b)) # tl (split_lf b)"
proof (induction a)
  case (Cons c a)
  obtain l ls where "split_lf a = l # ls" by (cases "split_lf a") simp_all
  with Cons show ?case by (cases ls) auto
qed simp

lemma join_lf_extend_last: "join_lf (xs @ [x @ y]) = join_lf (xs @ [x]) @ y"
  by (induction xs rule: join_lf.induct) (simp_all add: join_lf_Cons)

lemma lines_of_middle:
  "join_lf (take (1 + line_feeds n) (drop (line_feeds pre) (split_lf (pre @ n @ post)))) =
     last (split_lf pre) @ n @ hd (split_lf post)"
proof -
  have len: "length (butlast (split_lf pre)) = line_feeds pre" "length (butlast (split_lf n)) = line_feeds n"
    by (simp_all add: split_lf_length)
  have "drop (line_feeds pre) (split_lf (pre @ n @ post)) =
      (last (split_lf pre) @ hd (split_lf (n @ post))) # tl (split_lf (n @ post))"
    using len(1) by (simp add: split_lf_append)
  moreover obtain l ls where n: "split_lf n = l # ls" by (cases "split_lf n") simp_all
  moreover have "join_lf (split_lf n) = n" by simp
  ultimately show ?thesis
  proof (cases ls rule: rev_cases)
    case Nil
    with n \<open>join_lf (split_lf n) = n\<close> \<open>drop _ _ = _\<close> len(2) show ?thesis by (simp add: split_lf_append)
  next
    case (snoc ms m)
    have "join_lf ((last (split_lf pre) @ l) # ms @ [m @ hd (split_lf post)]) =
        last (split_lf pre) @ join_lf (l # ms @ [m]) @ hd (split_lf post)"
      using join_lf_cons_head [of "last (split_lf pre)" l "ms @ [m @ hd (split_lf post)]"]
        join_lf_extend_last [of "l # ms" m "hd (split_lf post)"] by simp
    moreover have "line_feeds n = Suc (length ms)" using n snoc len(2) by simp
    ultimately show ?thesis
      using n snoc \<open>join_lf (split_lf n) = n\<close> \<open>drop _ _ = _\<close> by (simp add: split_lf_append)
  qed
qed

text \<open>
  C36: The range that is found holds the old text: the lines of the range, joined, are the
  normalized old text between a rest of the first and a rest of the last line, and no second
  occurrence begins behind it.
\<close>

theorem unique_range_holds_the_old_text:
  assumes "findUniqueMatchLineRange nfkc content oldText = Some (startLine, endLine)"
    and "needle = normalizeForGuardMatch nfkc oldText"
  shows "1 \<le> startLine \<and> startLine \<le> endLine \<and> endLine \<le> length (split_lf content) \<and>
    (\<exists>a b pre post. LF \<notin> set a \<and> LF \<notin> set b \<and>
       join_lf (take (endLine - startLine + 1) (drop (startLine - 1) (split_lf content))) = a @ needle @ b \<and>
       content = pre @ needle @ post \<and> startLine = 1 + line_feeds pre \<and>
       (\<nexists>u v. post = u @ needle @ v) \<and>
       (\<forall>u v. content = u @ needle @ v \<longrightarrow> length pre \<le> length u))"
proof -
  obtain i where i: "index_of content needle = Some i" "index_of (drop (i + length needle) content) needle = None"
    and start: "startLine = 1 + line_feeds (take i content)" and e: "endLine = startLine + line_feeds needle"
    using assms by (auto simp: findUniqueMatchLineRange_def Let_def split: if_splits option.splits)
  define pre post where "pre = take i content" and "post = drop (i + length needle) content"
  have se: "startLine = 1 + line_feeds pre" "endLine = startLine + line_feeds needle" using start e by (simp_all add: pre_def)
  have c: "content = pre @ needle @ post" unfolding pre_def post_def by (rule index_of_split [OF i(1)])
  have "LF \<notin> set (last (split_lf pre))" "LF \<notin> set (hd (split_lf post))"
    using split_lf_no_LF [of "last (split_lf pre)" pre] split_lf_no_LF [of "hd (split_lf post)" post] by simp_all
  moreover have "join_lf (take (endLine - startLine + 1) (drop (startLine - 1) (split_lf content))) =
      last (split_lf pre) @ needle @ hd (split_lf post)"
    using lines_of_middle [of needle pre post] se unfolding c by simp
  moreover have "\<nexists>u v. post = u @ needle @ v" using i(2) by (simp add: index_of_None post_def)
  moreover have "length pre \<le> length u" if "content = u @ needle @ v" for u v
  proof (rule ccontr)
    assume "\<not> length pre \<le> length u"
    then have "length u < i" by (simp add: pre_def split: if_splits)
    with i(1) that show False by (auto simp: index_of_Some)
  qed
  moreover have "endLine \<le> length (split_lf content)"
    using se unfolding c by (simp add: split_lf_length line_feeds_def)
  ultimately have "LF \<notin> set (last (split_lf pre)) \<and> LF \<notin> set (hd (split_lf post)) \<and>
      join_lf (take (endLine - startLine + 1) (drop (startLine - 1) (split_lf content))) =
        last (split_lf pre) @ needle @ hd (split_lf post) \<and>
      content = pre @ needle @ post \<and> startLine = 1 + line_feeds pre \<and>
      (\<nexists>u v. post = u @ needle @ v) \<and> (\<forall>u v. content = u @ needle @ v \<longrightarrow> length pre \<le> length u)"
    and "endLine \<le> length (split_lf content)" "1 \<le> startLine" "startLine \<le> endLine"
    using se c by simp_all
  then show ?thesis by blast
qed

section \<open>Trailing white space\<close>

record strip_result =
  sr_text :: js_text
  sr_removedLineTrailingWhitespace :: bool
  sr_removedTrailingEmptyLineCount :: nat

text \<open>Popping empty lines off the end, on the lines in reverse: what is left and how many went.\<close>

fun pop_empty :: "js_text list \<Rightarrow> js_text list \<times> nat" where
  "pop_empty (l # m # rest) =
     (if l = [] then (case pop_empty (m # rest) of (ls, n) \<Rightarrow> (ls, n + 1)) else (l # m # rest, 0))"
| "pop_empty ls = (ls, 0)"

definition stripTrailingWhitespaceDetailed :: "js_text \<Rightarrow> strip_result" where
  "stripTrailingWhitespaceDetailed v =
     (let lines = split_lf (crlf_to_lf v);
          strippedLines = map trim_end lines;
          (kept, removed) = pop_empty (rev strippedLines)
      in \<lparr>sr_text = join_lf (rev kept),
          sr_removedLineTrailingWhitespace = list_ex (\<lambda>line. trim_end line \<noteq> line) lines,
          sr_removedTrailingEmptyLineCount = removed\<rparr>)"

text \<open>The loop pops at most \<open>n\<close> blank lines and leaves one line, again in reverse.\<close>

fun pop_blank :: "nat \<Rightarrow> js_text list \<Rightarrow> js_text list" where
  "pop_blank (Suc n) (l # m # rest) = (if blank_line l then pop_blank n (m # rest) else l # m # rest)"
| "pop_blank n ls = ls"

definition stripEquivalentTrailingEmptyLines :: "js_text \<Rightarrow> nat \<Rightarrow> js_text" where
  "stripEquivalentTrailingEmptyLines v maxCount =
     (if maxCount = 0 then v else join_lf (rev (pop_blank maxCount (rev (split_lf (crlf_to_lf v))))))"

record trailing_patch =
  tp_oldText :: js_text
  tp_newText :: "js_text option"
  tp_removedLineTrailingWhitespace :: bool
  tp_removedTrailingEmptyLineCount :: nat

definition computeTrailingWhitespaceOldTextPatch :: "js_text \<Rightarrow> js_text option \<Rightarrow> js_text \<Rightarrow> trailing_patch option" where
  "computeTrailingWhitespaceOldTextPatch oldText newText fileContent =
     (let fileContentLf = crlf_to_lf fileContent;
          original = crlf_to_lf oldText;
          stripped = stripTrailingWhitespaceDetailed oldText
      in if sr_text stripped = original then None
         else if countOccurrences fileContentLf original \<noteq> 0 then None
         else if countOccurrences fileContentLf (sr_text stripped) \<noteq> 1 then None
         else Some \<lparr>tp_oldText = sr_text stripped,
                tp_newText = (case newText of
                   Some t \<Rightarrow> (if sr_removedTrailingEmptyLineCount stripped > 0
                             then Some (stripEquivalentTrailingEmptyLines t (sr_removedTrailingEmptyLineCount stripped))
                             else Some t)
                 | None \<Rightarrow> None),
                tp_removedLineTrailingWhitespace = sr_removedLineTrailingWhitespace stripped,
                tp_removedTrailingEmptyLineCount = sr_removedTrailingEmptyLineCount stripped\<rparr>)"

lemma trim_end_idem [simp]: "trim_end (trim_end l) = trim_end l"
  by (simp add: trim_end_def dropWhile_idem)

lemma trim_end_no_LF: "LF \<notin> set l \<Longrightarrow> LF \<notin> set (trim_end l)"
  by (auto simp: trim_end_def dest: set_dropWhileD)

lemma pop_empty_spec:
  "pop_empty ls = (kept, n) \<Longrightarrow> ls = replicate n [] @ kept \<and> (ls \<noteq> [] \<longrightarrow> kept \<noteq> []) \<and> pop_empty kept = (kept, 0)"
proof (induction ls arbitrary: kept n rule: pop_empty.induct)
  case (1 l m rest)
  show ?case
  proof (cases "l = []")
    case True
    obtain ls k where p: "pop_empty (m # rest) = (ls, k)" by fastforce
    with 1(2) True have "kept = ls" "n = Suc k" by simp_all
    with 1(1) [OF True p] True show ?thesis by simp
  qed (use 1(2) in auto)
qed simp_all

lemma pop_blank_spec:
  "\<exists>k ls'. ls = ls' @ pop_blank n ls \<and> length ls' = k \<and> k \<le> n \<and> (\<forall>l \<in> set ls'. blank_line l)"
proof (induction n ls rule: pop_blank.induct)
  case (1 n l m rest)
  show ?case
  proof (cases "blank_line l")
    case True
    with 1 obtain ls' where "m # rest = ls' @ pop_blank n (m # rest)" "length ls' \<le> n" "\<forall>l \<in> set ls'. blank_line l" by blast
    with True show ?thesis by (intro exI [of _ "Suc (length ls')"] exI [of _ "l # ls'"]) simp
  qed simp
qed auto

lemma split_join_lf:
  "ls \<noteq> [] \<Longrightarrow> \<forall>l \<in> set ls. LF \<notin> set l \<Longrightarrow> split_lf (join_lf ls) = ls"
proof (induction ls rule: join_lf.induct)
  case (3 l m ls)
  then show ?case by (simp add: split_lf_line)
qed (simp_all add: split_lf_single)

text \<open>What the stripped text is, line by line.\<close>

lemma stripped_lines:
  assumes "stripTrailingWhitespaceDetailed v = r"
  shows "map trim_end (split_lf (crlf_to_lf v)) =
      split_lf (sr_text r) @ replicate (sr_removedTrailingEmptyLineCount r) []"
    and "pop_empty (rev (split_lf (sr_text r))) = (rev (split_lf (sr_text r)), 0)"
proof -
  let ?ls = "map trim_end (split_lf (crlf_to_lf v))"
  obtain kept n where p: "pop_empty (rev ?ls) = (kept, n)" by fastforce
  then have r: "sr_text r = join_lf (rev kept)" "sr_removedTrailingEmptyLineCount r = n"
    using assms by (auto simp: stripTrailingWhitespaceDetailed_def)
  from pop_empty_spec [OF p] have "rev ?ls = replicate n [] @ kept" and k: "kept \<noteq> []" "pop_empty kept = (kept, 0)"
    by simp_all
  then have ls: "?ls = rev kept @ replicate n []" by (metis rev_append rev_replicate rev_rev_ident)
  have "\<forall>l \<in> set ?ls. LF \<notin> set l" using split_lf_no_LF trim_end_no_LF by auto
  with ls have "\<forall>l \<in> set (rev kept). LF \<notin> set l" by auto
  with k have "split_lf (join_lf (rev kept)) = rev kept" by (intro split_join_lf) simp_all
  with r ls k show "?ls = split_lf (sr_text r) @ replicate (sr_removedTrailingEmptyLineCount r) []"
    "pop_empty (rev (split_lf (sr_text r))) = (rev (split_lf (sr_text r)), 0)" by simp_all
qed

text \<open>Stripping twice is stripping once.\<close>

definition ends_clean :: "js_text \<Rightarrow> bool" where
  "ends_clean l \<longleftrightarrow> LF \<notin> set l \<and> (l = [] \<or> last l \<noteq> CR)"

lemma crlf_to_lf_line: "ends_clean l \<Longrightarrow> crlf_to_lf (l @ LF # rest) = l @ LF # crlf_to_lf rest"
proof (induction l)
  case Nil
  show ?case by (cases rest) (simp_all add: LF_def CR_def)
next
  case (Cons c l)
  then show ?case by (cases l) (auto simp: ends_clean_def)
qed

lemma crlf_to_lf_last: "LF \<notin> set l \<Longrightarrow> crlf_to_lf l = l"
  by (induction l rule: crlf_to_lf.induct) auto

lemma crlf_to_lf_join: "\<forall>l \<in> set ls. ends_clean l \<Longrightarrow> crlf_to_lf (join_lf ls) = join_lf ls"
  by (induction ls rule: join_lf.induct) (simp_all add: crlf_to_lf_line crlf_to_lf_last ends_clean_def)

lemma trim_end_ends_clean: "LF \<notin> set l \<Longrightarrow> ends_clean (trim_end l)"
proof -
  assume l: "LF \<notin> set l"
  have "dropWhile is_space16 (rev l) = [] \<or> \<not> is_space16 (hd (dropWhile is_space16 (rev l)))"
    using hd_dropWhile by blast
  then have "trim_end l = [] \<or> \<not> is_space16 (last (trim_end l))" by (auto simp: trim_end_def last_rev)
  moreover have "is_space16 CR" by (simp add: is_space16_def CR_def)
  ultimately show ?thesis using trim_end_no_LF [OF l] by (auto simp: ends_clean_def)
qed

text \<open>Stripping a stripped text changes nothing and reports nothing removed.\<close>

theorem stripping_is_idempotent:
  "stripTrailingWhitespaceDetailed (sr_text (stripTrailingWhitespaceDetailed v)) =
     \<lparr>sr_text = sr_text (stripTrailingWhitespaceDetailed v), sr_removedLineTrailingWhitespace = False,
      sr_removedTrailingEmptyLineCount = 0\<rparr>"
proof -
  define t where "t = sr_text (stripTrailingWhitespaceDetailed v)"
  note l = stripped_lines [OF refl [of "stripTrailingWhitespaceDetailed v"], folded t_def]
  have sub: "set (split_lf t) \<subseteq> trim_end ` set (split_lf (crlf_to_lf v))"
    using arg_cong [OF l(1), of set] by auto
  then have "\<forall>x \<in> set (split_lf t). ends_clean x" using split_lf_no_LF trim_end_ends_clean by fastforce
  then have "crlf_to_lf t = t" using crlf_to_lf_join [of "split_lf t"] by simp
  moreover have trimmed: "\<forall>x \<in> set (split_lf t). trim_end x = x" using sub by auto
  moreover from trimmed have "map trim_end (split_lf t) = split_lf t" by (simp add: map_idI)
  ultimately have "stripTrailingWhitespaceDetailed t = \<lparr>sr_text = t, sr_removedLineTrailingWhitespace = False,
      sr_removedTrailingEmptyLineCount = 0\<rparr>"
    using l(2) by (simp add: stripTrailingWhitespaceDetailed_def list_ex_iff)
  then show ?thesis by (simp only: t_def)
qed

text \<open>
  C12: A patch is safe: the old text it proposes occurs in the file and no second time behind that
  place, the text it replaces does not occur at all, and it is that text with white space cut
  off the ends of its lines and empty lines off its end.
\<close>

theorem trailing_patch_is_safe:
  assumes "computeTrailingWhitespaceOldTextPatch oldText newText fileContent = Some p"
  shows "(\<exists>pre post. crlf_to_lf fileContent = pre @ tp_oldText p @ post \<and>
       (\<nexists>u v. post = u @ tp_oldText p @ v) \<and>
       (\<forall>u v. crlf_to_lf fileContent = u @ tp_oldText p @ v \<longrightarrow> length pre \<le> length u)) \<and>
    (\<nexists>u v. crlf_to_lf fileContent = u @ crlf_to_lf oldText @ v) \<and>
    map trim_end (split_lf (crlf_to_lf oldText)) =
      split_lf (tp_oldText p) @ replicate (tp_removedTrailingEmptyLineCount p) []"
proof -
  let ?f = "crlf_to_lf fileContent" and ?o = "crlf_to_lf oldText"
  define r where "r = stripTrailingWhitespaceDetailed oldText"
  have p: "tp_oldText p = sr_text r" "tp_removedTrailingEmptyLineCount p = sr_removedTrailingEmptyLineCount r"
    and changed: "sr_text r \<noteq> ?o" and absent: "countOccurrences ?f ?o = 0" and once: "countOccurrences ?f (sr_text r) = 1"
    using assms by (auto simp: computeTrailingWhitespaceOldTextPatch_def Let_def r_def split: if_splits)
  have lines: "map trim_end (split_lf ?o) = split_lf (sr_text r) @ replicate (sr_removedTrailingEmptyLineCount r) []"
    by (rule stripped_lines) (simp add: r_def)
  have "?o \<noteq> []"
  proof
    assume "?o = []"
    with changed show False by (simp add: r_def stripTrailingWhitespaceDetailed_def trim_end_def)
  qed
  then have none: "index_of ?f ?o = None" using absent by (simp add: countOccurrences_def count_zero)
  have ne: "sr_text r \<noteq> []" using once by (auto simp: countOccurrences_def)
  then obtain i where i: "index_of ?f (sr_text r) = Some i" "index_of (drop (i + length (sr_text r)) ?f) (sr_text r) = None"
    using once count_one [OF ne, of ?f] by (auto simp: countOccurrences_def)
  have "length (take i ?f) \<le> length u" if "?f = u @ sr_text r @ v" for u v
  proof (rule ccontr)
    assume "\<not> length (take i ?f) \<le> length u"
    then have "length u < i" by (simp split: if_splits)
    with i(1) that show False by (auto simp: index_of_Some)
  qed
  with index_of_split [OF i(1)] i(2) none lines show ?thesis
    unfolding p index_of_None by (intro conjI exI [of _ "take i ?f"] exI [of _ "drop (i + length (sr_text r)) ?f"]) auto
qed

text \<open>The replacement loses blank lines at its end only, and no more than the old text lost.\<close>

lemma patched_replacement:
  assumes "computeTrailingWhitespaceOldTextPatch oldText (Some newText) fileContent = Some p"
    and "tp_removedTrailingEmptyLineCount p > 0"
  shows "\<exists>kept gone. tp_newText p = Some (join_lf kept) \<and> split_lf (crlf_to_lf newText) = kept @ gone \<and>
    length gone \<le> tp_removedTrailingEmptyLineCount p \<and> (\<forall>l \<in> set gone. blank_line l)"
proof -
  let ?n = "tp_removedTrailingEmptyLineCount p" and ?ls = "split_lf (crlf_to_lf newText)"
  have "tp_newText p = Some (join_lf (rev (pop_blank ?n (rev ?ls))))"
    using assms by (auto simp: computeTrailingWhitespaceOldTextPatch_def Let_def
        stripEquivalentTrailingEmptyLines_def split: if_splits)
  moreover obtain gone where "rev ?ls = gone @ pop_blank ?n (rev ?ls)" "length gone \<le> ?n" "\<forall>l \<in> set gone. blank_line l"
    using pop_blank_spec [of "rev ?ls" ?n] by auto
  moreover from this(1) have "?ls = rev (pop_blank ?n (rev ?ls)) @ rev gone" by (metis rev_append rev_rev_ident)
  ultimately show ?thesis by (intro exI [of _ "rev (pop_blank ?n (rev ?ls))"] exI [of _ "rev gone"]) simp
qed

section \<open>Concrete texts\<close>

definition demo_file :: js_text where
  "demo_file = join_lf [units ''if (a) {'', units ''  b();'', units ''}'', []]"

definition demo_old :: js_text where
  "demo_old = join_lf [units ''  b();  '', units ''}'', []]"

definition demo_trailing_patch :: trailing_patch where
  "demo_trailing_patch = \<lparr>tp_oldText = join_lf [units ''  b();'', units ''}''],
     tp_newText = Some (units ''}''), tp_removedLineTrailingWhitespace = True, tp_removedTrailingEmptyLineCount = 1\<rparr>"

lemma demo_patch:
  "computeTrailingWhitespaceOldTextPatch demo_old (Some (units ''}'' @ [LF])) demo_file = Some demo_trailing_patch"
  by code_simp

theorem trailing_patch_is_safe_witness:
  "tp_removedTrailingEmptyLineCount demo_trailing_patch = 1 \<and>
   map trim_end (split_lf (crlf_to_lf demo_old)) = split_lf (tp_oldText demo_trailing_patch) @ [[]]"
  using trailing_patch_is_safe [OF demo_patch, THEN conjunct2, THEN conjunct2] unfolding demo_trailing_patch_def
  by (simp only: trailing_patch.simps replicate_0 replicate_Suc One_nat_def simp_thms)

lemma demo_range: "findUniqueMatchLineRange id demo_file (tp_oldText demo_trailing_patch) = Some (2, 3)"
  by code_simp

lemma demo_needle: "normalizeForGuardMatch id (tp_oldText demo_trailing_patch) = tp_oldText demo_trailing_patch"
  by code_simp

theorem unique_range_holds_the_old_text_witness:
  "findUniqueMatchLineRange id demo_file (tp_oldText demo_trailing_patch) = Some (2, 3) \<and> 3 \<le> length (split_lf demo_file)"
  using unique_range_holds_the_old_text [OF demo_range refl] demo_range by simp

lemma demo_guard_range:
  "findUniqueMatchLineRange id (normalizeForGuardMatch id (units ''a b'')) (units ''b  '') = Some (1, 1)"
  by code_simp

theorem guard_range_iff_host_applies_witness:
  "hm_wouldApply (hostWouldApplyOldText id (units ''a b'') (units ''b  ''))"
  by (intro iffD1 [OF guard_range_iff_host_applies [of id, OF id_apply]] exI) (rule demo_guard_range)

text \<open>
  Occurrences that overlap count as one: the documentation has \<open>findUniqueMatchLineRange\<close>
  return nothing when the needle matches more than once.
\<close>

lemma overlapping_matches_count_once:
  "findUniqueMatchLineRange id (join_lf [units ''}'', units ''}'', units ''}'']) (join_lf [units ''}'', units ''}'']) = Some (1, 2)"
  by code_simp

end
