(* ===== verification/Indent_Detect.thy ===== *)
theory Indent_Detect
  imports Text_Lines
begin

text \<open>
  \<open>src/clients/dispatch/indent-detect.ts\<close>: which lines of a source lie inside a block comment or
  a template literal, and the indentation a text shows on the lines that do not.

  The lexer's stack is a list with its top in front.
\<close>

section \<open>Block comments\<close>

definition TAB :: code_unit where "TAB = 9"
definition SPACE :: code_unit where "SPACE = 32"
definition SLASH :: code_unit where "SLASH = 47"
definition BACKSLASH :: code_unit where "BACKSLASH = 92"
definition BACKTICK :: code_unit where "BACKTICK = 96"
definition OPEN_COMMENT :: js_text where "OPEN_COMMENT = [47, 42]"
definition CLOSE_COMMENT :: js_text where "CLOSE_COMMENT = [42, 47]"
definition LINE_COMMENT :: js_text where "LINE_COMMENT = [47, 47]"

text \<open>\<open>line.startsWith(needle, j)\<close> and \<open>line.indexOf(needle, j)\<close>.\<close>

definition starts_at :: "js_text \<Rightarrow> js_text \<Rightarrow> nat \<Rightarrow> bool" where
  "starts_at line needle j = (take (length needle) (drop j line) = needle)"

definition index_from :: "js_text \<Rightarrow> js_text \<Rightarrow> nat \<Rightarrow> nat option" where
  "index_from line needle j = map_option (\<lambda>i. i + j) (index_of (drop j line) needle)"

definition opensBlockComment :: "js_text \<Rightarrow> bool" where
  "opensBlockComment line =
     (case index_of line OPEN_COMMENT of
        None \<Rightarrow> False
      | Some blockAt \<Rightarrow>
          (if (case index_of line LINE_COMMENT of Some lineAt \<Rightarrow> lineAt < blockAt | None \<Rightarrow> False) then False
           else index_from line CLOSE_COMMENT (blockAt + 2) = None))"

text \<open>The loop over the lines: the mask of the lines that are left and where a comment is still open.\<close>

fun block_loop :: "js_text list \<Rightarrow> nat \<Rightarrow> nat option \<Rightarrow> bool list \<times> nat option" where
  "block_loop [] i pendingStart = ([], pendingStart)"
| "block_loop (line # rest) i (Some p) =
     (case block_loop rest (i + 1) (if index_of line CLOSE_COMMENT \<noteq> None then None else Some p) of
        (flags, pending) \<Rightarrow> (True # flags, pending))"
| "block_loop (line # rest) i None =
     (case block_loop rest (i + 1) (if opensBlockComment line then Some i else None) of
        (flags, pending) \<Rightarrow> (False # flags, pending))"

text \<open>\<open>for (i = from; i < lines.length; i++) flags[i] = false\<close>.\<close>

definition clear_from :: "nat \<Rightarrow> bool list \<Rightarrow> bool list" where
  "clear_from n flags = take n flags @ replicate (length flags - n) False"

definition blockCommentInteriorMask :: "js_text list \<Rightarrow> bool list" where
  "blockCommentInteriorMask lines =
     (case block_loop lines 0 None of
        (flags, Some pendingStart) \<Rightarrow> clear_from (pendingStart + 1) flags
      | (flags, None) \<Rightarrow> flags)"

section \<open>Template literals\<close>

datatype TemplateFrame = Template_frame | Expr_frame nat | Block_frame

definition hasLiveFrame :: "TemplateFrame list \<Rightarrow> bool" where
  "hasLiveFrame stack = list_ex (\<lambda>frame. frame \<noteq> Block_frame) stack"

function skip_quoted_loop :: "js_text \<Rightarrow> code_unit \<Rightarrow> nat \<Rightarrow> nat" where
  "skip_quoted_loop line q j =
     (if j < length line then
        (if line ! j = BACKSLASH then skip_quoted_loop line q (j + 2)
         else if line ! j = q then j + 1
         else skip_quoted_loop line q (j + 1))
      else length line)"
  by pat_completeness auto
termination by (relation "measure (\<lambda>(line, q, j). length line - j)") auto

declare skip_quoted_loop.simps [simp del]

definition skipQuoted :: "js_text \<Rightarrow> nat \<Rightarrow> code_unit \<Rightarrow> nat" where
  "skipQuoted line start q = skip_quoted_loop line q (start + 1)"

definition REGEX_OPENER_PUNCTUATION :: "code_unit list" where
  "REGEX_OPENER_PUNCTUATION = units ''(,=:[!&|?''"

definition REGEX_FLAG_CHARS :: "code_unit list" where
  "REGEX_FLAG_CHARS = units ''dgimsuvy''"

text \<open>The characters of \<open>[A-Za-z0-9_$]\<close>.\<close>

definition identifier_char :: "code_unit \<Rightarrow> bool" where
  "identifier_char c = ((65 \<le> c \<and> c \<le> 90) \<or> (97 \<le> c \<and> c \<le> 122) \<or> (48 \<le> c \<and> c \<le> 57) \<or> c = 95 \<or> c = 36)"

definition REGEX_OPENER_KEYWORD :: "js_text \<Rightarrow> bool" where
  "REGEX_OPENER_KEYWORD before =
     list_ex (\<lambda>word. length word \<le> length before \<and> drop (length before - length word) before = word \<and>
        (length before = length word \<or> \<not> identifier_char (before ! (length before - length word - 1))))
       [units ''return'', units ''typeof'', units ''case'']"

definition isRegexOpenerPosition :: "js_text \<Rightarrow> nat \<Rightarrow> bool" where
  "isRegexOpenerPosition line at =
     (let before = rev (dropWhile (\<lambda>c. c = SPACE \<or> c = TAB) (rev (take at line)))
      in if before = [] then True
         else if REGEX_OPENER_KEYWORD before then True
         else last before \<in> set REGEX_OPENER_PUNCTUATION)"

text \<open>\<open>skipRegexLiteral\<close>: the index behind the literal; \<open>None\<close> is \<open>-1\<close>.\<close>

function skip_regex_loop :: "js_text \<Rightarrow> bool \<Rightarrow> nat \<Rightarrow> nat option" where
  "skip_regex_loop line inClass j =
     (if j < length line then
        (let c = line ! j
         in if c = BACKSLASH then skip_regex_loop line inClass (j + 2)
            else if inClass then skip_regex_loop line (c \<noteq> 93) (j + 1)
            else if c = 91 then skip_regex_loop line True (j + 1)
            else if c = SLASH then
              (let after = dropWhile (\<lambda>k. k \<in> set REGEX_FLAG_CHARS) (drop (j + 1) line)
               in if after \<noteq> [] \<and> identifier_char (hd after) then None else Some (j + 1))
            else skip_regex_loop line inClass (j + 1))
      else None)"
  by pat_completeness auto
termination by (relation "measure (\<lambda>(line, inClass, j). length line - j)") auto

declare skip_regex_loop.simps [simp del]

definition skipRegexLiteral :: "js_text \<Rightarrow> nat \<Rightarrow> nat option" where
  "skipRegexLiteral line start = skip_regex_loop line False (start + 1)"

lemma skip_quoted_ge: "j \<le> length line \<Longrightarrow> j \<le> skip_quoted_loop line q j"
proof (induction line q j rule: skip_quoted_loop.induct)
  case (1 line q j)
  have "j \<le> skip_quoted_loop line q (j + 2)" if "j < length line" "line ! j = BACKSLASH"
  proof (cases "j + 2 \<le> length line")
    case True
    with 1(1) [OF that] show ?thesis by linarith
  next
    case False
    then have "skip_quoted_loop line q (j + 2) = length line"
      by (subst skip_quoted_loop.simps) simp
    with that show ?thesis by simp
  qed
  moreover have "j \<le> skip_quoted_loop line q (j + 1)" if "j < length line" "line ! j \<noteq> BACKSLASH" "line ! j \<noteq> q"
    using 1(2) [OF that] that(1) by linarith
  ultimately show ?case using 1(3) by (subst skip_quoted_loop.simps) auto
qed

lemma skip_regex_gt: "skip_regex_loop line b j = Some k \<Longrightarrow> j < k"
proof (induction line b j arbitrary: k rule: skip_regex_loop.induct)
  case (1 line b j)
  from 1(5) show ?case
    using 1(1-4)
    by (subst (asm) skip_regex_loop.simps) (fastforce simp: Let_def split: if_splits)
qed

text \<open>
  \<open>advanceTemplateState\<close>. One turn of its loop at index \<open>j\<close>: the next index and the stack, or
  \<open>None\<close> where it returns, with the stack as it was.
\<close>

definition code_step :: "js_text \<Rightarrow> nat \<Rightarrow> TemplateFrame list \<Rightarrow> nat \<times> TemplateFrame list" where
  "code_step line j stack =
     (let ch = line ! j
      in if ch = 34 \<or> ch = 39 then (skipQuoted line j ch, stack)
         else if ch = BACKTICK then (j + 1, Template_frame # stack)
         else case stack of
           Expr_frame braceDepth # below \<Rightarrow>
             (if ch = 123 then (j + 1, Expr_frame (braceDepth + 1) # below)
              else if ch = 125 then (j + 1, if braceDepth - 1 = 0 then below else Expr_frame (braceDepth - 1) # below)
              else (j + 1, stack))
         | _ \<Rightarrow> (j + 1, stack))"

definition lex_step :: "js_text \<Rightarrow> nat \<Rightarrow> TemplateFrame list \<Rightarrow> (nat \<times> TemplateFrame list) option" where
  "lex_step line j stack =
     (if stack \<noteq> [] \<and> hd stack = Template_frame then
        (if line ! j = BACKSLASH then Some (j + 2, stack)
         else if starts_at line [36, 123] j then Some (j + 2, Expr_frame 1 # stack)
         else if line ! j = BACKTICK then Some (j + 1, tl stack)
         else Some (j + 1, stack))
      else if stack \<noteq> [] \<and> hd stack = Block_frame then
        map_option (\<lambda>closeAt. (closeAt + 2, tl stack)) (index_from line CLOSE_COMMENT j)
      else if starts_at line LINE_COMMENT j then None
      else if starts_at line OPEN_COMMENT j then Some (j + 2, Block_frame # stack)
      else case (if line ! j = SLASH \<and> isRegexOpenerPosition line j then skipRegexLiteral line j else None) of
        Some after \<Rightarrow> Some (after, stack)
      | None \<Rightarrow> Some (code_step line j stack))"

lemma code_step_gt: "j < length line \<Longrightarrow> j < fst (code_step line j stack)"
  using skip_quoted_ge [of "j + 1" line]
  by (auto simp: code_step_def Let_def skipQuoted_def Suc_le_eq split: list.split TemplateFrame.split)

lemma lex_step_gt: "lex_step line j stack = Some (j', stack') \<Longrightarrow> j < length line \<Longrightarrow> j < j'"
  using code_step_gt [of j line stack]
  by (auto simp: lex_step_def index_from_def skipRegexLiteral_def dest!: skip_regex_gt
      split: if_splits option.splits)

function advance_from :: "js_text \<Rightarrow> nat \<Rightarrow> TemplateFrame list \<Rightarrow> TemplateFrame list" where
  "advance_from line j stack =
     (if j < length line
      then case lex_step line j stack of
             None \<Rightarrow> stack
           | Some (j', stack') \<Rightarrow> advance_from line j' stack'
      else stack)"
  by pat_completeness auto
termination
  by (relation "measure (\<lambda>(line, j, stack). length line - j)") (auto dest: lex_step_gt intro: diff_less_mono2)

declare advance_from.simps [simp del]

definition advanceTemplateState :: "js_text \<Rightarrow> TemplateFrame list \<Rightarrow> TemplateFrame list" where
  "advanceTemplateState line stack = advance_from line 0 stack"

text \<open>The loop over the lines: the mask, the stack at the end and \<open>openLine\<close> (\<open>None\<close> for \<open>-1\<close>).\<close>

fun template_loop :: "js_text list \<Rightarrow> nat \<Rightarrow> TemplateFrame list \<Rightarrow> nat option \<Rightarrow>
    bool list \<times> TemplateFrame list \<times> nat option" where
  "template_loop [] i stack openLine = ([], stack, openLine)"
| "template_loop (line # rest) i stack openLine =
     (let live = hasLiveFrame stack
      in case template_loop rest (i + 1) (advanceTemplateState line stack) (if live then openLine else Some i) of
           (flags, result) \<Rightarrow> (live # flags, result))"

definition templateLiteralInteriorMask :: "js_text list \<Rightarrow> bool list" where
  "templateLiteralInteriorMask lines =
     (case template_loop lines 0 [] None of
        (flags, stack, openLine) \<Rightarrow>
          (if hasLiveFrame stack then clear_from (case openLine of Some l \<Rightarrow> l + 1 | None \<Rightarrow> 0) flags else flags))"

section \<open>The indentation of a text\<close>

definition structuralLines :: "js_text list \<Rightarrow> js_text list" where
  "structuralLines lines =
     map fst (filter (\<lambda>(line, c, t). \<not> c \<and> \<not> t)
       (zip lines (zip (blockCommentInteriorMask lines) (templateLiteralInteriorMask lines))))"

datatype Indentation = Tab_style | Space_style nat

definition DEFAULT_INDENTATION :: Indentation where
  "DEFAULT_INDENTATION = Space_style 2"

function greatestCommonDivisor :: "nat \<Rightarrow> nat \<Rightarrow> nat" where
  "greatestCommonDivisor left right =
     (if right = 0 then left else greatestCommonDivisor right (left mod right))"
  by pat_completeness auto
termination by (relation "measure snd") auto

declare greatestCommonDivisor.simps [simp del]

text \<open>The run of \<open>c\<close> at the start of a line when a character that is no space follows, as in \<open>/^ +(?=\S)/\<close>.\<close>

definition run_before_text :: "code_unit \<Rightarrow> js_text \<Rightarrow> nat option" where
  "run_before_text c line =
     (let after = dropWhile (\<lambda>x. x = c) line
      in if after = [] \<or> is_space16 (hd after) then None else Some (length (takeWhile (\<lambda>x. x = c) line)))"

text \<open>The lines of the \<open>m\<close> flag: a line terminator ends one.\<close>

definition line_terminator :: "code_unit \<Rightarrow> bool" where
  "line_terminator c = (c = LF \<or> c = CR \<or> c = 0x2028 \<or> c = 0x2029)"

fun terminated_lines :: "js_text \<Rightarrow> js_text list" where
  "terminated_lines [] = [[]]"
| "terminated_lines (c # cs) =
     (if line_terminator c then [] # terminated_lines cs
      else (c # hd (terminated_lines cs)) # tl (terminated_lines cs))"

definition indented_by :: "code_unit \<Rightarrow> js_text \<Rightarrow> bool" where
  "indented_by c line = (case run_before_text c line of Some n \<Rightarrow> n > 0 | None \<Rightarrow> False)"

definition hasDetectableIndentation :: "js_text \<Rightarrow> bool" where
  "hasDetectableIndentation content =
     list_ex (\<lambda>line. indented_by TAB line \<or> indented_by SPACE line) (terminated_lines content)"

text \<open>The lines that count, and the runs of spaces on them.\<close>

definition counted_lines :: "js_text \<Rightarrow> js_text list" where
  "counted_lines content = structuralLines (splitLines content)"

definition space_counts :: "js_text list \<Rightarrow> nat list" where
  "space_counts lines =
     filter (\<lambda>n. n > 0) (map (\<lambda>line. case run_before_text SPACE line of Some n \<Rightarrow> n | None \<Rightarrow> 0) lines)"

text \<open>A line at the least indentation right after a shallower one.\<close>

fun boundary :: "nat \<Rightarrow> nat list \<Rightarrow> bool" where
  "boundary m (previous # count # rest) = ((count = m \<and> previous < m) \<or> boundary m (count # rest))"
| "boundary m counts = False"

definition detectIndentation :: "js_text \<Rightarrow> Indentation option" where
  "detectIndentation content =
     (let lines = counted_lines content;
          tabs = length (filter (indented_by TAB) lines);
          spaceCounts = space_counts lines
      in if tabs = 0 \<and> spaceCounts = []
         then (if hasDetectableIndentation content then None else Some DEFAULT_INDENTATION)
         else if tabs > length spaceCounts then Some Tab_style
         else if length spaceCounts > tabs then
           (let least = foldl min (hd spaceCounts) (tl spaceCounts);
                divisor = foldl greatestCommonDivisor 0 spaceCounts;
                nonBlank = List.map_filter (run_before_text SPACE) lines
            in if boundary least nonBlank \<and> least \<le> 8 then Some (Space_style least)
               else if divisor < least \<and> divisor \<le> 8 then Some (Space_style divisor)
               else None)
         else Some DEFAULT_INDENTATION)"

section \<open>Lexing a text in pieces\<close>

lemma block_loop_length: "length (fst (block_loop ls i p)) = length ls"
  by (induction ls i p rule: block_loop.induct) (auto split: prod.splits)

lemma block_loop_append:
  "block_loop (xs @ ys) i p =
     (case block_loop xs i p of (f, q) \<Rightarrow> case block_loop ys (i + length xs) q of (g, r) \<Rightarrow> (f @ g, r))"
  by (induction xs i p rule: block_loop.induct) (auto split: prod.splits)

text \<open>The mask does not depend on where the lines are; a comment open at the end was opened in them.\<close>

lemma block_loop_shift:
  "fst (block_loop ls i (map_option (\<lambda>x. x + d) p)) = fst (block_loop ls j p) \<and>
   (snd (block_loop ls i (map_option (\<lambda>x. x + d) p)) = None \<longleftrightarrow> snd (block_loop ls j p) = None)"
proof (induction ls arbitrary: i j d p)
  case (Cons l ls)
  show ?case
  proof (cases p)
    case None
    from Cons [of "i + 1" "i - j" "if opensBlockComment l then Some j else None" "j + 1"]
      Cons [of "i + 1" 0 "if opensBlockComment l then Some i else None" "j + 1"]
      Cons [of "j + 1" "j" "if opensBlockComment l then Some 0 else None" "j + 1"]
      Cons [of "i + 1" "i" "if opensBlockComment l then Some 0 else None" "j + 1"]
    show ?thesis using None by (auto split: prod.splits if_splits)
  next
    case (Some q)
    from Cons [of "i + 1" d "if index_of l CLOSE_COMMENT \<noteq> None then None else Some q" "j + 1"] Some
    show ?thesis by (auto split: prod.splits if_splits)
  qed
qed auto

lemma block_loop_pending:
  "snd (block_loop ls i p) = Some q \<Longrightarrow> (\<forall>r. p = Some r \<longrightarrow> k \<le> r) \<Longrightarrow> k \<le> i \<Longrightarrow> k \<le> q"
  by (induction ls i p rule: block_loop.induct) (auto split: prod.splits if_splits)

lemma take_clear: "m \<le> n \<Longrightarrow> take m (clear_from n flags) = take m flags"
  by (simp add: clear_from_def min_def)

lemma clear_length [simp]: "length (clear_from n flags) = length flags"
  by (simp add: clear_from_def)

lemma block_mask_length [simp]: "length (blockCommentInteriorMask lines) = length lines"
  using block_loop_length [of lines 0 None]
  by (auto simp: blockCommentInteriorMask_def split: prod.splits option.splits)

lemma block_mask_fragment:
  assumes "snd (block_loop pre 0 None) = None" "snd (block_loop ls 0 None) = None"
  shows "take (length ls) (drop (length pre) (blockCommentInteriorMask (pre @ ls @ post))) = blockCommentInteriorMask ls"
proof -
  obtain f where f: "block_loop pre 0 None = (f, None)" using assms(1) by (cases "block_loop pre 0 None") auto
  obtain g where g: "block_loop ls 0 None = (g, None)" using assms(2) by (cases "block_loop ls 0 None") auto
  obtain g' q where g': "block_loop ls (length pre) None = (g', q)" by fastforce
  have "g' = g" "q = None" using block_loop_shift [of ls "length pre" 0 None 0] g g' by simp_all
  obtain h r where h: "block_loop post (length pre + length ls) None = (h, r)" by fastforce
  have loop: "block_loop (pre @ ls @ post) 0 None = (f @ g @ h, r)"
    using f g' h \<open>g' = g\<close> \<open>q = None\<close> by (simp add: block_loop_append)
  have len: "length f = length pre" "length g = length ls"
    using block_loop_length [of pre 0 None] block_loop_length [of ls 0 None] f g by simp_all
  have "take (length pre + length ls) (blockCommentInteriorMask (pre @ ls @ post)) = f @ g"
  proof (cases r)
    case None
    with loop len show ?thesis by (simp add: blockCommentInteriorMask_def)
  next
    case (Some q)
    then have "length pre + length ls \<le> q"
      using block_loop_pending [of post "length pre + length ls" None q "length pre + length ls"] h by simp
    with loop len Some show ?thesis by (simp add: blockCommentInteriorMask_def take_clear)
  qed
  then have "drop (length pre) (take (length pre + length ls) (blockCommentInteriorMask (pre @ ls @ post))) = g"
    using len by simp
  then show ?thesis using g by (simp add: blockCommentInteriorMask_def drop_take)
qed

lemma template_loop_length: "length (fst (template_loop ls i st ol)) = length ls"
  by (induction ls i st ol rule: template_loop.induct) (auto simp: Let_def split: prod.splits)

text \<open>The lexer's stack after some lines.\<close>

definition lex_lines :: "js_text list \<Rightarrow> TemplateFrame list \<Rightarrow> TemplateFrame list" where
  "lex_lines lines stack = fold advanceTemplateState lines stack"

lemma template_loop_stack: "fst (snd (template_loop ls i st ol)) = lex_lines ls st"
  by (induction ls i st ol rule: template_loop.induct) (auto simp: Let_def lex_lines_def split: prod.splits)

lemma template_loop_append:
  "template_loop (xs @ ys) i st ol =
     (case template_loop xs i st ol of (f, st', ol') \<Rightarrow>
        case template_loop ys (i + length xs) st' ol' of (g, res) \<Rightarrow> (f @ g, res))"
  by (induction xs i st ol rule: template_loop.induct) (auto simp: Let_def split: prod.splits)

lemma template_loop_flags: "fst (template_loop ls i st ol) = fst (template_loop ls j st ol')"
proof (induction ls arbitrary: i j st ol ol')
  case (Cons l ls)
  from Cons [of "i + 1" "advanceTemplateState l st" _ "j + 1"] show ?case
    by (auto simp: Let_def split: prod.splits) (metis fst_conv)+
qed simp

lemma template_loop_open:
  "\<not> hasLiveFrame st \<Longrightarrow> ls \<noteq> [] \<Longrightarrow> \<exists>l \<ge> i. snd (snd (template_loop ls i st ol)) = Some l"
proof -
  have "ol = Some k \<Longrightarrow> i \<le> k \<Longrightarrow> \<exists>l \<ge> i. snd (snd (template_loop ls j st ol)) = Some l" if "i \<le> j" for j k st ol ls
    using that
  proof (induction ls arbitrary: j k st ol)
    case (Cons l ls)
    then show ?case
      by (auto simp: Let_def split: prod.splits)
         (metis (no_types, lifting) le_Suc_eq snd_conv)+
  qed simp
  note keep = this
  assume "\<not> hasLiveFrame st" "ls \<noteq> []"
  then obtain l ls' where "ls = l # ls'" by (cases ls) auto
  with keep [of "i + 1" "Some i" i ls' "advanceTemplateState l st"] \<open>\<not> hasLiveFrame st\<close> show ?thesis
    by (auto simp: Let_def split: prod.splits)
qed

lemma template_mask_length [simp]: "length (templateLiteralInteriorMask lines) = length lines"
  using template_loop_length [of lines 0 "[]" None]
  by (auto simp: templateLiteralInteriorMask_def split: prod.splits option.splits)

lemma template_mask_fragment:
  assumes "lex_lines pre [] = []" "\<not> hasLiveFrame (lex_lines ls [])"
  shows "take (length ls) (drop (length pre) (templateLiteralInteriorMask (pre @ ls @ post))) = templateLiteralInteriorMask ls"
proof -
  obtain f o1 where f: "template_loop pre 0 [] None = (f, [], o1)"
    using template_loop_stack [of pre 0 "[]" None] assms(1) by (cases "template_loop pre 0 [] None") auto
  obtain g st o2 where g: "template_loop ls (length pre) [] o1 = (g, st, o2)" by (metis prod.exhaust)
  obtain g0 o0 where g0: "template_loop ls 0 [] None = (g0, lex_lines ls [], o0)"
    using template_loop_stack [of ls 0 "[]" None] by (cases "template_loop ls 0 [] None") auto
  have st: "st = lex_lines ls []" "g = g0"
    using template_loop_stack [of ls "length pre" "[]" o1] template_loop_flags [of ls "length pre" "[]" o1 0 None] g g0
    by simp_all
  obtain h st' o3 where h: "template_loop post (length pre + length ls) st o2 = (h, st', o3)" by (metis prod.exhaust)
  have loop: "template_loop (pre @ ls @ post) 0 [] None = (f @ g @ h, st', o3)"
    using f g h by (simp add: template_loop_append)
  have len: "length f = length pre" "length g = length ls"
    using template_loop_length [of pre 0 "[]" None] template_loop_length [of ls "length pre" "[]" o1] f g by simp_all
  have "take (length pre + length ls) (templateLiteralInteriorMask (pre @ ls @ post)) = f @ g"
  proof (cases "hasLiveFrame st'")
    case False
    with loop len show ?thesis by (simp add: templateLiteralInteriorMask_def)
  next
    case True
    then have "post \<noteq> []" using h assms(2) st by auto
    then obtain l where "o3 = Some l" "length pre + length ls \<le> l"
      using template_loop_open [of st post "length pre + length ls" o2] h assms(2) st by auto
    with loop len True show ?thesis by (simp add: templateLiteralInteriorMask_def take_clear)
  qed
  then have "drop (length pre) (take (length pre + length ls) (templateLiteralInteriorMask (pre @ ls @ post))) = g"
    using len by simp
  then show ?thesis using g0 st assms(2) by (simp add: templateLiteralInteriorMask_def drop_take)
qed

text \<open>A masked line of a comment lies between an opener and a close.\<close>

lemma block_loop_masked:
  assumes "block_loop ls i p = (f, q)" "n < length ls" "f ! n"
  shows "(p \<noteq> None \<and> (\<forall>m < n. index_of (ls ! m) CLOSE_COMMENT = None)) \<or>
    (\<exists>j < n. opensBlockComment (ls ! j) \<and> (\<forall>m. j < m \<and> m < n \<longrightarrow> index_of (ls ! m) CLOSE_COMMENT = None))"
  using assms
proof (induction ls i p arbitrary: f q n rule: block_loop.induct)
  case (2 line rest i p)
  show ?case
  proof (cases n)
    case (Suc m)
    obtain f' where f: "block_loop rest (i + 1) (if index_of line CLOSE_COMMENT \<noteq> None then None else Some p) = (f', q)" "f = True # f'"
      using 2(2) by (auto split: prod.splits)
    from 2(1) [OF f(1), of m] 2(3,4) f(2) Suc show ?thesis
      by (auto simp: less_Suc_eq_0_disj split: if_splits)
  qed simp
next
  case (3 line rest i)
  show ?case
  proof (cases n)
    case 0
    with 3 show ?thesis by (auto split: prod.splits)
  next
    case (Suc m)
    obtain f' where f: "block_loop rest (i + 1) (if opensBlockComment line then Some i else None) = (f', q)" "f = False # f'"
      using 3(2) by (auto split: prod.splits)
    from 3(1) [OF f(1), of m] 3(3,4) f(2) Suc show ?thesis
      by (auto simp: less_Suc_eq_0_disj split: if_splits)
  qed
qed simp

lemma block_loop_stays_open:
  "block_loop ls i (Some p) = (f, q) \<Longrightarrow> q = Some p \<or> (\<exists>k < length ls. index_of (ls ! k) CLOSE_COMMENT \<noteq> None)"
proof (induction ls arbitrary: i f q)
  case (Cons l ls)
  show ?case
  proof (cases "index_of l CLOSE_COMMENT = None")
    case True
    with Cons.prems obtain f' where "block_loop ls (i + 1) (Some p) = (f', q)" by (auto split: prod.splits)
    from Cons.IH [OF this] show ?thesis by (metis Suc_mono length_Cons nth_Cons_Suc)
  qed (auto intro: exI [of _ 0])
qed simp

lemma block_loop_closed:
  "block_loop ls i p = (f, q) \<Longrightarrow> n < length ls \<Longrightarrow> f ! n \<Longrightarrow> (\<forall>r. p = Some r \<longrightarrow> r < i) \<Longrightarrow>
     (\<exists>k. n \<le> k \<and> k < length ls \<and> index_of (ls ! k) CLOSE_COMMENT \<noteq> None) \<or> (\<exists>r. q = Some r \<and> r < i + n)"
proof (induction ls i p arbitrary: f q n rule: block_loop.induct)
  case (2 line rest i p)
  obtain f' where f: "block_loop rest (i + 1) (if index_of line CLOSE_COMMENT \<noteq> None then None else Some p) = (f', q)" "f = True # f'"
    using 2(2) by (auto split: prod.splits)
  show ?case
  proof (cases n)
    case 0
    show ?thesis
    proof (cases "index_of line CLOSE_COMMENT = None")
      case True
      with block_loop_stays_open [of rest "i + 1" p f' q] f(1) 2(5) 0 show ?thesis by auto
    qed (use 0 in \<open>auto intro: exI [of _ 0]\<close>)
  next
    case (Suc m)
    from 2(1) [OF f(1), of m] 2(3-5) f(2) Suc
    have "(\<exists>k\<ge>m. k < length rest \<and> index_of (rest ! k) CLOSE_COMMENT \<noteq> None) \<or> (\<exists>r. q = Some r \<and> r < i + 1 + m)"
      by (auto split: if_splits)
    with Suc show ?thesis by (metis Suc_le_mono Suc_mono add_Suc_right add.commute length_Cons nth_Cons_Suc plus_1_eq_Suc group_cancel.add1)
  qed
next
  case (3 line rest i)
  obtain f' where f: "block_loop rest (i + 1) (if opensBlockComment line then Some i else None) = (f', q)" "f = False # f'"
    using 3(2) by (auto split: prod.splits)
  with 3(4) obtain m where m: "n = Suc m" by (cases n) auto
  from 3(1) [OF f(1), of m] 3(3,4) f(2) m
  have "(\<exists>k\<ge>m. k < length rest \<and> index_of (rest ! k) CLOSE_COMMENT \<noteq> None) \<or> (\<exists>r. q = Some r \<and> r < i + 1 + m)"
    by (auto split: if_splits)
  with m show ?case by (metis Suc_le_mono Suc_mono add_Suc_right add.commute length_Cons nth_Cons_Suc plus_1_eq_Suc group_cancel.add1)
qed simp

text \<open>
  A line is masked as the interior of a block comment only between a line that opens a
  comment, with no close on the lines after it, and a line at or below it that closes one.
\<close>

theorem masked_line_is_enclosed:
  assumes "n < length lines" "blockCommentInteriorMask lines ! n"
  shows "(\<exists>j < n. opensBlockComment (lines ! j) \<and> (\<forall>m. j < m \<and> m < n \<longrightarrow> index_of (lines ! m) CLOSE_COMMENT = None)) \<and>
    (\<exists>k. n \<le> k \<and> k < length lines \<and> index_of (lines ! k) CLOSE_COMMENT \<noteq> None)"
proof -
  obtain f q where f: "block_loop lines 0 None = (f, q)" by fastforce
  have len: "length f = length lines" using block_loop_length [of lines 0 None] f by simp
  have flag: "f ! n \<and> (\<forall>r. q = Some r \<longrightarrow> n \<le> r)"
  proof (cases q)
    case None
    with assms(2) f show ?thesis by (simp add: blockCommentInteriorMask_def)
  next
    case (Some r)
    then have c: "clear_from (r + 1) f ! n" using assms(2) f by (simp add: blockCommentInteriorMask_def)
    have "n < r + 1"
    proof (rule ccontr)
      assume "\<not> n < r + 1"
      with c len assms(1) show False by (simp add: clear_from_def nth_append)
    qed
    with c Some len assms(1) show ?thesis by (simp add: clear_from_def nth_append)
  qed
  from block_loop_masked [OF f assms(1)] block_loop_closed [OF f assms(1)] flag show ?thesis by fastforce
qed

section \<open>The style that is detected\<close>

lemma greatestCommonDivisor_gcd: "greatestCommonDivisor a b = gcd a b"
proof (induction a b rule: greatestCommonDivisor.induct)
  case (1 a b)
  then show ?case by (simp add: greatestCommonDivisor.simps [of a b] gcd_non_0_nat)
qed

lemma foldl_gcd: "foldl greatestCommonDivisor d ns = gcd d (Gcd (set ns))"
  by (induction ns arbitrary: d) (simp_all add: greatestCommonDivisor_gcd gcd.assoc)

lemma foldl_min:
  "foldl min (n :: nat) ns \<in> set (n # ns) \<and> (\<forall>x \<in> set (n # ns). foldl min n ns \<le> x)"
proof (induction ns arbitrary: n)
  case (Cons m ns)
  from Cons [of "min n m"] show ?case by (auto simp: min_def split: if_splits)
qed simp

lemma space_counts_positive: "n \<in> set (space_counts lines) \<Longrightarrow> 0 < n"
  by (simp add: space_counts_def)

text \<open>
  A width that is detected lies between 1 and 8. It is the default where spaces show nothing;
  otherwise it is the least run of spaces on a structural line or divides all of them. Tabs are
  detected only where they indent more lines than spaces do.
\<close>

theorem detected_style_has_evidence:
  assumes "detectIndentation content = Some style"
  shows "case style of
      Tab_style \<Rightarrow> length (space_counts (counted_lines content)) < length (filter (indented_by TAB) (counted_lines content))
    | Space_style w \<Rightarrow> 1 \<le> w \<and> w \<le> 8 \<and>
        (w = 2 \<or> (w \<in> set (space_counts (counted_lines content)) \<and> (\<forall>n \<in> set (space_counts (counted_lines content)). w \<le> n)) \<or>
         (\<forall>n \<in> set (space_counts (counted_lines content)). w dvd n))"
proof -
  define cs where "cs = space_counts (counted_lines content)"
  define ts where "ts = length (filter (indented_by TAB) (counted_lines content))"
  define least divisor where "least = foldl min (hd cs) (tl cs)" and "divisor = foldl greatestCommonDivisor 0 cs"
  have style: "(cs = [] \<and> style = DEFAULT_INDENTATION) \<or> (length cs < ts \<and> style = Tab_style) \<or>
      (cs \<noteq> [] \<and> least \<le> 8 \<and> style = Space_style least) \<or> (cs \<noteq> [] \<and> divisor \<le> 8 \<and> style = Space_style divisor) \<or>
      style = DEFAULT_INDENTATION"
    using assms unfolding detectIndentation_def Let_def cs_def ts_def least_def divisor_def
    by (auto split: if_splits)
  have least: "cs \<noteq> [] \<Longrightarrow> least \<in> set cs \<and> (\<forall>n \<in> set cs. least \<le> n)"
    using foldl_min [of "hd cs" "tl cs"] by (cases cs) (auto simp: least_def)
  have dvd: "\<forall>n \<in> set cs. divisor dvd n" by (simp add: divisor_def foldl_gcd)
  have pos: "n \<in> set cs \<Longrightarrow> 0 < n" for n by (simp add: cs_def space_counts_positive)
  have "cs \<noteq> [] \<Longrightarrow> 1 \<le> least \<and> 1 \<le> divisor"
    using least pos dvd by (metis One_nat_def Suc_leI dvd_0_left_iff gr0I less_numeral_extra(3))
  with style least dvd show ?thesis
    unfolding cs_def [symmetric] ts_def [symmetric] by (auto simp: DEFAULT_INDENTATION_def)
qed

lemma demo_style: "detectIndentation (join_lf [units ''f {'', units ''    a'', units ''}'']) = Some (Space_style 4)"
  by code_simp

theorem detected_style_has_evidence_witness:
  "(4 :: nat) \<le> 8 \<and> detectIndentation (join_lf [units ''f {'', units ''    a'', units ''}'']) = Some (Space_style 4)"
  using detected_style_has_evidence [OF demo_style] demo_style by simp

definition commented :: "js_text list" where
  "commented = [units ''/* a'', units '' * b'', units '' */'', units ''c'']"

lemma commented_mask: "1 < length commented" "blockCommentInteriorMask commented ! 1"
  by code_simp+

theorem masked_line_is_enclosed_witness:
  "opensBlockComment (commented ! 0) \<and> blockCommentInteriorMask commented = [False, True, True, False]"
proof -
  have "opensBlockComment (commented ! 0)"
    using masked_line_is_enclosed [OF commented_mask] by simp
  moreover have "blockCommentInteriorMask commented = [False, True, True, False]" by code_simp
  ultimately show ?thesis by simp
qed

end
