(* ===== verification/Indent_Retarget.thy ===== *)
theory Indent_Retarget
  imports Indent_Detect
begin

text \<open>
  \<open>src/clients/indent-retarget.ts\<close>: when the indentation of an edit's old text was corrected to
  that of the file, its new text is indented in the same way, or left alone.
\<close>

section \<open>Lines and their indentation\<close>

definition blank_unit :: "code_unit \<Rightarrow> bool" where
  "blank_unit c = (c = TAB \<or> c = SPACE)"

text \<open>\<open>line.match(/^[\t ]*/)[0]\<close>, and the rest of the line.\<close>

definition leading :: "js_text \<Rightarrow> js_text" where
  "leading line = takeWhile blank_unit line"

definition line_body :: "js_text \<Rightarrow> js_text" where
  "line_body line = dropWhile blank_unit line"

definition text_lines :: "js_text \<Rightarrow> js_text list" where
  "text_lines t = split_lf (crlf_to_lf t)"

fun join_with :: "js_text \<Rightarrow> js_text list \<Rightarrow> js_text" where
  "join_with sep [] = []"
| "join_with sep [l] = l"
| "join_with sep (l # m # ls) = l @ sep @ join_with sep (m # ls)"

section \<open>The masks\<close>

record IndentRetargetFileContext =
  fc_content :: js_text
  fc_startLine :: int

definition computeInteriorMasks ::
    "js_text list \<Rightarrow> IndentRetargetFileContext option \<Rightarrow> bool list \<times> bool list" where
  "computeInteriorMasks oldLines fileContext =
     (let fragment = (blockCommentInteriorMask oldLines, templateLiteralInteriorMask oldLines)
      in case fileContext of
           None \<Rightarrow> fragment
         | Some fc \<Rightarrow>
             (let fileLines = text_lines (fc_content fc);
                  start = fc_startLine fc - 1;
                  stop = start + int (length oldLines)
              in if start \<ge> 0 \<and> stop \<le> int (length fileLines)
                 then (take (length oldLines) (drop (nat start) (blockCommentInteriorMask fileLines)),
                       take (length oldLines) (drop (nat start) (templateLiteralInteriorMask fileLines)))
                 else fragment))"

section \<open>The map of indentations\<close>

record indent_state =
  is_map :: "(js_text, js_text) jmap"
  is_structural :: "js_text set"
  is_ambiguous :: "js_text set"

definition no_indents :: indent_state where
  "no_indents = \<lparr>is_map = [], is_structural = {}, is_ambiguous = {}\<rparr>"

definition note_indent :: "js_text \<times> js_text \<times> bool \<times> bool \<Rightarrow> indent_state \<Rightarrow> indent_state" where
  "note_indent entry st =
     (case entry of (oldLine, correctedLine, commentInterior, templateInterior) \<Rightarrow>
        (let oldIndent = leading oldLine; correctedIndent = leading correctedLine
         in if oldIndent = correctedIndent then st
            else if (case jm_get (is_map st) oldIndent of Some previous \<Rightarrow> previous \<noteq> correctedIndent | None \<Rightarrow> False)
            then st\<lparr>is_map := jm_delete oldIndent (is_map st),
                    is_structural := is_structural st - {oldIndent},
                    is_ambiguous := insert oldIndent (is_ambiguous st)\<rparr>
            else if oldIndent \<notin> is_ambiguous st
            then st\<lparr>is_map := jm_set oldIndent correctedIndent (is_map st),
                    is_structural := (if \<not> commentInterior \<and> \<not> templateInterior
                                      then insert oldIndent (is_structural st) else is_structural st)\<rparr>
            else st))"

definition shortest :: "js_text set \<Rightarrow> js_text \<times> js_text \<Rightarrow> js_text \<times> js_text \<Rightarrow> js_text \<times> js_text" where
  "shortest structural entry base =
     (case (entry, base) of ((from_indent, to_indent), (baseFrom, baseTo)) \<Rightarrow>
        if from_indent \<noteq> [] \<and> from_indent \<in> structural \<and> (baseFrom = [] \<or> length from_indent < length baseFrom)
        then (from_indent, to_indent) else (baseFrom, baseTo))"

definition base_unit :: "indent_state \<Rightarrow> js_text \<times> js_text" where
  "base_unit st = fold (shortest (is_structural st)) (is_map st) ([], [])"

definition resolveIndent :: "indent_state \<Rightarrow> js_text \<Rightarrow> js_text option" where
  "resolveIndent st indent =
     (if indent = [] then Some []
      else case jm_get (is_map st) indent of
             Some direct \<Rightarrow> Some direct
           | None \<Rightarrow>
               (case base_unit st of (baseFrom, baseTo) \<Rightarrow>
                  let times = length indent div length baseFrom
                  in if baseFrom \<noteq> [] \<and> length indent mod length baseFrom = 0 \<and>
                        concat (replicate times baseFrom) = indent
                     then Some (concat (replicate times baseTo)) else None))"

section \<open>The new lines\<close>

text \<open>One line; a line of white space only stays. \<open>None\<close>: the indentation cannot be resolved.\<close>

definition retarget_line :: "indent_state \<Rightarrow> js_text \<Rightarrow> js_text option" where
  "retarget_line st line =
     (if leading line = line then Some line
      else map_option (\<lambda>resolved. resolved @ drop (length (leading line)) line) (resolveIndent st (leading line)))"

fun retarget_lines :: "indent_state \<Rightarrow> js_text list \<Rightarrow> js_text list option" where
  "retarget_lines st [] = Some []"
| "retarget_lines st (line # rest) =
     (case retarget_line st line of
        None \<Rightarrow> None
      | Some l \<Rightarrow> map_option (\<lambda>ls. l # ls) (retarget_lines st rest))"

definition indents_of :: "js_text \<Rightarrow> js_text \<Rightarrow> IndentRetargetFileContext option \<Rightarrow> indent_state" where
  "indents_of oldText correctedOldText fileContext =
     (let oldLines = text_lines oldText;
          (commentInterior, templateInterior) = computeInteriorMasks oldLines fileContext
      in fold note_indent (zip oldLines (zip (text_lines correctedOldText) (zip commentInterior templateInterior))) no_indents)"

text \<open>\<open>changed\<close> is set where a line's resolved indentation is not its own.\<close>

definition retargetReplacementIndentation ::
    "js_text \<Rightarrow> js_text \<Rightarrow> js_text \<Rightarrow> IndentRetargetFileContext option \<Rightarrow> js_text option" where
  "retargetReplacementIndentation newText oldText correctedOldText fileContext =
     (let sep = (if index_of newText [CR, LF] \<noteq> None then [CR, LF] else [LF]);
          st = indents_of oldText correctedOldText fileContext;
          newLines = text_lines newText
      in if length (text_lines oldText) \<noteq> length (text_lines correctedOldText) then None
         else if is_map st = [] then None
         else case retarget_lines st newLines of
                None \<Rightarrow> None
              | Some ls \<Rightarrow> if ls \<noteq> newLines then Some (join_with sep ls) else None)"

lemma leading_body: "leading l @ line_body l = l"
  by (simp add: leading_def line_body_def)

lemma drop_leading: "drop (length (leading l)) l = line_body l"
  by (simp add: leading_def line_body_def dropWhile_eq_drop)

lemma leading_all: "leading l = l \<longleftrightarrow> line_body l = []"
  using leading_body [of l] by (metis append_self_conv)

lemma leading_blank: "list_all blank_unit (leading l)"
  by (simp add: leading_def list_all_iff) (meson set_takeWhileD)

lemma indent_append:
  assumes "list_all blank_unit x"
  shows "leading (x @ line_body l) = x" "line_body (x @ line_body l) = line_body l"
proof -
  have "dropWhile blank_unit l = [] \<or> \<not> blank_unit (hd (dropWhile blank_unit l))" using hd_dropWhile by blast
  then have "takeWhile blank_unit (dropWhile blank_unit l) = []" by (simp only: takeWhile_eq_Nil_iff)
  with assms show "leading (x @ line_body l) = x" "line_body (x @ line_body l) = line_body l"
    by (simp_all add: leading_def line_body_def list_all_iff takeWhile_append2 dropWhile_append2 dropWhile_idem)
qed

lemma retarget_line_eq:
  "retarget_line st l =
     (if line_body l = [] then Some l else map_option (\<lambda>r. r @ line_body l) (resolveIndent st (leading l)))"
  by (simp add: retarget_line_def leading_all drop_leading)

section \<open>Only indentation changes\<close>

definition blank_values :: "indent_state \<Rightarrow> bool" where
  "blank_values st \<longleftrightarrow> (\<forall>k v. jm_get (is_map st) k = Some v \<longrightarrow> list_all blank_unit v) \<and> jm_wf (is_map st)"

lemma wf_after: "jm_wf m \<Longrightarrow> jm_wf (jm_set k v m)" "jm_wf m \<Longrightarrow> jm_wf (jm_delete k m)"
  by (simp_all add: jm_wf_def distinct_update distinct_delete)

lemma note_indent_blank: "blank_values st \<Longrightarrow> blank_values (note_indent e st)"
  by (cases e) (auto simp: blank_values_def note_indent_def Let_def jm_get_set jm_get_delete leading_blank wf_after
      split: option.splits if_splits)

lemma indents_blank: "blank_values (indents_of oldText correctedOldText fileContext)"
proof -
  have "blank_values (fold note_indent es st)" if "blank_values st" for es st
    using that by (induction es arbitrary: st) (simp_all add: note_indent_blank)
  moreover have "blank_values no_indents" by (simp add: no_indents_def blank_values_def)
  ultimately show ?thesis unfolding indents_of_def Let_def split_beta by blast
qed

lemma base_unit_blank:
  assumes "blank_values st"
  shows "list_all blank_unit (snd (base_unit st))"
proof -
  have "list_all blank_unit (snd (fold (shortest ss) m b))"
    if "\<forall>(k, v) \<in> set m. list_all blank_unit v" "list_all blank_unit (snd b)" for ss m b
    using that by (induction m arbitrary: b) (auto simp: shortest_def split: prod.splits)
  moreover have "\<forall>(k, v) \<in> set (is_map st). list_all blank_unit v"
    using assms by (auto simp: blank_values_def dest: jm_in_get)
  ultimately show ?thesis by (simp add: base_unit_def)
qed

lemma resolve_blank:
  assumes "blank_values st" "resolveIndent st i = Some r"
  shows "list_all blank_unit r"
  using assms base_unit_blank [OF assms(1)]
  by (auto simp: resolveIndent_def blank_values_def Let_def list_all_iff split: if_splits option.splits prod.splits)

lemma retarget_line_body:
  assumes "blank_values st" "retarget_line st l = Some l'"
  shows "line_body l' = line_body l \<and> (line_body l = [] \<longrightarrow> l' = l)"
  using assms resolve_blank [OF assms(1)] by (auto simp: retarget_line_eq indent_append split: if_splits)

lemma retarget_lines_bodies:
  assumes "blank_values st"
  shows "retarget_lines st ls = Some ls' \<Longrightarrow>
    list_all2 (\<lambda>l l'. line_body l' = line_body l \<and> (line_body l = [] \<longrightarrow> l' = l)) ls ls'"
  by (induction ls arbitrary: ls') (auto simp: retarget_line_body [OF assms] split: option.splits)

text \<open>
  Retargeting changes indentation only: the lines of the result correspond to those of the new
  text one to one, each with the same text behind its indentation, and a blank line is kept.
\<close>

theorem retarget_changes_only_indentation:
  assumes "retargetReplacementIndentation newText oldText correctedOldText fileContext = Some t"
  shows "\<exists>ls. t = join_with (if index_of newText [CR, LF] \<noteq> None then [CR, LF] else [LF]) ls \<and> ls \<noteq> text_lines newText \<and>
    list_all2 (\<lambda>l l'. line_body l' = line_body l \<and> (line_body l = [] \<longrightarrow> l' = l)) (text_lines newText) ls"
  using assms retarget_lines_bodies [OF indents_blank, of oldText correctedOldText fileContext "text_lines newText"]
  by (auto simp: retargetReplacementIndentation_def Let_def split: if_splits option.splits)

section \<open>It follows the correction\<close>

text \<open>
  A correction \<open>g\<close> of indentations: every line of the old text that has text was corrected by
  it, and blank lines were not. \<open>g\<close> may keep some indentations and change others.
\<close>

definition corrected_by :: "(js_text \<Rightarrow> js_text) \<Rightarrow> js_text list \<Rightarrow> js_text list \<Rightarrow> bool" where
  "corrected_by g olds news \<longleftrightarrow> list_all2 (\<lambda>l c.
     if line_body l = [] then c = l
     else c = g (leading l) @ line_body l \<and> list_all blank_unit (g (leading l))) olds news"

definition follows :: "(js_text \<Rightarrow> js_text) \<Rightarrow> js_text list \<Rightarrow> indent_state \<Rightarrow> bool" where
  "follows g seen st \<longleftrightarrow> is_ambiguous st = {} \<and>
     (\<forall>x y. jm_get (is_map st) x = Some y \<longrightarrow> y = g x) \<and>
     (\<forall>l \<in> set seen. line_body l \<noteq> [] \<and> g (leading l) \<noteq> leading l \<longrightarrow> jm_get (is_map st) (leading l) = Some (g (leading l)))"

lemma note_follows:
  assumes "follows g seen st"
    and "if line_body l = [] then c = l
      else c = g (leading l) @ line_body l \<and> list_all blank_unit (g (leading l))"
  shows "follows g (seen @ [l]) (note_indent (l, c, ci, ti) st)"
proof (cases "line_body l = [] \<or> g (leading l) = leading l")
  case True
  have "leading c = leading l"
  proof (cases "line_body l = []")
    case False
    with True assms(2) have "c = l" using leading_body [of l] by auto
    then show ?thesis by simp
  qed (use assms(2) in simp)
  then have "note_indent (l, c, ci, ti) st = st" by (simp add: note_indent_def)
  then show ?thesis using assms(1) True unfolding follows_def set_append by (simp only: list.set) blast
next
  case False
  then have "c = g (leading l) @ line_body l" "list_all blank_unit (g (leading l))" and ne: "g (leading l) \<noteq> leading l"
    using assms(2) by simp_all
  then have c: "leading c = g (leading l)" by (simp only: indent_append)
  have old: "jm_get (is_map st) (leading l) = Some v \<Longrightarrow> v = g (leading l)" for v
    using assms(1) by (auto simp: follows_def)
  have amb: "is_ambiguous st = {}" using assms(1) by (simp add: follows_def)
  have upd: "is_map (note_indent (l, c, ci, ti) st) = jm_set (leading l) (g (leading l)) (is_map st) \<and>
    is_ambiguous (note_indent (l, c, ci, ti) st) = {}"
  proof (cases "jm_get (is_map st) (leading l)")
    case None
    with c ne [symmetric] amb show ?thesis by (simp add: note_indent_def Let_def)
  next
    case (Some v)
    with old have "jm_get (is_map st) (leading l) = Some (g (leading l))" by simp
    with c ne [symmetric] amb show ?thesis by (simp add: note_indent_def Let_def)
  qed
  have "y = g x" if m: "jm_get (jm_set (leading l) (g (leading l)) (is_map st)) x = Some y" for x y
  proof (cases "x = leading l")
    case True
    with m show ?thesis by (simp add: jm_get_set)
  next
    case other: False
    then have "jm_get (is_map st) x = Some y" using m by (simp add: jm_get_set)
    with assms(1) show ?thesis unfolding follows_def by blast
  qed
  moreover have "jm_get (jm_set (leading l) (g (leading l)) (is_map st)) (leading k) = Some (g (leading k))"
    if k: "k \<in> set (seen @ [l])" "line_body k \<noteq> []" "g (leading k) \<noteq> leading k" for k
  proof (cases "leading k = leading l")
    case True
    then show ?thesis by (simp add: jm_get_set)
  next
    case other: False
    with k have "k \<in> set seen" by auto
    with k assms(1) have "jm_get (is_map st) (leading k) = Some (g (leading k))" unfolding follows_def by blast
    with other show ?thesis by (simp add: jm_get_set)
  qed
  ultimately show ?thesis unfolding follows_def upd [THEN conjunct1] upd [THEN conjunct2] by blast
qed

lemma fold_follows:
  assumes "follows g seen st" "corrected_by g olds news" "length masks = length olds"
  shows "follows g (seen @ olds) (fold note_indent (zip olds (zip news masks)) st)"
  using assms(2,3,1) unfolding corrected_by_def
proof (induction olds news arbitrary: seen st masks rule: list_all2_induct)
  case (Cons l ls c cs)
  then obtain ci ti ms where m: "masks = (ci, ti) # ms" "length ms = length ls" by (cases masks) auto
  have "follows g (seen @ [l]) (note_indent (l, c, ci, ti) st)" by (rule note_follows [OF Cons.prems(2) Cons.hyps(1)])
  from Cons.IH [OF m(2) this] m show ?case by simp
qed simp

lemma masks_length:
  "length (zip (fst (computeInteriorMasks olds ctx)) (snd (computeInteriorMasks olds ctx))) = length olds"
  by (auto simp: computeInteriorMasks_def Let_def split: option.split)

lemma indents_follow:
  assumes "corrected_by g (text_lines oldText) (text_lines correctedOldText)"
  shows "follows g (text_lines oldText) (indents_of oldText correctedOldText ctx)"
proof -
  have "follows g [] no_indents" by (simp add: follows_def no_indents_def)
  from fold_follows [OF this assms masks_length [of "text_lines oldText" ctx]] show ?thesis
    by (simp add: indents_of_def Let_def split_beta)
qed

text \<open>The indentation of a line as the correction has it.\<close>

definition corrected_line :: "(js_text \<Rightarrow> js_text) \<Rightarrow> js_text \<Rightarrow> js_text" where
  "corrected_line g l = (if line_body l = [] \<or> leading l = [] then l else g (leading l) @ line_body l)"

lemma retarget_lines_follow:
  assumes "follows g olds st"
    and "\<forall>l \<in> set ls. line_body l = [] \<or> leading l = [] \<or> (\<exists>k \<in> set olds. line_body k \<noteq> [] \<and> leading k = leading l \<and> g (leading l) \<noteq> leading l)"
  shows "retarget_lines st ls = Some (map (corrected_line g) ls)"
  using assms(2)
proof (induction ls)
  case (Cons l ls)
  have "retarget_line st l = Some (corrected_line g l)"
  proof (cases "line_body l = [] \<or> leading l = []")
    case True
    then show ?thesis using leading_body [of l] by (auto simp: retarget_line_eq corrected_line_def resolveIndent_def)
  next
    case False
    with Cons.prems obtain k where "k \<in> set olds" "line_body k \<noteq> []" "leading k = leading l" "g (leading k) \<noteq> leading k" by auto
    with assms(1) have "jm_get (is_map st) (leading l) = Some (g (leading l))" unfolding follows_def by metis
    with False show ?thesis by (simp add: retarget_line_eq corrected_line_def resolveIndent_def)
  qed
  with Cons show ?case by simp
qed simp

lemma corrected_by_length: "corrected_by g olds news \<Longrightarrow> length olds = length news"
  unfolding corrected_by_def by (rule list_all2_lengthD)


text \<open>
  The context of the file matters only where the fragment crosses a comment or a template: if
  the lexers are between tokens at its first line and the fragment ends what it begins, the
  masks are those of the fragment alone.
\<close>

theorem file_context_agrees_with_fragment:
  assumes "text_lines (fc_content fc) = pre @ olds @ post" and "fc_startLine fc = int (length pre) + 1"
    and "snd (block_loop pre 0 None) = None" and "snd (block_loop olds 0 None) = None"
    and "lex_lines pre [] = []" and "\<not> hasLiveFrame (lex_lines olds [])"
  shows "computeInteriorMasks olds (Some fc) = computeInteriorMasks olds None"
proof -
  have "computeInteriorMasks olds (Some fc) =
      (take (length olds) (drop (length pre) (blockCommentInteriorMask (pre @ olds @ post))),
       take (length olds) (drop (length pre) (templateLiteralInteriorMask (pre @ olds @ post))))"
    using assms(1,2) by (simp add: computeInteriorMasks_def Let_def)
  then show ?thesis
    using block_mask_fragment [OF assms(3,4)] template_mask_fragment [OF assms(5,6)]
    by (simp add: computeInteriorMasks_def Let_def)
qed

section \<open>Concrete texts\<close>

definition spaced :: js_text where
  "spaced = join_lf [units ''  a'', units ''    b'']"

definition tabbed :: js_text where
  "tabbed = join_lf [TAB # units ''a'', TAB # TAB # units ''b'']"

definition to_tabs :: "js_text \<Rightarrow> js_text" where
  "to_tabs i = replicate (length i div 2) TAB"

definition spaced_new :: js_text where
  "spaced_new = join_lf [units ''    c'', [], units ''  d'']"

lemma demo_corrected: "corrected_by to_tabs (text_lines spaced) (text_lines tabbed)"
  by code_simp

lemma demo_known: "\<forall>l \<in> set (text_lines spaced_new). line_body l = [] \<or> leading l = [] \<or>
    (to_tabs (leading l) \<noteq> leading l \<and>
     (\<exists>k \<in> set (text_lines spaced). line_body k \<noteq> [] \<and> leading k = leading l))"
  by code_simp

lemma demo_result:
  "(if map (corrected_line to_tabs) (text_lines spaced_new) = text_lines spaced_new then None
     else Some (join_with (if index_of spaced_new [CR, LF] \<noteq> None then [CR, LF] else [LF])
       (map (corrected_line to_tabs) (text_lines spaced_new)))) =
   Some (join_lf [TAB # TAB # units ''c'', [], TAB # units ''d''])"
  by code_simp


lemma demo_retarget:
  "retargetReplacementIndentation spaced_new spaced tabbed None = Some (join_lf [TAB # TAB # units ''c'', [], TAB # units ''d''])"
  by code_simp

theorem retarget_changes_only_indentation_witness:
  "\<exists>ls. join_lf [TAB # TAB # units ''c'', [], TAB # units ''d''] =
       join_with (if index_of spaced_new [CR, LF] \<noteq> None then [CR, LF] else [LF]) ls \<and> ls \<noteq> text_lines spaced_new \<and>
     list_all2 (\<lambda>l l'. line_body l' = line_body l \<and> (line_body l = [] \<longrightarrow> l' = l)) (text_lines spaced_new) ls"
  by (rule retarget_changes_only_indentation [OF demo_retarget])

text \<open>
  An indentation that the correction kept on one line and changed on another does not count as
  ambiguous: retargeting the old text itself then moves a line that the correction kept.
\<close>

lemma kept_indent_is_retargeted:
  "retargetReplacementIndentation (join_lf [units ''  a'', units ''  b'']) (join_lf [units ''  a'', units ''  b''])
     (join_lf [units ''  a'', TAB # units ''b'']) None = Some (join_lf [TAB # units ''a'', TAB # units ''b''])"
  by code_simp

text \<open>
  An indentation the correction kept is not in the map: a new text that uses it is refused as a
  whole, or, where it is a multiple of the base unit, moved. Here the old text is its own new
  text: the correction puts a tab for two spaces and keeps three, or keeps four.
\<close>

lemma kept_indent_aborts:
  "retargetReplacementIndentation (join_lf [units ''  a'', units ''   b'']) (join_lf [units ''  a'', units ''   b''])
     (join_lf [TAB # units ''a'', units ''   b'']) None = None"
  by code_simp

lemma kept_indent_is_scaled:
  "retargetReplacementIndentation (join_lf [units ''  a'', units ''    b'']) (join_lf [units ''  a'', units ''    b''])
     (join_lf [TAB # units ''a'', units ''    b'']) None = Some (join_lf [TAB # units ''a'', TAB # TAB # units ''b''])"
  by code_simp

text \<open>A correction that indents a line without indentation is not followed on such a line.\<close>

lemma unindented_line_stays:
  "retargetReplacementIndentation (join_lf [units ''a'', units ''  b'']) (join_lf [units ''a'', units ''  b''])
     (join_lf [units ''  a'', units ''    b'']) None = Some (join_lf [units ''a'', units ''    b''])"
  by code_simp

end
