(* ===== verification/Config_Values.thy ===== *)
theory Config_Values
  imports Complex_Main Lens_Prelude
begin

text \<open>
  The value and schema vocabulary of the config core: \<open>src/clients/config-core/schema.ts\<close> and
  \<open>src/clients/config-core/safe-object.ts\<close>.

  A JavaScript value is a \<open>jval\<close>. An object is the list of its own entries in
  \<open>Object.entries\<close> order: array-index keys ascending, then the other keys by insertion.
  \<open>obj_put\<close> (\<open>Object.defineProperty\<close> of a data property) keeps that order. Values are
  trees, as a parser produces them, so the validator's self-reference check has nothing to
  reject. A finite number is a rational; \<open>-0\<close> is its own constructor because \<open>Object.is\<close>
  tells it from \<open>0\<close>. \<open>JOther t\<close> stands for a value of \<open>typeof\<close> \<open>t\<close> that is no JSON data
  (a function, a symbol, a bigint).

  A regular expression is opaque: \<open>re pattern\<close> is \<open>None\<close> when \<open>new RegExp\<close> throws and
  otherwise the test it performs.
\<close>

section \<open>Values\<close>

datatype jnum = Fin rat | NegZero | PosInf | NegInf | NaN

datatype jval =
    JUndef
  | JNull
  | JBool bool
  | JNum jnum
  | JStr string
  | JArr "jval list"
  | JObj "(string \<times> jval) list"
  | JOther string

type_synonym jobj = "(string \<times> jval) list"

fun num_isFinite :: "jnum \<Rightarrow> bool" where
  "num_isFinite (Fin q) = True"
| "num_isFinite NegZero = True"
| "num_isFinite _ = False"

fun num_isInteger :: "jnum \<Rightarrow> bool" where
  "num_isInteger (Fin q) = (snd (quotient_of q) = 1)"
| "num_isInteger NegZero = True"
| "num_isInteger _ = False"

fun isArray :: "jval \<Rightarrow> bool" where
  "isArray (JArr _) = True"
| "isArray _ = False"

text \<open>\<open>typeof v === "object" && v !== null && !Array.isArray(v)\<close>, which the source spells three times.\<close>

fun isConfigObject :: "jval \<Rightarrow> bool" where
  "isConfigObject (JObj _) = True"
| "isConfigObject _ = False"

abbreviation isPlainObject :: "jval \<Rightarrow> bool" where "isPlainObject \<equiv> isConfigObject"

abbreviation isSchemaNode :: "jval \<Rightarrow> bool" where "isSchemaNode \<equiv> isConfigObject"

fun obj_of :: "jval \<Rightarrow> jobj" where
  "obj_of (JObj fields) = fields"
| "obj_of _ = []"

fun arr_of :: "jval \<Rightarrow> jval list" where
  "arr_of (JArr items) = items"
| "arr_of _ = []"

section \<open>Objects under keys a user chose\<close>

definition is_digit_char :: "char \<Rightarrow> bool" where
  "is_digit_char c = (48 \<le> (of_char c :: nat) \<and> (of_char c :: nat) \<le> 57)"

definition index_value :: "string \<Rightarrow> nat" where
  "index_value k = foldl (\<lambda>n c. 10 * n + (of_char c - 48)) 0 k"

definition is_array_index :: "string \<Rightarrow> bool" where
  "is_array_index k =
     (k \<noteq> [] \<and> list_all is_digit_char k \<and> (length k = 1 \<or> hd k \<noteq> CHR ''0'') \<and>
      index_value k < 2 ^ 32 - 1)"

fun insert_index :: "string \<Rightarrow> 'a \<Rightarrow> (string \<times> 'a) list \<Rightarrow> (string \<times> 'a) list" where
  "insert_index k v [] = [(k, v)]"
| "insert_index k v ((k', v') # fields) =
     (if is_array_index k' \<and> index_value k' \<le> index_value k
      then (k', v') # insert_index k v fields
      else (k, v) # (k', v') # fields)"

definition obj_put :: "string \<Rightarrow> 'a \<Rightarrow> (string \<times> 'a) list \<Rightarrow> (string \<times> 'a) list" where
  "obj_put k v fields =
     (if k \<in> set (map fst fields) then AList.update k v fields
      else if is_array_index k then insert_index k v fields
      else fields @ [(k, v)])"

text \<open>Decimal digits of an array position.\<close>

fun show_nat :: "nat \<Rightarrow> string" where
  "show_nat n = (if n < 10 then [char_of (48 + n)] else show_nat (n div 10) @ [char_of (48 + n mod 10)])"

declare show_nat.simps [simp del]

lemma index_value_append: "index_value (s @ [c]) = 10 * index_value s + (of_char c - 48)"
  by (simp add: index_value_def)

lemma index_value_show_nat [simp]: "index_value (show_nat n) = n"
proof (induction n rule: show_nat.induct)
  case (1 n)
  show ?case
  proof (cases "n < 10")
    case True
    then show ?thesis by (simp add: show_nat.simps [of n] index_value_def)
  next
    case False
    moreover have "48 + n mod 10 < 256" by (simp add: order.strict_trans1 [of _ "57::nat"] less_Suc_eq_le)
    ultimately show ?thesis
      using 1 by (simp add: show_nat.simps [of n] index_value_append)
  qed
qed

lemma show_nat_digits: "c \<in> set (show_nat n) \<Longrightarrow> is_digit_char c"
proof (induction n rule: show_nat.induct)
  case (1 n)
  then show ?case
    by (cases "n < 10") (auto simp: show_nat.simps [of n] is_digit_char_def)
qed

lemma show_nat_inject [simp]: "show_nat m = show_nat n \<longleftrightarrow> m = n"
  by (metis index_value_show_nat)

text \<open>\<open>Array.prototype.join\<close>.\<close>

fun js_join :: "string \<Rightarrow> string list \<Rightarrow> string" where
  "js_join sep [] = []"
| "js_join sep [x] = x"
| "js_join sep (x # y # xs) = x @ sep @ js_join sep (y # xs)"

definition MAX_CONFIG_DEPTH :: nat where "MAX_CONFIG_DEPTH = 32"

definition UNSAFE_CONFIG_KEYS :: "string list" where
  "UNSAFE_CONFIG_KEYS = [''__proto__'', ''constructor'', ''prototype'']"

definition isUnsafeConfigKey :: "string \<Rightarrow> bool" where
  "isUnsafeConfigKey name = (name \<in> set UNSAFE_CONFIG_KEYS)"

definition safeAssign :: "string \<Rightarrow> jval \<Rightarrow> jobj \<Rightarrow> jobj \<times> bool" where
  "safeAssign name v target =
     (if isUnsafeConfigKey name then (target, False) else (obj_put name v target, True))"

section \<open>Schema accessors\<close>

type_synonym schema = jobj
type_synonym regex = "string \<Rightarrow> (string \<Rightarrow> bool) option"

text \<open>\<open>node?.[key]\<close>: \<open>undefined\<close> for an absent node or key.\<close>

definition node_get :: "schema option \<Rightarrow> string \<Rightarrow> jval" where
  "node_get node key =
     (case node of
        None \<Rightarrow> JUndef
      | Some fields \<Rightarrow> (case map_of fields key of Some v \<Rightarrow> v | None \<Rightarrow> JUndef))"

definition as_node :: "jval \<Rightarrow> schema option" where
  "as_node v = (if isSchemaNode v then Some (obj_of v) else None)"

definition KEYED_PREFIX :: string where "KEYED_PREFIX = ''keyed:''"

definition isMergeStrategy :: "jval \<Rightarrow> bool" where
  "isMergeStrategy v =
     (case v of
        JStr s \<Rightarrow> s = ''replace'' \<or> s = ''append'' \<or>
                  (starts_with s KEYED_PREFIX \<and> length s > length KEYED_PREFIX)
      | _ \<Rightarrow> False)"

definition mergeStrategyOf :: "schema option \<Rightarrow> string" where
  "mergeStrategyOf node =
     (case node_get node ''x-merge-strategy'' of
        JStr s \<Rightarrow> if isMergeStrategy (JStr s) then s else ''replace''
      | _ \<Rightarrow> ''replace'')"

definition keyedField :: "string \<Rightarrow> string option" where
  "keyedField strategy =
     (if starts_with strategy KEYED_PREFIX then Some (drop (length KEYED_PREFIX) strategy) else None)"

datatype deny_policy = BooleanFalse | ArrayUnion

definition denyPolicyOf :: "schema option \<Rightarrow> deny_policy option" where
  "denyPolicyOf node =
     (case node_get node ''x-deny'' of
        JStr s \<Rightarrow> if s = ''boolean-false'' then Some BooleanFalse
                  else if s = ''array-union'' then Some ArrayUnion else None
      | _ \<Rightarrow> None)"

definition schemaType :: "schema option \<Rightarrow> string option" where
  "schemaType node = (case node_get node ''type'' of JStr s \<Rightarrow> Some s | _ \<Rightarrow> None)"

definition SCHEMA_TYPES :: "string list" where
  "SCHEMA_TYPES =
     [''object'', ''array'', ''string'', ''number'', ''integer'', ''boolean'', ''null'']"

definition isKnownSchemaType :: "string option \<Rightarrow> bool" where
  "isKnownSchemaType declared = (case declared of None \<Rightarrow> False | Some t \<Rightarrow> t \<in> set SCHEMA_TYPES)"

text \<open>The first pattern property whose regular expression matches; malformed patterns are skipped.\<close>

fun first_pattern :: "regex \<Rightarrow> (string \<times> jval) list \<Rightarrow> string \<Rightarrow> schema option" where
  "first_pattern re [] name = None"
| "first_pattern re ((pattern, child) # rest) name =
     (if \<not> isSchemaNode child then first_pattern re rest name
      else case re pattern of
             None \<Rightarrow> first_pattern re rest name
           | Some test \<Rightarrow> if test name then Some (obj_of child) else first_pattern re rest name)"

definition propertySchema :: "regex \<Rightarrow> schema option \<Rightarrow> string \<Rightarrow> schema option" where
  "propertySchema re node name =
     (case node of
        None \<Rightarrow> None
      | Some _ \<Rightarrow>
          (case map_of (obj_of (node_get node ''properties'')) name of
             Some (JObj child) \<Rightarrow> Some child
           | _ \<Rightarrow>
               (case first_pattern re (obj_of (node_get node ''patternProperties'')) name of
                  Some child \<Rightarrow> Some child
                | None \<Rightarrow> as_node (node_get node ''additionalProperties''))))"

datatype additional_policy = Drop | Keep | Validate schema

definition additionalPropertyPolicy :: "schema option \<Rightarrow> additional_policy" where
  "additionalPropertyPolicy node =
     (case node_get node ''additionalProperties'' of
        JBool True \<Rightarrow> Keep
      | JObj s \<Rightarrow> Validate s
      | _ \<Rightarrow> Drop)"

definition itemsSchema :: "schema option \<Rightarrow> schema option" where
  "itemsSchema node = as_node (node_get node ''items'')"

section \<open>Object lemmas\<close>

lemma map_of_insert_index:
  "k \<notin> set (map fst fields) \<Longrightarrow>
     map_of (insert_index k v fields) k' = (if k' = k then Some v else map_of fields k')"
  by (induction fields) auto

lemma set_insert_index: "set (insert_index k v fields) = insert (k, v) (set fields)"
  by (induction k v fields rule: insert_index.induct) (simp_all add: insert_commute)

lemma keys_insert_index: "set (map fst (insert_index k v fields)) = insert k (set (map fst fields))"
  by (simp add: set_insert_index)

lemma distinct_insert_index:
  "distinct (map fst fields) \<Longrightarrow> k \<notin> set (map fst fields) \<Longrightarrow>
     distinct (map fst (insert_index k v fields))"
proof (induction fields)
  case (Cons f fields)
  then show ?case
    using keys_insert_index [of k v fields] by (cases f) auto
qed simp

lemma map_of_obj_put: "map_of (obj_put k v fields) k' = (if k' = k then Some v else map_of fields k')"
proof -
  consider "k \<in> set (map fst fields)"
    | "k \<notin> set (map fst fields)" "is_array_index k"
    | "k \<notin> set (map fst fields)" "\<not> is_array_index k"
    by blast
  then show ?thesis
  proof cases
    case 3
    then have "map_of fields k = None" by (simp add: map_of_eq_None_iff)
    with 3 show ?thesis by (simp add: obj_put_def map_add_def split: option.splits)
  qed (auto simp: obj_put_def update_conv map_of_insert_index)
qed

lemma distinct_obj_put: "distinct (map fst fields) \<Longrightarrow> distinct (map fst (obj_put k v fields))"
  by (simp add: obj_put_def distinct_update distinct_insert_index)

lemma keys_obj_put: "set (map fst (obj_put k v fields)) = insert k (set (map fst fields))"
proof (cases "k \<in> set (map fst fields)")
  case True
  then show ?thesis using dom_update [of k v fields] by (simp add: obj_put_def)
qed (use keys_insert_index [of k v fields] in \<open>auto simp: obj_put_def\<close>)

lemma set_obj_put: "set (obj_put k v fields) \<subseteq> insert (k, v) (set fields)"
proof -
  have "set (AList.update k v fields) \<subseteq> insert (k, v) (set fields)"
    by (induction fields) auto
  then show ?thesis by (auto simp: obj_put_def set_insert_index)
qed

text \<open>Objects implement the store interface of the prelude.\<close>

interpretation jso: keyed_store map_of obj_put "\<lambda>fields. distinct (map fst fields)"
  by unfold_locales (simp_all add: map_of_obj_put distinct_obj_put)

text \<open>
  Keys in \<open>Object.entries\<close> order: index keys ascending, then the others. Adding a
  key that may stand last appends it.
\<close>

fun keys_ordered :: "string list \<Rightarrow> bool" where
  "keys_ordered [] = True"
| "keys_ordered (k # ks) =
     ((if is_array_index k
       then list_all (\<lambda>k'. is_array_index k' \<longrightarrow> index_value k \<le> index_value k') ks
       else list_all (\<lambda>k'. \<not> is_array_index k') ks) \<and> keys_ordered ks)"

lemma insert_index_append:
  "keys_ordered (map fst fields @ [k]) \<Longrightarrow> is_array_index k \<Longrightarrow> insert_index k v fields = fields @ [(k, v)]"
  by (induction fields) (auto split: if_splits)

lemma obj_put_append:
  assumes "keys_ordered (map fst fields @ [k])" and "k \<notin> set (map fst fields)"
  shows "obj_put k v fields = fields @ [(k, v)]"
  using assms by (simp add: obj_put_def insert_index_append)

lemma keys_ordered_append1: "keys_ordered (xs @ ys) \<Longrightarrow> keys_ordered xs"
  by (induction xs) (auto split: if_splits)

lemma keys_ordered_append_plain:
  "keys_ordered ks \<Longrightarrow> \<not> is_array_index k \<Longrightarrow> keys_ordered (ks @ [k])"
  by (induction ks) auto

lemma keys_ordered_insert_index:
  "keys_ordered (map fst fs) \<Longrightarrow> is_array_index k \<Longrightarrow> keys_ordered (map fst (insert_index k v fs))"
proof (induction k v fs rule: insert_index.induct)
  case (2 k v k' v' fs)
  then show ?case
    using set_insert_index [of k v fs]
    by (force simp: list_all_iff split: if_splits)
qed simp

lemma keys_update: "k \<in> set (map fst fs) \<Longrightarrow> map fst (AList.update k v fs) = map fst fs"
  by (simp add: update_keys)

lemma keys_ordered_obj_put: "keys_ordered (map fst fs) \<Longrightarrow> keys_ordered (map fst (obj_put k v fs))"
  by (simp add: obj_put_def keys_update keys_ordered_insert_index keys_ordered_append_plain del: set_map)

end
