(* ===== verification/Generation_Lock.thy ===== *)
theory Generation_Lock
  imports Config_Values
begin

text \<open>
  The generation lock, \<open>clients/generation-lock.ts\<close>, with the liveness probe of
  \<open>clients/pid-liveness.ts\<close>.

  The lock is a directory of files \<open>lock.1\<close>, \<open>lock.2\<close>, and so on, with markers
  \<open>lock.<g>.released\<close>. The first part holds the functions of the file, each acting on a
  world (the directory, the clock, the processes that answer a probe). The second part
  splits an acquisition at its file system calls: a contender's program counter says which
  call comes next, and an event lets one contender make one call, so that runs of events
  are the interleavings of any number of processes. A call may fail, a process may die
  between any two calls and its pid be reused, and the clock may jump.

  A generation file holds nothing (between the exclusive create and the write of its
  content) or \<open><pid> <ms>\<close>: the two contents this code gives it. Generation numbers are
  exact naturals.
\<close>

section \<open>Files, processes and the clock\<close>

datatype lock_text = Blank | Stamp nat int

text \<open>
  A file is an inode: a descriptor keeps writing to the inode it opened, also when the name
  has been unlinked and created again. \<open>lw_inodes\<close> counts the inodes made so far.
\<close>

record lock_file =
  lk_inode :: nat
  lk_text :: lock_text
  lk_mtime :: int

type_synonym lock_dir = "(string, lock_file) jmap"

text \<open>What \<open>process.kill(pid, 0)\<close> does for a pid that some process has.\<close>

datatype probe = Signalled | Refused | Unprobeable

record lock_world =
  lw_dir :: lock_dir
  lw_inodes :: nat
  lw_now :: int
  lw_procs :: "(nat, probe) jmap"

datatype lock_errno = EEXIST | EPERM | EBUSY | EOTHER

text \<open>
  A pid no process has answers \<open>ESRCH\<close>: dead. No error, \<open>EPERM\<close> and every other code read
  as alive.
\<close>

definition realIsPidAlive :: "lock_world \<Rightarrow> nat \<Rightarrow> bool" where
  "realIsPidAlive w pid =
     (if pid = 0 then False
      else case jm_get (lw_procs w) pid of
        None \<Rightarrow> False
      | Some Signalled \<Rightarrow> True
      | Some Refused \<Rightarrow> True
      | Some Unprobeable \<Rightarrow> True)"

section \<open>Names\<close>

definition generationPath :: "nat \<Rightarrow> string" where
  "generationPath generation = ''lock.'' @ show_nat generation"

definition releasedName :: "nat \<Rightarrow> string" where
  "releasedName generation = ''lock.'' @ show_nat generation @ ''.released''"

text \<open>
  The expression \<open>^lock\.(\d+)(\.released)?$\<close>: the number, and whether the suffix is there.
\<close>

definition GENERATION :: "string \<Rightarrow> (nat \<times> bool) option" where
  "GENERATION name =
     (let digits = takeWhile is_digit_char (drop 5 name);
          suffix = dropWhile is_digit_char (drop 5 name)
      in if \<not> starts_with name ''lock.'' \<or> digits = [] then None
         else if suffix = [] then Some (index_value digits, False)
         else if suffix = ''.released'' then Some (index_value digits, True)
         else None)"

definition top_of_name :: "string \<Rightarrow> nat \<Rightarrow> nat" where
  "top_of_name name t =
     (case GENERATION name of Some (n, False) \<Rightarrow> max t n | _ \<Rightarrow> t)"

definition topGeneration :: "string list \<Rightarrow> nat" where
  "topGeneration entries = fold top_of_name entries 0"

section \<open>The functions of the lock\<close>

record GenerationHold =
  gh_generation :: nat
  gh_tookOverStale :: bool

text \<open>
  \<open>pidFileOwner\<close>: the pid the file names, \<open>None\<close> when it cannot be read (the fault), is gone
  or names none.
\<close>

definition pidFileOwner :: "lock_errno option \<Rightarrow> lock_dir \<Rightarrow> string \<Rightarrow> nat option" where
  "pidFileOwner fault d name =
     (case fault of Some _ \<Rightarrow> None
      | None \<Rightarrow> (case jm_get d name of
          None \<Rightarrow> None
        | Some f \<Rightarrow> (case lk_text f of
            Blank \<Rightarrow> None
          | Stamp pid ms \<Rightarrow> if 0 < pid then Some pid else None)))"

text \<open>The outcome of every file system call of one acquisition: \<open>None\<close> when it does not fail.\<close>

record lock_faults =
  ft_list :: "lock_errno option"
  ft_stat :: "lock_errno option"
  ft_read :: "lock_errno option"
  ft_create :: "lock_errno option"
  ft_stamp :: "lock_errno option"
  ft_relist :: "lock_errno option"
  ft_unlink :: "string \<Rightarrow> lock_errno option"
  ft_release :: "lock_errno option"

definition pidFileIsStale :: "lock_faults \<Rightarrow> lock_world \<Rightarrow> string \<Rightarrow> int \<Rightarrow> bool" where
  "pidFileIsStale flt w name staleMs =
     (case (ft_stat flt, jm_get (lw_dir w) name) of
        (None, Some f) \<Rightarrow>
          (if lw_now w - lk_mtime f > staleMs then True
           else case pidFileOwner (ft_read flt) (lw_dir w) name of
             None \<Rightarrow> False
           | Some pid \<Rightarrow> \<not> realIsPidAlive w pid)
      | _ \<Rightarrow> False)"

definition isLockContention :: "lock_errno \<Rightarrow> bool" where
  "isLockContention e = (e = EEXIST \<or> e = EPERM \<or> e = EBUSY)"

text \<open>The body of the loop of \<open>removeBelowPredecessor\<close>, and the loop.\<close>

definition removable :: "nat \<Rightarrow> string \<Rightarrow> bool" where
  "removable generation name =
     (case GENERATION name of None \<Rightarrow> False | Some (n, _) \<Rightarrow> n + 1 < generation)"

definition remove_one :: "lock_errno option \<Rightarrow> nat \<Rightarrow> string \<Rightarrow> lock_dir \<Rightarrow> lock_dir" where
  "remove_one fault generation name d =
     (if \<not> removable generation name then d
      else case fault of None \<Rightarrow> jm_delete name d | Some _ \<Rightarrow> d)"

definition removeBelowPredecessor ::
    "(string \<Rightarrow> lock_errno option) \<Rightarrow> string list \<Rightarrow> nat \<Rightarrow> lock_dir \<Rightarrow> lock_dir" where
  "removeBelowPredecessor fault entries generation d =
     fold (\<lambda>name. remove_one (fault name) generation name) entries d"

text \<open>A new empty file under a name, on a new inode.\<close>

definition create_file :: "string \<Rightarrow> lock_world \<Rightarrow> lock_world" where
  "create_file name w =
     w\<lparr>lw_dir := jm_set name \<lparr>lk_inode = lw_inodes w, lk_text = Blank, lk_mtime = lw_now w\<rparr> (lw_dir w),
       lw_inodes := lw_inodes w + 1\<rparr>"

text \<open>\<open>writeFileSync(file, "")\<close>: truncates the file that is there, or creates one.\<close>

definition write_empty :: "string \<Rightarrow> lock_world \<Rightarrow> lock_world" where
  "write_empty name w =
     (case jm_get (lw_dir w) name of
        None \<Rightarrow> create_file name w
      | Some f \<Rightarrow> w\<lparr>lw_dir := jm_set name (f\<lparr>lk_text := Blank, lk_mtime := lw_now w\<rparr>) (lw_dir w)\<rparr>)"

text \<open>\<open>releaseGeneration\<close> writes the marker; a failed write is swallowed.\<close>

definition releaseGeneration :: "lock_errno option \<Rightarrow> nat \<Rightarrow> lock_world \<Rightarrow> lock_world" where
  "releaseGeneration fault generation w =
     (case fault of Some _ \<Rightarrow> w
      | None \<Rightarrow> write_empty (releasedName generation) w)"

definition heartbeatIntervalMs :: "int \<Rightarrow> int" where
  "heartbeatIntervalMs leaseMs = max 1000 (leaseMs div 4)"

text \<open>One tick of \<open>startGenerationHeartbeat\<close>: \<open>utimes\<close> on the held file, if it is there.\<close>

definition touch_file :: "string \<Rightarrow> int \<Rightarrow> lock_dir \<Rightarrow> lock_dir" where
  "touch_file name t d =
     (case jm_get d name of None \<Rightarrow> d | Some f \<Rightarrow> jm_set name (f\<lparr>lk_mtime := t\<rparr>) d)"

definition heartbeat_tick :: "lock_errno option \<Rightarrow> nat \<Rightarrow> lock_world \<Rightarrow> lock_world" where
  "heartbeat_tick fault generation w =
     (case fault of Some _ \<Rightarrow> w
      | None \<Rightarrow> w\<lparr>lw_dir := touch_file (generationPath generation) (lw_now w) (lw_dir w)\<rparr>)"

definition ownsTopGeneration :: "lock_errno option \<Rightarrow> nat \<Rightarrow> lock_world \<Rightarrow> bool" where
  "ownsTopGeneration fault generation w =
     (case fault of Some _ \<Rightarrow> False
      | None \<Rightarrow>
          (let entries = jm_keys (lw_dir w)
           in if releasedName generation \<in> set entries then False
              else topGeneration entries = generation))"

text \<open>
  \<open>writeFileSync\<close> with \<open>wx\<close> creates the file, then writes the content through the descriptor
  it opened: under the name, if the name still stands for that inode.
\<close>

definition write_stamp :: "string \<Rightarrow> nat \<Rightarrow> nat \<Rightarrow> int \<Rightarrow> lock_world \<Rightarrow> lock_world" where
  "write_stamp name inode pid ms w =
     (case jm_get (lw_dir w) name of
        None \<Rightarrow> w
      | Some f \<Rightarrow>
          (if lk_inode f = inode
           then w\<lparr>lw_dir := jm_set name (f\<lparr>lk_text := Stamp pid ms, lk_mtime := lw_now w\<rparr>) (lw_dir w)\<rparr>
           else w))"

datatype attempt = Acquired GenerationHold | Undefined | Thrown lock_errno

text \<open>What follows a successful \<open>wx\<close> write: the second listing, then back off or clean up.\<close>

definition settle_attempt :: "lock_faults \<Rightarrow> GenerationHold \<Rightarrow> lock_world \<Rightarrow> lock_world \<times> attempt" where
  "settle_attempt flt hold w =
     (case ft_relist flt of
        Some cause \<Rightarrow> (releaseGeneration (ft_release flt) (gh_generation hold) w, Thrown cause)
      | None \<Rightarrow>
          (let entries = jm_keys (lw_dir w)
           in if topGeneration entries > gh_generation hold
              then (releaseGeneration (ft_release flt) (gh_generation hold) w, Undefined)
              else (w\<lparr>lw_dir := removeBelowPredecessor (ft_unlink flt) entries
                        (gh_generation hold) (lw_dir w)\<rparr>, Acquired hold)))"

text \<open>
  The exclusive create and what follows. A failed \<open>wx\<close> write either created no file
  (\<open>ft_create\<close>, or the name exists) or created it and could not write it (\<open>ft_stamp\<close>).
\<close>

definition create_generation ::
    "lock_faults \<Rightarrow> nat \<Rightarrow> GenerationHold \<Rightarrow> lock_world \<Rightarrow> lock_world \<times> attempt" where
  "create_generation flt pid hold w =
     (let name = generationPath (gh_generation hold);
          create = (case ft_create flt of
                      Some e \<Rightarrow> Some e
                    | None \<Rightarrow> if jm_has (lw_dir w) name then Some EEXIST else None)
      in (case create of
            Some e \<Rightarrow> (w, if isLockContention e then Undefined else Thrown e)
          | None \<Rightarrow>
              (let w1 = create_file name w
               in (case ft_stamp flt of
                     Some e \<Rightarrow> (w1, if isLockContention e then Undefined else Thrown e)
                   | None \<Rightarrow> settle_attempt flt hold (write_stamp name (lw_inodes w) pid (lw_now w) w1)))))"

text \<open>A whole acquisition with nobody else acting in between.\<close>

definition tryAcquireGeneration ::
    "lock_faults \<Rightarrow> nat \<Rightarrow> int \<Rightarrow> lock_world \<Rightarrow> lock_world \<times> attempt" where
  "tryAcquireGeneration flt pid staleMs w =
     (case ft_list flt of Some e \<Rightarrow> (w, Thrown e)
      | None \<Rightarrow>
      (let listed = jm_keys (lw_dir w);
           t = topGeneration listed;
           free = (t = 0 \<or> releasedName t \<in> set listed)
       in if \<not> free \<and> \<not> pidFileIsStale flt w (generationPath t) staleMs then (w, Undefined)
          else create_generation flt pid \<lparr>gh_generation = t + 1, gh_tookOverStale = \<not> free\<rparr> w))"

section \<open>The acquisition split at its calls\<close>

text \<open>
  The program counter of a contender: where it stands between two file system calls. The
  numbers are the generation it listed as the top or the one it goes for, the flag is
  \<open>tookOverStale\<close>, the names of \<open>Sweeping\<close> are those the cleanup loop has left.
\<close>

datatype lock_pc =
    Outside
  | Listed nat bool
  | Reading nat
  | Probing nat nat
  | Creating nat bool
  | Opened nat bool nat int
  | Stamped nat bool
  | Sweeping nat bool "string list"
  | Holding nat bool
  | Leaving nat
  | Dead

text \<open>
  One call of contender \<open>pid\<close>, with the fault it meets. \<open>Outside\<close> after a call means the
  attempt returned without the lock or threw.
\<close>

fun turn :: "int \<Rightarrow> nat \<Rightarrow> lock_errno option \<Rightarrow> lock_world \<Rightarrow> lock_pc \<Rightarrow> lock_world \<times> lock_pc" where
  "turn lease pid fault w Outside =
     (case fault of Some _ \<Rightarrow> (w, Outside)
      | None \<Rightarrow> (let listed = jm_keys (lw_dir w); t = topGeneration listed
                 in (w, Listed t (t = 0 \<or> releasedName t \<in> set listed))))"
| "turn lease pid fault w (Listed t free) =
     (if free then (w, Creating (t + 1) False)
      else case (fault, jm_get (lw_dir w) (generationPath t)) of
             (None, Some f) \<Rightarrow>
               (if lw_now w - lk_mtime f > lease then (w, Creating (t + 1) True) else (w, Reading t))
           | _ \<Rightarrow> (w, Outside))"
| "turn lease pid fault w (Reading t) =
     (case pidFileOwner fault (lw_dir w) (generationPath t) of
        None \<Rightarrow> (w, Outside)
      | Some p \<Rightarrow> (w, Probing t p))"
| "turn lease pid fault w (Probing t p) =
     (if realIsPidAlive w p then (w, Outside) else (w, Creating (t + 1) True))"
| "turn lease pid fault w (Creating g took) =
     (if fault \<noteq> None \<or> jm_has (lw_dir w) (generationPath g) then (w, Outside)
      else (create_file (generationPath g) w, Opened g took (lw_inodes w) (lw_now w)))"
| "turn lease pid fault w (Opened g took inode ms) =
     (case fault of Some _ \<Rightarrow> (w, Outside)
      | None \<Rightarrow> (write_stamp (generationPath g) inode pid ms w, Stamped g took))"
| "turn lease pid fault w (Stamped g took) =
     (case fault of Some _ \<Rightarrow> (w, Leaving g)
      | None \<Rightarrow> (let entries = jm_keys (lw_dir w)
                 in if topGeneration entries > g then (w, Leaving g)
                    else (w, Sweeping g took entries)))"
| "turn lease pid fault w (Sweeping g took []) = (w, Holding g took)"
| "turn lease pid fault w (Sweeping g took (name # names)) =
     (w\<lparr>lw_dir := remove_one fault g name (lw_dir w)\<rparr>, Sweeping g took names)"
| "turn lease pid fault w (Holding g took) = (w, Holding g took)"
| "turn lease pid fault w (Leaving g) = (releaseGeneration fault g w, Outside)"
| "turn lease pid fault w Dead = (w, Dead)"

record contender =
  ct_pid :: nat
  ct_pc :: lock_pc

record lock_sys =
  ls_world :: lock_world
  ls_conts :: "(nat, contender) jmap"

text \<open>
  \<open>Arrive c p\<close>: a contender \<open>c\<close> appears in process \<open>p\<close> (a new one, or one that is running).
  \<open>Turn c f\<close>: its next call. \<open>Done c\<close>: a holder's protected operation ends, and the release
  comes next. \<open>Beat c f\<close>: a heartbeat of a holder. \<open>Kill p\<close>: process \<open>p\<close> dies with all its
  contenders. \<open>Clock t\<close>: the clock reads \<open>t\<close>.
\<close>

datatype lock_event =
    Arrive nat nat
  | Turn nat "lock_errno option"
  | Done nat
  | Beat nat "lock_errno option"
  | Kill nat
  | Clock int

definition die :: "nat \<Rightarrow> contender \<Rightarrow> contender" where
  "die p k = (if ct_pid k = p then k\<lparr>ct_pc := Dead\<rparr> else k)"

fun lock_step :: "int \<Rightarrow> lock_event \<Rightarrow> lock_sys \<Rightarrow> lock_sys" where
  "lock_step lease (Arrive c p) s =
     (if p = 0 \<or> jm_has (ls_conts s) c then s
      else s\<lparr>ls_world := (ls_world s)\<lparr>lw_procs := jm_set p Signalled (lw_procs (ls_world s))\<rparr>,
             ls_conts := jm_set c \<lparr>ct_pid = p, ct_pc = Outside\<rparr> (ls_conts s)\<rparr>)"
| "lock_step lease (Turn c f) s =
     (case jm_get (ls_conts s) c of
        None \<Rightarrow> s
      | Some k \<Rightarrow>
          (case turn lease (ct_pid k) f (ls_world s) (ct_pc k) of
             (w, pc) \<Rightarrow> s\<lparr>ls_world := w, ls_conts := jm_set c (k\<lparr>ct_pc := pc\<rparr>) (ls_conts s)\<rparr>))"
| "lock_step lease (Done c) s =
     (case jm_get (ls_conts s) c of
        None \<Rightarrow> s
      | Some k \<Rightarrow>
          (case ct_pc k of
             Holding g took \<Rightarrow> s\<lparr>ls_conts := jm_set c (k\<lparr>ct_pc := Leaving g\<rparr>) (ls_conts s)\<rparr>
           | _ \<Rightarrow> s))"
| "lock_step lease (Beat c f) s =
     (case jm_get (ls_conts s) c of
        None \<Rightarrow> s
      | Some k \<Rightarrow>
          (case ct_pc k of
             Holding g took \<Rightarrow> s\<lparr>ls_world := heartbeat_tick f g (ls_world s)\<rparr>
           | _ \<Rightarrow> s))"
| "lock_step lease (Kill p) s =
     s\<lparr>ls_world := (ls_world s)\<lparr>lw_procs := jm_delete p (lw_procs (ls_world s))\<rparr>,
       ls_conts := map (map_prod id (die p)) (ls_conts s)\<rparr>"
| "lock_step lease (Clock t) s = s\<lparr>ls_world := (ls_world s)\<lparr>lw_now := t\<rparr>\<rparr>"

definition lock_run :: "int \<Rightarrow> lock_event list \<Rightarrow> lock_sys \<Rightarrow> lock_sys" where
  "lock_run lease = fold (lock_step lease)"

definition lock_start :: lock_sys where
  "lock_start = \<lparr>ls_world = \<lparr>lw_dir = [], lw_inodes = 0, lw_now = 0, lw_procs = []\<rparr>, ls_conts = []\<rparr>"

end
