(* ===== verification/Generation_Lock_Safety.thy ===== *)
theory Generation_Lock_Safety
  imports Generation_Lock
begin

text \<open>
  Safety of the generation lock over every interleaving of its calls.

  The first sections say what the calls do to the directory: which generations exist, which
  are marked released, which is the top. The invariant \<open>lock_safe\<close> holds in every run,
  whatever the clock does: the top never falls, nobody stands above it, one contender at
  most claims it. \<open>lock_exclusive\<close> adds what the lease buys: while every contender inside keeps its
  lease, whoever entered holds the top generation, so one contender at most is inside.
\<close>

section \<open>Names\<close>

lemma show_nat_not_Nil [simp]: "show_nat n \<noteq> []"
  by (simp add: show_nat.simps [of n])

lemma show_nat_all_digits: "\<forall>c \<in> set (show_nat n). is_digit_char c"
  using show_nat_digits by blast

lemma dot_not_digit: "\<not> is_digit_char CHR ''.''"
  by (simp add: is_digit_char_def)

lemma digit_prefix [simp]:
  "takeWhile is_digit_char (show_nat n) = show_nat n"
  "dropWhile is_digit_char (show_nat n) = []"
  "takeWhile is_digit_char (show_nat n @ CHR ''.'' # cs) = show_nat n"
  "dropWhile is_digit_char (show_nat n @ CHR ''.'' # cs) = CHR ''.'' # cs"
  using show_nat_all_digits [of n] dot_not_digit
  by (simp_all add: takeWhile_append dropWhile_append)

lemma GENERATION_generationPath [simp]: "GENERATION (generationPath g) = Some (g, False)"
  by (simp add: GENERATION_def generationPath_def starts_with_def)

lemma GENERATION_releasedName [simp]: "GENERATION (releasedName g) = Some (g, True)"
  by (simp add: GENERATION_def releasedName_def starts_with_def)

lemma lock_names_distinct [simp]:
  "generationPath g = generationPath h \<longleftrightarrow> g = h"
  "releasedName g = releasedName h \<longleftrightarrow> g = h"
  "generationPath g \<noteq> releasedName h"
  "releasedName h \<noteq> generationPath g"
  by (metis GENERATION_generationPath GENERATION_releasedName option.inject prod.inject)+

section \<open>Directories of lock files\<close>

abbreviation has_gen :: "lock_dir \<Rightarrow> nat \<Rightarrow> bool" where
  "has_gen d g \<equiv> jm_has d (generationPath g)"

abbreviation marked :: "lock_dir \<Rightarrow> nat \<Rightarrow> bool" where
  "marked d g \<equiv> jm_has d (releasedName g)"

abbreviation top_gen :: "lock_dir \<Rightarrow> nat" where
  "top_gen d \<equiv> topGeneration (jm_keys d)"

text \<open>Every name in the directory is one the lock gives.\<close>

definition lock_name :: "string \<Rightarrow> bool" where
  "lock_name n \<longleftrightarrow> (\<exists>g. n = generationPath g \<or> n = releasedName g)"

definition lock_names :: "lock_dir \<Rightarrow> bool" where
  "lock_names d \<longleftrightarrow> (\<forall>n \<in> set (jm_keys d). lock_name n)"

lemma lock_name_simps [simp]: "lock_name (generationPath g)" "lock_name (releasedName g)"
  by (auto simp: lock_name_def)

lemma top_of_name_ge:
  "t \<le> top_of_name n t"
  "GENERATION n = Some (g, False) \<Longrightarrow> g \<le> top_of_name n t"
  by (auto simp: top_of_name_def split: option.splits bool.splits)

lemma fold_top_start: "t \<le> fold top_of_name ns t"
  by (induction ns arbitrary: t) (auto intro: order_trans top_of_name_ge)

lemma fold_top_ge:
  "n \<in> set ns \<Longrightarrow> GENERATION n = Some (g, False) \<Longrightarrow> g \<le> fold top_of_name ns t"
  by (induction ns arbitrary: t) (auto intro: order_trans [OF top_of_name_ge(2) fold_top_start])

lemma fold_top_attained:
  "fold top_of_name ns t = t \<or> (\<exists>n \<in> set ns. GENERATION n = Some (fold top_of_name ns t, False))"
proof (induction ns arbitrary: t)
  case (Cons n ns)
  have "top_of_name n t = t \<or> GENERATION n = Some (top_of_name n t, False)"
    by (auto simp: top_of_name_def max_def split: option.splits bool.splits)
  with Cons [of "top_of_name n t"] show ?case by auto
qed simp

lemma top_gen_ge: "has_gen d g \<Longrightarrow> g \<le> top_gen d"
  unfolding jm_has_iff topGeneration_def
  using fold_top_ge GENERATION_generationPath by blast

lemma lock_names_generation:
  assumes "lock_names d" "n \<in> set (jm_keys d)" "GENERATION n = Some (g, False)"
  shows "n = generationPath g"
  using assms unfolding lock_names_def lock_name_def
  by (metis GENERATION_generationPath GENERATION_releasedName option.inject prod.inject)

lemma top_gen_attained: "lock_names d \<Longrightarrow> top_gen d \<noteq> 0 \<Longrightarrow> has_gen d (top_gen d)"
  using fold_top_attained [of "jm_keys d" 0] lock_names_generation [of d]
  unfolding topGeneration_def jm_has_iff by (metis (no_types))

text \<open>The top is determined by which generations exist.\<close>

lemma top_gen_eqI:
  assumes "lock_names d" "\<And>g. has_gen d g \<Longrightarrow> g \<le> t" "t \<noteq> 0 \<Longrightarrow> has_gen d t"
  shows "top_gen d = t"
  using assms top_gen_attained [of d] top_gen_ge [of d t] by (metis le_zero_eq order_antisym)

lemma top_gen_max: "lock_names d \<Longrightarrow> top_gen d < g \<Longrightarrow> \<not> has_gen d g"
  using top_gen_ge [of d g] by linarith

subsection \<open>What the calls do to it\<close>

lemma lock_names_set: "lock_names (jm_set n f d) \<longleftrightarrow> lock_names d \<and> lock_name n"
  unfolding lock_names_def jm_keys_set by auto

lemma lock_names_delete: "lock_names d \<Longrightarrow> lock_names (jm_delete n d)"
  unfolding lock_names_def jm_keys_delete by auto

text \<open>Two directories with the same names, up to the content of the files.\<close>

definition same_names :: "lock_dir \<Rightarrow> lock_dir \<Rightarrow> bool" where
  "same_names d d' \<longleftrightarrow> jm_keys d' = jm_keys d"

lemma same_names_set: "jm_has d n \<Longrightarrow> same_names d (jm_set n f d)"
  by (simp add: same_names_def jm_has_iff jm_keys_set)

lemma same_names_refl [simp]: "same_names d d"
  by (simp add: same_names_def)

lemma same_namesD:
  "same_names d d' \<Longrightarrow> top_gen d' = top_gen d"
  "same_names d d' \<Longrightarrow> jm_has d' n = jm_has d n"
  "same_names d d' \<Longrightarrow> lock_names d' = lock_names d"
  by (simp_all add: same_names_def jm_has_iff lock_names_def)

lemma same_names_stamp: "same_names (lw_dir w) (lw_dir (write_stamp n i p ms w))"
  by (auto simp: write_stamp_def same_names_set jm_has_def split: option.splits)

lemma same_names_touch: "same_names d (touch_file n t d)"
  by (auto simp: touch_file_def same_names_set jm_has_def split: option.splits)

lemma same_names_beat: "same_names (lw_dir w) (lw_dir (heartbeat_tick f g w))"
  by (simp add: heartbeat_tick_def same_names_touch split: option.split)

lemma create_file_dir [simp]:
  "jm_has (lw_dir (create_file n w)) m \<longleftrightarrow> m = n \<or> jm_has (lw_dir w) m"
  by (simp add: create_file_def jm_has_set)

lemma lock_names_create [simp]:
  "lock_names (lw_dir (create_file (generationPath g) w)) = lock_names (lw_dir w)"
  by (auto simp: create_file_def lock_names_set)

lemma top_gen_create:
  assumes "lock_names (lw_dir w)"
  shows "top_gen (lw_dir (create_file (generationPath g) w)) = max g (top_gen (lw_dir w))"
proof (rule top_gen_eqI)
  fix h assume "has_gen (lw_dir (create_file (generationPath g) w)) h"
  then show "h \<le> max g (top_gen (lw_dir w))"
    using top_gen_ge [of "lw_dir w" h] by (auto simp: le_max_iff_disj)
qed (use assms top_gen_attained [of "lw_dir w"] in \<open>auto simp: max_def\<close>)

lemma release_has:
  "jm_has (lw_dir (releaseGeneration f g w)) n \<longleftrightarrow> (f = None \<and> n = releasedName g) \<or> jm_has (lw_dir w) n"
proof (cases f)
  case None
  show ?thesis
  proof (cases "jm_get (lw_dir w) (releasedName g)")
    case None
    with \<open>f = None\<close> show ?thesis by (simp add: releaseGeneration_def write_empty_def)
  next
    case (Some a)
    with \<open>f = None\<close> show ?thesis
      by (simp add: releaseGeneration_def write_empty_def jm_has_set)
  qed
qed (simp add: releaseGeneration_def)

lemma lock_names_release: "lock_names (lw_dir (releaseGeneration f g w)) = lock_names (lw_dir w)"
  by (auto simp: releaseGeneration_def write_empty_def create_file_def lock_names_set split: option.splits)

lemma top_gen_release:
  "lock_names (lw_dir w) \<Longrightarrow> top_gen (lw_dir (releaseGeneration f g w)) = top_gen (lw_dir w)"
  using top_gen_ge [of "lw_dir w"] top_gen_attained [of "lw_dir w"]
  by (intro top_gen_eqI) (auto simp: release_has lock_names_release)

lemma remove_one_has:
  "jm_has (remove_one f g n d) m \<Longrightarrow> jm_has d m"
  "jm_has d m \<Longrightarrow> \<not> removable g m \<Longrightarrow> jm_has (remove_one f g n d) m"
  by (auto simp: remove_one_def jm_has_delete split: if_splits option.splits)

lemma removable_simps [simp]:
  "removable g (generationPath h) \<longleftrightarrow> h + 1 < g"
  "removable g (releasedName h) \<longleftrightarrow> h + 1 < g"
  by (simp_all add: removable_def)

lemma lock_names_remove: "lock_names d \<Longrightarrow> lock_names (remove_one f g n d)"
  by (simp add: remove_one_def lock_names_delete split: option.split)

text \<open>Cleanup by a contender at or below the top leaves the top where it is.\<close>

lemma top_gen_remove:
  "lock_names d \<Longrightarrow> g \<le> top_gen d \<Longrightarrow> top_gen (remove_one f g n d) = top_gen d"
  by (rule top_gen_eqI)
     (auto intro: lock_names_remove top_gen_ge dest: remove_one_has(1)
       intro!: remove_one_has(2) top_gen_attained)

section \<open>Who stands where\<close>

text \<open>The generation a contender created and has not given up; with the lock, or on its way in.\<close>

fun claim :: "lock_pc \<Rightarrow> nat option" where
  "claim (Opened g _ _ _) = Some g"
| "claim (Stamped g _) = Some g"
| "claim (Sweeping g _ _) = Some g"
| "claim (Holding g _) = Some g"
| "claim (Leaving g) = Some g"
| "claim _ = None"

text \<open>The same without a contender that has given up and only has its marker left to write.\<close>

fun inside :: "lock_pc \<Rightarrow> nat option" where
  "inside (Leaving g) = None"
| "inside pc = claim pc"

text \<open>Past the second listing.\<close>

fun entered :: "lock_pc \<Rightarrow> nat option" where
  "entered (Sweeping g _ _) = Some g"
| "entered (Holding g _) = Some g"
| "entered _ = None"

lemma entered_inside: "entered pc = Some g \<Longrightarrow> inside pc = Some g"
  by (cases pc) auto

lemma inside_claim: "inside pc = Some g \<Longrightarrow> claim pc = Some g"
  by (cases pc) auto

definition pc_of :: "lock_sys \<Rightarrow> nat \<Rightarrow> lock_pc" where
  "pc_of s c = (case jm_get (ls_conts s) c of None \<Rightarrow> Outside | Some k \<Rightarrow> ct_pc k)"

definition pid_of :: "lock_sys \<Rightarrow> nat \<Rightarrow> nat" where
  "pid_of s c = (case jm_get (ls_conts s) c of None \<Rightarrow> 0 | Some k \<Rightarrow> ct_pid k)"

section \<open>The invariant of every run\<close>

text \<open>What a contender that has not created its generation yet knows of the directory.\<close>

fun view_ok :: "lock_dir \<Rightarrow> lock_pc \<Rightarrow> bool" where
  "view_ok d (Listed v free) \<longleftrightarrow> v \<le> top_gen d \<and> (free \<longrightarrow> v < top_gen d \<or> v = 0 \<or> marked d v)"
| "view_ok d (Reading v) \<longleftrightarrow> v \<le> top_gen d"
| "view_ok d (Probing v _) \<longleftrightarrow> v \<le> top_gen d"
| "view_ok d (Creating g _) \<longleftrightarrow> 1 \<le> g \<and> g \<le> top_gen d + 1"
| "view_ok d _ \<longleftrightarrow> True"

text \<open>
  The markers and the claims are at or below the top; a marked top has no claim; the top is
  claimed once at most, and no generation is entered twice.
\<close>

definition lock_safe :: "lock_dir \<Rightarrow> (nat \<Rightarrow> lock_pc) \<Rightarrow> bool" where
  "lock_safe d pcs \<longleftrightarrow>
     lock_names d \<and>
     (\<forall>g. marked d g \<longrightarrow> g \<le> top_gen d) \<and>
     (\<forall>c g. claim (pcs c) = Some g \<longrightarrow> 1 \<le> g \<and> g \<le> top_gen d) \<and>
     (\<forall>c. marked d (top_gen d) \<longrightarrow> claim (pcs c) \<noteq> Some (top_gen d)) \<and>
     (\<forall>c c'. claim (pcs c) = Some (top_gen d) \<longrightarrow> claim (pcs c') = Some (top_gen d) \<longrightarrow> c = c') \<and>
     (\<forall>c c' g. entered (pcs c) = Some g \<longrightarrow> entered (pcs c') = Some g \<longrightarrow> c = c') \<and>
     (\<forall>c. view_ok d (pcs c))"

lemma lock_safeD:
  assumes "lock_safe d pcs"
  shows "lock_names d"
    and "marked d g \<Longrightarrow> g \<le> top_gen d"
    and "claim (pcs c) = Some g \<Longrightarrow> 1 \<le> g \<and> g \<le> top_gen d"
    and "marked d (top_gen d) \<Longrightarrow> claim (pcs c) \<noteq> Some (top_gen d)"
    and "claim (pcs c) = Some (top_gen d) \<Longrightarrow> claim (pcs c') = Some (top_gen d) \<Longrightarrow> c = c'"
    and "entered (pcs c) = Some g \<Longrightarrow> entered (pcs c') = Some g \<Longrightarrow> c = c'"
    and "view_ok d (pcs c)"
  using assms unfolding lock_safe_def by blast+

lemma lock_safeI:
  assumes "lock_names d"
    and "\<And>g. marked d g \<Longrightarrow> g \<le> top_gen d"
    and "\<And>c g. claim (pcs c) = Some g \<Longrightarrow> 1 \<le> g \<and> g \<le> top_gen d"
    and "\<And>c. marked d (top_gen d) \<Longrightarrow> claim (pcs c) \<noteq> Some (top_gen d)"
    and "\<And>c c'. claim (pcs c) = Some (top_gen d) \<Longrightarrow> claim (pcs c') = Some (top_gen d) \<Longrightarrow> c = c'"
    and "\<And>c c' g. entered (pcs c) = Some g \<Longrightarrow> entered (pcs c') = Some g \<Longrightarrow> c = c'"
    and "\<And>c. view_ok d (pcs c)"
  shows "lock_safe d pcs"
  using assms unfolding lock_safe_def by blast

lemma lock_safe_start: "lock_safe [] (\<lambda>_. Outside)"
  by (simp add: lock_safe_def lock_names_def jm_has_def)

text \<open>A step that only moves one contender, to a place with no new claim.\<close>

lemma lock_safe_move:
  assumes "lock_safe d pcs"
    and "claim pc = None \<or> claim pc = claim (pcs c)"
    and "entered pc = None \<or> entered pc = entered (pcs c) \<or> claim (pcs c) = Some (top_gen d)"
    and "view_ok d pc"
  shows "lock_safe d (pcs(c := pc))"
proof -
  have e: "entered pc = Some g \<Longrightarrow> claim pc = Some g" for g
    using entered_inside inside_claim by blast
  have "c = c'" if "entered pc = Some g" "entered (pcs c') = Some g" for c' g
  proof (rule disjE [OF assms(3)])
    assume "entered pc = entered (pcs c) \<or> claim (pcs c) = Some (top_gen d)"
    then show ?thesis
    proof
      assume "claim (pcs c) = Some (top_gen d)"
      moreover from that e assms(2) have "claim (pcs c) = Some g" by force
      moreover from that have "claim (pcs c') = Some g" using entered_inside inside_claim by blast
      ultimately show ?thesis using lock_safeD(5) [OF assms(1)] by simp
    qed (use that lock_safeD(6) [OF assms(1)] in metis)
  qed (use that in simp)
  with assms show ?thesis
    unfolding lock_safe_def fun_upd_apply by (smt (verit) option.distinct(1))
qed

lemma lock_safe_move_free:
  "lock_safe d pcs \<Longrightarrow> claim pc = None \<Longrightarrow> view_ok d pc \<Longrightarrow> lock_safe d (pcs(c := pc))"
  by (rule lock_safe_move) (cases pc; simp)+

text \<open>A step that only changes the content of files.\<close>

lemma view_ok_same: "same_names d d' \<Longrightarrow> view_ok d' pc = view_ok d pc"
  by (cases pc) (simp_all add: same_namesD)

lemma lock_safe_same: "same_names d d' \<Longrightarrow> lock_safe d' pcs = lock_safe d pcs"
  unfolding lock_safe_def by (simp add: same_namesD view_ok_same)

text \<open>The exclusive create: of the next generation, or of one that cleanup removed.\<close>

lemma view_ok_create:
  "lock_names (lw_dir w) \<Longrightarrow> view_ok (lw_dir w) pc \<Longrightarrow>
     view_ok (lw_dir (create_file (generationPath g) w)) pc"
  by (cases pc) (auto simp: top_gen_create)

lemma create_below_top:
  assumes "lock_safe (lw_dir w) pcs" "pcs c = Creating g took" "\<not> has_gen (lw_dir w) g"
  shows "g = top_gen (lw_dir w) + 1 \<or> g < top_gen (lw_dir w)"
proof -
  have "g \<noteq> top_gen (lw_dir w)"
    using top_gen_attained [OF lock_safeD(1) [OF assms(1)]] assms lock_safeD(7) [OF assms(1), of c] by auto
  with lock_safeD(7) [OF assms(1), of c] assms(2) show ?thesis by auto
qed

lemma lock_safe_create:
  assumes safe: "lock_safe (lw_dir w) pcs" and pc: "pcs c = Creating g took"
    and absent: "\<not> has_gen (lw_dir w) g"
  shows "lock_safe (lw_dir (create_file (generationPath g) w)) (pcs(c := Opened g took i ms))"
proof -
  let ?t = "top_gen (lw_dir w)" and ?d = "lw_dir (create_file (generationPath g) w)"
  have names: "lock_names (lw_dir w)" by (rule lock_safeD(1) [OF safe])
  have below: "claim (pcs c') = Some h \<Longrightarrow> 1 \<le> h \<and> h \<le> ?t" for c' h
    by (rule lock_safeD(3) [OF safe])
  have view: "view_ok ?d (pcs c')" for c'
    by (rule view_ok_create [OF names lock_safeD(7) [OF safe]])
  have g1: "1 \<le> g" using lock_safeD(7) [OF safe, of c] pc by simp
  have d: "lock_names ?d" "marked ?d h \<longleftrightarrow> marked (lw_dir w) h" for h
    using names by simp_all
  have ent: "entered (pcs c') = Some h \<Longrightarrow> entered (pcs c'') = Some h \<Longrightarrow> c' = c''" for c' c'' h
    by (rule lock_safeD(6) [OF safe])
  consider (new) "g = ?t + 1" | (old) "g < ?t" using create_below_top [OF safe pc absent] by blast
  then show ?thesis
  proof cases
    case new
    then have t: "top_gen ?d = g" using names by (simp add: top_gen_create)
    have "h \<le> g" if "marked (lw_dir w) h" for h using lock_safeD(2) [OF safe that] new by simp
    moreover have "claim (pcs c') \<noteq> Some g" for c' using below [of c' g] new by auto
    moreover have "\<not> marked (lw_dir w) g" using lock_safeD(2) [OF safe, of g] new by auto
    ultimately show ?thesis
      using d view ent g1 below new unfolding lock_safe_def t by (auto intro: le_SucI)
  next
    case old
    then have t: "top_gen ?d = ?t" using names by (simp add: top_gen_create)
    have "claim (pcs c') = Some ?t \<Longrightarrow> claim (pcs c'') = Some ?t \<Longrightarrow> c' = c''" for c' c''
      by (rule lock_safeD(5) [OF safe])
    moreover have "marked (lw_dir w) h \<Longrightarrow> h \<le> ?t" for h by (rule lock_safeD(2) [OF safe])
    moreover have "marked (lw_dir w) ?t \<Longrightarrow> claim (pcs c') \<noteq> Some ?t" for c'
      by (rule lock_safeD(4) [OF safe])
    ultimately show ?thesis
      using d view ent g1 below old unfolding lock_safe_def t by auto
  qed
qed

text \<open>Cleanup by a contender at or below the top.\<close>

lemma view_ok_remove:
  assumes "lock_names d" "g \<le> top_gen d" "view_ok d pc"
  shows "view_ok (remove_one f g n d) pc"
proof -
  have "marked d v \<Longrightarrow> \<not> v < top_gen d \<Longrightarrow> marked (remove_one f g n d) v" for v
    using assms(2) by (intro remove_one_has(2)) auto
  with assms show ?thesis by (cases pc) (auto simp: top_gen_remove)
qed

lemma lock_safe_remove:
  assumes "lock_safe d pcs" "g \<le> top_gen d"
  shows "lock_safe (remove_one f g n d) pcs"
proof -
  have "view_ok (remove_one f g n d) (pcs c)" for c
    by (rule view_ok_remove [OF lock_safeD(1) [OF assms(1)] assms(2) lock_safeD(7) [OF assms(1)]])
  moreover have "marked (remove_one f g n d) h \<Longrightarrow> marked d h" for h
    by (rule remove_one_has(1))
  ultimately show ?thesis
    using assms unfolding lock_safe_def
    by (simp add: top_gen_remove lock_names_remove)
qed

text \<open>The marker of a contender that leaves.\<close>

lemma view_ok_release:
  "lock_names (lw_dir w) \<Longrightarrow> view_ok (lw_dir w) pc \<Longrightarrow> view_ok (lw_dir (releaseGeneration f g w)) pc"
  by (cases pc) (auto simp: top_gen_release release_has)

lemma lock_safe_release:
  assumes safe: "lock_safe (lw_dir w) pcs" and pc: "pcs c = Leaving g"
  shows "lock_safe (lw_dir (releaseGeneration f g w)) (pcs(c := Outside))"
proof -
  let ?t = "top_gen (lw_dir w)" and ?d = "lw_dir (releaseGeneration f g w)"
  have names: "lock_names (lw_dir w)" by (rule lock_safeD(1) [OF safe])
  have t: "top_gen ?d = ?t" by (rule top_gen_release [OF names])
  have free: "lock_safe (lw_dir w) (pcs(c := Outside))"
    by (rule lock_safe_move_free [OF safe]) simp_all
  have gt: "g \<le> ?t" using lock_safeD(3) [OF safe, of c g] pc by simp
  have none: "claim (pcs c') \<noteq> Some g" if "c' \<noteq> c" "g = ?t" for c'
    using lock_safeD(5) [OF safe, of c c'] that pc by auto
  have view: "view_ok ?d ((pcs(c := Outside)) c')" for c'
    by (rule view_ok_release [OF names lock_safeD(7) [OF free]])
  have mark: "marked ?d h \<longleftrightarrow> f = None \<and> h = g \<or> marked (lw_dir w) h" for h
    by (auto simp: release_has)
  show ?thesis
  proof (rule lock_safeI, unfold t)
    show "lock_names ?d" using names by (simp add: lock_names_release)
    show "marked ?d h \<Longrightarrow> h \<le> ?t" for h using gt lock_safeD(2) [OF safe, of h] mark by auto
    show "marked ?d ?t \<Longrightarrow> claim ((pcs(c := Outside)) c') \<noteq> Some ?t" for c'
      using none [of c'] lock_safeD(4) [OF free, of c'] mark [of ?t] by auto
  qed (rule lock_safeD [OF free] view | assumption)+
qed

section \<open>Every event keeps it\<close>

lemma turn_safe:
  assumes safe: "lock_safe (lw_dir w) pcs" and run: "turn lease p f w (pcs c) = (w', pc')"
  shows "lock_safe (lw_dir w') (pcs(c := pc'))"
proof (cases "pcs c")
  case Outside
  then show ?thesis
    using run safe by (auto simp: Let_def jm_has_iff split: option.splits intro!: lock_safe_move_free)
next
  case (Listed v free)
  then show ?thesis
    using run safe lock_safeD(7) [OF safe, of c]
    by (auto split: option.splits if_splits intro!: lock_safe_move_free)
next
  case (Reading v)
  then show ?thesis
    using run safe lock_safeD(7) [OF safe, of c]
    by (auto split: option.splits if_splits intro!: lock_safe_move_free)
next
  case (Probing v q)
  then show ?thesis
    using run safe lock_safeD(7) [OF safe, of c]
    by (auto split: option.splits if_splits intro!: lock_safe_move_free)
next
  case (Creating g took)
  then show ?thesis
    using run safe by (auto split: if_splits intro!: lock_safe_move_free lock_safe_create)
next
  case (Opened g took i ms)
  then have "lock_safe (lw_dir w) (pcs(c := Stamped g took))" "lock_safe (lw_dir w) (pcs(c := Outside))"
    using safe by (auto intro!: lock_safe_move)
  with Opened run show ?thesis
    by (auto simp: lock_safe_same [OF same_names_stamp] split: option.splits)
next
  case (Stamped g took)
  have "claim (pcs c) = Some (top_gen (lw_dir w))" if "\<not> g < top_gen (lw_dir w)"
    using Stamped that lock_safeD(3) [OF safe, of c g] by simp
  then show ?thesis
    using Stamped run safe by (auto simp: Let_def split: option.splits if_splits intro!: lock_safe_move)
next
  case (Sweeping g took names)
  then have "g \<le> top_gen (lw_dir w)" using lock_safeD(3) [OF safe, of c g] by simp
  with Sweeping run safe show ?thesis
    by (cases names) (auto intro!: lock_safe_move lock_safe_remove simp: top_gen_remove lock_safeD(1))
next
  case (Leaving g)
  with run safe show ?thesis by (auto intro: lock_safe_release)
qed (use run safe in \<open>auto simp: fun_upd_idem\<close>)

lemma lock_safe_kill:
  assumes "lock_safe d pcs" "\<And>c. pcs' c = Dead \<or> pcs' c = pcs c"
  shows "lock_safe d pcs'"
proof (rule lock_safeI)
  have claim: "claim (pcs' c) = Some g \<Longrightarrow> claim (pcs c) = Some g" for c g
    using assms(2) [of c] by auto
  have entered: "entered (pcs' c) = Some g \<Longrightarrow> entered (pcs c) = Some g" for c g
    using assms(2) [of c] by auto
  note safe = lock_safeD [OF assms(1)]
  show "lock_names d" by (rule safe)
  show "marked d g \<Longrightarrow> g \<le> top_gen d" for g by (rule safe)
  show "claim (pcs' c) = Some g \<Longrightarrow> 1 \<le> g \<and> g \<le> top_gen d" for c g
    using claim safe(3) by blast
  show "marked d (top_gen d) \<Longrightarrow> claim (pcs' c) \<noteq> Some (top_gen d)" for c
    using claim safe(4) by blast
  show "claim (pcs' c) = Some (top_gen d) \<Longrightarrow> claim (pcs' c') = Some (top_gen d) \<Longrightarrow> c = c'" for c c'
    using claim safe(5) by blast
  show "entered (pcs' c) = Some g \<Longrightarrow> entered (pcs' c') = Some g \<Longrightarrow> c = c'" for c c' g
    using entered safe(6) by blast
  show "view_ok d (pcs' c)" for c using assms(2) [of c] safe(7) [of c] by auto
qed

subsection \<open>Contenders after an event\<close>

lemma pc_of_set [simp]:
  "pc_of (s\<lparr>ls_conts := jm_set c k m\<rparr>) = (pc_of (s\<lparr>ls_conts := m\<rparr>))(c := ct_pc k)"
  by (rule ext) (simp add: pc_of_def update_conv)

lemma pid_of_set [simp]:
  "pid_of (s\<lparr>ls_conts := jm_set c k m\<rparr>) = (pid_of (s\<lparr>ls_conts := m\<rparr>))(c := ct_pid k)"
  by (rule ext) (simp add: pid_of_def update_conv)

lemma pc_of_world [simp]: "pc_of (s\<lparr>ls_world := w\<rparr>) = pc_of s" "pid_of (s\<lparr>ls_world := w\<rparr>) = pid_of s"
  by (rule ext, simp add: pc_of_def pid_of_def)+

lemma conts_idem [simp]: "s\<lparr>ls_conts := ls_conts s\<rparr> = s" "s\<lparr>ls_world := w, ls_conts := ls_conts s\<rparr> = s\<lparr>ls_world := w\<rparr>"
  by simp_all

lemma map_of_map_prod: "map_of (map (map_prod id f) xs) k = map_option f (map_of xs k)"
  by (induction xs) auto

lemma pc_of_kill:
  "pc_of (s\<lparr>ls_world := w, ls_conts := map (map_prod id (die p)) (ls_conts s)\<rparr>) c =
     (if jm_has (ls_conts s) c \<and> pid_of s c = p then Dead else pc_of s c)"
  "pid_of (s\<lparr>ls_world := w, ls_conts := map (map_prod id (die p)) (ls_conts s)\<rparr>) c = pid_of s c"
  by (auto simp: pc_of_def pid_of_def map_of_map_prod die_def jm_has_def split: option.splits)

definition sys_safe :: "lock_sys \<Rightarrow> bool" where
  "sys_safe s \<longleftrightarrow> lock_safe (lw_dir (ls_world s)) (pc_of s)"

lemma pc_of_get: "jm_get (ls_conts s) c = Some k \<Longrightarrow> pc_of s c = ct_pc k \<and> pid_of s c = ct_pid k"
  by (simp add: pc_of_def pid_of_def)

lemma step_safe:
  assumes "sys_safe s"
  shows "sys_safe (lock_step lease e s)"
proof (cases e)
  case (Turn c f)
  show ?thesis
  proof (cases "jm_get (ls_conts s) c")
    case (Some k)
    obtain w pc where t: "turn lease (ct_pid k) f (ls_world s) (pc_of s c) = (w, pc)" by fastforce
    with Some Turn turn_safe [OF assms [unfolded sys_safe_def] t] pc_of_get [OF Some] show ?thesis
      by (simp add: sys_safe_def)
  qed (use Turn assms in simp)
next
  case (Arrive c p)
  with assms show ?thesis
    by (auto simp: sys_safe_def intro!: lock_safe_move_free)
next
  case (Done c)
  with assms show ?thesis
    by (auto simp: sys_safe_def pc_of_get split: option.splits lock_pc.splits intro!: lock_safe_move)
next
  case (Beat c f)
  with assms show ?thesis
    by (auto simp: sys_safe_def lock_safe_same [OF same_names_beat] split: option.splits lock_pc.splits)
next
  case (Kill p)
  with assms show ?thesis
    unfolding sys_safe_def by (auto simp: pc_of_kill elim!: lock_safe_kill)
qed (use assms in \<open>simp add: sys_safe_def\<close>)

interpretation lock: event_machine "lock_step lease" sys_safe for lease
  by unfold_locales (rule step_safe)

lemma pc_of_start [simp]: "pc_of lock_start = (\<lambda>_. Outside)" "pid_of lock_start = (\<lambda>_. 0)"
  by (rule ext, simp add: pc_of_def pid_of_def lock_start_def)+

lemma sys_safe_start: "sys_safe lock_start"
  using lock_safe_start by (simp add: sys_safe_def) (simp add: lock_start_def)

lemma run_safe: "sys_safe (lock_run lease es lock_start)"
  unfolding lock_run_def by (rule lock.run_inv [OF sys_safe_start])

section \<open>Who owns the top\<close>

text \<open>
  C19: At any point of any run, with any clock: two contenders inside the lock have different
  generations, and \<open>ownsTopGeneration\<close>, the check a holder makes before a write it
  cannot race, answers true for one of them at most.
\<close>

theorem top_generation_has_one_owner:
  assumes "s = lock_run lease es lock_start"
    and "pc_of s c = Holding g took" and "pc_of s c' = Holding g' took'" and "c \<noteq> c'"
  shows "g \<noteq> g' \<and> \<not> (ownsTopGeneration None g (ls_world s) \<and> ownsTopGeneration None g' (ls_world s))"
proof -
  have safe: "lock_safe (lw_dir (ls_world s)) (pc_of s)"
    using run_safe [of lease es] assms(1) by (simp add: sys_safe_def)
  have "g \<noteq> g'"
    using lock_safeD(6) [OF safe, of c g c'] assms by auto
  then show ?thesis by (auto simp: ownsTopGeneration_def Let_def)
qed

section \<open>Mutual exclusion while leases are kept\<close>

abbreviation text_at :: "lock_dir \<Rightarrow> nat \<Rightarrow> lock_text option" where
  "text_at d g \<equiv> map_option lk_text (jm_get d (generationPath g))"

text \<open>
  The stamp of the top names the contender inside it, also once a rival has read it; a rival
  about to create the next generation has seen nobody inside the top; whoever entered is
  at the top.
\<close>

definition lock_exclusive :: "lock_dir \<Rightarrow> (nat \<Rightarrow> lock_pc) \<Rightarrow> (nat \<Rightarrow> nat) \<Rightarrow> bool" where
  "lock_exclusive d pcs pids \<longleftrightarrow>
     (\<forall>c p ms. inside (pcs c) = Some (top_gen d) \<longrightarrow> text_at d (top_gen d) = Some (Stamp p ms) \<longrightarrow> p = pids c) \<and>
     (\<forall>c c' p. inside (pcs c) = Some (top_gen d) \<longrightarrow> pcs c' = Probing (top_gen d) p \<longrightarrow> p = pids c) \<and>
     (\<forall>c c' took. inside (pcs c) = Some (top_gen d) \<longrightarrow> pcs c' \<noteq> Creating (top_gen d + 1) took) \<and>
     (\<forall>c g. entered (pcs c) = Some g \<longrightarrow> g = top_gen d)"

lemma lock_exclusiveD:
  assumes "lock_exclusive d pcs pids"
  shows "inside (pcs c) = Some (top_gen d) \<Longrightarrow> text_at d (top_gen d) = Some (Stamp p ms) \<Longrightarrow> p = pids c"
    and "inside (pcs c) = Some (top_gen d) \<Longrightarrow> pcs c' = Probing (top_gen d) p \<Longrightarrow> p = pids c"
    and "inside (pcs c) = Some (top_gen d) \<Longrightarrow> pcs c' \<noteq> Creating (top_gen d + 1) took"
    and "entered (pcs c) = Some g \<Longrightarrow> g = top_gen d"
  using assms unfolding lock_exclusive_def by blast+

lemma lock_exclusiveI:
  assumes "\<And>c p ms. inside (pcs c) = Some (top_gen d) \<Longrightarrow> text_at d (top_gen d) = Some (Stamp p ms) \<Longrightarrow> p = pids c"
    and "\<And>c c' p. inside (pcs c) = Some (top_gen d) \<Longrightarrow> pcs c' = Probing (top_gen d) p \<Longrightarrow> p = pids c"
    and "\<And>c c' took. inside (pcs c) = Some (top_gen d) \<Longrightarrow> pcs c' \<noteq> Creating (top_gen d + 1) took"
    and "\<And>c g. entered (pcs c) = Some g \<Longrightarrow> g = top_gen d"
  shows "lock_exclusive d pcs pids"
  using assms unfolding lock_exclusive_def by blast

text \<open>A step that moves one contender and leaves the top and its content alone.\<close>

lemma lock_exclusive_move:
  assumes "lock_exclusive d pcs pids"
    and "top_gen d' = top_gen d" and "text_at d' (top_gen d) = text_at d (top_gen d)"
    and "inside pc = None \<or> inside pc = inside (pcs c) \<or> inside pc \<noteq> Some (top_gen d)"
    and "\<And>a p. inside ((pcs(c := pc)) a) = Some (top_gen d) \<Longrightarrow> pc = Probing (top_gen d) p \<Longrightarrow> p = pids a"
    and "\<And>a took. inside ((pcs(c := pc)) a) = Some (top_gen d) \<Longrightarrow> pc \<noteq> Creating (top_gen d + 1) took"
    and "\<And>g. entered pc = Some g \<Longrightarrow> g = top_gen d"
  shows "lock_exclusive d' (pcs(c := pc)) pids"
proof -
  have ins: "inside ((pcs(c := pc)) a) = Some (top_gen d) \<Longrightarrow> inside (pcs a) = Some (top_gen d)" for a
    using assms(4) by (auto split: if_splits)
  show ?thesis
  proof (rule lock_exclusiveI, unfold assms(2,3))
    fix a p ms assume "inside ((pcs(c := pc)) a) = Some (top_gen d)" "text_at d (top_gen d) = Some (Stamp p ms)"
    then show "p = pids a" using lock_exclusiveD(1) [OF assms(1)] ins by blast
  next
    fix a b p assume "inside ((pcs(c := pc)) a) = Some (top_gen d)" "(pcs(c := pc)) b = Probing (top_gen d) p"
    then show "p = pids a"
      using assms(5) [of a p] lock_exclusiveD(2) [OF assms(1) ins, of a b p] by (auto split: if_splits)
  next
    fix a b took assume "inside ((pcs(c := pc)) a) = Some (top_gen d)"
    then show "(pcs(c := pc)) b \<noteq> Creating (top_gen d + 1) took"
      using assms(6) [of a took] lock_exclusiveD(3) [OF assms(1) ins, of a b took] by auto
  next
    fix a g assume "entered ((pcs(c := pc)) a) = Some g"
    then show "g = top_gen d"
      using assms(7) [of g] lock_exclusiveD(4) [OF assms(1), of a g] by (auto split: if_splits)
  qed
qed

lemma lock_exclusive_create:
  assumes safe: "lock_safe (lw_dir w) pcs" and excl: "lock_exclusive (lw_dir w) pcs pids"
    and pc: "pcs c = Creating g took" and absent: "\<not> has_gen (lw_dir w) g"
  shows "lock_exclusive (lw_dir (create_file (generationPath g) w)) (pcs(c := Opened g took i ms)) pids"
proof -
  let ?t = "top_gen (lw_dir w)" and ?d = "lw_dir (create_file (generationPath g) w)"
  have names: "lock_names (lw_dir w)" by (rule lock_safeD(1) [OF safe])
  have content: "text_at ?d h = (if h = g then Some Blank else text_at (lw_dir w) h)" for h
    by (simp add: create_file_def update_conv)
  consider (new) "g = ?t + 1" | (old) "g < ?t" using create_below_top [OF safe pc absent] by blast
  then show ?thesis
  proof cases
    case new
    then have t: "top_gen ?d = g" using names by (simp add: top_gen_create)
    have out: "inside (pcs a) \<noteq> Some ?t" for a
      using lock_exclusiveD(3) [OF excl, of a c took] pc new by auto
    have "entered (pcs a) = None" for a
    proof (cases "entered (pcs a)")
      case (Some h)
      with out [of a] lock_exclusiveD(4) [OF excl Some] entered_inside show ?thesis by blast
    qed simp
    moreover have "pcs b \<noteq> Probing g p" "pcs b \<noteq> Creating (g + 1) tk" for b p tk
      using lock_safeD(7) [OF safe, of b] new by auto
    ultimately show ?thesis
      by (intro lock_exclusiveI) (auto simp: t content split: if_splits)
  next
    case old
    then have "top_gen ?d = ?t" using names by (simp add: top_gen_create)
    then show ?thesis
      using old by (intro lock_exclusive_move [OF excl]) (auto simp: content)
  qed
qed

lemma lock_exclusive_stamp:
  assumes safe: "lock_safe (lw_dir w) pcs" and excl: "lock_exclusive (lw_dir w) pcs pids"
    and pc: "pcs c = Opened g took i ms"
  shows "lock_exclusive (lw_dir (write_stamp (generationPath g) i (pids c) ms w)) (pcs(c := Stamped g took)) pids"
proof -
  let ?t = "top_gen (lw_dir w)" and ?d = "lw_dir (write_stamp (generationPath g) i (pids c) ms w)"
  have t: "top_gen ?d = ?t" by (rule same_namesD(1) [OF same_names_stamp])
  have content: "text_at ?d h = text_at (lw_dir w) h" if "h \<noteq> g" for h
    using that by (simp add: write_stamp_def update_conv split: option.split)
  have moved: "lock_exclusive (lw_dir w) (pcs(c := Stamped g took)) pids"
    using pc by (intro lock_exclusive_move [OF excl]) auto
  show ?thesis
  proof (cases "g = ?t")
    case True
    have me: "a = c" if "inside ((pcs(c := Stamped g took)) a) = Some ?t" for a
      using that lock_safeD(5) [OF safe, of a c] pc True by (auto dest: inside_claim split: if_splits)
    have stamp: "p = pids c" if "text_at ?d ?t = Some (Stamp p m)" for p m
      using that lock_exclusiveD(1) [OF excl, of c p m] pc True
      by (auto simp: write_stamp_def update_conv split: option.splits if_splits)
    show ?thesis
    proof (rule lock_exclusiveI, unfold t)
      fix a p m
      assume "inside ((pcs(c := Stamped g took)) a) = Some ?t" "text_at ?d ?t = Some (Stamp p m)"
      then show "p = pids a" using me stamp by blast
    qed (use lock_exclusiveD(2-4) [OF moved] in blast)+
  next
    case False
    with pc t content show ?thesis by (intro lock_exclusive_move [OF excl]) auto
  qed
qed

lemma text_at_remove: "g \<le> top_gen d \<Longrightarrow> text_at (remove_one f g n d) (top_gen d) = text_at d (top_gen d)"
  by (cases "n = generationPath (top_gen d)")
     (auto simp: remove_one_def delete_conv split: option.split)

lemma text_at_release: "text_at (lw_dir (releaseGeneration f g w)) h = text_at (lw_dir w) h"
  by (simp add: releaseGeneration_def write_empty_def create_file_def update_conv split: option.split)

text \<open>Every call of a contender, under the lease.\<close>

lemma turn_exclusive:
  assumes safe: "lock_safe (lw_dir w) pcs" and excl: "lock_exclusive (lw_dir w) pcs pids"
    and live: "\<And>a g. inside (pcs a) = Some g \<Longrightarrow> realIsPidAlive w (pids a)"
    and kept: "\<And>a f. inside (pcs a) = Some (top_gen (lw_dir w)) \<Longrightarrow>
        jm_get (lw_dir w) (generationPath (top_gen (lw_dir w))) = Some f \<Longrightarrow> lw_now w - lk_mtime f \<le> lease"
    and run: "turn lease (pids c) f w (pcs c) = (w', pc')"
  shows "lock_exclusive (lw_dir w') (pcs(c := pc')) pids"
proof (cases "pcs c")
  case Outside
  then show ?thesis
    using run excl by (auto simp: Let_def split: option.splits intro!: lock_exclusive_move)
next
  case (Listed v free)
  let ?t = "top_gen (lw_dir w)"
  have none: "inside (pcs a) \<noteq> Some ?t" if "free" "v = ?t" for a
    using lock_safeD(7) [OF safe, of c] lock_safeD(4) [OF safe, of a] lock_safeD(3) [OF safe, of a ?t]
      Listed that by (auto dest: inside_claim)
  have "w' = w" using run Listed by (auto split: if_splits option.splits)
  moreover have "lock_exclusive (lw_dir w) (pcs(c := pc')) pids"
  proof (rule lock_exclusive_move [OF excl])
    fix a took assume a: "inside ((pcs(c := pc')) a) = Some ?t"
    show "pc' \<noteq> Creating (?t + 1) took"
    proof
      assume pc': "pc' = Creating (?t + 1) took"
      with a have a': "inside (pcs a) = Some ?t" by (auto split: if_splits)
      with run Listed pc' none kept [OF a'] show False
        by (fastforce split: if_splits option.splits)
    qed
  qed (use run Listed in \<open>auto split: if_splits option.splits\<close>)
  ultimately show ?thesis by simp
next
  case (Reading v)
  have "lock_exclusive (lw_dir w) (pcs(c := pc')) pids"
  proof (rule lock_exclusive_move [OF excl])
    fix a p assume a: "inside ((pcs(c := pc')) a) = Some (top_gen (lw_dir w))"
      and p: "pc' = Probing (top_gen (lw_dir w)) p"
    from a p have "inside (pcs a) = Some (top_gen (lw_dir w))" by (auto split: if_splits)
    moreover obtain ms where "text_at (lw_dir w) (top_gen (lw_dir w)) = Some (Stamp p ms)"
      using run Reading p by (auto simp: pidFileOwner_def split: option.splits lock_text.splits if_splits)
    ultimately show "p = pids a" by (rule lock_exclusiveD(1) [OF excl])
  qed (use run Reading in \<open>auto split: option.splits\<close>)
  moreover have "w' = w" using run Reading by (auto split: option.splits)
  ultimately show ?thesis by simp
next
  case (Probing v p)
  have "lock_exclusive (lw_dir w) (pcs(c := pc')) pids"
  proof (rule lock_exclusive_move [OF excl])
    fix a took assume a: "inside ((pcs(c := pc')) a) = Some (top_gen (lw_dir w))"
    show "pc' \<noteq> Creating (top_gen (lw_dir w) + 1) took"
    proof
      assume pc': "pc' = Creating (top_gen (lw_dir w) + 1) took"
      with a have a': "inside (pcs a) = Some (top_gen (lw_dir w))" by (auto split: if_splits)
      from pc' run Probing have "v = top_gen (lw_dir w)" "\<not> realIsPidAlive w p"
        by (auto split: if_splits)
      with lock_exclusiveD(2) [OF excl a', of c p] live [OF a'] Probing show False by simp
    qed
  qed (use run Probing in \<open>auto split: if_splits\<close>)
  moreover have "w' = w" using run Probing by (auto split: if_splits)
  ultimately show ?thesis by simp
next
  case (Creating g took)
  then show ?thesis
    using run safe excl
    by (auto split: if_splits intro!: lock_exclusive_create lock_exclusive_move [OF excl])
next
  case (Opened g took i ms)
  then show ?thesis
    using run safe excl
    by (auto split: option.splits intro!: lock_exclusive_stamp lock_exclusive_move [OF excl])
next
  case (Stamped g took)
  have "g \<le> top_gen (lw_dir w)" using Stamped lock_safeD(3) [OF safe, of c g] by simp
  then show ?thesis
    using Stamped run by (auto simp: Let_def split: option.splits if_splits intro!: lock_exclusive_move [OF excl])
next
  case (Sweeping g took ns)
  then have "g = top_gen (lw_dir w)" using lock_exclusiveD(4) [OF excl, of c g] by simp
  with Sweeping run safe show ?thesis
    by (cases ns) (auto intro!: lock_exclusive_move [OF excl] simp: top_gen_remove lock_safeD(1) text_at_remove)
next
  case (Leaving g)
  have "lock_exclusive (lw_dir (releaseGeneration f g w)) (pcs(c := Outside)) pids"
    by (rule lock_exclusive_move [OF excl])
       (simp_all add: top_gen_release [OF lock_safeD(1) [OF safe]] text_at_release)
  with Leaving run show ?thesis by auto
qed (use run excl in \<open>auto simp: fun_upd_idem\<close>)

subsection \<open>The whole system\<close>

text \<open>No contender on its way in or inside lets the file of its generation grow older than the lease.\<close>

definition keeps_lease :: "int \<Rightarrow> lock_world \<Rightarrow> contender \<Rightarrow> bool" where
  "keeps_lease lease w k =
     (case inside (ct_pc k) of
        None \<Rightarrow> True
      | Some g \<Rightarrow> (case jm_get (lw_dir w) (generationPath g) of
          None \<Rightarrow> True
        | Some f \<Rightarrow> lw_now w - lk_mtime f \<le> lease))"

definition lease_kept :: "int \<Rightarrow> lock_sys \<Rightarrow> bool" where
  "lease_kept lease s = list_all (\<lambda>(c, k). keeps_lease lease (ls_world s) k) (ls_conts s)"

lemma inside_get: "inside (pc_of s c) = Some g \<Longrightarrow> \<exists>k. jm_get (ls_conts s) c = Some k \<and> ct_pc k = pc_of s c"
  by (auto simp: pc_of_def split: option.splits)

lemma lease_keptD:
  assumes "lease_kept lease s" "inside (pc_of s c) = Some g"
    "jm_get (lw_dir (ls_world s)) (generationPath g) = Some f"
  shows "lw_now (ls_world s) - lk_mtime f \<le> lease"
proof -
  obtain k where k: "(c, k) \<in> set (ls_conts s)" "ct_pc k = pc_of s c"
    using inside_get [OF assms(2)] jm_get_in by fastforce
  from k(1) have "keeps_lease lease (ls_world s) k"
    using assms(1) unfolding lease_kept_def list_all_iff by blast
  with k(2) assms(2,3) show ?thesis by (simp add: keeps_lease_def)
qed

definition sys_live :: "lock_sys \<Rightarrow> bool" where
  "sys_live s \<longleftrightarrow> (\<forall>c k. jm_get (ls_conts s) c = Some k \<longrightarrow> ct_pc k \<noteq> Dead \<longrightarrow>
     realIsPidAlive (ls_world s) (ct_pid k))"

definition sys_exclusive :: "lock_sys \<Rightarrow> bool" where
  "sys_exclusive s \<longleftrightarrow> sys_safe s \<and> sys_live s \<and> lock_exclusive (lw_dir (ls_world s)) (pc_of s) (pid_of s)"

lemma realIsPidAlive_iff: "realIsPidAlive w p \<longleftrightarrow> p \<noteq> 0 \<and> jm_has (lw_procs w) p"
  by (auto simp: realIsPidAlive_def jm_has_def split: option.split probe.split)

lemma turn_procs: "turn lease p f w pc = (w', pc') \<Longrightarrow> lw_procs w' = lw_procs w \<and> (pc' = Dead \<longleftrightarrow> pc = Dead)"
  by (cases "(lease, p, f, w, pc)" rule: turn.cases)
     (auto simp: Let_def create_file_def write_stamp_def releaseGeneration_def write_empty_def
       split: option.splits if_splits)

lemma heartbeat_procs: "lw_procs (heartbeat_tick f g w) = lw_procs w"
  by (simp add: heartbeat_tick_def split: option.split)

lemma die_alive: "ct_pc (die p k) \<noteq> Dead \<Longrightarrow> die p k = k \<and> ct_pid k \<noteq> p \<and> ct_pc k \<noteq> Dead"
  by (simp add: die_def split: if_splits)

lemma step_live:
  assumes live: "sys_live s"
  shows "sys_live (lock_step lease e s)"
proof (cases e)
  case (Turn c f)
  show ?thesis
  proof (cases "jm_get (ls_conts s) c")
    case (Some k)
    obtain w pc where t: "turn lease (ct_pid k) f (ls_world s) (ct_pc k) = (w, pc)" by fastforce
    from turn_procs [OF t] live Some show ?thesis
      unfolding Turn by (auto simp: t sys_live_def realIsPidAlive_iff update_conv)
  qed (use Turn live in simp)
next
  case (Arrive c p)
  with live show ?thesis
    by (auto simp: sys_live_def realIsPidAlive_iff update_conv jm_has_set)
next
  case (Done c)
  show ?thesis
  proof (cases "jm_get (ls_conts s) c")
    case (Some k)
    with live Done show ?thesis
      by (cases "ct_pc k") (auto simp: sys_live_def realIsPidAlive_iff update_conv)
  qed (use Done live in simp)
next
  case (Beat c f)
  with live show ?thesis
    by (auto simp: sys_live_def realIsPidAlive_iff heartbeat_procs split: option.split lock_pc.split)
next
  case (Kill p)
  with live show ?thesis
    by (auto simp: sys_live_def realIsPidAlive_iff jm_has_delete map_of_map_prod dest!: die_alive)
qed (use live in \<open>simp add: sys_live_def realIsPidAlive_iff\<close>)

lemma live_inside: "sys_live s \<Longrightarrow> inside (pc_of s c) = Some g \<Longrightarrow> realIsPidAlive (ls_world s) (pid_of s c)"
  using inside_get [of s c g] by (force simp: sys_live_def pid_of_def)

lemma lock_exclusive_mono:
  assumes "lock_exclusive d pcs pids"
    and "\<And>c. pcs' c = pcs c \<or> pcs' c = Dead"
    and "\<And>c g. inside (pcs' c) = Some g \<Longrightarrow> pids' c = pids c"
  shows "lock_exclusive d pcs' pids'"
proof -
  have same: "pcs' c = pcs c" if "inside (pcs' c) = Some g \<or> entered (pcs' c) = Some g \<or>
      pcs' c = Probing v p \<or> pcs' c = Creating v took" for c g v p took
    using that assms(2) [of c] by auto
  show ?thesis
    by (rule lock_exclusiveI) (metis assms(3) same lock_exclusiveD [OF assms(1)])+
qed

text \<open>A heartbeat and a write of the same name keep the content of every file.\<close>

lemma text_at_beat: "text_at (lw_dir (heartbeat_tick f g w)) h = text_at (lw_dir w) h"
  by (auto simp: heartbeat_tick_def touch_file_def update_conv split: option.split)

lemma lock_step_exclusive:
  assumes "sys_exclusive s" "lease_kept lease s"
  shows "sys_exclusive (lock_step lease e s)"
proof -
  have safe: "sys_safe s" and live: "sys_live s"
    and excl: "lock_exclusive (lw_dir (ls_world s)) (pc_of s) (pid_of s)"
    using assms(1) by (auto simp: sys_exclusive_def)
  let ?s = "lock_step lease e s"
  have "lock_exclusive (lw_dir (ls_world ?s)) (pc_of ?s) (pid_of ?s)"
  proof (cases e)
    case (Turn c f)
    show ?thesis
    proof (cases "jm_get (ls_conts s) c")
      case (Some k)
      note get = pc_of_get [OF Some]
      obtain w pc where t: "turn lease (pid_of s c) f (ls_world s) (pc_of s c) = (w, pc)" by fastforce
      have "lock_exclusive (lw_dir w) ((pc_of s)(c := pc)) (pid_of s)"
        by (rule turn_exclusive [OF safe [unfolded sys_safe_def] excl live_inside [OF live]
              lease_keptD [OF assms(2)] t])
      moreover have "(pid_of s)(c := ct_pid k) = pid_of s" using get by (simp add: fun_upd_idem)
      ultimately show ?thesis using Turn Some get t by simp
    qed (use Turn excl in simp)
  next
    case (Arrive c p)
    show ?thesis
    proof (cases "p = 0 \<or> jm_has (ls_conts s) c")
      case False
      then have "pc_of s c = Outside" by (simp add: pc_of_def jm_has_def)
      with False Arrive show ?thesis
        by (auto intro!: lock_exclusive_mono [OF excl] split: if_splits)
    qed (use Arrive excl in auto)
  next
    case (Done c)
    then show ?thesis
      using excl by (auto simp: pc_of_get fun_upd_idem split: option.splits lock_pc.splits
          intro!: lock_exclusive_move)
  next
    case (Beat c f)
    have "lock_exclusive (lw_dir (heartbeat_tick f g (ls_world s))) (pc_of s) (pid_of s)" for g
      using lock_exclusive_move [OF excl, of _ "pc_of s 0" 0] excl
      unfolding lock_exclusive_def same_namesD(1) [OF same_names_beat] text_at_beat by blast
    with Beat excl show ?thesis by (auto split: option.splits lock_pc.splits)
  next
    case (Kill p)
    then show ?thesis by (auto simp: pc_of_kill intro!: lock_exclusive_mono [OF excl])
  qed (use excl in simp)
  then show ?thesis
    using step_safe [OF safe] step_live [OF live] by (simp add: sys_exclusive_def)
qed

interpretation lease: guarded_machine "lock_step lease" "lease_kept lease" sys_exclusive for lease
  by unfold_locales (rule lock_step_exclusive)

lemma sys_exclusive_start: "sys_exclusive lock_start"
  using sys_safe_start
  by (simp add: sys_exclusive_def sys_live_def lock_exclusive_def) (simp add: lock_start_def)

text \<open>
  C2: If every contender keeps its lease, two contenders are never past the second listing at
  once, however their calls are interleaved, whichever calls fail and whichever processes
  die; and the one that is holds the top generation.
\<close>

theorem kept_leases_exclude_each_other:
  assumes "along (lease_kept lease) (lock_step lease) es lock_start"
    and "s = lock_run lease es lock_start"
    and "entered (pc_of s c) = Some g" and "entered (pc_of s c') = Some g'"
  shows "c = c' \<and> g = g' \<and> g = topGeneration (jm_keys (lw_dir (ls_world s)))"
proof -
  have inv: "sys_exclusive s"
    unfolding assms(2) lock_run_def by (rule lease.guarded_run_inv [OF sys_exclusive_start assms(1)])
  then have "lock_exclusive (lw_dir (ls_world s)) (pc_of s) (pid_of s)" by (simp add: sys_exclusive_def)
  from lock_exclusiveD(4) [OF this assms(3)] lock_exclusiveD(4) [OF this assms(4)]
  have "g = top_gen (lw_dir (ls_world s))" "g' = top_gen (lw_dir (ls_world s))" .
  moreover from this have "c = c'"
    using inv assms(3,4) lock_safeD(6) unfolding sys_exclusive_def sys_safe_def by metis
  ultimately show ?thesis by simp
qed

section \<open>Runs\<close>

text \<open>The calls of a contender with no rival in between: in, and out again.\<close>

definition goes_in :: "nat \<Rightarrow> lock_event list" where
  "goes_in c = replicate 12 (Turn c None)"

definition goes_out :: "nat \<Rightarrow> lock_event list" where
  "goes_out c = [Done c, Turn c None]"

text \<open>
  Three processes and a lease of 5000 ms. Contender 3 lists generation 1 as released and is
  suspended. The others take generations 2, 3 and 4, and their cleanup removes \<open>lock.2\<close>.
  Contender 3 wakes, creates \<open>lock.2\<close> again, sees the higher generation and leaves.
\<close>

definition stale_listing_run :: "lock_event list" where
  "stale_listing_run =
     [Arrive 1 11, Arrive 2 12, Arrive 3 13] @ goes_in 1 @ goes_out 1 @ [Turn 3 None, Turn 3 None] @
     goes_in 2 @ goes_out 2 @ [Clock 1000] @ goes_in 1 @ goes_out 1 @ goes_in 2 @ [Turn 3 None]"

theorem kept_leases_exclude_each_other_witness:
  "along (lease_kept 5000) (lock_step 5000) stale_listing_run lock_start \<and>
   pc_of (lock_run 5000 stale_listing_run lock_start) 3 = Opened 2 False 7 1000 \<and>
   entered (pc_of (lock_run 5000 stale_listing_run lock_start) 2) = Some 4 \<and>
   4 = topGeneration (jm_keys (lw_dir (ls_world (lock_run 5000 stale_listing_run lock_start))))"
proof (intro conjI)
  show kept: "along (lease_kept 5000) (lock_step 5000) stale_listing_run lock_start"
    by code_simp
  show "pc_of (lock_run 5000 stale_listing_run lock_start) 3 = Opened 2 False 7 1000"
    by code_simp
  show e: "entered (pc_of (lock_run 5000 stale_listing_run lock_start) 2) = Some 4"
    by code_simp
  show "4 = topGeneration (jm_keys (lw_dir (ls_world (lock_run 5000 stale_listing_run lock_start))))"
    using kept_leases_exclude_each_other [OF kept refl e e] by blast
qed

text \<open>The holder outlives its lease: a second contender takes over while the first is inside.\<close>

definition overrun :: "lock_event list" where
  "overrun = [Arrive 1 11] @ goes_in 1 @ [Clock 5001, Arrive 2 12] @ goes_in 2"

theorem top_generation_has_one_owner_witness:
  "pc_of (lock_run 5000 overrun lock_start) 1 = Holding 1 False \<and>
   pc_of (lock_run 5000 overrun lock_start) 2 = Holding 2 True \<and>
   (1::nat) \<noteq> 2 \<and>
   \<not> (ownsTopGeneration None 1 (ls_world (lock_run 5000 overrun lock_start)) \<and>
      ownsTopGeneration None 2 (ls_world (lock_run 5000 overrun lock_start)))"
proof -
  have h: "pc_of (lock_run 5000 overrun lock_start) 1 = Holding 1 False"
    "pc_of (lock_run 5000 overrun lock_start) 2 = Holding 2 True"
    by code_simp+
  show ?thesis
    using h top_generation_has_one_owner [OF refl h] by simp
qed

text \<open>The same run shows what the lease is for: without it, two contenders are inside.\<close>

lemma overrun_breaks_lease:
  "\<not> along (lease_kept 5000) (lock_step 5000) overrun lock_start"
  "ownsTopGeneration None 2 (ls_world (lock_run 5000 overrun lock_start))"
  by code_simp+

end
