(* ===== verification/Bounded_Cache.thy ===== *)
theory Bounded_Cache
  imports Lens_Prelude
begin

text \<open>
  \<open>src/clients/bounded-cache.ts\<close>: the three capped containers every process-lifetime memo of
  the program is built on. \<open>BoundedFifoMap\<close> evicts in insertion order and neither a read nor
  a write of a present key changes that order; \<open>BoundedSet\<close> wraps it; \<open>BoundedLruCache\<close>
  overrides \<open>get\<close> and \<open>set\<close> so that both move the key to the young end.

  The lemmas: the eviction loop stops and drops exactly the oldest overflow; every write
  keeps the capacity bound and reports what it dropped; the LRU cache refines an unbounded
  recency list of which it shows the last \<open>maxEntries\<close> keys.
\<close>

section \<open>BoundedFifoMap\<close>

record ('k, 'v) fifo_map =
  entries :: "('k, 'v) jmap"
  maxEntries :: int

definition new_BoundedFifoMap :: "int \<Rightarrow> ('k, 'v) fifo_map" where
  "new_BoundedFifoMap mx = \<lparr>entries = [], maxEntries = mx\<rparr>"

definition fifo_get :: "('k, 'v) fifo_map \<Rightarrow> 'k \<Rightarrow> 'v option" where
  "fifo_get m k = jm_get (entries m) k"

definition fifo_has :: "('k, 'v) fifo_map \<Rightarrow> 'k \<Rightarrow> bool" where
  "fifo_has m k = jm_has (entries m) k"

definition fifo_size :: "('k, 'v) fifo_map \<Rightarrow> nat" where
  "fifo_size m = length (entries m)"

definition fifo_keys :: "('k, 'v) fifo_map \<Rightarrow> 'k list" where
  "fifo_keys m = jm_keys (entries m)"

text \<open>The eviction loop: while the map is over capacity, delete its oldest key.\<close>

function evict_loop :: "int \<Rightarrow> ('k, 'v) jmap \<Rightarrow> ('k \<times> 'v) list \<Rightarrow> ('k, 'v) jmap \<times> ('k \<times> 'v) list" where
  "evict_loop mx es evicted =
     (if int (length es) > mx then
        (case es of
           [] \<Rightarrow> (es, evicted)
         | oldest # _ \<Rightarrow> evict_loop mx (jm_delete (fst oldest) es) (evicted @ [oldest]))
      else (es, evicted))"
  by pat_completeness auto
termination
  by (relation "measure (\<lambda>(mx, es, evicted). length es)")
     (auto simp: length_jm_delete le_imp_less_Suc)

declare evict_loop.simps [simp del]

definition evictOverflow :: "('k, 'v) fifo_map \<Rightarrow> ('k, 'v) fifo_map \<times> ('k \<times> 'v) list" where
  "evictOverflow m =
     (case evict_loop (maxEntries m) (entries m) [] of
        (es, evicted) \<Rightarrow> (m\<lparr>entries := es\<rparr>, evicted))"

definition fifo_set :: "'k \<Rightarrow> 'v \<Rightarrow> ('k, 'v) fifo_map \<Rightarrow> ('k, 'v) fifo_map \<times> ('k \<times> 'v) list" where
  "fifo_set k v m = evictOverflow (m\<lparr>entries := jm_set k v (entries m)\<rparr>)"

definition fifo_setMaxEntries :: "int \<Rightarrow> ('k, 'v) fifo_map \<Rightarrow> ('k, 'v) fifo_map \<times> ('k \<times> 'v) list" where
  "fifo_setMaxEntries mx m = evictOverflow (m\<lparr>maxEntries := mx\<rparr>)"

definition fifo_delete :: "'k \<Rightarrow> ('k, 'v) fifo_map \<Rightarrow> ('k, 'v) fifo_map \<times> bool" where
  "fifo_delete k m = (m\<lparr>entries := jm_delete k (entries m)\<rparr>, fifo_has m k)"

definition fifo_clear :: "('k, 'v) fifo_map \<Rightarrow> ('k, 'v) fifo_map" where
  "fifo_clear m = m\<lparr>entries := []\<rparr>"

section \<open>BoundedSet and BoundedLruCache\<close>

type_synonym 'a bounded_set = "('a, bool) fifo_map"

definition bset_has :: "'a bounded_set \<Rightarrow> 'a \<Rightarrow> bool" where
  "bset_has s x = fifo_has s x"

definition bset_add :: "'a \<Rightarrow> 'a bounded_set \<Rightarrow> 'a bounded_set \<times> 'a list" where
  "bset_add x s = (case fifo_set x True s of (s', evicted) \<Rightarrow> (s', map fst evicted))"

definition bset_setMaxEntries :: "int \<Rightarrow> 'a bounded_set \<Rightarrow> 'a bounded_set \<times> 'a list" where
  "bset_setMaxEntries mx s =
     (case fifo_setMaxEntries mx s of (s', evicted) \<Rightarrow> (s', map fst evicted))"

definition bset_values :: "'a bounded_set \<Rightarrow> 'a list" where
  "bset_values s = fifo_keys s"

text \<open>
  The LRU overrides. \<open>get\<close> re-inserts a hit (a stored \<open>undefined\<close>, which no caller stores, is
  not in the value type); \<open>set\<close> deletes first, so the write lands at the young end.
\<close>

definition lru_get :: "'k \<Rightarrow> ('k, 'v) fifo_map \<Rightarrow> ('k, 'v) fifo_map \<times> 'v option" where
  "lru_get k m =
     (case jm_get (entries m) k of
        Some v \<Rightarrow> (m\<lparr>entries := jm_set k v (jm_delete k (entries m))\<rparr>, Some v)
      | None \<Rightarrow> (m, None))"

definition lru_set :: "'k \<Rightarrow> 'v \<Rightarrow> ('k, 'v) fifo_map \<Rightarrow> ('k, 'v) fifo_map \<times> ('k \<times> 'v) list" where
  "lru_set k v m = fifo_set k v (m\<lparr>entries := jm_delete k (entries m)\<rparr>)"

section \<open>The eviction loop\<close>

definition fifo_wf :: "('k, 'v) fifo_map \<Rightarrow> bool" where
  "fifo_wf m = jm_wf (entries m)"

definition within_cap :: "('k, 'v) fifo_map \<Rightarrow> bool" where
  "within_cap m = (int (length (entries m)) \<le> max 0 (maxEntries m))"

lemma evict_loop_eq:
  assumes "jm_wf es"
  shows "evict_loop mx es evicted =
           (drop (length es - nat mx) es, evicted @ take (length es - nat mx) es)"
  using assms
proof (induction mx es evicted rule: evict_loop.induct)
  case (1 mx es evicted)
  show ?case
  proof (cases "int (length es) > mx \<and> es \<noteq> []")
    case True
    then obtain k v rest where es: "es = (k, v) # rest" by (cases es) auto
    with "1.prems" have del: "jm_delete k es = rest" and wf: "jm_wf rest"
      by (simp_all add: jm_delete_hd jm_wf_Cons jm_delete_notin)
    with True es "1.IH" [of "(k, v)" rest]
    have IH: "evict_loop mx rest (evicted @ [(k, v)]) =
           (drop (length rest - nat mx) rest, (evicted @ [(k, v)]) @ take (length rest - nat mx) rest)"
      by simp
    have over: "length es - nat mx = Suc (length rest - nat mx)"
      using True es by (auto simp: Suc_diff_le)
    show ?thesis
      using True IH del over by (simp add: evict_loop.simps [of mx "(k, v) # rest"] es)
  next
    case False
    then show ?thesis
      by (subst evict_loop.simps) (auto split: list.splits)
  qed
qed

lemma evictOverflow_eq:
  assumes "fifo_wf m"
  shows "evictOverflow m =
     (m\<lparr>entries := drop (length (entries m) - nat (maxEntries m)) (entries m)\<rparr>,
      take (length (entries m) - nat (maxEntries m)) (entries m))"
  using assms by (simp add: evictOverflow_def evict_loop_eq fifo_wf_def)

lemma fifo_wf_set_entries: "fifo_wf m \<Longrightarrow> fifo_wf (m\<lparr>entries := jm_set k v (entries m)\<rparr>)"
  by (simp add: fifo_wf_def jm.wf_put)

lemma fifo_wf_delete_entries: "fifo_wf m \<Longrightarrow> fifo_wf (m\<lparr>entries := jm_delete k (entries m)\<rparr>)"
  by (simp add: fifo_wf_def jm.wf_del)

lemma evictOverflow_wf: "fifo_wf m \<Longrightarrow> fifo_wf (fst (evictOverflow m))"
  by (simp add: evictOverflow_eq) (simp add: fifo_wf_def jm_wf_drop)

lemma evictOverflow_within: "fifo_wf m \<Longrightarrow> within_cap (fst (evictOverflow m))"
  by (simp add: evictOverflow_eq within_cap_def)

lemma evictOverflow_max [simp]: "maxEntries (fst (evictOverflow m)) = maxEntries m"
  by (simp add: evictOverflow_def split: prod.splits)

lemma fifo_set_wf: "fifo_wf m \<Longrightarrow> fifo_wf (fst (fifo_set k v m))"
  by (simp add: fifo_set_def evictOverflow_wf fifo_wf_set_entries)

lemma fifo_set_within [bound_intros]: "fifo_wf m \<Longrightarrow> within_cap (fst (fifo_set k v m))"
  by (simp add: fifo_set_def evictOverflow_within fifo_wf_set_entries)

lemma fifo_set_max [simp]: "maxEntries (fst (fifo_set k v m)) = maxEntries m"
  by (simp add: fifo_set_def)

lemma fifo_delete_wf: "fifo_wf m \<Longrightarrow> fifo_wf (fst (fifo_delete k m))"
  by (simp add: fifo_delete_def fifo_wf_delete_entries)

lemma fifo_delete_within: "within_cap m \<Longrightarrow> within_cap (fst (fifo_delete k m))"
  using length_jm_delete [of k "entries m"] by (simp add: fifo_delete_def within_cap_def)


section \<open>The capped-container contract\<close>

text \<open>
  What a client of a capped container relies on: a write stays within capacity, the written
  key is readable afterwards when the capacity is positive, another key reads as before or
  is reported as dropped, and what was dropped is no longer held.
\<close>

locale capped_store =
  fixes get :: "'m \<Rightarrow> 'k \<Rightarrow> 'v option"
    and set_entry :: "'k \<Rightarrow> 'v \<Rightarrow> 'm \<Rightarrow> 'm \<times> ('k \<times> 'v) list"
    and held :: "'m \<Rightarrow> 'k list"
    and capacity :: "'m \<Rightarrow> int"
    and wf :: "'m \<Rightarrow> bool"
  assumes set_wf: "wf m \<Longrightarrow> wf (fst (set_entry k v m))"
    and set_capacity: "capacity (fst (set_entry k v m)) = capacity m"
    and set_bounded: "wf m \<Longrightarrow> int (length (held (fst (set_entry k v m)))) \<le> max 0 (capacity m)"
    and get_set_same: "wf m \<Longrightarrow> 0 < capacity m \<Longrightarrow> get (fst (set_entry k v m)) k = Some v"
    and get_set_other: "wf m \<Longrightarrow> k' \<noteq> k \<Longrightarrow>
          get (fst (set_entry k v m)) k' =
            (if k' \<in> fst ` set (snd (set_entry k v m)) then None else get m k')"
begin

lemma sets_wf_capacity:
  "wf m \<Longrightarrow> wf (fold (\<lambda>(k, v) m. fst (set_entry k v m)) kvs m) \<and>
     capacity (fold (\<lambda>(k, v) m. fst (set_entry k v m)) kvs m) = capacity m"
  by (induction kvs arbitrary: m) (auto simp: set_wf set_capacity)

text \<open>However many entries are written, the container stays within its capacity.\<close>

lemma sets_bounded:
  assumes "wf m" and "kvs \<noteq> []"
  shows "int (length (held (fold (\<lambda>(k, v) m. fst (set_entry k v m)) kvs m))) \<le> max 0 (capacity m)"
proof -
  obtain kvs' k v where kvs: "kvs = kvs' @ [(k, v)]"
    using assms(2) by (metis rev_exhaust surj_pair)
  define m' where "m' = fold (\<lambda>(k, v) m. fst (set_entry k v m)) kvs' m"
  have "wf m'" and "capacity m' = capacity m"
    using sets_wf_capacity [OF assms(1), of kvs'] by (simp_all add: m'_def)
  then show ?thesis
    using set_bounded [of m' k v] by (simp add: kvs m'_def)
qed

text \<open>The entry written last is always readable.\<close>

lemma last_write_readable:
  assumes "wf m" and "0 < capacity m"
  shows "get (fold (\<lambda>(k, v) m. fst (set_entry k v m)) (kvs @ [(k, v)]) m) k = Some v"
  using sets_wf_capacity [OF assms(1), of kvs] assms(2) by (simp add: get_set_same)

end

lemma map_of_drop_notin:
  assumes "k \<notin> fst ` set (take n es)"
  shows "map_of (drop n es) k = map_of es k"
proof -
  have "map_of (take n es @ drop n es) k = map_of (drop n es) k"
    using assms unfolding map_of_append map_add_def
    by (metis map_of_eq_None_iff option.simps(4))
  then show ?thesis by simp
qed

lemma map_of_drop_in:
  assumes "jm_wf es" and "k \<in> fst ` set (take n es)"
  shows "map_of (drop n es) k = None"
proof -
  have "distinct (map fst (take n es @ drop n es))" using assms(1) by (simp add: jm_wf_def)
  then show ?thesis using assms(2)
    by (auto simp: map_of_eq_None_iff simp del: append_take_drop_id)
qed

lemma map_of_drop:
  "jm_wf es \<Longrightarrow> map_of (drop n es) k = (if k \<in> fst ` set (take n es) then None else map_of es k)"
  by (simp add: map_of_drop_in map_of_drop_notin)

lemma fifo_set_eq:
  assumes "fifo_wf m"
  shows "fifo_set k v m =
     (let es = jm_set k v (entries m); n = length es - nat (maxEntries m)
      in (m\<lparr>entries := drop n es\<rparr>, take n es))"
  using evictOverflow_eq [OF fifo_wf_set_entries [OF assms], of k v]
  by (simp add: fifo_set_def Let_def)

text \<open>The key just written is not among the evicted ones: it is new and youngest, or the map did not grow.\<close>

lemma fifo_set_keeps_key:
  assumes "fifo_wf m" and "within_cap m" and "0 < maxEntries m"
  shows "k \<notin> fst ` set (snd (fifo_set k v m))"
proof (cases "k \<in> set (jm_keys (entries m))")
  case True
  then have "length (jm_set k v (entries m)) = length (entries m)"
    by (simp add: length_jm_set jm_has_iff)
  then show ?thesis
    using assms by (simp add: fifo_set_eq within_cap_def Let_def)
next
  case False
  then have es: "jm_set k v (entries m) = entries m @ [(k, v)]" by (rule jm_set_notin)
  have "set (take (Suc (length (entries m)) - nat (maxEntries m)) (entries m @ [(k, v)]))
          \<subseteq> set (entries m)"
    using assms(3) by (auto dest: in_set_takeD)
  then show ?thesis
    using False assms(1) by (auto simp: fifo_set_eq es Let_def)
qed

lemma fifo_get_set:
  assumes "fifo_wf m" and "within_cap m" and "0 < maxEntries m"
  shows "fifo_get (fst (fifo_set k v m)) k' =
     (if k' = k then Some v
      else if k' \<in> fst ` set (snd (fifo_set k v m)) then None else fifo_get m k')"
proof -
  have wf: "jm_wf (jm_set k v (entries m))"
    using assms(1) by (simp add: fifo_wf_def jm.wf_put)
  show ?thesis
    using fifo_set_keeps_key [OF assms, of k v] assms(1)
    by (auto simp: fifo_set_eq fifo_get_def Let_def map_of_drop [OF wf] jm_get_set)
qed

definition fifo_ok :: "('k, 'v) fifo_map \<Rightarrow> bool" where
  "fifo_ok m = (fifo_wf m \<and> within_cap m \<and> 0 < maxEntries m)"

lemma fifo_ok_set: "fifo_ok m \<Longrightarrow> fifo_ok (fst (fifo_set k v m))"
  by (simp add: fifo_ok_def fifo_set_wf fifo_set_within)

lemma fifo_ok_delete: "fifo_ok m \<Longrightarrow> fifo_ok (fst (fifo_delete k m))"
  by (simp add: fifo_ok_def fifo_delete_wf fifo_delete_within) (simp add: fifo_delete_def)

lemma fifo_ok_clear: "fifo_ok m \<Longrightarrow> fifo_ok (fifo_clear m)"
  by (simp add: fifo_ok_def fifo_clear_def fifo_wf_def within_cap_def)

lemma fifo_ok_new: "0 < mx \<Longrightarrow> fifo_ok (new_BoundedFifoMap mx)"
  by (simp add: fifo_ok_def new_BoundedFifoMap_def fifo_wf_def within_cap_def)

interpretation fifo: capped_store fifo_get fifo_set fifo_keys maxEntries fifo_ok
proof unfold_locales
  fix m :: "('k, 'v) fifo_map" and k k' v
  show "fifo_ok m \<Longrightarrow> fifo_ok (fst (fifo_set k v m))" by (rule fifo_ok_set)
  show "maxEntries (fst (fifo_set k v m)) = maxEntries m" by simp
  show "fifo_ok m \<Longrightarrow> int (length (fifo_keys (fst (fifo_set k v m)))) \<le> max 0 (maxEntries m)"
    using fifo_set_within [of m k v] by (simp add: fifo_ok_def within_cap_def fifo_keys_def)
  show "fifo_ok m \<Longrightarrow> 0 < maxEntries m \<Longrightarrow> fifo_get (fst (fifo_set k v m)) k = Some v"
    by (simp add: fifo_ok_def fifo_get_set)
  show "fifo_ok m \<Longrightarrow> k' \<noteq> k \<Longrightarrow> fifo_get (fst (fifo_set k v m)) k' =
            (if k' \<in> fst ` set (snd (fifo_set k v m)) then None else fifo_get m k')"
    by (simp add: fifo_ok_def fifo_get_set)
qed

section \<open>The LRU cache\<close>

lemma fifo_ok_delete_entries: "fifo_ok m \<Longrightarrow> fifo_ok (m\<lparr>entries := jm_delete k (entries m)\<rparr>)"
  using fifo_ok_delete [of m k] by (simp add: fifo_delete_def)

interpretation lru: capped_store fifo_get lru_set fifo_keys maxEntries fifo_ok
proof unfold_locales
  fix m :: "('k, 'v) fifo_map" and k k' v
  show "fifo_ok m \<Longrightarrow> fifo_ok (fst (lru_set k v m))"
    by (simp add: lru_set_def fifo_ok_set fifo_ok_delete_entries)
  show "maxEntries (fst (lru_set k v m)) = maxEntries m" by (simp add: lru_set_def)
  show "fifo_ok m \<Longrightarrow> int (length (fifo_keys (fst (lru_set k v m)))) \<le> max 0 (maxEntries m)"
    using fifo.set_bounded [of "m\<lparr>entries := jm_delete k (entries m)\<rparr>" k v] fifo_ok_delete_entries [of m k] by (simp add: lru_set_def)
  show "fifo_ok m \<Longrightarrow> 0 < maxEntries m \<Longrightarrow> fifo_get (fst (lru_set k v m)) k = Some v"
    using fifo.get_set_same [of "m\<lparr>entries := jm_delete k (entries m)\<rparr>" k v] fifo_ok_delete_entries [of m k] by (simp add: lru_set_def)
  show "fifo_ok m \<Longrightarrow> k' \<noteq> k \<Longrightarrow> fifo_get (fst (lru_set k v m)) k' =
            (if k' \<in> fst ` set (snd (lru_set k v m)) then None else fifo_get m k')"
    using fifo.get_set_other [of "m\<lparr>entries := jm_delete k (entries m)\<rparr>" k' k v] fifo_ok_delete_entries [of m k]
    by (simp add: lru_set_def fifo_get_def)
qed

text \<open>
  The abstract specification of the LRU policy: an unbounded recency list (oldest first).
  A write moves its key to the young end. A read does so only when the cache of capacity
  \<open>n\<close> would still hold the key, that is, when it is among the last \<open>n\<close>.
\<close>

definition touch_key :: "'k \<Rightarrow> 'k list \<Rightarrow> 'k list" where
  "touch_key k ks = filter (\<lambda>x. x \<noteq> k) ks @ [k]"

datatype ('k, 'v) lru_op = LruGet 'k | LruSet 'k 'v

fun spec_step :: "nat \<Rightarrow> ('k, 'v) lru_op \<Rightarrow> 'k list \<Rightarrow> 'k list" where
  "spec_step n (LruSet k v) ks = touch_key k ks"
| "spec_step n (LruGet k) ks = (if k \<in> set (lastn n ks) then touch_key k ks else ks)"

fun lru_step :: "('k, 'v) lru_op \<Rightarrow> ('k, 'v) fifo_map \<Rightarrow> ('k, 'v) fifo_map" where
  "lru_step (LruSet k v) m = fst (lru_set k v m)"
| "lru_step (LruGet k) m = fst (lru_get k m)"


lemma lastn_filter_notin: "k \<notin> set (lastn n ks) \<Longrightarrow> distinct ks \<Longrightarrow>
    lastn n (filter (\<lambda>x. x \<noteq> k) ks) = lastn n ks"
proof -
  assume notin: "k \<notin> set (lastn n ks)" and "distinct ks"
  have split: "ks = take (length ks - n) ks @ lastn n ks" by (simp add: lastn_def)
  have keep: "filter (\<lambda>x. x \<noteq> k) (lastn n ks) = lastn n ks"
    using notin by (auto simp: filter_id_conv)
  have "filter (\<lambda>x. x \<noteq> k) ks = filter (\<lambda>x. x \<noteq> k) (take (length ks - n) ks) @ lastn n ks"
    by (subst split) (simp add: keep)
  moreover have "lastn n (xs @ lastn n ks) = lastn n ks" if "n \<le> length ks" for xs :: "'a list"
    using that by (simp add: lastn_def)
  ultimately show ?thesis
    by (cases "n \<le> length ks") (auto simp: lastn_def)
qed

lemma length_filter_neq:
  "distinct ys \<Longrightarrow> k \<in> set ys \<Longrightarrow> Suc (length (filter (\<lambda>x. x \<noteq> k) ys)) = length ys"
proof (induction ys)
  case (Cons a ys)
  show ?case
  proof (cases "a = k")
    case True
    with Cons.prems have "filter (\<lambda>x. x \<noteq> k) ys = ys" by (auto simp: filter_id_conv)
    with True show ?thesis by simp
  qed (use Cons in simp)
qed simp

lemma lastn_remove_in:
  assumes "k \<in> set (lastn n ks)" and "distinct ks"
  shows "filter (\<lambda>x. x \<noteq> k) (lastn n ks) = lastn (n - 1) (filter (\<lambda>x. x \<noteq> k) ks)"
proof -
  let ?old = "take (length ks - n) ks"
  have split: "ks = ?old @ lastn n ks" by (simp add: lastn_def)
  have "distinct (?old @ lastn n ks)" using assms(2) split by metis
  then have dold: "k \<notin> set ?old" and dnew: "distinct (lastn n ks)"
    using assms(1) by (auto simp del: append_take_drop_id)
  have keep: "filter (\<lambda>x. x \<noteq> k) ?old = ?old"
    using dold by (auto simp: filter_id_conv)
  have all: "filter (\<lambda>x. x \<noteq> k) ks = ?old @ filter (\<lambda>x. x \<noteq> k) (lastn n ks)"
    by (subst split, simp only: filter_append keep)
  have len: "Suc (length (filter (\<lambda>x. x \<noteq> k) (lastn n ks))) = min n (length ks)"
    using length_filter_neq [OF dnew assms(1)] by (simp add: length_lastn)
  then have "lastn (n - 1) (?old @ filter (\<lambda>x. x \<noteq> k) (lastn n ks)) =
      filter (\<lambda>x. x \<noteq> k) (lastn n ks)"
    unfolding lastn_def [of "n - 1"] by (cases "n \<le> length ks") (auto simp: min_def)
  then show ?thesis by (simp only: all)
qed


lemma lastn_lastn:
  assumes "j \<le> n"
  shows "lastn j (lastn n ks) = lastn j ks"
proof -
  have "length (lastn n ks) - j + (length ks - n) = length ks - j"
    using assms by (simp add: length_lastn min_def)
  then show ?thesis by (simp add: lastn_def add.commute)
qed

definition lru_refines :: "nat \<Rightarrow> ('k, 'v) fifo_map \<Rightarrow> 'k list \<Rightarrow> bool" where
  "lru_refines n m ks =
     (fifo_wf m \<and> maxEntries m = int n \<and> 0 < n \<and> distinct ks \<and> fifo_keys m = lastn n ks)"

lemma distinct_touch_key: "distinct ks \<Longrightarrow> distinct (touch_key k ks)"
  by (simp add: touch_key_def)

lemma lastn_touch_key:
  assumes "0 < n" and "distinct ks"
  shows "lastn n (touch_key k ks) = lastn n (filter (\<lambda>x. x \<noteq> k) (lastn n ks) @ [k])"
proof (cases "k \<in> set (lastn n ks)")
  case True
  have "lastn (n - 1) (lastn (n - 1) (filter (\<lambda>x. x \<noteq> k) ks)) = lastn (n - 1) (filter (\<lambda>x. x \<noteq> k) ks)"
    by (simp add: lastn_lastn)
  then show ?thesis
    using assms by (simp add: touch_key_def lastn_append_one lastn_remove_in [OF True])
next
  case False
  then have "k \<notin> set (lastn (n - 1) ks)"
    using set_lastn [of "n - 1" "lastn n ks"] by (auto simp: lastn_lastn)
  then have drop: "lastn (n - 1) (filter (\<lambda>x. x \<noteq> k) ks) = lastn (n - 1) ks"
    using assms(2) by (rule lastn_filter_notin)
  have keep: "filter (\<lambda>x. x \<noteq> k) (lastn n ks) = lastn n ks"
    using False by (auto simp: filter_id_conv)
  show ?thesis
    using assms(1) drop unfolding touch_key_def keep
    by (simp add: lastn_append_one lastn_lastn)
qed

lemma fifo_keys_set_new:
  assumes "fifo_wf m" and "k \<notin> set (fifo_keys m)" and "maxEntries m = int n"
  shows "fifo_keys (fst (fifo_set k v m)) = lastn n (fifo_keys m @ [k])"
proof -
  have "nat (maxEntries m) = n" using assms(3) by simp
  moreover have "jm_keys (drop i [(k, v)]) = drop i [k]" for i by (cases i) simp_all
  ultimately show ?thesis
    using assms by (simp add: fifo_set_eq fifo_keys_def jm_set_notin lastn_def Let_def drop_map)
qed

lemma lru_set_refines:
  assumes "lru_refines n m ks"
  shows "lru_refines n (fst (lru_set k v m)) (touch_key k ks)"
proof -
  let ?m = "m\<lparr>entries := jm_delete k (entries m)\<rparr>"
  from assms have wf: "fifo_wf m" and mx: "maxEntries m = int n" and n: "0 < n"
    and d: "distinct ks" and keys: "fifo_keys m = lastn n ks"
    by (simp_all add: lru_refines_def)
  have keys': "fifo_keys ?m = filter (\<lambda>x. x \<noteq> k) (lastn n ks)"
    using keys by (simp add: fifo_keys_def jm_keys_delete)
  have "fifo_keys (fst (fifo_set k v ?m)) = lastn n (filter (\<lambda>x. x \<noteq> k) (lastn n ks) @ [k])"
    using fifo_keys_set_new [of ?m k n v] mx fifo_wf_delete_entries [OF wf, of k] by (simp add: keys')
  then show ?thesis
    using wf mx n d fifo_set_wf [OF fifo_wf_delete_entries [OF wf, of k], of k v]
    by (simp add: lru_refines_def lru_set_def lastn_touch_key distinct_touch_key)
qed

lemma lru_get_refines:
  assumes "lru_refines n m ks"
  shows "lru_refines n (fst (lru_get k m)) (spec_step n (LruGet k :: ('k, 'v) lru_op) ks)"
proof (cases "k \<in> set (lastn n ks)")
  case True
  from assms have wf: "fifo_wf m" and n: "0 < n" and d: "distinct ks" and keys: "fifo_keys m = lastn n ks"
    by (simp_all add: lru_refines_def)
  from True keys obtain v where v: "jm_get (entries m) k = Some v"
    by (metis fifo_keys_def jm_has_def jm_has_iff not_Some_eq)
  have new: "k \<notin> set (jm_keys (jm_delete k (entries m)))" by (simp add: jm_keys_delete)
  have "length (filter (\<lambda>x. x \<noteq> k) (lastn n ks) @ [k]) \<le> n"
    using length_filter_neq [of "lastn n ks" k] True d by (simp add: length_lastn) (simp add: lastn_def)
  then have "lastn n (touch_key k ks) = filter (\<lambda>x. x \<noteq> k) (lastn n ks) @ [k]"
    using lastn_touch_key [OF n d, of k] lastn_all by metis
  moreover have "distinct (lastn n ks)" using d by (simp add: lastn_def)
  ultimately show ?thesis
    using assms v True keys
    by (simp add: lru_refines_def lru_get_def fifo_keys_def jm_set_notin [OF new] jm_keys_delete
        distinct_touch_key fifo_wf_def jm_wf_def)
next
  case False
  with assms have "jm_get (entries m) k = None"
    by (metis fifo_keys_def image_set lru_refines_def map_of_eq_None_iff)
  with False assms show ?thesis by (simp add: lru_get_def)
qed

lemma lru_step_refines:
  "lru_refines n m ks \<Longrightarrow> lru_refines n (lru_step e m) (spec_step n e ks)"
  by (cases e) (auto intro: lru_set_refines lru_get_refines simp del: spec_step.simps(2))

lemma lru_run_refines:
  "lru_refines n m ks \<Longrightarrow> lru_refines n (fold lru_step es m) (fold (spec_step n) es ks)"
  by (induction es arbitrary: m ks) (simp_all add: lru_step_refines)

lemma lru_refines_new: "0 < n \<Longrightarrow> lru_refines n (new_BoundedFifoMap (int n)) []"
  by (simp add: lru_refines_def new_BoundedFifoMap_def fifo_wf_def fifo_keys_def lastn_def)


section \<open>Properties\<close>

text \<open>
  A write to a \<open>BoundedFifoMap\<close> loses nothing silently: the entries it reports as evicted,
  followed by the entries it keeps, are exactly the map after the plain write, in
  insertion order. So the evicted ones are the oldest, and what is kept fits the capacity.
\<close>

theorem fifo_set_evicts_oldest:
  assumes "fifo_wf m"
  shows "snd (fifo_set k v m) @ entries (fst (fifo_set k v m)) = jm_set k v (entries m)
       \<and> int (fifo_size (fst (fifo_set k v m))) \<le> max 0 (maxEntries m)
       \<and> fifo_wf (fst (fifo_set k v m))"
  using fifo_set_within [OF assms, of k v] fifo_set_wf [OF assms, of k v] assms
  by (simp add: fifo_set_eq within_cap_def fifo_size_def Let_def)

theorem fifo_set_evicts_oldest_witness:
  "fifo_wf \<lparr>entries = [(1::nat, ''a''), (2, ''b'')], maxEntries = 2\<rparr>
   \<and> fifo_set 3 ''c'' \<lparr>entries = [(1::nat, ''a''), (2, ''b'')], maxEntries = 2\<rparr>
       = (\<lparr>entries = [(2, ''b''), (3, ''c'')], maxEntries = 2\<rparr>, [(1, ''a'')])
   \<and> int (fifo_size (fst (fifo_set 3 ''c'' \<lparr>entries = [(1::nat, ''a''), (2, ''b'')], maxEntries = 2\<rparr>))) \<le> 2"
proof -
  have wf: "fifo_wf \<lparr>entries = [(1::nat, ''a''), (2, ''b'')], maxEntries = 2\<rparr>"
    by (simp add: fifo_wf_def jm_wf_def)
  show ?thesis
    using fifo_set_evicts_oldest [OF wf, of 3 "''c''"] wf
    by (simp add: fifo_set_eq Let_def)
qed

text \<open>
  The LRU cache implements the recency-list specification: after any sequence of reads and
  writes on a fresh cache of positive capacity \<open>n\<close>, the keys it holds, in its own order, are
  the last \<open>n\<close> keys of the unbounded recency list run over the same operations.
\<close>

theorem lru_refines_recency_list:
  assumes "0 < n"
  shows "fifo_keys (fold lru_step es (new_BoundedFifoMap (int n))) = lastn n (fold (spec_step n) es [])"
  using lru_run_refines [OF lru_refines_new [OF assms], of es] by (simp add: lru_refines_def)

theorem lru_refines_recency_list_witness:
  "fifo_keys (fold lru_step [LruSet ''a'' (1::int), LruSet ''b'' 2, LruGet ''a'', LruSet ''c'' 3]
       (new_BoundedFifoMap (int 2))) = [''a'', ''c'']"
proof -
  have "(0::nat) < 2" by simp
  from lru_refines_recency_list [OF this,
      of "[LruSet ''a'' (1::int), LruSet ''b'' 2, LruGet ''a'', LruSet ''c'' 3]"]
  show ?thesis by (simp add: touch_key_def lastn_def)
qed

end
