(* ===== verification/Retry_Loop.thy ===== *)
theory Retry_Loop
  imports Lens_Prelude
begin

text \<open>
  Loops of the form \<open>for (;;)\<close> that try something, return, or wait and try again until a
  deadline: the waiting loops of the file locks. \<open>pass i w\<close> is the \<open>i\<close>-th pass in world \<open>w\<close>: a
  result, or the world after the wait. A loop may run for ever, so it is a partial function;
  the locale says when it does not.
\<close>

partial_function (option) retry_loop :: "(nat \<Rightarrow> 'w \<Rightarrow> 'r + 'w) \<Rightarrow> nat \<Rightarrow> 'w \<Rightarrow> 'r option" where
  "retry_loop pass i w =
     (case pass i w of Inl r \<Rightarrow> Some r | Inr w' \<Rightarrow> retry_loop pass (i + 1) w')"

declare retry_loop.simps [code]

lemma retry_loop_done: "pass i w = Inl r \<Longrightarrow> retry_loop pass i w = Some r"
  by (simp add: retry_loop.simps [of pass i w])

lemma retry_loop_again: "pass i w = Inr w' \<Longrightarrow> retry_loop pass i w = retry_loop pass (i + 1) w'"
  by (simp add: retry_loop.simps [of pass i w])

text \<open>What the loop returns is the result of some pass.\<close>

lemma retry_loop_result:
  assumes "retry_loop pass i w = Some r"
  shows "\<exists>j v. i \<le> j \<and> pass j v = Inl r"
proof (rule retry_loop.raw_induct [where P = "\<lambda>pass i w r. \<exists>j v. i \<le> j \<and> pass j v = Inl r", OF _ assms],
    goal_cases)
  case (1 loop pass i w r)
  show ?case
  proof (cases "pass i w")
    case (Inl r')
    with 1(2) show ?thesis by auto
  next
    case (Inr w')
    with 1(2) 1(1) [of pass "i + 1" w' r] show ?thesis by (auto dest: Suc_leD)
  qed
qed

text \<open>
  The contract of a loop with a deadline: it goes on only before the deadline, and every
  wait moves the clock.
\<close>

locale timed_retry =
  fixes pass :: "nat \<Rightarrow> 'w \<Rightarrow> 'r + 'w"
    and clock :: "'w \<Rightarrow> int"
    and deadline :: int
  assumes goes_on: "pass i w = Inr w' \<Longrightarrow> clock w < deadline \<and> clock w < clock w'"
begin

text \<open>It returns, after at most as many waits as the clock has units left.\<close>

lemma returns:
  "\<exists>j v r. retry_loop pass i w = Some r \<and> pass j v = Inl r \<and> i \<le> j \<and> int (j - i) \<le> max 0 (deadline - clock w)"
proof (induction "nat (deadline - clock w)" arbitrary: i w rule: less_induct)
  case less
  show ?case
  proof (cases "pass i w")
    case (Inl r)
    then show ?thesis using retry_loop_done [of pass i w r] by force
  next
    case (Inr w')
    have c: "clock w < deadline" "clock w < clock w'" using goes_on [OF Inr] by simp_all
    then have "nat (deadline - clock w') < nat (deadline - clock w)" by simp
    from less [OF this, of "i + 1"] obtain j v r where
      "retry_loop pass (i + 1) w' = Some r" "pass j v = Inl r" "i + 1 \<le> j"
      "int (j - (i + 1)) \<le> max 0 (deadline - clock w')" by blast
    with c retry_loop_again [of pass i w w', OF Inr] show ?thesis
      by (intro exI [of _ j] exI [of _ v] exI [of _ r]) auto
  qed
qed

end

end
