(* ===== verification/Generation_Lock_Wait.thy ===== *)
theory Generation_Lock_Wait
  imports Generation_Lock_Safety Bounded_Cache Retry_Loop
begin

text \<open>
  One attempt at the generation lock as a whole, and \<open>withGenerationLockSync\<close>, the loop that
  retries it until a deadline and remembers the holder a wait ran out on.

  The attempt is a run of the calls of the interleaved model with nobody else acting. The
  loop runs against an environment: what the other processes do to the directory while it
  waits and while the protected operation runs. A wait of \<open>Atomics.wait\<close> lasts its whole
  timeout (nobody notifies the array), so the clock is at least that far on afterwards.
\<close>

section \<open>One attempt\<close>

text \<open>The fault the next call of a contender meets, taken from the faults of the attempt.\<close>

fun fault_at :: "lock_faults \<Rightarrow> lock_pc \<Rightarrow> lock_errno option" where
  "fault_at flt Outside = ft_list flt"
| "fault_at flt (Listed _ _) = ft_stat flt"
| "fault_at flt (Reading _) = ft_read flt"
| "fault_at flt (Creating _ _) = ft_create flt"
| "fault_at flt (Opened _ _ _ _) = ft_stamp flt"
| "fault_at flt (Stamped _ _) = ft_relist flt"
| "fault_at flt (Sweeping _ _ (name # _)) = ft_unlink flt name"
| "fault_at flt (Leaving _) = ft_release flt"
| "fault_at flt _ = None"

definition call_alone :: "lock_faults \<Rightarrow> nat \<Rightarrow> int \<Rightarrow> lock_world \<times> lock_pc \<Rightarrow> lock_world \<times> lock_pc" where
  "call_alone flt pid lease st = turn lease pid (fault_at flt (snd st)) (fst st) (snd st)"

text \<open>Where an attempt leaves its contender.\<close>

fun pc_after :: "attempt \<Rightarrow> lock_pc" where
  "pc_after (Acquired h) = Holding (gh_generation h) (gh_tookOverStale h)"
| "pc_after _ = Outside"

inductive calls_alone :: "lock_faults \<Rightarrow> nat \<Rightarrow> int \<Rightarrow> lock_world \<times> lock_pc \<Rightarrow> lock_world \<times> lock_pc \<Rightarrow> bool"
  for flt pid lease where
  one: "calls_alone flt pid lease st (call_alone flt pid lease st)"
| more: "calls_alone flt pid lease (call_alone flt pid lease st) st' \<Longrightarrow> calls_alone flt pid lease st st'"

lemma calls_last: "call_alone flt pid lease st = st' \<Longrightarrow> calls_alone flt pid lease st st'"
  using calls_alone.one by blast

lemma calls_step:
  "call_alone flt pid lease st = mid \<Longrightarrow> calls_alone flt pid lease mid st' \<Longrightarrow> calls_alone flt pid lease st st'"
  using calls_alone.more by blast

lemma sweep_alone:
  "calls_alone flt pid lease (w, Sweeping g took ns)
     (w\<lparr>lw_dir := removeBelowPredecessor (ft_unlink flt) ns g (lw_dir w)\<rparr>, Holding g took)"
proof (induction ns arbitrary: w)
  case Nil
  show ?case
    by (rule calls_last) (simp add: call_alone_def removeBelowPredecessor_def)
next
  case (Cons n ns)
  let ?w = "w\<lparr>lw_dir := remove_one (ft_unlink flt n) g n (lw_dir w)\<rparr>"
  have "?w\<lparr>lw_dir := removeBelowPredecessor (ft_unlink flt) ns g (lw_dir ?w)\<rparr> =
      w\<lparr>lw_dir := removeBelowPredecessor (ft_unlink flt) (n # ns) g (lw_dir w)\<rparr>"
    by (simp add: removeBelowPredecessor_def)
  moreover have "call_alone flt pid lease (w, Sweeping g took (n # ns)) = (?w, Sweeping g took ns)"
    by (simp add: call_alone_def)
  ultimately show ?case using calls_step [OF _ Cons [of ?w]] by metis
qed

lemma settle_alone:
  assumes "settle_attempt flt hold w = (w', r)"
  shows "calls_alone flt pid lease (w, Stamped (gh_generation hold) (gh_tookOverStale hold)) (w', pc_after r)"
proof -
  let ?g = "gh_generation hold" and ?took = "gh_tookOverStale hold"
  let ?next = "snd (call_alone flt pid lease (w, Stamped ?g ?took))"
  have leave: "calls_alone flt pid lease (w, Leaving ?g) (releaseGeneration (ft_release flt) ?g w, Outside)"
    by (rule calls_last) (simp add: call_alone_def)
  have "call_alone flt pid lease (w, Stamped ?g ?took) = (w, ?next)"
    by (simp add: call_alone_def Let_def split: option.split)
  moreover have "calls_alone flt pid lease (w, ?next) (w', pc_after r)"
    using assms leave sweep_alone [of flt pid lease w ?g ?took "jm_keys (lw_dir w)"]
    by (auto simp: settle_attempt_def call_alone_def Let_def split: option.splits if_splits)
  ultimately show ?thesis by (rule calls_step)
qed

lemma create_alone:
  assumes "settle_attempt flt \<lparr>gh_generation = g, gh_tookOverStale = took\<rparr>
      (write_stamp (generationPath g) (lw_inodes w) pid (lw_now w) (create_file (generationPath g) w)) = (w', r)"
    and "ft_create flt = None" "\<not> jm_has (lw_dir w) (generationPath g)" "ft_stamp flt = None"
  shows "calls_alone flt pid lease (w, Creating g took) (w', pc_after r)"
proof (rule calls_step)
  show "call_alone flt pid lease (w, Creating g took) =
      (create_file (generationPath g) w, Opened g took (lw_inodes w) (lw_now w))"
    using assms by (simp add: call_alone_def)
  show "calls_alone flt pid lease (create_file (generationPath g) w, Opened g took (lw_inodes w) (lw_now w)) (w', pc_after r)"
  proof (rule calls_step)
    show "call_alone flt pid lease (create_file (generationPath g) w, Opened g took (lw_inodes w) (lw_now w)) =
        (write_stamp (generationPath g) (lw_inodes w) pid (lw_now w) (create_file (generationPath g) w), Stamped g took)"
      using assms by (simp add: call_alone_def)
  qed (use settle_alone [OF assms(1)] in simp)
qed

lemma create_generation_alone:
  assumes "create_generation flt pid hold w = (w', r)"
  shows "calls_alone flt pid lease (w, Creating (gh_generation hold) (gh_tookOverStale hold)) (w', pc_after r)"
    (is "calls_alone flt pid lease (w, Creating ?g ?took) _")
proof (cases "ft_create flt = None \<and> \<not> jm_has (lw_dir w) (generationPath ?g)")
  case create: True
  show ?thesis
  proof (cases "ft_stamp flt")
    case None
    from create None have "settle_attempt flt hold (write_stamp (generationPath ?g) (lw_inodes w) pid (lw_now w)
        (create_file (generationPath ?g) w)) = (w', r)"
      using assms by (simp add: create_generation_def Let_def)
    then have "settle_attempt flt \<lparr>gh_generation = ?g, gh_tookOverStale = ?took\<rparr> (write_stamp (generationPath ?g) (lw_inodes w)
        pid (lw_now w) (create_file (generationPath ?g) w)) = (w', r)"
      by (cases hold) simp
    with create None show ?thesis by (intro create_alone) simp_all
  next
    case (Some e)
    have "calls_alone flt pid lease (create_file (generationPath ?g) w, Opened ?g ?took (lw_inodes w) (lw_now w)) (w', pc_after r)"
      using Some create assms
      by (intro calls_last) (auto simp: create_generation_def call_alone_def Let_def split: if_splits)
    with create show ?thesis
      by (intro calls_step [of flt pid lease "(w, Creating ?g ?took)"]) (auto simp: call_alone_def)
  qed
next
  case False
  with assms show ?thesis
    by (intro calls_last) (auto simp: create_generation_def call_alone_def Let_def split: option.splits if_splits)
qed

lemma judge_alone:
  assumes "pidFileIsStale flt w (generationPath t) lease"
    and "calls_alone flt pid lease (w, Creating (t + 1) True) st'"
  shows "calls_alone flt pid lease (w, Listed t False) st'"
proof -
  obtain f where f: "ft_stat flt = None" "jm_get (lw_dir w) (generationPath t) = Some f"
    using assms(1) by (auto simp: pidFileIsStale_def split: option.splits)
  show ?thesis
  proof (cases "lw_now w - lk_mtime f > lease")
    case True
    with f assms(2) show ?thesis by (intro calls_step [of flt pid lease "(w, Listed t False)"]) (auto simp: call_alone_def)
  next
    case False
    then obtain p where p: "pidFileOwner (ft_read flt) (lw_dir w) (generationPath t) = Some p" "\<not> realIsPidAlive w p"
      using assms(1) f by (auto simp: pidFileIsStale_def split: option.splits)
    then have "calls_alone flt pid lease (w, Probing t p) st'"
      using assms(2) by (intro calls_step [of flt pid lease "(w, Probing t p)"]) (auto simp: call_alone_def)
    then have "calls_alone flt pid lease (w, Reading t) st'"
      using p by (intro calls_step [of flt pid lease "(w, Reading t)"]) (auto simp: call_alone_def)
    with f False show ?thesis
      by (intro calls_step [of flt pid lease "(w, Listed t False)"]) (auto simp: call_alone_def)
  qed
qed

lemma judge_live_alone:
  assumes "\<not> pidFileIsStale flt w (generationPath t) lease"
  shows "calls_alone flt pid lease (w, Listed t False) (w, Outside)"
proof (cases "ft_stat flt = None \<and> (\<exists>f. jm_get (lw_dir w) (generationPath t) = Some f)")
  case True
  then obtain f where f: "ft_stat flt = None" "jm_get (lw_dir w) (generationPath t) = Some f" by blast
  with assms have young: "\<not> lw_now w - lk_mtime f > lease" by (auto simp: pidFileIsStale_def)
  have "calls_alone flt pid lease (w, Reading t) (w, Outside)"
  proof (cases "pidFileOwner (ft_read flt) (lw_dir w) (generationPath t)")
    case None
    then show ?thesis by (intro calls_last) (simp add: call_alone_def)
  next
    case (Some p)
    with assms f young have "realIsPidAlive w p" by (auto simp: pidFileIsStale_def)
    then have "calls_alone flt pid lease (w, Probing t p) (w, Outside)"
      by (intro calls_last) (simp add: call_alone_def)
    with Some show ?thesis
      by (intro calls_step [of flt pid lease "(w, Reading t)"]) (auto simp: call_alone_def)
  qed
  with f young show ?thesis
    by (intro calls_step [of flt pid lease "(w, Listed t False)"]) (auto simp: call_alone_def)
next
  case False
  then show ?thesis by (intro calls_last) (auto simp: call_alone_def split: option.split)
qed

text \<open>
  An attempt that nobody interferes with is a run of the calls of the interleaved model:
  the same directory, and the contender where the result says.
\<close>

theorem attempt_is_a_run_of_calls:
  "calls_alone flt pid lease (w, Outside)
     (fst (tryAcquireGeneration flt pid lease w), pc_after (snd (tryAcquireGeneration flt pid lease w)))"
proof (cases "ft_list flt")
  case None
  let ?t = "top_gen (lw_dir w)"
  define free where "free \<longleftrightarrow> ?t = 0 \<or> releasedName ?t \<in> set (jm_keys (lw_dir w))"
  obtain w' r where c: "create_generation flt pid \<lparr>gh_generation = ?t + 1, gh_tookOverStale = \<not> free\<rparr> w = (w', r)"
    by fastforce
  have create: "calls_alone flt pid lease (w, Creating (?t + 1) (\<not> free)) (w', pc_after r)"
    using create_generation_alone [OF c] by simp
  have attempt: "tryAcquireGeneration flt pid lease w =
      (if \<not> free \<and> \<not> pidFileIsStale flt w (generationPath ?t) lease then (w, Undefined) else (w', r))"
    unfolding tryAcquireGeneration_def Let_def None c [unfolded free_def, symmetric] free_def by simp
  have "call_alone flt pid lease (w, Outside) = (w, Listed ?t free)"
    using None by (simp add: call_alone_def Let_def free_def)
  moreover have "calls_alone flt pid lease (w, Listed ?t free)
      (fst (tryAcquireGeneration flt pid lease w), pc_after (snd (tryAcquireGeneration flt pid lease w)))"
  proof (cases free)
    case True
    have "call_alone flt pid lease (w, Listed ?t free) = (w, Creating (?t + 1) (\<not> free))"
      using True by (simp add: call_alone_def)
    from calls_step [OF this create] True show ?thesis by (simp add: attempt)
  next
    case False
    then show ?thesis
      using judge_alone [of flt w ?t lease pid] judge_live_alone [of flt w ?t lease pid] create
      by (simp add: attempt)
  qed
  ultimately show ?thesis by (rule calls_step)
next
  case (Some e)
  then show ?thesis
    by (intro calls_last) (simp add: call_alone_def tryAcquireGeneration_def)
qed

section \<open>What an attempt does\<close>

text \<open>What every reachable directory satisfies: lock names only, and no marker above the top.\<close>

definition tidy :: "lock_dir \<Rightarrow> bool" where
  "tidy d \<longleftrightarrow> lock_names d \<and> (\<forall>g. marked d g \<longrightarrow> g \<le> top_gen d)"

lemma lock_safe_tidy: "lock_safe d pcs \<Longrightarrow> tidy d"
  using lock_safeD(1,2) by (auto simp: tidy_def)

definition no_faults :: lock_faults where
  "no_faults = \<lparr>ft_list = None, ft_stat = None, ft_read = None, ft_create = None, ft_stamp = None,
     ft_relist = None, ft_unlink = (\<lambda>_. None), ft_release = None\<rparr>"

lemma no_faults_simps [simp]:
  "ft_list no_faults = None" "ft_stat no_faults = None" "ft_read no_faults = None"
  "ft_create no_faults = None" "ft_stamp no_faults = None" "ft_relist no_faults = None"
  by (simp_all add: no_faults_def)

lemma sweep_keeps_top:
  assumes "lock_names d" "g \<le> top_gen d"
  shows "lock_names (removeBelowPredecessor fl ns g d) \<and> top_gen (removeBelowPredecessor fl ns g d) = top_gen d"
  using assms
proof (induction ns arbitrary: d)
  case (Cons n ns)
  from Cons.prems have "lock_names (remove_one (fl n) g n d)" "top_gen (remove_one (fl n) g n d) = top_gen d"
    by (simp_all add: lock_names_remove top_gen_remove)
  with Cons show ?case by (simp add: removeBelowPredecessor_def)
qed (simp add: removeBelowPredecessor_def)

lemma sweep_has: "jm_has (removeBelowPredecessor fl ns g d) n \<Longrightarrow> jm_has d n"
proof (induction ns arbitrary: d)
  case (Cons m ns)
  then have "jm_has (remove_one (fl m) g m d) n" by (simp add: removeBelowPredecessor_def)
  then show ?case by (rule remove_one_has(1))
qed (simp add: removeBelowPredecessor_def)

lemma sweep_get: "\<not> removable g n \<Longrightarrow> jm_get (removeBelowPredecessor fl ns g d) n = jm_get d n"
proof (induction ns arbitrary: d)
  case (Cons m ns)
  then have "jm_get (remove_one (fl m) g m d) n = jm_get d n"
    by (auto simp: remove_one_def delete_conv split: option.split)
  with Cons show ?case by (simp add: removeBelowPredecessor_def)
qed (simp add: removeBelowPredecessor_def)

text \<open>The world after an acquisition: the next generation on top, stamped and not marked.\<close>

lemma create_generation_tidy:
  assumes "tidy (lw_dir w)" "g = top_gen (lw_dir w) + 1" "gh_generation hold = g"
  shows "\<exists>w'. create_generation no_faults pid hold w = (w', Acquired hold) \<and> tidy (lw_dir w') \<and>
     top_gen (lw_dir w') = g \<and> \<not> marked (lw_dir w') g \<and>
     jm_get (lw_dir w') (generationPath g) =
       Some \<lparr>lk_inode = lw_inodes w, lk_text = Stamp pid (lw_now w), lk_mtime = lw_now w\<rparr> \<and>
     lw_now w' = lw_now w \<and> lw_procs w' = lw_procs w"
proof -
  let ?d = "lw_dir w" and ?c = "create_file (generationPath g) w"
  let ?s = "write_stamp (generationPath g) (lw_inodes w) pid (lw_now w) ?c"
  have names: "lock_names ?d" and marks: "\<And>h. marked ?d h \<Longrightarrow> h < g"
    using assms(1,2) by (auto simp: tidy_def less_Suc_eq_le)
  have absent: "\<not> has_gen ?d g" using top_gen_ge [of ?d g] assms(2) by auto
  have same: "same_names (lw_dir ?c) (lw_dir ?s)" by (rule same_names_stamp)
  have top: "top_gen (lw_dir ?s) = g" and ns: "lock_names (lw_dir ?s)"
    using same_namesD [OF same] top_gen_create [OF names, of g] names assms(2) by simp_all
  have mark: "marked (lw_dir ?s) h = marked ?d h" for h
    using same_namesD(2) [OF same, of "releasedName h"] by simp
  have stamped: "jm_get (lw_dir ?s) (generationPath g) =
      Some \<lparr>lk_inode = lw_inodes w, lk_text = Stamp pid (lw_now w), lk_mtime = lw_now w\<rparr>"
    by (simp add: write_stamp_def create_file_def update_conv)
  have rest: "lw_now ?s = lw_now w" "lw_procs ?s = lw_procs w"
    by (simp_all add: write_stamp_def create_file_def split: option.split)
  let ?r = "removeBelowPredecessor (ft_unlink no_faults) (jm_keys (lw_dir ?s)) g (lw_dir ?s)"
  have run: "create_generation no_faults pid hold w = (?s\<lparr>lw_dir := ?r\<rparr>, Acquired hold)"
    using absent assms(3) top by (simp add: create_generation_def Let_def settle_attempt_def)
  have "lock_names ?r \<and> top_gen ?r = g" using sweep_keeps_top [OF ns, of g] top by simp
  moreover have "marked ?r h \<Longrightarrow> h < g" for h using sweep_has mark marks by blast
  moreover have "jm_get ?r (generationPath g) = jm_get (lw_dir ?s) (generationPath g)"
    by (rule sweep_get) simp
  ultimately show ?thesis
    using run stamped rest by (auto simp: tidy_def intro: less_imp_le)
qed

lemma attempt_held:
  "t = top_gen (lw_dir w) \<Longrightarrow> t \<noteq> 0 \<Longrightarrow> \<not> marked (lw_dir w) t \<Longrightarrow>
     \<not> pidFileIsStale no_faults w (generationPath t) lease \<Longrightarrow>
     tryAcquireGeneration no_faults pid lease w = (w, Undefined)"
  by (simp add: tryAcquireGeneration_def Let_def jm_has_iff)

lemma attempt_free:
  "t = top_gen (lw_dir w) \<Longrightarrow> t = 0 \<or> marked (lw_dir w) t \<Longrightarrow>
     tryAcquireGeneration no_faults pid lease w =
       create_generation no_faults pid \<lparr>gh_generation = t + 1, gh_tookOverStale = False\<rparr> w"
  by (auto simp: tryAcquireGeneration_def Let_def jm_has_iff)

text \<open>
  In a tidy directory whose top is free, an attempt takes the next generation; while its
  owner lives and the lease lasts every other attempt finds it held and changes nothing;
  and once it is released the next attempt takes the generation after it, not as a
  takeover.
\<close>

theorem acquire_excludes_until_release:
  assumes "tidy (lw_dir w)" and "t = topGeneration (jm_keys (lw_dir w))"
    and "t = 0 \<or> releasedName t \<in> set (jm_keys (lw_dir w))"
    and "realIsPidAlive w p" and "0 \<le> lease"
  shows "\<exists>w1 w2.
     tryAcquireGeneration no_faults p lease w = (w1, Acquired \<lparr>gh_generation = t + 1, gh_tookOverStale = False\<rparr>) \<and>
     ownsTopGeneration None (t + 1) w1 \<and>
     (\<forall>q now. now \<le> lw_now w + lease \<longrightarrow>
        tryAcquireGeneration no_faults q lease (w1\<lparr>lw_now := now\<rparr>) = (w1\<lparr>lw_now := now\<rparr>, Undefined)) \<and>
     tryAcquireGeneration no_faults q lease (releaseGeneration None (t + 1) w1) =
       (w2, Acquired \<lparr>gh_generation = t + 2, gh_tookOverStale = False\<rparr>)"
proof -
  have free: "t = 0 \<or> marked (lw_dir w) t" using assms(3) by (simp add: jm_has_iff)
  obtain w1 where w1: "create_generation no_faults p \<lparr>gh_generation = t + 1, gh_tookOverStale = False\<rparr> w =
      (w1, Acquired \<lparr>gh_generation = t + 1, gh_tookOverStale = False\<rparr>)"
    and t1: "tidy (lw_dir w1)" "top_gen (lw_dir w1) = t + 1" "\<not> marked (lw_dir w1) (t + 1)"
    and f1: "jm_get (lw_dir w1) (generationPath (t + 1)) =
        Some \<lparr>lk_inode = lw_inodes w, lk_text = Stamp p (lw_now w), lk_mtime = lw_now w\<rparr>"
    and r1: "lw_now w1 = lw_now w" "lw_procs w1 = lw_procs w"
    using create_generation_tidy [OF assms(1), of "t + 1" "\<lparr>gh_generation = t + 1, gh_tookOverStale = False\<rparr>" p]
      assms(2) by auto
  have "tryAcquireGeneration no_faults p lease w = (w1, Acquired \<lparr>gh_generation = t + 1, gh_tookOverStale = False\<rparr>)"
    using attempt_free [OF assms(2) free, of p lease] w1 by simp
  moreover have "ownsTopGeneration None (t + 1) w1"
    using t1 by (simp add: ownsTopGeneration_def Let_def jm_has_iff)
  moreover have "tryAcquireGeneration no_faults q lease (w1\<lparr>lw_now := now\<rparr>) = (w1\<lparr>lw_now := now\<rparr>, Undefined)"
    if "now \<le> lw_now w + lease" for q now
  proof -
    have alive: "realIsPidAlive (w1\<lparr>lw_now := now\<rparr>) p" "0 < p"
      using assms(4) r1 by (simp_all add: realIsPidAlive_iff)
    have "\<not> pidFileIsStale no_faults (w1\<lparr>lw_now := now\<rparr>) (generationPath (t + 1)) lease"
      using f1 that alive by (simp add: pidFileIsStale_def pidFileOwner_def)
    then show ?thesis
      using attempt_held [of "t + 1" "w1\<lparr>lw_now := now\<rparr>" lease q] t1 by simp
  qed
  moreover have "\<exists>w2. tryAcquireGeneration no_faults q lease (releaseGeneration None (t + 1) w1) =
       (w2, Acquired \<lparr>gh_generation = t + 2, gh_tookOverStale = False\<rparr>)"
  proof -
    let ?w = "releaseGeneration None (t + 1) w1"
    have names: "lock_names (lw_dir w1)" using t1(1) by (simp add: tidy_def)
    have tidy: "tidy (lw_dir ?w)" "top_gen (lw_dir ?w) = t + 1" "marked (lw_dir ?w) (t + 1)"
      using t1 by (auto simp: tidy_def top_gen_release [OF names] release_has lock_names_release)
    show ?thesis
      using attempt_free [of "t + 1" ?w q lease] tidy(2,3)
        create_generation_tidy [OF tidy(1), of "t + 2" "\<lparr>gh_generation = t + 2, gh_tookOverStale = False\<rparr>" q]
      by auto
  qed
  ultimately show ?thesis by blast
qed

section \<open>The waiting loop\<close>

text \<open>What a generation file reads after \<open>trim()\<close>, and the name of the top's holder.\<close>

definition show_ms :: "int \<Rightarrow> string" where
  "show_ms t = (if t < 0 then ''-'' @ show_nat (nat (- t)) else show_nat (nat t))"

fun trimmed_text :: "lock_text \<Rightarrow> string" where
  "trimmed_text Blank = []"
| "trimmed_text (Stamp pid ms) = show_nat pid @ '' '' @ show_ms ms"

definition topGenerationHolder :: "lock_errno option \<Rightarrow> lock_dir \<Rightarrow> string option" where
  "topGenerationHolder fault d =
     (case fault of Some _ \<Rightarrow> None
      | None \<Rightarrow> (let t = topGeneration (jm_keys d)
                 in case jm_get d (generationPath t) of
                      None \<Rightarrow> None
                    | Some f \<Rightarrow> Some (''lock.'' @ show_nat t @ '' '' @ trimmed_text (lk_text f))))"

text \<open>
  The module's memory: per lock directory the holder a wait ran out on (the map's value may
  be \<open>undefined\<close>), and the degradations recorded, by kind and subject, for this lock and for
  the bounded lock built on it.
\<close>

datatype lock_note =
    Generation_takeover string nat
  | Wait_skipped string string
  | Legacy_lock_held string
  | Bounded_wait_skipped string string

record lock_memory =
  lm_timedOutHolders :: "(string, string option) fifo_map"
  lm_notes :: "lock_note list"

definition add_note :: "lock_note \<Rightarrow> lock_memory \<Rightarrow> lock_memory" where
  "add_note n m = m\<lparr>lm_notes := lm_notes m @ [n]\<rparr>"

definition recordGenerationTakeover :: "string \<Rightarrow> GenerationHold \<Rightarrow> lock_memory \<Rightarrow> lock_memory" where
  "recordGenerationTakeover dir hold = add_note (Generation_takeover dir (gh_generation hold - 1))"

definition remembered :: "string \<Rightarrow> lock_memory \<Rightarrow> string option" where
  "remembered dir m = Option.bind (fifo_get (lm_timedOutHolders m) dir) id"

definition remember :: "string \<Rightarrow> string option \<Rightarrow> lock_memory \<Rightarrow> lock_memory" where
  "remember dir holder m =
     m\<lparr>lm_timedOutHolders := fst (fifo_set dir holder (lm_timedOutHolders m))\<rparr>"

text \<open>
  A call of \<open>withGenerationLockSync\<close>: its arguments, and the environment it runs in. The
  operation works on a state of its own; its result says whether it returned or threw.
  \<open>lc_random i\<close> gives the \<open>i\<close>-th random number, \<open>lc_others i\<close> what happens to the world during
  the \<open>i\<close>-th wait, \<open>lc_during\<close> what happens while the operation runs.
\<close>

record ('x, 'r) lock_call =
  lc_dir :: string
  lc_staleMs :: int
  lc_waitMs :: int
  lc_op :: "'x \<Rightarrow> 'r \<times> 'x"
  lc_pid :: nat
  lc_faults :: "nat \<Rightarrow> lock_faults"
  lc_holder_fault :: "nat \<Rightarrow> lock_errno option"
  lc_release_fault :: "lock_errno option"
  lc_random :: "nat \<Rightarrow> nat"
  lc_others :: "nat \<Rightarrow> lock_world \<Rightarrow> lock_world"
  lc_during :: "lock_world \<Rightarrow> lock_world"

datatype 'r lock_outcome = Held 'r | Not_held "lock_errno option"

text \<open>The end of a wait of \<open>ms\<close> that began in \<open>w\<close>, when the others left \<open>w'\<close>.\<close>

definition waited :: "int \<Rightarrow> lock_world \<Rightarrow> lock_world \<Rightarrow> lock_world" where
  "waited ms w w' = w'\<lparr>lw_now := max (lw_now w') (lw_now w + ms)\<rparr>"

text \<open>\<open>randomInt(5, 26)\<close>.\<close>

definition backoff_ms :: "nat \<Rightarrow> int" where
  "backoff_ms r = 5 + int (r mod 21)"

text \<open>One pass of the loop; a result carries the number of waits before it.\<close>

type_synonym ('x, 'r) lock_result = "'r lock_outcome \<times> nat \<times> lock_world \<times> 'x \<times> lock_memory"

definition lock_pass ::
    "('x, 'r) lock_call \<Rightarrow> int \<Rightarrow> string option \<Rightarrow> 'x \<Rightarrow> lock_memory \<Rightarrow> nat \<Rightarrow> lock_world \<Rightarrow>
       ('x, 'r) lock_result + lock_world" where
  "lock_pass call deadline timedOutHolder x mem i w =
     (case tryAcquireGeneration (lc_faults call i) (lc_pid call) (lc_staleMs call) w of
        (w1, Thrown cause) \<Rightarrow> Inl (Not_held (Some cause), i, w1, x, mem)
      | (w1, Acquired hold) \<Rightarrow>
          (let mem1 = (if gh_tookOverStale hold then recordGenerationTakeover (lc_dir call) hold mem else mem);
               (r, x1) = lc_op call x
           in Inl (Held r, i,
                releaseGeneration (lc_release_fault call) (gh_generation hold) (lc_during call w1), x1, mem1))
      | (w1, Undefined) \<Rightarrow>
          (let holder = topGenerationHolder (lc_holder_fault call i) (lw_dir w1)
           in if timedOutHolder \<noteq> None \<and> holder = timedOutHolder
              then Inl (Not_held None, i, w1, x, add_note (Wait_skipped (lc_dir call) (the timedOutHolder)) mem)
              else if lw_now w1 \<ge> deadline
              then Inl (Not_held None, i, w1, x, remember (lc_dir call) holder mem)
              else Inr (waited (backoff_ms (lc_random call i)) w1 (lc_others call i w1))))"

definition withGenerationLockSync ::
    "('x, 'r) lock_call \<Rightarrow> lock_world \<Rightarrow> 'x \<Rightarrow> lock_memory \<Rightarrow> ('x, 'r) lock_result option" where
  "withGenerationLockSync call w x mem =
     retry_loop
       (lock_pass call (lw_now w + lc_waitMs call) (remembered (lc_dir call) mem) x mem) 0 w"

lemma settle_now: "lw_now (fst (settle_attempt flt hold w)) = lw_now w"
  by (simp add: settle_attempt_def releaseGeneration_def write_empty_def create_file_def Let_def split: option.split)

lemma create_generation_now: "lw_now (fst (create_generation flt pid hold w)) = lw_now w"
  by (simp add: create_generation_def Let_def settle_now write_stamp_def create_file_def split: option.split)

lemma attempt_now: "lw_now (fst (tryAcquireGeneration flt pid lease w)) = lw_now w"
  by (simp add: tryAcquireGeneration_def Let_def create_generation_now split: option.split)

lemma lock_pass_again:
  assumes "lock_pass call deadline h x mem i w = Inr w'"
  shows "lw_now w < deadline" and "lw_now w + 5 \<le> lw_now w'"
proof -
  obtain w1 a where t: "tryAcquireGeneration (lc_faults call i) (lc_pid call) (lc_staleMs call) w = (w1, a)"
    by fastforce
  have "lw_now w1 = lw_now w"
    using attempt_now [of "lc_faults call i" "lc_pid call" "lc_staleMs call" w] t by simp
  with assms t show "lw_now w < deadline" "lw_now w + 5 \<le> lw_now w'"
    by (cases a; auto simp: lock_pass_def Let_def waited_def backoff_ms_def split: if_splits prod.splits)+
qed

text \<open>A result of a pass, by its outcome.\<close>

lemma lock_pass_result:
  assumes "lock_pass call deadline h x mem i w = Inl (out, n, w', x', mem')"
  shows "n = i"
    and "case out of Held r \<Rightarrow> lc_op call x = (r, x') | Not_held _ \<Rightarrow> x' = x"
    and "out = Not_held None \<Longrightarrow> h = remembered (lc_dir call) mem \<Longrightarrow> fifo_ok (lm_timedOutHolders mem) \<Longrightarrow>
      remembered (lc_dir call) mem' = topGenerationHolder (lc_holder_fault call n) (lw_dir w')"
proof -
  obtain w1 a where t: "tryAcquireGeneration (lc_faults call i) (lc_pid call) (lc_staleMs call) w = (w1, a)"
    by fastforce
  have skipped: "remembered (lc_dir call) (add_note k mem) = remembered (lc_dir call) mem" for k
    by (simp add: remembered_def add_note_def)
  have kept: "fifo_ok (lm_timedOutHolders mem) \<Longrightarrow> remembered dir (remember dir k mem) = k" for dir k
    by (simp add: remembered_def remember_def fifo_get_set fifo_ok_def)
  from assms t show "n = i" "case out of Held r \<Rightarrow> lc_op call x = (r, x') | Not_held _ \<Rightarrow> x' = x"
    by (cases a; auto simp: lock_pass_def Let_def split: if_splits prod.splits)+
  from assms t skipped kept
  show "out = Not_held None \<Longrightarrow> h = remembered (lc_dir call) mem \<Longrightarrow> fifo_ok (lm_timedOutHolders mem) \<Longrightarrow>
      remembered (lc_dir call) mem' = topGenerationHolder (lc_holder_fault call n) (lw_dir w')"
    by (cases a) (auto simp: lock_pass_def Let_def split: if_splits prod.splits)
qed

interpretation gen_wait: timed_retry "lock_pass call deadline h x mem" "\<lambda>w. lw_now w" deadline
  for call :: "('x, 'r) lock_call" and deadline h x mem
proof unfold_locales
  fix i w w' assume "lock_pass call deadline h x mem i w = Inr w'"
  from lock_pass_again [OF this] show "lw_now w < deadline \<and> lw_now w < lw_now w'" by simp
qed

text \<open>
  C8: The call returns, after at most \<open>waitMs\<close> waits. The protected operation has then run exactly
  once if the lock was held, and not at all otherwise.
\<close>

theorem lock_wait_ends:
  "\<exists>out n w' x' mem'. withGenerationLockSync call w x mem = Some (out, n, w', x', mem') \<and>
     int n \<le> max 0 (lc_waitMs call) \<and>
     (case out of Held r \<Rightarrow> lc_op call x = (r, x') | Not_held _ \<Rightarrow> x' = x)"
proof -
  let ?p = "lock_pass call (lw_now w + lc_waitMs call) (remembered (lc_dir call) mem) x mem"
  obtain j v r where r: "retry_loop ?p 0 w = Some r" "?p j v = Inl r" "int j \<le> max 0 (lc_waitMs call)"
    using gen_wait.returns [of call "lw_now w + lc_waitMs call" "remembered (lc_dir call) mem" x mem 0 w]
    by auto
  obtain out n w' x' mem' where "r = (out, n, w', x', mem')" by (cases r) auto
  with r lock_pass_result(1,2) [of call _ _ x mem j v out n w' x' mem'] show ?thesis
    by (auto simp: withGenerationLockSync_def)
qed

text \<open>
  A second call for the same directory that finds the holder the first one ran out on tries
  once and returns without a wait, and without running its operation.
\<close>

theorem stuck_holder_is_not_waited_for_twice:
  assumes "fifo_ok (lm_timedOutHolders mem)"
    and "withGenerationLockSync call w x mem = Some (Not_held None, n, w1, x1, mem1)"
    and "topGenerationHolder (lc_holder_fault call n) (lw_dir w1) = Some h"
    and "lc_dir call' = lc_dir call"
    and "tryAcquireGeneration (lc_faults call' 0) (lc_pid call') (lc_staleMs call') w2 = (w3, Undefined)"
    and "topGenerationHolder (lc_holder_fault call' 0) (lw_dir w3) = Some h"
  shows "withGenerationLockSync call' w2 x2 mem1 =
     Some (Not_held None, 0, w3, x2, add_note (Wait_skipped (lc_dir call') h) mem1)"
proof -
  obtain j v where "lock_pass call (lw_now w + lc_waitMs call) (remembered (lc_dir call) mem) x mem j v =
      Inl (Not_held None, n, w1, x1, mem1)"
    using retry_loop_result [OF assms(2) [unfolded withGenerationLockSync_def]] by blast
  from lock_pass_result(3) [OF this refl refl assms(1)] assms(3,4)
  have "remembered (lc_dir call') mem1 = Some h" by simp
  then show ?thesis
    using assms(5,6) unfolding withGenerationLockSync_def
    by (intro retry_loop_done) (simp add: lock_pass_def Let_def)
qed

section \<open>Concrete calls\<close>

text \<open>
  Process 7 holds generation 1 and stays inside. A call of process 8 waits 10 ms at a time,
  for at most 25 ms; a second call comes 100 ms later.
\<close>

definition held_world :: "int \<Rightarrow> lock_world" where
  "held_world t = \<lparr>lw_dir = [(''lock.1'', \<lparr>lk_inode = 0, lk_text = Stamp 7 100, lk_mtime = 100\<rparr>)],
     lw_inodes = 1, lw_now = t, lw_procs = [(7, Signalled), (8, Signalled)]\<rparr>"

definition patient_call :: "(nat, nat) lock_call" where
  "patient_call = \<lparr>lc_dir = ''/tmp/x.locks'', lc_staleMs = 5000, lc_waitMs = 25, lc_op = (\<lambda>n. (n, n + 1)),
     lc_pid = 8, lc_faults = (\<lambda>_. no_faults), lc_holder_fault = (\<lambda>_. None), lc_release_fault = None,
     lc_random = (\<lambda>_. 5), lc_others = (\<lambda>i w. w), lc_during = id\<rparr>"

definition fresh_memory :: lock_memory where
  "fresh_memory = \<lparr>lm_timedOutHolders = new_BoundedFifoMap 16, lm_notes = []\<rparr>"

abbreviation stuck_memory :: lock_memory where
  "stuck_memory \<equiv> remember ''/tmp/x.locks'' (Some ''lock.1 7 100'') fresh_memory"

theorem stuck_holder_is_not_waited_for_twice_witness:
  "withGenerationLockSync patient_call (held_world 200) 0 fresh_memory =
     Some (Not_held None, 3, held_world 230, 0, stuck_memory) \<and>
   withGenerationLockSync patient_call (held_world 330) 0 stuck_memory =
     Some (Not_held None, 0, held_world 330, 0, add_note (Wait_skipped ''/tmp/x.locks'' ''lock.1 7 100'') stuck_memory)"
proof -
  have first: "withGenerationLockSync patient_call (held_world 200) 0 fresh_memory =
     Some (Not_held None, 3, held_world 230, 0, stuck_memory)"
    by code_simp
  have ok: "fifo_ok (lm_timedOutHolders fresh_memory)"
    by (simp add: fresh_memory_def fifo_ok_new)
  have dir: "lc_dir patient_call = ''/tmp/x.locks''" by (simp add: patient_call_def)
  have name: "topGenerationHolder (lc_holder_fault patient_call i) (lw_dir (held_world t)) = Some ''lock.1 7 100''" for i t
    by (simp add: patient_call_def held_world_def topGenerationHolder_def) code_simp
  have held: "tryAcquireGeneration (lc_faults patient_call 0) (lc_pid patient_call) (lc_staleMs patient_call)
      (held_world 330) = (held_world 330, Undefined)"
    by code_simp
  show ?thesis
    using first stuck_holder_is_not_waited_for_twice [OF ok first name refl held name, of 0] by (simp add: dir)
qed

text \<open>An empty directory, and process 8.\<close>

definition empty_world :: lock_world where
  "empty_world = \<lparr>lw_dir = [], lw_inodes = 0, lw_now = 50, lw_procs = [(8, Signalled)]\<rparr>"

theorem acquire_excludes_until_release_witness:
  "\<exists>w1 w2.
     tryAcquireGeneration no_faults 8 5000 empty_world =
       (w1, Acquired \<lparr>gh_generation = 1, gh_tookOverStale = False\<rparr>) \<and>
     tryAcquireGeneration no_faults 9 5000 (w1\<lparr>lw_now := 5050\<rparr>) = (w1\<lparr>lw_now := 5050\<rparr>, Undefined) \<and>
     tryAcquireGeneration no_faults 9 5000 (releaseGeneration None 1 w1) =
       (w2, Acquired \<lparr>gh_generation = 2, gh_tookOverStale = False\<rparr>)"
proof -
  have "tidy (lw_dir empty_world)"
    by (simp add: tidy_def empty_world_def lock_names_def jm_has_def)
  moreover have "0 = topGeneration (jm_keys (lw_dir empty_world))"
    by (simp add: empty_world_def topGeneration_def)
  moreover have "realIsPidAlive empty_world 8"
    by (simp add: empty_world_def realIsPidAlive_def)
  ultimately obtain w1 w2 where w: "tryAcquireGeneration no_faults 8 5000 empty_world =
       (w1, Acquired \<lparr>gh_generation = 1, gh_tookOverStale = False\<rparr>)"
     "\<forall>q now. now \<le> lw_now empty_world + 5000 \<longrightarrow>
        tryAcquireGeneration no_faults q 5000 (w1\<lparr>lw_now := now\<rparr>) = (w1\<lparr>lw_now := now\<rparr>, Undefined)"
     "tryAcquireGeneration no_faults 9 5000 (releaseGeneration None 1 w1) =
       (w2, Acquired \<lparr>gh_generation = 2, gh_tookOverStale = False\<rparr>)"
    using acquire_excludes_until_release [of empty_world 0 8 5000 9] by (auto simp: numeral_2_eq_2)
  have "lw_now empty_world = 50" by (simp add: empty_world_def)
  with w show ?thesis by auto
qed

end
