(* ===== verification/Bounded_Pid_Lock.thy ===== *)
theory Bounded_Pid_Lock
  imports Generation_Lock_Wait
begin

text \<open>
  \<open>clients/bounded-pid-file-lock.ts\<close>: the synchronous lock around the durable stores. It holds
  a generation of the directory \<open><lockPath>s\<close> and, as a bridge to older writers, the file
  \<open>lockPath\<close> itself, judged by the liveness of the pid in it. Modelled are the bridge file,
  one attempt, the release, and the waiting loop with its memory of a stuck holder. The
  quarantine variant (a directory, asynchronous) is not modelled.
\<close>

section \<open>The bridge file\<close>

text \<open>
  The old lock file: its text and its mtime. The world of a bounded lock is that of its
  generation directory and this file.
\<close>

record bridge_file =
  bf_text :: string
  bf_mtime :: int

record bounded_world =
  bw_lock :: lock_world
  bw_bridge :: "bridge_file option"

text \<open>\<open>Number.parseInt(text, 10)\<close>: white space, a sign, the longest run of digits; \<open>NaN\<close> is \<open>None\<close>.\<close>

definition parse_digits :: "string \<Rightarrow> int option" where
  "parse_digits s = (let ds = takeWhile is_digit_char s in if ds = [] then None else Some (int (index_value ds)))"

fun parse_signed :: "string \<Rightarrow> int option" where
  "parse_signed [] = None"
| "parse_signed (c # cs) =
     (if c = CHR ''-'' then map_option uminus (parse_digits cs)
      else if c = CHR ''+'' then parse_digits cs
      else parse_digits (c # cs))"

definition parseInt10 :: "string \<Rightarrow> int option" where
  "parseInt10 s = parse_signed (dropWhile is_js_space s)"

definition isSafeInteger :: "int \<Rightarrow> bool" where
  "isSafeInteger n = (\<bar>n\<bar> \<le> 2 ^ 53 - 1)"

definition UNREADABLE_LOCK_STALE_MS :: int where
  "UNREADABLE_LOCK_STALE_MS = 5000"

definition generationDir :: "string \<Rightarrow> string" where
  "generationDir lockPath = lockPath @ ''s''"

text \<open>The pid the bridge names, if it names a usable one.\<close>

definition bridge_pid :: "string \<Rightarrow> nat option" where
  "bridge_pid content =
     (case parseInt10 (takeWhile (\<lambda>c. c \<noteq> CHR '':'') content) of
        None \<Rightarrow> None
      | Some pid \<Rightarrow> if isSafeInteger pid \<and> pid > 0 then Some (nat pid) else None)"

text \<open>
  The outcome of the file system calls on the bridge in one attempt. \<open>bf_write\<close> and
  \<open>bf_rewrite\<close> are writes that fail after the exclusive create succeeded.
\<close>

record bridge_faults =
  bf_create :: "lock_errno option"
  bf_write :: "lock_errno option"
  bf_read :: "lock_errno option"
  bf_stat :: "lock_errno option"
  bf_unlink :: "lock_errno option"
  bf_recreate :: "lock_errno option"
  bf_rewrite :: "lock_errno option"

text \<open>\<open>boundedLockIsStale\<close>: the verdict, or the error its calls throw (a missing file included).\<close>

definition boundedLockIsStale :: "bridge_faults \<Rightarrow> bounded_world \<Rightarrow> lock_errno + bool" where
  "boundedLockIsStale flt w =
     (case (bf_read flt, bw_bridge w) of
        (Some e, _) \<Rightarrow> Inl e
      | (None, None) \<Rightarrow> Inl EOTHER
      | (None, Some f) \<Rightarrow>
          (case bridge_pid (bf_text f) of
             Some pid \<Rightarrow> Inr (\<not> realIsPidAlive (bw_lock w) pid)
           | None \<Rightarrow>
               (case bf_stat flt of
                  Some e \<Rightarrow> Inl e
                | None \<Rightarrow> Inr (lw_now (bw_lock w) - bf_mtime f > UNREADABLE_LOCK_STALE_MS))))"

text \<open>\<open>createLegacyBoundedLock\<close>: an exclusive create, then the write of the token.\<close>

definition createLegacyBoundedLock ::
    "lock_errno option \<Rightarrow> lock_errno option \<Rightarrow> string \<Rightarrow> bounded_world \<Rightarrow> bounded_world \<times> (lock_errno + bool)" where
  "createLegacyBoundedLock create_fault write_fault token w =
     (let failed = (\<lambda>e. if isLockContention e then Inr False else Inl e);
          create = (case create_fault of
                      Some e \<Rightarrow> Some e
                    | None \<Rightarrow> if bw_bridge w = None then None else Some EEXIST)
      in case create of
           Some e \<Rightarrow> (w, failed e)
         | None \<Rightarrow>
             (case write_fault of
                Some e \<Rightarrow> (w\<lparr>bw_bridge := Some \<lparr>bf_text = [], bf_mtime = lw_now (bw_lock w)\<rparr>\<rparr>, failed e)
              | None \<Rightarrow> (w\<lparr>bw_bridge := Some \<lparr>bf_text = token, bf_mtime = lw_now (bw_lock w)\<rparr>\<rparr>, Inr True)))"

text \<open>
  \<open>takeLegacyBoundedLock\<close> in the two halves between which another process can act: after a
  failed create the verdict, and after the verdict \<open>stale\<close> the removal by path and the second
  create.
\<close>

datatype bridge_verdict = Took | Not_taken | Found_stale | Failed lock_errno

definition judge_bridge :: "bridge_faults \<Rightarrow> string \<Rightarrow> bounded_world \<Rightarrow> bounded_world \<times> bridge_verdict" where
  "judge_bridge flt token w =
     (case createLegacyBoundedLock (bf_create flt) (bf_write flt) token w of
        (w1, Inl e) \<Rightarrow> (w1, Failed e)
      | (w1, Inr True) \<Rightarrow> (w1, Took)
      | (w1, Inr False) \<Rightarrow>
          (case boundedLockIsStale flt w1 of
             Inr True \<Rightarrow> (w1, Found_stale)
           | Inr False \<Rightarrow> (w1, Not_taken)
           | Inl _ \<Rightarrow> (w1, Not_taken)))"

definition replace_bridge ::
    "bridge_faults \<Rightarrow> string \<Rightarrow> bounded_world \<Rightarrow> bounded_world \<times> (lock_errno + bool)" where
  "replace_bridge flt token w =
     (case (bf_unlink flt, bw_bridge w) of
        (None, Some _) \<Rightarrow>
          createLegacyBoundedLock (bf_recreate flt) (bf_rewrite flt) token (w\<lparr>bw_bridge := None\<rparr>)
      | _ \<Rightarrow> (w, Inr False))"

definition takeLegacyBoundedLock ::
    "bridge_faults \<Rightarrow> string \<Rightarrow> bounded_world \<Rightarrow> bounded_world \<times> (lock_errno + bool)" where
  "takeLegacyBoundedLock flt token w =
     (case judge_bridge flt token w of
        (w1, Took) \<Rightarrow> (w1, Inr True)
      | (w1, Not_taken) \<Rightarrow> (w1, Inr False)
      | (w1, Failed e) \<Rightarrow> (w1, Inl e)
      | (w1, Found_stale) \<Rightarrow> replace_bridge flt token w1)"

definition releaseLegacyBoundedLock ::
    "lock_errno option \<Rightarrow> lock_errno option \<Rightarrow> string \<Rightarrow> bounded_world \<Rightarrow> bounded_world" where
  "releaseLegacyBoundedLock read_fault unlink_fault token w =
     (case (read_fault, unlink_fault, bw_bridge w) of
        (None, None, Some f) \<Rightarrow> (if bf_text f = token then w\<lparr>bw_bridge := None\<rparr> else w)
      | _ \<Rightarrow> w)"

section \<open>One attempt\<close>

datatype bounded_attempt =
    Got GenerationHold
  | Busy
  | Legacy_held
  | Errored lock_errno

definition on_lock :: "(lock_world \<Rightarrow> lock_world) \<Rightarrow> bounded_world \<Rightarrow> bounded_world" where
  "on_lock f w = w\<lparr>bw_lock := f (bw_lock w)\<rparr>"

text \<open>
  \<open>tryAcquireBoundedLock\<close>; \<open>rf\<close> is the fault of the release of the generation when the
  bridge is not got. The memory takes the note of a takeover.
\<close>

definition tryAcquireBoundedLock ::
    "lock_faults \<Rightarrow> bridge_faults \<Rightarrow> lock_errno option \<Rightarrow> nat \<Rightarrow> string \<Rightarrow> string \<Rightarrow>
       bounded_world \<times> lock_memory \<Rightarrow> (bounded_world \<times> lock_memory) \<times> bounded_attempt" where
  "tryAcquireBoundedLock flt bf rf pid lockPath token st =
     (case tryAcquireGeneration flt pid UNREADABLE_LOCK_STALE_MS (bw_lock (fst st)) of
        (l, Undefined) \<Rightarrow> ((on_lock (\<lambda>_. l) (fst st), snd st), Busy)
      | (l, Thrown e) \<Rightarrow> ((on_lock (\<lambda>_. l) (fst st), snd st), Errored e)
      | (l, Acquired hold) \<Rightarrow>
          (let mem = (if gh_tookOverStale hold
                      then recordGenerationTakeover (generationDir lockPath) hold (snd st) else snd st)
           in (case takeLegacyBoundedLock bf token (on_lock (\<lambda>_. l) (fst st)) of
                 (w, Inr True) \<Rightarrow> ((w, mem), Got hold)
               | (w, Inr False) \<Rightarrow> ((on_lock (releaseGeneration rf (gh_generation hold)) w, mem), Legacy_held)
               | (w, Inl e) \<Rightarrow> ((on_lock (releaseGeneration rf (gh_generation hold)) w, mem), Errored e))))"

text \<open>The function \<open>acquireBoundedPidFileLock\<close> returns: the bridge first, then the generation.\<close>

definition release_bounded ::
    "lock_errno option \<Rightarrow> lock_errno option \<Rightarrow> lock_errno option \<Rightarrow> string \<Rightarrow> GenerationHold \<Rightarrow>
       bounded_world \<Rightarrow> bounded_world" where
  "release_bounded read_fault unlink_fault rf token hold w =
     on_lock (releaseGeneration rf (gh_generation hold))
       (releaseLegacyBoundedLock read_fault unlink_fault token w)"

section \<open>The waiting loop\<close>

text \<open>
  \<open>currentHolderIdentity\<close>: the holder named by the top generation when that is held, and by
  the content of the bridge when the bridge is. An empty bridge names nobody.
\<close>

definition currentHolderIdentity :: "lock_errno option \<Rightarrow> bounded_attempt \<Rightarrow> bounded_world \<Rightarrow> string option" where
  "currentHolderIdentity fault hold w =
     (if hold = Busy then topGenerationHolder fault (lw_dir (bw_lock w))
      else case (fault, bw_bridge w) of
             (None, Some f) \<Rightarrow> (if bf_text f = [] then None else Some (''legacy '' @ bf_text f))
           | _ \<Rightarrow> None)"

record bounded_call =
  bc_lockPath :: string
  bc_waitMs :: int
  bc_retryMs :: int
  bc_skipLog :: bool
  bc_token :: string
  bc_pid :: nat
  bc_faults :: "nat \<Rightarrow> lock_faults"
  bc_bridge_faults :: "nat \<Rightarrow> bridge_faults"
  bc_release_fault :: "nat \<Rightarrow> lock_errno option"
  bc_holder_fault :: "nat \<Rightarrow> lock_errno option"
  bc_others :: "nat \<Rightarrow> bounded_world \<Rightarrow> bounded_world"

text \<open>The hold (the caller gets its release), \<open>null\<close> after the contention was logged, or a throw.\<close>

datatype bounded_outcome =
    Locked GenerationHold
  | Contention_logged
  | Timed_out
  | Propagated lock_errno

definition contended :: "bounded_call \<Rightarrow> bounded_outcome" where
  "contended call = (if bc_skipLog call then Contention_logged else Timed_out)"

text \<open>One pass; the loop carries the world, the memory and \<open>legacyHeldRecorded\<close>.\<close>

type_synonym bounded_state = "bounded_world \<times> lock_memory \<times> bool"

definition bounded_pass ::
    "bounded_call \<Rightarrow> int \<Rightarrow> string option \<Rightarrow> nat \<Rightarrow> bounded_state \<Rightarrow>
       (bounded_outcome \<times> nat \<times> bounded_world \<times> lock_memory) + bounded_state" where
  "bounded_pass call deadline timedOutHolder i st =
     (case st of (w, mem, recorded) \<Rightarrow>
        (case tryAcquireBoundedLock (bc_faults call i) (bc_bridge_faults call i) (bc_release_fault call i)
            (bc_pid call) (bc_lockPath call) (bc_token call) (w, mem) of
           ((w1, mem1), Got hold) \<Rightarrow> Inl (Locked hold, i, w1, mem1)
         | ((w1, mem1), Errored e) \<Rightarrow> Inl (Propagated e, i, w1, mem1)
         | ((w1, mem1), hold) \<Rightarrow>
             (let dir = generationDir (bc_lockPath call);
                  held = (hold = Legacy_held);
                  mem2 = (if held \<and> \<not> recorded then add_note (Legacy_lock_held (bc_lockPath call)) mem1 else mem1);
                  holder = currentHolderIdentity (bc_holder_fault call i) hold w1
              in if timedOutHolder \<noteq> None \<and> holder = timedOutHolder
                 then Inl (contended call, i, w1, add_note (Bounded_wait_skipped dir (the timedOutHolder)) mem2)
                 else if lw_now (bw_lock w1) \<ge> deadline
                 then Inl (contended call, i, w1, remember dir holder mem2)
                 else let w' = bc_others call i w1
                      in Inr (on_lock (waited (max 0 (bc_retryMs call)) (bw_lock w1)) w', mem2, recorded \<or> held))))"

definition acquireBoundedPidFileLock ::
    "bounded_call \<Rightarrow> bounded_world \<Rightarrow> lock_memory \<Rightarrow>
       (bounded_outcome \<times> nat \<times> bounded_world \<times> lock_memory) option" where
  "acquireBoundedPidFileLock call w mem =
     retry_loop
       (bounded_pass call (lw_now (bw_lock w) + bc_waitMs call) (remembered (generationDir (bc_lockPath call)) mem))
       0 (w, mem, False)"

section \<open>A live holder keeps the bridge\<close>

lemma settle_procs: "lw_procs (fst (settle_attempt flt hold w)) = lw_procs w"
  by (simp add: settle_attempt_def releaseGeneration_def write_empty_def create_file_def Let_def split: option.split)

lemma attempt_procs: "lw_procs (fst (tryAcquireGeneration flt pid lease w)) = lw_procs w"
  by (simp add: tryAcquireGeneration_def Let_def create_generation_def settle_procs write_stamp_def
      create_file_def split: option.split)

lemma create_on_taken:
  "bw_bridge w = Some f \<Longrightarrow>
     createLegacyBoundedLock cf ef token w = (w, Inr False) \<or> (\<exists>e. createLegacyBoundedLock cf ef token w = (w, Inl e))"
  by (auto simp: createLegacyBoundedLock_def Let_def isLockContention_def split: option.split)

text \<open>A bridge that names a live process: it stays, and it is not taken.\<close>

lemma take_live_bridge:
  assumes "bw_bridge w = Some f" "bridge_pid (bf_text f) = Some pid" "realIsPidAlive (bw_lock w) pid"
  shows "takeLegacyBoundedLock bf token w = (w, Inr False) \<or> (\<exists>e. takeLegacyBoundedLock bf token w = (w, Inl e))"
  using create_on_taken [OF assms(1), of "bf_create bf" "bf_write bf" token] assms
  by (auto simp: takeLegacyBoundedLock_def judge_bridge_def boundedLockIsStale_def split: option.split)

theorem live_bridge_blocks_every_attempt:
  assumes "bw_bridge w = Some f" and "bridge_pid (bf_text f) = Some holder"
    and "realIsPidAlive (bw_lock w) holder"
    and "tryAcquireBoundedLock flt bf rf pid lockPath token (w, mem) = ((w', mem'), result)"
  shows "(\<forall>hold. result \<noteq> Got hold) \<and> bw_bridge w' = bw_bridge w"
proof -
  obtain l a where t: "tryAcquireGeneration flt pid UNREADABLE_LOCK_STALE_MS (bw_lock w) = (l, a)" by fastforce
  let ?w = "on_lock (\<lambda>_. l) w"
  have "lw_procs l = lw_procs (bw_lock w)"
    using attempt_procs [of flt pid UNREADABLE_LOCK_STALE_MS "bw_lock w"] t by simp
  then have "realIsPidAlive (bw_lock ?w) holder"
    using assms(3) by (simp add: on_lock_def realIsPidAlive_iff)
  moreover have "bw_bridge ?w = Some f" using assms(1) by (simp add: on_lock_def)
  ultimately obtain v where v: "takeLegacyBoundedLock bf token ?w = (?w, v)" "v \<noteq> Inr True"
    using take_live_bridge [of ?w f holder bf token] assms(2) by auto
  have keep: "bw_bridge (on_lock k ?w) = bw_bridge w" "bw_bridge ?w = bw_bridge w" for k
    by (simp_all add: on_lock_def)
  show ?thesis
  proof (cases a)
    case (Acquired hold)
    with v t assms(4) keep show ?thesis
      by (cases v) (auto simp: tryAcquireBoundedLock_def Let_def)
  qed (use t assms(4) keep in \<open>auto simp: tryAcquireBoundedLock_def\<close>)
qed

section \<open>The token names its writer\<close>

text \<open>The token an acquisition makes: \<open><pid>:<ms>:<uuid>\<close>.\<close>

definition bounded_token :: "nat \<Rightarrow> int \<Rightarrow> string \<Rightarrow> string" where
  "bounded_token pid ms uuid = show_nat pid @ '':'' @ show_ms ms @ '':'' @ uuid"

lemma not_digit_chars:
  "\<not> is_digit_char CHR '':''" "\<not> is_digit_char CHR ''-''" "\<not> is_digit_char CHR ''+''"
  by (simp_all add: is_digit_char_def)

lemma digit_not_space: "is_digit_char c \<Longrightarrow> \<not> is_js_space c"
  by (auto simp: is_digit_char_def is_js_space_def)

lemma parse_digits_show: "parse_digits (show_nat n) = Some (int n)"
  by (simp add: parse_digits_def)

lemma parseInt10_show: "parseInt10 (show_nat n) = Some (int n)"
proof -
  obtain c cs where s: "show_nat n = c # cs" by (cases "show_nat n") simp_all
  then have d: "is_digit_char c" using show_nat_all_digits [of n] by simp
  then have "c \<noteq> CHR ''-''" "c \<noteq> CHR ''+''" using not_digit_chars by auto
  with s d show ?thesis
    using parse_digits_show [of n] digit_not_space [OF d] by (simp add: parseInt10_def)
qed

lemma bridge_pid_token: "0 < pid \<Longrightarrow> int pid \<le> 2 ^ 53 - 1 \<Longrightarrow> bridge_pid (bounded_token pid ms uuid) = Some pid"
proof -
  assume p: "0 < pid" "int pid \<le> 2 ^ 53 - 1"
  have "takeWhile (\<lambda>c. c \<noteq> CHR '':'') (show_nat pid @ CHR '':'' # rest) = show_nat pid" for rest
    using show_nat_all_digits [of pid] not_digit_chars(1) by (subst takeWhile_append2) auto
  then show ?thesis
    using p by (simp add: bridge_pid_def bounded_token_def parseInt10_show isSafeInteger_def)
qed

section \<open>Taking and giving back\<close>

definition no_bridge_faults :: bridge_faults where
  "no_bridge_faults = \<lparr>bf_create = None, bf_write = None, bf_read = None, bf_stat = None,
     bf_unlink = None, bf_recreate = None, bf_rewrite = None\<rparr>"

lemma take_absent_bridge:
  "bw_bridge w = None \<Longrightarrow> takeLegacyBoundedLock no_bridge_faults token w =
     (w\<lparr>bw_bridge := Some \<lparr>bf_text = token, bf_mtime = lw_now (bw_lock w)\<rparr>\<rparr>, Inr True)"
  by (simp add: takeLegacyBoundedLock_def judge_bridge_def createLegacyBoundedLock_def no_bridge_faults_def Let_def)

text \<open>A free lock with no bridge file is got by an attempt that meets no fault.\<close>

lemma bounded_attempt_free:
  assumes "tryAcquireGeneration no_faults pid UNREADABLE_LOCK_STALE_MS (bw_lock w) =
      (l, Acquired \<lparr>gh_generation = g, gh_tookOverStale = False\<rparr>)"
    and "bw_bridge w = None"
  shows "tryAcquireBoundedLock no_faults no_bridge_faults rf pid lockPath token (w, mem) =
     ((\<lparr>bw_lock = l, bw_bridge = Some \<lparr>bf_text = token, bf_mtime = lw_now l\<rparr>\<rparr>, mem),
      Got \<lparr>gh_generation = g, gh_tookOverStale = False\<rparr>)"
  using assms by (cases w) (simp add: tryAcquireBoundedLock_def on_lock_def take_absent_bridge)

section \<open>Runs of whole attempts\<close>

text \<open>
  What can happen between a holder's acquisition and its release, at the grain of whole
  attempts: an attempt of anyone (each caller has its own memory), the release of an older
  holder, a new reading of the clock, a process that appears, one that dies.
\<close>

datatype bounded_event =
    Attempt_of lock_faults bridge_faults "lock_errno option" nat string string lock_memory
  | Release_of "lock_errno option" "lock_errno option" "lock_errno option" string GenerationHold
  | Clock_at int
  | Born nat probe
  | Gone nat

fun bounded_step :: "bounded_event \<Rightarrow> bounded_world \<Rightarrow> bounded_world \<times> bounded_attempt list" where
  "bounded_step (Attempt_of flt bf rf pid lockPath token mem) w =
     (case tryAcquireBoundedLock flt bf rf pid lockPath token (w, mem) of ((w', _), r) \<Rightarrow> (w', [r]))"
| "bounded_step (Release_of read_fault unlink_fault rf token hold) w =
     (release_bounded read_fault unlink_fault rf token hold w, [])"
| "bounded_step (Clock_at now) w = (on_lock (lw_now_update (\<lambda>_. now)) w, [])"
| "bounded_step (Born pid answer) w = (on_lock (lw_procs_update (jm_set pid answer)) w, [])"
| "bounded_step (Gone pid) w = (on_lock (lw_procs_update (jm_delete pid)) w, [])"

text \<open>A run: the world it leaves and the results of its attempts, in order.\<close>

fun bounded_run :: "bounded_event list \<Rightarrow> bounded_world \<Rightarrow> bounded_world \<times> bounded_attempt list" where
  "bounded_run [] w = (w, [])"
| "bounded_run (e # es) w =
     (case bounded_step e w of (w1, rs) \<Rightarrow> (case bounded_run es w1 of (w2, rs') \<Rightarrow> (w2, rs @ rs')))"

text \<open>
  The events another party can cause while process \<open>pid\<close> holds generation \<open>t + 1\<close> with
  \<open>token\<close>: everything but the death of the holder and a release with its token or of a
  generation from its own on.
\<close>

fun outside_event :: "nat \<Rightarrow> string \<Rightarrow> nat \<Rightarrow> bounded_event \<Rightarrow> bool" where
  "outside_event pid token t (Gone p) = (p \<noteq> pid)"
| "outside_event pid token t (Release_of _ _ _ tok hold) = (tok \<noteq> token \<and> gh_generation hold \<le> t)"
| "outside_event pid token t _ = True"

text \<open>The directory side: attempts keep it tidy and never lower the top.\<close>

definition tidy_above :: "nat \<Rightarrow> lock_dir \<Rightarrow> bool" where
  "tidy_above t d \<longleftrightarrow> tidy d \<and> t \<le> top_gen d"

lemma tidy_release:
  "tidy (lw_dir w) \<Longrightarrow> g \<le> top_gen (lw_dir w) \<Longrightarrow>
     tidy (lw_dir (releaseGeneration f g w)) \<and> top_gen (lw_dir (releaseGeneration f g w)) = top_gen (lw_dir w)"
  by (auto simp: tidy_def release_has lock_names_release top_gen_release)

lemma tidy_same: "same_names d d' \<Longrightarrow> tidy d' = tidy d"
  by (simp add: tidy_def same_namesD)

lemma tidy_create:
  assumes "tidy (lw_dir w)" and "top_gen (lw_dir w) \<le> g"
  shows "tidy (lw_dir (create_file (generationPath g) w)) \<and> top_gen (lw_dir (create_file (generationPath g) w)) = g"
proof -
  have "top_gen (lw_dir (create_file (generationPath g) w)) = g"
    using assms top_gen_create [of w g] by (simp add: tidy_def max_def)
  with assms show ?thesis unfolding tidy_def by (auto intro: order_trans)
qed

lemma settle_tidy:
  assumes "tidy (lw_dir w)" and "gh_generation hold = top_gen (lw_dir w)"
  shows "tidy (lw_dir (fst (settle_attempt flt hold w))) \<and>
         top_gen (lw_dir (fst (settle_attempt flt hold w))) = top_gen (lw_dir w)"
proof -
  let ?g = "gh_generation hold"
  have "tidy (removeBelowPredecessor fl ns ?g (lw_dir w)) \<and>
        top_gen (removeBelowPredecessor fl ns ?g (lw_dir w)) = top_gen (lw_dir w)" for fl ns
    using sweep_keeps_top [of "lw_dir w" ?g fl ns] sweep_has [of fl ns ?g "lw_dir w"] assms
    by (auto simp: tidy_def)
  with tidy_release [of w ?g "ft_release flt"] assms show ?thesis
    by (simp add: settle_attempt_def Let_def split: option.split)
qed

lemma create_generation_keeps_tidy:
  assumes "tidy (lw_dir w)" and "gh_generation hold = top_gen (lw_dir w) + 1"
    and "create_generation flt pid hold w = (w', r)"
  shows "tidy (lw_dir w') \<and> top_gen (lw_dir w) \<le> top_gen (lw_dir w') \<and>
         (r = Acquired h \<longrightarrow> gh_generation h \<le> top_gen (lw_dir w'))"
proof -
  let ?n = "generationPath (gh_generation hold)"
  let ?c = "create_file ?n w"
  let ?s = "write_stamp ?n (lw_inodes w) pid (lw_now w) ?c"
  have c: "tidy (lw_dir ?c)" "top_gen (lw_dir ?c) = gh_generation hold"
    using tidy_create [OF assms(1), of "gh_generation hold"] assms(2) by simp_all
  have s: "tidy (lw_dir ?s)" "top_gen (lw_dir ?s) = gh_generation hold"
    using c tidy_same [OF same_names_stamp] same_namesD(1) [OF same_names_stamp] by simp_all
  have res: "snd (settle_attempt flt hold ?s) = Acquired h \<Longrightarrow> h = hold"
    by (simp add: settle_attempt_def Let_def split: option.splits if_splits)
  show ?thesis
    using assms c settle_tidy [OF s(1), of hold flt] s(2) res
    by (auto simp: create_generation_def Let_def split: option.splits if_splits)
qed

lemma attempt_keeps_tidy:
  assumes "tidy (lw_dir w)" and "tryAcquireGeneration flt pid lease w = (w', r)"
  shows "tidy (lw_dir w') \<and> top_gen (lw_dir w) \<le> top_gen (lw_dir w') \<and>
         (r = Acquired h \<longrightarrow> gh_generation h \<le> top_gen (lw_dir w'))"
proof -
  let ?t = "top_gen (lw_dir w)"
  have "create_generation flt pid \<lparr>gh_generation = ?t + 1, gh_tookOverStale = b\<rparr> w = (w', r) \<Longrightarrow> ?thesis" for b
    by (rule create_generation_keeps_tidy [OF assms(1)]) simp_all
  with assms show ?thesis
    by (auto simp: tryAcquireGeneration_def Let_def split: option.splits if_splits)
qed

text \<open>
  What holds all along a run of the others: the bridge is the holder's, the holder lives, the
  directory is tidy and its top has not fallen below the held generation.
\<close>

definition held_by :: "nat \<Rightarrow> bridge_file \<Rightarrow> nat \<Rightarrow> bounded_world \<Rightarrow> bool" where
  "held_by pid f t w \<longleftrightarrow> bw_bridge w = Some f \<and> realIsPidAlive (bw_lock w) pid \<and>
     tidy_above (t + 1) (lw_dir (bw_lock w))"

lemma bounded_attempt_procs:
  assumes "bw_bridge w = Some f" "bridge_pid (bf_text f) = Some p" "realIsPidAlive (bw_lock w) p"
    and "tryAcquireBoundedLock flt bf rf pid lp tok (w, mem) = ((w', mem'), r)"
    and "tidy_above t (lw_dir (bw_lock w))"
  shows "lw_procs (bw_lock w') = lw_procs (bw_lock w) \<and> tidy_above t (lw_dir (bw_lock w'))"
proof -
  obtain l a where g: "tryAcquireGeneration flt pid UNREADABLE_LOCK_STALE_MS (bw_lock w) = (l, a)" by fastforce
  have procs: "lw_procs l = lw_procs (bw_lock w)"
    using attempt_procs [of flt pid UNREADABLE_LOCK_STALE_MS "bw_lock w"] g by simp
  have tidy: "tidy_above t (lw_dir l)"
      "a = Acquired h \<Longrightarrow> tidy_above t (lw_dir (releaseGeneration rf (gh_generation h) l))" for h
    using attempt_keeps_tidy [OF _ g, of h] tidy_release [of l "gh_generation h" rf] assms(5)
    by (auto simp: tidy_above_def)
  have rel: "lw_procs (releaseGeneration rf n l) = lw_procs l" for n
    by (simp add: releaseGeneration_def write_empty_def create_file_def split: option.split)
  let ?w = "on_lock (\<lambda>_. l) w"
  have "bw_bridge ?w = Some f" "realIsPidAlive (bw_lock ?w) p"
    using assms(1,3) procs by (simp_all add: on_lock_def realIsPidAlive_iff)
  then obtain v where v: "takeLegacyBoundedLock bf tok ?w = (?w, v)" "v \<noteq> Inr True"
    using take_live_bridge [of ?w f p bf tok] assms(2) by auto
  show ?thesis
  proof (cases a)
    case (Acquired hold)
    with assms(4) g v procs rel tidy show ?thesis
      by (cases v) (auto simp: tryAcquireBoundedLock_def Let_def on_lock_def)
  qed (use assms(4) g procs tidy in \<open>auto simp: tryAcquireBoundedLock_def on_lock_def\<close>)
qed

lemma held_by_step:
  assumes "held_by pid f t w" "bridge_pid (bf_text f) = Some pid" "outside_event pid (bf_text f) t e"
    and "bounded_step e w = (w', rs)"
  shows "held_by pid f t w' \<and> (\<forall>hold. Got hold \<notin> set rs)"
proof (cases e)
  case (Attempt_of flt bf rf q lp tok mem)
  obtain w1 mem1 r where run: "tryAcquireBoundedLock flt bf rf q lp tok (w, mem) = ((w1, mem1), r)"
    by (metis prod.exhaust)
  with Attempt_of assms live_bridge_blocks_every_attempt [OF _ assms(2) _ run]
    bounded_attempt_procs [OF _ assms(2) _ run, of "t + 1"]
  show ?thesis by (auto simp: held_by_def realIsPidAlive_iff)
next
  case (Release_of rd ul rf tok hold)
  let ?b = "releaseLegacyBoundedLock rd ul tok w"
  have b: "?b = w" using assms(1,3) Release_of
    by (auto simp: releaseLegacyBoundedLock_def held_by_def split: option.split)
  have "gh_generation hold \<le> top_gen (lw_dir (bw_lock w))"
    using assms(1,3) Release_of by (simp add: held_by_def tidy_above_def)
  with tidy_release [of "bw_lock w" "gh_generation hold" rf] assms Release_of b show ?thesis
    by (auto simp: held_by_def tidy_above_def release_bounded_def on_lock_def realIsPidAlive_iff
        releaseGeneration_def write_empty_def create_file_def split: option.splits)
qed (use assms in \<open>auto simp: held_by_def on_lock_def realIsPidAlive_iff jm_has_set jm_has_delete\<close>)

lemma held_by_run:
  assumes "held_by pid f t w" "bridge_pid (bf_text f) = Some pid" "list_all (outside_event pid (bf_text f) t) es"
  shows "held_by pid f t (fst (bounded_run es w)) \<and> (\<forall>hold. Got hold \<notin> set (snd (bounded_run es w)))"
  using assms(1,3)
proof (induction es arbitrary: w)
  case (Cons e es)
  obtain w1 rs where e: "bounded_step e w = (w1, rs)" by fastforce
  obtain w2 rs' where r: "bounded_run es w1 = (w2, rs')" by fastforce
  from Cons.prems held_by_step [OF _ assms(2) _ e] Cons.IH [of w1] show ?case
    by (auto simp: e r)
qed simp

text \<open>An attempt without faults in a tidy directory: it gets a free top, and one past the lease.\<close>

lemma attempt_free_or_old:
  assumes "tidy (lw_dir w)"
    and "t = top_gen (lw_dir w)"
    and "t = 0 \<or> marked (lw_dir w) t \<or>
         (\<forall>f. jm_get (lw_dir w) (generationPath t) = Some f \<longrightarrow> lw_now w - lk_mtime f > lease)"
  shows "\<exists>w' b. tryAcquireGeneration no_faults pid lease w =
     (w', Acquired \<lparr>gh_generation = t + 1, gh_tookOverStale = b\<rparr>)"
proof -
  let ?b = "\<not> (t = 0 \<or> marked (lw_dir w) t)"
  have "?b \<Longrightarrow> has_gen (lw_dir w) t"
    using assms(1,2) top_gen_attained [of "lw_dir w"] by (simp add: tidy_def)
  then have "?b \<Longrightarrow> pidFileIsStale no_faults w (generationPath t) lease"
    using assms(3) by (auto simp: pidFileIsStale_def jm_has_def split: option.split)
  then have "tryAcquireGeneration no_faults pid lease w =
      create_generation no_faults pid \<lparr>gh_generation = t + 1, gh_tookOverStale = ?b\<rparr> w"
    using assms(2) by (auto simp: tryAcquireGeneration_def Let_def jm_has_iff)
  moreover have "\<exists>w'. create_generation no_faults pid \<lparr>gh_generation = t + 1, gh_tookOverStale = ?b\<rparr> w =
      (w', Acquired \<lparr>gh_generation = t + 1, gh_tookOverStale = ?b\<rparr>)"
    using create_generation_tidy [OF assms(1), of "t + 1" "\<lparr>gh_generation = t + 1, gh_tookOverStale = ?b\<rparr>" pid]
      assms(2) by auto
  ultimately show ?thesis by metis
qed

text \<open>
  C6: From a free lock: the first attempt gets it. Take then any sequence of whole attempts of
  anyone (whichever of their calls fail), releases by older holders, clock readings, and
  processes appearing and dying, as long as the holder's process does not die: no attempt of
  the sequence gets the lock, however far the clock goes beyond the lease. After the sequence
  and the holder's release the next attempt gets it when the top generation is marked released
  or its file is older than the lease; with an empty sequence, at once.
\<close>

theorem bounded_lock_excludes_while_holder_lives:
  assumes "tidy (lw_dir (bw_lock w))" and "bw_bridge w = None"
    and "t = topGeneration (jm_keys (lw_dir (bw_lock w)))"
    and "t = 0 \<or> releasedName t \<in> set (jm_keys (lw_dir (bw_lock w)))"
    and "realIsPidAlive (bw_lock w) pid" and "int pid \<le> 2 ^ 53 - 1"
    and "token = bounded_token pid ms uuid"
    and "list_all (outside_event pid token t) es"
  shows "\<exists>w1 hold.
     tryAcquireBoundedLock no_faults no_bridge_faults None pid lockPath token (w, mem) = ((w1, mem), Got hold) \<and>
     (\<forall>hold'. Got hold' \<notin> set (snd (bounded_run es w1))) \<and>
     (let w2 = release_bounded None None None token hold (fst (bounded_run es w1));
          d = lw_dir (bw_lock w2); top = topGeneration (jm_keys d)
      in (es = [] \<or> releasedName top \<in> set (jm_keys d) \<or>
          (\<forall>f. jm_get d (generationPath top) = Some f \<longrightarrow>
             lw_now (bw_lock w2) - lk_mtime f > UNREADABLE_LOCK_STALE_MS)) \<longrightarrow>
         (\<exists>hold2. snd (tryAcquireBoundedLock no_faults no_bridge_faults None q lockPath tok (w2, mem')) = Got hold2))"
proof -
  obtain l where l: "tryAcquireGeneration no_faults pid UNREADABLE_LOCK_STALE_MS (bw_lock w) =
      (l, Acquired \<lparr>gh_generation = t + 1, gh_tookOverStale = False\<rparr>)"
    and owns: "ownsTopGeneration None (t + 1) l"
    using acquire_excludes_until_release [OF assms(1,3,4,5), of UNREADABLE_LOCK_STALE_MS q]
    by (auto simp: UNREADABLE_LOCK_STALE_MS_def)
  let ?f = "\<lparr>bf_text = token, bf_mtime = lw_now l\<rparr>"
  let ?w1 = "\<lparr>bw_lock = l, bw_bridge = Some ?f\<rparr>"
  let ?hold = "\<lparr>gh_generation = t + 1, gh_tookOverStale = False\<rparr>"
  have got: "tryAcquireBoundedLock no_faults no_bridge_faults None pid lockPath token (w, mem) = ((?w1, mem), Got ?hold)"
    by (rule bounded_attempt_free [OF l assms(2)])
  have name: "bridge_pid (bf_text ?f) = Some pid"
    using assms(5-7) by (simp add: bridge_pid_token realIsPidAlive_iff)
  have "held_by pid ?f t ?w1"
    using attempt_keeps_tidy [OF assms(1) l, of ?hold] assms(5) attempt_procs [of no_faults pid UNREADABLE_LOCK_STALE_MS "bw_lock w"] l
    by (simp add: held_by_def tidy_above_def realIsPidAlive_iff)
  from held_by_run [OF this name] assms(8)
  have held: "held_by pid ?f t (fst (bounded_run es ?w1))" "\<forall>hold'. Got hold' \<notin> set (snd (bounded_run es ?w1))"
    by auto
  let ?w2 = "release_bounded None None None token ?hold (fst (bounded_run es ?w1))"
  let ?l2 = "releaseGeneration None (t + 1) (bw_lock (fst (bounded_run es ?w1)))"
  have w2: "bw_lock ?w2 = ?l2" "bw_bridge ?w2 = None"
    using held(1) by (simp_all add: release_bounded_def releaseLegacyBoundedLock_def on_lock_def held_by_def)
  have tidy: "tidy (lw_dir ?l2)"
    using held(1) tidy_release [of "bw_lock (fst (bounded_run es ?w1))" "t + 1" None] by (simp add: held_by_def tidy_above_def)
  have now: "es = [] \<Longrightarrow> marked (lw_dir ?l2) (top_gen (lw_dir ?l2))"
    using owns tidy_release [of l "t + 1" None] attempt_keeps_tidy [OF assms(1) l, of ?hold]
    by (simp add: ownsTopGeneration_def Let_def release_has split: if_splits)
  have next_gets: "\<exists>hold2. snd (tryAcquireBoundedLock no_faults no_bridge_faults None q lockPath tok (?w2, mem')) = Got hold2"
    if free: "marked (lw_dir ?l2) (top_gen (lw_dir ?l2)) \<or>
        (\<forall>f. jm_get (lw_dir ?l2) (generationPath (top_gen (lw_dir ?l2))) = Some f \<longrightarrow>
             lw_now ?l2 - lk_mtime f > UNREADABLE_LOCK_STALE_MS)"
  proof -
    from attempt_free_or_old [OF tidy refl, of UNREADABLE_LOCK_STALE_MS q] free
    obtain l3 b where "tryAcquireGeneration no_faults q UNREADABLE_LOCK_STALE_MS (bw_lock ?w2) =
        (l3, Acquired \<lparr>gh_generation = top_gen (lw_dir ?l2) + 1, gh_tookOverStale = b\<rparr>)"
      unfolding w2 by blast
    with w2(2) show ?thesis
      by (simp add: tryAcquireBoundedLock_def take_absent_bridge on_lock_def Let_def)
  qed
  have third: "\<exists>hold2. snd (tryAcquireBoundedLock no_faults no_bridge_faults None q lockPath tok (?w2, mem')) = Got hold2"
    if "es = [] \<or> releasedName (top_gen (lw_dir ?l2)) \<in> set (jm_keys (lw_dir ?l2)) \<or>
        (\<forall>f. jm_get (lw_dir ?l2) (generationPath (top_gen (lw_dir ?l2))) = Some f \<longrightarrow>
             lw_now ?l2 - lk_mtime f > UNREADABLE_LOCK_STALE_MS)"
    using that now next_gets unfolding jm_has_iff by blast
  show ?thesis
  proof (intro exI conjI)
    show "tryAcquireBoundedLock no_faults no_bridge_faults None pid lockPath token (w, mem) = ((?w1, mem), Got ?hold)"
      by (rule got)
  qed (use held(2) in blast, unfold Let_def w2(1), intro impI, rule third)
qed

section \<open>The loop ends\<close>

lemma create_bridge_lock: "bw_lock (fst (createLegacyBoundedLock cf ef token w)) = bw_lock w"
  by (simp add: createLegacyBoundedLock_def Let_def split: option.split)

lemma judge_bridge_lock: "bw_lock (fst (judge_bridge bf token w)) = bw_lock w"
  using create_bridge_lock [of "bf_create bf" "bf_write bf" token w]
  by (auto simp: judge_bridge_def split: prod.splits sum.splits bool.splits)

lemma replace_bridge_lock: "bw_lock (fst (replace_bridge bf token w)) = bw_lock w"
  by (simp add: replace_bridge_def create_bridge_lock split: option.split)

lemma take_bridge_lock: "bw_lock (fst (takeLegacyBoundedLock bf token w)) = bw_lock w"
  using judge_bridge_lock [of bf token w]
  by (auto simp: takeLegacyBoundedLock_def replace_bridge_lock split: prod.splits bridge_verdict.splits)

lemma release_now: "lw_now (releaseGeneration f g w) = lw_now w"
  by (simp add: releaseGeneration_def write_empty_def create_file_def split: option.split)

lemma bounded_attempt_now:
  assumes "tryAcquireBoundedLock flt bf rf pid lp tok (w, mem) = ((w', mem'), r)"
  shows "lw_now (bw_lock w') = lw_now (bw_lock w)"
proof -
  obtain l a where t: "tryAcquireGeneration flt pid UNREADABLE_LOCK_STALE_MS (bw_lock w) = (l, a)" by fastforce
  obtain w2 v where v: "takeLegacyBoundedLock bf tok (on_lock (\<lambda>_. l) w) = (w2, v)" by fastforce
  have now: "lw_now l = lw_now (bw_lock w)" "lw_now (bw_lock w2) = lw_now l"
    using attempt_now [of flt pid UNREADABLE_LOCK_STALE_MS "bw_lock w"] t
      take_bridge_lock [of bf tok "on_lock (\<lambda>_. l) w"] v by (simp_all add: on_lock_def)
  show ?thesis
  proof (cases a)
    case (Acquired hold)
    with assms t v now show ?thesis
      by (cases v) (auto simp: tryAcquireBoundedLock_def Let_def on_lock_def release_now split: bool.splits)
  qed (use assms t now in \<open>auto simp: tryAcquireBoundedLock_def on_lock_def\<close>)
qed

lemma bounded_pass_again:
  assumes "bounded_pass call deadline h i st = Inr st'" "0 < bc_retryMs call"
  shows "lw_now (bw_lock (fst st)) < deadline" and "lw_now (bw_lock (fst st)) < lw_now (bw_lock (fst st'))"
proof -
  obtain w mem rec where st: "st = (w, mem, rec)" by (cases st) auto
  obtain w1 mem1 r where t: "tryAcquireBoundedLock (bc_faults call i) (bc_bridge_faults call i) (bc_release_fault call i)
      (bc_pid call) (bc_lockPath call) (bc_token call) (w, mem) = ((w1, mem1), r)"
    by (metis prod.exhaust)
  note now = bounded_attempt_now [OF t]
  show "lw_now (bw_lock (fst st)) < deadline" "lw_now (bw_lock (fst st)) < lw_now (bw_lock (fst st'))"
    using assms t now by (cases r; auto simp: bounded_pass_def st Let_def on_lock_def waited_def split: if_splits)+
qed

lemma bounded_pass_result:
  assumes "bounded_pass call deadline h i st = Inl (out, n, w', mem')"
  shows "n = i" "out = Contention_logged \<Longrightarrow> bc_skipLog call" "out = Timed_out \<Longrightarrow> \<not> bc_skipLog call"
proof -
  obtain w mem rec where st: "st = (w, mem, rec)" by (cases st) auto
  obtain w1 mem1 r where t: "tryAcquireBoundedLock (bc_faults call i) (bc_bridge_faults call i) (bc_release_fault call i)
      (bc_pid call) (bc_lockPath call) (bc_token call) (w, mem) = ((w1, mem1), r)"
    by (metis prod.exhaust)
  show "n = i" "out = Contention_logged \<Longrightarrow> bc_skipLog call" "out = Timed_out \<Longrightarrow> \<not> bc_skipLog call"
    using assms t by (cases r; auto simp: bounded_pass_def st Let_def contended_def split: if_splits)+
qed

text \<open>
  C38: With a positive retry interval the acquisition returns, after at most \<open>waitMs\<close> waits; and a
  contended one reports as the options ask, by \<open>null\<close> or by the timeout error.
\<close>

theorem bounded_wait_ends:
  assumes "0 < bc_retryMs call"
  shows "\<exists>out n w' mem'. acquireBoundedPidFileLock call w mem = Some (out, n, w', mem') \<and>
     int n \<le> max 0 (bc_waitMs call) \<and> (out = Contention_logged \<longrightarrow> bc_skipLog call) \<and>
     (out = Timed_out \<longrightarrow> \<not> bc_skipLog call)"
proof -
  let ?d = "lw_now (bw_lock w) + bc_waitMs call"
  let ?p = "bounded_pass call ?d (remembered (generationDir (bc_lockPath call)) mem)"
  have "timed_retry ?p (\<lambda>st. lw_now (bw_lock (fst st))) ?d"
    by unfold_locales (use bounded_pass_again [OF _ assms] in blast)
  from timed_retry.returns [OF this, of 0 "(w, mem, False)"]
  obtain j v r where r: "retry_loop ?p 0 (w, mem, False) = Some r" "?p j v = Inl r" "int j \<le> max 0 (bc_waitMs call)"
    by auto
  obtain out n w' mem' where r': "r = (out, n, w', mem')" by (cases r) auto
  from bounded_pass_result [OF r(2) [unfolded r']] r r' show ?thesis
    by (auto simp: acquireBoundedPidFileLock_def)
qed

section \<open>Concrete locks\<close>

definition free_bounded :: bounded_world where
  "free_bounded = \<lparr>bw_lock = empty_world, bw_bridge = None\<rparr>"

text \<open>Process 8 holds; process 9 tries before and, in a process born later, after the lease.\<close>

theorem bounded_lock_excludes_while_holder_lives_witness:
  "\<exists>w1 hold.
     tryAcquireBoundedLock no_faults no_bridge_faults None 8 ''s.lock'' (bounded_token 8 50 ''u'')
       (free_bounded, fresh_memory) = ((w1, fresh_memory), Got hold) \<and>
     (\<forall>hold'. Got hold' \<notin> set (snd (bounded_run
        [Attempt_of no_faults no_bridge_faults None 9 ''s.lock'' ''9:60:v'' fresh_memory, Born 10 Refused, Clock_at 99999,
         Gone 9, Attempt_of no_faults no_bridge_faults None 10 ''s.lock'' ''10:99999:x'' fresh_memory] w1)))"
proof -
  let ?es = "[Attempt_of no_faults no_bridge_faults None 9 ''s.lock'' ''9:60:v'' fresh_memory, Born 10 Refused, Clock_at 99999,
       Gone 9, Attempt_of no_faults no_bridge_faults None 10 ''s.lock'' ''10:99999:x'' fresh_memory]"
  have "tidy (lw_dir (bw_lock free_bounded))"
    by (simp add: tidy_def free_bounded_def empty_world_def lock_names_def jm_has_def)
  moreover have "0 = topGeneration (jm_keys (lw_dir (bw_lock free_bounded)))"
    by (simp add: free_bounded_def empty_world_def topGeneration_def)
  moreover have "realIsPidAlive (bw_lock free_bounded) 8" "bw_bridge free_bounded = None"
    by (simp_all add: free_bounded_def empty_world_def realIsPidAlive_def)
  moreover have "list_all (outside_event 8 (bounded_token 8 50 ''u'') 0) ?es" by simp
  moreover have "int 8 \<le> 2 ^ 53 - 1" by simp
  ultimately obtain w1 hold where "tryAcquireBoundedLock no_faults no_bridge_faults None 8 ''s.lock''
      (bounded_token 8 50 ''u'') (free_bounded, fresh_memory) = ((w1, fresh_memory), Got hold)"
    and "\<forall>hold'. Got hold' \<notin> set (snd (bounded_run ?es w1))"
    using bounded_lock_excludes_while_holder_lives [of free_bounded 0 8 "bounded_token 8 50 ''u''" 50 "''u''" ?es
        "''s.lock''" fresh_memory 9 "''t''" fresh_memory]
    by blast
  then show ?thesis by blast
qed

theorem live_bridge_blocks_every_attempt_witness:
  "bw_bridge (free_bounded\<lparr>bw_bridge := Some \<lparr>bf_text = ''8:0:u'', bf_mtime = 0\<rparr>\<rparr>) \<noteq> None \<and>
   (\<forall>hold. snd (tryAcquireBoundedLock no_faults no_bridge_faults None 9 ''s.lock'' ''9:1:v''
      (free_bounded\<lparr>bw_bridge := Some \<lparr>bf_text = ''8:0:u'', bf_mtime = 0\<rparr>\<rparr>, fresh_memory)) \<noteq> Got hold)"
proof -
  let ?w = "free_bounded\<lparr>bw_bridge := Some \<lparr>bf_text = ''8:0:u'', bf_mtime = 0\<rparr>\<rparr>"
  obtain w' m' r where run: "tryAcquireBoundedLock no_faults no_bridge_faults None 9 ''s.lock'' ''9:1:v'' (?w, fresh_memory) = ((w', m'), r)"
    by (metis prod.exhaust)
  have "bridge_pid ''8:0:u'' = Some 8" "realIsPidAlive (bw_lock ?w) 8"
    by code_simp+
  with run live_bridge_blocks_every_attempt [OF _ _ _ run, of "\<lparr>bf_text = ''8:0:u'', bf_mtime = 0\<rparr>" 8]
  show ?thesis by auto
qed

text \<open>Process 7 holds the generation; process 8 retries every 10 ms for 25 ms.\<close>

definition bounded_waiter :: bounded_call where
  "bounded_waiter = \<lparr>bc_lockPath = ''s.lock'', bc_waitMs = 25, bc_retryMs = 10, bc_skipLog = True,
     bc_token = ''8:200:u'', bc_pid = 8, bc_faults = (\<lambda>_. no_faults), bc_bridge_faults = (\<lambda>_. no_bridge_faults),
     bc_release_fault = (\<lambda>_. None), bc_holder_fault = (\<lambda>_. None), bc_others = (\<lambda>_ w. w)\<rparr>"

theorem bounded_wait_ends_witness:
  "0 < bc_retryMs bounded_waiter \<and>
   (\<exists>out n w' mem'. acquireBoundedPidFileLock bounded_waiter \<lparr>bw_lock = held_world 200, bw_bridge = None\<rparr> fresh_memory =
      Some (out, n, w', mem') \<and> int n \<le> 25)"
proof -
  have c: "0 < bc_retryMs bounded_waiter" "bc_waitMs bounded_waiter = 25" by (simp_all add: bounded_waiter_def)
  from c(1) bounded_wait_ends [OF c(1), of "\<lparr>bw_lock = held_world 200, bw_bridge = None\<rparr>" fresh_memory]
  show ?thesis unfolding c(2) by auto
qed

section \<open>A removal that comes late\<close>

text \<open>
  The bridge of a process 5 that died. Process 8 takes generation 1, judges the bridge stale
  and is suspended before it removes it. After the lease process 9 makes a whole attempt: it
  takes generation 2 over, replaces the bridge and is inside, alive. Process 8 wakes, removes
  what the path now names, the bridge of process 9, creates its own and is inside too. So a
  live holder can be superseded while the bridge exists.
\<close>

definition dead_bridge :: bounded_world where
  "dead_bridge = \<lparr>bw_lock = \<lparr>lw_dir = [], lw_inodes = 0, lw_now = 100, lw_procs = [(8, Signalled), (9, Signalled)]\<rparr>,
     bw_bridge = Some \<lparr>bf_text = ''5:1:d'', bf_mtime = 1\<rparr>\<rparr>"

definition suspended_at_removal :: bounded_world where
  "suspended_at_removal =
     fst (judge_bridge no_bridge_faults ''8:100:u''
       (on_lock (\<lambda>l. fst (tryAcquireGeneration no_faults 8 UNREADABLE_LOCK_STALE_MS l)) dead_bridge))"

definition second_inside :: "(bounded_world \<times> lock_memory) \<times> bounded_attempt" where
  "second_inside = tryAcquireBoundedLock no_faults no_bridge_faults None 9 ''s.lock'' ''9:6000:v''
     (on_lock (lw_now_update (\<lambda>_. 6000)) suspended_at_removal, fresh_memory)"

theorem late_removal_admits_two:
  "snd (tryAcquireGeneration no_faults 8 UNREADABLE_LOCK_STALE_MS (bw_lock dead_bridge)) =
     Acquired \<lparr>gh_generation = 1, gh_tookOverStale = False\<rparr>"
  "snd (judge_bridge no_bridge_faults ''8:100:u''
     (on_lock (\<lambda>l. fst (tryAcquireGeneration no_faults 8 UNREADABLE_LOCK_STALE_MS l)) dead_bridge)) = Found_stale"
  "snd second_inside = Got \<lparr>gh_generation = 2, gh_tookOverStale = True\<rparr>"
  "bw_bridge (fst (fst second_inside)) = Some \<lparr>bf_text = ''9:6000:v'', bf_mtime = 6000\<rparr>"
  "realIsPidAlive (bw_lock (fst (fst second_inside))) 9"
  "snd (replace_bridge no_bridge_faults ''8:100:u'' (fst (fst second_inside))) = Inr True"
  by code_simp+

end
