(* ===== verification/Config_Provenance.thy ===== *)
theory Config_Provenance
  imports Config_Values "HOL-Library.List_Lexorder" "HOL-Library.Char_ord"
begin

text \<open>
  Source tiers, per-leaf provenance and its redacted projection:
  \<open>src/clients/config-core/provenance.ts\<close>.

  The tiers are a linear order by \<open>tierPrecedence\<close>, and a three-way class decides who may lift
  a denial. A resolution carries a provenance map keyed by JSON-pointer-shaped strings.
  \<open>provenanceFor\<close> walks a pointer up to its nearest ancestor that has an entry. The
  home-relative rewriting of file names (\<open>homeRelativePath\<close>) is a parameter.
\<close>

section \<open>Tiers\<close>

datatype source_tier = Builtin | Global | Project | NestedProject | Env | Cli | Host

datatype tier_class = DefaultClass | OperatorClass | RepoClass

datatype trust_decision = Trusted | Untrusted | Unknown

definition SOURCE_TIERS :: "source_tier list" where
  "SOURCE_TIERS = [Builtin, Global, Project, NestedProject, Env, Cli, Host]"

fun TIER_CLASS :: "source_tier \<Rightarrow> tier_class" where
  "TIER_CLASS Builtin = DefaultClass"
| "TIER_CLASS Global = OperatorClass"
| "TIER_CLASS Project = RepoClass"
| "TIER_CLASS NestedProject = RepoClass"
| "TIER_CLASS Env = OperatorClass"
| "TIER_CLASS Cli = OperatorClass"
| "TIER_CLASS Host = OperatorClass"

text \<open>\<open>indexOf\<close>: the position of the first equal element, \<open>-1\<close> when there is none.\<close>

fun index_of :: "'a \<Rightarrow> 'a list \<Rightarrow> int" where
  "index_of x [] = -1"
| "index_of x (y # ys) =
     (if x = y then 0 else let i = index_of x ys in if i < 0 then -1 else i + 1)"

definition tierPrecedence :: "source_tier \<Rightarrow> int" where
  "tierPrecedence tier = index_of tier SOURCE_TIERS"

definition isRepoTier :: "source_tier \<Rightarrow> bool" where
  "isRepoTier tier = (TIER_CLASS tier = RepoClass)"

definition isOperatorTier :: "source_tier \<Rightarrow> bool" where
  "isOperatorTier tier = (TIER_CLASS tier = OperatorClass)"

lemma tierPrecedence_simps [simp]:
  "tierPrecedence Builtin = 0" "tierPrecedence Global = 1" "tierPrecedence Project = 2"
  "tierPrecedence NestedProject = 3" "tierPrecedence Env = 4" "tierPrecedence Cli = 5"
  "tierPrecedence Host = 6"
  by (simp_all add: tierPrecedence_def SOURCE_TIERS_def)

lemma tierPrecedence_inject: "tierPrecedence a = tierPrecedence b \<longleftrightarrow> a = b"
  by (cases a; cases b) simp_all

text \<open>Precedence makes the tiers a linear order, which the sorts of the merger use.\<close>

instantiation source_tier :: linorder
begin

definition less_eq_source_tier :: "source_tier \<Rightarrow> source_tier \<Rightarrow> bool" where
  "less_eq_source_tier a b = (tierPrecedence a \<le> tierPrecedence b)"

definition less_source_tier :: "source_tier \<Rightarrow> source_tier \<Rightarrow> bool" where
  "less_source_tier a b = (tierPrecedence a < tierPrecedence b)"

instance
  by standard (auto simp: less_eq_source_tier_def less_source_tier_def tierPrecedence_inject)

end

lemmas tier_order_simps = less_eq_source_tier_def less_source_tier_def

lemma tier_class_cases:
  "isOperatorTier t \<or> isRepoTier t \<or> t = Builtin"
  by (cases t) (simp_all add: isOperatorTier_def isRepoTier_def)

lemma operator_not_repo: "isOperatorTier t \<Longrightarrow> \<not> isRepoTier t"
  by (simp add: isOperatorTier_def isRepoTier_def)

section \<open>Provenance entries\<close>

record provenance =
  prov_tier :: source_tier
  prov_file :: "string option"
  prov_key :: string
  prov_trust :: "trust_decision option"

type_synonym prov_map = "(string \<times> provenance) list"

record resolved =
  res_value :: jval
  res_provenance :: prov_map

text \<open>Code-unit ordering of keys.\<close>

definition compareKeys :: "string \<Rightarrow> string \<Rightarrow> int" where
  "compareKeys left right = (if left < right then -1 else if left > right then 1 else 0)"

record view_entry =
  ve_key :: string
  ve_tier :: source_tier
  ve_file :: "string option"
  ve_trust :: "trust_decision option"

definition view_of :: "(string \<Rightarrow> string) \<Rightarrow> provenance \<Rightarrow> view_entry" where
  "view_of homeRelativePath entry =
     \<lparr>ve_key = prov_key entry, ve_tier = prov_tier entry,
      ve_file = map_option homeRelativePath (prov_file entry), ve_trust = prov_trust entry\<rparr>"

definition provenanceView :: "(string \<Rightarrow> string) \<Rightarrow> resolved \<Rightarrow> view_entry list" where
  "provenanceView homeRelativePath r =
     sort_key ve_key (map (view_of homeRelativePath \<circ> snd) (res_provenance r))"

fun last_slash :: "string \<Rightarrow> int" where
  "last_slash [] = -1"
| "last_slash (c # s) =
     (let i = last_slash s in if i \<ge> 0 then i + 1 else if c = CHR ''/'' then 0 else -1)"

definition parent_pointer :: "string \<Rightarrow> string" where
  "parent_pointer candidate =
     (let cut = last_slash candidate in if cut \<le> 0 then [] else take (nat cut) candidate)"

lemma last_slash_less: "last_slash s < int (length s)"
  by (induction s) (auto simp: Let_def)

lemma parent_pointer_shorter: "s \<noteq> [] \<Longrightarrow> length (parent_pointer s) < length s"
  using last_slash_less [of s] by (auto simp: parent_pointer_def Let_def)

function provenanceFor :: "prov_map \<Rightarrow> string \<Rightarrow> provenance option" where
  "provenanceFor m candidate =
     (case map_of m candidate of
        Some entry \<Rightarrow> Some entry
      | None \<Rightarrow> if candidate = [] then None else provenanceFor m (parent_pointer candidate))"
  by pat_completeness auto
termination
  by (relation "measure (\<lambda>(m, c). length c)") (simp_all add: parent_pointer_shorter)

declare provenanceFor.simps [simp del]

section \<open>Lemmas\<close>

text \<open>The pointer of a list of segments, as the merger builds it, one segment at a time.\<close>

definition pointer_of :: "string list \<Rightarrow> string" where
  "pointer_of segs = concat (map ((#) CHR ''/'') segs)"

lemma pointer_of_simps [simp]:
  "pointer_of [] = []"
  "pointer_of (s # segs) = CHR ''/'' # s @ pointer_of segs"
  "pointer_of (segs @ segs') = pointer_of segs @ pointer_of segs'"
  by (simp_all add: pointer_of_def)

lemma last_slash_none: "CHR ''/'' \<notin> set s \<Longrightarrow> last_slash s = -1"
  by (induction s) auto

lemma last_slash_append:
  "CHR ''/'' \<notin> set s \<Longrightarrow> last_slash (p @ CHR ''/'' # s) = int (length p)"
  by (induction p) (simp_all add: last_slash_none Let_def)

lemma parent_pointer_snoc:
  "CHR ''/'' \<notin> set s \<Longrightarrow> parent_pointer (pointer_of (segs @ [s])) = pointer_of segs"
  by (simp add: parent_pointer_def last_slash_append)

text \<open>The nearest ancestor of a segment path that satisfies a predicate.\<close>

fun nearest :: "('a list \<Rightarrow> 'b option) \<Rightarrow> 'a list \<Rightarrow> nat \<Rightarrow> 'b option" where
  "nearest f segs 0 = f []"
| "nearest f segs (Suc n) =
     (case f (take (Suc n) segs) of Some y \<Rightarrow> Some y | None \<Rightarrow> nearest f segs n)"

lemma nearest_append: "n \<le> length segs \<Longrightarrow> nearest f (segs @ rest) n = nearest f segs n"
  by (induction n) (simp_all split: option.splits)

lemma provenanceFor_nearest:
  "list_all (\<lambda>s. CHR ''/'' \<notin> set s) segs \<Longrightarrow>
     provenanceFor m (pointer_of segs) = nearest (\<lambda>p. map_of m (pointer_of p)) segs (length segs)"
proof (induction segs rule: rev_induct)
  case Nil
  then show ?case by (simp add: provenanceFor.simps split: option.splits)
next
  case (snoc s segs)
  then have IH: "provenanceFor m (pointer_of segs) = nearest (\<lambda>p. map_of m (pointer_of p)) segs (length segs)"
    and s: "CHR ''/'' \<notin> set s" by simp_all
  have "provenanceFor m (pointer_of (segs @ [s])) =
      (case map_of m (pointer_of (segs @ [s])) of Some e \<Rightarrow> Some e | None \<Rightarrow> provenanceFor m (pointer_of segs))"
    by (subst provenanceFor.simps) (simp add: parent_pointer_snoc [OF s, simplified] split: option.splits)
  then show ?case by (simp add: IH nearest_append split: option.splits)
qed

lemma nearest_SomeD:
  "nearest f segs n = Some y \<Longrightarrow>
     \<exists>k \<le> n. f (take k segs) = Some y \<and> (\<forall>j. k < j \<and> j \<le> n \<longrightarrow> f (take j segs) = None)"
proof (induction n)
  case 0
  then show ?case by simp
next
  case (Suc n)
  show ?case
  proof (cases "f (take (Suc n) segs)")
    case None
    with Suc obtain k where "k \<le> n" "f (take k segs) = Some y"
      "\<forall>j. k < j \<and> j \<le> n \<longrightarrow> f (take j segs) = None" by auto
    with None show ?thesis by (metis le_Suc_eq)
  qed (use Suc.prems in auto)
qed

lemma nearest_NoneD: "nearest f segs n = None \<Longrightarrow> k \<le> n \<Longrightarrow> f (take k segs) = None"
  by (induction n) (auto simp: le_Suc_eq split: option.splits)

lemma nearest_eq:
  assumes "k \<le> n" and "f (take k segs) = Some y"
    and "\<forall>j. k < j \<and> j \<le> n \<longrightarrow> f (take j segs) = None"
  shows "nearest f segs n = Some y"
  using assms by (induction n) (auto simp: le_Suc_eq)

lemma last_slash_ge: "int (length x) \<le> last_slash (x @ CHR ''/'' # z)"
  by (induction x) (auto simp: Let_def)

text \<open>An entry at any pointer governs everything below it, whatever characters the names hold.\<close>

lemma provenanceFor_below:
  "map_of m x \<noteq> None \<Longrightarrow> y = [] \<or> hd y = CHR ''/'' \<Longrightarrow> provenanceFor m (x @ y) \<noteq> None"
proof (induction y rule: length_induct)
  case (1 y)
  show ?case
  proof (cases "map_of m (x @ y) = None \<and> y \<noteq> []")
    case True
    with 1 obtain z where z: "y = CHR ''/'' # z" by (cases y) auto
    define cut where "cut = last_slash (x @ y)"
    have cut: "int (length x) \<le> cut" "cut < int (length (x @ y))"
      using last_slash_ge [of x z] last_slash_less [of "x @ y"] by (simp_all add: cut_def z)
    define y' where "y' = take (nat cut - length x) y"
    have "x = []" if "cut \<le> 0" using cut that by (cases x) auto
    then have parent: "parent_pointer (x @ y) = x @ y'"
      using cut unfolding parent_pointer_def cut_def [symmetric] Let_def by (auto simp: y'_def)
    have "length y' < length y" using cut by (auto simp: y'_def)
    moreover have "y' = [] \<or> hd y' = CHR ''/''" by (cases "nat cut - length x") (simp_all add: y'_def z)
    ultimately have "provenanceFor m (x @ y') \<noteq> None" using 1 by blast
    with True parent show ?thesis by (subst provenanceFor.simps) simp
  qed (use 1 in \<open>subst provenanceFor.simps; auto\<close>)
qed

lemma provenanceFor_in: "provenanceFor m x = Some e \<Longrightarrow> \<exists>k. (k, e) \<in> set m"
proof (induction m x rule: provenanceFor.induct)
  case (1 m candidate)
  then show ?case
    by (subst (asm) (2) provenanceFor.simps) (auto dest: map_of_SomeD split: option.splits if_splits)
qed

section \<open>Properties\<close>

text \<open>
  asking which source governs a pointer answers with the entry of its longest prefix that
  has one (the pointer itself, else the nearest ancestor, up to the document root), and with
  nothing exactly when no prefix has an entry. Segments contain no slash.
\<close>

theorem provenanceFor_nearest_ancestor:
  assumes "list_all (\<lambda>s. CHR ''/'' \<notin> set s) segs"
  shows "provenanceFor m (pointer_of segs) = Some e \<longleftrightarrow>
      (\<exists>k \<le> length segs. map_of m (pointer_of (take k segs)) = Some e \<and>
         (\<forall>j. k < j \<and> j \<le> length segs \<longrightarrow> map_of m (pointer_of (take j segs)) = None))"
    (is "_ \<longleftrightarrow> ?near")
proof -
  let ?f = "\<lambda>p. map_of m (pointer_of p)"
  have "nearest ?f segs (length segs) = Some e \<longleftrightarrow> ?near"
    using nearest_SomeD [of ?f segs "length segs" e] nearest_eq [of _ "length segs" ?f segs e]
    by blast
  then show ?thesis by (simp only: provenanceFor_nearest [OF assms])
qed

theorem provenanceFor_nearest_ancestor_witness:
  "provenanceFor
     [(''/lsp'', \<lparr>prov_tier = Global, prov_file = None, prov_key = ''/lsp'', prov_trust = None\<rparr>),
      ([], \<lparr>prov_tier = Builtin, prov_file = None, prov_key = [], prov_trust = None\<rparr>)]
     ''/lsp/servers/0'' =
   Some \<lparr>prov_tier = Global, prov_file = None, prov_key = ''/lsp'', prov_trust = None\<rparr>"
   (is "provenanceFor ?m _ = Some ?e")
proof -
  let ?segs = "[''lsp'', ''servers'', ''0'']"
  have slashless: "list_all (\<lambda>s. CHR ''/'' \<notin> set s) ?segs" by simp
  have "map_of ?m (pointer_of (take j ?segs)) = None" if "1 < j \<and> j \<le> length ?segs" for j
  proof -
    from that have "j = 2 \<or> j = 3" by auto
    then show ?thesis by auto
  qed
  moreover have "map_of ?m (pointer_of (take 1 ?segs)) = Some ?e" by simp
  moreover have "1 \<le> length ?segs" by simp
  ultimately have "provenanceFor ?m (pointer_of ?segs) = Some ?e"
    unfolding provenanceFor_nearest_ancestor [OF slashless] by blast
  then show ?thesis by simp
qed

end
