(* ===== verification/Degradation_Ledger.thy ===== *)
theory Degradation_Ledger
  imports Line_Evidence Config_Values
begin

text \<open>
  The degradation ledger, \<open>src/clients/degradation-ledger.ts\<close>: bounded, process-local telemetry
  with exact counts, a once-per-session latch and durable rows at powers of two.

  A field arrives as the text \<open>normalizeForLedger\<close> gives it (a string is its own). The key of an
  event is a SHA-256 of its kind and subject: a parameter \<open>digest\<close>; that it has no collision
  is a hypothesis where a statement needs it. What the module logs durably is the list
  \<open>lg_rows\<close>. The rows the summary folds in from other modules are not modelled.
\<close>

section \<open>Fields\<close>

definition LEDGER_MAX :: nat where "LEDGER_MAX = 200"
definition KIND_ENTRIES :: nat where "KIND_ENTRIES = 20"
definition MAX_DISTINCT_KINDS :: nat where "MAX_DISTINCT_KINDS = 32"
definition MAX_METADATA_KEYS :: nat where "MAX_METADATA_KEYS = 8"
definition OVERFLOW_KIND :: js_text where "OVERFLOW_KIND = units ''other''"
definition ELLIPSIS :: code_unit where "ELLIPSIS = 0x2026"

definition truncate_text :: "js_text \<Rightarrow> js_text" where
  "truncate_text s = (if length s > LEDGER_MAX then take LEDGER_MAX s @ [ELLIPSIS] else s)"

text \<open>The white space \<open>trim()\<close> strips: a text is blank when it has nothing else.\<close>

definition js_space16 :: "code_unit \<Rightarrow> bool" where
  "js_space16 c \<longleftrightarrow> (9 \<le> c \<and> c \<le> 13) \<or> c = 32 \<or> c = 160 \<or> c = 0x1680 \<or> (0x2000 \<le> c \<and> c \<le> 0x200A) \<or>
     c = 0x2028 \<or> c = 0x2029 \<or> c = 0x202F \<or> c = 0x205F \<or> c = 0x3000 \<or> c = 0xFEFF"

definition blank :: "js_text \<Rightarrow> bool" where
  "blank s = list_all js_space16 s"

definition subjectForLedger :: "js_text \<Rightarrow> js_text" where
  "subjectForLedger v = (let subject = truncate_text v in if blank subject then units ''unknown'' else subject)"

definition subjectIdentity :: "js_text \<Rightarrow> js_text" where
  "subjectIdentity v = (if blank v then units ''unknown'' else v)"

text \<open>\<open>value > 0 && (value & (value - 1)) === 0\<close>, on the 32 bits of JavaScript's \<open>&\<close>.\<close>

definition isPowerOfTwo :: "nat \<Rightarrow> bool" where
  "isPowerOfTwo v \<longleftrightarrow> v > 0 \<and> (of_nat v :: 32 word) AND of_nat (v - 1) = 0"

section \<open>State\<close>

record ledger_group =
  gr_count :: nat
  gr_entries :: "(js_text \<times> js_text) list"

record durable_row =
  dr_kind :: js_text
  dr_subject :: js_text
  dr_count :: nat
  dr_generation :: nat
  dr_metadata :: "(js_text \<times> js_text) list"
  dr_dropped :: nat

record 'k ledger =
  lg_groups :: "(js_text, ledger_group) jmap"
  lg_onceKeys :: "'k list"
  lg_tallies :: "('k, nat) jmap"
  lg_generation :: nat
  lg_rows :: "durable_row list"

definition new_ledger :: "'k ledger" where
  "new_ledger = \<lparr>lg_groups = [], lg_onceKeys = [], lg_tallies = [], lg_generation = 0, lg_rows = []\<rparr>"

record degradation =
  dg_kind :: js_text
  dg_subject :: js_text
  dg_reason :: js_text
  dg_metadata :: "(js_text \<times> js_text) list"

section \<open>Operations\<close>

definition boundedKind :: "js_text \<Rightarrow> 'k ledger \<Rightarrow> js_text" where
  "boundedKind v lg =
     (let kind = truncate_text v
      in if jm_has (lg_groups lg) kind \<or> kind = OVERFLOW_KIND then kind
         else if length (lg_groups lg) < MAX_DISTINCT_KINDS - 1 then kind else OVERFLOW_KIND)"

text \<open>The group of a kind, created empty when there is none.\<close>

definition group_of :: "js_text \<Rightarrow> 'k ledger \<Rightarrow> ledger_group" where
  "group_of kind lg =
     (case jm_get (lg_groups lg) kind of Some g \<Rightarrow> g | None \<Rightarrow> \<lparr>gr_count = 0, gr_entries = []\<rparr>)"

definition put_group :: "js_text \<Rightarrow> ledger_group \<Rightarrow> 'k ledger \<Rightarrow> 'k ledger" where
  "put_group kind g lg = lg\<lparr>lg_groups := jm_set kind g (lg_groups lg)\<rparr>"

text \<open>\<open>push\<close> and the \<open>shift\<close> that bounds the array.\<close>

definition push_entry :: "js_text \<times> js_text \<Rightarrow> (js_text \<times> js_text) list \<Rightarrow> (js_text \<times> js_text) list" where
  "push_entry e es = (let pushed = es @ [e] in if length pushed > KIND_ENTRIES then tl pushed else pushed)"

definition boundLedgerMetadata :: "(js_text \<times> js_text) list \<Rightarrow> (js_text \<times> js_text) list \<times> nat" where
  "boundLedgerMetadata metadata =
     (let kept = take MAX_METADATA_KEYS metadata
      in (map (\<lambda>(k, v). (k, truncate_text v)) kept, length metadata - length kept))"

definition logDurableDegradation ::
    "js_text \<Rightarrow> js_text \<Rightarrow> nat \<Rightarrow> (js_text \<times> js_text) list \<Rightarrow> 'k ledger \<Rightarrow> 'k ledger" where
  "logDurableDegradation kind subject cnt metadata lg =
     lg\<lparr>lg_rows := lg_rows lg @
       [\<lparr>dr_kind = kind, dr_subject = subject, dr_count = cnt, dr_generation = lg_generation lg,
         dr_metadata = fst (boundLedgerMetadata metadata), dr_dropped = snd (boundLedgerMetadata metadata)\<rparr>]\<rparr>"

definition recordDegradation :: "degradation \<Rightarrow> 'k ledger \<Rightarrow> 'k ledger \<times> bool" where
  "recordDegradation r lg =
     (let kind = boundedKind (dg_kind r) lg;
          subject = subjectForLedger (dg_subject r);
          reason = truncate_text (dg_reason r);
          g = group_of kind lg;
          admitted = length (gr_entries g) < KIND_ENTRIES
      in (put_group kind \<lparr>gr_count = gr_count g + 1, gr_entries = push_entry (subject, reason) (gr_entries g)\<rparr> lg,
          admitted))"

definition recordDegradationOnce :: "(js_text \<Rightarrow> js_text \<Rightarrow> 'k) \<Rightarrow> degradation \<Rightarrow> 'k ledger \<Rightarrow> 'k ledger \<times> bool" where
  "recordDegradationOnce digest r lg =
     (let kindText = truncate_text (dg_kind r);
          subjectText = subjectIdentity (dg_subject r);
          key = digest kindText subjectText
      in if key \<in> set (lg_onceKeys lg) then (lg, False)
         else let lg1 = lg\<lparr>lg_onceKeys := lg_onceKeys lg @ [key]\<rparr>;
                  kind = boundedKind kindText lg1;
                  subject = subjectForLedger subjectText;
                  (lg2, admitted) =
                    recordDegradation \<lparr>dg_kind = kind, dg_subject = subject, dg_reason = dg_reason r, dg_metadata = []\<rparr> lg1
              in (if admitted then logDurableDegradation kind subject 1 (dg_metadata r) lg2 else lg2, True))"

definition counted_reason :: "js_text \<Rightarrow> nat \<Rightarrow> js_text" where
  "counted_reason reason cnt = reason @ units ('' (count: '' @ show_nat cnt @ '')'')"

text \<open>\<open>findIndex\<close> and \<open>splice(existing, 1)\<close>: the first entry of the subject goes.\<close>

fun drop_subject :: "js_text \<Rightarrow> (js_text \<times> js_text) list \<Rightarrow> (js_text \<times> js_text) list" where
  "drop_subject s [] = []"
| "drop_subject s (e # es) = (if fst e = s then es else e # drop_subject s es)"

definition incrementDegradationCount ::
    "(js_text \<Rightarrow> js_text \<Rightarrow> 'k) \<Rightarrow> degradation \<Rightarrow> 'k ledger \<Rightarrow> 'k ledger \<times> bool" where
  "incrementDegradationCount digest r lg =
     (let kindText = truncate_text (dg_kind r);
          subjectText = subjectIdentity (dg_subject r);
          kind = boundedKind kindText lg;
          subject = subjectForLedger subjectText;
          reason = truncate_text (dg_reason r);
          key = digest kindText subjectText;
          cnt = (case jm_get (lg_tallies lg) key of Some n \<Rightarrow> n | None \<Rightarrow> 0) + 1;
          lg1 = lg\<lparr>lg_tallies := jm_set key cnt (lg_tallies lg)\<rparr>;
          g = group_of kind lg1;
          present = (\<exists>e \<in> set (gr_entries g). fst e = subject);
          admitted = (present \<or> length (gr_entries g) < KIND_ENTRIES);
          entries = push_entry (subject, counted_reason reason cnt) (drop_subject subject (gr_entries g));
          lg2 = put_group kind \<lparr>gr_count = gr_count g + 1, gr_entries = entries\<rparr> lg1
      in (if admitted \<and> isPowerOfTwo cnt then logDurableDegradation kind subject cnt (dg_metadata r) lg2 else lg2,
          cnt = 1))"

definition resetDegradationLedger :: "'k ledger \<Rightarrow> 'k ledger" where
  "resetDegradationLedger lg =
     lg\<lparr>lg_groups := [], lg_onceKeys := [], lg_tallies := [], lg_generation := lg_generation lg + 1\<rparr>"

record degradation_group =
  sm_kind :: js_text
  sm_count :: nat
  sm_droppedCount :: nat
  sm_latestReasons :: "(js_text \<times> js_text) list"

text \<open>The groups of \<open>getDegradationSummary\<close> the ledger itself holds.\<close>

definition ledger_summary :: "'k ledger \<Rightarrow> degradation_group list" where
  "ledger_summary lg =
     map (\<lambda>(kind, g). \<lparr>sm_kind = kind, sm_count = gr_count g,
       sm_droppedCount = gr_count g - length (gr_entries g), sm_latestReasons = gr_entries g\<rparr>) (lg_groups lg)"

datatype ledger_op =
    Record degradation
  | Once degradation
  | Increment degradation
  | Reset_ledger

fun ledger_step :: "(js_text \<Rightarrow> js_text \<Rightarrow> 'k) \<Rightarrow> ledger_op \<Rightarrow> 'k ledger \<Rightarrow> 'k ledger" where
  "ledger_step digest (Record r) lg = fst (recordDegradation r lg)"
| "ledger_step digest (Once r) lg = fst (recordDegradationOnce digest r lg)"
| "ledger_step digest (Increment r) lg = fst (incrementDegradationCount digest r lg)"
| "ledger_step digest Reset_ledger lg = resetDegradationLedger lg"

definition ledger_run :: "(js_text \<Rightarrow> js_text \<Rightarrow> 'k) \<Rightarrow> ledger_op list \<Rightarrow> 'k ledger \<Rightarrow> 'k ledger" where
  "ledger_run digest = fold (ledger_step digest)"

section \<open>The bounds\<close>

definition group_ok :: "ledger_group \<Rightarrow> bool" where
  "group_ok g \<longleftrightarrow> length (gr_entries g) \<le> KIND_ENTRIES \<and> length (gr_entries g) \<le> gr_count g \<and>
     (\<forall>e \<in> set (gr_entries g). length (fst e) \<le> LEDGER_MAX + 1 \<and> \<not> blank (fst e))"

definition ledger_ok :: "'k ledger \<Rightarrow> bool" where
  "ledger_ok lg \<longleftrightarrow> jm_wf (lg_groups lg) \<and>
     length (jm_delete OVERFLOW_KIND (lg_groups lg)) \<le> MAX_DISTINCT_KINDS - 1 \<and>
     (\<forall>(kind, g) \<in> set (lg_groups lg). length kind \<le> LEDGER_MAX + 1 \<and> group_ok g)"

lemma length_truncate [simp]: "length (truncate_text s) \<le> LEDGER_MAX + 1"
  by (simp add: truncate_text_def)

lemma truncate_idem [simp]: "truncate_text (truncate_text s) = truncate_text s"
  by (simp add: truncate_text_def)

lemma not_blank_unknown [simp]: "\<not> blank (units ''unknown'')"
  by (simp add: blank_def units_def js_space16_def)

lemma length_unknown: "length (units ''unknown'') \<le> LEDGER_MAX + 1"
  by (simp add: units_def LEDGER_MAX_def)

lemma subjectForLedger_ok: "length (subjectForLedger s) \<le> LEDGER_MAX + 1 \<and> \<not> blank (subjectForLedger s)"
  using length_truncate [of s] length_unknown by (simp add: subjectForLedger_def Let_def)

lemma length_push_entry: "length es \<le> KIND_ENTRIES \<Longrightarrow> length (push_entry e es) \<le> KIND_ENTRIES \<and> length (push_entry e es) \<le> Suc (length es)"
  by (auto simp: push_entry_def Let_def)

lemma set_push_entry: "set (push_entry e es) \<subseteq> insert e (set es)"
  by (cases es) (auto simp: push_entry_def Let_def)

lemma drop_subject_sub: "set (drop_subject s es) \<subseteq> set es" "length (drop_subject s es) \<le> length es"
  by (induction es) auto

lemma group_ok_push:
  assumes "group_ok g" "length es \<le> length (gr_entries g)" "set es \<subseteq> set (gr_entries g)"
  shows "group_ok \<lparr>gr_count = gr_count g + 1, gr_entries = push_entry (subjectForLedger s, reason) es\<rparr>"
proof -
  have "length es \<le> KIND_ENTRIES" "length es \<le> gr_count g" using assms by (auto simp: group_ok_def)
  then have "length (push_entry (subjectForLedger s, reason) es) \<le> KIND_ENTRIES"
    "length (push_entry (subjectForLedger s, reason) es) \<le> gr_count g + 1"
    using length_push_entry [of es "(subjectForLedger s, reason)"] by auto
  moreover have "length (fst e) \<le> LEDGER_MAX + 1 \<and> \<not> blank (fst e)"
    if "e \<in> set (push_entry (subjectForLedger s, reason) es)" for e
    using that set_push_entry [of "(subjectForLedger s, reason)" es] assms(1,3) subjectForLedger_ok [of s]
    unfolding group_ok_def by force
  ultimately show ?thesis by (simp add: group_ok_def)
qed

lemma group_of_ok: "ledger_ok lg \<Longrightarrow> group_ok (group_of kind lg)"
  by (auto simp: group_of_def group_ok_def ledger_ok_def dest!: jm_get_in split: option.split)

lemma boundedKind_cases:
  "boundedKind v lg = OVERFLOW_KIND \<or> jm_has (lg_groups lg) (boundedKind v lg) \<or>
     length (lg_groups lg) < MAX_DISTINCT_KINDS - 1"
  by (auto simp: boundedKind_def Let_def)

lemma length_boundedKind: "length (boundedKind v lg) \<le> LEDGER_MAX + 1"
  using length_truncate [of v] by (auto simp: boundedKind_def Let_def OVERFLOW_KIND_def units_def LEDGER_MAX_def)

lemma put_group_ok:
  assumes ok: "ledger_ok lg" and g: "group_ok g" and k: "kind = boundedKind v lg"
  shows "ledger_ok (put_group kind g lg)"
proof -
  let ?m = "lg_groups lg"
  have "length (jm_delete OVERFLOW_KIND (jm_set kind g ?m)) \<le> MAX_DISTINCT_KINDS - 1"
  proof (cases "kind = OVERFLOW_KIND")
    case True
    then have "map fst (jm_delete OVERFLOW_KIND (jm_set kind g ?m)) = map fst (jm_delete OVERFLOW_KIND ?m)"
      by (simp add: jm_keys_delete jm_keys_set)
    then have "length (jm_delete OVERFLOW_KIND (jm_set kind g ?m)) = length (jm_delete OVERFLOW_KIND ?m)"
      by (metis length_map)
    with ok show ?thesis by (simp add: ledger_ok_def)
  next
    case other: False
    show ?thesis
    proof (cases "kind \<in> set (jm_keys ?m)")
      case True
      then have "map fst (jm_delete OVERFLOW_KIND (jm_set kind g ?m)) = map fst (jm_delete OVERFLOW_KIND ?m)"
        by (simp add: jm_keys_delete jm_keys_set)
      then have "length (jm_delete OVERFLOW_KIND (jm_set kind g ?m)) = length (jm_delete OVERFLOW_KIND ?m)"
        by (metis length_map)
      with ok show ?thesis by (simp add: ledger_ok_def)
    next
      case False
      then have "length ?m < MAX_DISTINCT_KINDS - 1"
        using boundedKind_cases [of v lg] other k by (auto simp: jm_has_iff)
      moreover have "length (jm_delete OVERFLOW_KIND (jm_set kind g ?m)) \<le> Suc (length ?m)"
        using length_jm_delete [of OVERFLOW_KIND "jm_set kind g ?m"] length_jm_set [of kind g ?m]
        by (auto split: if_splits)
      ultimately show ?thesis by simp
    qed
  qed
  moreover have "jm_wf (jm_set kind g ?m)" using ok jm.wf_put by (auto simp: ledger_ok_def)
  moreover have "length kind' \<le> LEDGER_MAX + 1 \<and> group_ok g'" if "(kind', g') \<in> set (jm_set kind g ?m)" for kind' g'
  proof -
    from that calculation(2) have "jm_get (jm_set kind g ?m) kind' = Some g'" by (rule jm_in_get [rotated])
    then show ?thesis
      using ok g k length_boundedKind [of v lg] unfolding ledger_ok_def
      by (auto simp: jm_get_set split: if_splits dest!: jm_get_in)
  qed
  ultimately show ?thesis by (auto simp: ledger_ok_def put_group_def)
qed

lemma ledger_ok_fields [simp]:
  "ledger_ok (lg\<lparr>lg_onceKeys := ks\<rparr>) = ledger_ok lg"
  "ledger_ok (lg\<lparr>lg_tallies := ts\<rparr>) = ledger_ok lg"
  "ledger_ok (logDurableDegradation k sb n m lg) = ledger_ok lg"
  "boundedKind v (lg\<lparr>lg_onceKeys := ks\<rparr>) = boundedKind v lg"
  "boundedKind v (lg\<lparr>lg_tallies := ts\<rparr>) = boundedKind v lg"
  "group_of k (lg\<lparr>lg_tallies := ts\<rparr>) = group_of k lg"
  by (simp_all add: ledger_ok_def logDurableDegradation_def boundedKind_def group_of_def Let_def)

lemma record_ok: "ledger_ok lg \<Longrightarrow> ledger_ok (fst (recordDegradation r lg))"
  unfolding recordDegradation_def Let_def fst_conv
  by (rule put_group_ok [OF _ group_ok_push [OF group_of_ok] refl]) auto

lemma once_ok:
  assumes "ledger_ok lg"
  shows "ledger_ok (fst (recordDegradationOnce digest r lg))"
proof -
  have "ledger_ok (fst (recordDegradation r' (lg\<lparr>lg_onceKeys := ks\<rparr>)))" for r' ks
    using assms by (intro record_ok) simp
  then show ?thesis
    using assms by (simp add: recordDegradationOnce_def Let_def split: prod.split) (metis fst_conv)
qed

lemma increment_ok: "ledger_ok lg \<Longrightarrow> ledger_ok (fst (incrementDegradationCount digest r lg))"
proof -
  assume ok: "ledger_ok lg"
  let ?kind = "boundedKind (truncate_text (dg_kind r)) lg" and ?s = "subjectIdentity (dg_subject r)"
  have "ledger_ok (put_group ?kind \<lparr>gr_count = gr_count (group_of ?kind lg) + 1,
      gr_entries = push_entry (subjectForLedger ?s, reason) (drop_subject sb (gr_entries (group_of ?kind lg)))\<rparr>
      (lg\<lparr>lg_tallies := ts\<rparr>))" for reason sb ts
    using ok by (intro put_group_ok [OF _ group_ok_push [OF group_of_ok], where v = "truncate_text (dg_kind r)"])
      (auto simp: drop_subject_sub dest: subsetD [OF drop_subject_sub(1)])
  then show ?thesis by (simp add: incrementDegradationCount_def Let_def)
qed

lemma ledger_step_ok: "ledger_ok lg \<Longrightarrow> ledger_ok (ledger_step digest op lg)"
  by (cases op) (simp_all add: record_ok once_ok increment_ok, simp add: resetDegradationLedger_def ledger_ok_def)

interpretation ledger: event_machine "ledger_step digest" ledger_ok for digest :: "js_text \<Rightarrow> js_text \<Rightarrow> 'k"
  by unfold_locales (rule ledger_step_ok)

lemma ledger_ok_new: "ledger_ok new_ledger"
  by (simp add: ledger_ok_def new_ledger_def)

lemma distinct_filter_one: "distinct xs \<Longrightarrow> length (filter (\<lambda>x. x = k) xs) \<le> 1"
  by (induction xs) (auto simp: filter_empty_conv)

text \<open>
  C39: After every sequence of operations the ledger is bounded: 32 kinds, 20 entries each, no
  kind or subject longer than 201 code units, no blank subject.
\<close>

theorem ledger_stays_bounded:
  assumes "lg = ledger_run digest ops new_ledger"
  shows "length (lg_groups lg) \<le> MAX_DISTINCT_KINDS \<and>
    (\<forall>(kind, g) \<in> set (lg_groups lg). length kind \<le> 201 \<and> length (gr_entries g) \<le> 20 \<and>
       length (gr_entries g) \<le> gr_count g \<and>
       (\<forall>(subject, reason) \<in> set (gr_entries g). length subject \<le> 201 \<and> \<not> blank subject))"
proof -
  have ok: "ledger_ok lg"
    unfolding assms ledger_run_def by (rule ledger.run_inv [OF ledger_ok_new])
  have "length (lg_groups lg) \<le> Suc (length (jm_delete k (lg_groups lg)))" for k
  proof -
    have "distinct (jm_keys (lg_groups lg))" using ok by (simp add: ledger_ok_def jm_wf_def)
    then have "length (filter (\<lambda>x. x = k) (jm_keys (lg_groups lg))) \<le> 1" by (rule distinct_filter_one)
    then show ?thesis
      using sum_length_filter_compl [of "\<lambda>x. x = k" "jm_keys (lg_groups lg)"]
      unfolding jm_keys_delete [symmetric] by (metis (no_types, lifting) add.commute length_map nat_add_left_cancel_le plus_1_eq_Suc)
  qed
  from this [of OVERFLOW_KIND] ok show ?thesis
    unfolding ledger_ok_def group_ok_def by (fastforce simp: MAX_DISTINCT_KINDS_def LEDGER_MAX_def KIND_ENTRIES_def)
qed

section \<open>Exact counts\<close>

text \<open>The ledger without its bounds: the number of events, what was told once, the tally per event.\<close>

record 'k exact_ledger =
  ex_total :: nat
  ex_once :: "'k set"
  ex_tally :: "'k \<Rightarrow> nat"

definition event_key :: "(js_text \<Rightarrow> js_text \<Rightarrow> 'k) \<Rightarrow> degradation \<Rightarrow> 'k" where
  "event_key digest r = digest (truncate_text (dg_kind r)) (subjectIdentity (dg_subject r))"

fun exact_step :: "(js_text \<Rightarrow> js_text \<Rightarrow> 'k) \<Rightarrow> ledger_op \<Rightarrow> 'k exact_ledger \<Rightarrow> 'k exact_ledger" where
  "exact_step digest (Record r) x = x\<lparr>ex_total := ex_total x + 1\<rparr>"
| "exact_step digest (Once r) x =
     (if event_key digest r \<in> ex_once x then x
      else x\<lparr>ex_total := ex_total x + 1, ex_once := insert (event_key digest r) (ex_once x)\<rparr>)"
| "exact_step digest (Increment r) x =
     x\<lparr>ex_total := ex_total x + 1,
       ex_tally := (ex_tally x)(event_key digest r := ex_tally x (event_key digest r) + 1)\<rparr>"
| "exact_step digest Reset_ledger x = \<lparr>ex_total = 0, ex_once = {}, ex_tally = (\<lambda>_. 0)\<rparr>"

definition total_count :: "'k ledger \<Rightarrow> nat" where
  "total_count lg = sum_list (map (gr_count \<circ> snd) (lg_groups lg))"

definition exact_of :: "'k ledger \<Rightarrow> 'k exact_ledger" where
  "exact_of lg = \<lparr>ex_total = total_count lg, ex_once = set (lg_onceKeys lg),
     ex_tally = (\<lambda>k. case jm_get (lg_tallies lg) k of Some n \<Rightarrow> n | None \<Rightarrow> 0)\<rparr>"

lemma sum_jm_set:
  "jm_wf m \<Longrightarrow> sum_list (map (f \<circ> snd) (jm_set k v m)) + (case jm_get m k of Some w \<Rightarrow> f w | None \<Rightarrow> 0) =
     sum_list (map (f \<circ> snd) m) + (f v :: nat)"
proof (induction m)
  case (Cons a m)
  obtain k' v' where a: "a = (k', v')" by fastforce
  with Cons show ?case by (auto simp: jm_wf_Cons dest: map_of_SomeD)
qed simp

lemma total_put_group:
  "ledger_ok lg \<Longrightarrow> gr_count g = gr_count (group_of kind lg) + 1 \<Longrightarrow> total_count (put_group kind g lg) = total_count lg + 1"
  using sum_jm_set [of "lg_groups lg" gr_count kind g]
  by (simp add: ledger_ok_def total_count_def put_group_def group_of_def split: option.splits)

lemma total_fields [simp]:
  "total_count (lg\<lparr>lg_onceKeys := ks\<rparr>) = total_count lg"
  "total_count (lg\<lparr>lg_tallies := ts\<rparr>) = total_count lg"
  "total_count (logDurableDegradation k sb n m lg) = total_count lg"
  by (simp_all add: total_count_def logDurableDegradation_def)

lemma put_group_fields [simp]:
  "lg_onceKeys (put_group k g lg) = lg_onceKeys lg" "lg_tallies (put_group k g lg) = lg_tallies lg"
  "lg_rows (put_group k g lg) = lg_rows lg"
  by (simp_all add: put_group_def)

lemma log_fields [simp]:
  "lg_onceKeys (logDurableDegradation k sb n m lg) = lg_onceKeys lg"
  "lg_tallies (logDurableDegradation k sb n m lg) = lg_tallies lg"
  by (simp_all add: logDurableDegradation_def)

lemma record_exact:
  assumes "ledger_ok lg"
  shows "total_count (fst (recordDegradation r lg)) = total_count lg + 1"
    "lg_onceKeys (fst (recordDegradation r lg)) = lg_onceKeys lg"
    "lg_tallies (fst (recordDegradation r lg)) = lg_tallies lg"
  using assms by (simp_all add: recordDegradation_def Let_def total_put_group)

lemma once_exact:
  assumes "ledger_ok lg"
  shows "exact_of (fst (recordDegradationOnce digest r lg)) = exact_step digest (Once r) (exact_of lg)"
proof (cases "event_key digest r \<in> set (lg_onceKeys lg)")
  case True
  then show ?thesis by (simp add: recordDegradationOnce_def Let_def event_key_def exact_of_def)
next
  case False
  let ?lg1 = "lg\<lparr>lg_onceKeys := lg_onceKeys lg @ [event_key digest r]\<rparr>"
  have ok: "ledger_ok ?lg1" using assms by simp
  obtain lg2 a where r: "recordDegradation \<lparr>dg_kind = boundedKind (truncate_text (dg_kind r)) ?lg1,
      dg_subject = subjectForLedger (subjectIdentity (dg_subject r)), dg_reason = dg_reason r, dg_metadata = []\<rparr> ?lg1 = (lg2, a)"
    by fastforce
  have f: "fst (recordDegradationOnce digest r lg) =
      (if a then logDurableDegradation (boundedKind (truncate_text (dg_kind r)) ?lg1)
        (subjectForLedger (subjectIdentity (dg_subject r))) 1 (dg_metadata r) lg2 else lg2)"
    using False r by (simp add: recordDegradationOnce_def Let_def event_key_def)
  from record_exact [OF ok, of "\<lparr>dg_kind = boundedKind (truncate_text (dg_kind r)) ?lg1,
      dg_subject = subjectForLedger (subjectIdentity (dg_subject r)), dg_reason = dg_reason r, dg_metadata = []\<rparr>"] r False
  show ?thesis by (simp add: f exact_of_def)
qed

lemma increment_exact:
  assumes "ledger_ok lg"
  shows "exact_of (fst (incrementDegradationCount digest r lg)) = exact_step digest (Increment r) (exact_of lg)"
    and "snd (incrementDegradationCount digest r lg) = (ex_tally (exact_of lg) (event_key digest r) = 0)"
proof -
  have t: "total_count (put_group k \<lparr>gr_count = Suc (gr_count (group_of k lg)), gr_entries = es\<rparr> (lg\<lparr>lg_tallies := ts\<rparr>)) =
      total_count lg + 1" for k es ts
    using total_put_group [of "lg\<lparr>lg_tallies := ts\<rparr>" _ k] assms by simp
  show "exact_of (fst (incrementDegradationCount digest r lg)) = exact_step digest (Increment r) (exact_of lg)"
    by (simp add: incrementDegradationCount_def Let_def exact_of_def event_key_def t update_conv fun_eq_iff)
  show "snd (incrementDegradationCount digest r lg) = (ex_tally (exact_of lg) (event_key digest r) = 0)"
    by (simp add: incrementDegradationCount_def Let_def exact_of_def event_key_def)
qed

lemma ledger_step_exact:
  assumes "ledger_ok lg"
  shows "exact_of (ledger_step digest op lg) = exact_step digest op (exact_of lg)"
proof (cases op)
  case (Record r)
  with record_exact [OF assms, of r] show ?thesis by (simp add: exact_of_def)
next
  case (Once r)
  with once_exact [OF assms, of digest r] show ?thesis by simp
next
  case (Increment r)
  with increment_exact(1) [OF assms, of digest r] show ?thesis by simp
next
  case Reset_ledger
  then show ?thesis by (simp add: exact_of_def resetDegradationLedger_def total_count_def)
qed

lemma exact_of_new: "exact_of new_ledger = \<lparr>ex_total = 0, ex_once = {}, ex_tally = (\<lambda>_. 0)\<rparr>"
  by (simp add: exact_of_def new_ledger_def total_count_def)

text \<open>
  C15: The bounded ledger counts exactly: over every sequence of operations the sum of its group
  counts, its latches and its tallies are those of a ledger without bounds, also when kinds
  overflow and entries are dropped; and an increment reports the first occurrence of its
  event, and only that.
\<close>

theorem ledger_counts_exactly:
  "exact_of (ledger_run digest ops new_ledger) =
     fold (exact_step digest) ops \<lparr>ex_total = 0, ex_once = {}, ex_tally = (\<lambda>_. 0)\<rparr> \<and>
   snd (incrementDegradationCount digest r (ledger_run digest ops new_ledger)) =
     (ex_tally (exact_of (ledger_run digest ops new_ledger)) (event_key digest r) = 0)"
proof -
  let ?lg = "ledger_run digest ops new_ledger"
  have run: "exact_of (fold (ledger_step digest) ops l) = fold (exact_step digest) ops (exact_of l)" if "ledger_ok l" for l
    using that by (induction ops arbitrary: l) (simp_all add: ledger_step_exact ledger_step_ok)
  have "ledger_ok ?lg" unfolding ledger_run_def by (rule ledger.run_inv [OF ledger_ok_new])
  then show ?thesis
    using increment_exact(2) [of ?lg digest r] run [OF ledger_ok_new] by (simp add: ledger_run_def exact_of_new)
qed

section \<open>Durable rows at powers of two\<close>

lemma nat_and_pred:
  "n > 0 \<Longrightarrow> n AND (n - 1) = 0 \<longleftrightarrow> (\<exists>k. n = 2 ^ k)" for n :: nat
proof (induction n rule: less_induct)
  case (less n)
  show ?case
  proof (cases "even n")
    case True
    then obtain m where m: "n = 2 * m" "m > 0" using less.prems by auto
    have "2 * m AND Suc (2 * x) = 2 * (m AND x)" for x
      by (simp add: and_rec [of "2 * m" "Suc (2 * x)"])
    moreover have "n - 1 = Suc (2 * (m - 1))" using m by simp
    ultimately have "n AND (n - 1) = 2 * (m AND (m - 1))" by (simp only: m)
    then have "n AND (n - 1) = 0 \<longleftrightarrow> (\<exists>k. m = 2 ^ k)" using less.IH [of m] m by simp
    also have "\<dots> \<longleftrightarrow> (\<exists>k. n = 2 ^ k)"
    proof
      assume "\<exists>k. n = 2 ^ k"
      then obtain k where "n = 2 ^ k" by blast
      with True m show "\<exists>k. m = 2 ^ k" by (cases k) auto
    qed (use m in \<open>metis power_Suc\<close>)
    finally show ?thesis .
  next
    case False
    then obtain m where m: "n = 2 * m + 1" by (metis oddE)
    have "n AND (n - 1) = 2 * m" by (simp add: m and_rec [of "Suc (2 * m)"])
    moreover have "(\<exists>k. n = 2 ^ k) \<longleftrightarrow> m = 0"
      using m by (metis False One_nat_def add.commute even_power less_nat_zero_code mult_0_right neq0_conv one_eq_numeral_iff
          plus_1_eq_Suc power_0 even_numeral nat_mult_eq_1_iff odd_one add_cancel_left_right mult_eq_0_iff zero_neq_numeral)
    ultimately show ?thesis using m by simp
  qed
qed

lemma isPowerOfTwo_iff:
  assumes "v < 2 ^ 32"
  shows "isPowerOfTwo v \<longleftrightarrow> (\<exists>k. v = 2 ^ k)"
proof (cases "v = 0")
  case False
  have u: "unat (of_nat x :: 32 word) = x" if "x < 2 ^ 32" for x
    using that by (simp add: unat_of_nat)
  have "(of_nat v :: 32 word) AND of_nat (v - 1) = 0 \<longleftrightarrow>
      unat ((of_nat v :: 32 word) AND of_nat (v - 1)) = 0"
    by (simp only: unat_eq_zero)
  also have "\<dots> \<longleftrightarrow> v AND (v - 1) = 0"
    using u [of v] u [of "v - 1"] assms by (simp only: unsigned_and_eq)
  finally show ?thesis using False nat_and_pred [of v] by (simp add: isPowerOfTwo_def)
qed (simp add: isPowerOfTwo_def)

text \<open>The same event counted over and over, from a new ledger.\<close>

definition counted :: "(js_text \<Rightarrow> js_text \<Rightarrow> 'k) \<Rightarrow> degradation \<Rightarrow> nat \<Rightarrow> 'k ledger" where
  "counted digest r n = ledger_run digest (replicate n (Increment r)) new_ledger"

lemma counted_Suc: "counted digest r (Suc n) = fst (incrementDegradationCount digest r (counted digest r n))"
proof -
  have "replicate (Suc n) (Increment r) = replicate n (Increment r) @ [Increment r]"
    by (simp add: replicate_append_same)
  then show ?thesis by (simp add: counted_def ledger_run_def)
qed

abbreviation shown_kind :: "degradation \<Rightarrow> js_text" where
  "shown_kind r \<equiv> truncate_text (dg_kind r)"

abbreviation shown_subject :: "degradation \<Rightarrow> js_text" where
  "shown_subject r \<equiv> subjectForLedger (subjectIdentity (dg_subject r))"

lemma boundedKind_counted:
  "lg_groups lg = [] \<or> lg_groups lg = [(shown_kind r, g)] \<Longrightarrow> boundedKind (shown_kind r) lg = shown_kind r"
  by (auto simp: boundedKind_def Let_def MAX_DISTINCT_KINDS_def jm_has_def)

lemma counted_state:
  "(n = 0 \<and> lg_groups (counted digest r n) = [] \<and> lg_tallies (counted digest r n) = [] \<or>
    n > 0 \<and> lg_groups (counted digest r n) = [(shown_kind r, \<lparr>gr_count = n,
        gr_entries = [(shown_subject r, counted_reason (truncate_text (dg_reason r)) n)]\<rparr>)] \<and>
    lg_tallies (counted digest r n) = [(event_key digest r, n)]) \<and>
   map dr_count (lg_rows (counted digest r n)) = filter isPowerOfTwo [1..<n + 1]"
proof (induction n)
  case 0
  show ?case by (simp add: counted_def ledger_run_def new_ledger_def)
next
  case (Suc n)
  let ?lg = "counted digest r n"
  have kind: "boundedKind (shown_kind r) ?lg = shown_kind r"
    using Suc boundedKind_counted [of ?lg r] by blast
  have push: "push_entry (shown_subject r, x) [] = [(shown_subject r, x)]" for x
    by (simp add: push_entry_def KIND_ENTRIES_def)
  have split: "filter isPowerOfTwo [1..<Suc n + 1] = filter isPowerOfTwo [1..<n + 1] @ filter isPowerOfTwo [Suc n]"
    by simp
  show ?case
  proof (cases "n = 0")
    case True
    then show ?thesis
      using Suc kind push unfolding counted_Suc split
      by (auto simp: incrementDegradationCount_def Let_def group_of_def put_group_def logDurableDegradation_def
          event_key_def KIND_ENTRIES_def)
  next
    case False
    then show ?thesis
      using Suc kind push unfolding counted_Suc split
      by (auto simp: incrementDegradationCount_def Let_def group_of_def put_group_def logDurableDegradation_def
          event_key_def)
  qed
qed

text \<open>
  An event that recurs \<open>n\<close> times leaves one durable row per power of two up to \<open>n\<close>, and one
  entry with the exact count.
\<close>

theorem recurring_event_rows:
  assumes "n < 2 ^ 32"
  shows "map dr_count (lg_rows (counted digest r n)) = filter (\<lambda>m. \<exists>k. m = 2 ^ k) [1..<n + 1]"
proof -
  have "filter isPowerOfTwo [1..<n + 1] = filter (\<lambda>m. \<exists>k. m = 2 ^ k) [1..<n + 1]"
    using assms by (intro filter_cong refl isPowerOfTwo_iff) auto
  with counted_state [of n digest r] show ?thesis by simp
qed

text \<open>
  The summary's \<open>droppedCount\<close> is the number of events beyond the entries kept: a recurring
  event has dropped nothing and is reported with \<open>n - 1\<close>.
\<close>

lemma recurrence_reported_as_dropped:
  "n > 0 \<Longrightarrow> map sm_droppedCount (ledger_summary (counted digest r n)) = [n - 1]"
  using counted_state [of n digest r] by (auto simp: ledger_summary_def)

text \<open>
  A kind whose 20 entries are taken admits no new subject: the first occurrence of an event
  is then not logged durably.
\<close>

lemma crowded_kind_logs_nothing:
  assumes "jm_get (lg_groups lg) (shown_kind r) = Some g" "KIND_ENTRIES \<le> length (gr_entries g)"
    and "\<forall>e \<in> set (gr_entries g). fst e \<noteq> shown_subject r"
  shows "lg_rows (fst (incrementDegradationCount digest r lg)) = lg_rows lg"
proof -
  have "boundedKind (shown_kind r) lg = shown_kind r"
    using assms(1) by (simp add: boundedKind_def Let_def jm_has_def)
  then show ?thesis
    using assms by (auto simp: incrementDegradationCount_def Let_def group_of_def)
qed

section \<open>A concrete event\<close>

definition demo_event :: degradation where
  "demo_event = \<lparr>dg_kind = units ''k'', dg_subject = [], dg_reason = units ''why'', dg_metadata = []\<rparr>"

theorem recurring_event_rows_witness:
  "map dr_count (lg_rows (counted Pair demo_event 5)) = [1, 2, 4]"
proof -
  have p: "(\<exists>k. Suc 0 = 2 ^ k)" "(\<exists>k. (2::nat) = 2 ^ k)" "\<not> (\<exists>k. (3::nat) = 2 ^ k)"
    "(\<exists>k. (4::nat) = 2 ^ k)" "\<not> (\<exists>k. (5::nat) = 2 ^ k)"
    using isPowerOfTwo_iff [of 1] isPowerOfTwo_iff [of 2] isPowerOfTwo_iff [of 3] isPowerOfTwo_iff [of 4]
      isPowerOfTwo_iff [of 5] by (simp_all add: isPowerOfTwo_def)
  have l: "[Suc 0..<6] = [Suc 0, 2, 3, 4, 5]" by (simp add: upt_rec)
  show ?thesis
    using recurring_event_rows [of 5 Pair demo_event] p by (simp add: l)
qed

theorem ledger_stays_bounded_witness:
  "length (lg_groups (ledger_run Pair [Record demo_event, Once demo_event] new_ledger)) \<le> MAX_DISTINCT_KINDS"
  using ledger_stays_bounded [OF refl, of Pair "[Record demo_event, Once demo_event]"] by blast

end
