(* ===== verification/Process_Spec.thy ===== *)
theory Process_Spec
  imports Config_Provenance Degradation_Ledger "HOL-Library.Multiset"
begin

text \<open>
  The trust gate: \<open>src/clients/project-trust.ts\<close> (the host's decision, latched, with a counter of
  its transitions) and \<open>src/clients/config-core/process-spec.ts\<close> (a described process, its
  validation, the arguments it may be spawned with, and its redacted projection).

  The module state of the first is a record that is passed on; refusals go to the degradation
  ledger. Log lines are left out. \<open>homeRelativePath\<close> is a parameter, as in \<open>Config_Provenance\<close>.
\<close>

section \<open>Project trust\<close>

record trust_module =
  tm_state :: trust_decision
  tm_warnings :: "string list"
  tm_generation :: nat

definition INSTALL_REFUSAL_WARNING_CAP :: nat where
  "INSTALL_REFUSAL_WARNING_CAP = 200"

definition new_trust :: trust_module where
  "new_trust = \<lparr>tm_state = Unknown, tm_warnings = [], tm_generation = 0\<rparr>"

definition latchProjectTrustState :: "trust_decision \<Rightarrow> trust_module \<Rightarrow> trust_module" where
  "latchProjectTrustState nxt m =
     (if nxt = tm_state m then m
      else m\<lparr>tm_state := nxt, tm_warnings := [], tm_generation := tm_generation m + 1\<rparr>)"

text \<open>
  The accessor \<open>isProjectTrusted\<close> of a context: reading it may throw, it may be no function,
  and calling it may throw or return a value.
\<close>

datatype trust_accessor = Read_throws | No_function | Call_throws | Returns jval

fun readProjectTrustFromContext :: "trust_accessor \<Rightarrow> trust_decision" where
  "readProjectTrustFromContext No_function = Unknown"
| "readProjectTrustFromContext (Returns (JBool b)) = (if b then Trusted else Untrusted)"
| "readProjectTrustFromContext (Returns _) = Unknown"
| "readProjectTrustFromContext Read_throws = Untrusted"
| "readProjectTrustFromContext Call_throws = Untrusted"

definition setProjectTrustState :: "trust_decision \<Rightarrow> trust_module \<Rightarrow> trust_module" where
  "setProjectTrustState nxt m = latchProjectTrustState nxt m"

definition adoptProjectTrustFromContext :: "trust_accessor \<Rightarrow> trust_module \<Rightarrow> trust_module \<times> trust_decision" where
  "adoptProjectTrustFromContext ctx m =
     (let nxt = readProjectTrustFromContext ctx in (latchProjectTrustState nxt m, nxt))"

definition resetProjectTrust :: "trust_module \<Rightarrow> trust_module" where
  "resetProjectTrust m = (latchProjectTrustState Unknown m)\<lparr>tm_warnings := []\<rparr>"

definition isToolInstallAllowedByTrust :: "trust_module \<Rightarrow> bool" where
  "isToolInstallAllowedByTrust m = (tm_state m \<noteq> Untrusted)"

definition projectTrustDenialReason :: "trust_module \<Rightarrow> string option" where
  "projectTrustDenialReason m =
     (if tm_state m = Untrusted
      then Some ''project is not trusted (host isProjectTrusted() === false)'' else None)"

definition TRUST_REFUSAL_KIND :: string where
  "TRUST_REFUSAL_KIND = ''trust-refusal''"

text \<open>\<open>assertInstallAllowed\<close>: the verdict, the warning set, and the refusal in the ledger.\<close>

definition assertInstallAllowed ::
    "string \<Rightarrow> trust_module \<times> 'k ledger \<Rightarrow> (trust_module \<times> 'k ledger) \<times> bool" where
  "assertInstallAllowed ctx st =
     (if isToolInstallAllowedByTrust (fst st) then (st, True)
      else let m = fst st;
               reason = (case projectTrustDenialReason m of Some r \<Rightarrow> r | None \<Rightarrow> ''project trust denied'');
               lg = fst (recordDegradation \<lparr>dg_kind = units TRUST_REFUSAL_KIND, dg_subject = units ctx,
                           dg_reason = units reason, dg_metadata = []\<rparr> (snd st));
               warned = (if ctx \<in> set (tm_warnings m) then tm_warnings m
                         else if length (tm_warnings m) \<ge> INSTALL_REFUSAL_WARNING_CAP then [ctx]
                         else tm_warnings m @ [ctx])
           in ((m\<lparr>tm_warnings := warned\<rparr>, lg), False))"

section \<open>Process specifications\<close>

datatype cwd_mode = Root_dir | File_dir

datatype input_mode = No_input | Stdin_input | File_input

record process_spec =
  ps_argv :: "string list"
  ps_env :: "(string \<times> string) list"
  ps_cwdMode :: cwd_mode
  ps_inputMode :: input_mode
  ps_timeoutMs :: jnum
  ps_provenance :: provenance
  ps_trust :: trust_decision

text \<open>What a caller hands in; the modes are still any text.\<close>

record spec_input =
  si_argv :: "jval list"
  si_env :: "(string \<times> jval) list option"
  si_cwdMode :: "string option"
  si_inputMode :: "string option"
  si_timeoutMs :: jnum
  si_provenance :: provenance
  si_trust :: "trust_decision option"

definition MAX_ARGV_ENTRIES :: nat where "MAX_ARGV_ENTRIES = 128"
definition MAX_ARGV_BYTES :: nat where "MAX_ARGV_BYTES = 32 * 1024"
definition MAX_ENV_ENTRIES :: nat where "MAX_ENV_ENTRIES = 64"
definition MAX_ENV_BYTES :: nat where "MAX_ENV_BYTES = 16 * 1024"
definition MAX_TIMEOUT_MS :: nat where "MAX_TIMEOUT_MS = 10 * 60 * 1000"

datatype rejection_code =
    Empty_argv | Argv_not_strings | Argv_too_many | Argv_too_large
  | Env_not_strings | Env_too_many | Env_too_large
  | Invalid_timeout | Invalid_cwd_mode | Invalid_input_mode

record spec_rejection =
  rj_code :: rejection_code
  rj_reason :: string

definition reject :: "rejection_code \<Rightarrow> string \<Rightarrow> spec_rejection + process_spec" where
  "reject code reason = Inl \<lparr>rj_code = code, rj_reason = reason\<rparr>"

text \<open>The UTF-8 length of a text whose code units are below 256.\<close>

definition byteLength :: "string \<Rightarrow> nat" where
  "byteLength s = sum_list (map (\<lambda>c. if (of_char c :: nat) < 128 then 1 else 2) s)"

fun cwd_mode_of :: "string \<Rightarrow> cwd_mode option" where
  "cwd_mode_of s = (if s = ''root'' then Some Root_dir else if s = ''file-dir'' then Some File_dir else None)"

fun input_mode_of :: "string \<Rightarrow> input_mode option" where
  "input_mode_of s =
     (if s = ''none'' then Some No_input else if s = ''stdin'' then Some Stdin_input
      else if s = ''file'' then Some File_input else None)"

definition argv_strings :: "jval list \<Rightarrow> string list option" where
  "argv_strings argv =
     (if list_all (\<lambda>v. case v of JStr _ \<Rightarrow> True | _ \<Rightarrow> False) argv
      then Some (map (\<lambda>v. case v of JStr s \<Rightarrow> s | _ \<Rightarrow> []) argv) else None)"

text \<open>
  The loop over \<open>Object.keys(rawEnv)\<close>. \<open>env[name] = value\<close> makes an own property, except for
  the name \<open>__proto__\<close>: there it is the inherited setter, which ignores a string.
\<close>

fun env_loop :: "(string \<times> jval) list \<Rightarrow> (string \<times> string) list \<Rightarrow> nat \<Rightarrow> ((string \<times> string) list \<times> nat) option" where
  "env_loop [] env bytes = Some (env, bytes)"
| "env_loop ((name, JStr v) # rest) env bytes =
     env_loop rest (if name = ''__proto__'' then env else obj_put name v env)
       (bytes + (byteLength name + byteLength v))"
| "env_loop ((name, _) # rest) env bytes = None"

fun timeout_ok :: "jnum \<Rightarrow> bool" where
  "timeout_ok (Fin q) = (0 < q \<and> q \<le> of_nat MAX_TIMEOUT_MS)"
| "timeout_ok _ = False"

definition limit_reason :: "string \<Rightarrow> nat \<Rightarrow> string \<Rightarrow> nat \<Rightarrow> string" where
  "limit_reason what n unit bound = what @ show_nat n @ unit @ show_nat bound"

text \<open>The checks after the command line: environment, modes, timeout.\<close>

definition build_rest :: "trust_module \<Rightarrow> spec_input \<Rightarrow> string list \<Rightarrow> spec_rejection + process_spec" where
  "build_rest tm input argvStrings =
     (let rawEnv = (case si_env input of Some e \<Rightarrow> e | None \<Rightarrow> [])
      in if length rawEnv > MAX_ENV_ENTRIES
         then reject Env_too_many (limit_reason ''env has '' (length rawEnv) '' entries, limit '' MAX_ENV_ENTRIES)
         else case env_loop rawEnv [] 0 of
           None \<Rightarrow> reject Env_not_strings ''env values must all be strings''
         | Some (env, envBytes) \<Rightarrow>
             if envBytes > MAX_ENV_BYTES
             then reject Env_too_large (limit_reason ''env is '' envBytes '' bytes, limit '' MAX_ENV_BYTES)
             else case cwd_mode_of (case si_cwdMode input of Some s \<Rightarrow> s | None \<Rightarrow> ''root'') of
               None \<Rightarrow> reject Invalid_cwd_mode ''cwdMode must be root or file-dir''
             | Some cwdMode \<Rightarrow>
                 (case input_mode_of (case si_inputMode input of Some s \<Rightarrow> s | None \<Rightarrow> ''none'') of
                    None \<Rightarrow> reject Invalid_input_mode ''inputMode must be none, stdin or file''
                  | Some inputMode \<Rightarrow>
                      if \<not> timeout_ok (si_timeoutMs input)
                      then reject Invalid_timeout
                        (''timeoutMs must be a finite value in (0, '' @ show_nat MAX_TIMEOUT_MS @ '']'')
                      else Inr \<lparr>ps_argv = argvStrings, ps_env = env, ps_cwdMode = cwdMode, ps_inputMode = inputMode,
                             ps_timeoutMs = si_timeoutMs input, ps_provenance = si_provenance input,
                             ps_trust = (case si_trust input of Some t \<Rightarrow> t | None \<Rightarrow> tm_state tm)\<rparr>))"

definition buildProcessSpec :: "trust_module \<Rightarrow> spec_input \<Rightarrow> spec_rejection + process_spec" where
  "buildProcessSpec tm input =
     (let argv = si_argv input
      in if argv = [] then reject Empty_argv ''argv is empty; a spec needs a command''
         else if length argv > MAX_ARGV_ENTRIES
         then reject Argv_too_many (limit_reason ''argv has '' (length argv) '' entries, limit '' MAX_ARGV_ENTRIES)
         else case argv_strings argv of
           None \<Rightarrow> reject Argv_not_strings ''argv entries must all be strings''
         | Some argvStrings \<Rightarrow>
             (let argvBytes = foldl (\<lambda>total entry. total + byteLength entry) 0 argvStrings
              in if argvBytes > MAX_ARGV_BYTES
                 then reject Argv_too_large (limit_reason ''argv is '' argvBytes '' bytes, limit '' MAX_ARGV_BYTES)
                 else if hd argvStrings = [] then reject Empty_argv ''argv[0] is empty; a spec needs a command''
                 else build_rest tm input argvStrings))"

section \<open>Spawn arguments\<close>

record spawn_args =
  sa_argv :: "string list"
  sa_env :: "(string \<times> string) list"
  sa_cwdMode :: cwd_mode
  sa_inputMode :: input_mode
  sa_timeoutMs :: jnum

datatype refusal_cause = Spec_trust | Host_trust

record trust_refusal =
  rf_cause :: refusal_cause
  rf_reason :: string
  rf_tier :: source_tier
  rf_command :: string
  rf_specTrust :: trust_decision
  rf_hostTrust :: trust_decision
  rf_generation :: nat

definition spawnArgsOf :: "process_spec \<Rightarrow> spawn_args" where
  "spawnArgsOf s = \<lparr>sa_argv = ps_argv s, sa_env = ps_env s, sa_cwdMode = ps_cwdMode s,
     sa_inputMode = ps_inputMode s, sa_timeoutMs = ps_timeoutMs s\<rparr>"

fun tier_text :: "source_tier \<Rightarrow> string" where
  "tier_text Builtin = ''builtin''"
| "tier_text Global = ''global''"
| "tier_text Project = ''project''"
| "tier_text NestedProject = ''nested-project''"
| "tier_text Env = ''env''"
| "tier_text Cli = ''cli''"
| "tier_text Host = ''host''"

fun trust_text :: "trust_decision \<Rightarrow> string" where
  "trust_text Trusted = ''trusted''"
| "trust_text Untrusted = ''untrusted''"
| "trust_text Unknown = ''unknown''"

fun cause_text :: "refusal_cause \<Rightarrow> string" where
  "cause_text Spec_trust = ''spec-trust''"
| "cause_text Host_trust = ''host-trust''"

text \<open>The event a refusal counts in the ledger.\<close>

definition refusal_event :: "trust_refusal \<Rightarrow> string \<Rightarrow> degradation" where
  "refusal_event rf configKey =
     \<lparr>dg_kind = units TRUST_REFUSAL_KIND,
      dg_subject = units (''config-command:g'' @ show_nat (rf_generation rf) @ '':'' @ tier_text (rf_tier rf) @ '':'' @ rf_command rf),
      dg_reason = units (rf_reason rf),
      dg_metadata = map (map_prod units units)
        [(''cause'', cause_text (rf_cause rf)), (''specTrust'', trust_text (rf_specTrust rf)),
         (''hostTrust'', trust_text (rf_hostTrust rf)), (''trustGeneration'', show_nat (rf_generation rf)),
         (''configKey'', configKey)]\<rparr>"

definition refuse ::
    "(js_text \<Rightarrow> js_text \<Rightarrow> 'k) \<Rightarrow> trust_module \<Rightarrow> process_spec \<Rightarrow> refusal_cause \<Rightarrow> trust_decision \<Rightarrow>
       'k ledger \<Rightarrow> 'k ledger \<times> (trust_refusal + spawn_args)" where
  "refuse digest tm s cause hostTrust lg =
     (let tier = prov_tier (ps_provenance s);
          reason = (case cause of
              Spec_trust \<Rightarrow> tier_text tier @ '' config command refused: config trust is '' @ trust_text (ps_trust s)
            | Host_trust \<Rightarrow> tier_text tier @ '' config command refused: host trust is now '' @ trust_text hostTrust);
          refusal = \<lparr>rf_cause = cause, rf_reason = reason, rf_tier = tier, rf_command = hd (ps_argv s),
            rf_specTrust = ps_trust s, rf_hostTrust = hostTrust, rf_generation = tm_generation tm\<rparr>
      in (fst (incrementDegradationCount digest (refusal_event refusal (prov_key (ps_provenance s))) lg), Inl refusal))"

definition toSpawnArgs ::
    "(js_text \<Rightarrow> js_text \<Rightarrow> 'k) \<Rightarrow> trust_module \<Rightarrow> process_spec \<Rightarrow> 'k ledger \<Rightarrow> 'k ledger \<times> (trust_refusal + spawn_args)" where
  "toSpawnArgs digest tm s lg =
     (if \<not> isRepoTier (prov_tier (ps_provenance s)) then (lg, Inr (spawnArgsOf s))
      else let hostTrust = tm_state tm
           in if ps_trust s \<noteq> Trusted then refuse digest tm s Spec_trust hostTrust lg
              else if hostTrust \<noteq> Trusted then refuse digest tm s Host_trust hostTrust lg
              else (lg, Inr (spawnArgsOf s)))"

section \<open>The redacted projection\<close>

record redacted_spec =
  rd_command :: string
  rd_argvCount :: nat
  rd_envNames :: "string list"
  rd_envCount :: nat
  rd_cwdMode :: cwd_mode
  rd_inputMode :: input_mode
  rd_timeoutMs :: jnum
  rd_tier :: source_tier
  rd_configKey :: string
  rd_file :: "string option"
  rd_trust :: trust_decision

definition redactProcessSpec :: "(string \<Rightarrow> string) \<Rightarrow> process_spec \<Rightarrow> redacted_spec" where
  "redactProcessSpec homeRelativePath s =
     \<lparr>rd_command = hd (ps_argv s), rd_argvCount = length (ps_argv s),
      rd_envNames = sort (map fst (ps_env s)), rd_envCount = length (ps_env s),
      rd_cwdMode = ps_cwdMode s, rd_inputMode = ps_inputMode s, rd_timeoutMs = ps_timeoutMs s,
      rd_tier = prov_tier (ps_provenance s), rd_configKey = prov_key (ps_provenance s),
      rd_file = map_option homeRelativePath (prov_file (ps_provenance s)), rd_trust = ps_trust s\<rparr>"

section \<open>What an accepted specification is\<close>

definition env_bytes :: "(string \<times> string) list \<Rightarrow> nat" where
  "env_bytes env = sum_list (map (\<lambda>(n, v). byteLength n + byteLength v) env)"

lemma sum_insert_index:
  "sum_list (map f (insert_index k v es)) = f (k, v) + (sum_list (map f es) :: nat)"
  by (induction k v es rule: insert_index.induct) auto

lemma length_insert_index: "length (insert_index k v es) = Suc (length es)"
  by (induction k v es rule: insert_index.induct) auto

lemma obj_put_new:
  "k \<notin> set (map fst es) \<Longrightarrow> length (obj_put k v es) = Suc (length es)"
  "k \<notin> set (map fst es) \<Longrightarrow> env_bytes (obj_put k v es) = byteLength k + byteLength v + env_bytes es"
  by (auto simp: obj_put_def length_insert_index env_bytes_def sum_insert_index)

text \<open>The loop keeps the names apart, counts the bytes and copies every value but one.\<close>

lemma env_loop_all:
  "env_loop raw env bytes = Some (env', bytes') \<Longrightarrow> distinct (map fst env) \<Longrightarrow> distinct (map fst raw) \<Longrightarrow>
   set (map fst env) \<inter> set (map fst raw) = {} \<Longrightarrow> env_bytes env \<le> bytes \<Longrightarrow>
   distinct (map fst env') \<and> length env' \<le> length env + length raw \<and> env_bytes env' \<le> bytes' \<and>
   (\<forall>k. map_of env' k = (case map_of raw k of
       Some v \<Rightarrow> (if k = ''__proto__'' then map_of env k else Some (case v of JStr t \<Rightarrow> t | _ \<Rightarrow> [])) | None \<Rightarrow> map_of env k))"
proof (induction raw env bytes arbitrary: env' bytes' rule: env_loop.induct)
  case (2 name v rest env bytes)
  let ?env = "if name = ''__proto__'' then env else obj_put name v env"
  have new: "name \<notin> set (map fst env)" using 2 by auto
  have d: "distinct (map fst ?env)" using 2 by (simp add: distinct_obj_put)
  have len: "length ?env \<le> Suc (length env)" using new obj_put_new(1) [of name env v] by simp
  have dis: "set (map fst ?env) \<inter> set (map fst rest) = {}"
    using 2 keys_obj_put [of name v env] by auto
  have b: "env_bytes ?env \<le> bytes + (byteLength name + byteLength v)"
    using 2 new obj_put_new(2) [of name env v] by auto
  have run: "env_loop rest ?env (bytes + (byteLength name + byteLength v)) = Some (env', bytes')" using 2 by simp
  have dr: "distinct (map fst rest)" "name \<notin> set (map fst rest)" using 2 by auto
  have none: "map_of rest name = None" "map_of env name = None"
    using dr(2) new by (simp_all add: map_of_eq_None_iff)
  from 2(1) [OF run d dr(1) dis b] len none show ?case
    by (auto simp: map_of_obj_put split: option.splits)
qed (auto simp: env_bytes_def)

lemmas env_loop_spec = env_loop_all [THEN conjunct1] env_loop_all [THEN conjunct2, THEN conjunct1]
  env_loop_all [THEN conjunct2, THEN conjunct2, THEN conjunct1] env_loop_all [THEN conjunct2, THEN conjunct2, THEN conjunct2]

definition well_formed_spec :: "process_spec \<Rightarrow> bool" where
  "well_formed_spec s \<longleftrightarrow>
     ps_argv s \<noteq> [] \<and> hd (ps_argv s) \<noteq> [] \<and> length (ps_argv s) \<le> 128 \<and>
     sum_list (map byteLength (ps_argv s)) \<le> 32768 \<and>
     distinct (map fst (ps_env s)) \<and> length (ps_env s) \<le> 64 \<and> env_bytes (ps_env s) \<le> 16384 \<and>
     (\<exists>q. ps_timeoutMs s = Fin q \<and> 0 < q \<and> q \<le> 600000)"

lemma argv_strings_Some: "argv_strings argv = Some ss \<Longrightarrow> argv = map JStr ss"
proof -
  assume a: "argv_strings argv = Some ss"
  have "list_all (\<lambda>v. case v of JStr _ \<Rightarrow> True | _ \<Rightarrow> False) argv \<Longrightarrow>
      map JStr (map (\<lambda>v. case v of JStr s \<Rightarrow> s | _ \<Rightarrow> []) argv) = argv"
    by (induction argv) (auto split: jval.splits)
  with a show ?thesis by (auto simp: argv_strings_def split: if_splits)
qed

lemma foldl_sum: "foldl (\<lambda>t e. t + f e) (n :: nat) xs = n + sum_list (map f xs)"
  by (induction xs arbitrary: n) auto

lemma build_rest_spec:
  assumes "build_rest tm input argvs = Inr s" and "distinct (map fst (case si_env input of Some e \<Rightarrow> e | None \<Rightarrow> []))"
  shows "ps_argv s = argvs" "distinct (map fst (ps_env s))" "length (ps_env s) \<le> 64" "env_bytes (ps_env s) \<le> 16384"
    "timeout_ok (ps_timeoutMs s)" "ps_provenance s = si_provenance input"
    "ps_trust s = (case si_trust input of Some t \<Rightarrow> t | None \<Rightarrow> tm_state tm)"
    "k \<noteq> ''__proto__'' \<Longrightarrow> map_of (ps_env s) k =
       map_option (\<lambda>v. case v of JStr t \<Rightarrow> t | _ \<Rightarrow> []) (map_of (case si_env input of Some e \<Rightarrow> e | None \<Rightarrow> []) k)"
proof -
  let ?raw = "case si_env input of Some e \<Rightarrow> e | None \<Rightarrow> []"
  obtain env bytes where e: "env_loop ?raw [] 0 = Some (env, bytes)" "length ?raw \<le> 64" "bytes \<le> 16384"
    "ps_env s = env" "ps_argv s = argvs" "timeout_ok (ps_timeoutMs s)" "ps_provenance s = si_provenance input"
    "ps_trust s = (case si_trust input of Some t \<Rightarrow> t | None \<Rightarrow> tm_state tm)"
    using assms(1) unfolding build_rest_def reject_def Let_def
    by (auto simp: MAX_ENV_ENTRIES_def MAX_ENV_BYTES_def split: if_splits option.splits)
  from env_loop_spec [OF e(1) _ assms(2)] e
  show "ps_argv s = argvs" "distinct (map fst (ps_env s))" "length (ps_env s) \<le> 64" "env_bytes (ps_env s) \<le> 16384"
    "timeout_ok (ps_timeoutMs s)" "ps_provenance s = si_provenance input"
    "ps_trust s = (case si_trust input of Some t \<Rightarrow> t | None \<Rightarrow> tm_state tm)"
    "k \<noteq> ''__proto__'' \<Longrightarrow> map_of (ps_env s) k = map_option (\<lambda>v. case v of JStr t \<Rightarrow> t | _ \<Rightarrow> []) (map_of ?raw k)"
    by (auto simp: env_bytes_def split: option.splits)
qed

lemma build_spec_steps:
  assumes "buildProcessSpec tm input = Inr s"
  obtains argvs where "argv_strings (si_argv input) = Some argvs" "argvs \<noteq> []" "hd argvs \<noteq> []" "length argvs \<le> 128"
    "sum_list (map byteLength argvs) \<le> 32768" "build_rest tm input argvs = Inr s"
  using assms unfolding buildProcessSpec_def reject_def Let_def
  by (auto simp: MAX_ARGV_ENTRIES_def MAX_ARGV_BYTES_def foldl_sum argv_strings_def split: if_splits option.splits)

text \<open>
  C13: A specification that is accepted is well formed: a command, a bounded command line and
  environment, a timeout in its interval; the command line is the one that was described,
  and so is every environment variable but \<open>__proto__\<close>.
\<close>

theorem accepted_spec_is_well_formed:
  assumes "buildProcessSpec tm input = Inr s"
    and "distinct (map fst (case si_env input of Some e \<Rightarrow> e | None \<Rightarrow> []))"
  shows "well_formed_spec s \<and> si_argv input = map JStr (ps_argv s) \<and>
    (\<forall>k. k \<noteq> ''__proto__'' \<longrightarrow> map_of (ps_env s) k =
       map_option (\<lambda>v. case v of JStr t \<Rightarrow> t | _ \<Rightarrow> []) (map_of (case si_env input of Some e \<Rightarrow> e | None \<Rightarrow> []) k))"
proof -
  obtain argvs where a: "argv_strings (si_argv input) = Some argvs" "argvs \<noteq> []" "hd argvs \<noteq> []" "length argvs \<le> 128"
    "sum_list (map byteLength argvs) \<le> 32768" "build_rest tm input argvs = Inr s"
    by (rule build_spec_steps [OF assms(1)])
  note b = build_rest_spec [OF a(6) assms(2)]
  have "\<exists>q. ps_timeoutMs s = Fin q \<and> 0 < q \<and> q \<le> 600000"
    using b(5) by (cases "ps_timeoutMs s") (auto simp: MAX_TIMEOUT_MS_def)
  with a b argv_strings_Some [OF a(1)] show ?thesis by (simp add: well_formed_spec_def)
qed

section \<open>The gate\<close>

lemma toSpawnArgs_iff:
  "snd (toSpawnArgs digest tm s lg) = Inr args \<longleftrightarrow>
     args = spawnArgsOf s \<and> (isRepoTier (prov_tier (ps_provenance s)) \<longrightarrow> ps_trust s = Trusted \<and> tm_state tm = Trusted)"
  by (auto simp: toSpawnArgs_def refuse_def Let_def)

text \<open>What the host and the session do to the latched decision.\<close>

datatype trust_event = Adopt trust_accessor | Set_trust trust_decision | Reset_trust

fun trust_step :: "trust_event \<Rightarrow> trust_module \<Rightarrow> trust_module" where
  "trust_step (Adopt ctx) m = fst (adoptProjectTrustFromContext ctx m)"
| "trust_step (Set_trust t) m = setProjectTrustState t m"
| "trust_step Reset_trust m = resetProjectTrust m"

text \<open>
  C4: A command from a checkout runs only if the project was trusted when its configuration was
  read and is trusted when it is spawned, whatever happened in between; a refusal spawns
  nothing and is counted.
\<close>

theorem checkout_command_needs_trust_twice:
  assumes "buildProcessSpec tm input = Inr s" and "si_trust input = None"
    and "isRepoTier (prov_tier (si_provenance input))"
    and "distinct (map fst (case si_env input of Some e \<Rightarrow> e | None \<Rightarrow> []))"
    and "tm' = fold trust_step es tm"
  shows "(\<exists>args. snd (toSpawnArgs digest tm' s lg) = Inr args) \<longleftrightarrow> tm_state tm = Trusted \<and> tm_state tm' = Trusted"
proof -
  obtain argvs where "build_rest tm input argvs = Inr s" by (rule build_spec_steps [OF assms(1)])
  from build_rest_spec(6,7) [OF this assms(4)] assms(2,3) show ?thesis by (simp add: toSpawnArgs_iff)
qed

text \<open>
  The generation counts the transitions of the decision: it never falls, and it moves exactly
  when the decision changes.
\<close>

lemma trust_step_generation:
  "tm_generation m \<le> tm_generation (trust_step e m)"
  "tm_generation (trust_step e m) = tm_generation m \<longleftrightarrow> tm_state (trust_step e m) = tm_state m"
  by (cases e; simp add: adoptProjectTrustFromContext_def setProjectTrustState_def resetProjectTrust_def
      latchProjectTrustState_def Let_def)+

section \<open>What leaves the gate\<close>

text \<open>
  C20: The redacted projection, a refusal and the ledger after it show nothing of a command line
  but its command and its length, and nothing of the environment but its names: two
  specifications that agree on those are indistinguishable there.
\<close>

theorem redaction_hides_arguments_and_values:
  assumes "length rest = length (tl (ps_argv s))" and "ps_argv s \<noteq> []"
    and "mset (map fst env) = mset (map fst (ps_env s))"
    and "s' = s\<lparr>ps_argv := hd (ps_argv s) # rest, ps_env := env\<rparr>"
  shows "redactProcessSpec homeRelativePath s' = redactProcessSpec homeRelativePath s \<and>
    fst (toSpawnArgs digest tm s' lg) = fst (toSpawnArgs digest tm s lg) \<and>
    (\<forall>rf. snd (toSpawnArgs digest tm s' lg) = Inl rf \<longleftrightarrow> snd (toSpawnArgs digest tm s lg) = Inl rf)"
proof -
  have "sort (map fst env) = sort (map fst (ps_env s))"
    using assms(3) by (metis mset_sort properties_for_sort sorted_sort)
  moreover have "length env = length (ps_env s)"
    using assms(3) by (metis length_map size_mset)
  ultimately show ?thesis
    using assms(1,2,4) by (cases "ps_argv s") (auto simp: redactProcessSpec_def toSpawnArgs_def refuse_def Let_def)
qed

section \<open>Refusals in the ledger\<close>

lemma first_increment_logged:
  assumes "jm_get (lg_tallies lg) (event_key digest r) = None"
    and "length (gr_entries (group_of (boundedKind (truncate_text (dg_kind r)) lg) lg)) < KIND_ENTRIES"
  shows "\<exists>row. lg_rows (fst (incrementDegradationCount digest r lg)) = lg_rows lg @ [row] \<and> dr_count row = 1 \<and>
     dr_subject row = subjectForLedger (subjectIdentity (dg_subject r))"
proof -
  have "isPowerOfTwo 1" by (simp add: isPowerOfTwo_def)
  with assms show ?thesis
    by (simp add: incrementDegradationCount_def Let_def event_key_def logDurableDegradation_def)
qed

text \<open>The event of a refusal of a command at a trust generation.\<close>

definition refused_event :: "trust_module \<Rightarrow> process_spec \<Rightarrow> refusal_cause \<Rightarrow> degradation" where
  "refused_event tm s cause =
     (case snd (refuse (\<lambda>_ _. ()) tm s cause (tm_state tm) new_ledger) of
        Inl rf \<Rightarrow> refusal_event rf (prov_key (ps_provenance s))
      | Inr _ \<Rightarrow> \<lparr>dg_kind = [], dg_subject = [], dg_reason = [], dg_metadata = []\<rparr>)"

lemma refuse_ledger:
  "fst (refuse digest tm s cause (tm_state tm) lg) = fst (incrementDegradationCount digest (refused_event tm s cause) lg)"
  by (simp add: refuse_def refused_event_def Let_def)

text \<open>
  The subject of a refusal carries the trust generation, so the first refusal of a command in
  a new trust episode starts a count of its own and, while its kind has room, is logged
  durably.
\<close>

theorem refusal_of_a_new_episode_is_logged:
  assumes "isRepoTier (prov_tier (ps_provenance s))" and "tm_state tm \<noteq> Trusted" and "ps_trust s = Trusted"
    and "jm_get (lg_tallies lg) (event_key digest (refused_event tm s Host_trust)) = None"
    and "length (gr_entries (group_of (boundedKind (units TRUST_REFUSAL_KIND) lg) lg)) < KIND_ENTRIES"
  shows "\<exists>row. lg_rows (fst (toSpawnArgs digest tm s lg)) = lg_rows lg @ [row] \<and> dr_count row = 1 \<and>
    dr_subject row = subjectForLedger (subjectIdentity (dg_subject (refused_event tm s Host_trust)))"
proof -
  have "truncate_text (dg_kind (refused_event tm s Host_trust)) = units TRUST_REFUSAL_KIND"
    by (simp add: refused_event_def refuse_def refusal_event_def Let_def truncate_text_def TRUST_REFUSAL_KIND_def
        units_def LEDGER_MAX_def)
  with first_increment_logged [of lg digest "refused_event tm s Host_trust"] assms show ?thesis
    by (simp add: toSpawnArgs_def refuse_ledger Let_def)
qed

section \<open>A concrete command\<close>

definition demo_input :: spec_input where
  "demo_input = \<lparr>si_argv = [JStr ''srv'', JStr ''--header=t''], si_env = Some [(''A'', JStr ''1'')],
     si_cwdMode = None, si_inputMode = Some ''stdin'', si_timeoutMs = Fin 1000,
     si_provenance = \<lparr>prov_tier = Project, prov_file = None, prov_key = ''/lsp'', prov_trust = None\<rparr>, si_trust = None\<rparr>"

definition trusted_host :: trust_module where
  "trusted_host = fold trust_step [Adopt (Returns (JBool True))] new_trust"

definition demo_spec :: process_spec where
  "demo_spec = \<lparr>ps_argv = [''srv'', ''--header=t''], ps_env = [(''A'', ''1'')], ps_cwdMode = Root_dir,
     ps_inputMode = Stdin_input, ps_timeoutMs = Fin 1000,
     ps_provenance = \<lparr>prov_tier = Project, prov_file = None, prov_key = ''/lsp'', prov_trust = None\<rparr>, ps_trust = Trusted\<rparr>"

lemmas build_defs = buildProcessSpec_def build_rest_def argv_strings_def byteLength_def obj_put_def is_array_index_def
  is_digit_char_def MAX_ARGV_ENTRIES_def MAX_ARGV_BYTES_def MAX_ENV_ENTRIES_def MAX_ENV_BYTES_def MAX_TIMEOUT_MS_def

lemma trusted_host_state: "tm_state trusted_host = Trusted"
  by (simp add: trusted_host_def new_trust_def adoptProjectTrustFromContext_def latchProjectTrustState_def)

lemma demo_built: "buildProcessSpec trusted_host demo_input = Inr demo_spec"
  by (simp add: build_defs demo_input_def demo_spec_def trusted_host_state)

lemma demo_names: "distinct (map fst (case si_env demo_input of Some e \<Rightarrow> e | None \<Rightarrow> []))"
  by (simp add: demo_input_def)

theorem accepted_spec_is_well_formed_witness:
  "buildProcessSpec trusted_host demo_input = Inr demo_spec \<and> well_formed_spec demo_spec"
  using accepted_spec_is_well_formed [OF demo_built demo_names] demo_built by blast

theorem checkout_command_needs_trust_twice_witness:
  "buildProcessSpec trusted_host demo_input = Inr demo_spec \<and>
   \<not> (\<exists>args. snd (toSpawnArgs Pair (fold trust_step [Adopt Call_throws] trusted_host) demo_spec new_ledger) = Inr args)"
proof -
  have "si_trust demo_input = None" "isRepoTier (prov_tier (si_provenance demo_input))"
    by (simp_all add: demo_input_def isRepoTier_def)
  moreover have "tm_state (fold trust_step [Adopt Call_throws] trusted_host) = Untrusted"
    by code_simp
  ultimately show ?thesis
    using checkout_command_needs_trust_twice [OF demo_built _ _ demo_names refl, where es = "[Adopt Call_throws]" and digest = Pair and lg = new_ledger]
      demo_built
    by simp
qed

theorem redaction_hides_arguments_and_values_witness:
  "redactProcessSpec id (demo_spec\<lparr>ps_argv := hd (ps_argv demo_spec) # [''--header=u''], ps_env := [(''A'', ''2'')]\<rparr>) =
   redactProcessSpec id demo_spec"
proof -
  have "length [''--header=u''] = length (tl (ps_argv demo_spec))" "ps_argv demo_spec \<noteq> []"
    "mset (map fst [(''A'', ''2'')]) = mset (map fst (ps_env demo_spec))"
    by (simp_all add: demo_spec_def)
  from redaction_hides_arguments_and_values [OF this refl, THEN conjunct1] show ?thesis .
qed

theorem refusal_of_a_new_episode_is_logged_witness:
  "\<exists>row. lg_rows (fst (toSpawnArgs Pair new_trust demo_spec new_ledger)) = [row] \<and> dr_count row = 1"
proof -
  have "isRepoTier (prov_tier (ps_provenance demo_spec))" "tm_state new_trust \<noteq> Trusted" "ps_trust demo_spec = Trusted"
    by (simp_all add: demo_spec_def new_trust_def isRepoTier_def)
  moreover have "jm_get (lg_tallies (new_ledger :: (js_text \<times> js_text) ledger)) k = None"
    "length (gr_entries (group_of kd (new_ledger :: (js_text \<times> js_text) ledger))) < KIND_ENTRIES" for k kd
    by (simp_all add: new_ledger_def group_of_def KIND_ENTRIES_def)
  ultimately show ?thesis
    using refusal_of_a_new_episode_is_logged [of demo_spec new_trust new_ledger Pair] by (auto simp: new_ledger_def)
qed

text \<open>
  Every refused install pushes an entry, also the same one again. Twenty of them fill the
  entries of the kind, and the first refusal of a command is then counted and not logged
  durably, although its subject is new.
\<close>

primrec install_attempts :: "nat \<Rightarrow> string \<Rightarrow> trust_module \<times> 'k ledger \<Rightarrow> trust_module \<times> 'k ledger" where
  "install_attempts 0 c st = st"
| "install_attempts (Suc n) c st = fst (assertInstallAllowed c (install_attempts n c st))"

abbreviation denial_text :: js_text where
  "denial_text \<equiv> truncate_text (units ''project is not trusted (host isProjectTrusted() === false)'')"

lemma refusal_kind_text: "truncate_text (units TRUST_REFUSAL_KIND) = units TRUST_REFUSAL_KIND"
  by (simp add: truncate_text_def TRUST_REFUSAL_KIND_def units_def LEDGER_MAX_def)

lemma one_refused_install:
  assumes "tm_state m = Untrusted" and "length es < 20"
    and "lg_groups lg = (if es = [] then [] else [(units TRUST_REFUSAL_KIND, \<lparr>gr_count = length es, gr_entries = es\<rparr>)])"
  shows "tm_state (fst (fst (assertInstallAllowed c (m, lg)))) = Untrusted"
    "lg_rows (snd (fst (assertInstallAllowed c (m, lg)))) = lg_rows lg"
    "lg_groups (snd (fst (assertInstallAllowed c (m, lg)))) = [(units TRUST_REFUSAL_KIND,
       \<lparr>gr_count = Suc (length es), gr_entries = es @ [(subjectForLedger (units c), denial_text)]\<rparr>)]"
proof -
  have kind: "boundedKind (units TRUST_REFUSAL_KIND) lg = units TRUST_REFUSAL_KIND"
    using assms(3) by (auto simp: boundedKind_def Let_def refusal_kind_text jm_has_def MAX_DISTINCT_KINDS_def)
  show "tm_state (fst (fst (assertInstallAllowed c (m, lg)))) = Untrusted"
    "lg_rows (snd (fst (assertInstallAllowed c (m, lg)))) = lg_rows lg"
    "lg_groups (snd (fst (assertInstallAllowed c (m, lg)))) = [(units TRUST_REFUSAL_KIND,
       \<lparr>gr_count = Suc (length es), gr_entries = es @ [(subjectForLedger (units c), denial_text)]\<rparr>)]"
    using assms kind
    by (simp_all add: assertInstallAllowed_def isToolInstallAllowedByTrust_def projectTrustDenialReason_def Let_def
        recordDegradation_def group_of_def put_group_def push_entry_def KIND_ENTRIES_def split: if_splits)
qed

lemma refused_installs:
  fixes lg :: "'k ledger"
  assumes "tm_state m = Untrusted" "lg_groups lg = []" "n \<le> 20"
  shows "tm_state (fst (install_attempts n c (m, lg))) = Untrusted \<and>
    lg_rows (snd (install_attempts n c (m, lg))) = lg_rows lg \<and>
    lg_groups (snd (install_attempts n c (m, lg))) =
       (if n = 0 then [] else [(units TRUST_REFUSAL_KIND,
          \<lparr>gr_count = n, gr_entries = replicate n (subjectForLedger (units c), denial_text)\<rparr>)])"
  using assms(3)
proof (induction n)
  case (Suc n)
  obtain m' lg' where st: "install_attempts n c (m, lg) = (m', lg')" by fastforce
  from Suc st one_refused_install [of m' "replicate n (subjectForLedger (units c), denial_text)" lg' c]
  show ?case by (auto simp: replicate_append_same split: if_splits)
qed (use assms in simp)

theorem crowded_refusal_is_not_logged:
  fixes lg :: "'k ledger"
  assumes "tm_state m = Untrusted" "lg_groups lg = []" "ps_trust s = Trusted" "isRepoTier (prov_tier (ps_provenance s))"
    and "subjectForLedger (units c) \<noteq> subjectForLedger (subjectIdentity (dg_subject (refused_event m' s Host_trust)))"
    and "install_attempts 20 c (m, lg) = (m', lg')"
  shows "lg_rows (fst (toSpawnArgs digest m' s lg')) = lg_rows lg"
proof -
  have k: "truncate_text (dg_kind (refused_event m' s Host_trust)) = units TRUST_REFUSAL_KIND"
    by (simp add: refused_event_def refuse_def refusal_event_def Let_def refusal_kind_text)
  have st: "tm_state m' = Untrusted" "lg_rows lg' = lg_rows lg"
    "lg_groups lg' = [(units TRUST_REFUSAL_KIND, \<lparr>gr_count = 20, gr_entries = replicate 20 (subjectForLedger (units c), denial_text)\<rparr>)]"
    using refused_installs [OF assms(1,2), of 20 c] assms(6) by auto
  then have "lg_rows (fst (incrementDegradationCount digest (refused_event m' s Host_trust) lg')) = lg_rows lg'"
    using assms(5) k by (intro crowded_kind_logs_nothing) (auto simp: KIND_ENTRIES_def)
  with st(1,2) assms(3,4) refuse_ledger [of digest m' s Host_trust lg'] show ?thesis
    by (simp add: toSpawnArgs_def Let_def)
qed

text \<open>An environment variable named \<open>__proto__\<close> is dropped without a rejection.\<close>

lemma proto_variable_is_dropped:
  "buildProcessSpec trusted_host (demo_input\<lparr>si_env := Some [(''__proto__'', JStr ''x''), (''A'', JStr ''1'')]\<rparr>) = Inr demo_spec"
  by (simp add: build_defs demo_input_def demo_spec_def trusted_host_state)

end
