(* ===== verification/Race_Aggregation.thy ===== *)
theory Race_Aggregation
  imports Lens_Prelude
begin

text \<open>
  \<open>raceToCompletion\<close>, \<open>src/clients/lsp/aggregation.ts\<close>: collect the results of several language
  servers until a predicate is satisfied, with a grace window, a bounded window for
  auxiliary servers and a hard timeout.

  The state is the closure's variables; an event is the settlement of a promise or the firing
  of a timer. A timer that was cleared does not fire. Times do not enter the state: which
  armed timer fires when is left to the run, so the statements hold for every timing. The
  predicate may throw (\<open>None\<close>).
\<close>

section \<open>Arguments and state\<close>

datatype server_role = Language | Auxiliary

record promise_descriptor =
  pd_role :: "server_role option"
  pd_budgetMs :: "int option"

record 'a race =
  rc_promises :: nat
  rc_shouldComplete :: "'a list \<Rightarrow> bool option"
  rc_graceMs :: "int option"
  rc_descriptors :: "promise_descriptor list"
  rc_auxGraceMs :: "int option"

record 'a race_state =
  rs_results :: "'a option list"
  rs_settled :: "nat list"
  rs_graceTimer :: bool
  rs_auxGraceTimer :: bool
  rs_completed :: bool
  rs_remaining :: int
  rs_languageRemaining :: int
  rs_auxGraceStarted :: bool
  rs_resolved :: "'a list option"

definition isAuxiliary :: "promise_descriptor \<Rightarrow> bool" where
  "isAuxiliary d = (pd_role d = Some Auxiliary)"

definition auxIndices :: "'a race \<Rightarrow> nat list" where
  "auxIndices rc = filter (\<lambda>i. isAuxiliary (rc_descriptors rc ! i)) [0..<length (rc_descriptors rc)]"

definition hasAuxiliaries :: "'a race \<Rightarrow> bool" where
  "hasAuxiliaries rc = list_ex isAuxiliary (rc_descriptors rc)"

definition race_start :: "'a race \<Rightarrow> 'a race_state" where
  "race_start rc =
     \<lparr>rs_results = replicate (rc_promises rc) None, rs_settled = [], rs_graceTimer = False,
      rs_auxGraceTimer = False, rs_completed = False, rs_remaining = int (rc_promises rc),
      rs_languageRemaining = int (rc_promises rc) - int (length (auxIndices rc)),
      rs_auxGraceStarted = False, rs_resolved = None\<rparr>"

definition collected :: "'a race_state \<Rightarrow> 'a list" where
  "collected st = map the (filter (\<lambda>r. r \<noteq> None) (rs_results st))"

section \<open>The closure's functions\<close>

definition resolve_race :: "'a race_state \<Rightarrow> 'a race_state" where
  "resolve_race st =
     st\<lparr>rs_completed := True, rs_graceTimer := False, rs_auxGraceTimer := False,
       rs_resolved := (case rs_resolved st of None \<Rightarrow> Some (collected st) | Some v \<Rightarrow> Some v)\<rparr>"

text \<open>The callback of the hard timeout; \<open>finalize\<close> clears its timer, so it does not fire after it.\<close>

definition on_timeout :: "'a race_state \<Rightarrow> 'a race_state" where
  "on_timeout st = (if rs_completed st then st else resolve_race st)"

definition finalize_race :: "'a race_state \<Rightarrow> 'a race_state" where
  "finalize_race st = (if rs_completed st then st else resolve_race st)"

definition pending_aux_budgets :: "'a race \<Rightarrow> 'a race_state \<Rightarrow> int list" where
  "pending_aux_budgets rc st =
     concat (map (\<lambda>i. case pd_budgetMs (rc_descriptors rc ! i) of Some b \<Rightarrow> (if b \<ge> 0 then [b] else []) | None \<Rightarrow> [])
       (filter (\<lambda>i. i \<ge> length (rs_results st) \<or> rs_results st ! i = None) (auxIndices rc)))"

definition aux_grace_window :: "'a race \<Rightarrow> 'a race_state \<Rightarrow> int" where
  "aux_grace_window rc st =
     (let ceilingMs = (case rc_auxGraceMs rc of Some ms \<Rightarrow> ms | None \<Rightarrow> 500);
          budgets = pending_aux_budgets rc st
      in if budgets \<noteq> [] then min ceilingMs (foldl max (hd budgets) (tl budgets)) else ceilingMs)"

definition startAuxGrace :: "'a race \<Rightarrow> 'a race_state \<Rightarrow> 'a race_state" where
  "startAuxGrace rc st =
     (if rs_auxGraceStarted st \<or> rs_completed st then st
      else let st1 = st\<lparr>rs_auxGraceStarted := True\<rparr>
           in if aux_grace_window rc st1 \<le> 0 then finalize_race st1
              else st1\<lparr>rs_auxGraceTimer := True\<rparr>)"

text \<open>What \<open>check\<close> does once the predicate is satisfied.\<close>

definition satisfied :: "'a race \<Rightarrow> 'a race_state \<Rightarrow> 'a race_state" where
  "satisfied rc st =
     (if (case rc_graceMs rc of Some ms \<Rightarrow> ms > 0 | None \<Rightarrow> False) \<and> \<not> rs_graceTimer st
      then st\<lparr>rs_graceTimer := True\<rparr>
      else if rs_auxGraceStarted st then st
      else if \<not> hasAuxiliaries rc \<or> rs_languageRemaining st = 0 then finalize_race st
      else st)"

text \<open>\<open>check\<close>: the state, and whether the predicate threw.\<close>

definition check_race :: "'a race \<Rightarrow> 'a race_state \<Rightarrow> 'a race_state \<times> bool" where
  "check_race rc st =
     (if rs_completed st then (st, False)
      else if rs_remaining st = 0 then (finalize_race st, False)
      else let st1 = (if hasAuxiliaries rc \<and> rs_languageRemaining st = 0 \<and> \<not> rs_auxGraceStarted st
                      then startAuxGrace rc st else st)
           in case rc_shouldComplete rc (collected st1) of
                None \<Rightarrow> (st1, True)
              | Some False \<Rightarrow> (st1, False)
              | Some True \<Rightarrow> (satisfied rc st1, False))"

definition count_down :: "'a race \<Rightarrow> nat \<Rightarrow> 'a race_state \<Rightarrow> 'a race_state" where
  "count_down rc i st =
     st\<lparr>rs_remaining := rs_remaining st - 1,
       rs_languageRemaining := rs_languageRemaining st - (if i \<in> set (auxIndices rc) then 0 else 1)\<rparr>"

text \<open>The \<open>catch\<close> handler, for a rejected promise and for a \<open>then\<close> handler that threw.\<close>

definition on_rejected :: "'a race \<Rightarrow> nat \<Rightarrow> 'a race_state \<Rightarrow> 'a race_state" where
  "on_rejected rc i st =
     (if rs_completed st then st else fst (check_race rc (count_down rc i st)))"

definition on_fulfilled :: "'a race \<Rightarrow> nat \<Rightarrow> 'a \<Rightarrow> 'a race_state \<Rightarrow> 'a race_state" where
  "on_fulfilled rc i r st =
     (if rs_completed st then st
      else case check_race rc (count_down rc i (st\<lparr>rs_results := (rs_results st)[i := Some r]\<rparr>)) of
             (st1, False) \<Rightarrow> st1
           | (st1, True) \<Rightarrow> on_rejected rc i st1)"

section \<open>Events\<close>

datatype 'a race_event =
    Fulfilled nat 'a
  | Rejected nat
  | Timeout_fires
  | Grace_fires
  | Aux_grace_fires

text \<open>A promise settles once.\<close>

definition settling :: "'a race \<Rightarrow> nat \<Rightarrow> 'a race_state \<Rightarrow> bool" where
  "settling rc i st \<longleftrightarrow> i < rc_promises rc \<and> i \<notin> set (rs_settled st)"

fun race_step :: "'a race \<Rightarrow> 'a race_event \<Rightarrow> 'a race_state \<Rightarrow> 'a race_state" where
  "race_step rc (Fulfilled i r) st =
     (if settling rc i st then on_fulfilled rc i r (st\<lparr>rs_settled := rs_settled st @ [i]\<rparr>) else st)"
| "race_step rc (Rejected i) st =
     (if settling rc i st then on_rejected rc i (st\<lparr>rs_settled := rs_settled st @ [i]\<rparr>) else st)"
| "race_step rc Timeout_fires st = on_timeout st"
| "race_step rc Grace_fires st = (if rs_graceTimer st then finalize_race st else st)"
| "race_step rc Aux_grace_fires st = (if rs_auxGraceTimer st then finalize_race st else st)"

definition race_run :: "'a race \<Rightarrow> 'a race_event list \<Rightarrow> 'a race_state" where
  "race_run rc es = fold (race_step rc) es (race_start rc)"

section \<open>The counters\<close>

definition language_pending :: "'a race \<Rightarrow> 'a race_state \<Rightarrow> nat set" where
  "language_pending rc st = {i. i < rc_promises rc \<and> i \<notin> set (auxIndices rc) \<and> i \<notin> set (rs_settled st)}"

text \<open>A descriptor at most per promise, and a predicate that does not throw.\<close>

definition proper_race :: "'a race \<Rightarrow> bool" where
  "proper_race rc \<longleftrightarrow> length (rc_descriptors rc) \<le> rc_promises rc \<and> (\<forall>xs. rc_shouldComplete rc xs \<noteq> None)"

text \<open>
  Until it completes the race counts what is pending; it has resolved exactly when it has
  completed; only settled promises have results; the window for auxiliaries opens when no
  language server is pending.
\<close>

definition race_ok :: "'a race \<Rightarrow> 'a race_state \<Rightarrow> bool" where
  "race_ok rc st \<longleftrightarrow>
     length (rs_results st) = rc_promises rc \<and> distinct (rs_settled st) \<and> set (rs_settled st) \<subseteq> {..<rc_promises rc} \<and>
     (\<forall>i < rc_promises rc. rs_results st ! i \<noteq> None \<longrightarrow> i \<in> set (rs_settled st)) \<and>
     (rs_completed st \<longleftrightarrow> rs_resolved st \<noteq> None) \<and>
     (rs_auxGraceTimer st \<longrightarrow> rs_auxGraceStarted st) \<and>
     (rs_auxGraceStarted st \<longrightarrow> language_pending rc st = {}) \<and>
     (\<not> rs_completed st \<longrightarrow>
        rs_remaining st = int (rc_promises rc) - int (length (rs_settled st)) \<and>
        rs_languageRemaining st = int (card (language_pending rc st)))"

lemma finite_language_pending [simp]: "finite (language_pending rc st)"
  by (rule finite_subset [of _ "{..<rc_promises rc}"]) (auto simp: language_pending_def)

lemma distinct_auxIndices: "distinct (auxIndices rc)"
  by (simp add: auxIndices_def)

lemma auxIndices_less: "proper_race rc \<Longrightarrow> set (auxIndices rc) \<subseteq> {..<rc_promises rc}"
  by (auto simp: auxIndices_def proper_race_def)

lemma race_ok_start:
  assumes "proper_race rc"
  shows "race_ok rc (race_start rc)"
proof -
  have "language_pending rc (race_start rc) = {..<rc_promises rc} - set (auxIndices rc)"
    by (auto simp: language_pending_def race_start_def)
  then have "card (language_pending rc (race_start rc)) = rc_promises rc - length (auxIndices rc)"
    using auxIndices_less [OF assms] distinct_auxIndices [of rc] by (simp add: card_Diff_subset distinct_card)
  moreover have "length (auxIndices rc) \<le> rc_promises rc"
    using auxIndices_less [OF assms] distinct_auxIndices [of rc]
    by (metis card_lessThan card_mono distinct_card finite_lessThan)
  ultimately show ?thesis by (simp add: race_ok_def race_start_def of_nat_diff)
qed

lemma pending_cong: "rs_settled st' = rs_settled st \<Longrightarrow> language_pending rc st' = language_pending rc st"
  by (simp add: language_pending_def)

lemma race_ok_resolve: "race_ok rc st \<Longrightarrow> race_ok rc (resolve_race st)"
  by (simp add: race_ok_def resolve_race_def language_pending_def split: option.split)

lemma race_ok_finalize: "race_ok rc st \<Longrightarrow> race_ok rc (finalize_race st)"
  by (simp add: finalize_race_def race_ok_resolve)

lemma race_ok_aux:
  assumes "race_ok rc st" "rs_languageRemaining st = 0"
  shows "race_ok rc (startAuxGrace rc st)"
proof (cases "rs_completed st")
  case False
  with assms have "language_pending rc st = {}" by (simp add: race_ok_def)
  then have "race_ok rc (st\<lparr>rs_auxGraceStarted := True\<rparr>)"
    "race_ok rc (st\<lparr>rs_auxGraceStarted := True, rs_auxGraceTimer := True\<rparr>)"
    using assms by (simp_all add: race_ok_def language_pending_def)
  with assms show ?thesis by (simp add: startAuxGrace_def Let_def race_ok_finalize)
qed (use assms in \<open>simp add: startAuxGrace_def\<close>)

lemma race_ok_satisfied: "race_ok rc st \<Longrightarrow> race_ok rc (satisfied rc st)"
proof -
  assume ok: "race_ok rc st"
  then have "race_ok rc (st\<lparr>rs_graceTimer := True\<rparr>)" by (simp add: race_ok_def language_pending_def)
  with ok show ?thesis by (simp add: satisfied_def race_ok_finalize)
qed

lemma race_ok_check:
  assumes "race_ok rc st"
  shows "race_ok rc (fst (check_race rc st))"
  using assms race_ok_aux [OF assms] race_ok_satisfied race_ok_finalize
  by (auto simp: check_race_def Let_def split: option.split bool.split)

text \<open>A settlement counts one promise down.\<close>

lemma race_ok_count_down:
  assumes "race_ok rc st" "settling rc i st" "\<not> rs_completed st"
    and "rs = rs_results st \<or> rs = (rs_results st)[i := Some r]"
  shows "race_ok rc (count_down rc i (st\<lparr>rs_settled := rs_settled st @ [i], rs_results := rs\<rparr>))"
proof -
  let ?st = "count_down rc i (st\<lparr>rs_settled := rs_settled st @ [i], rs_results := rs\<rparr>)"
  have p: "language_pending rc ?st = language_pending rc st - {i}"
    by (auto simp: language_pending_def count_down_def)
  have "int (card (language_pending rc ?st)) =
      int (card (language_pending rc st)) - (if i \<in> set (auxIndices rc) then 0 else 1)"
  proof (cases "i \<in> set (auxIndices rc)")
    case True
    then have "i \<notin> language_pending rc st" by (simp add: language_pending_def)
    with True p show ?thesis by simp
  next
    case False
    then have "i \<in> language_pending rc st" using assms(2) by (simp add: language_pending_def settling_def)
    with False p show ?thesis
      by (simp add: card_Diff_singleton) (metis One_nat_def Suc_leI card_gt_0_iff empty_iff finite_language_pending of_nat_1 of_nat_diff)
  qed
  moreover have "\<forall>j < rc_promises rc. rs ! j \<noteq> None \<longrightarrow> j = i \<or> j \<in> set (rs_settled st)"
  proof (intro allI impI)
    fix j assume "j < rc_promises rc" "rs ! j \<noteq> None"
    with assms(1,4) show "j = i \<or> j \<in> set (rs_settled st)"
      by (cases "j = i") (auto simp: race_ok_def)
  qed
  moreover have "length rs = rc_promises rc" using assms(1,4) by (auto simp: race_ok_def)
  ultimately show ?thesis
    using assms(1-3) p by (auto simp: race_ok_def count_down_def settling_def)
qed

lemma race_ok_settled: "race_ok rc st \<Longrightarrow> settling rc i st \<Longrightarrow> rs_completed st \<Longrightarrow> race_ok rc (st\<lparr>rs_settled := rs_settled st @ [i]\<rparr>)"
  by (auto simp: race_ok_def settling_def language_pending_def)

lemma check_total:
  assumes "proper_race rc"
  shows "snd (check_race rc st) = False"
proof -
  obtain b c where "rc_shouldComplete rc (collected st) = Some b"
    "rc_shouldComplete rc (collected (startAuxGrace rc st)) = Some c"
    using assms unfolding proper_race_def by (metis not_None_eq)
  then show ?thesis by (cases b; cases c) (simp_all add: check_race_def Let_def)
qed

lemma fulfilled_proper:
  "proper_race rc \<Longrightarrow> \<not> rs_completed st \<Longrightarrow> on_fulfilled rc i r st =
     fst (check_race rc (count_down rc i (st\<lparr>rs_results := (rs_results st)[i := Some r]\<rparr>)))"
  using check_total [of rc "count_down rc i (st\<lparr>rs_results := (rs_results st)[i := Some r]\<rparr>)"]
  by (cases "check_race rc (count_down rc i (st\<lparr>rs_results := (rs_results st)[i := Some r]\<rparr>))")
     (simp add: on_fulfilled_def)

lemma race_step_ok:
  assumes "race_ok rc st" "proper_race rc"
  shows "race_ok rc (race_step rc e st)"
proof (cases e)
  case (Fulfilled i r)
  show ?thesis
  proof (cases "settling rc i st \<and> \<not> rs_completed st")
    case True
    from race_ok_check [OF race_ok_count_down [OF assms(1), of i "(rs_results st)[i := Some r]" r]] True assms(2)
    show ?thesis by (simp add: Fulfilled fulfilled_proper)
  qed (use Fulfilled assms(1) race_ok_settled [OF assms(1), of i] in \<open>auto simp: on_fulfilled_def\<close>)
next
  case (Rejected i)
  show ?thesis
  proof (cases "settling rc i st \<and> \<not> rs_completed st")
    case True
    from race_ok_check [OF race_ok_count_down [OF assms(1), of i "rs_results st"]] True
    show ?thesis by (simp add: Rejected on_rejected_def)
  qed (use Rejected assms(1) race_ok_settled [OF assms(1), of i] in \<open>auto simp: on_rejected_def\<close>)
qed (use assms(1) in \<open>auto simp: on_timeout_def race_ok_resolve race_ok_finalize\<close>)

interpretation race: event_machine "race_step rc" "\<lambda>st. proper_race rc \<longrightarrow> race_ok rc st" for rc :: "'a race"
  by unfold_locales (use race_step_ok in blast)

lemma race_run_ok: "proper_race rc \<Longrightarrow> race_ok rc (race_run rc es)"
  using race.run_inv [of rc "race_start rc" es] race_ok_start [of rc] by (auto simp: race_run_def)

section \<open>What the race promises\<close>

text \<open>A race that completed never changes what it resolved to.\<close>

lemma step_keeps_resolution:
  assumes "rs_completed st"
  shows "rs_completed (race_step rc e st) \<and> rs_resolved (race_step rc e st) = rs_resolved st"
  using assms by (cases e) (simp_all add: on_fulfilled_def on_rejected_def on_timeout_def finalize_race_def)

lemma steps_keep_resolution:
  "rs_completed st \<Longrightarrow>
     rs_completed (fold (race_step rc) es st) \<and> rs_resolved (fold (race_step rc) es st) = rs_resolved st"
proof (induction es arbitrary: st)
  case (Cons e es)
  then show ?case using step_keeps_resolution [of st rc e] by simp
qed simp

text \<open>Without a quality window, a race with auxiliaries that completes has no language server pending.\<close>

definition no_quality_window :: "'a race \<Rightarrow> bool" where
  "no_quality_window rc \<longleftrightarrow> (case rc_graceMs rc of Some ms \<Rightarrow> ms \<le> 0 | None \<Rightarrow> True)"

definition language_first :: "'a race \<Rightarrow> 'a race_state \<Rightarrow> bool" where
  "language_first rc st \<longleftrightarrow> (rs_completed st \<longrightarrow> language_pending rc st = {}) \<and> \<not> rs_graceTimer st"

lemma pending_resolve [simp]: "language_pending rc (resolve_race st) = language_pending rc st"
  "language_pending rc (finalize_race st) = language_pending rc st"
  by (simp_all add: language_pending_def resolve_race_def finalize_race_def)

lemma first_finalize:
  "language_first rc st \<Longrightarrow> language_pending rc st = {} \<Longrightarrow> language_first rc (finalize_race st)"
  by (simp add: language_first_def finalize_race_def) (simp add: resolve_race_def)

lemma all_settled_no_pending:
  assumes "race_ok rc st" "\<not> rs_completed st" "rs_remaining st = 0"
  shows "language_pending rc st = {}"
proof -
  from assms have "card (set (rs_settled st)) = rc_promises rc"
    by (simp add: race_ok_def distinct_card)
  moreover have "set (rs_settled st) \<subseteq> {..<rc_promises rc}" using assms(1) by (simp add: race_ok_def)
  ultimately have "set (rs_settled st) = {..<rc_promises rc}"
    by (simp add: card_subset_eq)
  then show ?thesis by (auto simp: language_pending_def)
qed

lemma first_aux:
  assumes "race_ok rc st" "language_first rc st" "rs_languageRemaining st = 0"
  shows "language_first rc (startAuxGrace rc st)"
proof (cases "rs_completed st")
  case False
  with assms have "language_pending rc st = {}" by (simp add: race_ok_def)
  then have "language_first rc (st\<lparr>rs_auxGraceStarted := True\<rparr>)"
    "language_pending rc (st\<lparr>rs_auxGraceStarted := True\<rparr>) = {}"
    "language_first rc (st\<lparr>rs_auxGraceStarted := True, rs_auxGraceTimer := True\<rparr>)"
    using assms by (simp_all add: language_first_def language_pending_def)
  with assms show ?thesis by (simp add: startAuxGrace_def Let_def first_finalize)
qed (use assms in \<open>simp add: startAuxGrace_def\<close>)

lemma first_satisfied:
  assumes "race_ok rc st" "language_first rc st" "hasAuxiliaries rc" "no_quality_window rc"
  shows "language_first rc (satisfied rc st)"
proof -
  have "\<not> rs_completed st \<Longrightarrow> rs_languageRemaining st = 0 \<Longrightarrow> language_pending rc st = {}"
    using assms(1) by (simp add: race_ok_def)
  moreover have "\<not> (case rc_graceMs rc of Some ms \<Rightarrow> ms > 0 | None \<Rightarrow> False)"
    using assms(4) by (simp add: no_quality_window_def split: option.splits)
  moreover have "rs_completed st \<Longrightarrow> language_first rc (finalize_race st)"
    using assms(2) by (simp add: finalize_race_def)
  ultimately show ?thesis
    using assms(2,3) first_finalize [OF assms(2)] by (cases "rs_completed st") (auto simp: satisfied_def)
qed

lemma first_check:
  assumes "race_ok rc st" "language_first rc st" "hasAuxiliaries rc" "no_quality_window rc"
  shows "language_first rc (fst (check_race rc st))"
proof -
  note ok = race_ok_aux [OF assms(1)] and f = first_aux [OF assms(1,2)]
  have "\<not> rs_completed st \<Longrightarrow> rs_remaining st = 0 \<Longrightarrow> language_first rc (finalize_race st)"
    using first_finalize assms(1,2) all_settled_no_pending by blast
  then show ?thesis
    using assms(2) ok f first_satisfied [OF _ _ assms(3,4)] first_satisfied [OF assms]
    by (auto simp: check_race_def Let_def split: option.split bool.split)
qed

lemma first_settle:
  assumes "race_ok rc st" "language_first rc st" "hasAuxiliaries rc" "no_quality_window rc"
    and "settling rc i st" "\<not> rs_completed st"
    and "rs = rs_results st \<or> rs = (rs_results st)[i := Some r]"
  shows "language_first rc (fst (check_race rc
    (count_down rc i (st\<lparr>rs_settled := rs_settled st @ [i], rs_results := rs\<rparr>))))"
proof -
  have "language_first rc (count_down rc i (st\<lparr>rs_settled := rs_settled st @ [i], rs_results := rs\<rparr>))"
    using assms(2,6) by (simp add: language_first_def count_down_def)
  with first_check race_ok_count_down [OF assms(1,5,6,7)] assms(3,4) show ?thesis by blast
qed

lemma first_settled: "language_first rc st \<Longrightarrow> rs_completed st \<Longrightarrow> language_first rc (st\<lparr>rs_settled := rs_settled st @ [i]\<rparr>)"
  by (auto simp: language_first_def language_pending_def)

lemma first_step:
  assumes "race_ok rc st" "language_first rc st" "hasAuxiliaries rc" "no_quality_window rc" "proper_race rc"
    and "e \<noteq> Timeout_fires"
  shows "language_first rc (race_step rc e st)"
proof (cases e)
  case (Fulfilled i r)
  show ?thesis
  proof (cases "settling rc i st \<and> \<not> rs_completed st")
    case True
    from first_settle [OF assms(1-4), of i "(rs_results st)[i := Some r]" r] True assms(5)
    show ?thesis by (simp add: Fulfilled fulfilled_proper)
  qed (use Fulfilled assms(2) first_settled [OF assms(2), of i] in \<open>auto simp: on_fulfilled_def\<close>)
next
  case (Rejected i)
  show ?thesis
  proof (cases "settling rc i st \<and> \<not> rs_completed st")
    case True
    from first_settle [OF assms(1-4), of i "rs_results st"] True
    show ?thesis by (simp add: Rejected on_rejected_def)
  qed (use Rejected assms(2) first_settled [OF assms(2), of i] in \<open>auto simp: on_rejected_def\<close>)
next
  case Aux_grace_fires
  with assms(1,2) show ?thesis by (auto simp: race_ok_def intro: first_finalize)
qed (use assms(2,6) in \<open>auto simp: language_first_def\<close>)

lemma first_steps:
  assumes "race_ok rc st" "language_first rc st" "hasAuxiliaries rc" "no_quality_window rc" "proper_race rc"
    and "Timeout_fires \<notin> set es"
  shows "language_first rc (fold (race_step rc) es st)"
  using assms
proof (induction es arbitrary: st)
  case (Cons e es)
  then have "race_ok rc (race_step rc e st)" "language_first rc (race_step rc e st)"
    by (auto intro: race_step_ok first_step)
  with Cons show ?case by simp
qed simp

text \<open>
  C14: A race among language servers and auxiliaries, without a quality window, resolves before
  its hard timeout only once every language server has answered or failed.
\<close>

theorem race_waits_for_language_servers:
  assumes "proper_race rc" "hasAuxiliaries rc" "no_quality_window rc" "Timeout_fires \<notin> set es"
    and "rs_resolved (race_run rc es) \<noteq> None" "i < rc_promises rc" "i \<notin> set (auxIndices rc)"
  shows "i \<in> set (rs_settled (race_run rc es))"
proof -
  have "language_first rc (race_start rc)"
    by (simp add: language_first_def race_start_def)
  then have "language_first rc (race_run rc es)"
    unfolding race_run_def using assms race_ok_start by (blast intro: first_steps)
  moreover have "rs_completed (race_run rc es)"
    using race_run_ok [OF assms(1)] assms(5) by (simp add: race_ok_def)
  ultimately show ?thesis using assms(6,7) by (auto simp: language_first_def language_pending_def)
qed

definition two_servers :: "nat race" where
  "two_servers = \<lparr>rc_promises = 2, rc_shouldComplete = (\<lambda>xs. Some (xs \<noteq> [])), rc_graceMs = None,
     rc_descriptors = [\<lparr>pd_role = Some Language, pd_budgetMs = None\<rparr>, \<lparr>pd_role = Some Auxiliary, pd_budgetMs = Some 100\<rparr>],
     rc_auxGraceMs = None\<rparr>"

lemma two_servers_proper: "proper_race two_servers" "hasAuxiliaries two_servers" "no_quality_window two_servers"
  by (simp_all add: two_servers_def proper_race_def hasAuxiliaries_def isAuxiliary_def no_quality_window_def)

lemma two_servers_run:
  "rs_resolved (race_run two_servers [Fulfilled 1 7, Fulfilled 0 5]) = Some [5, 7]" "0 \<notin> set (auxIndices two_servers)"
  by code_simp+

theorem race_waits_for_language_servers_witness:
  "rs_resolved (race_run two_servers [Fulfilled 1 7, Fulfilled 0 5]) = Some [5, 7] \<and>
   0 \<in> set (rs_settled (race_run two_servers [Fulfilled 1 7, Fulfilled 0 5]))"
  using race_waits_for_language_servers [of two_servers "[Fulfilled 1 7, Fulfilled 0 5]" 0]
    two_servers_proper two_servers_run by (simp add: two_servers_def)

text \<open>An open race has a promise left, and a completed one resolved to what it had collected.\<close>

definition race_live :: "'a race_state \<Rightarrow> bool" where
  "race_live st \<longleftrightarrow>
     (if rs_completed st then rs_resolved st = Some (collected st) else rs_remaining st \<noteq> 0 \<and> rs_resolved st = None)"

definition race_open :: "'a race_state \<Rightarrow> bool" where
  "race_open st \<longleftrightarrow> (if rs_completed st then rs_resolved st = Some (collected st) else rs_resolved st = None)"

lemma live_open: "race_live st \<Longrightarrow> race_open st"
  by (auto simp: race_live_def race_open_def split: if_splits)

lemma live_finalize: "race_open st \<Longrightarrow> race_live (finalize_race st)"
  by (simp add: finalize_race_def resolve_race_def race_live_def race_open_def collected_def split: option.split)

lemma live_flags:
  "race_live (st\<lparr>rs_auxGraceStarted := b\<rparr>) = race_live st"
  "race_live (st\<lparr>rs_auxGraceStarted := b, rs_auxGraceTimer := c\<rparr>) = race_live st"
  "race_live (st\<lparr>rs_graceTimer := c\<rparr>) = race_live st"
  by (simp_all add: race_live_def collected_def)

lemma live_aux: "race_live st \<Longrightarrow> race_live (startAuxGrace rc st)"
  by (simp add: startAuxGrace_def Let_def live_flags live_finalize live_open)

lemma live_satisfied: "race_live st \<Longrightarrow> race_live (satisfied rc st)"
  by (simp add: satisfied_def live_flags live_finalize live_open)

lemma live_check:
  assumes "race_open st"
  shows "race_live (fst (check_race rc st))"
proof (cases "rs_completed st")
  case True
  with assms show ?thesis by (simp add: check_race_def race_live_def race_open_def)
next
  case False
  show ?thesis
  proof (cases "rs_remaining st = 0")
    case True
    with False assms show ?thesis by (simp add: check_race_def live_finalize)
  next
    case nonzero: False
    with False assms have "race_live st" by (simp add: race_live_def race_open_def)
    with False nonzero show ?thesis
      by (auto simp: check_race_def Let_def live_aux live_satisfied split: option.split bool.split)
  qed
qed

lemma open_recount: "race_live st \<Longrightarrow> \<not> rs_completed st \<Longrightarrow> race_open (count_down rc i st)"
  by (simp add: race_live_def race_open_def count_down_def)

lemma live_settled: "race_live (st\<lparr>rs_settled := ss\<rparr>) = race_live st"
  by (simp add: race_live_def collected_def)

lemma live_rejected: "race_live st \<Longrightarrow> race_live (on_rejected rc i st)"
  by (simp add: on_rejected_def live_check open_recount)

lemma live_fulfilled:
  assumes "race_live st"
  shows "race_live (on_fulfilled rc i r st)"
proof (cases "rs_completed st")
  case False
  let ?st = "count_down rc i (st\<lparr>rs_results := (rs_results st)[i := Some r]\<rparr>)"
  have "race_open ?st" using assms False by (simp add: race_live_def race_open_def count_down_def)
  then have "race_live (fst (check_race rc ?st))" by (rule live_check)
  with False show ?thesis
    by (cases "check_race rc ?st") (auto simp: on_fulfilled_def live_rejected split: bool.split)
qed (use assms in \<open>simp add: on_fulfilled_def\<close>)

lemma live_step:
  assumes "race_live st"
  shows "race_live (race_step rc e st)"
proof -
  have "race_live (on_timeout st)"
    using live_finalize [OF live_open [OF assms]] by (simp add: on_timeout_def finalize_race_def)
  with assms live_finalize [OF live_open [OF assms]] show ?thesis
    by (cases e) (simp_all add: live_fulfilled live_rejected live_settled)
qed

interpretation live_race: event_machine "race_step rc" race_live for rc :: "'a race"
  by unfold_locales (rule live_step)

lemma race_run_live: "0 < rc_promises rc \<Longrightarrow> race_live (race_run rc es)"
  unfolding race_run_def by (rule live_race.run_inv) (simp add: race_live_def race_start_def)

lemma timeout_completes:
  assumes "Timeout_fires \<in> set es"
  shows "rs_completed (fold (race_step rc) es st)"
  using assms
proof (induction es arbitrary: st)
  case (Cons e es)
  have "rs_completed (race_step rc Timeout_fires st)" by (simp add: on_timeout_def resolve_race_def)
  with Cons show ?case using steps_keep_resolution [of "race_step rc e st" rc es] by auto
qed simp

lemma settled_completes:
  assumes "proper_race rc" "0 < rc_promises rc" "{..<rc_promises rc} \<subseteq> set (rs_settled (race_run rc es))"
  shows "rs_completed (race_run rc es)"
proof (rule ccontr)
  assume open_race: "\<not> rs_completed (race_run rc es)"
  have ok: "race_ok rc (race_run rc es)" by (rule race_run_ok [OF assms(1)])
  then have "set (rs_settled (race_run rc es)) = {..<rc_promises rc}" "distinct (rs_settled (race_run rc es))"
    using assms(3) by (auto simp: race_ok_def)
  then have "length (rs_settled (race_run rc es)) = rc_promises rc"
    by (metis card_lessThan distinct_card)
  with ok open_race have "rs_remaining (race_run rc es) = 0" by (simp add: race_ok_def)
  with race_run_live [OF assms(2), of es] open_race show False by (simp add: race_live_def)
qed

text \<open>C23: A race over promises has resolved once its timeout fired or all of them settled, whatever the
  predicate answers; the result holds what had arrived, in the order of the servers, and nothing
  later changes it.\<close>

theorem race_resolves_once:
  assumes "proper_race rc" "0 < rc_promises rc"
    and "Timeout_fires \<in> set es \<or> {..<rc_promises rc} \<subseteq> set (rs_settled (race_run rc es))"
  shows "rs_resolved (race_run rc (es @ later)) = Some (collected (race_run rc es))"
proof -
  have "rs_completed (race_run rc es)"
    using assms settled_completes timeout_completes [of es rc "race_start rc"] by (auto simp: race_run_def)
  with race_run_live [OF assms(2), of es] steps_keep_resolution [of "race_run rc es" rc later]
  show ?thesis by (simp add: race_live_def race_run_def)
qed

lemma two_servers_timeout: "collected (race_run two_servers [Fulfilled 1 7, Timeout_fires]) = [7]"
  by code_simp

theorem race_resolves_once_witness:
  "rs_resolved (race_run two_servers ([Fulfilled 1 7, Timeout_fires] @ [Fulfilled 0 5])) = Some [7]"
  using race_resolves_once [of two_servers "[Fulfilled 1 7, Timeout_fires]" "[Fulfilled 0 5]"]
    two_servers_proper two_servers_timeout by (simp add: two_servers_def)

section \<open>Where the code and its documentation part\<close>

text \<open>A race of three language servers with a quality window.\<close>

definition graceful :: "nat race" where
  "graceful = \<lparr>rc_promises = 3, rc_shouldComplete = (\<lambda>xs. Some (xs \<noteq> [])), rc_graceMs = Some 200,
     rc_descriptors = [], rc_auxGraceMs = None\<rparr>"

text \<open>
  The documentation of \<open>graceMs\<close> has the race wait that many milliseconds for additional results
  after the predicate is satisfied. The first additional result ends the race.
\<close>

lemma additional_result_ends_grace:
  "rs_resolved (race_run graceful [Fulfilled 0 1]) = None \<and>
   rs_resolved (race_run graceful [Fulfilled 0 1, Fulfilled 1 2, Fulfilled 2 3]) = Some [1, 2]"
  by code_simp

text \<open>
  The rejection handler is chained on the fulfilment handler, so it also runs when the predicate
  throws there: the promise is counted down a second time and the race resolves with another
  server still pending.
\<close>

lemma throwing_predicate_counts_twice:
  "rs_resolved (race_run (graceful\<lparr>rc_promises := 2, rc_shouldComplete := (\<lambda>_. None)\<rparr>) [Fulfilled 0 1]) = Some [1]"
  by code_simp

end
