(* ===== verification/Text_Edits.thy ===== *)
theory Text_Edits
  imports Text_Lines Js_Sort Config_Values
begin

text \<open>
  Text edits of the language server protocol, \<open>src/clients/lsp/edits.ts\<close>: positions and
  ranges, the order of application, validation, the conversion of positions to UTF-16, and
  \<open>applyTextEditsToString\<close>.

  A position holds two natural numbers, which is what \<open>isPosition\<close> admits. Errors are values
  of \<open>edit_error\<close>, the left summand of a result. \<open>pathKey\<close> is \<open>pathIndexKey\<close>, whose URL and
  file system look-ups are not modelled; \<open>js_holes\<close> are array slots a JavaScript assignment
  beyond the end leaves empty, which read as the empty line.
\<close>

section \<open>Positions, ranges and edits\<close>

record position =
  pos_line :: nat
  pos_character :: nat

record lsp_range =
  rg_start :: position
  rg_end :: position

record text_edit =
  te_range :: lsp_range
  te_newText :: js_text

datatype edit_error =
    Overlapping lsp_range lsp_range
  | OutOfOrder
  | NotABoundary nat position_encoding

definition comparePosition :: "position \<Rightarrow> position \<Rightarrow> int" where
  "comparePosition a b =
     (if pos_line a = pos_line b then int (pos_character a) - int (pos_character b)
      else int (pos_line a) - int (pos_line b))"

definition rangesOverlap :: "lsp_range \<Rightarrow> lsp_range \<Rightarrow> bool" where
  "rangesOverlap a b =
     (comparePosition (rg_start a) (rg_end b) < 0 \<and> comparePosition (rg_start b) (rg_end a) < 0)"

definition positionsEqual :: "position \<Rightarrow> position \<Rightarrow> bool" where
  "positionsEqual a b = (pos_line a = pos_line b \<and> pos_character a = pos_character b)"

definition isEmptyRange :: "lsp_range \<Rightarrow> bool" where
  "isEmptyRange r = positionsEqual (rg_start r) (rg_end r)"

section \<open>The order of application\<close>

definition applicationOrder :: "text_edit \<times> nat \<Rightarrow> text_edit \<times> nat \<Rightarrow> int" where
  "applicationOrder a b =
     (let startDelta = comparePosition (rg_start (te_range (fst b))) (rg_start (te_range (fst a)));
          endDelta = comparePosition (rg_end (te_range (fst b))) (rg_end (te_range (fst a)))
      in if startDelta \<noteq> 0 then startDelta
         else if endDelta \<noteq> 0 then endDelta
         else int (snd b) - int (snd a))"

definition sortEditsForApplication :: "text_edit list \<Rightarrow> text_edit list" where
  "sortEditsForApplication edits =
     map fst (js_sort applicationOrder (zip edits [0..<length edits]))"

section \<open>Validation\<close>

definition textEditKey :: "(js_text \<Rightarrow> js_text) \<Rightarrow> js_text \<Rightarrow> text_edit \<Rightarrow> js_text" where
  "textEditKey pathKey uri edit =
     pathKey uri @ COLON #
     units (show_nat (pos_line (rg_start (te_range edit)))) @ COLON #
     units (show_nat (pos_character (rg_start (te_range edit)))) @ COLON #
     units (show_nat (pos_line (rg_end (te_range edit)))) @ COLON #
     units (show_nat (pos_character (rg_end (te_range edit)))) @ COLON #
     te_newText edit"

text \<open>The survivors of the duplicate check, with the keys already seen.\<close>

fun dedupe_from :: "(js_text \<Rightarrow> js_text) \<Rightarrow> js_text set \<Rightarrow> text_edit list \<Rightarrow> text_edit list" where
  "dedupe_from pathKey seen [] = []"
| "dedupe_from pathKey seen (edit # edits) =
     (if isEmptyRange (te_range edit) then edit # dedupe_from pathKey seen edits
      else let key = textEditKey pathKey [] edit
           in if key \<in> seen then dedupe_from pathKey seen edits
              else edit # dedupe_from pathKey (insert key seen) edits)"

fun first_overlap :: "text_edit list \<Rightarrow> (lsp_range \<times> lsp_range) option" where
  "first_overlap (later # earlier # rest) =
     (if comparePosition (rg_end (te_range earlier)) (rg_start (te_range later)) > 0
      then Some (te_range earlier, te_range later)
      else first_overlap (earlier # rest))"
| "first_overlap _ = None"

definition validateTextEdits ::
  "(js_text \<Rightarrow> js_text) \<Rightarrow> text_edit list \<Rightarrow> edit_error + text_edit list" where
  "validateTextEdits pathKey edits =
     (let unique = dedupe_from pathKey {} edits
      in case first_overlap (sortEditsForApplication unique) of
           Some (earlier, later) \<Rightarrow> Inl (Overlapping earlier later)
         | None \<Rightarrow> Inr unique)"

section \<open>Positions of a text\<close>

definition mid_pair :: "js_text \<Rightarrow> nat \<Rightarrow> bool" where
  "mid_pair line offset =
     (0 < offset \<and> offset < length line \<and> is_high (line ! (offset - 1)) \<and> is_low (line ! offset))"

definition utf16Position ::
  "js_text \<Rightarrow> position \<Rightarrow> position_encoding \<Rightarrow> edit_error + position" where
  "utf16Position content position encoding =
     (let line = lineTextAt content (pos_line position);
          wireLength = convertCharacterOffset encoding line (length line);
          hasTrailingCR = (line \<noteq> [] \<and> last line = CR);
          clampedLength = (if hasTrailingCR then length line - 1 else length line);
          clampedWireLength = (if hasTrailingCR then wireLength - 1 else wireLength)
      in if pos_character position > clampedWireLength
         then Inr (position\<lparr>pos_character := clampedLength\<rparr>)
         else if encoding = UTF16 then Inr position
         else case find (\<lambda>offset. \<not> (encoding = UTF32 \<and> mid_pair line offset) \<and>
                            convertCharacterOffset encoding line offset = pos_character position)
                     [0..<Suc (length line)] of
                Some offset \<Rightarrow> Inr (position\<lparr>pos_character := offset\<rparr>)
              | None \<Rightarrow> Inl (NotABoundary (pos_character position) encoding))"

definition clampPosition ::
  "js_text \<Rightarrow> position_encoding \<Rightarrow> position \<Rightarrow> edit_error + position" where
  "clampPosition content encoding position =
     (let lines = split_lf content;
          lastLine = length lines - 1
      in if pos_line position \<ge> length lines
         then Inr \<lparr>pos_line = lastLine, pos_character = length (lines ! lastLine)\<rparr>
         else utf16Position content position encoding)"

definition convertEdit ::
  "js_text \<Rightarrow> position_encoding \<Rightarrow> text_edit \<Rightarrow> edit_error + text_edit" where
  "convertEdit content encoding edit =
     (case clampPosition content encoding (rg_start (te_range edit)) of
        Inl err \<Rightarrow> Inl err
      | Inr start \<Rightarrow>
          (case clampPosition content encoding (rg_end (te_range edit)) of
             Inl err \<Rightarrow> Inl err
           | Inr stop \<Rightarrow>
               if comparePosition start stop > 0 then Inl OutOfOrder
               else Inr \<lparr>te_range = \<lparr>rg_start = start, rg_end = stop\<rparr>,
                         te_newText = restoreLineEndings (normalizeToLF (te_newText edit))
                                        (detectLineEnding content)\<rparr>))"

text \<open>\<open>edits.map\<close> of a conversion that may throw: the first failure ends it.\<close>

fun map_throw :: "('a \<Rightarrow> 'e + 'b) \<Rightarrow> 'a list \<Rightarrow> 'e + 'b list" where
  "map_throw f [] = Inr []"
| "map_throw f (x # xs) =
     (case f x of Inl e \<Rightarrow> Inl e
      | Inr y \<Rightarrow> (case map_throw f xs of Inl e \<Rightarrow> Inl e | Inr ys \<Rightarrow> Inr (y # ys)))"

definition normalizeTextEditsForContent ::
  "(js_text \<Rightarrow> js_text) \<Rightarrow> js_text \<Rightarrow> text_edit list \<Rightarrow> position_encoding \<Rightarrow> edit_error + text_edit list" where
  "normalizeTextEditsForContent pathKey content edits encoding =
     (case map_throw (convertEdit content encoding) edits of
        Inl err \<Rightarrow> Inl err
      | Inr converted \<Rightarrow> validateTextEdits pathKey converted)"

section \<open>Application\<close>

definition js_holes :: "nat \<Rightarrow> js_text list" where
  "js_holes n = replicate n []"

text \<open>\<open>lines[i] ?? ""\<close>, \<open>lines[i] = v\<close> and \<open>lines.splice(i, n, ...items)\<close>.\<close>

definition line_at :: "js_text list \<Rightarrow> nat \<Rightarrow> js_text" where
  "line_at lines i = (if i < length lines then lines ! i else [])"

definition set_line :: "nat \<Rightarrow> js_text \<Rightarrow> js_text list \<Rightarrow> js_text list" where
  "set_line i v lines =
     (if i < length lines then lines[i := v] else lines @ js_holes (i - length lines) @ [v])"

definition splice :: "nat \<Rightarrow> nat \<Rightarrow> js_text list \<Rightarrow> js_text list \<Rightarrow> js_text list" where
  "splice i n items lines = take i lines @ items @ drop (i + n) lines"

definition apply_edit :: "js_text list \<Rightarrow> text_edit \<Rightarrow> js_text list" where
  "apply_edit lines edit =
     (let start = rg_start (te_range edit); stop = rg_end (te_range edit)
      in if pos_line start = pos_line stop then
           let line = line_at lines (pos_line start)
           in set_line (pos_line start)
                (take (pos_character start) line @ te_newText edit @ drop (pos_character stop) line) lines
         else
           let startLine = line_at lines (pos_line start);
               endLine = line_at lines (pos_line stop);
               replacement = take (pos_character start) startLine @ te_newText edit @
                             drop (pos_character stop) endLine
           in splice (pos_line start) (pos_line stop - pos_line start + 1) (split_lf replacement) lines)"

definition applyTextEditsToString ::
  "(js_text \<Rightarrow> js_text) \<Rightarrow> js_text \<Rightarrow> text_edit list \<Rightarrow> position_encoding \<Rightarrow> edit_error + js_text" where
  "applyTextEditsToString pathKey content edits positionEncoding =
     (case normalizeTextEditsForContent pathKey content edits positionEncoding of
        Inl err \<Rightarrow> Inl err
      | Inr edits' \<Rightarrow>
          Inr (join_lf (foldl apply_edit (split_lf content) (sortEditsForApplication edits'))))"

end
