(* ===== verification/Edit_Order.thy ===== *)
theory Edit_Order
  imports Text_Edits "HOL-Library.Product_Lexorder"
begin

text \<open>
  The order of application and the overlap check. \<open>comparePosition\<close> is the lexicographic order
  of line and character; \<open>applicationOrder\<close> is a consistent comparator, so sorting has a
  defined result; the check of neighbours in that order finds every overlap of two edits.
\<close>

section \<open>Positions are ordered lexicographically\<close>

abbreviation pos_le :: "position \<Rightarrow> position \<Rightarrow> bool" where
  "pos_le a b \<equiv> comparePosition a b \<le> 0"

lemma comparePosition_le:
  "comparePosition a b \<le> 0 \<longleftrightarrow>
     pos_line a < pos_line b \<or> (pos_line a = pos_line b \<and> pos_character a \<le> pos_character b)"
  by (auto simp: comparePosition_def)

lemma comparePosition_eq_0: "comparePosition a b = 0 \<longleftrightarrow> a = b"
  by (auto simp: comparePosition_def)

lemma comparePosition_swap: "comparePosition b a = - comparePosition a b"
  by (simp add: comparePosition_def)

lemma comparePosition_same [simp]: "comparePosition a a = 0"
  by (simp add: comparePosition_def)

lemma pos_le_trans: "pos_le a b \<Longrightarrow> pos_le b c \<Longrightarrow> pos_le a c"
  unfolding comparePosition_le by auto

lemma pos_le_total: "pos_le a b \<or> pos_le b a"
  unfolding comparePosition_le by auto

lemma pos_le_antisym: "pos_le a b \<Longrightarrow> pos_le b a \<Longrightarrow> a = b"
  unfolding comparePosition_le by auto

lemma pos_less_iff: "comparePosition a b < 0 \<longleftrightarrow> \<not> pos_le b a"
  using comparePosition_swap [of a b] by linarith

lemma pos_greater_iff: "comparePosition a b > 0 \<longleftrightarrow> \<not> pos_le a b"
  by auto

lemma isEmptyRange_iff: "isEmptyRange r \<longleftrightarrow> rg_start r = rg_end r"
  by (auto simp: isEmptyRange_def positionsEqual_def)

section \<open>The comparator\<close>

abbreviation edit_start :: "text_edit \<Rightarrow> position" where "edit_start e \<equiv> rg_start (te_range e)"
abbreviation edit_end :: "text_edit \<Rightarrow> position" where "edit_end e \<equiv> rg_end (te_range e)"

text \<open>What the comparator sorts by, in descending order.\<close>

definition application_key :: "text_edit \<times> nat \<Rightarrow> nat \<times> nat \<times> nat \<times> nat \<times> nat" where
  "application_key a =
     (pos_line (edit_start (fst a)), pos_character (edit_start (fst a)),
      pos_line (edit_end (fst a)), pos_character (edit_end (fst a)), snd a)"

lemma applicationOrder_key: "applicationOrder a b \<le> 0 \<longleftrightarrow> application_key b \<le> application_key a"
  by (auto simp: applicationOrder_def application_key_def comparePosition_def Let_def
      less_eq_prod_def less_prod_def)

interpretation ao: js_comparator applicationOrder
  by unfold_locales (auto simp: applicationOrder_key)

section \<open>The sorted list\<close>

lemma mset_sortEdits [simp]: "mset (sortEditsForApplication es) = mset es"
  unfolding sortEditsForApplication_def by (subst mset_map) (simp flip: mset_map)

lemma set_sortEdits [simp]: "set (sortEditsForApplication es) = set es"
  by (metis mset_sortEdits set_mset_mset)

lemma length_sortEdits [simp]: "length (sortEditsForApplication es) = length es"
  by (metis mset_sortEdits size_mset)

definition applied_before :: "text_edit \<Rightarrow> text_edit \<Rightarrow> bool" where
  "applied_before a b =
     (pos_le (edit_start b) (edit_start a) \<and>
      (edit_start a = edit_start b \<longrightarrow> pos_le (edit_end b) (edit_end a)))"

lemma applicationOrder_before: "applicationOrder a b \<le> 0 \<Longrightarrow> applied_before (fst a) (fst b)"
  by (auto simp: applicationOrder_key application_key_def applied_before_def comparePosition_le
      less_eq_prod_def less_prod_def)

lemma sortEdits_sorted: "sorted_wrt applied_before (sortEditsForApplication es)"
  unfolding sortEditsForApplication_def sorted_wrt_map
  by (rule sorted_wrt_mono_rel [OF _ ao.sorted_js_sort]) (rule applicationOrder_before)

section \<open>The neighbour check finds every overlap\<close>

definition valid_range :: "lsp_range \<Rightarrow> bool" where
  "valid_range r = pos_le (rg_start r) (rg_end r)"

lemma first_overlap_None:
  assumes "list_all (\<lambda>e. valid_range (te_range e)) es"
  shows "first_overlap es = None \<longleftrightarrow>
           sorted_wrt (\<lambda>later earlier. pos_le (edit_end earlier) (edit_start later)) es"
  using assms
proof (induction es rule: first_overlap.induct)
  case (1 later earlier rest)
  have "pos_le (edit_end e) (edit_start later)"
    if "pos_le (edit_end earlier) (edit_start later)" "pos_le (edit_end e) (edit_start earlier)" for e
    using that 1(2) by (auto simp: valid_range_def intro: pos_le_trans)
  with 1 show ?case by (auto simp: pos_greater_iff)
qed auto

lemma no_overlap_before:
  assumes "applied_before a b" "valid_range (te_range a)" "valid_range (te_range b)"
  shows "pos_le (edit_end b) (edit_start a) \<longleftrightarrow> \<not> rangesOverlap (te_range a) (te_range b)"
proof -
  have "pos_le (edit_end b) (edit_start a)" if le: "pos_le (edit_end a) (edit_start b)"
  proof -
    have "pos_le (edit_start a) (edit_start b)" using assms(2) le
      by (auto simp: valid_range_def intro: pos_le_trans)
    with assms(1) have eq: "edit_start a = edit_start b"
      by (auto simp: applied_before_def intro: pos_le_antisym)
    with assms(1) have "pos_le (edit_end b) (edit_end a)" by (simp add: applied_before_def)
    with le eq show ?thesis by (auto intro: pos_le_trans)
  qed
  then show ?thesis by (auto simp: rangesOverlap_def pos_less_iff)
qed

lemma sorted_wrt_symmetric:
  assumes sym: "\<And>x y. P x y \<Longrightarrow> P y x"
  shows "sorted_wrt P xs \<longleftrightarrow> (\<forall>x y. {#x, y#} \<subseteq># mset xs \<longrightarrow> P x y)"
proof (induction xs)
  case (Cons a xs)
  have "(\<forall>x y. {#x, y#} \<subseteq># add_mset a (mset xs) \<longrightarrow> P x y) \<longleftrightarrow>
        (\<forall>y \<in> set xs. P a y) \<and> (\<forall>x y. {#x, y#} \<subseteq># mset xs \<longrightarrow> P x y)" (is "?l \<longleftrightarrow> ?r")
  proof
    assume l: ?l
    have "P a y" if "y \<in> set xs" for y using l that by (auto simp: mset_subset_eq_single)
    moreover have "P x y" if "{#x, y#} \<subseteq># mset xs" for x y
      using l that by (meson mset_subset_eq_add_mset_cancel subset_mset.order_trans mset_subset_eq_add_right
          subset_mset.dual_order.trans multi_psub_of_add_self subset_mset.less_imp_le)
    ultimately show ?r by blast
  next
    assume r: ?r
    show ?l
    proof (intro allI impI)
      fix x y assume sub: "{#x, y#} \<subseteq># add_mset a (mset xs)"
      show "P x y"
      proof (cases "x = a \<or> y = a")
        case True
        then have "\<exists>z. {#x, y#} = {#a, z#}" by (auto simp: add_mset_commute)
        with sub have "x = a \<and> y \<in> set xs \<or> y = a \<and> x \<in> set xs"
          using True by (auto simp: mset_subset_eq_single add_mset_commute [of x y "{#}"])
        with r sym show ?thesis by blast
      next
        case False
        have "count {#x, y#} c \<le> count (mset xs) c" for c
          using mset_subset_eq_count [OF sub, of c] False by (cases "c = a") auto
        then have "{#x, y#} \<subseteq># mset xs" by (simp only: mset_subset_eqI)
        with r show ?thesis by blast
      qed
    qed
  qed
  with Cons show ?case by simp
qed (simp add: mset_subset_eq_insertD)

abbreviation disjoint_edits :: "text_edit \<Rightarrow> text_edit \<Rightarrow> bool" where
  "disjoint_edits a b \<equiv> \<not> rangesOverlap (te_range a) (te_range b)"

lemma rangesOverlap_sym: "rangesOverlap a b = rangesOverlap b a"
  by (auto simp: rangesOverlap_def)

text \<open>The check on the sorted copy decides a property of the unsorted list.\<close>

lemma first_overlap_sorted:
  assumes valid: "list_all (\<lambda>e. valid_range (te_range e)) es"
  shows "first_overlap (sortEditsForApplication es) = None \<longleftrightarrow> sorted_wrt disjoint_edits es"
proof -
  let ?s = "sortEditsForApplication es"
  have v: "list_all (\<lambda>e. valid_range (te_range e)) ?s"
    using valid by (simp add: list_all_iff)
  have "first_overlap ?s = None \<longleftrightarrow>
      sorted_wrt (\<lambda>later earlier. pos_le (edit_end earlier) (edit_start later)) ?s"
    by (rule first_overlap_None [OF v])
  also have "\<dots> \<longleftrightarrow> sorted_wrt disjoint_edits ?s"
    using sortEdits_sorted [of es] v
    unfolding sorted_wrt_iff_nth_less list_all_length by (meson no_overlap_before order.strict_trans)
  also have "\<dots> \<longleftrightarrow> sorted_wrt disjoint_edits es"
    by (simp add: sorted_wrt_symmetric rangesOverlap_sym)
  finally show ?thesis .
qed

section \<open>The duplicate check\<close>

lemma of_char_code_unit_inj: "(of_char c :: code_unit) = of_char d \<longleftrightarrow> c = d"
proof -
  have u: "unat (of_char x :: code_unit) = of_char x" for x :: char
  proof -
    have "(of_char x :: nat) < 256"
      by (metis mod_less_divisor of_char_mod_256 zero_less_numeral)
    then have "(of_char x :: nat) < 65536" by linarith
    then have "(of_char x :: nat) mod 65536 = of_char x" by (rule mod_less)
    then show ?thesis
      using unat_of_nat [of "of_char x", where 'a = 16] by (simp add: of_nat_of_char)
  qed
  then show ?thesis by (metis of_char_eq_iff)
qed

lemma units_inject [simp]: "units s = units t \<longleftrightarrow> s = t"
  unfolding units_def by (rule inj_map_eq_map) (simp add: inj_def of_char_code_unit_inj)

lemma COLON_not_in_number: "COLON \<notin> set (units (show_nat n))"
proof
  assume "COLON \<in> set (units (show_nat n))"
  then obtain c where c: "c \<in> set (show_nat n)" "of_char c = (COLON :: code_unit)"
    by (auto simp: units_def)
  then have "c = CHR '':''" using of_char_code_unit_inj [of c "CHR '':''"] by (simp add: COLON_def)
  with show_nat_digits [OF c(1)] show False by (simp add: is_digit_char_def)
qed

lemma append_sep_inject:
  "x \<notin> set xs \<Longrightarrow> x \<notin> set xs' \<Longrightarrow> xs @ x # ys = xs' @ x # ys' \<longleftrightarrow> xs = xs' \<and> ys = ys'"
proof (induction xs arbitrary: xs')
  case Nil
  then show ?case by (cases xs') auto
next
  case (Cons a xs)
  then show ?case by (cases xs') auto
qed

lemma textEditKey_inject: "textEditKey pathKey uri a = textEditKey pathKey uri b \<longleftrightarrow> a = b"
  by (cases a; cases b; simp add: textEditKey_def append_sep_inject COLON_not_in_number)
     (auto intro!: lsp_range.equality position.equality)

text \<open>What the duplicate check keeps: every insert, and the first of equal replacements.\<close>

fun keep_first :: "text_edit set \<Rightarrow> text_edit list \<Rightarrow> text_edit list" where
  "keep_first seen [] = []"
| "keep_first seen (e # es) =
     (if \<not> isEmptyRange (te_range e) \<and> e \<in> seen then keep_first seen es
      else e # keep_first (insert e seen) es)"

lemma keep_first_cong:
  "(\<And>e. \<not> isEmptyRange (te_range e) \<Longrightarrow> e \<in> seen \<longleftrightarrow> e \<in> seen') \<Longrightarrow> keep_first seen es = keep_first seen' es"
proof (induction es arbitrary: seen seen')
  case (Cons e es)
  have "keep_first seen es = keep_first seen' es"
    by (rule Cons.IH) (rule Cons.prems)
  moreover have "keep_first (insert e seen) es = keep_first (insert e seen') es"
    by (rule Cons.IH) (simp add: Cons.prems)
  ultimately show ?case
    using Cons.prems [of e] by (cases "isEmptyRange (te_range e)") simp_all
qed simp

lemma dedupe_keep_first:
  "dedupe_from pathKey (textEditKey pathKey [] ` seen) es = keep_first seen es"
proof (induction es arbitrary: seen)
  case (Cons e es)
  have mem: "textEditKey pathKey [] e \<in> textEditKey pathKey [] ` seen \<longleftrightarrow> e \<in> seen"
    by (auto simp: textEditKey_inject)
  show ?case
  proof (cases "isEmptyRange (te_range e)")
    case True
    then have "keep_first (insert e seen) es = keep_first seen es"
      by (intro keep_first_cong) auto
    with True Cons show ?thesis by simp
  next
    case False
    with Cons [of "insert e seen"] Cons [of seen] mem show ?thesis by (simp add: Let_def)
  qed
qed simp

lemma dedupe_eq_keep_first: "dedupe_from pathKey {} es = keep_first {} es"
  using dedupe_keep_first [of pathKey "{}"] by simp

lemma set_keep_first: "set (keep_first seen es) \<subseteq> set es"
  by (induction es arbitrary: seen) auto

lemma keep_first_covers: "e \<in> set es \<Longrightarrow> e \<notin> seen \<Longrightarrow> e \<in> set (keep_first seen es)"
  by (induction es arbitrary: seen) auto

lemma list_all_keep_first: "list_all P es \<Longrightarrow> list_all P (keep_first seen es)"
  using set_keep_first by (auto simp: list_all_iff)

text \<open>
  A list of pairwise disjoint edits holds no copy of a replacement, so the check keeps it.
\<close>

lemma overlap_self: "valid_range r \<Longrightarrow> rangesOverlap r r \<longleftrightarrow> \<not> isEmptyRange r"
  by (auto simp: rangesOverlap_def pos_less_iff isEmptyRange_iff valid_range_def dest: pos_le_antisym)

lemma keep_first_disjoint:
  assumes "sorted_wrt disjoint_edits es" "list_all (\<lambda>e. valid_range (te_range e)) es"
    and "\<And>e e'. e \<in> seen \<Longrightarrow> e' \<in> set es \<Longrightarrow> disjoint_edits e e'"
  shows "keep_first seen es = es"
  using assms
proof (induction es arbitrary: seen)
  case (Cons e es)
  from Cons.prems have "e \<in> seen \<Longrightarrow> isEmptyRange (te_range e)"
    using overlap_self [of "te_range e"] by auto
  moreover have "keep_first (insert e seen) es = es"
    by (rule Cons.IH) (use Cons.prems in auto)
  ultimately show ?case by auto
qed simp

lemma validate_disjoint:
  assumes "sorted_wrt disjoint_edits es" "list_all (\<lambda>e. valid_range (te_range e)) es"
  shows "validateTextEdits pathKey es = Inr es"
  using assms keep_first_disjoint [of es "{}"] first_overlap_sorted [of es]
  by (simp add: validateTextEdits_def dedupe_eq_keep_first Let_def)

lemma validate_Inr:
  assumes "validateTextEdits pathKey es = Inr us" "list_all (\<lambda>e. valid_range (te_range e)) es"
  shows "us = keep_first {} es \<and> sorted_wrt disjoint_edits us"
  using assms first_overlap_sorted [OF list_all_keep_first [OF assms(2), of "{}"]]
  by (auto simp: validateTextEdits_def dedupe_eq_keep_first Let_def split: option.splits)

lemma first_overlap_Some:
  assumes "first_overlap es = Some (r, r')" "sorted_wrt applied_before es"
    "list_all (\<lambda>e. valid_range (te_range e)) es"
  shows "\<exists>a b. a \<in> set es \<and> b \<in> set es \<and> r = te_range a \<and> r' = te_range b \<and> rangesOverlap r r'"
  using assms
proof (induction es rule: first_overlap.induct)
  case (1 later earlier rest)
  show ?case
  proof (cases "comparePosition (edit_end earlier) (edit_start later) > 0")
    case True
    with 1 have "rangesOverlap (te_range later) (te_range earlier)"
      using no_overlap_before [of later earlier] by (auto simp: pos_greater_iff)
    with True 1(2) show ?thesis by (auto simp: rangesOverlap_sym)
  next
    case False
    with 1 show ?thesis by (simp add: pos_greater_iff) blast
  qed
qed auto

lemma validate_Inl:
  assumes "list_all (\<lambda>e. valid_range (te_range e)) es" "\<not> sorted_wrt disjoint_edits (keep_first {} es)"
  shows "\<exists>a b. a \<in> set es \<and> b \<in> set es \<and> rangesOverlap (te_range a) (te_range b) \<and>
           validateTextEdits pathKey es = Inl (Overlapping (te_range a) (te_range b))"
proof -
  let ?s = "sortEditsForApplication (keep_first {} es)"
  have v: "list_all (\<lambda>e. valid_range (te_range e)) (keep_first {} es)"
    by (rule list_all_keep_first [OF assms(1)])
  with assms(2) obtain r r' where some: "first_overlap ?s = Some (r, r')"
    using first_overlap_sorted [OF v] by fastforce
  from v have "list_all (\<lambda>e. valid_range (te_range e)) ?s" by (simp add: list_all_iff)
  from first_overlap_Some [OF some sortEdits_sorted this] show ?thesis
    using some set_keep_first [of "{}" es]
    by (auto simp: validateTextEdits_def dedupe_eq_keep_first Let_def)
qed

text \<open>
  C32: the validation of text edits is exact. For edits whose ranges are not reversed it
  keeps every insert and the first copy of each replacement, in the order of the array, and
  fails exactly when two of the edits it keeps overlap, although it only compares
  neighbours in the order of application.
\<close>

theorem validate_rejects_exactly_overlaps:
  assumes "list_all (\<lambda>e. valid_range (te_range e)) es"
  shows "if sorted_wrt disjoint_edits (keep_first {} es)
         then validateTextEdits pathKey es = Inr (keep_first {} es)
         else \<exists>a b. a \<in> set es \<and> b \<in> set es \<and> rangesOverlap (te_range a) (te_range b) \<and>
                validateTextEdits pathKey es = Inl (Overlapping (te_range a) (te_range b))"
proof (cases "sorted_wrt disjoint_edits (keep_first {} es)")
  case True
  then have "first_overlap (sortEditsForApplication (keep_first {} es)) = None"
    using first_overlap_sorted [OF list_all_keep_first [OF assms]] by simp
  with True show ?thesis by (simp add: validateTextEdits_def dedupe_eq_keep_first Let_def)
qed (use validate_Inl [OF assms] in simp)

definition demo_edit :: "nat \<Rightarrow> nat \<Rightarrow> nat \<Rightarrow> nat \<Rightarrow> string \<Rightarrow> text_edit" where
  "demo_edit sl sc el ec t =
     \<lparr>te_range = \<lparr>rg_start = \<lparr>pos_line = sl, pos_character = sc\<rparr>,
                  rg_end = \<lparr>pos_line = el, pos_character = ec\<rparr>\<rparr>,
      te_newText = units t\<rparr>"

theorem validate_rejects_exactly_overlaps_witness:
  "validateTextEdits id [demo_edit 0 0 0 3 ''a'', demo_edit 0 3 0 3 ''b'', demo_edit 0 3 0 5 ''c''] =
     Inr [demo_edit 0 0 0 3 ''a'', demo_edit 0 3 0 3 ''b'', demo_edit 0 3 0 5 ''c''] \<and>
   (\<exists>r r'. validateTextEdits id [demo_edit 0 0 0 3 ''a'', demo_edit 0 2 0 2 ''b''] = Inl (Overlapping r r'))"
  using validate_rejects_exactly_overlaps [of "[demo_edit 0 0 0 3 ''a'', demo_edit 0 3 0 3 ''b'', demo_edit 0 3 0 5 ''c'']" id]
    validate_rejects_exactly_overlaps [of "[demo_edit 0 0 0 3 ''a'', demo_edit 0 2 0 2 ''b'']" id]
  by (auto simp: demo_edit_def valid_range_def comparePosition_def rangesOverlap_def isEmptyRange_def positionsEqual_def)

end
