(* ===== verification/Edit_Apply.thy ===== *)
theory Edit_Apply
  imports Edit_Order
begin

text \<open>
  What applying text edits computes. The code edits an array of lines in place, last position
  first; a single-line edit may leave a line that holds line feeds, and a multi-line edit
  splits its replacement again. The reference \<open>rebuild\<close> copies the original text once, from
  front to back, and puts each new text where its range was.
\<close>

section \<open>Offsets\<close>

definition text_offset :: "js_text \<Rightarrow> position \<Rightarrow> nat" where
  "text_offset content p =
     sum_list (map (\<lambda>l. length l + 1) (take (pos_line p) (split_lf content))) + pos_character p"

text \<open>\<open>cur\<close> is where the copy stands and \<open>stop\<close> where it ends.\<close>

fun rebuild :: "js_text \<Rightarrow> nat \<Rightarrow> nat \<Rightarrow> (nat \<times> nat \<times> js_text) list \<Rightarrow> js_text" where
  "rebuild s cur stop [] = take (stop - cur) (drop cur s)"
| "rebuild s cur stop ((a, b, t) # es) = take (a - cur) (drop cur s) @ t @ rebuild s b stop es"

definition edit_span :: "js_text \<Rightarrow> text_edit \<Rightarrow> nat \<times> nat \<times> js_text" where
  "edit_span content e =
     (text_offset content (edit_start e), text_offset content (edit_end e), te_newText e)"

lemma rebuild_snoc:
  "rebuild s cur stop (es @ [(a, b, t)]) = rebuild s cur a es @ t @ take (stop - b) (drop b s)"
  by (induction s cur a es rule: rebuild.induct) auto

section \<open>The array of lines after the edits behind a position\<close>

definition pos_in :: "js_text list \<Rightarrow> position \<Rightarrow> bool" where
  "pos_in L p = (pos_line p < length L \<and> pos_character p \<le> length (L ! pos_line p))"

definition text_before :: "js_text list \<Rightarrow> position \<Rightarrow> js_text" where
  "text_before L p =
     concat (map (\<lambda>l. l @ [LF]) (take (pos_line p) L)) @ take (pos_character p) (L ! pos_line p)"

text \<open>Up to \<open>p\<close> the lines are the original ones, and \<open>R\<close> is the text from \<open>p\<close> on.\<close>

definition edited_after :: "js_text list \<Rightarrow> js_text list \<Rightarrow> position \<Rightarrow> js_text \<Rightarrow> bool" where
  "edited_after L lines p R \<longleftrightarrow>
     (\<exists>x ys. lines = take (pos_line p) L @ (take (pos_character p) (L ! pos_line p) @ x) # ys \<and>
             R = join_lf (x # ys))"

lemma join_lf_lines: "ms \<noteq> [] \<Longrightarrow> join_lf (ls @ ms) = concat (map (\<lambda>l. l @ [LF]) ls) @ join_lf ms"
  by (induction ls) (auto simp: join_lf_Cons)

lemma edited_after_join: "edited_after L lines p R \<Longrightarrow> join_lf lines = text_before L p @ R"
  by (auto simp: edited_after_def text_before_def join_lf_lines join_lf_cons_head)

text \<open>The text between two positions, split at its lines.\<close>

lemma edited_after_earlier:
  assumes "edited_after L lines p R" "pos_in L p" "pos_in L q" "pos_le q p"
  shows "\<exists>R'. edited_after L lines q R'"
proof -
  from assms(1) obtain x ys where ls:
    "lines = take (pos_line p) L @ (take (pos_character p) (L ! pos_line p) @ x) # ys"
    by (auto simp: edited_after_def)
  show ?thesis
  proof (cases "pos_line q = pos_line p")
    case True
    with assms(4) have "pos_character q \<le> pos_character p" by (simp add: comparePosition_le)
    then have "take (pos_character p) (L ! pos_line p) =
        take (pos_character q) (L ! pos_line p) @
        drop (pos_character q) (take (pos_character p) (L ! pos_line p))"
      by (metis append_take_drop_id min.absorb1 take_take)
    with ls True show ?thesis unfolding edited_after_def by (metis append.assoc)
  next
    case False
    with assms(4) have lt: "pos_line q < pos_line p" by (simp add: comparePosition_le)
    with assms(2) have "take (pos_line p) L =
        take (pos_line q) L @ L ! pos_line q # drop (Suc (pos_line q)) (take (pos_line p) L)"
      using id_take_nth_drop [of "pos_line q" "take (pos_line p) L"] by (simp add: pos_in_def min_def)
    with ls show ?thesis unfolding edited_after_def
      by (metis append.assoc append_Cons append_take_drop_id)
  qed
qed

lemma edited_after_initial:
  assumes "pos_in L p" shows "\<exists>R. edited_after L L p R"
proof -
  have "L = take (pos_line p) L @ (take (pos_character p) (L ! pos_line p) @
      drop (pos_character p) (L ! pos_line p)) # drop (Suc (pos_line p)) L"
    using assms id_take_nth_drop [of "pos_line p" L] by (simp add: pos_in_def)
  then show ?thesis unfolding edited_after_def by blast
qed

lemma text_offset_length:
  "pos_in (split_lf content) p \<Longrightarrow> text_offset content p = length (text_before (split_lf content) p)"
  by (simp add: text_offset_def text_before_def pos_in_def length_concat comp_def)

lemma text_before_take:
  assumes "pos_in (split_lf content) p"
  shows "text_before (split_lf content) p = take (text_offset content p) content"
proof -
  from edited_after_initial [OF assms] obtain R where "edited_after (split_lf content) (split_lf content) p R" ..
  then have "content = text_before (split_lf content) p @ R" using edited_after_join by fastforce
  then show ?thesis by (metis append_eq_conv_conj assms text_offset_length)
qed

text \<open>Positions keep their order as offsets, and every offset lies in the text.\<close>

lemma text_offset_le_length: "pos_in (split_lf content) p \<Longrightarrow> text_offset content p \<le> length content"
  using text_before_take [of content p] text_offset_length [of content p] by (metis length_take min.cobounded1)

lemma text_before_mono:
  assumes "pos_in L p" "pos_in L q" "pos_le q p"
  shows "length (text_before L q) \<le> length (text_before L p)"
proof (cases "pos_line q = pos_line p")
  case True
  with assms show ?thesis by (simp add: text_before_def comparePosition_le)
next
  case False
  with assms(3) have "pos_line q < pos_line p" by (simp add: comparePosition_le)
  then obtain rest where "take (pos_line p) L = take (pos_line q) L @ L ! pos_line q # rest"
    using assms(1) id_take_nth_drop [of "pos_line q" "take (pos_line p) L"] by (simp add: pos_in_def min_def)
  then show ?thesis by (simp add: text_before_def)
qed

lemma text_offset_mono:
  "pos_in (split_lf content) p \<Longrightarrow> pos_in (split_lf content) q \<Longrightarrow> pos_le q p \<Longrightarrow>
   text_offset content q \<le> text_offset content p"
  by (simp add: text_offset_length text_before_mono)

text \<open>Moving the boundary back exposes the original text in between.\<close>

lemma edited_after_back:
  assumes "edited_after (split_lf content) lines p R"
    and p: "pos_in (split_lf content) p" and q: "pos_in (split_lf content) q" and "pos_le q p"
  shows "edited_after (split_lf content) lines q
           (take (text_offset content p - text_offset content q) (drop (text_offset content q) content) @ R)"
proof -
  from edited_after_earlier [OF assms] obtain R' where R': "edited_after (split_lf content) lines q R'" ..
  with assms(1) have "take (text_offset content q) content @ R' = take (text_offset content p) content @ R"
    using edited_after_join text_before_take p q by metis
  moreover have "take (text_offset content p) content = take (text_offset content q) content @
      take (text_offset content p - text_offset content q) (drop (text_offset content q) content)"
    using text_offset_mono [OF p q assms(4)] by (metis le_add_diff_inverse take_add)
  ultimately show ?thesis using R' by simp
qed

section \<open>One edit\<close>

lemma apply_edit_step:
  assumes ea: "edited_after L lines (edit_end e) R"
    and noLF: "\<And>l. l \<in> set L \<Longrightarrow> LF \<notin> set l"
    and s: "pos_in L (edit_start e)" and t: "pos_in L (edit_end e)"
    and le: "pos_le (edit_start e) (edit_end e)"
  shows "edited_after L (apply_edit lines e) (edit_start e) (te_newText e @ R)"
proof -
  let ?sl = "pos_line (edit_start e)" and ?sc = "pos_character (edit_start e)"
  let ?el = "pos_line (edit_end e)" and ?ec = "pos_character (edit_end e)"
  from ea obtain x ys where ls: "lines = take ?el L @ (take ?ec (L ! ?el) @ x) # ys"
    and R: "R = join_lf (x # ys)" by (auto simp: edited_after_def)
  from t have lens: "length (take ?el L) = ?el" "length (take ?ec (L ! ?el)) = ?ec"
    by (simp_all add: pos_in_def)
  have end_line: "line_at lines ?el = take ?ec (L ! ?el) @ x"
    using lens by (simp add: ls line_at_def nth_append)
  show ?thesis
  proof (cases "?sl = ?el")
    case True
    with le have sc: "?sc \<le> ?ec" by (simp add: comparePosition_le)
    have "apply_edit lines e = take ?el L @ (take ?sc (L ! ?el) @ te_newText e @ x) # ys"
      using True lens sc end_line
      by (simp add: apply_edit_def Let_def set_line_def ls list_update_append min_def)
    with True show ?thesis
      unfolding edited_after_def R by (metis append.assoc join_lf_cons_head)
  next
    case False
    with le have lt: "?sl < ?el" by (simp add: comparePosition_le)
    have start_line: "line_at lines ?sl = L ! ?sl"
      using lt lens by (simp add: ls line_at_def nth_append)
    let ?rest = "te_newText e @ x"
    have nolf: "LF \<notin> set (take ?sc (L ! ?sl))"
      using noLF s by (metis in_set_takeD nth_mem pos_in_def)
    have "apply_edit lines e = take ?sl L @ split_lf (take ?sc (L ! ?sl) @ ?rest) @ ys"
      using False lt lens start_line end_line
      by (simp add: apply_edit_def Let_def splice_def ls min_def)
    also have "\<dots> = take ?sl L @ (take ?sc (L ! ?sl) @ hd (split_lf ?rest)) # (tl (split_lf ?rest) @ ys)"
      by (simp add: split_lf_prefix [OF nolf])
    finally show ?thesis
      unfolding edited_after_def R
      by (metis append_Cons join_lf_cons_head join_split_append split_lf_decomp)
  qed
qed

section \<open>All edits\<close>

lemma apply_edits_rebuild:
  assumes "edited_after (split_lf content) lines p R" "pos_in (split_lf content) p"
    and "list_all (\<lambda>e. pos_in (split_lf content) (edit_start e) \<and> pos_in (split_lf content) (edit_end e) \<and>
           valid_range (te_range e) \<and> pos_le (edit_end e) p) es"
    and "sorted_wrt (\<lambda>later earlier. pos_le (edit_end earlier) (edit_start later)) es"
  shows "join_lf (foldl apply_edit lines es) =
           rebuild content 0 (text_offset content p) (rev (map (edit_span content) es)) @ R"
  using assms
proof (induction es arbitrary: lines p R)
  case Nil
  then show ?case
    by (simp add: edited_after_join text_before_take)
next
  case (Cons e es)
  let ?R = "te_newText e @ take (text_offset content p - text_offset content (edit_end e))
              (drop (text_offset content (edit_end e)) content) @ R"
  have "edited_after (split_lf content) (apply_edit lines e) (edit_start e) ?R"
    by (rule apply_edit_step [OF edited_after_back])
       (use Cons.prems split_lf_no_LF in \<open>auto simp: valid_range_def\<close>)
  from Cons.IH [OF this] Cons.prems show ?case
    by (auto simp: list_all_iff edit_span_def rebuild_snoc)
qed

text \<open>The end of the document, where every clamped position lies before.\<close>

definition text_end :: "js_text \<Rightarrow> position" where
  "text_end content =
     \<lparr>pos_line = length (split_lf content) - 1,
      pos_character = length (split_lf content ! (length (split_lf content) - 1))\<rparr>"

lemma pos_in_text_end: "pos_in (split_lf content) (text_end content)"
  by (simp add: pos_in_def text_end_def)

lemma pos_le_text_end: "pos_in (split_lf content) p \<Longrightarrow> pos_le p (text_end content)"
  by (cases "pos_line p = length (split_lf content) - 1")
     (auto simp: pos_in_def text_end_def comparePosition_le)

lemma edited_after_text_end: "edited_after (split_lf content) (split_lf content) (text_end content) []"
proof -
  have "split_lf content = butlast (split_lf content) @ [last (split_lf content)]" by simp
  moreover have "butlast (split_lf content) = take (length (split_lf content) - 1) (split_lf content)"
    by (rule butlast_conv_take)
  ultimately show ?thesis
    unfolding edited_after_def text_end_def
    by (intro exI [of _ "[]"]) (simp add: last_conv_nth)
qed

lemma text_offset_text_end: "text_offset content (text_end content) = length content"
  using edited_after_join [OF edited_after_text_end, of content]
    text_offset_length [OF pos_in_text_end, of content] by simp

end
