(* ===== verification/Edit_Positions.thy ===== *)
theory Edit_Positions
  imports Edit_Apply
begin

text \<open>
  Positions of a text in the encodings of the protocol: every converted position lies in the
  text and not between the two halves of a line ending, the conversion to UTF-16 inverts
  \<open>convertCharacterOffset\<close>, and converting twice changes nothing.
\<close>

section \<open>Measuring prefixes\<close>

lemma surrogates_disjoint: "is_high c \<Longrightarrow> \<not> is_low c"
proof
  assume "is_high c" "is_low c"
  then have "(0xDC00 :: code_unit) \<le> 0xDBFF" unfolding is_high_def is_low_def by (meson order_trans)
  then show False by simp
qed

lemma utf8_width_pos: "0 < utf8_width c" "utf8_width c \<le> 3"
  by (simp_all add: utf8_width_def)

lemma utf8_length_snoc: "utf8_length s < utf8_length (s @ [c])"
proof (induction s rule: utf8_length.induct)
  case (2 d)
  show ?case using utf8_width_pos [of c] utf8_width_pos [of d] by simp
next
  case (3 d e rest)
  then show ?case by (cases rest) auto
qed (simp add: utf8_width_pos)

lemma code_points_snoc:
  "code_points (s @ [c]) =
     code_points s + (if s \<noteq> [] \<and> is_high (last s) \<and> is_low c then 0 else 1)"
proof (induction s rule: code_points.induct)
  case (3 d e rest)
  then show ?case using surrogates_disjoint [of e] by (cases rest) auto
qed auto

lemma take_Suc_snoc: "n < length s \<Longrightarrow> take (Suc n) s = take n s @ [s ! n]"
  by (rule take_Suc_conv_app_nth)

lemma convert_take:
  "convertCharacterOffset enc line n =
     (case enc of UTF16 \<Rightarrow> n | UTF8 \<Rightarrow> utf8_length (take n line) | UTF32 \<Rightarrow> code_points (take n line))"
  by (cases enc) (auto simp: convertCharacterOffset_def Let_def min_def)

lemma convert_Suc:
  assumes "n < length line"
  shows "convertCharacterOffset enc line n \<le> convertCharacterOffset enc line (Suc n)"
    and "\<not> (enc = UTF32 \<and> mid_pair line n) \<Longrightarrow>
         convertCharacterOffset enc line n < convertCharacterOffset enc line (Suc n)"
proof -
  have "last (take n line) = line ! (n - 1)" if "0 < n"
    using that assms take_Suc_conv_app_nth [of "n - 1" line] by simp
  with assms utf8_length_snoc [of "take n line" "line ! n"] code_points_snoc [of "take n line" "line ! n"]
  show "convertCharacterOffset enc line n \<le> convertCharacterOffset enc line (Suc n)"
    and "\<not> (enc = UTF32 \<and> mid_pair line n) \<Longrightarrow>
         convertCharacterOffset enc line n < convertCharacterOffset enc line (Suc n)"
    by (auto simp: convert_take take_Suc_snoc mid_pair_def split: position_encoding.splits)
qed

lemma convert_mono:
  assumes "m \<le> n" "n \<le> length line"
  shows "convertCharacterOffset enc line m \<le> convertCharacterOffset enc line n"
  using assms
proof (induction n rule: dec_induct)
  case (step k)
  then show ?case using convert_Suc(1) [of k line enc] by simp
qed simp

lemma convert_less:
  assumes "m < n" "n \<le> length line" "\<not> (enc = UTF32 \<and> mid_pair line m)"
  shows "convertCharacterOffset enc line m < convertCharacterOffset enc line n"
  using convert_Suc(2) [of m line enc] convert_mono [of "Suc m" n line enc] assms by simp

section \<open>Where a converted position lies\<close>

text \<open>The length of a line without the carriage return that ends it.\<close>

definition content_length :: "js_text \<Rightarrow> nat" where
  "content_length line = (if line \<noteq> [] \<and> last line = CR then length line - 1 else length line)"

lemma content_length_le: "content_length line \<le> length line"
  by (simp add: content_length_def)

lemma convert_CR:
  assumes "line \<noteq> []" "last line = CR"
  shows "convertCharacterOffset enc line (length line) - 1 = convertCharacterOffset enc line (length line - 1)"
proof -
  have line: "line = butlast line @ [CR]" using assms by (metis append_butlast_last_id)
  have "\<not> is_low CR" by (simp add: is_low_def CR_def)
  then have cp: "code_points (butlast line @ [CR]) = code_points (butlast line) + 1"
    by (simp add: code_points_snoc)
  have u8: "utf8_length (s @ [CR]) = utf8_length s + 1" for s
  proof (induction s rule: utf8_length.induct)
    case (3 d e rest)
    then show ?case by (cases rest) auto
  qed (auto simp: utf8_width_def CR_def is_low_def)
  show ?thesis
    using line cp u8 [of "butlast line"] butlast_conv_take [of line]
    by (cases enc) (simp_all add: convert_take)
qed

lemma wire_content_length:
  "(if line \<noteq> [] \<and> last line = CR then convertCharacterOffset enc line (length line) - 1
    else convertCharacterOffset enc line (length line)) =
   convertCharacterOffset enc line (content_length line)"
  using convert_CR [of line enc] by (auto simp: content_length_def)

lemma utf16Position_alt:
  "utf16Position content p enc =
     (let line = lineTextAt content (pos_line p) in
      if pos_character p > convertCharacterOffset enc line (content_length line)
      then Inr (p\<lparr>pos_character := content_length line\<rparr>)
      else if enc = UTF16 then Inr p
      else case find (\<lambda>n. \<not> (enc = UTF32 \<and> mid_pair line n) \<and>
                          convertCharacterOffset enc line n = pos_character p) [0..<Suc (length line)] of
             Some n \<Rightarrow> Inr (p\<lparr>pos_character := n\<rparr>)
           | None \<Rightarrow> Inl (NotABoundary (pos_character p) enc))"
  unfolding utf16Position_def Let_def wire_content_length by (simp add: content_length_def)

definition pos_clear :: "js_text \<Rightarrow> position \<Rightarrow> bool" where
  "pos_clear content p =
     (pos_line p < length (split_lf content) \<and>
      pos_character p \<le> content_length (split_lf content ! pos_line p))"

lemma utf16Position_clear:
  assumes "utf16Position content p enc = Inr q" "pos_line p < length (split_lf content)"
  shows "pos_clear content q"
proof -
  let ?line = "split_lf content ! pos_line p"
  have line: "lineTextAt content (pos_line p) = ?line" using assms(2) by (simp add: lineTextAt_split)
  have "n \<le> content_length ?line"
    if "convertCharacterOffset enc ?line n \<le> convertCharacterOffset enc ?line (content_length ?line)"
      "n \<le> length ?line" for n
  proof (rule ccontr)
    assume "\<not> n \<le> content_length ?line"
    moreover have "\<not> mid_pair ?line (content_length ?line)"
      by (auto simp: mid_pair_def content_length_def is_low_def CR_def last_conv_nth split: if_splits)
    ultimately show False using convert_less [of "content_length ?line" n ?line enc] that by simp
  qed
  with assms show ?thesis
    by (auto simp: utf16Position_alt line Let_def pos_clear_def convert_take
        split: if_splits option.splits dest!: find_SomeD)
qed

lemma pos_clear_in: "pos_clear content p \<Longrightarrow> pos_in (split_lf content) p"
  using content_length_le order_trans by (auto simp: pos_clear_def pos_in_def)

lemma clampPosition_cases:
  assumes "clampPosition content enc p = Inr q"
  shows "pos_clear content q \<or> q = text_end content"
  using assms utf16Position_clear [of content p enc q]
  by (auto simp: clampPosition_def Let_def text_end_def split: if_splits)

lemma clampPosition_in: "clampPosition content enc p = Inr q \<Longrightarrow> pos_in (split_lf content) q"
  using clampPosition_cases pos_clear_in pos_in_text_end by blast

lemma convertEdit_Inr:
  assumes "convertEdit content enc e = Inr e'"
  shows "clampPosition content enc (edit_start e) = Inr (edit_start e')"
    "clampPosition content enc (edit_end e) = Inr (edit_end e')"
    "valid_range (te_range e')"
    "te_newText e' = restoreLineEndings (normalizeToLF (te_newText e)) (detectLineEnding content)"
  using assms by (auto simp: convertEdit_def valid_range_def split: sum.splits if_splits)

lemma map_throw_Inr: "map_throw f xs = Inr ys \<longleftrightarrow> list_all2 (\<lambda>x y. f x = Inr y) xs ys"
proof (induction xs arbitrary: ys)
  case (Cons x xs)
  show ?case
    by (cases ys; cases "f x"; cases "map_throw f xs") (auto simp flip: Cons.IH)
qed auto

lemma normalize_Inr:
  assumes "normalizeTextEditsForContent pathKey content edits enc = Inr es"
  obtains cs where "list_all2 (\<lambda>e c. convertEdit content enc e = Inr c) edits cs"
    "es = keep_first {} cs" "sorted_wrt disjoint_edits es"
    "list_all (\<lambda>e. valid_range (te_range e)) cs"
proof -
  from assms obtain cs where cs: "list_all2 (\<lambda>e c. convertEdit content enc e = Inr c) edits cs"
    and v: "validateTextEdits pathKey cs = Inr es"
    by (auto simp: normalizeTextEditsForContent_def map_throw_Inr split: sum.splits)
  from cs have valid: "list_all (\<lambda>e. valid_range (te_range e)) cs"
    by (auto simp: list_all_length list_all2_conv_all_nth dest: convertEdit_Inr(3))
  show thesis by (rule that [OF cs _ _ valid]) (use validate_Inr [OF v valid] in auto)
qed

text \<open>Every edit that passes the normalization lies in the text.\<close>

lemma normalized_in_text:
  assumes "normalizeTextEditsForContent pathKey content edits enc = Inr es" "e \<in> set es"
  shows "\<exists>e0 \<in> set edits. convertEdit content enc e0 = Inr e"
proof -
  from assms(1) obtain cs where cs: "list_all2 (\<lambda>e c. convertEdit content enc e = Inr c) edits cs"
    "es = keep_first {} cs" by (rule normalize_Inr)
  with assms(2) set_keep_first [of "{}" cs] obtain i where "i < length cs" "e = cs ! i"
    by (auto simp: in_set_conv_nth subset_iff)
  with cs(1) show ?thesis by (auto simp: list_all2_conv_all_nth intro!: bexI [OF _ nth_mem])
qed

section \<open>Application is one simultaneous replacement\<close>

lemma normalized_order:
  assumes "normalizeTextEditsForContent pathKey content edits enc = Inr es"
  shows "sorted_wrt (\<lambda>later earlier. pos_le (edit_end earlier) (edit_start later)) (sortEditsForApplication es)"
    and "list_all (\<lambda>e. pos_in (split_lf content) (edit_start e) \<and> pos_in (split_lf content) (edit_end e) \<and>
           valid_range (te_range e) \<and> pos_le (edit_end e) (text_end content)) (sortEditsForApplication es)"
proof -
  from assms obtain cs where es: "es = keep_first {} cs" "sorted_wrt disjoint_edits es"
    "list_all (\<lambda>e. valid_range (te_range e)) cs" by (rule normalize_Inr)
  then have v: "list_all (\<lambda>e. valid_range (te_range e)) es" by (simp add: list_all_keep_first)
  then have "list_all (\<lambda>e. valid_range (te_range e)) (sortEditsForApplication es)" by (simp add: list_all_iff)
  from first_overlap_None [OF this] first_overlap_sorted [OF v] es(2)
  show "sorted_wrt (\<lambda>later earlier. pos_le (edit_end earlier) (edit_start later)) (sortEditsForApplication es)"
    by simp
  show "list_all (\<lambda>e. pos_in (split_lf content) (edit_start e) \<and> pos_in (split_lf content) (edit_end e) \<and>
           valid_range (te_range e) \<and> pos_le (edit_end e) (text_end content)) (sortEditsForApplication es)"
    using normalized_in_text [OF assms] convertEdit_Inr clampPosition_in pos_le_text_end
    by (simp add: list_all_iff) metis
qed

lemma spans_ascending:
  assumes "sorted_wrt (\<lambda>later earlier. pos_le (edit_end earlier) (edit_start later)) es"
    and "list_all (\<lambda>e. pos_in (split_lf content) (edit_start e) \<and> pos_in (split_lf content) (edit_end e)) es"
  shows "sorted_wrt (\<lambda>(a, b, t) (a', b', t'). b \<le> a') (rev (map (edit_span content) es))"
  unfolding sorted_wrt_rev sorted_wrt_map
  by (rule sorted_wrt_mono_rel [OF _ assms(1)])
     (use assms(2) in \<open>auto simp: list_all_iff edit_span_def text_offset_mono\<close>)

end
