(* ===== verification/Edit_Properties.thy ===== *)
theory Edit_Properties
  imports Edit_Positions
begin

text \<open>
  The properties of text edits: application equals one simultaneous replacement, the two
  normalizations of an edit agree, positions survive the trip through an encoding, and the
  line endings of a file stay uniform.
\<close>

section \<open>Application\<close>

text \<open>
  C16: applying text edits replaces every range of the original text at once. The result is
  a single copy of the original, front to back, in which the text of each edit stands for its
  range: the ranges are those of the normalized edits, each once, ascending, disjoint and
  within the text. When the normalization fails, nothing is applied.
\<close>

theorem applyTextEdits_replaces_simultaneously:
  "case normalizeTextEditsForContent pathKey content edits enc of
     Inl err \<Rightarrow> applyTextEditsToString pathKey content edits enc = Inl err
   | Inr es \<Rightarrow>
       let spans = rev (map (edit_span content) (sortEditsForApplication es))
       in applyTextEditsToString pathKey content edits enc = Inr (rebuild content 0 (length content) spans) \<and>
          mset spans = mset (map (edit_span content) es) \<and>
          sorted_wrt (\<lambda>(a, b, t) (a', b', t'). b \<le> a') spans \<and>
          list_all (\<lambda>(a, b, t). a \<le> b \<and> b \<le> length content) spans"
proof (cases "normalizeTextEditsForContent pathKey content edits enc")
  case (Inr es)
  let ?es = "sortEditsForApplication es"
  note sorted = normalized_order(1) [OF Inr] and inside = normalized_order(2) [OF Inr]
  have "join_lf (foldl apply_edit (split_lf content) ?es) =
      rebuild content 0 (length content) (rev (map (edit_span content) ?es))"
    using apply_edits_rebuild [OF edited_after_text_end pos_in_text_end inside sorted]
    by (simp add: text_offset_text_end)
  moreover have "sorted_wrt (\<lambda>(a, b, t) (a', b', t'). b \<le> a') (rev (map (edit_span content) ?es))"
    by (rule spans_ascending [OF sorted]) (use inside in \<open>auto simp: list_all_iff\<close>)
  moreover have "list_all (\<lambda>(a, b, t). a \<le> b \<and> b \<le> length content) (rev (map (edit_span content) ?es))"
    using inside by (auto simp: list_all_iff edit_span_def valid_range_def text_offset_mono text_offset_le_length)
  moreover have "mset (rev (map (edit_span content) ?es)) = mset (map (edit_span content) es)"
    by (simp add: mset_map del: mset_map) (simp add: mset_map)
  ultimately show ?thesis using Inr by (simp add: applyTextEditsToString_def Let_def)
qed (simp add: applyTextEditsToString_def)

section \<open>Normalizing twice\<close>

lemma crlf_to_lf_restore:
  "CR \<notin> set t \<Longrightarrow> crlf_to_lf (restoreLineEndings t ending) = t"
proof (cases ending)
  case CRLF_Ending
  have "CR \<notin> set t \<Longrightarrow> crlf_to_lf (concat (map (\<lambda>c. if c = LF then [CR, LF] else [c]) t)) = t"
  proof (induction t)
    case (Cons c t)
    show ?case
    proof (cases "c = LF")
      case True
      with Cons show ?thesis by (auto simp: CR_def LF_def)
    next
      case False
      with Cons have "c \<noteq> CR" by auto
      with False Cons show ?thesis
        by (cases "concat (map (\<lambda>c. if c = LF then [CR, LF] else [c]) t)") auto
    qed
  qed simp
  then show "CR \<notin> set t \<Longrightarrow> ?thesis" by (simp add: CRLF_Ending restoreLineEndings_def)
next
  case LF_Ending
  have "CR \<notin> set t \<Longrightarrow> crlf_to_lf t = t" by (induction t rule: crlf_to_lf.induct) auto
  then show "CR \<notin> set t \<Longrightarrow> ?thesis" by (simp add: LF_Ending restoreLineEndings_def)
qed

lemma CR_normalizeToLF: "CR \<notin> set (normalizeToLF t)"
  by (auto simp: normalizeToLF_def CR_def LF_def)

lemma normalizeToLF_restore: "CR \<notin> set t \<Longrightarrow> normalizeToLF (restoreLineEndings t ending) = t"
  unfolding normalizeToLF_def by (simp add: crlf_to_lf_restore) (rule map_idI, auto)

lemma clear_unchanged: "pos_clear content p \<Longrightarrow> clampPosition content UTF16 p = Inr p"
  by (auto simp: pos_clear_def clampPosition_def utf16Position_alt lineTextAt_split convert_take Let_def)

lemma last_line_CR:
  "content = [] \<or> last content \<noteq> CR \<Longrightarrow> pos_clear content (text_end content)"
proof -
  let ?l = "split_lf content ! (length (split_lf content) - 1)"
  assume nocr: "content = [] \<or> last content \<noteq> CR"
  have "content = text_before (split_lf content) (text_end content)"
    using text_before_take [OF pos_in_text_end, of content] by (simp add: text_offset_text_end)
  then have "content = concat (map (\<lambda>l. l @ [LF]) (take (length (split_lf content) - 1) (split_lf content))) @ ?l"
    by (simp add: text_before_def text_end_def)
  then have "?l \<noteq> [] \<Longrightarrow> last ?l = last content \<and> content \<noteq> []" by (metis append_is_Nil_conv last_appendR)
  with nocr show ?thesis by (auto simp: pos_clear_def text_end_def content_length_def)
qed

lemma convertEdit_again:
  assumes "content = [] \<or> last content \<noteq> CR" "convertEdit content enc e0 = Inr e"
  shows "convertEdit content UTF16 e = Inr e"
proof -
  note conv = convertEdit_Inr [OF assms(2)]
  have "clampPosition content UTF16 (edit_start e) = Inr (edit_start e)"
    "clampPosition content UTF16 (edit_end e) = Inr (edit_end e)"
    using clampPosition_cases [OF conv(1)] clampPosition_cases [OF conv(2)] last_line_CR [OF assms(1)]
      clear_unchanged by auto
  with conv(3,4) show ?thesis
    by (auto simp: convertEdit_def valid_range_def normalizeToLF_restore CR_normalizeToLF)
qed

lemma normalized_again:
  assumes "content = [] \<or> last content \<noteq> CR"
    and "normalizeTextEditsForContent pathKey content edits enc = Inr es"
  shows "normalizeTextEditsForContent pathKey' content es UTF16 = Inr es"
proof -
  from assms(2) obtain cs where cs: "es = keep_first {} cs" "sorted_wrt disjoint_edits es"
    "list_all (\<lambda>e. valid_range (te_range e)) cs" by (rule normalize_Inr)
  have "\<forall>e \<in> set es. convertEdit content UTF16 e = Inr e"
    using normalized_in_text [OF assms(2)] convertEdit_again [OF assms(1)] by blast
  then have "map_throw (convertEdit content UTF16) es = Inr es"
    by (auto simp: map_throw_Inr list_all2_same)
  with validate_disjoint [OF cs(2)] cs show ?thesis
    by (simp add: normalizeTextEditsForContent_def list_all_keep_first)
qed

text \<open>
  the preflight and the write agree. An edit is normalized once before any file is
  touched and again, as UTF-16, when it is applied. The second pass returns the edits of the
  first unchanged, so the text written is the one the original edits describe, in whatever
  encoding they came, for every text that does not end in a carriage return.
\<close>

theorem renormalizing_changes_nothing:
  assumes "content = [] \<or> last content \<noteq> CR"
    and "normalizeTextEditsForContent pathKey content edits enc = Inr es"
  shows "normalizeTextEditsForContent pathKey' content es UTF16 = Inr es \<and>
         applyTextEditsToString pathKey' content es UTF16 = applyTextEditsToString pathKey content edits enc"
  using normalized_again [OF assms] by (simp add: applyTextEditsToString_def assms(2))

text \<open>Two lines, a character of the supplementary planes, and a replacement beyond the end.\<close>

definition demo_text :: js_text where
  "demo_text = [0xD83D, 0xDE00] @ units ''ab'' @ [CR, LF] @ units ''cd''"

theorem renormalizing_changes_nothing_witness:
  "applyTextEditsToString id demo_text [demo_edit 0 2 0 3 ''x'', demo_edit 1 1 1 2 ''y''] UTF16 =
   applyTextEditsToString id demo_text [demo_edit 0 4 0 5 ''x'', demo_edit 1 1 9 0 ''y''] UTF8"
proof -
  have "normalizeTextEditsForContent id demo_text [demo_edit 0 4 0 5 ''x'', demo_edit 1 1 9 0 ''y''] UTF8 =
      Inr [demo_edit 0 2 0 3 ''x'', demo_edit 1 1 1 2 ''y'']" by code_simp
  moreover have "demo_text = [] \<or> last demo_text \<noteq> CR" by code_simp
  ultimately show ?thesis using renormalizing_changes_nothing [of demo_text] by blast
qed

text \<open>
  A text that ends in a carriage return is the exception. A replacement of the whole document
  is normalized to end behind that carriage return; normalized again it ends before it, so
  the preflight accepts a replacement of the whole text and the write keeps its last character.
\<close>

lemma final_carriage_return_survives_replacement:
  "case normalizeTextEditsForContent id (units ''a'' @ [CR]) [demo_edit 0 0 9 0 ''x''] UTF16 of
     Inl _ \<Rightarrow> False
   | Inr es \<Rightarrow>
       applyTextEditsToString id (units ''a'' @ [CR]) [demo_edit 0 0 9 0 ''x''] UTF16 = Inr (units ''x'') \<and>
       applyTextEditsToString id (units ''a'' @ [CR]) es UTF16 = Inr (units ''x'' @ [CR])"
  by code_simp

section \<open>Encodings\<close>

lemma find_unique:
  assumes "x \<in> set xs" "P x" "\<And>y. y \<in> set xs \<Longrightarrow> P y \<Longrightarrow> y = x"
  shows "find P xs = Some x"
proof (cases "find P xs")
  case None
  with assms(1,2) show ?thesis by (auto simp: find_None_iff)
next
  case (Some y)
  with assms(3) find_SomeD [OF Some] show ?thesis by auto
qed

text \<open>
  C33: positions survive the trip through an encoding. An offset of a line that does not lie
  behind the carriage return of its line ending or inside a surrogate pair is recovered
  exactly from its offset in the encoding of the server.
\<close>

theorem utf16Position_inverts_encoding:
  assumes "l < length (split_lf content)" "n \<le> content_length (split_lf content ! l)"
    and "\<not> mid_pair (split_lf content ! l) n"
  shows "utf16Position content
           \<lparr>pos_line = l, pos_character = convertCharacterOffset enc (split_lf content ! l) n\<rparr> enc =
         Inr \<lparr>pos_line = l, pos_character = n\<rparr>"
proof -
  let ?line = "split_lf content ! l"
  let ?P = "\<lambda>k. \<not> (enc = UTF32 \<and> mid_pair ?line k) \<and>
              convertCharacterOffset enc ?line k = convertCharacterOffset enc ?line n"
  have len: "n \<le> length ?line" using assms(2) content_length_le order_trans by blast
  have uniq: "k = n" if "k \<in> set [0..<Suc (length ?line)]" "?P k" for k
  proof -
    have "k \<le> length ?line" using that(1) by auto
    then have "\<not> n < k" using convert_less [of n k ?line enc] assms(3) that(2) by auto
    moreover have "\<not> k < n" using convert_less [of k n ?line enc] len that(2) by auto
    ultimately show ?thesis by simp
  qed
  have "find ?P [0..<Suc (length ?line)] = Some n"
    by (rule find_unique) (use uniq len assms(3) in auto)
  moreover have "convertCharacterOffset enc ?line n \<le> convertCharacterOffset enc ?line (content_length ?line)"
    by (rule convert_mono [OF assms(2) content_length_le])
  ultimately show ?thesis
    using assms(1) by (cases "enc = UTF16") (auto simp: utf16Position_alt lineTextAt_split Let_def convert_take)
qed

theorem utf16Position_inverts_encoding_witness:
  "utf16Position demo_text \<lparr>pos_line = 0, pos_character = 5\<rparr> UTF8 = Inr \<lparr>pos_line = 0, pos_character = 3\<rparr> \<and>
   utf16Position demo_text \<lparr>pos_line = 0, pos_character = 2\<rparr> UTF32 = Inr \<lparr>pos_line = 0, pos_character = 3\<rparr>"
proof -
  have "0 < length (split_lf demo_text)" "3 \<le> content_length (split_lf demo_text ! 0)"
    "\<not> mid_pair (split_lf demo_text ! 0) 3" "convertCharacterOffset UTF8 (split_lf demo_text ! 0) 3 = 5"
    "convertCharacterOffset UTF32 (split_lf demo_text ! 0) 3 = 2" by code_simp+
  with utf16Position_inverts_encoding [of 0 demo_text 3 UTF8] utf16Position_inverts_encoding [of 0 demo_text 3 UTF32]
  show ?thesis by metis
qed

text \<open>
  Positions inside a four-byte sequence are not all rejected: \<open>Buffer.byteLength\<close> counts the
  lone first half of a surrogate pair as three bytes, so byte 3 of the sequence is taken for
  the offset between the halves, and an insert there splits the character.
\<close>

lemma utf8_position_splits_a_character:
  "utf16Position demo_text \<lparr>pos_line = 0, pos_character = 3\<rparr> UTF8 = Inr \<lparr>pos_line = 0, pos_character = 1\<rparr> \<and>
   mid_pair (lineTextAt demo_text 0) 1 \<and>
   utf16Position demo_text \<lparr>pos_line = 0, pos_character = 2\<rparr> UTF8 = Inl (NotABoundary 2 UTF8)"
  by code_simp

section \<open>Line endings\<close>

text \<open>Every line feed follows a carriage return; \<open>cr\<close> tells whether one came just before.\<close>

fun crlf_from :: "bool \<Rightarrow> js_text \<Rightarrow> bool" where
  "crlf_from cr [] = True"
| "crlf_from cr (c # cs) = ((c = LF \<longrightarrow> cr) \<and> crlf_from (c = CR) cs)"

definition uniform_endings :: "line_ending \<Rightarrow> js_text \<Rightarrow> bool" where
  "uniform_endings ending s =
     (case ending of LF_Ending \<Rightarrow> CR \<notin> set s | CRLF_Ending \<Rightarrow> crlf_from False s)"

lemma crlf_from_append:
  "crlf_from cr (s @ t) \<longleftrightarrow> crlf_from cr s \<and> crlf_from (if s = [] then cr else last s = CR) t"
  by (induction s arbitrary: cr) auto

lemma crlf_from_weaken: "crlf_from False s \<Longrightarrow> crlf_from cr s"
  by (cases s) auto

lemma crlf_from_restored: "crlf_from False (restoreLineEndings t CRLF_Ending)"
proof -
  have "crlf_from cr (concat (map (\<lambda>c. if c = LF then [CR, LF] else [c]) t))" for cr
    by (induction t arbitrary: cr) (auto simp: CR_def LF_def intro: crlf_from_weaken)
  then show ?thesis by (simp add: restoreLineEndings_def)
qed

lemma crlf_from_piece:
  assumes "crlf_from False s" "b < length s \<longrightarrow> s ! b \<noteq> LF"
  shows "crlf_from cr (take n (drop b s))"
proof -
  have "crlf_from (if take b s = [] then False else last (take b s) = CR) (drop b s)"
    using assms(1) crlf_from_append [of False "take b s" "drop b s"] by simp
  then have "crlf_from cr (drop b s)"
    using assms(2) by (cases "drop b s") (auto simp: drop_eq_Nil nth_via_drop)
  then show ?thesis
    using crlf_from_append [of cr "take n (drop b s)" "drop n (drop b s)"] by (metis append_take_drop_id)
qed

lemma rebuild_crlf:
  assumes "crlf_from False s" "list_all (\<lambda>(a, b, t). crlf_from False t \<and> (b < length s \<longrightarrow> s ! b \<noteq> LF)) es"
    "cur < length s \<longrightarrow> s ! cur \<noteq> LF"
  shows "crlf_from cr (rebuild s cur stop es)"
  using assms
proof (induction s cur stop es arbitrary: cr rule: rebuild.induct)
  case (2 s cur stop a b t es)
  then have "crlf_from cr' (rebuild s b stop es)" for cr' by auto
  with 2 show ?case
    by (auto simp: crlf_from_append crlf_from_piece intro: crlf_from_weaken)
qed (simp add: crlf_from_piece)

lemma clear_position_not_LF:
  assumes "pos_clear content p" "crlf_from False content" "text_offset content p < length content"
  shows "content ! text_offset content p \<noteq> LF"
proof
  let ?L = "split_lf content" let ?l = "?L ! pos_line p"
  assume LF: "content ! text_offset content p = LF"
  note pin = pos_clear_in [OF assms(1)]
  from edited_after_initial [OF pin] obtain x ys where L: "?L = take (pos_line p) ?L @ (take (pos_character p) ?l @ x) # ys"
    and ea: "edited_after ?L ?L p (join_lf (x # ys))" unfolding edited_after_def by blast
  have content: "content = text_before ?L p @ join_lf (x # ys)" using edited_after_join [OF ea] by simp
  then have hd: "join_lf (x # ys) \<noteq> []" "hd (join_lf (x # ys)) = LF"
    using assms(3) LF text_offset_length [OF pin]
    by (metis append.right_neutral nat_less_le, metis append.right_neutral hd_conv_nth nat_less_le nth_append_length_plus add.right_neutral)
  have l: "?l = take (pos_character p) ?l @ x"
    using L pin by (metis length_take min.absorb2 nat_less_le nth_append_length pos_in_def)
  have "LF \<notin> set ?l" using pin by (simp add: pos_in_def split_lf_nth_no_LF)
  with l have "LF \<notin> set x" by (metis Un_iff set_append)
  with hd have x: "x = []" by (cases x; cases ys) (auto simp: join_lf_cons_head)
  with l have full: "pos_character p \<ge> length ?l" by (metis append.right_neutral nle_le take_all_iff)
  with assms(1) have "?l = [] \<or> last ?l \<noteq> CR"
    by (cases ?l) (auto simp: pos_clear_def content_length_def split: if_splits)
  moreover have "text_before ?L p = concat (map (\<lambda>l. l @ [LF]) (take (pos_line p) ?L)) @ ?l"
    using full by (simp add: text_before_def)
  ultimately have "text_before ?L p = [] \<or> last (text_before ?L p) \<noteq> CR"
    by (cases "take (pos_line p) ?L" rule: rev_cases) (auto simp: CR_def LF_def)
  moreover have "crlf_from (if text_before ?L p = [] then False else last (text_before ?L p) = CR) (join_lf (x # ys))"
    using assms(2) crlf_from_append [of False "text_before ?L p" "join_lf (x # ys)"]
    by (simp only: content [symmetric] simp_thms)
  ultimately have "crlf_from False (join_lf (x # ys))" by (auto split: if_splits)
  with hd show False by (cases "join_lf (x # ys)") auto
qed

lemma rebuild_set: "set (rebuild s cur stop es) \<subseteq> set s \<union> (\<Union>(a, b, t) \<in> set es. set t)"
  by (induction s cur stop es rule: rebuild.induct) (auto dest: in_set_takeD in_set_dropD)

lemma end_not_LF:
  assumes "clampPosition content enc p = Inr q" "crlf_from False content" "text_offset content q < length content"
  shows "content ! text_offset content q \<noteq> LF"
  using clampPosition_cases [OF assms(1)]
proof
  assume "q = text_end content"
  with assms(3) show ?thesis by (simp add: text_offset_text_end)
qed (rule clear_position_not_LF [OF _ assms(2,3)])

text \<open>
  edits keep the line endings of a file uniform. In a file whose line feeds all follow
  a carriage return, or one without carriage returns, the applied edits leave no line ending
  of the other kind, whatever endings the new texts came with: their line feeds are rewritten
  and no position falls between a carriage return and its line feed.
\<close>

theorem edits_keep_line_endings_uniform:
  assumes uniform: "uniform_endings (detectLineEnding content) content"
    and ok: "applyTextEditsToString pathKey content edits enc = Inr s"
  shows "uniform_endings (detectLineEnding content) s"
proof -
  from ok obtain es where norm: "normalizeTextEditsForContent pathKey content edits enc = Inr es"
    by (auto simp: applyTextEditsToString_def split: sum.splits)
  let ?spans = "rev (map (edit_span content) (sortEditsForApplication es))"
  have s: "s = rebuild content 0 (length content) ?spans"
    using ok apply_edits_rebuild [OF edited_after_text_end pos_in_text_end
        normalized_order(2) [OF norm] normalized_order(1) [OF norm]]
    by (simp add: applyTextEditsToString_def norm text_offset_text_end)
  have conv: "\<exists>p t0. clampPosition content enc p = Inr (edit_end e) \<and>
      te_newText e = restoreLineEndings (normalizeToLF t0) (detectLineEnding content)" if "e \<in> set es" for e
    using normalized_in_text [OF norm that] convertEdit_Inr(2,4) by blast
  show ?thesis
  proof (cases "detectLineEnding content")
    case LF_Ending
    have "CR \<notin> set (te_newText e)" if "e \<in> set es" for e
      using conv [OF that] by (auto simp: LF_Ending restoreLineEndings_def CR_normalizeToLF)
    with uniform show ?thesis
      using rebuild_set [of content 0 "length content" ?spans]
      by (auto simp: uniform_endings_def LF_Ending s edit_span_def)
  next
    case CRLF_Ending
    then have crlf: "crlf_from False content" using uniform by (simp add: uniform_endings_def)
    have "content \<noteq> [] \<Longrightarrow> content ! 0 \<noteq> LF" using crlf by (cases content) auto
    moreover have "list_all (\<lambda>(a, b, t). crlf_from False t \<and> (b < length content \<longrightarrow> content ! b \<noteq> LF)) ?spans"
      using conv end_not_LF [OF _ crlf] crlf_from_restored
      by (fastforce simp: list_all_iff edit_span_def CRLF_Ending)
    ultimately show ?thesis using crlf rebuild_crlf [OF crlf, of ?spans 0 False]
      by (simp add: uniform_endings_def CRLF_Ending s)
  qed
qed

theorem edits_keep_line_endings_uniform_witness:
  "case applyTextEditsToString id demo_text [demo_edit 0 9 0 9 [CHR 0x0A], demo_edit 1 0 1 0 [CHR 0x0D]] UTF8 of
     Inl _ \<Rightarrow> False
   | Inr s \<Rightarrow> length (split_lf s) = 4 \<and> uniform_endings CRLF_Ending s"
proof -
  let ?es = "[demo_edit 0 9 0 9 [CHR 0x0A], demo_edit 1 0 1 0 [CHR 0x0D]]"
  have d: "detectLineEnding demo_text = CRLF_Ending" "uniform_endings CRLF_Ending demo_text" by code_simp+
  have "case applyTextEditsToString id demo_text ?es UTF8 of Inl _ \<Rightarrow> False | Inr s \<Rightarrow> length (split_lf s) = 4"
    by code_simp
  with d edits_keep_line_endings_uniform [of demo_text id ?es UTF8]
  show ?thesis by (auto split: sum.splits)
qed

end
