(* ===== verification/Edit_Wire.thy ===== *)
theory Edit_Wire
  imports Edit_Properties
begin

text \<open>
  Parsing workspace edits as they arrive from a language server: the shape checks of
  \<open>src/clients/lsp/edits.ts\<close> (\<open>isPosition\<close> to \<open>parseWorkspaceEdit\<close>).

  A \<open>wire\<close> value is a JSON value whose strings and keys are UTF-16 texts; an object is the
  list of its own entries. Every \<open>throw\<close> is a constructor of \<open>parse_error\<close>. The context of a
  message is the container it names.
\<close>

section \<open>Values\<close>

datatype wire =
    WUndef
  | WNull
  | WBool bool
  | WNum jnum
  | WStr js_text
  | WArr "wire list"
  | WObj "(js_text \<times> wire) list"

datatype edit_context = InChanges js_text | InDocumentChanges nat | InContainer js_text

datatype resource_kind = KCreate | KRename | KDelete

datatype parse_error =
    EditsNotArray edit_context
  | MalformedTextEdit edit_context
  | BadVersion edit_context
  | OptionsNotObject resource_kind
  | InvalidOption resource_kind js_text
  | OverwriteAndIgnore resource_kind
  | NoIgnoreIfNotExists resource_kind
  | NoOverwrite
  | UriNotString edit_context
  | EditNotObject
  | ChangesNotObject
  | DocumentChangesNotArray
  | MalformedChange nat
  | CreateUriNotString
  | RenameUrisNotStrings
  | DeleteUriNotString
  | UnsupportedOperation js_text
  | ConflictingVersions js_text
  | DuplicateOperation js_text

record resource_options =
  op_overwrite :: "bool option"
  op_ignoreIfExists :: "bool option"
  op_ignoreIfNotExists :: "bool option"
  op_recursive :: "bool option"

text \<open>\<open>value.key\<close> of an object, \<open>undefined\<close> when the key is absent.\<close>

definition field :: "(js_text \<times> wire) list \<Rightarrow> string \<Rightarrow> wire" where
  "field obj key = (case map_of obj (units key) of None \<Rightarrow> WUndef | Some v \<Rightarrow> v)"

fun isRecord :: "wire \<Rightarrow> bool" where
  "isRecord (WObj _) = True"
| "isRecord _ = False"

fun entries :: "wire \<Rightarrow> (js_text \<times> wire) list" where
  "entries (WObj obj) = obj"
| "entries _ = []"

text \<open>A finite, integral number that is not negative; \<open>-0\<close> passes the checks.\<close>

fun natural :: "wire \<Rightarrow> nat option" where
  "natural (WNum (Fin q)) = (if snd (quotient_of q) = 1 \<and> 0 \<le> q then Some (nat (fst (quotient_of q))) else None)"
| "natural (WNum NegZero) = Some 0"
| "natural _ = None"

section \<open>Text edits\<close>

definition isPosition :: "wire \<Rightarrow> position option" where
  "isPosition v =
     (if isRecord v then
        case (natural (field (entries v) ''line''), natural (field (entries v) ''character'')) of
          (Some l, Some c) \<Rightarrow> Some \<lparr>pos_line = l, pos_character = c\<rparr>
        | _ \<Rightarrow> None
      else None)"

definition isRange :: "wire \<Rightarrow> lsp_range option" where
  "isRange v =
     (if isRecord v then
        case (isPosition (field (entries v) ''start''), isPosition (field (entries v) ''end'')) of
          (Some s, Some e) \<Rightarrow> if comparePosition s e \<le> 0 then Some \<lparr>rg_start = s, rg_end = e\<rparr> else None
        | _ \<Rightarrow> None
      else None)"

definition isTextEdit :: "wire \<Rightarrow> text_edit option" where
  "isTextEdit v =
     (if isRecord v then
        case (isRange (field (entries v) ''range''), field (entries v) ''newText'') of
          (Some r, WStr t) \<Rightarrow> Some \<lparr>te_range = r, te_newText = t\<rparr>
        | _ \<Rightarrow> None
      else None)"

definition parseTextEdits :: "wire \<Rightarrow> edit_context \<Rightarrow> parse_error + text_edit list" where
  "parseTextEdits v context =
     (case v of
        WArr items \<Rightarrow>
          if list_all (\<lambda>item. isTextEdit item \<noteq> None) items
          then Inr (map (\<lambda>item. the (isTextEdit item)) items) else Inl (MalformedTextEdit context)
      | _ \<Rightarrow> Inl (EditsNotArray context))"

text \<open>The version of a document: absent and \<open>null\<close> are both \<open>None\<close>; the planner only asks for a number.\<close>

definition parseVersion :: "wire \<Rightarrow> edit_context \<Rightarrow> parse_error + nat option" where
  "parseVersion v context =
     (if v = WUndef \<or> v = WNull then Inr None
      else case natural v of Some n \<Rightarrow> Inr (Some n) | None \<Rightarrow> Inl (BadVersion context))"

record text_document_edit =
  td_uri :: js_text
  td_version :: "nat option"
  td_edits :: "text_edit list"

text \<open>\<open>Inr None\<close> is the source's \<open>null\<close>: the change is no text document edit.\<close>

definition parseTextDocumentEdit :: "wire \<Rightarrow> edit_context \<Rightarrow> parse_error + text_document_edit option" where
  "parseTextDocumentEdit v context =
     (if \<not> isRecord v \<or> \<not> isRecord (field (entries v) ''textDocument'') then Inr None
      else
        let doc = entries (field (entries v) ''textDocument'')
        in case field doc ''uri'' of
             WStr uri \<Rightarrow>
               (case parseVersion (field doc ''version'') context of
                  Inl err \<Rightarrow> Inl err
                | Inr version \<Rightarrow>
                    (case parseTextEdits (field (entries v) ''edits'') context of
                       Inl err \<Rightarrow> Inl err
                     | Inr edits \<Rightarrow> Inr (Some \<lparr>td_uri = uri, td_version = version, td_edits = edits\<rparr>)))
           | _ \<Rightarrow> Inl (UriNotString context))"

section \<open>Resource operations\<close>

definition allowed_options :: "resource_kind \<Rightarrow> js_text list" where
  "allowed_options kind =
     (if kind = KDelete then [units ''ignoreIfNotExists'', units ''recursive'']
      else [units ''overwrite'', units ''ignoreIfExists''])"

fun wire_bool :: "wire \<Rightarrow> bool option" where
  "wire_bool (WBool b) = Some b"
| "wire_bool _ = None"

definition parseResourceOptions :: "wire \<Rightarrow> resource_kind \<Rightarrow> parse_error + resource_options option" where
  "parseResourceOptions v kind =
     (if v = WUndef then Inr None
      else if \<not> isRecord v then Inl (OptionsNotObject kind)
      else
        let obj = entries v in
        case find (\<lambda>(key, x). key \<notin> set (allowed_options kind) \<or> wire_bool x = None) obj of
          Some (key, _) \<Rightarrow> Inl (InvalidOption kind key)
        | None \<Rightarrow>
            if field obj ''overwrite'' = WBool True \<and> field obj ''ignoreIfExists'' = WBool True
            then Inl (OverwriteAndIgnore kind)
            else if kind \<noteq> KDelete \<and> field obj ''ignoreIfNotExists'' \<noteq> WUndef then Inl (NoIgnoreIfNotExists kind)
            else if kind = KDelete \<and> field obj ''overwrite'' \<noteq> WUndef then Inl NoOverwrite
            else Inr (Some \<lparr>op_overwrite = wire_bool (field obj ''overwrite''),
                            op_ignoreIfExists = wire_bool (field obj ''ignoreIfExists''),
                            op_ignoreIfNotExists = wire_bool (field obj ''ignoreIfNotExists''),
                            op_recursive = wire_bool (field obj ''recursive'')\<rparr>))"

datatype resource_op =
    CreateFile js_text "resource_options option"
  | RenameFile js_text js_text "resource_options option"
  | DeleteFile js_text "resource_options option"

text \<open>
  The switch of \<open>parseWorkspaceEdit\<close> on one change that is no text document edit; the
  operation it stands for is what \<open>parseResource\<close> builds from the same fields later.
\<close>

definition parse_resource_change :: "nat \<Rightarrow> wire \<Rightarrow> parse_error + resource_op" where
  "parse_resource_change index change =
     (let obj = entries change in
      case (isRecord change, field obj ''kind'') of
        (True, WStr kind) \<Rightarrow>
          if kind = units ''create'' then
            (case field obj ''uri'' of
               WStr uri \<Rightarrow> map_sum id (CreateFile uri) (parseResourceOptions (field obj ''options'') KCreate)
             | _ \<Rightarrow> Inl CreateUriNotString)
          else if kind = units ''rename'' then
            (case (field obj ''oldUri'', field obj ''newUri'') of
               (WStr oldUri, WStr newUri) \<Rightarrow>
                 map_sum id (RenameFile oldUri newUri) (parseResourceOptions (field obj ''options'') KRename)
             | _ \<Rightarrow> Inl RenameUrisNotStrings)
          else if kind = units ''delete'' then
            (case field obj ''uri'' of
               WStr uri \<Rightarrow> map_sum id (DeleteFile uri) (parseResourceOptions (field obj ''options'') KDelete)
             | _ \<Rightarrow> Inl DeleteUriNotString)
          else Inl (UnsupportedOperation kind)
      | _ \<Rightarrow> Inl (MalformedChange index))"

section \<open>Workspace edits\<close>

text \<open>One entry of \<open>documentChanges\<close> after parsing.\<close>

datatype document_change = TextChange text_document_edit | ResourceChange resource_op

definition parse_change :: "nat \<times> wire \<Rightarrow> parse_error + document_change" where
  "parse_change entry =
     (case parseTextDocumentEdit (snd entry) (InDocumentChanges (fst entry)) of
        Inl err \<Rightarrow> Inl err
      | Inr (Some edit) \<Rightarrow> Inr (TextChange edit)
      | Inr None \<Rightarrow> map_sum id ResourceChange (parse_resource_change (fst entry) (snd entry)))"

record workspace_edit =
  we_changes :: "(js_text \<times> text_edit list) list"
  we_documentChanges :: "document_change list"

text \<open>
  \<open>parseWorkspaceEdit\<close> only checks; every later pass parses the same containers again. The
  model returns what those passes obtain.
\<close>

definition parseWorkspaceEdit :: "wire \<Rightarrow> parse_error + workspace_edit" where
  "parseWorkspaceEdit edit =
     (if \<not> isRecord edit then Inl EditNotObject
      else
        let changes = field (entries edit) ''changes'';
            documentChanges = field (entries edit) ''documentChanges''
        in if changes \<noteq> WUndef \<and> \<not> isRecord changes then Inl ChangesNotObject
           else case map_throw (\<lambda>(uri, edits). map_sum id (Pair uri) (parseTextEdits edits (InChanges uri)))
                       (entries changes) of
             Inl err \<Rightarrow> Inl err
           | Inr parsed \<Rightarrow>
               (case documentChanges of
                  WUndef \<Rightarrow> Inr \<lparr>we_changes = parsed, we_documentChanges = []\<rparr>
                | WArr items \<Rightarrow>
                    (case map_throw parse_change (zip [0..<length items] items) of
                       Inl err \<Rightarrow> Inl err
                     | Inr docs \<Rightarrow> Inr \<lparr>we_changes = parsed, we_documentChanges = docs\<rparr>)
                | _ \<Rightarrow> Inl DocumentChangesNotArray))"

end
