(* ===== verification/Edit_Plan.thy ===== *)
theory Edit_Plan
  imports Edit_Wire Posix_Path
begin

text \<open>
  The planner of workspace edits, \<open>planWorkspaceEdit\<close> of \<open>src/clients/lsp/edits.ts\<close>: text
  edits of one file are collected until a resource operation touches the file or a directory
  above it, and then written before that operation.

  \<open>pathKey\<close> is \<open>pathIndexKey\<close> (the memo \<open>pathKeys\<close> is transparent). \<open>dirname\<close> is that of
  \<open>Posix_Path\<close>. A loop over a \<open>Map\<close> or \<open>Set\<close> whose body deletes the entry it stands
  on visits the entries the container had at the start.
\<close>

section \<open>The state of the planner\<close>

datatype text_edit_origin =
    FromChanges js_text "text_edit list"
  | FromDocumentChanges nat "text_edit list"

record pending_edits =
  pe_uri :: js_text
  pe_edits :: "text_edit list"
  pe_version :: "nat option"
  pe_origins :: "text_edit_origin list"

datatype plan_op =
    TextOp pending_edits
  | ResourceOp resource_op

record planner =
  pl_ops :: "plan_op list"
  pl_pending :: "(js_text, pending_edits) jmap"
  pl_descendants :: "(js_text, js_text list) jmap"
  pl_indexedAncestors :: "(js_text, js_text list) jmap"
  pl_seenResources :: "js_text list"

definition empty_planner :: planner where
  "empty_planner = \<lparr>pl_ops = [], pl_pending = [], pl_descendants = [], pl_indexedAncestors = [],
                    pl_seenResources = []\<rparr>"

text \<open>\<open>descendants.get(a) ?? []\<close>, and \<open>Set.add\<close> on a list in insertion order.\<close>

definition below :: "planner \<Rightarrow> js_text \<Rightarrow> js_text list" where
  "below st a = (case jm_get (pl_descendants st) a of None \<Rightarrow> [] | Some ks \<Rightarrow> ks)"

definition set_add :: "js_text \<Rightarrow> js_text list \<Rightarrow> js_text list" where
  "set_add k ks = (if k \<in> set ks then ks else ks @ [k])"

definition addIndex :: "js_text \<Rightarrow> planner \<Rightarrow> planner" where
  "addIndex key st =
     (let st' = foldl (\<lambda>s a. s\<lparr>pl_descendants := jm_set a (set_add key (below s a)) (pl_descendants s)\<rparr>)
                  st (ancestors key)
      in st'\<lparr>pl_indexedAncestors := jm_set key (ancestors key) (pl_indexedAncestors st')\<rparr>)"

definition unindex_step :: "js_text \<Rightarrow> planner \<Rightarrow> js_text \<Rightarrow> planner" where
  "unindex_step key s a =
     (case jm_get (pl_descendants s) a of
        None \<Rightarrow> s
      | Some ks \<Rightarrow> s\<lparr>pl_descendants := jm_set a (filter (\<lambda>k. k \<noteq> key) ks) (pl_descendants s)\<rparr>)"

definition removeIndex :: "js_text \<Rightarrow> planner \<Rightarrow> planner" where
  "removeIndex key st =
     (let st' = foldl (unindex_step key) st
                  (case jm_get (pl_indexedAncestors st) key of None \<Rightarrow> [] | Some as \<Rightarrow> as)
      in st'\<lparr>pl_indexedAncestors := jm_delete key (pl_indexedAncestors st')\<rparr>)"

section \<open>Queueing and flushing\<close>

definition queue ::
  "(js_text \<Rightarrow> js_text) \<Rightarrow> js_text \<Rightarrow> text_edit list \<Rightarrow> nat option \<Rightarrow> text_edit_origin option \<Rightarrow>
   planner \<Rightarrow> parse_error + planner" where
  "queue pathKey uri edits version origin st =
     (let key = pathKey uri;
          origins = (case origin of None \<Rightarrow> [] | Some src \<Rightarrow> [src])
      in case jm_get (pl_pending st) key of
           Some existing \<Rightarrow>
             if pe_version existing \<noteq> None \<and> version \<noteq> None \<and> pe_version existing \<noteq> version
             then Inl (ConflictingVersions uri)
             else Inr (st\<lparr>pl_pending := jm_set key
                    (existing\<lparr>pe_edits := pe_edits existing @ edits,
                              pe_origins := pe_origins existing @ origins,
                              pe_version := (if pe_version existing = None then version else pe_version existing)\<rparr>)
                    (pl_pending st)\<rparr>)
         | None \<Rightarrow>
             Inr (addIndex key (st\<lparr>pl_pending := jm_set key
                    \<lparr>pe_uri = uri, pe_edits = edits, pe_version = version, pe_origins = origins\<rparr>
                    (pl_pending st)\<rparr>)))"

definition flushUri :: "(js_text \<Rightarrow> js_text) \<Rightarrow> js_text \<Rightarrow> planner \<Rightarrow> planner" where
  "flushUri pathKey uri st =
     (let key = pathKey uri
      in case jm_get (pl_pending st) key of
           None \<Rightarrow> st
         | Some item \<Rightarrow>
             let st' = removeIndex key (st\<lparr>pl_pending := jm_delete key (pl_pending st)\<rparr>)
             in st'\<lparr>pl_ops := pl_ops st' @ [TextOp item]\<rparr>)"

definition flush_candidate :: "(js_text \<Rightarrow> js_text) \<Rightarrow> planner \<Rightarrow> js_text \<Rightarrow> planner" where
  "flush_candidate pathKey st candidate =
     (case jm_get (pl_pending st) candidate of
        None \<Rightarrow> st
      | Some item \<Rightarrow> flushUri pathKey (pe_uri item) st)"

definition flushSubtree :: "(js_text \<Rightarrow> js_text) \<Rightarrow> js_text \<Rightarrow> planner \<Rightarrow> planner" where
  "flushSubtree pathKey uri st = foldl (flush_candidate pathKey) st (below st (pathKey uri))"

section \<open>The plan\<close>

definition resourceKey :: "(js_text \<Rightarrow> js_text) \<Rightarrow> resource_op \<Rightarrow> js_text" where
  "resourceKey pathKey r =
     (case r of
        RenameFile oldUri newUri _ \<Rightarrow> units ''rename:'' @ pathKey oldUri @ COLON # pathKey newUri
      | CreateFile uri _ \<Rightarrow> units ''create:'' @ pathKey uri
      | DeleteFile uri _ \<Rightarrow> units ''delete:'' @ pathKey uri)"

definition flush_for :: "(js_text \<Rightarrow> js_text) \<Rightarrow> resource_op \<Rightarrow> planner \<Rightarrow> planner" where
  "flush_for pathKey r st =
     (case r of
        CreateFile uri _ \<Rightarrow> flushUri pathKey uri st
      | RenameFile oldUri newUri _ \<Rightarrow> flushSubtree pathKey newUri (flushSubtree pathKey oldUri st)
      | DeleteFile uri _ \<Rightarrow> flushSubtree pathKey uri st)"

definition plan_resource :: "(js_text \<Rightarrow> js_text) \<Rightarrow> resource_op \<Rightarrow> planner \<Rightarrow> parse_error + planner" where
  "plan_resource pathKey r st =
     (let key = resourceKey pathKey r
      in if key \<in> set (pl_seenResources st) then Inl (DuplicateOperation key)
         else
           let st' = flush_for pathKey r (st\<lparr>pl_seenResources := pl_seenResources st @ [key]\<rparr>)
           in Inr (st'\<lparr>pl_ops := pl_ops st' @ [ResourceOp r]\<rparr>))"

fun foldl_throw :: "('s \<Rightarrow> 'x \<Rightarrow> 'e + 's) \<Rightarrow> 's \<Rightarrow> 'x list \<Rightarrow> 'e + 's" where
  "foldl_throw f s [] = Inr s"
| "foldl_throw f s (x # xs) = (case f s x of Inl e \<Rightarrow> Inl e | Inr s' \<Rightarrow> foldl_throw f s' xs)"

definition plan_changes_entry ::
  "(js_text \<Rightarrow> js_text) \<Rightarrow> bool \<Rightarrow> planner \<Rightarrow> js_text \<times> text_edit list \<Rightarrow> parse_error + planner" where
  "plan_changes_entry pathKey trackOrigins st entry =
     queue pathKey (fst entry) (snd entry) None
       (if trackOrigins then Some (FromChanges (fst entry) (snd entry)) else None) st"

definition plan_document_change ::
  "(js_text \<Rightarrow> js_text) \<Rightarrow> bool \<Rightarrow> planner \<Rightarrow> nat \<times> document_change \<Rightarrow> parse_error + planner" where
  "plan_document_change pathKey trackOrigins st entry =
     (case snd entry of
        TextChange text \<Rightarrow>
          queue pathKey (td_uri text) (td_edits text) (td_version text)
            (if trackOrigins then Some (FromDocumentChanges (fst entry) (td_edits text)) else None) st
      | ResourceChange r \<Rightarrow> plan_resource pathKey r st)"

definition flush_rest :: "(js_text \<Rightarrow> js_text) \<Rightarrow> planner \<Rightarrow> planner" where
  "flush_rest pathKey st =
     foldl (\<lambda>s item. flushUri pathKey (pe_uri item) s) st (map snd (pl_pending st))"

definition plan_parsed ::
  "(js_text \<Rightarrow> js_text) \<Rightarrow> bool \<Rightarrow> workspace_edit \<Rightarrow> parse_error + plan_op list" where
  "plan_parsed pathKey trackOrigins edit =
     (case foldl_throw (plan_changes_entry pathKey trackOrigins) empty_planner (we_changes edit) of
        Inl err \<Rightarrow> Inl err
      | Inr st \<Rightarrow>
          (case foldl_throw (plan_document_change pathKey trackOrigins) st
                  (zip [0..<length (we_documentChanges edit)] (we_documentChanges edit)) of
             Inl err \<Rightarrow> Inl err
           | Inr st' \<Rightarrow> Inr (pl_ops (flush_rest pathKey st'))))"

definition planWorkspaceEdit ::
  "(js_text \<Rightarrow> js_text) \<Rightarrow> bool \<Rightarrow> wire \<Rightarrow> parse_error + plan_op list" where
  "planWorkspaceEdit pathKey trackOrigins edit =
     (case parseWorkspaceEdit edit of
        Inl err \<Rightarrow> Inl err
      | Inr parsed \<Rightarrow> plan_parsed pathKey trackOrigins parsed)"

end
