(* ===== verification/Edit_Plan_Order.thy ===== *)
theory Edit_Plan_Order
  imports Edit_Plan
begin

text \<open>
  The planner keeps order. The index of pending files below a directory is exactly the pending
  files that have it as an ancestor, so a resource operation flushes every file it touches;
  hence the edits of a file and the operations that touch it appear in the plan as they
  appeared in the edit.
\<close>

section \<open>The index\<close>

lemma below_frame [simp]:
  "below (st\<lparr>pl_pending := p\<rparr>) a = below st a"
  "below (st\<lparr>pl_ops := ops\<rparr>) a = below st a"
  "below (st\<lparr>pl_seenResources := rs\<rparr>) a = below st a"
  "below (st\<lparr>pl_indexedAncestors := ix\<rparr>) a = below st a"
  by (simp_all add: below_def)

lemma below_index_fold:
  "below (foldl (\<lambda>s a. s\<lparr>pl_descendants := jm_set a (set_add key (below s a)) (pl_descendants s)\<rparr>) st as) a =
     (if a \<in> set as then set_add key (below st a) else below st a)"
proof (induction as arbitrary: st)
  case (Cons x as)
  let ?s = "st\<lparr>pl_descendants := jm_set x (set_add key (below st x)) (pl_descendants st)\<rparr>"
  have "below ?s a = (if a = x then set_add key (below st x) else below st a)"
    by (simp add: below_def jm_get_set)
  then show ?case using Cons [of ?s] by (auto simp: set_add_def)
qed simp

lemma index_fold_frame:
  "pl_ops (foldl (\<lambda>s a. s\<lparr>pl_descendants := jm_set a (set_add key (below s a)) (pl_descendants s)\<rparr>) st as) = pl_ops st"
  "pl_pending (foldl (\<lambda>s a. s\<lparr>pl_descendants := jm_set a (set_add key (below s a)) (pl_descendants s)\<rparr>) st as) = pl_pending st"
  "pl_indexedAncestors (foldl (\<lambda>s a. s\<lparr>pl_descendants := jm_set a (set_add key (below s a)) (pl_descendants s)\<rparr>) st as) = pl_indexedAncestors st"
  by (induction as arbitrary: st) simp_all

lemma addIndex_simps [simp]:
  "pl_ops (addIndex key st) = pl_ops st"
  "pl_pending (addIndex key st) = pl_pending st"
  "jm_get (pl_indexedAncestors (addIndex key st)) k =
     (if k = key then Some (ancestors key) else jm_get (pl_indexedAncestors st) k)"
  by (simp_all add: addIndex_def Let_def index_fold_frame jm_get_set)

lemma below_addIndex:
  "below (addIndex key st) a = (if a \<in> set (ancestors key) then set_add key (below st a) else below st a)"
  by (simp add: addIndex_def Let_def below_index_fold)

lemma unindex_step_frame [simp]:
  "pl_ops (unindex_step key s a) = pl_ops s" "pl_pending (unindex_step key s a) = pl_pending s"
  "pl_indexedAncestors (unindex_step key s a) = pl_indexedAncestors s"
  by (simp_all add: unindex_step_def split: option.splits)

lemma below_unindex_step:
  "below (unindex_step key s x) a = (if a = x then filter (\<lambda>k. k \<noteq> key) (below s a) else below s a)"
  by (cases "jm_get (pl_descendants s) x") (auto simp: below_def unindex_step_def jm_get_set)

lemma unindex_fold:
  "below (foldl (unindex_step key) s as) a =
     (if a \<in> set as then filter (\<lambda>k. k \<noteq> key) (below s a) else below s a)"
  by (induction as arbitrary: s) (auto simp: below_unindex_step)

lemma unindex_fold_frame:
  "pl_ops (foldl (unindex_step key) s as) = pl_ops s"
  "pl_pending (foldl (unindex_step key) s as) = pl_pending s"
  "pl_indexedAncestors (foldl (unindex_step key) s as) = pl_indexedAncestors s"
  by (induction as arbitrary: s) simp_all

lemma removeIndex_simps [simp]:
  "pl_ops (removeIndex key st) = pl_ops st"
  "pl_pending (removeIndex key st) = pl_pending st"
  "jm_get (pl_indexedAncestors (removeIndex key st)) k =
     (if k = key then None else jm_get (pl_indexedAncestors st) k)"
  by (simp_all add: removeIndex_def Let_def unindex_fold_frame jm_get_delete)

lemma below_removeIndex:
  "jm_get (pl_indexedAncestors st) key = Some as \<Longrightarrow>
   below (removeIndex key st) a = (if a \<in> set as then filter (\<lambda>k. k \<noteq> key) (below st a) else below st a)"
  by (simp add: removeIndex_def Let_def unindex_fold)

section \<open>The invariant\<close>

definition plan_inv :: "(js_text \<Rightarrow> js_text) \<Rightarrow> planner \<Rightarrow> bool" where
  "plan_inv pathKey st \<longleftrightarrow>
     jm_wf (pl_pending st) \<and>
     (\<forall>k item. jm_get (pl_pending st) k = Some item \<longrightarrow> pathKey (pe_uri item) = k) \<and>
     (\<forall>a. below st a = filter (\<lambda>k. a \<in> set (ancestors k)) (jm_keys (pl_pending st))) \<and>
     (\<forall>k \<in> set (jm_keys (pl_pending st)). jm_get (pl_indexedAncestors st) k = Some (ancestors k))"

lemma plan_inv_empty: "plan_inv pathKey empty_planner"
  by (simp add: plan_inv_def empty_planner_def below_def)

lemma plan_invI:
  assumes "jm_wf (pl_pending st)"
    "\<And>k item. jm_get (pl_pending st) k = Some item \<Longrightarrow> pathKey (pe_uri item) = k"
    "\<And>a. below st a = filter (\<lambda>k. a \<in> set (ancestors k)) (jm_keys (pl_pending st))"
    "\<And>k. k \<in> set (jm_keys (pl_pending st)) \<Longrightarrow> jm_get (pl_indexedAncestors st) k = Some (ancestors k)"
  shows "plan_inv pathKey st"
  using assms unfolding plan_inv_def by blast

lemma plan_invD:
  assumes "plan_inv pathKey st"
  shows "jm_wf (pl_pending st)"
    "jm_get (pl_pending st) k = Some item \<Longrightarrow> pathKey (pe_uri item) = k"
    "below st a = filter (\<lambda>k. a \<in> set (ancestors k)) (jm_keys (pl_pending st))"
    "k \<in> set (jm_keys (pl_pending st)) \<Longrightarrow> jm_get (pl_indexedAncestors st) k = Some (ancestors k)"
  using assms unfolding plan_inv_def by blast+

lemma plan_inv_frame:
  "plan_inv pathKey (st\<lparr>pl_ops := ops\<rparr>) = plan_inv pathKey st"
  "plan_inv pathKey (st\<lparr>pl_seenResources := rs\<rparr>) = plan_inv pathKey st"
  by (simp_all add: plan_inv_def below_def)

lemma queue_inv:
  assumes "plan_inv pathKey st" "queue pathKey uri edits version origin st = Inr st'"
  shows "plan_inv pathKey st'"
proof (cases "jm_get (pl_pending st) (pathKey uri)")
  case None
  let ?item = "\<lparr>pe_uri = uri, pe_edits = edits, pe_version = version,
     pe_origins = (case origin of None \<Rightarrow> [] | Some src \<Rightarrow> [src])\<rparr>"
  let ?s = "st\<lparr>pl_pending := jm_set (pathKey uri) ?item (pl_pending st)\<rparr>"
  from None have notin: "pathKey uri \<notin> set (jm_keys (pl_pending st))" by (simp add: map_of_eq_None_iff)
  have st': "st' = addIndex (pathKey uri) ?s" using assms(2) None by (simp add: queue_def Let_def)
  have "below st' a = filter (\<lambda>k. a \<in> set (ancestors k)) (jm_keys (pl_pending st'))" for a
    using notin plan_invD(3) [OF assms(1), of a]
    by (simp add: st' below_addIndex jm_set_notin set_add_def)
  moreover have "jm_wf (pl_pending st')"
    using plan_invD(1) [OF assms(1)] by (simp add: st' jm.wf_put)
  moreover have "pathKey (pe_uri item) = k" if "jm_get (pl_pending st') k = Some item" for k item
    using that plan_invD(2) [OF assms(1)] by (auto simp: st' jm_get_set split: if_splits)
  moreover have "jm_get (pl_indexedAncestors st') k = Some (ancestors k)" if "k \<in> set (jm_keys (pl_pending st'))" for k
    using that plan_invD(4) [OF assms(1)] notin by (auto simp: st' jm_set_notin)
  ultimately show ?thesis unfolding plan_inv_def by blast
next
  case (Some existing)
  then obtain item where st': "st' = st\<lparr>pl_pending := jm_set (pathKey uri) item (pl_pending st)\<rparr>"
    and uri: "pe_uri item = pe_uri existing"
    using assms(2) by (auto simp: queue_def Let_def split: if_splits)
  have "pathKey uri \<in> set (jm_keys (pl_pending st))"
    by (rule jm_get_key [OF Some])
  then have "jm_keys (pl_pending st') = jm_keys (pl_pending st)" by (simp add: st' jm_keys_set)
  then have keys: "jm_keys (jm_set (pathKey uri) item (pl_pending st)) = jm_keys (pl_pending st)"
    by (simp add: st')
  have "pathKey (pe_uri x) = k" if "jm_get (jm_set (pathKey uri) item (pl_pending st)) k = Some x" for k x
    using that plan_invD(2) [OF assms(1)] Some uri by (auto simp: jm_get_set split: if_splits)
  then show ?thesis
    using plan_invD(1,3,4) [OF assms(1)] keys
    by (intro plan_invI) (simp_all add: st' jm.wf_put del: set_map)
qed

lemma flushUri_inv:
  assumes "plan_inv pathKey st" shows "plan_inv pathKey (flushUri pathKey uri st)"
proof (cases "jm_get (pl_pending st) (pathKey uri)")
  case (Some item)
  let ?k = "pathKey uri"
  let ?s = "st\<lparr>pl_pending := jm_delete ?k (pl_pending st)\<rparr>"
  have key: "?k \<in> set (jm_keys (pl_pending st))" by (rule jm_get_key [OF Some])
  have anc: "jm_get (pl_indexedAncestors ?s) ?k = Some (ancestors ?k)"
    using plan_invD(4) [OF assms key] by simp
  have "below (removeIndex ?k ?s) a = filter (\<lambda>k. a \<in> set (ancestors k)) (jm_keys (jm_delete ?k (pl_pending st)))" for a
    unfolding below_removeIndex [OF anc] jm_keys_delete below_frame plan_invD(3) [OF assms, of a] filter_filter
    by (cases "a \<in> set (ancestors ?k)") (auto intro!: filter_cong)
  moreover have "jm_get (pl_indexedAncestors (removeIndex ?k ?s)) k = Some (ancestors k)"
    if "k \<in> set (jm_keys (jm_delete ?k (pl_pending st)))" for k
    using that plan_invD(4) [OF assms, of k] unfolding jm_keys_delete by simp
  moreover have "pathKey (pe_uri x) = k" if "jm_get (jm_delete ?k (pl_pending st)) k = Some x" for k x
    using that plan_invD(2) [OF assms] by (auto simp: jm_get_delete split: if_splits)
  ultimately have "plan_inv pathKey (removeIndex ?k ?s)"
    using plan_invD(1) [OF assms] by (simp add: plan_inv_def jm.wf_del)
  then show ?thesis by (simp add: flushUri_def Some Let_def plan_inv_frame)
qed (simp add: flushUri_def assms)

section \<open>What happens to one file\<close>

text \<open>The operations that change what stands at a path: on itself or on a directory above it.\<close>

definition touches :: "(js_text \<Rightarrow> js_text) \<Rightarrow> resource_op \<Rightarrow> js_text \<Rightarrow> bool" where
  "touches pathKey r k =
     (case r of
        CreateFile uri _ \<Rightarrow> pathKey uri = k
      | RenameFile oldUri newUri _ \<Rightarrow> pathKey oldUri \<in> set (ancestors k) \<or> pathKey newUri \<in> set (ancestors k)
      | DeleteFile uri _ \<Rightarrow> pathKey uri \<in> set (ancestors k))"

definition text_trace :: "(js_text \<Rightarrow> js_text) \<Rightarrow> js_text \<Rightarrow> js_text \<Rightarrow> text_edit list \<Rightarrow> (text_edit + resource_op) list" where
  "text_trace pathKey k uri edits = (if pathKey uri = k then map Inl edits else [])"

definition resource_trace :: "(js_text \<Rightarrow> js_text) \<Rightarrow> js_text \<Rightarrow> resource_op \<Rightarrow> (text_edit + resource_op) list" where
  "resource_trace pathKey k r = (if touches pathKey r k then [Inr r] else [])"

fun op_trace :: "(js_text \<Rightarrow> js_text) \<Rightarrow> js_text \<Rightarrow> plan_op \<Rightarrow> (text_edit + resource_op) list" where
  "op_trace pathKey k (TextOp item) = text_trace pathKey k (pe_uri item) (pe_edits item)"
| "op_trace pathKey k (ResourceOp r) = resource_trace pathKey k r"

fun change_trace :: "(js_text \<Rightarrow> js_text) \<Rightarrow> js_text \<Rightarrow> document_change \<Rightarrow> (text_edit + resource_op) list" where
  "change_trace pathKey k (TextChange text) = text_trace pathKey k (td_uri text) (td_edits text)"
| "change_trace pathKey k (ResourceChange r) = resource_trace pathKey k r"

definition edit_trace :: "(js_text \<Rightarrow> js_text) \<Rightarrow> js_text \<Rightarrow> workspace_edit \<Rightarrow> (text_edit + resource_op) list" where
  "edit_trace pathKey k edit =
     concat (map (\<lambda>(uri, edits). text_trace pathKey k uri edits) (we_changes edit)) @
     concat (map (change_trace pathKey k) (we_documentChanges edit))"

definition planned_trace :: "(js_text \<Rightarrow> js_text) \<Rightarrow> js_text \<Rightarrow> planner \<Rightarrow> (text_edit + resource_op) list" where
  "planned_trace pathKey k st =
     concat (map (op_trace pathKey k) (pl_ops st)) @
     (case jm_get (pl_pending st) k of None \<Rightarrow> [] | Some item \<Rightarrow> map Inl (pe_edits item))"

lemma queue_trace:
  assumes "queue pathKey uri edits version origin st = Inr st'"
  shows "planned_trace pathKey k st' = planned_trace pathKey k st @ text_trace pathKey k uri edits"
  using assms
  by (auto simp: queue_def Let_def planned_trace_def text_trace_def jm_get_set split: option.splits if_splits)

lemma flushUri_pending:
  "jm_get (pl_pending (flushUri pathKey uri st)) k =
     (if k = pathKey uri then None else jm_get (pl_pending st) k)"
  by (auto simp: flushUri_def Let_def jm_get_delete split: option.splits)

lemma flushUri_trace:
  assumes "plan_inv pathKey st"
  shows "planned_trace pathKey k (flushUri pathKey uri st) = planned_trace pathKey k st"
proof (cases "jm_get (pl_pending st) (pathKey uri)")
  case (Some item)
  with plan_invD(2) [OF assms] have "pathKey (pe_uri item) = pathKey uri" by simp
  with Some show ?thesis
    by (auto simp: flushUri_def Let_def planned_trace_def text_trace_def jm_get_delete)
qed (simp add: flushUri_def)

text \<open>A flush of several files keeps the invariant and every trace, and empties its candidates.\<close>

definition flushed :: "(js_text \<Rightarrow> js_text) \<Rightarrow> js_text set \<Rightarrow> planner \<Rightarrow> planner \<Rightarrow> bool" where
  "flushed pathKey K st st' \<longleftrightarrow>
     plan_inv pathKey st' \<and> (\<forall>k. planned_trace pathKey k st' = planned_trace pathKey k st) \<and>
     (\<forall>k. jm_get (pl_pending st') k = (if k \<in> K then None else jm_get (pl_pending st) k))"

lemma flushedD:
  assumes "flushed pathKey K st st'"
  shows "plan_inv pathKey st'" "planned_trace pathKey k st' = planned_trace pathKey k st"
    "jm_get (pl_pending st') k = (if k \<in> K then None else jm_get (pl_pending st) k)"
  using assms unfolding flushed_def by blast+

lemma planned_trace_frame [simp]:
  "planned_trace pathKey k (st\<lparr>pl_seenResources := rs\<rparr>) = planned_trace pathKey k st"
  by (simp add: planned_trace_def)

lemma flushed_refl: "plan_inv pathKey st \<Longrightarrow> flushed pathKey {} st st"
  by (simp add: flushed_def)

lemma flushed_trans: "flushed pathKey K st st' \<Longrightarrow> flushed pathKey K' st' st'' \<Longrightarrow> flushed pathKey (K \<union> K') st st''"
  by (auto simp: flushed_def)

lemma flushUri_flushed: "plan_inv pathKey st \<Longrightarrow> flushed pathKey {pathKey uri} st (flushUri pathKey uri st)"
  by (simp add: flushed_def flushUri_inv flushUri_trace flushUri_pending)

lemma flush_candidate_flushed:
  assumes "plan_inv pathKey st" shows "flushed pathKey {k} st (flush_candidate pathKey st k)"
proof (cases "jm_get (pl_pending st) k")
  case None
  with assms show ?thesis by (simp add: flush_candidate_def flushed_def)
next
  case (Some item)
  with plan_invD(2) [OF assms] flushUri_flushed [OF assms, of "pe_uri item"] show ?thesis
    by (simp add: flush_candidate_def)
qed

lemma flush_candidates_flushed:
  "plan_inv pathKey st \<Longrightarrow> flushed pathKey (set ks) st (foldl (flush_candidate pathKey) st ks)"
proof (induction ks arbitrary: st)
  case (Cons k ks)
  have step: "flushed pathKey {k} st (flush_candidate pathKey st k)"
    by (rule flush_candidate_flushed [OF Cons.prems])
  then have "plan_inv pathKey (flush_candidate pathKey st k)" by (simp add: flushed_def)
  from flushed_trans [OF step Cons.IH [OF this]] show ?case by simp
qed (simp add: flushed_refl)

lemma flushSubtree_flushed:
  assumes "plan_inv pathKey st"
  shows "flushed pathKey {k. pathKey uri \<in> set (ancestors k)} st (flushSubtree pathKey uri st)"
proof -
  have "jm_get (pl_pending st) k = None"
    if "pathKey uri \<in> set (ancestors k)" "k \<notin> set (below st (pathKey uri))" for k
    using that jm_get_key [of "pl_pending st" k]
    by (cases "jm_get (pl_pending st) k") (auto simp: plan_invD(3) [OF assms])
  moreover have "pathKey uri \<in> set (ancestors k)" if "k \<in> set (below st (pathKey uri))" for k
    using that by (simp add: plan_invD(3) [OF assms])
  ultimately show ?thesis
    using flush_candidates_flushed [OF assms, of "below st (pathKey uri)"]
    by (auto simp: flushed_def flushSubtree_def)
qed

lemma flush_for_flushed:
  assumes "plan_inv pathKey st" shows "flushed pathKey {k. touches pathKey r k} st (flush_for pathKey r st)"
proof (cases r)
  case (RenameFile oldUri newUri opts)
  let ?s = "flushSubtree pathKey oldUri st"
  have first: "flushed pathKey {k. pathKey oldUri \<in> set (ancestors k)} st ?s"
    by (rule flushSubtree_flushed [OF assms])
  then have "plan_inv pathKey ?s" by (simp add: flushed_def)
  from flushed_trans [OF first flushSubtree_flushed [OF this, of newUri]] RenameFile
  show ?thesis by (simp add: flush_for_def touches_def Collect_disj_eq)
qed (use assms flushUri_flushed flushSubtree_flushed in
  \<open>auto simp: flush_for_def touches_def eq_commute [of _ "pathKey _"]\<close>)

lemma plan_resource_step:
  assumes "plan_inv pathKey st" "plan_resource pathKey r st = Inr st'"
  shows "plan_inv pathKey st'"
    and "planned_trace pathKey k st' = planned_trace pathKey k st @ resource_trace pathKey k r"
proof -
  let ?s = "st\<lparr>pl_seenResources := pl_seenResources st @ [resourceKey pathKey r]\<rparr>"
  let ?f = "flush_for pathKey r ?s"
  have st': "st' = ?f\<lparr>pl_ops := pl_ops ?f @ [ResourceOp r]\<rparr>"
    using assms(2) by (simp add: plan_resource_def Let_def split: if_splits)
  have f: "flushed pathKey {k. touches pathKey r k} ?s ?f"
    by (rule flush_for_flushed) (simp add: plan_inv_frame assms(1))
  then show "plan_inv pathKey st'" by (simp add: st' plan_inv_frame flushed_def)
  have "planned_trace pathKey k ?f = planned_trace pathKey k st"
    using flushedD(2) [OF f] by simp
  moreover have "touches pathKey r k \<Longrightarrow> jm_get (pl_pending ?f) k = None" using flushedD(3) [OF f] by simp
  ultimately show "planned_trace pathKey k st' = planned_trace pathKey k st @ resource_trace pathKey k r"
    by (auto simp: st' planned_trace_def resource_trace_def)
qed

lemma foldl_throw_trace:
  assumes "foldl_throw f st xs = Inr st'" "plan_inv pathKey st"
    and "\<And>s x s'. plan_inv pathKey s \<Longrightarrow> f s x = Inr s' \<Longrightarrow>
           plan_inv pathKey s' \<and> planned_trace pathKey k s' = planned_trace pathKey k s @ tr x"
  shows "plan_inv pathKey st' \<and> planned_trace pathKey k st' = planned_trace pathKey k st @ concat (map tr xs)"
  using assms(1,2)
proof (induction xs arbitrary: st)
  case (Cons x xs)
  then obtain s where s: "f st x = Inr s" "foldl_throw f s xs = Inr st'" by (auto split: sum.splits)
  with assms(3) [OF Cons.prems(2) s(1)] Cons.IH [OF s(2)] show ?case by simp
qed simp

lemma plan_document_change_step:
  assumes "plan_inv pathKey st" "plan_document_change pathKey track st x = Inr st'"
  shows "plan_inv pathKey st' \<and>
         planned_trace pathKey k st' = planned_trace pathKey k st @ change_trace pathKey k (snd x)"
proof (cases "snd x")
  case (TextChange doc)
  then have "queue pathKey (td_uri doc) (td_edits doc) (td_version doc)
      (if track then Some (FromDocumentChanges (fst x) (td_edits doc)) else None) st = Inr st'"
    using assms(2) by (simp add: plan_document_change_def)
  from queue_inv [OF assms(1) this] queue_trace [OF this] TextChange show ?thesis by simp
next
  case (ResourceChange r)
  then have "plan_resource pathKey r st = Inr st'" using assms(2) by (simp add: plan_document_change_def)
  from plan_resource_step [OF assms(1) this] ResourceChange show ?thesis by simp
qed

lemma flush_rest_trace:
  assumes "plan_inv pathKey st"
  shows "concat (map (op_trace pathKey k) (pl_ops (flush_rest pathKey st))) = planned_trace pathKey k st"
proof -
  have fold: "plan_inv pathKey s \<Longrightarrow> flushed pathKey ((\<lambda>i. pathKey (pe_uri i)) ` set items) s
      (foldl (\<lambda>s item. flushUri pathKey (pe_uri item) s) s items)" for s items
  proof (induction items arbitrary: s)
    case (Cons i items)
    have step: "flushed pathKey {pathKey (pe_uri i)} s (flushUri pathKey (pe_uri i) s)"
      by (rule flushUri_flushed [OF Cons.prems])
    then have "plan_inv pathKey (flushUri pathKey (pe_uri i) s)" by (simp add: flushed_def)
    from flushed_trans [OF step Cons.IH [OF this]] show ?case by simp
  qed (simp add: flushed_refl)
  have f: "flushed pathKey ((\<lambda>i. pathKey (pe_uri i)) ` set (map snd (pl_pending st))) st (flush_rest pathKey st)"
    unfolding flush_rest_def by (rule fold [OF assms])
  have "jm_get (pl_pending (flush_rest pathKey st)) k = None"
  proof (cases "jm_get (pl_pending st) k")
    case (Some item)
    then have "(k, item) \<in> set (pl_pending st)" "pathKey (pe_uri item) = k"
      using jm_get_in plan_invD(2) [OF assms] by fastforce+
    then have "k \<in> (\<lambda>i. pathKey (pe_uri i)) ` set (map snd (pl_pending st))" by force
    then show ?thesis by (simp only: flushedD(3) [OF f] if_True)
  qed (simp add: flushedD(3) [OF f])
  with flushedD(2) [OF f, of k] show ?thesis by (simp add: planned_trace_def)
qed

lemma plan_parsed_trace:
  assumes "plan_parsed pathKey track edit = Inr ops"
  shows "concat (map (op_trace pathKey k) ops) = edit_trace pathKey k edit"
proof -
  let ?docs = "zip [0..<length (we_documentChanges edit)] (we_documentChanges edit)"
  from assms obtain s1 s2 where
    s1: "foldl_throw (plan_changes_entry pathKey track) empty_planner (we_changes edit) = Inr s1" and
    s2: "foldl_throw (plan_document_change pathKey track) s1 ?docs = Inr s2" and
    ops: "ops = pl_ops (flush_rest pathKey s2)"
    by (auto simp: plan_parsed_def split: sum.splits)
  have t1: "plan_inv pathKey s1 \<and> planned_trace pathKey k s1 =
      planned_trace pathKey k empty_planner @ concat (map (\<lambda>e. text_trace pathKey k (fst e) (snd e)) (we_changes edit))"
    by (rule foldl_throw_trace [OF s1 plan_inv_empty])
       (auto simp: plan_changes_entry_def intro: queue_inv queue_trace)
  have t2: "plan_inv pathKey s2 \<and> planned_trace pathKey k s2 =
      planned_trace pathKey k s1 @ concat (map (\<lambda>x. change_trace pathKey k (snd x)) ?docs)"
    by (rule foldl_throw_trace [OF s2]) (use t1 in \<open>auto dest: plan_document_change_step\<close>)
  have "map (\<lambda>x. change_trace pathKey k (snd x)) ?docs = map (change_trace pathKey k) (we_documentChanges edit)"
    by (rule nth_equalityI) simp_all
  then show ?thesis
    using t1 t2 flush_rest_trace [of pathKey s2 k]
    by (simp add: ops edit_trace_def planned_trace_def empty_planner_def case_prod_unfold)
qed

text \<open>
  C21: the planner keeps the order of everything that happens to a file. For every path, the
  text edits of that path and the resource operations on it or on a directory above it occur
  in the plan exactly as in the workspace edit: nothing is lost, repeated, or moved across an
  operation that changes what stands at the path.
\<close>

theorem plan_preserves_order_per_file:
  assumes "parseWorkspaceEdit edit = Inr parsed" "planWorkspaceEdit pathKey track edit = Inr ops"
  shows "concat (map (op_trace pathKey k) ops) = edit_trace pathKey k parsed"
  by (rule plan_parsed_trace) (use assms in \<open>simp add: planWorkspaceEdit_def\<close>)

definition wire_position :: "nat \<Rightarrow> nat \<Rightarrow> wire" where
  "wire_position l c = WObj [(units ''line'', WNum (Fin (of_nat l))), (units ''character'', WNum (Fin (of_nat c)))]"

definition wire_edit :: "nat \<Rightarrow> nat \<Rightarrow> nat \<Rightarrow> nat \<Rightarrow> string \<Rightarrow> wire" where
  "wire_edit sl sc el ec t =
     WObj [(units ''range'', WObj [(units ''start'', wire_position sl sc), (units ''end'', wire_position el ec)]),
           (units ''newText'', WStr (units t))]"

definition wire_document :: "string \<Rightarrow> wire list \<Rightarrow> wire" where
  "wire_document uri edits =
     WObj [(units ''textDocument'', WObj [(units ''uri'', WStr (units uri))]), (units ''edits'', WArr edits)]"

text \<open>An edit below \<open>a\<close>, the renaming of \<open>a\<close> to \<open>b\<close>, and an edit below \<open>b\<close>.\<close>

definition demo_workspace_edit :: wire where
  "demo_workspace_edit =
     WObj [(units ''documentChanges'', WArr
              [wire_document ''a/f'' [wire_edit 0 0 0 1 ''x''],
               WObj [(units ''kind'', WStr (units ''rename'')), (units ''oldUri'', WStr (units ''a'')),
                     (units ''newUri'', WStr (units ''b''))],
               wire_document ''b/f'' [wire_edit 0 0 0 1 ''y'']])]"

theorem plan_preserves_order_per_file_witness:
  "case planWorkspaceEdit id False demo_workspace_edit of
     Inl _ \<Rightarrow> False
   | Inr ops \<Rightarrow> concat (map (op_trace id (units ''a/f'')) ops) =
       [Inl (demo_edit 0 0 0 1 ''x''), Inr (RenameFile (units ''a'') (units ''b'') None)]"
proof -
  have ok: "case planWorkspaceEdit id False demo_workspace_edit of Inl _ \<Rightarrow> False | Inr _ \<Rightarrow> True"
    by code_simp
  have parse: "case parseWorkspaceEdit demo_workspace_edit of Inl _ \<Rightarrow> False
      | Inr parsed \<Rightarrow> edit_trace id (units ''a/f'') parsed =
         [Inl (demo_edit 0 0 0 1 ''x''), Inr (RenameFile (units ''a'') (units ''b'') None)]"
    by code_simp
  show ?thesis
    using ok parse plan_preserves_order_per_file [of demo_workspace_edit _ id False _ "units ''a/f''"]
    by (auto split: sum.splits)
qed

end
