(* ===== verification/Path_Identity.thy ===== *)
theory Path_Identity
  imports Posix_Path Lens_Prelude
begin

text \<open>
  The path helpers of \<open>src/clients/path-utils.ts\<close> on a POSIX host: the identity of a path (the
  name the kernel gives the file it opens), the map key made of it, equality and containment
  of paths.

  What asks the system is a field of \<open>kernel\<close>: \<open>realpath(3)\<close> and \<open>lstat\<close> with their error
  codes, the working directory of the process, the decoding of a file URL, the Unicode lower
  case. \<open>k_windowsForm\<close> is the arm of \<open>normalizePathForm\<close> for a path of Windows shape, which
  parses with \<open>path.win32\<close>. The synchronous and the asynchronous \<open>realpath\<close> are the same system
  call. The tally of refused resolutions is a log for the degradation summary that no answer
  here depends on, and is left out.
\<close>

section \<open>The kernel\<close>

datatype stat_kind = IsDirectory | IsOther

record kernel =
  k_realpath :: "js_text \<Rightarrow> string + js_text"
  k_lstat :: "js_text \<Rightarrow> string + stat_kind"
  k_cwd :: js_text
  k_fileURLToPath :: "js_text \<Rightarrow> js_text option"
  k_lower :: "js_text \<Rightarrow> js_text"
  k_windowsForm :: "js_text \<Rightarrow> js_text"

section \<open>Shapes\<close>

definition BACKSLASH :: code_unit where "BACKSLASH = 92"

definition is_ascii_letter :: "code_unit \<Rightarrow> bool" where
  "is_ascii_letter c = (65 \<le> c \<and> c \<le> 90 \<or> 97 \<le> c \<and> c \<le> 122)"

definition isWindowsPath :: "js_text \<Rightarrow> bool" where
  "isWindowsPath p =
     ((case p of c # d # _ \<Rightarrow> is_ascii_letter c \<and> d = COLON | _ \<Rightarrow> False) \<or> (p \<noteq> [] \<and> hd p = BACKSLASH))"

definition toPosix :: "js_text \<Rightarrow> js_text" where
  "toPosix p = map (\<lambda>c. if c = BACKSLASH then SLASH else c) p"

lemma toPosix_id: "BACKSLASH \<notin> set p \<Longrightarrow> toPosix p = p"
  by (induction p) (auto simp: toPosix_def)

text \<open>\<open>adoptCanonicalCasing\<close>, on the segments from the last one up.\<close>

fun adopt_rev :: "(js_text \<Rightarrow> js_text) \<Rightarrow> js_text list \<Rightarrow> js_text list \<Rightarrow> js_text list" where
  "adopt_rev lower (a # as) (b # bs) =
     (if a = b then a # adopt_rev lower as bs
      else if lower a \<noteq> lower b then a # as
      else b # adopt_rev lower as bs)"
| "adopt_rev lower as bs = as"

definition adoptCanonicalCasing :: "(js_text \<Rightarrow> js_text) \<Rightarrow> js_text \<Rightarrow> js_text \<Rightarrow> js_text" where
  "adoptCanonicalCasing lower held real =
     join_slash (rev (adopt_rev lower (rev (split_slash held)) (rev (split_slash real))))"

section \<open>The identity walk\<close>

text \<open>
  One walk over \<open>identityCandidates\<close>: the first path at or above \<open>spelled\<close> that resolves, with
  the names below it.
\<close>

fun kernel_walk :: "kernel \<Rightarrow> js_text list \<Rightarrow> js_text list \<Rightarrow> (js_text \<times> js_text list) option" where
  "kernel_walk k [] missing = None"
| "kernel_walk k (candidate # higher) missing =
     (case k_realpath k candidate of
        Inr real \<Rightarrow> Some (real, missing)
      | Inl code \<Rightarrow> kernel_walk k higher (basename candidate # missing))"

definition foldMissingTail :: "js_text \<Rightarrow> js_text list \<Rightarrow> js_text" where
  "foldMissingTail real missing = (if missing = [] then real else path_join (real # missing))"

definition tailHasDotSegment :: "js_text list \<Rightarrow> bool" where
  "tailHasDotSegment missing = list_ex (\<lambda>s. s = [DOT] \<or> s = [DOT, DOT]) missing"

definition kernelAttempt :: "kernel \<Rightarrow> js_text \<Rightarrow> (js_text \<times> bool) option" where
  "kernelAttempt k spelled =
     map_option (\<lambda>(real, missing). (foldMissingTail real missing, tailHasDotSegment missing))
       (kernel_walk k (ancestors spelled) [])"

definition kernelRealPath :: "kernel \<Rightarrow> js_text \<Rightarrow> js_text option" where
  "kernelRealPath k spelled =
     (case kernelAttempt k spelled of
        None \<Rightarrow> None
      | Some (answer, foldedTail) \<Rightarrow>
          if \<not> foldedTail then Some answer
          else (case kernelAttempt k answer of Some (again, _) \<Rightarrow> Some again | None \<Rightarrow> Some answer))"

definition posixPathIdentity :: "kernel \<Rightarrow> js_text \<Rightarrow> js_text" where
  "posixPathIdentity k spelled =
     (case kernelRealPath k spelled of Some p \<Rightarrow> p | None \<Rightarrow> normalize spelled)"

definition realpathOrResolve :: "kernel \<Rightarrow> js_text \<Rightarrow> js_text" where
  "realpathOrResolve k filePath =
     (case kernelRealPath k filePath of Some p \<Rightarrow> p | None \<Rightarrow> path_resolve (k_cwd k) filePath)"

section \<open>The walk that confirms\<close>

definition isAbsenceRefusal :: "string \<Rightarrow> bool" where
  "isAbsenceRefusal code = (code = ''ENOENT'' \<or> code = ''ENOTDIR'')"

text \<open>A refused candidate leaves the walk confirmed when both calls answer that nothing is there.\<close>

definition confirms_absence :: "kernel \<Rightarrow> js_text \<Rightarrow> string \<Rightarrow> bool" where
  "confirms_absence k candidate code =
     (isAbsenceRefusal code \<and>
      (case k_lstat k candidate of Inr _ \<Rightarrow> False | Inl lstatCode \<Rightarrow> isAbsenceRefusal lstatCode))"

fun walk_confirmed :: "kernel \<Rightarrow> js_text list \<Rightarrow> bool" where
  "walk_confirmed k [] = True"
| "walk_confirmed k (candidate # higher) =
     (case k_realpath k candidate of
        Inr real \<Rightarrow> True
      | Inl code \<Rightarrow> confirms_absence k candidate code \<and> walk_confirmed k higher)"

definition kernelAttemptAsync :: "kernel \<Rightarrow> js_text \<Rightarrow> (js_text \<times> bool \<times> bool) option" where
  "kernelAttemptAsync k spelled =
     map_option (\<lambda>(real, missing).
         (foldMissingTail real missing, tailHasDotSegment missing, walk_confirmed k (ancestors spelled)))
       (kernel_walk k (ancestors spelled) [])"

definition kernelPathIdentityAsync :: "kernel \<Rightarrow> js_text \<Rightarrow> (js_text \<times> bool) option" where
  "kernelPathIdentityAsync k filePath =
     (case kernelAttemptAsync k filePath of
        None \<Rightarrow> None
      | Some (answer, foldedTail, confirmed) \<Rightarrow>
          let settled = (if foldedTail then kernelAttemptAsync k answer else None)
          in Some (case settled of
                     Some (again, _, confirmed') \<Rightarrow> (again, confirmed \<and> confirmed')
                   | None \<Rightarrow> (answer, confirmed)))"

definition realpathOrResolveAsync :: "kernel \<Rightarrow> js_text \<Rightarrow> js_text" where
  "realpathOrResolveAsync k filePath =
     (case kernelPathIdentityAsync k filePath of
        Some (identity, _) \<Rightarrow> identity
      | None \<Rightarrow> path_resolve (k_cwd k) filePath)"

section \<open>Map keys\<close>

definition starts_with_slashes :: "js_text \<Rightarrow> bool" where
  "starts_with_slashes p = (take 2 p = [SLASH, SLASH])"

definition normalizePathForm :: "kernel \<Rightarrow> bool \<Rightarrow> js_text \<Rightarrow> js_text" where
  "normalizePathForm k identity filePath =
     (let normalized = toPosix filePath
      in if isWindowsPath normalized then k_windowsForm k filePath
         else
           let sentinel = (normalized = [] \<or> starts_with_slashes normalized)
           in if identity \<and> \<not> sentinel \<and> isAbsolute normalized then posixPathIdentity k normalized
              else
                let folded = (if sentinel then normalized else normalize normalized)
                in case k_realpath k folded of
                     Inl _ \<Rightarrow> folded
                   | Inr real \<Rightarrow>
                       if real = folded then folded
                       else
                         let adopted = adoptCanonicalCasing (k_lower k) folded real
                         in if adopted = folded then folded
                            else case k_realpath k adopted of
                                   Inl _ \<Rightarrow> folded
                                 | Inr again \<Rightarrow> if again = real then adopted else folded)"

definition normalizeFilePath :: "kernel \<Rightarrow> js_text \<Rightarrow> js_text" where
  "normalizeFilePath k filePath = normalizePathForm k True filePath"

definition normalizePathSpelling :: "kernel \<Rightarrow> js_text \<Rightarrow> js_text" where
  "normalizePathSpelling k filePath = normalizePathForm k False filePath"

definition normalizeMapKey :: "kernel \<Rightarrow> js_text \<Rightarrow> js_text" where
  "normalizeMapKey k filePath = normalizeFilePath k filePath"

definition pathsEqual :: "kernel \<Rightarrow> js_text \<Rightarrow> js_text \<Rightarrow> bool" where
  "pathsEqual k a b = (normalizeFilePath k a = normalizeFilePath k b)"

definition uriToPath :: "kernel \<Rightarrow> js_text \<Rightarrow> js_text" where
  "uriToPath k uri =
     (case k_fileURLToPath k uri of
        Some filePath \<Rightarrow> normalizeFilePath k filePath
      | None \<Rightarrow> normalizeFilePath k uri)"

definition uriToDiskPath :: "kernel \<Rightarrow> js_text \<Rightarrow> js_text" where
  "uriToDiskPath k uri = (case k_fileURLToPath k uri of Some filePath \<Rightarrow> filePath | None \<Rightarrow> uri)"

text \<open>On a POSIX host the cheap key only folds separators.\<close>

definition normalizeEphemeralMapKey :: "js_text \<Rightarrow> js_text" where
  "normalizeEphemeralMapKey filePath = toPosix filePath"

section \<open>Containment\<close>

definition isWithinForm :: "js_text \<Rightarrow> js_text \<Rightarrow> bool" where
  "isWithinForm child parent =
     (let parentPrefix = (if parent \<noteq> [] \<and> last parent = SLASH then parent else parent @ [SLASH])
      in child = parent \<or> take (length parentPrefix) child = parentPrefix)"

definition isWithinIdentity :: "kernel \<Rightarrow> js_text \<Rightarrow> js_text \<Rightarrow> bool" where
  "isWithinIdentity k child parent = isWithinForm (normalizeFilePath k child) (normalizeFilePath k parent)"

definition isUnderDir :: "kernel \<Rightarrow> js_text \<Rightarrow> js_text \<Rightarrow> bool" where
  "isUnderDir k child parent =
     (isWithinForm (normalizePathSpelling k child) (normalizePathSpelling k parent) \<or>
      isWithinIdentity k child parent)"

definition isOutsideProjectRoot :: "kernel \<Rightarrow> js_text \<Rightarrow> js_text \<Rightarrow> bool" where
  "isOutsideProjectRoot k filePath projectRoot = (\<not> isUnderDir k filePath projectRoot)"

definition relativeInside :: "kernel \<Rightarrow> js_text \<Rightarrow> js_text \<Rightarrow> js_text option" where
  "relativeInside k projectRoot filePath =
     (let rel = path_relative (k_cwd k) (path_resolve (k_cwd k) projectRoot) filePath
      in if rel \<noteq> [DOT, DOT] \<and> take 3 rel \<noteq> [DOT, DOT, SLASH] \<and> \<not> isAbsolute rel
         then Some (toPosix rel) else None)"

definition isAtOrAboveHomeDir :: "kernel \<Rightarrow> js_text \<Rightarrow> js_text \<Rightarrow> bool" where
  "isAtOrAboveHomeDir k dir homeDir = (relativeInside k dir (path_resolve (k_cwd k) homeDir) \<noteq> None)"

text \<open>The directories \<open>walkUpDirs\<close> yields.\<close>

record walk_options =
  wo_homeDir :: "js_text option"
  wo_spelling :: bool
  wo_maxDepth :: "nat option"

definition walkUpDirs :: "kernel \<Rightarrow> js_text \<Rightarrow> walk_options \<Rightarrow> js_text list" where
  "walkUpDirs k startDir options =
     (let axis = (if wo_spelling options then path_resolve (k_cwd k) else realpathOrResolve k);
          higher = ancestors (axis startDir);
          capped = (case wo_maxDepth options of None \<Rightarrow> higher | Some n \<Rightarrow> take n higher)
      in case wo_homeDir options of
           None \<Rightarrow> capped
         | Some h \<Rightarrow> takeWhile (\<lambda>d. \<not> isAtOrAboveHomeDir k d (axis h)) capped)"

definition homeRelativePath :: "js_text \<Rightarrow> js_text \<Rightarrow> js_text" where
  "homeRelativePath filePath homeDir =
     (let candidate = toPosix filePath;
          home = rev (dropWhile (\<lambda>c. c = SLASH) (rev (toPosix homeDir)))
      in if filePath = [] \<or> home = [] then filePath
         else if candidate = home then [126]
         else if take (Suc (length home)) candidate \<noteq> home @ [SLASH] then filePath
         else 126 # drop (length home) candidate)"

end
