(* ===== verification/Path_Fixpoint.thy ===== *)
theory Path_Fixpoint
  imports Path_Identity
begin

text \<open>
  The identity of a path is its own identity: the claim of \<open>foldMissingTail\<close> in
  \<open>src/clients/path-utils.ts\<close> that the second walk reaches a fixpoint. It rests on what
  \<open>realpath(3)\<close> documents, stated as \<open>realpath_laws\<close> and met by the file trees with links below.
\<close>

section \<open>What is asked of realpath\<close>

definition child_path :: "js_text \<Rightarrow> js_text \<Rightarrow> js_text" where
  "child_path d m = abs_path (segs d @ [m])"

definition refused :: "kernel \<Rightarrow> js_text \<Rightarrow> bool" where
  "refused k p = (case k_realpath k p of Inl _ \<Rightarrow> True | Inr _ \<Rightarrow> False)"

text \<open>
  The root resolves to itself; an answer is canonical and resolves to itself; below a
  directory that is refused everything is refused; and a name below a directory is looked up
  in the directory the spelling resolves to.
\<close>

definition realpath_laws :: "kernel \<Rightarrow> bool" where
  "realpath_laws k \<longleftrightarrow>
     k_realpath k [SLASH] = Inr [SLASH] \<and>
     (\<forall>p r. k_realpath k p = Inr r \<longrightarrow> canonical r \<and> k_realpath k r = Inr r) \<and>
     (\<forall>p. rooted p \<longrightarrow> refused k (dirname p) \<longrightarrow> refused k p) \<and>
     (\<forall>p r. rooted p \<longrightarrow> k_realpath k (dirname p) = Inr r \<longrightarrow> plain (basename p) \<longrightarrow> refused k p \<longrightarrow>
            refused k (child_path r (basename p)))"

lemma realpath_lawsD:
  assumes "realpath_laws k"
  shows "k_realpath k [SLASH] = Inr [SLASH]"
    and "k_realpath k p = Inr r \<Longrightarrow> canonical r"
    and "k_realpath k p = Inr r \<Longrightarrow> k_realpath k r = Inr r"
    and "rooted p \<Longrightarrow> refused k (dirname p) \<Longrightarrow> refused k p"
    and "rooted p \<Longrightarrow> k_realpath k (dirname p) = Inr r \<Longrightarrow> plain (basename p) \<Longrightarrow> refused k p \<Longrightarrow>
         refused k (child_path r (basename p))"
  using assms unfolding realpath_laws_def by blast+

section \<open>What a walk finds\<close>

lemma dirname_root [simp]: "dirname [SLASH] = [SLASH]"
  by (simp add: dirname_def)

lemma ancestors_root [simp]: "ancestors [SLASH] = [[SLASH]]"
  by (subst ancestors.simps) simp

lemma rooted_induct [consumes 1, case_names root_dir entry]:
  assumes "rooted p" "P [SLASH]"
    and "\<And>p. rooted p \<Longrightarrow> p \<noteq> [SLASH] \<Longrightarrow> P (dirname p) \<Longrightarrow> P p"
  shows "P p"
  using assms(1)
proof (induction p rule: ancestors.induct)
  case (1 p)
  show ?case
  proof (cases "p = [SLASH]")
    case False
    have "P (dirname p)" by (rule "1.IH" [OF refl rooted_step(5,1) [OF "1.prems" False]])
    then show ?thesis by (rule assms(3) [OF "1.prems" False])
  qed (simp add: assms(2))
qed

lemma ancestors_entry:
  "rooted p \<Longrightarrow> p \<noteq> [SLASH] \<Longrightarrow> ancestors p = p # ancestors (dirname p)"
  using rooted_step(5) by (subst ancestors.simps) (simp add: Let_def)

lemma walk_step:
  "rooted p \<Longrightarrow> p \<noteq> [SLASH] \<Longrightarrow> refused k p \<Longrightarrow>
   kernel_walk k (ancestors p) ms = kernel_walk k (ancestors (dirname p)) (basename p # ms)"
  by (auto simp: ancestors_entry refused_def split: sum.splits)

lemma walk_hit: "k_realpath k p = Inr r \<Longrightarrow> kernel_walk k (ancestors p) ms = Some (r, ms)"
  by (subst ancestors.simps) (simp add: Let_def)

text \<open>
  A walk from a rooted path stops at a directory that resolves, with names that are not empty,
  and the first of them is refused below the directory it stopped at.
\<close>

lemma last_name_refused:
  assumes "realpath_laws k" "k_realpath k p = Inr real"
    and "ms = [] \<or> (\<exists>c. rooted c \<and> dirname c = p \<and> basename c = hd ms \<and> refused k c)"
  shows "ms = [] \<or> (plain (hd ms) \<longrightarrow> refused k (child_path real (hd ms)))"
  using assms(3)
proof
  assume "\<exists>c. rooted c \<and> dirname c = p \<and> basename c = hd ms \<and> refused k c"
  then obtain c where "rooted c" "dirname c = p" "basename c = hd ms" "refused k c" by blast
  with realpath_lawsD(5) [OF assms(1), of c real] assms(2) show ?thesis by simp
qed simp

lemma walk_finds:
  assumes "realpath_laws k" "rooted p" "[] \<notin> set ms" "list_all (\<lambda>m. SLASH \<notin> set m) ms"
    and "ms = [] \<or> (\<exists>c. rooted c \<and> dirname c = p \<and> basename c = hd ms \<and> refused k c)"
  shows "\<exists>real ms'. kernel_walk k (ancestors p) ms = Some (real, ms' @ ms) \<and> canonical real \<and>
           k_realpath k real = Inr real \<and> segs p = take (length (segs p) - length ms') (segs p) @ ms' \<and>
           [] \<notin> set ms' \<and> list_all (\<lambda>m. SLASH \<notin> set m) ms' \<and>
           (ms' @ ms = [] \<or> (plain (hd (ms' @ ms)) \<longrightarrow> refused k (child_path real (hd (ms' @ ms)))))"
  using assms(2-)
proof (induction p arbitrary: ms rule: rooted_induct)
  case root_dir
  note root = realpath_lawsD(1) [OF assms(1)]
  from last_name_refused [OF assms(1) root root_dir(3)] walk_hit [OF root, of ms] root show ?case
    by (intro exI [of _ "[SLASH]"] exI [of _ "[]"]) (use realpath_lawsD(2) [OF assms(1) root] in auto)
next
  case (entry p)
  show ?case
  proof (cases "k_realpath k p")
    case (Inr real)
    note good = realpath_lawsD(2,3) [OF assms(1) Inr]
    from last_name_refused [OF assms(1) Inr entry.prems(3)] walk_hit [OF Inr, of ms] good show ?thesis
      by (intro exI [of _ real] exI [of _ "[]"]) simp
  next
    case (Inl e)
    then have refused: "refused k p" by (simp add: refused_def)
    note step = rooted_step [OF entry.hyps]
    have "\<exists>c. rooted c \<and> dirname c = dirname p \<and> basename c = basename p \<and> refused k c"
      using entry.hyps(1) refused by blast
    with entry.IH [of "basename p # ms"] entry.prems(1,2) step(2,3)
    obtain real ms' where walk: "kernel_walk k (ancestors (dirname p)) (basename p # ms) = Some (real, ms' @ basename p # ms)"
      "canonical real" "k_realpath k real = Inr real"
      "segs (dirname p) = take (length (segs (dirname p)) - length ms') (segs (dirname p)) @ ms'"
      "[] \<notin> set ms'" "list_all (\<lambda>m. SLASH \<notin> set m) ms'"
      "plain (hd (ms' @ basename p # ms)) \<longrightarrow> refused k (child_path real (hd (ms' @ basename p # ms)))"
      by auto
    have "segs p = take (length (segs p) - length (ms' @ [basename p])) (segs p) @ ms' @ [basename p]"
      using walk(4) step(4) by simp
    with walk step(2,3) show ?thesis unfolding walk_step [OF entry.hyps refused]
      by (intro exI [of _ real] exI [of _ "ms' @ [basename p]"]) simp
  qed
qed

text \<open>Names that are plain all stay missing below a directory where the first one is.\<close>

lemma plain_tail_walk:
  assumes "realpath_laws k" "list_all plain ss" "k_realpath k (abs_path ss) = Inr (abs_path ss)"
    and "ms \<noteq> []" "list_all plain ms" "refused k (abs_path (ss @ [hd ms]))"
  shows "refused k (abs_path (ss @ ms)) \<and> kernel_walk k (ancestors (abs_path (ss @ ms))) acc = Some (abs_path ss, ms @ acc)"
  using assms(4-)
proof (induction ms arbitrary: acc rule: rev_induct)
  case (snoc m ms)
  have plain: "list_all plain (ss @ ms)" "plain m" using assms(2) snoc.prems(2) by auto
  note dir = dirname_abs_path [OF plain] and base = basename_abs_path [OF plain(2), of "ss @ ms"]
  have rooted: "rooted (abs_path ((ss @ ms) @ [m]))" using plain by (intro rooted_abs_path) simp
  have entry: "abs_path ((ss @ ms) @ [m]) \<noteq> [SLASH]"
    using plain by (metis abs_path_Nil list_all_append segs_abs_path snoc_eq_iff_butlast list.pred_inject)
  show ?case
  proof (cases "ms = []")
    case True
    with snoc.prems(3) have "refused k (abs_path ((ss @ ms) @ [m]))" by simp
    with walk_step [OF rooted entry this, of acc] dir base True show ?thesis
      by (simp add: walk_hit [OF assms(3)])
  next
    case False
    with snoc.prems have IH: "refused k (abs_path (ss @ ms))"
      "kernel_walk k (ancestors (abs_path (ss @ ms))) (m # acc) = Some (abs_path ss, ms @ m # acc)"
      using snoc.IH [of "m # acc"] by (simp_all add: hd_append)
    then have "refused k (abs_path ((ss @ ms) @ [m]))"
      using realpath_lawsD(4) [OF assms(1) rooted] unfolding dir by blast
    with walk_step [OF rooted entry this, of acc] dir base IH(2) show ?thesis by simp
  qed
qed simp

text \<open>
  So an answer made of a real directory and plain names is found again as it is.
\<close>

definition settled :: "kernel \<Rightarrow> js_text \<Rightarrow> js_text list \<Rightarrow> bool" where
  "settled k real ms \<longleftrightarrow>
     canonical real \<and> k_realpath k real = Inr real \<and> list_all plain ms \<and>
     (ms = [] \<or> refused k (child_path real (hd ms)))"

lemma settled_fold:
  assumes "settled k real ms"
  shows "foldMissingTail real ms = abs_path (segs real @ ms)" and "list_all plain (segs real @ ms)"
proof -
  obtain ss where ss: "list_all plain ss" "real = abs_path ss" "segs real = ss"
    using assms by (auto simp: settled_def elim: canonicalE)
  then show plain: "list_all plain (segs real @ ms)" using assms by (simp add: settled_def)
  show "foldMissingTail real ms = abs_path (segs real @ ms)"
  proof (cases "ms = []")
    case False
    have ms: "list_all plain ms" using plain by simp
    have "path_join (real # ms) = abs_path (fold_dots False [] (segs real @ ms))"
      by (rule path_join_absolute [OF _ plain_not_Nil [OF ms] plain_slashless [OF ms] False])
         (use ss in simp)
    then show ?thesis using False by (simp add: foldMissingTail_def fold_dots_id [OF plain])
  qed (simp add: foldMissingTail_def ss)
qed

lemma settled_walk:
  assumes "realpath_laws k" "settled k real ms"
  shows "kernel_walk k (ancestors (foldMissingTail real ms)) [] = Some (real, ms)"
proof -
  obtain ss where ss: "list_all plain ss" "real = abs_path ss" "segs real = ss"
    using assms(2) by (auto simp: settled_def elim: canonicalE)
  show ?thesis
  proof (cases "ms = []")
    case True
    then show ?thesis using assms(2) by (simp add: foldMissingTail_def settled_def walk_hit)
  next
    case False
    with assms(2) ss plain_tail_walk [OF assms(1) ss(1), of ms "[]"] show ?thesis
      unfolding settled_fold(1) [OF assms(2)] by (simp add: settled_def child_path_def)
  qed
qed

section \<open>The fixpoint\<close>

lemma no_dots_plain:
  "\<not> tailHasDotSegment ms \<Longrightarrow> [] \<notin> set ms \<Longrightarrow> list_all (\<lambda>m. SLASH \<notin> set m) ms \<Longrightarrow> list_all plain ms"
  by (auto simp: tailHasDotSegment_def plain_def list_all_iff list_ex_iff)

lemma plain_no_dots: "list_all plain ms \<Longrightarrow> \<not> tailHasDotSegment ms"
  by (auto simp: tailHasDotSegment_def plain_def list_all_iff list_ex_iff)

text \<open>A first walk from a rooted path; from a canonical one it is settled at once.\<close>

lemma first_walk:
  assumes "realpath_laws k" "rooted p"
  obtains real ms where "kernel_walk k (ancestors p) [] = Some (real, ms)" "canonical real"
    "[] \<notin> set ms" "list_all (\<lambda>m. SLASH \<notin> set m) ms"
    "\<not> tailHasDotSegment ms \<Longrightarrow> settled k real ms" "list_all plain (segs p) \<Longrightarrow> list_all plain ms"
proof -
  from walk_finds [OF assms, of "[]"]
  obtain real ms where walk: "kernel_walk k (ancestors p) [] = Some (real, ms)" "canonical real"
    "k_realpath k real = Inr real" "segs p = take (length (segs p) - length ms) (segs p) @ ms"
    "[] \<notin> set ms" "list_all (\<lambda>m. SLASH \<notin> set m) ms"
    "ms = [] \<or> (plain (hd ms) \<longrightarrow> refused k (child_path real (hd ms)))" by auto
  have "settled k real ms" if "\<not> tailHasDotSegment ms"
    using no_dots_plain [OF that walk(5,6)] walk(2,3,7) by (cases ms) (auto simp: settled_def)
  moreover have "list_all plain ms" if "list_all plain (segs p)"
    using that walk(4) by (metis list_all_append)
  ultimately show thesis using that walk by blast
qed

lemma settled_attempt:
  assumes "realpath_laws k" "settled k real ms"
  shows "kernelAttempt k (foldMissingTail real ms) = Some (foldMissingTail real ms, False)"
    and "kernelAttemptAsync k (foldMissingTail real ms) =
         Some (foldMissingTail real ms, False, walk_confirmed k (ancestors (foldMissingTail real ms)))"
  using settled_walk [OF assms] plain_no_dots [of ms] assms(2)
  by (simp_all add: kernelAttempt_def kernelAttemptAsync_def settled_def)

lemma path_identity_settles:
  assumes "realpath_laws k" "rooted p"
  obtains real ms where "settled k real ms" "kernelRealPath k p = Some (foldMissingTail real ms)"
    "map_option fst (kernelPathIdentityAsync k p) = Some (foldMissingTail real ms)"
proof -
  obtain real ms where walk: "kernel_walk k (ancestors p) [] = Some (real, ms)" "canonical real"
    "[] \<notin> set ms" "list_all (\<lambda>m. SLASH \<notin> set m) ms" "\<not> tailHasDotSegment ms \<Longrightarrow> settled k real ms"
    by (rule first_walk [OF assms]) blast
  show thesis
  proof (cases "tailHasDotSegment ms")
    case False
    with walk that [of real ms] show thesis
      by (simp add: kernelRealPath_def kernelAttempt_def kernelPathIdentityAsync_def kernelAttemptAsync_def Let_def)
  next
    case True
    then have "ms \<noteq> []" by (auto simp: tailHasDotSegment_def)
    define ss where "ss = fold_dots False [] (segs real @ ms)"
    have "list_all (\<lambda>m. SLASH \<notin> set m) (segs real @ ms)"
      using walk(2,4) by (auto elim!: canonicalE dest: plain_slashless)
    then have plain: "list_all plain ss" unfolding ss_def by (intro fold_dots_plain) simp_all
    have fold: "foldMissingTail real ms = abs_path ss"
      using path_join_absolute [OF walk(2,3,4) \<open>ms \<noteq> []\<close>] \<open>ms \<noteq> []\<close> by (simp add: foldMissingTail_def ss_def)
    obtain real' ms' where again: "kernel_walk k (ancestors (abs_path ss)) [] = Some (real', ms')"
      "\<not> tailHasDotSegment ms' \<Longrightarrow> settled k real' ms'" "list_all plain (segs (abs_path ss)) \<Longrightarrow> list_all plain ms'"
      by (rule first_walk [OF assms(1) rooted_abs_path [OF plain]]) blast
    have settled: "settled k real' ms'" using again(2,3) plain plain_no_dots by simp
    have "kernelAttempt k p = Some (abs_path ss, True)"
      "kernelAttemptAsync k p = Some (abs_path ss, True, walk_confirmed k (ancestors p))"
      using walk(1) True fold by (simp_all add: kernelAttempt_def kernelAttemptAsync_def)
    moreover have "\<exists>b. kernelAttempt k (abs_path ss) = Some (foldMissingTail real' ms', b)"
      "\<exists>b c. kernelAttemptAsync k (abs_path ss) = Some (foldMissingTail real' ms', b, c)"
      using again(1) by (simp_all add: kernelAttempt_def kernelAttemptAsync_def)
    ultimately show thesis using settled that [of real' ms']
      by (auto simp: kernelRealPath_def kernelPathIdentityAsync_def)
  qed
qed

lemma identity_fixpoint:
  assumes "realpath_laws k" "rooted p" "kernelRealPath k p = Some a"
  shows "canonical a" and "kernelRealPath k a = Some a"
    and "kernelPathIdentityAsync k a = Some (a, walk_confirmed k (ancestors a))"
proof -
  obtain real ms where *: "settled k real ms" "a = foldMissingTail real ms"
    using path_identity_settles [OF assms(1,2)] assms(3) by (metis option.inject)
  note again = settled_attempt [OF assms(1) *(1)]
  show "canonical a" using settled_fold [OF *(1)] by (simp add: *(2))
  show "kernelRealPath k a = Some a"
    "kernelPathIdentityAsync k a = Some (a, walk_confirmed k (ancestors a))"
    using again by (simp_all add: kernelRealPath_def kernelPathIdentityAsync_def *(2))
qed

end
