(* ===== verification/File_Tree.thy ===== *)
theory File_Tree
  imports Path_Fixpoint
begin

text \<open>
  File trees with symbolic links: executable instances of the file system the other theories
  take as a parameter. A tree is an association list from paths (lists of names) to nodes; a
  link holds the real path of its target. Every tree that is well formed answers \<open>realpath\<close>
  as \<open>realpath_laws\<close> asks.
\<close>

datatype tree_node = Dir | Text js_text | Link "js_text list"

type_synonym file_tree = "(js_text list \<times> tree_node) list"

text \<open>The directory or file at a path that goes through no link.\<close>

definition real_node :: "file_tree \<Rightarrow> js_text list \<Rightarrow> bool" where
  "real_node t ss = (ss = [] \<or> (case map_of t ss of Some Dir \<Rightarrow> True | Some (Text _) \<Rightarrow> True | _ \<Rightarrow> False))"

definition tree_dir :: "file_tree \<Rightarrow> js_text list \<Rightarrow> bool" where
  "tree_dir t ss = (ss = [] \<or> map_of t ss = Some Dir)"

definition wf_entry :: "file_tree \<Rightarrow> js_text list \<times> tree_node \<Rightarrow> bool" where
  "wf_entry t = (\<lambda>(ss, node). ss \<noteq> [] \<and> list_all plain ss \<and> tree_dir t (butlast ss) \<and>
                   (case node of Link target \<Rightarrow> real_node t target | _ \<Rightarrow> True))"

definition wf_tree :: "file_tree \<Rightarrow> bool" where
  "wf_tree t = (distinct (map fst t) \<and> list_all (wf_entry t) t)"

section \<open>Resolution\<close>

definition tree_step :: "file_tree \<Rightarrow> js_text list \<Rightarrow> js_text \<Rightarrow> string + js_text list" where
  "tree_step t cur s =
     (if \<not> tree_dir t cur then Inl ''ENOTDIR''
      else if s = [DOT] then Inr cur
      else if s = [DOT, DOT] then Inr (butlast cur)
      else case map_of t (cur @ [s]) of
             None \<Rightarrow> Inl ''ENOENT''
           | Some (Link target) \<Rightarrow> Inr target
           | Some _ \<Rightarrow> Inr (cur @ [s]))"

fun tree_resolve :: "file_tree \<Rightarrow> js_text list \<Rightarrow> js_text list \<Rightarrow> string + js_text list" where
  "tree_resolve t cur [] = Inr cur"
| "tree_resolve t cur (s # ss) =
     (case tree_step t cur s of Inl e \<Rightarrow> Inl e | Inr cur' \<Rightarrow> tree_resolve t cur' ss)"

definition tree_realpath :: "file_tree \<Rightarrow> js_text list \<Rightarrow> js_text \<Rightarrow> string + js_text" where
  "tree_realpath t cwd p =
     map_sum id abs_path (tree_resolve t (if isAbsolute p then [] else cwd) (segs p))"

definition tree_lstat :: "file_tree \<Rightarrow> js_text list \<Rightarrow> js_text \<Rightarrow> string + stat_kind" where
  "tree_lstat t cwd p =
     (case rev (segs p) of
        [] \<Rightarrow> Inr IsDirectory
      | m # up \<Rightarrow>
          (case tree_resolve t (if isAbsolute p then [] else cwd) (rev up) of
             Inl e \<Rightarrow> Inl e
           | Inr cur \<Rightarrow>
               if \<not> tree_dir t cur then Inl ''ENOTDIR''
               else if m = [DOT] \<or> m = [DOT, DOT] then Inr IsDirectory
               else (case map_of t (cur @ [m]) of
                       None \<Rightarrow> Inl ''ENOENT''
                     | Some Dir \<Rightarrow> Inr IsDirectory
                     | Some _ \<Rightarrow> Inr IsOther)))"

section \<open>Well-formed trees keep the laws\<close>

lemma tree_resolve_append:
  "tree_resolve t cur (as @ bs) =
     (case tree_resolve t cur as of Inl e \<Rightarrow> Inl e | Inr cur' \<Rightarrow> tree_resolve t cur' bs)"
  by (induction as arbitrary: cur) (auto split: sum.splits)

lemma wf_entryD:
  assumes "wf_tree t" "map_of t ss = Some node"
  shows "ss \<noteq> []" "list_all plain ss" "tree_dir t (butlast ss)" "node = Link target \<Longrightarrow> real_node t target"
  using assms map_of_SomeD [OF assms(2)] by (auto simp: wf_tree_def wf_entry_def list_all_iff)

lemma tree_dir_real: "tree_dir t ss \<Longrightarrow> real_node t ss"
  by (auto simp: tree_dir_def real_node_def)

lemma real_node_plain: "wf_tree t \<Longrightarrow> real_node t ss \<Longrightarrow> list_all plain ss"
  using wf_entryD(2) by (auto simp: real_node_def split: option.splits)

lemma real_node_parent: "wf_tree t \<Longrightarrow> real_node t (ss @ [s]) \<Longrightarrow> tree_dir t ss"
  using wf_entryD(3) [of t "ss @ [s]"] by (auto simp: real_node_def split: option.splits)

lemma real_node_butlast: "wf_tree t \<Longrightarrow> real_node t ss \<Longrightarrow> real_node t (butlast ss)"
  by (cases ss rule: rev_cases) (auto intro: real_node_parent tree_dir_real)

lemma real_node_found: "map_of t ss = Some Dir \<or> map_of t ss = Some (Text c) \<Longrightarrow> real_node t ss"
  by (auto simp: real_node_def)

lemma tree_step_real:
  assumes "wf_tree t" "real_node t cur" "tree_step t cur s = Inr cur'" shows "real_node t cur'"
proof (cases "map_of t (cur @ [s])")
  case None
  with assms show ?thesis
    by (auto simp: tree_step_def split: if_splits intro: real_node_butlast)
next
  case (Some node)
  with assms wf_entryD(4) [OF assms(1) Some] real_node_found [of t "cur @ [s]"] show ?thesis
    by (cases node) (auto simp: tree_step_def split: if_splits intro: real_node_butlast)
qed

lemma tree_resolve_real:
  "wf_tree t \<Longrightarrow> real_node t cur \<Longrightarrow> tree_resolve t cur ss = Inr cur' \<Longrightarrow> real_node t cur'"
  by (induction ss arbitrary: cur) (auto split: sum.splits intro: tree_step_real)

lemma tree_resolve_self:
  "wf_tree t \<Longrightarrow> real_node t ss \<Longrightarrow> tree_resolve t [] ss = Inr ss"
proof (induction ss rule: rev_induct)
  case (snoc s ss)
  have dir: "tree_dir t ss" using real_node_parent [OF snoc.prems] .
  have "plain s" using real_node_plain [OF snoc.prems] by simp
  then have "tree_step t ss s = Inr (ss @ [s])"
    using snoc.prems(2) dir by (auto simp: tree_step_def plain_def real_node_def split: option.splits tree_node.splits)
  with snoc.IH [OF snoc.prems(1) tree_dir_real [OF dir]] show ?case by (simp add: tree_resolve_append)
qed simp

definition tree_kernel :: "file_tree \<Rightarrow> js_text list \<Rightarrow> (js_text \<Rightarrow> js_text option) \<Rightarrow> kernel" where
  "tree_kernel t cwd decode =
     \<lparr>k_realpath = tree_realpath t cwd, k_lstat = tree_lstat t cwd, k_cwd = abs_path cwd,
      k_fileURLToPath = decode, k_lower = id, k_windowsForm = id\<rparr>"

lemma tree_realpath_real:
  assumes "wf_tree t" "real_node t cwd" "tree_realpath t cwd p = Inr r"
  obtains ss where "r = abs_path ss" "real_node t ss"
    "tree_resolve t (if isAbsolute p then [] else cwd) (segs p) = Inr ss"
proof -
  obtain ss where "r = abs_path ss" "tree_resolve t (if isAbsolute p then [] else cwd) (segs p) = Inr ss"
    using assms(3) by (cases "tree_resolve t (if isAbsolute p then [] else cwd) (segs p)")
      (auto simp: tree_realpath_def)
  moreover have "real_node t (if isAbsolute p then [] else cwd)" using assms(2) by (simp add: real_node_def)
  ultimately show thesis using tree_resolve_real [OF assms(1)] that by blast
qed

lemma rooted_absolute: "rooted p \<Longrightarrow> isAbsolute p"
  by (simp add: rooted_def)

lemma tree_realpath_entry:
  assumes "rooted p" "p \<noteq> [SLASH]"
  shows "tree_realpath t cwd p =
         (case tree_resolve t [] (segs (dirname p)) of
            Inl e \<Rightarrow> Inl e | Inr cur \<Rightarrow> map_sum id abs_path (tree_step t cur (basename p)))"
  using rooted_step(1,4) [OF assms] rooted_absolute [OF assms(1)]
  by (auto simp: tree_realpath_def tree_resolve_append split: sum.splits)

lemma tree_laws:
  assumes "wf_tree t" "real_node t cwd"
  shows "realpath_laws (tree_kernel t cwd decode)"
  unfolding realpath_laws_def
proof (intro conjI allI impI)
  let ?k = "tree_kernel t cwd decode"
  have k: "k_realpath ?k = tree_realpath t cwd" by (simp add: tree_kernel_def)
  have root: "segs [SLASH] = []" by simp
  show "k_realpath ?k [SLASH] = Inr [SLASH]"
    by (simp add: k tree_realpath_def isAbsolute_def)
  { fix p r assume "k_realpath ?k p = Inr r"
    then obtain ss where ss: "r = abs_path ss" "real_node t ss"
      using tree_realpath_real [OF assms] unfolding k by metis
    show "canonical r" using real_node_plain [OF assms(1) ss(2)] by (simp add: ss(1))
    show "k_realpath ?k r = Inr r"
      using real_node_plain [OF assms(1) ss(2)] tree_resolve_self [OF assms(1) ss(2)]
      by (simp add: k ss(1) tree_realpath_def) }
  { fix p assume p: "rooted p" "refused ?k (dirname p)"
    show "refused ?k p"
    proof (cases "p = [SLASH]")
      case False
      with p rooted_absolute [OF rooted_step(1) [OF p(1) False]] show ?thesis
        by (auto simp: refused_def k tree_realpath_entry) (auto simp: tree_realpath_def split: sum.splits)
    qed (use p in simp) }
  { fix p r assume p: "rooted p" "k_realpath ?k (dirname p) = Inr r" "plain (basename p)" "refused ?k p"
    have entry: "p \<noteq> [SLASH]" using p(3) by (auto simp: basename_def plain_def)
    obtain ss where ss: "r = abs_path ss" "real_node t ss" "tree_resolve t [] (segs (dirname p)) = Inr ss"
      using tree_realpath_real [OF assms, of "dirname p" r] p(2) rooted_absolute [OF rooted_step(1) [OF p(1) entry]]
      unfolding k by (metis (full_types))
    have plain: "list_all plain ss" by (rule real_node_plain [OF assms(1) ss(2)])
    then have "tree_realpath t cwd (child_path r (basename p)) = map_sum id abs_path (tree_step t ss (basename p))"
      using p(3) tree_resolve_self [OF assms(1) ss(2)]
      by (simp add: child_path_def ss(1) tree_realpath_def tree_resolve_append split: sum.splits)
    moreover have "tree_realpath t cwd p = map_sum id abs_path (tree_step t ss (basename p))"
      using tree_realpath_entry [OF p(1) entry] ss(3) by simp
    ultimately show "refused ?k (child_path r (basename p))" using p(4) by (simp add: refused_def k) }
qed

end
