(* ===== verification/Path_Properties.thy ===== *)
theory Path_Properties
  imports File_Tree
begin

text \<open>
  What the path helpers promise: a map key is its own key, spellings of one file share a key,
  containment of keys is containment of their texts, and the lexical test agrees with it.
\<close>

section \<open>Keys\<close>

lemma rooted_form:
  assumes "rooted p" "BACKSLASH \<notin> set p"
  shows "toPosix p = p" "\<not> isWindowsPath p" "\<not> (p = [] \<or> starts_with_slashes p)" "isAbsolute p"
proof -
  obtain cs where p: "p = SLASH # cs" "cs = [] \<or> hd cs \<noteq> SLASH"
    using assms(1) by (cases p) (auto simp: rooted_def isAbsolute_def)
  show "toPosix p = p" by (rule toPosix_id [OF assms(2)])
  show "\<not> isWindowsPath p"
    by (cases cs) (auto simp: p(1) isWindowsPath_def is_ascii_letter_def SLASH_def BACKSLASH_def word_le_nat_alt)
  show "\<not> (p = [] \<or> starts_with_slashes p)" using p(2) by (cases cs) (auto simp: p(1) starts_with_slashes_def)
  show "isAbsolute p" by (simp add: p(1) isAbsolute_def)
qed

lemma normalizeFilePath_rooted:
  assumes "realpath_laws k" "rooted p" "BACKSLASH \<notin> set p"
  shows "kernelRealPath k p = Some (normalizeFilePath k p)"
proof -
  obtain a where a: "kernelRealPath k p = Some a" by (rule path_identity_settles [OF assms(1,2)]) blast
  then show ?thesis using rooted_form [OF assms(2,3)]
    by (simp add: normalizeFilePath_def normalizePathForm_def posixPathIdentity_def Let_def)
qed

text \<open>An identity without a backslash, in both forms.\<close>

definition is_identity :: "kernel \<Rightarrow> js_text \<Rightarrow> bool" where
  "is_identity k p = (canonical p \<and> kernelRealPath k p = Some p \<and> BACKSLASH \<notin> set p)"

lemma plain_last: "plain s \<Longrightarrow> last s \<noteq> SLASH"
  by (metis last_in_set plain_def)

lemma last_abs_path:
  assumes "list_all plain ss" "ss \<noteq> []" shows "last (abs_path ss) \<noteq> SLASH"
proof -
  have "last (join_slash ss) = last (last ss) \<and> join_slash ss \<noteq> []" using assms(2) plain_not_Nil [OF assms(1)]
    by (induction ss rule: join_slash.induct) auto
  moreover have "plain (last ss)" using assms by (simp add: list_all_iff)
  ultimately show ?thesis using plain_last by (simp add: abs_path_def)
qed

lemma normalize_canonical:
  assumes "canonical p" shows "normalize p = p"
proof -
  obtain ss where ss: "list_all plain ss" "p = abs_path ss" "segs p = ss" by (rule canonicalE [OF assms])
  show ?thesis
  proof (cases "ss = []")
    case True
    then show ?thesis by (simp add: ss(2) normalize_def isAbsolute_def Let_def)
  next
    case False
    with normalize_absolute [of p] ss last_abs_path [OF ss(1)] show ?thesis by (simp add: fold_dots_id)
  qed
qed

lemma kernelRealPath_hit: "k_realpath k p = Inr r \<Longrightarrow> kernelRealPath k p = Some r"
  by (simp add: kernelRealPath_def kernelAttempt_def walk_hit foldMissingTail_def tailHasDotSegment_def)

lemma identity_forms:
  assumes "is_identity k p"
  shows "normalizeFilePath k p = p" and "normalizePathSpelling k p = p"
proof -
  have p: "canonical p" "kernelRealPath k p = Some p" "BACKSLASH \<notin> set p"
    using assms by (simp_all add: is_identity_def)
  note form = rooted_form [OF canonical_rooted [OF p(1)] p(3)]
  show "normalizeFilePath k p = p"
    using form p(2) by (simp add: normalizeFilePath_def normalizePathForm_def posixPathIdentity_def Let_def)
  have "k_realpath k p = Inr r \<Longrightarrow> r = p" for r using kernelRealPath_hit [of k p r] p(2) by simp
  then show "normalizePathSpelling k p = p"
    using form normalize_canonical [OF p(1)]
    by (auto simp: normalizePathSpelling_def normalizePathForm_def Let_def split: sum.splits)
qed

lemma isUnderDir_identities:
  "is_identity k p \<Longrightarrow> is_identity k d \<Longrightarrow> isUnderDir k p d = isWithinForm p d"
  by (simp add: isUnderDir_def isWithinIdentity_def identity_forms)

lemma normalizeFilePath_identity:
  assumes "realpath_laws k" "rooted p" "BACKSLASH \<notin> set p" "BACKSLASH \<notin> set (normalizeFilePath k p)"
  shows "is_identity k (normalizeFilePath k p)"
  using identity_fixpoint [OF assms(1,2) normalizeFilePath_rooted [OF assms(1-3)]] assms(4)
  by (simp add: is_identity_def)

section \<open>Lexical containment\<close>

lemma strip_common_prefix: "strip_common as (as @ bs) = ([], bs)"
  by (induction as) (cases bs; auto)+

lemma strip_common_up: "fst (strip_common as bs) = [] \<Longrightarrow> \<exists>cs. bs = as @ cs"
  by (induction as bs rule: strip_common.induct) (auto split: if_splits)

lemma strip_common_down: "set (snd (strip_common as bs)) \<subseteq> set bs"
  by (induction as bs rule: strip_common.induct) auto

lemma join_slash_prefix:
  assumes "list_all plain as" "list_all plain bs" "as \<noteq> []"
  shows "take (length (join_slash as @ [SLASH])) (join_slash bs) = join_slash as @ [SLASH] \<longleftrightarrow>
         (\<exists>cs. cs \<noteq> [] \<and> bs = as @ cs)"
proof
  assume "take (length (join_slash as @ [SLASH])) (join_slash bs) = join_slash as @ [SLASH]"
  then obtain q where "join_slash bs = (join_slash as @ [SLASH]) @ q" by (metis append_take_drop_id)
  then have "join_slash bs = join_slash as @ SLASH # q" by simp
  then have bs: "bs = as @ segs q"
    using segs_join_slash [OF assms(2)] segs_join_slash [OF assms(1)] by (simp add: segs_append)
  moreover have "segs q \<noteq> []"
  proof
    assume "segs q = []"
    with bs have "bs = as" by simp
    with \<open>join_slash bs = join_slash as @ SLASH # q\<close> show False by simp
  qed
  ultimately show "\<exists>cs. cs \<noteq> [] \<and> bs = as @ cs" by blast
next
  assume "\<exists>cs. cs \<noteq> [] \<and> bs = as @ cs"
  then obtain cs where "cs \<noteq> []" "bs = as @ cs" by blast
  with assms(3) have "join_slash bs = (join_slash as @ [SLASH]) @ join_slash cs" by (simp add: join_slash_append)
  then show "take (length (join_slash as @ [SLASH])) (join_slash bs) = join_slash as @ [SLASH]"
    by (metis append_eq_conv_conj)
qed

lemma abs_path_inject: "list_all plain as \<Longrightarrow> list_all plain bs \<Longrightarrow> abs_path as = abs_path bs \<longleftrightarrow> as = bs"
  by (metis segs_abs_path)

text \<open>Containment of canonical paths is a prefix relation on their names.\<close>

lemma isWithinForm_abs_path:
  assumes "list_all plain as" "list_all plain bs"
  shows "isWithinForm (abs_path bs) (abs_path as) \<longleftrightarrow> (\<exists>cs. bs = as @ cs)"
proof (cases "as = []")
  case True
  then show ?thesis by (auto simp: isWithinForm_def abs_path_def)
next
  case False
  have "take (length (abs_path as @ [SLASH])) (abs_path bs) = abs_path as @ [SLASH] \<longleftrightarrow>
        take (length (join_slash as @ [SLASH])) (join_slash bs) = join_slash as @ [SLASH]"
    by (simp add: abs_path_def)
  then show ?thesis
    using last_abs_path [OF assms(1) False] abs_path_inject [OF assms(2,1)] join_slash_prefix [OF assms False]
    by (auto simp: isWithinForm_def abs_path_def)
qed

lemma path_resolve_canonical: "list_all plain ss \<Longrightarrow> path_resolve cwd (abs_path ss) = abs_path ss"
proof -
  assume plain: "list_all plain ss"
  have "fold_dots False [] (split_slash (abs_path ss)) = fold_dots False [] (segs (abs_path ss))"
    by (simp add: segs_def fold_dots_drop_empty)
  with plain show ?thesis by (simp add: path_resolve_def fold_dots_id) (simp add: abs_path_def)
qed

lemma relativeInside_abs_path:
  assumes "list_all plain as" "list_all plain bs"
  shows "relativeInside k (abs_path as) (abs_path bs) =
         (if \<exists>cs. bs = as @ cs then Some (toPosix (join_slash (drop (length as) bs))) else None)"
proof -
  obtain up down where strip: "strip_common as bs = (up, down)" by (cases "strip_common as bs")
  have rel: "path_relative (k_cwd k) (path_resolve (k_cwd k) (abs_path as)) (abs_path bs) =
             join_slash (map (\<lambda>_. [DOT, DOT]) up @ down)"
    using assms by (simp add: path_relative_def path_resolve_canonical strip)
  have down: "list_all plain down" using strip_common_down [of as bs] strip assms(2)
    by (auto simp: list_all_iff)
  show ?thesis
  proof (cases up)
    case Nil
    with strip_common_up [of as bs] strip obtain cs where cs: "bs = as @ cs" by auto
    then have "down = cs" using strip by (simp add: strip_common_prefix)
    moreover have "join_slash down \<noteq> [DOT, DOT]" "take 3 (join_slash down) \<noteq> [DOT, DOT, SLASH]"
      "\<not> isAbsolute (join_slash down)"
    proof -
      have "segs (join_slash down) = down" by (rule segs_join_slash [OF down])
      moreover have dots: "segs [DOT, DOT] = [[DOT, DOT]]" by (simp add: segs_def DOT_def SLASH_def)
      ultimately show "join_slash down \<noteq> [DOT, DOT]" using down by (auto simp: plain_def)
      show "take 3 (join_slash down) \<noteq> [DOT, DOT, SLASH]"
      proof
        assume "take 3 (join_slash down) = [DOT, DOT, SLASH]"
        then have "join_slash down = [DOT, DOT, SLASH] @ drop 3 (join_slash down)" by (metis append_take_drop_id)
        then have "join_slash down = [DOT, DOT] @ SLASH # drop 3 (join_slash down)" by simp
        then have "down = [DOT, DOT] # segs (drop 3 (join_slash down))"
          using segs_join_slash [OF down] segs_append [of "[DOT, DOT]" "drop 3 (join_slash down)"] dots by simp
        with down have "plain [DOT, DOT]" by (metis list.pred_inject(2))
        then show False by (simp add: plain_def)
      qed
      show "\<not> isAbsolute (join_slash down)"
        using down by (cases down rule: join_slash.cases) (auto simp: isAbsolute_def hd_append dest: plain_hd)
    qed
    ultimately show ?thesis unfolding relativeInside_def rel Let_def using Nil cs by simp
  next
    case (Cons u us)
    have "\<not> (\<exists>cs. bs = as @ cs)" using strip Cons by (auto simp: strip_common_prefix)
    moreover have "join_slash (map (\<lambda>_. [DOT, DOT]) up @ down) = [DOT, DOT] \<or>
        take 3 (join_slash (map (\<lambda>_. [DOT, DOT]) up @ down)) = [DOT, DOT, SLASH]"
      using Cons by (cases us; cases down) auto
    ultimately show ?thesis by (auto simp: relativeInside_def rel Let_def)
  qed
qed

section \<open>A file tree for the witnesses\<close>

text \<open>
  A workspace \<open>/w\<close> with a directory \<open>src\<close>, a file \<open>src/a\<close>, a link \<open>lib\<close> to \<open>/ext\<close> outside of it,
  a file whose name has a backslash and a link to that file.
\<close>

definition sample_tree :: file_tree where
  "sample_tree =
     map (\<lambda>(ss, n). (map units ss, n))
       [([''w''], Dir), ([''w'', ''src''], Dir), ([''w'', ''src'', ''a''], Text (units ''x'')),
        ([''ext''], Dir), ([''w'', ''lib''], Link [units ''ext'']),
        ([''w'', [CHR ''a'', CHR 0x5C, CHR ''b'']], Text []),
        ([''w'', ''odd''], Link [units ''w'', units [CHR ''a'', CHR 0x5C, CHR ''b'']])]"

definition sample_kernel :: kernel where
  "sample_kernel = tree_kernel sample_tree [units ''w''] Some"

lemma sample_laws: "realpath_laws sample_kernel"
  unfolding sample_kernel_def by (rule tree_laws) code_simp+

text \<open>
  C10: a map key is its own key. Take an absolute path without a backslash, whose key has none
  either, on a kernel whose \<open>realpath\<close> keeps \<open>realpath_laws\<close>. If the path exists the key is the
  kernel's real path of the spelling, so all spellings of one file have one key; if it does
  not exist yet the key is again canonical; and keying a key, or asking the asynchronous walk for
  its identity, gives the key back. (The comment on \<open>expectedContent\<close> in \<open>lsp/edits.ts\<close> says the
  key keeps the spelling of a symlinked directory; it does not. With backslashes the claim
  fails: \<open>backslash_key_moves\<close>.)
\<close>

theorem path_key_is_a_fixpoint:
  assumes "realpath_laws k" "rooted p" "BACKSLASH \<notin> set p" "BACKSLASH \<notin> set (normalizeFilePath k p)"
  shows "canonical (normalizeFilePath k p) \<and>
         (k_realpath k p = Inr r \<longrightarrow> normalizeMapKey k p = r) \<and>
         normalizeFilePath k (normalizeFilePath k p) = normalizeFilePath k p \<and>
         realpathOrResolve k (normalizeFilePath k p) = normalizeFilePath k p \<and>
         realpathOrResolveAsync k (normalizeFilePath k p) = normalizeFilePath k p"
proof -
  note key = normalizeFilePath_rooted [OF assms(1-3)]
  note again = identity_fixpoint [OF assms(1,2) key]
  note own = identity_forms(1) [OF normalizeFilePath_identity [OF assms]]
  have "normalizeMapKey k p = r" if "k_realpath k p = Inr r"
    using kernelRealPath_hit [OF that] key by (simp add: normalizeMapKey_def)
  with again own show ?thesis by (simp add: realpathOrResolve_def realpathOrResolveAsync_def)
qed

text \<open>The key of \<open>/w/gone/../lib/new\<close>, where \<open>gone\<close> is missing and \<open>lib\<close> is a link: two walks.\<close>

theorem path_key_is_a_fixpoint_witness:
  "normalizeFilePath sample_kernel (units ''/w/gone/../lib/new'') = units ''/ext/new'' \<and>
   normalizeFilePath sample_kernel (units ''/ext/new'') = units ''/ext/new''"
proof -
  let ?p = "units ''/w/gone/../lib/new''"
  have key: "normalizeFilePath sample_kernel ?p = units ''/ext/new''" by code_simp
  have "rooted ?p" "BACKSLASH \<notin> set ?p" by code_simp+
  moreover have "BACKSLASH \<notin> set (normalizeFilePath sample_kernel ?p)" unfolding key by code_simp
  ultimately have "normalizeFilePath sample_kernel (normalizeFilePath sample_kernel ?p) = normalizeFilePath sample_kernel ?p"
    using path_key_is_a_fixpoint [OF sample_laws, of ?p "[]"] by blast
  then show ?thesis unfolding key by blast
qed

text \<open>With a backslash in a real name the key of a key is another path.\<close>

lemma backslash_key_moves:
  "normalizeFilePath sample_kernel (units ''/w/odd'') = units [CHR ''/'', CHR ''w'', CHR ''/'', CHR ''a'', CHR 0x5C, CHR ''b'']"
  "normalizeFilePath sample_kernel (normalizeFilePath sample_kernel (units ''/w/odd'')) = units ''/w/a/b''"
  by code_simp+

text \<open>
  C30: the two containment tests agree. For the keys of two absolute paths, \<open>isUnderDir\<close> (on
  spelling and identity) and the lexical \<open>relativeInside\<close> answer the same, and they answer yes
  exactly when the names of the one path start with those of the other; \<open>/work\<close> is not under
  \<open>/w\<close>, and \<open>/w/..a\<close> is.
\<close>

theorem containment_tests_agree:
  assumes "is_identity k p" "is_identity k d"
  shows "isUnderDir k p d = (relativeInside k d p \<noteq> None) \<and>
         isUnderDir k p d = (\<exists>cs. segs p = segs d @ cs) \<and>
         isOutsideProjectRoot k p d = (relativeInside k d p = None) \<and>
         isAtOrAboveHomeDir k d p = isUnderDir k p d"
proof -
  obtain as where as: "list_all plain as" "d = abs_path as" "segs d = as"
    using assms(2) by (auto simp: is_identity_def elim: canonicalE)
  obtain bs where bs: "list_all plain bs" "p = abs_path bs" "segs p = bs"
    using assms(1) by (auto simp: is_identity_def elim: canonicalE)
  have "isUnderDir k p d = (\<exists>cs. bs = as @ cs)"
    using isUnderDir_identities [OF assms] isWithinForm_abs_path [OF as(1) bs(1)] by (simp add: as(2) bs(2))
  moreover have "(relativeInside k d p \<noteq> None) = (\<exists>cs. bs = as @ cs)"
    using relativeInside_abs_path [OF as(1) bs(1), of k] by (auto simp: as(2) bs(2))
  ultimately show ?thesis
    using path_resolve_canonical [OF bs(1), of "k_cwd k"] as(3) bs(3)
    by (auto simp: isOutsideProjectRoot_def isAtOrAboveHomeDir_def simp flip: bs(2))
qed

theorem containment_tests_agree_witness:
  "isUnderDir sample_kernel (units ''/w/..a'') (units ''/w'') \<and>
   relativeInside sample_kernel (units ''/w'') (units ''/w/..a'') \<noteq> None \<and>
   \<not> isUnderDir sample_kernel (units ''/work'') (units ''/w'')"
proof -
  have id: "is_identity sample_kernel (units ''/w'')" "is_identity sample_kernel (units ''/w/..a'')"
    "is_identity sample_kernel (units ''/work'')" by code_simp+
  have "relativeInside sample_kernel (units ''/w'') (units ''/w/..a'') \<noteq> None"
    "relativeInside sample_kernel (units ''/w'') (units ''/work'') = None" by code_simp+
  with containment_tests_agree [OF id(2,1)] containment_tests_agree [OF id(3,1)] show ?thesis by simp
qed

end
