(* ===== verification/Edit_Preflight.thy ===== *)
theory Edit_Preflight
  imports Edit_Plan_Order Path_Properties
begin

text \<open>
  The preflight of a workspace edit, \<open>preflightWorkspaceEdit\<close> of \<open>src/clients/lsp/edits.ts\<close> with
  the confiner and the helpers it calls: every check an edit must pass, made against a virtual
  file tree, before the first byte is written.

  The preflight writes nothing, so one environment answers all its questions: the kernel of
  \<open>Path_Identity\<close>, the URL parser, the identity \<open>(dev, ino)\<close> of an entry and the content of a
  file. A \<open>VirtualFile\<close> is an object that two maps can share, so it lives in a heap and the maps
  hold its position. An operation is named by its position in the plan.
\<close>

section \<open>The environment\<close>

record url_parts =
  url_protocol :: string
  url_host :: string
  url_hostname :: string

record edit_env =
  en_kernel :: kernel
  en_url :: "js_text \<Rightarrow> url_parts option"
  en_fsIdentity :: "js_text \<Rightarrow> string + (nat \<times> nat)"
  en_readFile :: "js_text \<Rightarrow> string + js_text"

record apply_options =
  ao_positionEncoding :: "position_encoding option"
  ao_documentVersions :: "(js_text, nat) jmap option"
  ao_expectedContent :: "(js_text, js_text) jmap option"

datatype preflight_error =
    FsError string
  | Unresolvable js_text
  | InvalidUri js_text
  | EscapesWorkspace js_text
  | NotAFile js_text
  | TargetMissing js_text
  | StaleContent js_text
  | StaleVersion js_text nat "nat option"
  | BadEdits edit_error
  | CreateExists js_text
  | SameSourceAndTarget
  | SourceMissing js_text
  | DestinationExists js_text
  | DeleteMissing js_text
  | NeedsRecursive js_text
  | ParentNotDirectory js_text
  | ParentMissing js_text

definition pathIndexKey :: "kernel \<Rightarrow> js_text \<Rightarrow> js_text" where
  "pathIndexKey k uri = normalizeEphemeralMapKey (uriToPath k uri)"

definition lstatOrMissing :: "kernel \<Rightarrow> js_text \<Rightarrow> preflight_error + stat_kind option" where
  "lstatOrMissing k filePath =
     (case k_lstat k filePath of
        Inr stat \<Rightarrow> Inr (Some stat)
      | Inl code \<Rightarrow> if code = ''ENOENT'' then Inr None else Inl (FsError code))"

definition bigintLstatOrMissing :: "edit_env \<Rightarrow> js_text \<Rightarrow> preflight_error + (nat \<times> nat) option" where
  "bigintLstatOrMissing env filePath =
     (case en_fsIdentity env filePath of
        Inr ident \<Rightarrow> Inr (Some ident)
      | Inl code \<Rightarrow> if code = ''ENOENT'' then Inr None else Inl (FsError code))"

definition isSameFsIdentity :: "nat \<times> nat \<Rightarrow> nat \<times> nat \<Rightarrow> bool" where
  "isSameFsIdentity a b = (fst a = fst b \<and> snd a \<noteq> 0 \<and> snd b \<noteq> 0 \<and> snd a = snd b)"

definition isSameFsEntry :: "edit_env \<Rightarrow> js_text \<Rightarrow> js_text \<Rightarrow> preflight_error + bool" where
  "isSameFsEntry env a b =
     (case bigintLstatOrMissing env a of
        Inl err \<Rightarrow> Inl err
      | Inr statA \<Rightarrow>
          (case bigintLstatOrMissing env b of
             Inl err \<Rightarrow> Inl err
           | Inr statB \<Rightarrow>
               Inr (case (statA, statB) of (Some x, Some y) \<Rightarrow> isSameFsIdentity x y | _ \<Rightarrow> False)))"

text \<open>A step that throws ends the sequence.\<close>

definition bind_ok :: "'e + 'a \<Rightarrow> ('a \<Rightarrow> 'e + 'b) \<Rightarrow> 'e + 'b" where
  "bind_ok r f = (case r of Inl err \<Rightarrow> Inl err | Inr a \<Rightarrow> f a)"

definition lift_error :: "('e \<Rightarrow> 'f) \<Rightarrow> 'e + 'a \<Rightarrow> 'f + 'a" where
  "lift_error h r = (case r of Inl err \<Rightarrow> Inl (h err) | Inr a \<Rightarrow> Inr a)"

lemma bind_ok_Inr [simp]: "bind_ok (Inr a) f = f a"
  by (simp add: bind_ok_def)

lemma bind_ok_Inl [simp]: "bind_ok (Inl err) f = Inl err"
  by (simp add: bind_ok_def)

lemma bind_okE:
  assumes "bind_ok r f = Inr b" obtains a where "r = Inr a" "f a = Inr b"
  using assms by (cases r) auto

section \<open>Confinement\<close>

definition requireKernelIdentity :: "kernel \<Rightarrow> js_text \<Rightarrow> js_text \<Rightarrow> preflight_error + js_text" where
  "requireKernelIdentity k filePath subject =
     (case kernelPathIdentityAsync k filePath of
        Some (identity, True) \<Rightarrow> Inr identity
      | _ \<Rightarrow> Inl (Unresolvable subject))"

text \<open>The closure of \<open>createWorkspaceUriConfiner\<close>; \<open>base\<close> is its \<open>root\<close>.\<close>

definition confine :: "edit_env \<Rightarrow> js_text \<Rightarrow> js_text \<Rightarrow> preflight_error + js_text" where
  "confine env base uri =
     (case en_url env uri of
        None \<Rightarrow> Inl (InvalidUri uri)
      | Some parsed \<Rightarrow>
          if url_protocol parsed \<noteq> ''file:'' \<or> (url_host parsed \<noteq> [] \<and> url_hostname parsed \<noteq> ''localhost'')
          then Inl (InvalidUri uri)
          else
            let filePath = uriToPath (en_kernel env) uri
            in if \<not> isAbsolute filePath then Inl (EscapesWorkspace uri)
               else (case requireKernelIdentity (en_kernel env) filePath uri of
                       Inl err \<Rightarrow> Inl err
                     | Inr resolved \<Rightarrow>
                         if \<not> isUnderDir (en_kernel env) resolved base then Inl (EscapesWorkspace uri)
                         else Inr filePath))"

section \<open>The virtual file tree\<close>

record virtual_file =
  vf_exists :: bool
  vf_directory :: bool
  vf_content :: "js_text option"

record virtual_move =
  mv_from :: js_text
  mv_to :: js_text
  mv_directory :: bool

record preflight =
  pf_heap :: "virtual_file list"
  pf_virtual :: "(js_text, nat) jmap"
  pf_overrides :: "(js_text, nat) jmap"
  pf_moves :: "virtual_move list"
  pf_tombstones :: "(js_text \<times> bool) list"
  pf_text :: "(nat, text_edit list) jmap"
  pf_textByOrigin :: "(js_text + nat, text_edit list) jmap"
  pf_ignored :: "nat list"

definition empty_preflight :: preflight where
  "empty_preflight = \<lparr>pf_heap = [], pf_virtual = [], pf_overrides = [], pf_moves = [], pf_tombstones = [],
                      pf_text = [], pf_textByOrigin = [], pf_ignored = []\<rparr>"

definition vf :: "preflight \<Rightarrow> nat \<Rightarrow> virtual_file" where
  "vf st r = pf_heap st ! r"

definition set_vf :: "nat \<Rightarrow> virtual_file \<Rightarrow> preflight \<Rightarrow> preflight" where
  "set_vf r f st = st\<lparr>pf_heap := (pf_heap st)[r := f]\<rparr>"

definition alloc :: "virtual_file \<Rightarrow> preflight \<Rightarrow> nat \<times> preflight" where
  "alloc f st = (length (pf_heap st), st\<lparr>pf_heap := pf_heap st @ [f]\<rparr>)"

definition covers :: "kernel \<Rightarrow> js_text \<Rightarrow> bool \<Rightarrow> js_text \<Rightarrow> bool" where
  "covers k p directory filePath = (isUnderDir k filePath p \<and> (directory \<or> pathsEqual k filePath p))"

text \<open>The loop of \<open>resolveVirtualPath\<close>, latest move first.\<close>

fun resolve_moves :: "kernel \<Rightarrow> virtual_move list \<Rightarrow> js_text \<Rightarrow> js_text option" where
  "resolve_moves k [] resolved = Some resolved"
| "resolve_moves k (move # earlier) resolved =
     (if covers k (mv_to move) (mv_directory move) resolved
      then let suffix = path_relative (k_cwd k) (mv_to move) resolved
           in resolve_moves k earlier
                (if suffix \<noteq> [] then path_join [mv_from move, suffix] else mv_from move)
      else if covers k (mv_from move) (mv_directory move) resolved then None
      else resolve_moves k earlier resolved)"

definition resolveVirtualPath :: "kernel \<Rightarrow> preflight \<Rightarrow> js_text \<Rightarrow> js_text option" where
  "resolveVirtualPath k st filePath = resolve_moves k (rev (pf_moves st)) filePath"

text \<open>The test \<open>if (physicalPath)\<close>: an empty text counts as no path.\<close>

definition physical :: "kernel \<Rightarrow> preflight \<Rightarrow> js_text \<Rightarrow> js_text option" where
  "physical k st filePath =
     (case resolveVirtualPath k st filePath of Some (c # cs) \<Rightarrow> Some (c # cs) | _ \<Rightarrow> None)"

definition isTombstoned :: "kernel \<Rightarrow> preflight \<Rightarrow> js_text \<Rightarrow> bool" where
  "isTombstoned k st filePath =
     list_ex (\<lambda>(p, directory). pathsEqual k filePath p \<or> (directory \<and> isUnderDir k filePath p))
       (pf_tombstones st)"

definition clearTombstonesUnder :: "kernel \<Rightarrow> js_text \<Rightarrow> preflight \<Rightarrow> preflight" where
  "clearTombstonesUnder k filePath st =
     st\<lparr>pf_tombstones := filter (\<lambda>(p, _). \<not> (pathsEqual k p filePath \<or> isUnderDir k p filePath))
                           (pf_tombstones st)\<rparr>"

definition missing_file :: virtual_file where
  "missing_file = \<lparr>vf_exists = False, vf_directory = False, vf_content = None\<rparr>"

definition stateFor :: "kernel \<Rightarrow> js_text \<Rightarrow> preflight \<Rightarrow> preflight_error + nat \<times> preflight" where
  "stateFor k filePath st =
     (if isTombstoned k st filePath then Inr (alloc missing_file st)
      else case physical k st filePath of
             None \<Rightarrow>
               (case jm_get (pf_overrides st) (normalizeMapKey k filePath) of
                  Some r \<Rightarrow> Inr (r, st)
                | None \<Rightarrow> Inr (alloc missing_file st))
           | Some physicalPath \<Rightarrow>
               let key = normalizeMapKey k physicalPath
               in case jm_get (pf_virtual st) key of
                    Some r \<Rightarrow> Inr (r, st)
                  | None \<Rightarrow>
                      (case lstatOrMissing k physicalPath of
                         Inl err \<Rightarrow> Inl err
                       | Inr stat \<Rightarrow>
                           let (r, st') = alloc \<lparr>vf_exists = (stat \<noteq> None), vf_directory = (stat = Some IsDirectory),
                                                 vf_content = None\<rparr> st
                           in Inr (r, st'\<lparr>pf_virtual := jm_set key r (pf_virtual st')\<rparr>)))"

definition contentFor ::
  "edit_env \<Rightarrow> apply_options \<Rightarrow> js_text \<Rightarrow> nat \<Rightarrow> preflight \<Rightarrow> preflight_error + js_text \<times> preflight" where
  "contentFor env options filePath r st =
     (if \<not> vf_exists (vf st r) \<or> vf_directory (vf st r) then Inl (NotAFile filePath)
      else case vf_content (vf st r) of
             Some content \<Rightarrow> Inr (content, st)
           | None \<Rightarrow>
               (case physical (en_kernel env) st filePath of
                  None \<Rightarrow> Inl (TargetMissing filePath)
                | Some physicalPath \<Rightarrow>
                    (case en_readFile env physicalPath of
                       Inl err \<Rightarrow> Inl (FsError err)
                     | Inr content \<Rightarrow>
                         let expected = (case ao_expectedContent options of
                                           None \<Rightarrow> None
                                         | Some m \<Rightarrow> jm_get m (realpathOrResolveAsync (en_kernel env) physicalPath))
                         in if expected \<noteq> None \<and> expected \<noteq> Some content then Inl (StaleContent filePath)
                            else Inr (content, set_vf r ((vf st r)\<lparr>vf_content := Some content\<rparr>) st))))"

text \<open>\<open>assertParentIsUsable\<close>: the first directory above that exists.\<close>

fun parent_usable ::
  "kernel \<Rightarrow> js_text \<Rightarrow> js_text list \<Rightarrow> preflight \<Rightarrow> preflight_error + preflight" where
  "parent_usable k filePath [] st = Inl (ParentMissing filePath)"
| "parent_usable k filePath (current # higher) st =
     (case stateFor k current st of
        Inl err \<Rightarrow> Inl err
      | Inr (r, st') \<Rightarrow>
          if vf_exists (vf st' r)
          then (if vf_directory (vf st' r) then Inr st' else Inl (ParentNotDirectory current))
          else parent_usable k filePath higher st')"

definition assertParentIsUsable :: "kernel \<Rightarrow> js_text \<Rightarrow> preflight \<Rightarrow> preflight_error + preflight" where
  "assertParentIsUsable k filePath st =
     parent_usable k filePath
       (walkUpDirs k (dirname filePath) \<lparr>wo_homeDir = None, wo_spelling = True, wo_maxDepth = None\<rparr>) st"

section \<open>The operations\<close>

text \<open>\<open>op.options?.flag\<close> as a condition.\<close>

definition flag :: "(resource_options \<Rightarrow> bool option) \<Rightarrow> resource_options option \<Rightarrow> bool" where
  "flag sel options = (case options of None \<Rightarrow> False | Some x \<Rightarrow> sel x = Some True)"

fun textEditOriginKey :: "text_edit_origin \<Rightarrow> js_text + nat" where
  "textEditOriginKey (FromChanges uri edits) = Inl uri"
| "textEditOriginKey (FromDocumentChanges index edits) = Inr index"

fun origin_edits :: "text_edit_origin \<Rightarrow> text_edit list" where
  "origin_edits (FromChanges uri edits) = edits"
| "origin_edits (FromDocumentChanges index edits) = edits"

definition check_version :: "kernel \<Rightarrow> apply_options \<Rightarrow> js_text \<Rightarrow> nat option \<Rightarrow> preflight_error + unit" where
  "check_version k options filePath version =
     (case version of
        None \<Rightarrow> Inr ()
      | Some expected \<Rightarrow>
          let current = (case ao_documentVersions options of
                           None \<Rightarrow> None
                         | Some m \<Rightarrow> jm_get m (normalizeMapKey k filePath))
          in if current = Some expected then Inr () else Inl (StaleVersion filePath expected current))"

definition encoding_of :: "apply_options \<Rightarrow> position_encoding" where
  "encoding_of options = (case ao_positionEncoding options of None \<Rightarrow> UTF16 | Some e \<Rightarrow> e)"

definition normalize_edits ::
  "kernel \<Rightarrow> apply_options \<Rightarrow> js_text \<Rightarrow> text_edit list \<Rightarrow> preflight_error + text_edit list" where
  "normalize_edits k options content edits =
     lift_error BadEdits (normalizeTextEditsForContent (pathIndexKey k) content edits (encoding_of options))"

definition record_origin ::
  "kernel \<Rightarrow> apply_options \<Rightarrow> js_text \<Rightarrow> preflight \<Rightarrow> text_edit_origin \<Rightarrow> preflight_error + preflight" where
  "record_origin k options content st origin =
     bind_ok (normalize_edits k options content (origin_edits origin)) (\<lambda>edits.
       Inr (st\<lparr>pf_textByOrigin := jm_set (textEditOriginKey origin) edits (pf_textByOrigin st)\<rparr>))"

definition preflight_text ::
  "edit_env \<Rightarrow> js_text \<Rightarrow> apply_options \<Rightarrow> nat \<Rightarrow> pending_edits \<Rightarrow> preflight \<Rightarrow> preflight_error + preflight" where
  "preflight_text env base options i p st =
     (let k = en_kernel env
      in bind_ok (confine env base (pe_uri p)) (\<lambda>filePath.
         bind_ok (stateFor k filePath st) (\<lambda>(r, st1).
         bind_ok (check_version k options filePath (pe_version p)) (\<lambda>_.
         bind_ok (contentFor env options filePath r st1) (\<lambda>(content, st2).
         bind_ok (normalize_edits k options content (pe_edits p)) (\<lambda>normalized.
         bind_ok (foldl_throw (record_origin k options content)
                    (st2\<lparr>pf_text := jm_set i normalized (pf_text st2)\<rparr>) (pe_origins p)) (\<lambda>st3.
         bind_ok (lift_error BadEdits (applyTextEditsToString (pathIndexKey k) content normalized UTF16)) (\<lambda>updated.
         Inr (set_vf r ((vf st3 r)\<lparr>vf_content := Some updated\<rparr>) st3)))))))))"

definition create_at :: "kernel \<Rightarrow> js_text \<Rightarrow> nat \<Rightarrow> preflight \<Rightarrow> preflight" where
  "create_at k filePath r st =
     (let st1 = clearTombstonesUnder k filePath st;
          st2 = set_vf r \<lparr>vf_exists = True, vf_directory = False, vf_content = Some []\<rparr> st1
      in case physical k st2 filePath of
           Some physicalPath \<Rightarrow> st2\<lparr>pf_virtual := jm_set (normalizeMapKey k physicalPath) r (pf_virtual st2)\<rparr>
         | None \<Rightarrow> st2\<lparr>pf_overrides := jm_set (normalizeMapKey k filePath) r (pf_overrides st2)\<rparr>)"

definition preflight_create ::
  "edit_env \<Rightarrow> js_text \<Rightarrow> nat \<Rightarrow> js_text \<Rightarrow> resource_options option \<Rightarrow> preflight \<Rightarrow> preflight_error + preflight" where
  "preflight_create env base i uri options st =
     (let k = en_kernel env
      in bind_ok (confine env base uri) (\<lambda>filePath.
         bind_ok (stateFor k filePath st) (\<lambda>(r, st1).
         bind_ok (assertParentIsUsable k filePath st1) (\<lambda>st2.
           if vf_exists (vf st2 r)
           then (if flag op_ignoreIfExists options then Inr (st2\<lparr>pf_ignored := pf_ignored st2 @ [i]\<rparr>)
                 else if \<not> flag op_overwrite options \<or> vf_directory (vf st2 r) then Inl (CreateExists filePath)
                 else Inr (set_vf r ((vf st2 r)\<lparr>vf_content := Some []\<rparr>) st2))
           else Inr (create_at k filePath r st2)))))"

text \<open>The end of a rename: the entry moves, by its override when it has one.\<close>

definition move_to :: "kernel \<Rightarrow> js_text \<Rightarrow> js_text \<Rightarrow> bool \<Rightarrow> nat \<Rightarrow> preflight \<Rightarrow> preflight" where
  "move_to k oldPath newPath sourceFromOverride r st =
     (if sourceFromOverride
      then let st1 = st\<lparr>pf_overrides := jm_delete (normalizeMapKey k oldPath) (pf_overrides st)\<rparr>
           in case physical k st1 newPath of
                Some p \<Rightarrow> st1\<lparr>pf_virtual := jm_set (normalizeMapKey k p) r (pf_virtual st1)\<rparr>
              | None \<Rightarrow> st1\<lparr>pf_overrides := jm_set (normalizeMapKey k newPath) r (pf_overrides st1)\<rparr>
      else st\<lparr>pf_moves := pf_moves st @ [\<lparr>mv_from = oldPath, mv_to = newPath, mv_directory = vf_directory (vf st r)\<rparr>]\<rparr>)"

text \<open>Whether the rename goes on when its destination exists: \<open>Inr False\<close> ignores it.\<close>

definition may_replace ::
  "edit_env \<Rightarrow> js_text \<Rightarrow> js_text \<Rightarrow> js_text \<Rightarrow> resource_options option \<Rightarrow> nat \<Rightarrow> nat \<Rightarrow> preflight_error + bool" where
  "may_replace env oldDisk newDisk newPath options source destination =
     bind_ok (if destination = source then Inr True else isSameFsEntry env oldDisk newDisk) (\<lambda>aliasesSource.
       if aliasesSource then Inr True
       else if flag op_ignoreIfExists options then Inr False
       else if \<not> flag op_overwrite options then Inl (DestinationExists newPath)
       else Inr True)"

definition preflight_rename ::
  "edit_env \<Rightarrow> js_text \<Rightarrow> apply_options \<Rightarrow> nat \<Rightarrow> js_text \<Rightarrow> js_text \<Rightarrow> resource_options option \<Rightarrow>
   preflight \<Rightarrow> preflight_error + preflight" where
  "preflight_rename env base applyOptions i oldUri newUri options st =
     (let k = en_kernel env;
          oldDisk = uriToDiskPath k oldUri;
          newDisk = uriToDiskPath k newUri
      in bind_ok (confine env base oldUri) (\<lambda>oldPath.
         bind_ok (confine env base newUri) (\<lambda>newPath.
           if toPosix (path_resolve (k_cwd k) oldDisk) = toPosix (path_resolve (k_cwd k) newDisk)
           then Inl SameSourceAndTarget
           else
         bind_ok (stateFor k oldPath st) (\<lambda>(source, st1).
           if \<not> vf_exists (vf st1 source) then Inl (SourceMissing oldPath)
           else
             let sourceFromOverride = (resolveVirtualPath k st1 oldPath = None)
             in
         bind_ok (assertParentIsUsable k newPath st1) (\<lambda>st2.
         bind_ok (stateFor k newPath st2) (\<lambda>(destination, st3).
         bind_ok (if vf_exists (vf st3 destination)
                  then may_replace env oldDisk newDisk newPath options source destination
                  else Inr True) (\<lambda>proceed.
           if \<not> proceed then Inr (st3\<lparr>pf_ignored := pf_ignored st3 @ [i]\<rparr>)
           else
             let st4 = clearTombstonesUnder k newPath st3
             in
         bind_ok (if vf_directory (vf st4 source) then Inr st4
                  else map_sum id snd (contentFor env applyOptions oldPath source st4)) (\<lambda>st5.
         Inr (move_to k oldPath newPath sourceFromOverride source st5)))))))))"

definition preflight_delete ::
  "edit_env \<Rightarrow> js_text \<Rightarrow> nat \<Rightarrow> js_text \<Rightarrow> resource_options option \<Rightarrow> preflight \<Rightarrow> preflight_error + preflight" where
  "preflight_delete env base i uri options st =
     (let k = en_kernel env
      in bind_ok (confine env base uri) (\<lambda>filePath.
         bind_ok (stateFor k filePath st) (\<lambda>(r, st1).
           if \<not> vf_exists (vf st1 r)
           then (if flag op_ignoreIfNotExists options then Inr (st1\<lparr>pf_ignored := pf_ignored st1 @ [i]\<rparr>)
                 else Inl (DeleteMissing filePath))
           else if vf_directory (vf st1 r) \<and> \<not> flag op_recursive options then Inl (NeedsRecursive filePath)
           else
             let st2 = set_vf r ((vf st1 r)\<lparr>vf_exists := False, vf_content := None\<rparr>) st1
             in Inr (st2\<lparr>pf_tombstones := pf_tombstones st2 @ [(filePath, vf_directory (vf st1 r))]\<rparr>))))"

fun preflight_op ::
  "edit_env \<Rightarrow> js_text \<Rightarrow> apply_options \<Rightarrow> preflight \<Rightarrow> nat \<times> plan_op \<Rightarrow> preflight_error + preflight" where
  "preflight_op env base options st (i, TextOp p) = preflight_text env base options i p st"
| "preflight_op env base options st (i, ResourceOp (CreateFile uri opts)) = preflight_create env base i uri opts st"
| "preflight_op env base options st (i, ResourceOp (RenameFile oldUri newUri opts)) =
     preflight_rename env base options i oldUri newUri opts st"
| "preflight_op env base options st (i, ResourceOp (DeleteFile uri opts)) = preflight_delete env base i uri opts st"

definition preflightWorkspaceEdit ::
  "edit_env \<Rightarrow> plan_op list \<Rightarrow> js_text \<Rightarrow> apply_options \<Rightarrow> preflight_error + preflight" where
  "preflightWorkspaceEdit env planned cwd options =
     bind_ok (requireKernelIdentity (en_kernel env) cwd cwd) (\<lambda>base.
       foldl_throw (preflight_op env base options) empty_preflight (zip [0..<length planned] planned))"

datatype edit_failure = PlanFailed parse_error | PreflightFailed preflight_error

definition validateWorkspaceEdit :: "edit_env \<Rightarrow> wire \<Rightarrow> js_text \<Rightarrow> edit_failure + unit" where
  "validateWorkspaceEdit env edit cwd =
     bind_ok (lift_error PlanFailed (planWorkspaceEdit (pathIndexKey (en_kernel env)) False edit)) (\<lambda>planned.
       map_sum PreflightFailed (\<lambda>_. ())
         (preflightWorkspaceEdit env planned cwd
            \<lparr>ao_positionEncoding = None, ao_documentVersions = None, ao_expectedContent = None\<rparr>))"

end
