(* ===== verification/Edit_Confinement.thy ===== *)
theory Edit_Confinement
  imports Edit_Preflight
begin

text \<open>
  What the preflight guarantees of the paths of an edit: every path of an accepted plan has
  passed the confiner, and the file the kernel opens for it is inside the workspace.
\<close>

section \<open>Accepted plans\<close>

fun op_uris :: "plan_op \<Rightarrow> js_text list" where
  "op_uris (TextOp p) = [pe_uri p]"
| "op_uris (ResourceOp (CreateFile uri opts)) = [uri]"
| "op_uris (ResourceOp (RenameFile oldUri newUri opts)) = [oldUri, newUri]"
| "op_uris (ResourceOp (DeleteFile uri opts)) = [uri]"

lemma foldl_throw_each:
  "foldl_throw f s xs = Inr s' \<Longrightarrow> x \<in> set xs \<Longrightarrow> \<exists>a b. f a x = Inr b"
  by (induction xs arbitrary: s) (auto split: sum.splits)

lemma foldl_throw_inv:
  assumes "foldl_throw f s xs = Inr s'" "Q s" "\<And>a x b. x \<in> set xs \<Longrightarrow> Q a \<Longrightarrow> f a x = Inr b \<Longrightarrow> Q b"
  shows "Q s'"
  using assms
proof (induction xs arbitrary: s)
  case (Cons x xs)
  obtain s1 where s1: "f s x = Inr s1" "foldl_throw f s1 xs = Inr s'"
    using Cons.prems(1) by (auto split: sum.splits)
  have "Q s1" by (rule Cons.prems(3) [OF _ Cons.prems(2) s1(1)]) simp
  then show ?case by (rule Cons.IH [OF s1(2)]) (rule Cons.prems(3), simp_all)
qed simp

lemma preflight_op_confined:
  assumes "preflight_op env base options st (i, oper) = Inr st'" "uri \<in> set (op_uris oper)"
  shows "\<exists>p. confine env base uri = Inr p"
  using assms
  by (cases "(env, base, options, st, (i, oper))" rule: preflight_op.cases)
     (auto simp: preflight_text_def preflight_create_def preflight_rename_def preflight_delete_def Let_def
           elim!: bind_okE)

lemma preflight_accepts:
  assumes "preflightWorkspaceEdit env planned cwd options = Inr st"
  obtains base where "kernelPathIdentityAsync (en_kernel env) cwd = Some (base, True)"
    "\<And>oper uri. oper \<in> set planned \<Longrightarrow> uri \<in> set (op_uris oper) \<Longrightarrow> \<exists>p. confine env base uri = Inr p"
proof -
  obtain base where base: "requireKernelIdentity (en_kernel env) cwd cwd = Inr base"
    "foldl_throw (preflight_op env base options) empty_preflight (zip [0..<length planned] planned) = Inr st"
    using assms unfolding preflightWorkspaceEdit_def by (rule bind_okE)
  have "\<exists>p. confine env base uri = Inr p" if oper: "oper \<in> set planned" "uri \<in> set (op_uris oper)" for oper uri
  proof -
    from oper(1) obtain i where "i < length planned" "planned ! i = oper" by (metis in_set_conv_nth)
    then have "(i, oper) \<in> set (zip [0..<length planned] planned)" by (force simp: set_zip)
    from foldl_throw_each [OF base(2) this] preflight_op_confined [OF _ oper(2)] show ?thesis by blast
  qed
  with base(1) that show thesis
    by (auto simp: requireKernelIdentity_def split: option.splits bool.splits)
qed

lemma confineD:
  assumes "confine env base uri = Inr p"
  shows "p = uriToPath (en_kernel env) uri \<and>
         (\<exists>resolved. kernelPathIdentityAsync (en_kernel env) p = Some (resolved, True) \<and>
                     isUnderDir (en_kernel env) resolved base)"
  using assms unfolding confine_def requireKernelIdentity_def Let_def
  by (auto split: option.splits if_splits sum.splits bool.splits)

section \<open>Where the accepted paths are\<close>

lemma async_identity:
  assumes "realpath_laws k" "rooted p" "kernelPathIdentityAsync k p = Some (a, c)"
  shows "kernelRealPath k p = Some a"
  using path_identity_settles [OF assms(1,2)] assms(3) by (metis fst_conv option.simps(9))

lemma confined_inside:
  assumes "realpath_laws k" "k = en_kernel env" "is_identity k base"
    and "confine env base uri = Inr p" "k_fileURLToPath k uri = Some disk"
    and "rooted disk" "BACKSLASH \<notin> set disk" "BACKSLASH \<notin> set (normalizeFilePath k disk)"
  shows "p = normalizeFilePath k disk" and "isWithinForm p base" and "walk_confirmed k (ancestors p)"
proof -
  note p = confineD [OF assms(4), folded assms(2)]
  show eq: "p = normalizeFilePath k disk" using p assms(5) by (simp add: uriToPath_def)
  note key = normalizeFilePath_rooted [OF assms(1,6,7)]
  note again = identity_fixpoint [OF assms(1,6) key, folded eq]
  from p again(3) have "isUnderDir k p base" "walk_confirmed k (ancestors p)" by auto
  moreover have "is_identity k p" using again assms(8) by (simp add: is_identity_def eq)
  ultimately show "isWithinForm p base" "walk_confirmed k (ancestors p)"
    using isUnderDir_identities [OF _ assms(3)] by auto
qed

definition rooted_file_url :: "kernel \<Rightarrow> js_text \<Rightarrow> bool" where
  "rooted_file_url k uri =
     (case k_fileURLToPath k uri of
        None \<Rightarrow> False
      | Some disk \<Rightarrow> rooted disk \<and> BACKSLASH \<notin> set disk \<and> BACKSLASH \<notin> set (normalizeFilePath k disk))"

text \<open>
  C5: an accepted edit stays inside the workspace. When the preflight accepts a plan, then for
  every path of the plan that is named by a rooted file URL, without a backslash in the path or
  in its key, the kernel's identity of the path on disk (the one the write will open) is the
  workspace's identity or lies below it, and whatever of that path does not exist is
  confirmed absent, so no dangling link redirects a write. The workspace's identity has no
  backslash either. Paths with a backslash are an exception in earnest: see
  \<open>backslash_link_escapes\<close>.
\<close>

theorem accepted_edit_stays_inside:
  assumes "realpath_laws (en_kernel env)" "rooted cwd"
    and "preflightWorkspaceEdit env planned cwd options = Inr st"
    and "oper \<in> set planned" "uri \<in> set (op_uris oper)" "rooted_file_url (en_kernel env) uri"
    and "BACKSLASH \<notin> set (realpathOrResolveAsync (en_kernel env) cwd)"
  shows "isWithinForm (realpathOrResolve (en_kernel env) (uriToDiskPath (en_kernel env) uri))
                      (realpathOrResolveAsync (en_kernel env) cwd) \<and>
         walk_confirmed (en_kernel env)
           (ancestors (realpathOrResolve (en_kernel env) (uriToDiskPath (en_kernel env) uri)))"
proof -
  let ?k = "en_kernel env"
  obtain disk where disk: "k_fileURLToPath ?k uri = Some disk" "rooted disk" "BACKSLASH \<notin> set disk"
    "BACKSLASH \<notin> set (normalizeFilePath ?k disk)"
    using assms(6) by (auto simp: rooted_file_url_def split: option.splits)
  from assms(3) obtain base p where base: "kernelPathIdentityAsync ?k cwd = Some (base, True)"
    and p: "confine env base uri = Inr p" by (rule preflight_accepts) (use assms(4,5) in blast)
  have resolved: "realpathOrResolveAsync ?k cwd = base" using base by (simp add: realpathOrResolveAsync_def)
  have "kernelRealPath ?k cwd = Some base" by (rule async_identity [OF assms(1,2) base])
  from identity_fixpoint [OF assms(1,2) this] assms(7)
  have "is_identity ?k base" by (simp add: is_identity_def resolved)
  note inside = confined_inside [OF assms(1) refl this p disk]
  have "realpathOrResolve ?k (uriToDiskPath ?k uri) = p"
    using normalizeFilePath_rooted [OF assms(1) disk(2,3)] inside(1) disk(1)
    by (simp add: realpathOrResolve_def uriToDiskPath_def)
  with inside resolved show ?thesis by simp
qed

section \<open>Edits of a file tree\<close>

text \<open>File URLs for the examples: the scheme, then the path with \<open>%5C\<close> for a backslash.\<close>

fun unescape :: "js_text \<Rightarrow> js_text" where
  "unescape (a # b # c # cs) =
     (if [a, b, c] = units ''%5C'' then BACKSLASH # unescape cs else a # unescape (b # c # cs))"
| "unescape cs = cs"

definition decode_url :: "js_text \<Rightarrow> js_text option" where
  "decode_url uri = (if take 7 uri = units ''file://'' then Some (unescape (drop 7 uri)) else None)"

definition tree_read :: "file_tree \<Rightarrow> js_text list \<Rightarrow> js_text \<Rightarrow> string + js_text" where
  "tree_read t cwd p =
     (case tree_resolve t (if isAbsolute p then [] else cwd) (segs p) of
        Inl e \<Rightarrow> Inl e
      | Inr ss \<Rightarrow> (case map_of t ss of Some (Text c) \<Rightarrow> Inr c | _ \<Rightarrow> Inl ''EISDIR''))"

definition tree_ino :: "file_tree \<Rightarrow> js_text list \<Rightarrow> js_text \<Rightarrow> string + nat \<times> nat" where
  "tree_ino t cwd p =
     (case tree_lstat t cwd p of
        Inl e \<Rightarrow> Inl e
      | Inr _ \<Rightarrow> Inr (1, Suc (length (takeWhile (\<lambda>e. fst e \<noteq> segs p) t))))"

definition tree_env :: "file_tree \<Rightarrow> js_text list \<Rightarrow> edit_env" where
  "tree_env t cwd =
     \<lparr>en_kernel = tree_kernel t cwd decode_url,
      en_url = (\<lambda>uri. map_option (\<lambda>_. \<lparr>url_protocol = ''file:'', url_host = [], url_hostname = []\<rparr>) (decode_url uri)),
      en_fsIdentity = tree_ino t cwd,
      en_readFile = tree_read t cwd\<rparr>"

lemma tree_env_laws: "wf_tree t \<Longrightarrow> real_node t cwd \<Longrightarrow> realpath_laws (en_kernel (tree_env t cwd))"
  by (simp add: tree_env_def tree_laws)

definition no_options :: apply_options where
  "no_options = \<lparr>ao_positionEncoding = None, ao_documentVersions = None, ao_expectedContent = None\<rparr>"

definition workspace_env :: edit_env where
  "workspace_env = tree_env sample_tree [units ''w'']"

definition workspace_plan :: "plan_op list" where
  "workspace_plan =
     [ResourceOp (RenameFile (units ''file:///w/src/a'') (units ''file:///w/new/b'') None),
      TextOp \<lparr>pe_uri = units ''file:///w/new/b'', pe_edits = [], pe_version = None, pe_origins = []\<rparr>,
      ResourceOp (CreateFile (units ''file:///w/src/a'') None)]"

theorem accepted_edit_stays_inside_witness:
  "isWithinForm (realpathOrResolve (en_kernel workspace_env) (uriToDiskPath (en_kernel workspace_env) (units ''file:///w/new/b'')))
                (realpathOrResolveAsync (en_kernel workspace_env) (units ''/w''))"
proof -
  have "\<not> isl (preflightWorkspaceEdit workspace_env workspace_plan (units ''/w'') no_options)" by code_simp
  then obtain st where st: "preflightWorkspaceEdit workspace_env workspace_plan (units ''/w'') no_options = Inr st"
    by (metis sum.collapse(2))
  have laws: "realpath_laws (en_kernel workspace_env)"
    unfolding workspace_env_def by (rule tree_env_laws) code_simp+
  have "ResourceOp (RenameFile (units ''file:///w/src/a'') (units ''file:///w/new/b'') None) \<in> set workspace_plan"
    by (simp add: workspace_plan_def)
  moreover have "units ''file:///w/new/b'' \<in>
      set (op_uris (ResourceOp (RenameFile (units ''file:///w/src/a'') (units ''file:///w/new/b'') None)))" by simp
  moreover have "rooted (units ''/w'')" "rooted_file_url (en_kernel workspace_env) (units ''file:///w/new/b'')"
    "BACKSLASH \<notin> set (realpathOrResolveAsync (en_kernel workspace_env) (units ''/w''))" by code_simp+
  ultimately show ?thesis using accepted_edit_stays_inside [OF laws _ st] by blast
qed

text \<open>
  Through the link \<open>/w/lib\<close> an edit is refused. But with a link whose name has a backslash, the
  confiner looks at another path than the write: it accepts the creation of \<open>evil\<close> below the
  link \<open>l\<close>-backslash-\<open>k\<close>, which the kernel places in \<open>/ext\<close>, outside of the workspace.
\<close>

lemma link_out_of_workspace_refused:
  "preflightWorkspaceEdit workspace_env [ResourceOp (CreateFile (units ''file:///w/lib/evil'') None)] (units ''/w'') no_options =
     Inl (EscapesWorkspace (units ''file:///w/lib/evil''))"
  by code_simp

definition backslash_env :: edit_env where
  "backslash_env =
     tree_env [([units ''w''], Dir), ([units ''ext''], Dir),
               ([units ''w'', units [CHR ''l'', CHR 0x5C, CHR ''k'']], Link [units ''ext''])] [units ''w'']"

lemma backslash_link_escapes:
  "\<not> isl (preflightWorkspaceEdit backslash_env [ResourceOp (CreateFile (units ''file:///w/l%5Ck/evil'') None)]
            (units ''/w'') no_options)"
  "realpathOrResolve (en_kernel backslash_env) (uriToDiskPath (en_kernel backslash_env) (units ''file:///w/l%5Ck/evil'')) =
     units ''/ext/evil''"
  by code_simp+

end
