(* ===== verification/Edit_Commit.thy ===== *)
theory Edit_Commit
  imports Edit_Confinement
begin

text \<open>
  \<open>applyWorkspaceEdit\<close> of \<open>src/clients/lsp/edits.ts\<close>: plan, preflight, then every operation on
  disk, with the report of what was applied, the watched-files events and the error a caller
  gets when the disk fails half way.

  The disk is a parameter: a state of any type with the calls of \<open>node:fs/promises\<close> the code
  makes, each of which returns an error code or none and the state after it, so a call that
  fails may still have changed the disk. The body runs inside the mutation queues of every path
  of the plan (\<open>Mutation_Queue\<close>), so nothing else writes these paths meanwhile and the calls of
  one edit form one sequence.
\<close>

section \<open>The disk\<close>

record 'fs disk =
  dk_env :: "'fs \<Rightarrow> edit_env"
  dk_writeFile :: "js_text \<Rightarrow> js_text \<Rightarrow> 'fs \<Rightarrow> string option \<times> 'fs"
  dk_writeNew :: "js_text \<Rightarrow> js_text \<Rightarrow> 'fs \<Rightarrow> string option \<times> 'fs"
  dk_mkdir :: "js_text \<Rightarrow> 'fs \<Rightarrow> string option \<times> 'fs"
  dk_rm :: "js_text \<Rightarrow> bool \<Rightarrow> bool \<Rightarrow> 'fs \<Rightarrow> string option \<times> 'fs"
  dk_rename :: "js_text \<Rightarrow> js_text \<Rightarrow> 'fs \<Rightarrow> string option \<times> 'fs"

datatype commit_error = DiskError string | CommitEdits edit_error

section \<open>The report\<close>

datatype file_description =
    AppliedEdits nat js_text
  | CreatedFile js_text
  | RenamedFile js_text js_text
  | DeletedFile js_text

datatype file_event = FileCreated js_text | FileDeleted js_text

record file_detail =
  fd_filePath :: js_text
  fd_range :: "nat \<times> nat"
  fd_ranges :: "(nat \<times> nat) list option"
  fd_authorshipUnknown :: bool
  fd_importsChanged :: bool

record 'fs applying =
  ap_fs :: 'fs
  ap_descriptions :: "file_description list"
  ap_touched :: "js_text list"
  ap_details :: "file_detail list"
  ap_indexes :: "nat list"
  ap_appliedTotal :: nat
  ap_index :: nat
  ap_events :: "file_event list"

definition start_applying :: "'fs \<Rightarrow> 'fs applying" where
  "start_applying fs =
     \<lparr>ap_fs = fs, ap_descriptions = [], ap_touched = [], ap_details = [], ap_indexes = [],
      ap_appliedTotal = 0, ap_index = 0, ap_events = []\<rparr>"

definition operationSize :: "preflight \<Rightarrow> nat \<Rightarrow> plan_op \<Rightarrow> nat" where
  "operationSize prepared i oper =
     (case oper of
        TextOp _ \<Rightarrow> (case jm_get (pf_text prepared) i of None \<Rightarrow> 0 | Some edits \<Rightarrow> length edits)
      | ResourceOp _ \<Rightarrow> 1)"

definition markApplied :: "nat \<Rightarrow> 'fs applying \<Rightarrow> 'fs applying" where
  "markApplied n st =
     st\<lparr>ap_indexes := foldl (\<lambda>xs j. if length xs < 100 then xs @ [ap_index st + j] else xs) (ap_indexes st) [0..<n],
        ap_appliedTotal := ap_appliedTotal st + n,
        ap_index := ap_index st + n\<rparr>"

definition skipOperation :: "nat \<Rightarrow> 'fs applying \<Rightarrow> 'fs applying" where
  "skipOperation n st = st\<lparr>ap_index := ap_index st + n\<rparr>"

definition relativeToCwd :: "kernel \<Rightarrow> js_text \<Rightarrow> js_text \<Rightarrow> js_text" where
  "relativeToCwd k filePath cwd =
     (let rel = path_relative (k_cwd k) cwd filePath
      in toPosix (if rel \<noteq> [] then rel else basename filePath))"

section \<open>What an edit says about its file\<close>

fun count_breaks :: "js_text \<Rightarrow> nat" where
  "count_breaks (a # b # cs) =
     (if a = CR \<and> b = LF then Suc (count_breaks cs)
      else if a = CR \<or> a = LF then Suc (count_breaks (b # cs))
      else count_breaks (b # cs))"
| "count_breaks [a] = (if a = CR \<or> a = LF then 1 else 0)"
| "count_breaks [] = 0"

definition changes_line_count :: "text_edit \<Rightarrow> bool" where
  "changes_line_count e =
     (int (pos_line (rg_end (te_range e))) - int (pos_line (rg_start (te_range e))) \<noteq> int (count_breaks (te_newText e)))"

definition edited_lines :: "text_edit \<Rightarrow> nat \<times> nat" where
  "edited_lines e =
     (let s = rg_start (te_range e); t = rg_end (te_range e)
      in (pos_line s + 1, pos_line t + (if pos_character t = 0 \<and> pos_line t > pos_line s then 0 else 1)))"

text \<open>
  The test \<open>IMPORT_RELEVANT_LINE\<close>. \<open>is_word\<close> is the class of the boundary assertion; white
  space is \<open>\s\<close> of JavaScript.
\<close>

definition is_word :: "code_unit \<Rightarrow> bool" where
  "is_word c = (is_ascii_letter c \<or> 48 \<le> c \<and> c \<le> 57 \<or> c = 95)"

definition js_white :: "code_unit \<Rightarrow> bool" where
  "js_white c =
     (9 \<le> c \<and> c \<le> 13 \<or>
      c \<in> set [32, 0xA0, 0x1680, 0x2028, 0x2029, 0x202F, 0x205F, 0x3000, 0xFEFF] \<or> 0x2000 \<le> c \<and> c \<le> 0x200A)"

definition boundary_after :: "js_text \<Rightarrow> bool" where
  "boundary_after rest = (rest = [] \<or> \<not> is_word (hd rest))"

text \<open>\<open>from\<close> at a word boundary, in what follows \<open>prev\<close>, before anything \<open>stop\<close> rejects.\<close>

fun from_ahead :: "(code_unit \<Rightarrow> bool) \<Rightarrow> (js_text \<Rightarrow> bool) \<Rightarrow> bool \<Rightarrow> js_text \<Rightarrow> bool" where
  "from_ahead stop follows prevWord [] = False"
| "from_ahead stop follows prevWord (c # cs) =
     (\<not> prevWord \<and> take 4 (c # cs) = units ''from'' \<and> follows (drop 4 (c # cs)) \<or>
      \<not> stop c \<and> from_ahead stop follows (is_word c) cs)"

definition import_relevant :: "js_text \<Rightarrow> bool" where
  "import_relevant line =
     (let body = dropWhile js_white line
      in take 6 body = units ''import'' \<and> boundary_after (drop 6 body) \<or>
         take 6 body = units ''export'' \<and> drop 6 body \<noteq> [] \<and> js_white (hd (drop 6 body)) \<and>
           from_ahead (\<lambda>c. c = 59) (\<lambda>r. r \<noteq> [] \<and> js_white (hd r)) False (tl (drop 6 body)) \<or>
         from_ahead (\<lambda>c. False)
           (\<lambda>r. r \<noteq> [] \<and> js_white (hd r) \<and>
                (let q = dropWhile js_white r in q \<noteq> [] \<and> (hd q = 39 \<or> hd q = 34))) False line)"

definition importsSignature :: "js_text \<Rightarrow> js_text" where
  "importsSignature content = join_lf (filter import_relevant (split_lf content))"

section \<open>One operation on disk\<close>

definition then_do :: "commit_error option \<times> 'fs applying \<Rightarrow> ('fs applying \<Rightarrow> commit_error option \<times> 'fs applying) \<Rightarrow>
    commit_error option \<times> 'fs applying" where
  "then_do r f = (case r of (Some e, st) \<Rightarrow> (Some e, st) | (None, st) \<Rightarrow> f st)"

definition on_disk :: "('fs \<Rightarrow> string option \<times> 'fs) \<Rightarrow> 'fs applying \<Rightarrow> commit_error option \<times> 'fs applying" where
  "on_disk call st = (let (e, fs) = call (ap_fs st) in (map_option DiskError e, st\<lparr>ap_fs := fs\<rparr>))"

definition kernel_now :: "'fs disk \<Rightarrow> 'fs applying \<Rightarrow> kernel" where
  "kernel_now d st = en_kernel (dk_env d (ap_fs st))"

definition unknown_detail :: "js_text \<Rightarrow> bool \<Rightarrow> file_detail" where
  "unknown_detail filePath importsChanged =
     \<lparr>fd_filePath = filePath, fd_range = (1, 1), fd_ranges = None, fd_authorshipUnknown = True,
      fd_importsChanged = importsChanged\<rparr>"

definition report ::
  "js_text list \<Rightarrow> file_detail list \<Rightarrow> nat \<Rightarrow> file_description \<Rightarrow> 'fs applying \<Rightarrow> commit_error option \<times> 'fs applying" where
  "report files details n description st =
     (let st1 = st\<lparr>ap_touched := foldl (\<lambda>xs f. set_add f xs) (ap_touched st) files,
                  ap_details := ap_details st @ details\<rparr>;
          st2 = markApplied n st1
      in (None, st2\<lparr>ap_descriptions := ap_descriptions st2 @ [description]\<rparr>))"

definition announce :: "file_event list \<Rightarrow> 'fs applying \<Rightarrow> commit_error option \<times> 'fs applying" where
  "announce events st = (None, st\<lparr>ap_events := ap_events st @ events\<rparr>)"

definition text_detail :: "js_text \<Rightarrow> text_edit list \<Rightarrow> js_text \<Rightarrow> js_text \<Rightarrow> file_detail" where
  "text_detail filePath edits content updated =
     \<lparr>fd_filePath = filePath,
      fd_range = (Min (set (map (fst \<circ> edited_lines) edits)), Max (set (map (snd \<circ> edited_lines) edits))),
      fd_ranges = Some (map edited_lines edits),
      fd_authorshipUnknown = list_ex changes_line_count edits,
      fd_importsChanged = (importsSignature content \<noteq> importsSignature updated)\<rparr>"

text \<open>In each operation the paths are taken from the URI before its first call.\<close>

definition commit_text ::
  "'fs disk \<Rightarrow> js_text \<Rightarrow> text_edit list \<Rightarrow> js_text \<Rightarrow> 'fs applying \<Rightarrow> commit_error option \<times> 'fs applying" where
  "commit_text d cwd edits uri st =
     (let k = kernel_now d st;
          filePath = uriToPath k uri;
          diskPath = uriToDiskPath k uri
      in if edits = [] then (None, skipOperation 0 st)
         else case en_readFile (dk_env d (ap_fs st)) diskPath of
                Inl e \<Rightarrow> (Some (DiskError e), st)
              | Inr content \<Rightarrow>
                  (case applyTextEditsToString (pathIndexKey k) content edits UTF16 of
                     Inl e \<Rightarrow> (Some (CommitEdits e), st)
                   | Inr updated \<Rightarrow>
                       then_do (on_disk (dk_writeFile d diskPath updated) st)
                         (report [filePath] [text_detail filePath edits content updated] (length edits)
                            (AppliedEdits (length edits) (relativeToCwd k filePath cwd)))))"

definition commit_create ::
  "'fs disk \<Rightarrow> js_text \<Rightarrow> js_text \<Rightarrow> resource_options option \<Rightarrow> 'fs applying \<Rightarrow> commit_error option \<times> 'fs applying" where
  "commit_create d cwd uri options st =
     (let k = kernel_now d st;
          filePath = uriToPath k uri;
          diskPath = uriToDiskPath k uri
      in then_do (on_disk (dk_mkdir d (dirname diskPath)) st) (\<lambda>st1.
         then_do (on_disk (if flag op_overwrite options then dk_writeFile d diskPath [] else dk_writeNew d diskPath []) st1) (\<lambda>st2.
         then_do (announce [FileCreated diskPath] st2)
           (report [filePath] [unknown_detail filePath False] 1 (CreatedFile (relativeToCwd k filePath cwd))))))"

definition commit_rename ::
  "'fs disk \<Rightarrow> js_text \<Rightarrow> js_text \<Rightarrow> js_text \<Rightarrow> resource_options option \<Rightarrow> 'fs applying \<Rightarrow> commit_error option \<times> 'fs applying" where
  "commit_rename d cwd oldUri newUri options st =
     (let k = kernel_now d st;
          oldPath = uriToPath k oldUri;
          newPath = uriToPath k newUri;
          oldDisk = uriToDiskPath k oldUri;
          newDisk = uriToDiskPath k newUri
      in then_do (on_disk (dk_mkdir d (dirname newDisk)) st) (\<lambda>st1.
         then_do (if flag op_overwrite options then on_disk (dk_rm d newDisk True True) st1 else (None, st1)) (\<lambda>st2.
         then_do (on_disk (dk_rename d oldDisk newDisk) st2) (\<lambda>st3.
         then_do (announce [FileDeleted oldDisk, FileCreated newDisk] st3)
           (report [oldPath, newPath] [unknown_detail oldPath True, unknown_detail newPath True] 1
              (RenamedFile (relativeToCwd k oldPath cwd) (relativeToCwd k newPath cwd)))))))"

definition commit_delete ::
  "'fs disk \<Rightarrow> js_text \<Rightarrow> js_text \<Rightarrow> resource_options option \<Rightarrow> 'fs applying \<Rightarrow> commit_error option \<times> 'fs applying" where
  "commit_delete d cwd uri options st =
     (let k = kernel_now d st;
          filePath = uriToPath k uri;
          diskPath = uriToDiskPath k uri
      in then_do (on_disk (dk_rm d diskPath (flag op_recursive options) False) st) (\<lambda>st1.
         then_do (announce [FileDeleted diskPath] st1)
           (report [filePath] [unknown_detail filePath True] 1 (DeletedFile (relativeToCwd k filePath cwd)))))"

definition commit_op ::
  "'fs disk \<Rightarrow> js_text \<Rightarrow> preflight \<Rightarrow> nat \<times> plan_op \<Rightarrow> 'fs applying \<Rightarrow> commit_error option \<times> 'fs applying" where
  "commit_op d cwd prepared = (\<lambda>(i, oper) st.
     if i \<in> set (pf_ignored prepared) then (None, skipOperation (operationSize prepared i oper) st)
     else case oper of
            TextOp p \<Rightarrow> commit_text d cwd (case jm_get (pf_text prepared) i of None \<Rightarrow> [] | Some es \<Rightarrow> es) (pe_uri p) st
          | ResourceOp (CreateFile uri opts) \<Rightarrow> commit_create d cwd uri opts st
          | ResourceOp (RenameFile oldUri newUri opts) \<Rightarrow> commit_rename d cwd oldUri newUri opts st
          | ResourceOp (DeleteFile uri opts) \<Rightarrow> commit_delete d cwd uri opts st)"

fun commit_all ::
  "'fs disk \<Rightarrow> js_text \<Rightarrow> preflight \<Rightarrow> (nat \<times> plan_op) list \<Rightarrow> 'fs applying \<Rightarrow> commit_error option \<times> 'fs applying" where
  "commit_all d cwd prepared [] st = (None, st)"
| "commit_all d cwd prepared (x # xs) st = then_do (commit_op d cwd prepared x st) (commit_all d cwd prepared xs)"

section \<open>The whole edit\<close>

record operation_counts =
  oc_textEdits :: nat
  oc_create :: nat
  oc_rename :: nat
  oc_delete :: nat

definition count_op :: "preflight \<Rightarrow> operation_counts \<times> nat \<Rightarrow> nat \<times> plan_op \<Rightarrow> operation_counts \<times> nat" where
  "count_op prepared = (\<lambda>(counts, total) (i, oper).
     let size = operationSize prepared i oper
     in (case oper of
           TextOp _ \<Rightarrow> counts\<lparr>oc_textEdits := oc_textEdits counts + size\<rparr>
         | ResourceOp (CreateFile _ _) \<Rightarrow> counts\<lparr>oc_create := oc_create counts + 1\<rparr>
         | ResourceOp (RenameFile _ _ _) \<Rightarrow> counts\<lparr>oc_rename := oc_rename counts + 1\<rparr>
         | ResourceOp (DeleteFile _ _) \<Rightarrow> counts\<lparr>oc_delete := oc_delete counts + 1\<rparr>,
         total + size))"

definition no_counts :: operation_counts where
  "no_counts = \<lparr>oc_textEdits = 0, oc_create = 0, oc_rename = 0, oc_delete = 0\<rparr>"

record applied_edit =
  ae_descriptions :: "file_description list"
  ae_files :: "js_text list"
  ae_operationTotal :: nat
  ae_appliedOperationTotal :: nat
  ae_appliedOperationIndexes :: "nat list"
  ae_operationCounts :: operation_counts
  ae_fileDetails :: "file_detail list"

definition makeResult :: "operation_counts \<times> nat \<Rightarrow> 'fs applying \<Rightarrow> applied_edit" where
  "makeResult counts st =
     \<lparr>ae_descriptions = ap_descriptions st, ae_files = ap_touched st, ae_operationTotal = snd counts,
      ae_appliedOperationTotal = ap_appliedTotal st, ae_appliedOperationIndexes = ap_indexes st,
      ae_operationCounts = fst counts, ae_fileDetails = ap_details st\<rparr>"

datatype apply_error = PlanError parse_error | PreflightError preflight_error | CommitError commit_error

datatype mutation_status = MutationSuccess | MutationSkipped | MutationFailed

text \<open>
  What the caller gets and what was told to others: \<open>MidApplication\<close> is the error that carries
  the partial result, \<open>ao_recorded\<close> what goes to \<open>recordLspMutation\<close> when the edit is observe.
\<close>

datatype apply_answer =
    AppliedAll applied_edit
  | Refused apply_error
  | MidApplication apply_error applied_edit

record 'fs apply_outcome =
  out_fs :: 'fs
  out_answer :: apply_answer
  out_events :: "file_event list"
  out_recorded :: "(mutation_status \<times> applied_edit) option"

definition fail_apply :: "bool \<Rightarrow> apply_error \<Rightarrow> operation_counts \<times> nat \<Rightarrow> 'fs applying \<Rightarrow> 'fs apply_outcome" where
  "fail_apply observe err counts st =
     (let partial = makeResult counts st
      in \<lparr>out_fs = ap_fs st,
          out_answer = (if ap_touched st \<noteq> [] then MidApplication err partial else Refused err),
          out_events = ap_events st,
          out_recorded = (if observe then Some (MutationFailed, partial) else None)\<rparr>)"

definition applyWorkspaceEdit ::
  "'fs disk \<Rightarrow> wire \<Rightarrow> js_text \<Rightarrow> apply_options \<Rightarrow> bool \<Rightarrow> 'fs \<Rightarrow> 'fs apply_outcome" where
  "applyWorkspaceEdit d edit cwd options observe fs =
     (let env = dk_env d fs
      in case planWorkspaceEdit (pathIndexKey (en_kernel env)) False edit of
           Inl err \<Rightarrow> \<lparr>out_fs = fs, out_answer = Refused (PlanError err), out_events = [], out_recorded = None\<rparr>
         | Inr planned \<Rightarrow>
             (case preflightWorkspaceEdit env planned cwd options of
                Inl err \<Rightarrow> fail_apply observe (PreflightError err) (no_counts, 0) (start_applying fs)
              | Inr prepared \<Rightarrow>
                  let indexed = zip [0..<length planned] planned;
                      counts = foldl (count_op prepared) (no_counts, 0) indexed
                  in case commit_all d cwd prepared indexed (start_applying fs) of
                       (Some err, st) \<Rightarrow> fail_apply observe (CommitError err) counts st
                     | (None, st) \<Rightarrow>
                         \<lparr>out_fs = ap_fs st, out_answer = AppliedAll (makeResult counts st), out_events = ap_events st,
                          out_recorded =
                            (if observe
                             then Some (if ap_appliedTotal st > 0 then MutationSuccess else MutationSkipped, makeResult counts st)
                             else None)\<rparr>))"

definition plannedDiskPaths :: "kernel \<Rightarrow> plan_op list \<Rightarrow> js_text list" where
  "plannedDiskPaths k planned = concat (map (\<lambda>oper. map (uriToDiskPath k) (op_uris oper)) planned)"

end
