(* ===== verification/Edit_Report.thy ===== *)
theory Edit_Report
  imports Edit_Commit
begin

text \<open>
  What holds of an applied edit on every disk: a refused edit has written nothing, the writes
  go only to paths of the plan, and the report counts what was done.
\<close>

section \<open>Running the operations\<close>

lemma then_do_None [simp]: "then_do (None, st) f = f st"
  by (simp add: then_do_def)

lemma then_do_cases:
  assumes "\<And>e st'. r = (Some e, st') \<Longrightarrow> P (Some e, st')" "\<And>st'. r = (None, st') \<Longrightarrow> P (f st')"
  shows "P (then_do r f)"
  using assms by (cases r; cases "fst r") (auto simp: then_do_def)

text \<open>A property of the disk that the calls keep is kept by the operations made of them.\<close>

lemma then_do_fs:
  "Q (ap_fs (snd r)) \<Longrightarrow> (\<And>st. Q (ap_fs st) \<Longrightarrow> Q (ap_fs (snd (f st)))) \<Longrightarrow> Q (ap_fs (snd (then_do r f)))"
  by (cases r; cases "fst r") (auto simp: then_do_def)

lemma on_disk_fs: "(\<And>fs. Q fs \<Longrightarrow> Q (snd (call fs))) \<Longrightarrow> Q (ap_fs st) \<Longrightarrow> Q (ap_fs (snd (on_disk call st)))"
  by (simp add: on_disk_def split: prod.splits) (metis snd_conv)

lemma report_fs [simp]: "ap_fs (snd (report files details n description st)) = ap_fs st"
  by (simp add: report_def markApplied_def Let_def)

lemma announce_fs [simp]: "ap_fs (snd (announce events st)) = ap_fs st"
  by (simp add: announce_def)

definition keeps :: "'fs disk \<Rightarrow> ('fs \<Rightarrow> bool) \<Rightarrow> js_text set \<Rightarrow> bool" where
  "keeps d Q ps \<longleftrightarrow>
     (\<forall>fs. Q fs \<longrightarrow> (\<forall>p \<in> ps.
        (\<forall>c. Q (snd (dk_writeFile d p c fs)) \<and> Q (snd (dk_writeNew d p c fs))) \<and>
        Q (snd (dk_mkdir d (dirname p) fs)) \<and>
        (\<forall>r f. Q (snd (dk_rm d p r f fs))) \<and>
        (\<forall>p' \<in> ps. Q (snd (dk_rename d p' p fs)))))"

lemma keepsD:
  assumes "keeps d Q ps" "p \<in> ps" "Q fs"
  shows "Q (snd (dk_writeFile d p c fs))" "Q (snd (dk_writeNew d p c fs))" "Q (snd (dk_mkdir d (dirname p) fs))"
    "Q (snd (dk_rm d p r f fs))" "p' \<in> ps \<Longrightarrow> Q (snd (dk_rename d p' p fs))"
  using assms unfolding keeps_def by blast+

lemma commit_text_keeps:
  assumes "keeps d Q ps" "uriToDiskPath (kernel_now d st) uri \<in> ps" "Q (ap_fs st)"
  shows "Q (ap_fs (snd (commit_text d cwd edits uri st)))"
  unfolding commit_text_def Let_def skipOperation_def
  by (auto split: sum.splits intro!: then_do_fs [of Q] on_disk_fs [of Q] simp: keepsD [OF assms(1,2)] assms(3))

lemma commit_create_keeps:
  assumes "keeps d Q ps" "uriToDiskPath (kernel_now d st) uri \<in> ps" "Q (ap_fs st)"
  shows "Q (ap_fs (snd (commit_create d cwd uri opts st)))"
  unfolding commit_create_def Let_def
  by (intro then_do_fs [of Q] on_disk_fs [of Q]) (simp_all add: keepsD [OF assms(1,2)] assms(3))

lemma commit_rename_keeps:
  assumes "keeps d Q ps" "uriToDiskPath (kernel_now d st) newUri \<in> ps" "uriToDiskPath (kernel_now d st) oldUri \<in> ps"
    and "Q (ap_fs st)"
  shows "Q (ap_fs (snd (commit_rename d cwd oldUri newUri opts st)))"
proof -
  let ?p = "uriToDiskPath (kernel_now d st) newUri"
  have rm: "Q (ap_fs (snd (if flag op_overwrite opts then on_disk (dk_rm d ?p True True) s else (None, s))))"
    if "Q (ap_fs s)" for s
    using on_disk_fs [of Q "dk_rm d ?p True True" s] that by (simp add: keepsD [OF assms(1,2)])
  show ?thesis unfolding commit_rename_def Let_def
    by (intro then_do_fs [of Q] rm on_disk_fs [of Q]) (simp_all add: keepsD [OF assms(1,2)] assms(3,4))
qed

lemma commit_delete_keeps:
  assumes "keeps d Q ps" "uriToDiskPath (kernel_now d st) uri \<in> ps" "Q (ap_fs st)"
  shows "Q (ap_fs (snd (commit_delete d cwd uri opts st)))"
  unfolding commit_delete_def Let_def
  by (intro then_do_fs [of Q] on_disk_fs [of Q]) (simp_all add: keepsD [OF assms(1,2)] assms(3))

lemmas commit_keeps = commit_text_keeps commit_create_keeps commit_rename_keeps commit_delete_keeps

lemma commit_op_keeps:
  assumes decode: "\<And>fs. k_fileURLToPath (en_kernel (dk_env d fs)) = k_fileURLToPath k"
    and kept: "keeps d Q ps" "uriToDiskPath k ` set (op_uris oper) \<subseteq> ps" and "Q (ap_fs st)"
  shows "Q (ap_fs (snd (commit_op d cwd prepared (i, oper) st)))"
proof -
  have disk: "uriToDiskPath (kernel_now d st) uri = uriToDiskPath k uri" for uri
    by (simp add: uriToDiskPath_def kernel_now_def decode)
  show ?thesis
  proof (cases "i \<in> set (pf_ignored prepared)")
    case False
    then show ?thesis using assms(4) kept(2)
      by (cases oper rule: op_uris.cases)
         (simp_all add: commit_op_def commit_keeps [OF kept(1)] disk)
  qed (simp add: commit_op_def skipOperation_def assms(4))
qed

lemma commit_all_keeps:
  assumes "\<And>fs. k_fileURLToPath (en_kernel (dk_env d fs)) = k_fileURLToPath k"
    and "keeps d Q ps" "set (plannedDiskPaths k (map snd xs)) \<subseteq> ps" "Q (ap_fs st)"
  shows "Q (ap_fs (snd (commit_all d cwd prepared xs st)))"
  using assms(3,4)
proof (induction xs arbitrary: st)
  case (Cons x xs)
  obtain i oper where x: "x = (i, oper)" by (cases x)
  have "Q (ap_fs (snd (commit_op d cwd prepared x st)))"
    unfolding x by (rule commit_op_keeps [OF assms(1,2)]) (use Cons.prems x in \<open>auto simp: plannedDiskPaths_def\<close>)
  then show ?case unfolding commit_all.simps
    by (rule then_do_fs) (use Cons in \<open>auto simp: plannedDiskPaths_def\<close>)
qed simp

lemma fail_apply_fs [simp]: "out_fs (fail_apply observe err counts st) = ap_fs st"
  by (simp add: fail_apply_def Let_def)

lemma apply_refused:
  "planWorkspaceEdit (pathIndexKey (en_kernel (dk_env d fs))) False edit = Inr planned \<Longrightarrow>
   preflightWorkspaceEdit (dk_env d fs) planned cwd options = Inl err \<Longrightarrow>
   applyWorkspaceEdit d edit cwd options observe fs =
     fail_apply observe (PreflightError err) (no_counts, 0) (start_applying fs)"
  by (simp add: applyWorkspaceEdit_def)

lemma apply_accepted:
  assumes "planWorkspaceEdit (pathIndexKey (en_kernel (dk_env d fs))) False edit = Inr planned"
    and "preflightWorkspaceEdit (dk_env d fs) planned cwd options = Inr prepared"
    and "commit_all d cwd prepared (zip [0..<length planned] planned) (start_applying fs) = (e, st)"
  shows "out_fs (applyWorkspaceEdit d edit cwd options observe fs) = ap_fs st"
    and "out_answer (applyWorkspaceEdit d edit cwd options observe fs) =
         (let r = makeResult (foldl (count_op prepared) (no_counts, 0) (zip [0..<length planned] planned)) st
          in case e of None \<Rightarrow> AppliedAll r
             | Some err \<Rightarrow> if ap_touched st \<noteq> [] then MidApplication (CommitError err) r else Refused (CommitError err))"
    and "out_events (applyWorkspaceEdit d edit cwd options observe fs) = ap_events st"
  using assms by (simp_all add: applyWorkspaceEdit_def fail_apply_def Let_def split: option.splits)

text \<open>
  C9: an edit writes only what it planned. Whatever holds of the disk and is kept by the calls
  on the disk paths of the plan (writing, removing, making their parent directory, renaming
  one to another) holds after the edit, whether it succeeds, is refused or fails half way; and
  an edit the preflight refuses leaves the disk as it was and announces nothing.
\<close>

theorem edit_writes_only_planned_paths:
  assumes "\<And>fs. k_fileURLToPath (en_kernel (dk_env d fs)) = k_fileURLToPath k"
    and "planWorkspaceEdit (pathIndexKey (en_kernel (dk_env d fs))) False edit = Inr planned"
    and "keeps d Q (set (plannedDiskPaths k planned))" "Q fs"
  shows "Q (out_fs (applyWorkspaceEdit d edit cwd options observe fs)) \<and>
         (\<forall>err. preflightWorkspaceEdit (dk_env d fs) planned cwd options = Inl err \<longrightarrow>
            out_fs (applyWorkspaceEdit d edit cwd options observe fs) = fs \<and>
            out_answer (applyWorkspaceEdit d edit cwd options observe fs) = Refused (PreflightError err) \<and>
            out_events (applyWorkspaceEdit d edit cwd options observe fs) = [])"
proof -
  have "Q (ap_fs (snd (commit_all d cwd prepared (zip [0..<length planned] planned) (start_applying fs))))" for prepared
    by (rule commit_all_keeps [OF assms(1,3)]) (simp_all add: start_applying_def assms(4))
  note kept = this
  show ?thesis
  proof (cases "preflightWorkspaceEdit (dk_env d fs) planned cwd options")
    case (Inl err)
    show ?thesis using apply_refused [OF assms(2) Inl] assms(4) Inl
      by (simp add: fail_apply_def start_applying_def Let_def)
  next
    case (Inr prepared)
    obtain e st where "commit_all d cwd prepared (zip [0..<length planned] planned) (start_applying fs) = (e, st)"
      by (cases "commit_all d cwd prepared (zip [0..<length planned] planned) (start_applying fs)")
    with kept [of prepared] apply_accepted [OF assms(2) Inr] Inr show ?thesis by simp
  qed
qed

section \<open>The count of operations\<close>

text \<open>The sampled indexes are the first hundred of those applied so far.\<close>

lemma capped_push:
  "foldl (\<lambda>xs j. if length xs < c then xs @ [a + j] else xs) xs [0..<n] = xs @ map ((+) a) [0..<min n (c - length xs)]"
proof (induction n)
  case (Suc n)
  then show ?case
    by (cases "n < c - length xs") (auto simp: min_def not_less)
qed simp

definition report_ok :: "'fs applying \<Rightarrow> bool" where
  "report_ok st \<longleftrightarrow>
     ap_appliedTotal st \<le> ap_index st \<and>
     length (ap_indexes st) = min 100 (ap_appliedTotal st) \<and>
     sorted_wrt (<) (ap_indexes st) \<and> (\<forall>j \<in> set (ap_indexes st). j < ap_index st) \<and>
     distinct (ap_touched st) \<and> fd_filePath ` set (ap_details st) = set (ap_touched st) \<and>
     (ap_touched st = [] \<longrightarrow> ap_appliedTotal st = 0 \<and> ap_descriptions st = [])"

lemma report_ok_start: "report_ok (start_applying fs)"
  by (simp add: report_ok_def start_applying_def)

lemma report_ok_frame [simp]:
  "report_ok (st\<lparr>ap_fs := fs\<rparr>) = report_ok st" "report_ok (st\<lparr>ap_events := es\<rparr>) = report_ok st"
  by (simp_all add: report_ok_def)

lemma report_ok_skip: "report_ok st \<Longrightarrow> report_ok (skipOperation n st)"
  by (fastforce simp: report_ok_def skipOperation_def)

lemma touched_fold: "set (foldl (\<lambda>xs f. set_add f xs) xs fs) = set xs \<union> set fs"
  by (induction fs arbitrary: xs) (auto simp: set_add_def)

lemma touched_distinct: "distinct xs \<Longrightarrow> distinct (foldl (\<lambda>xs f. set_add f xs) xs fs)"
  by (induction fs arbitrary: xs) (auto simp: set_add_def)

lemma sorted_wrt_upt_shift: "sorted_wrt (<) (map ((+) (a::nat)) [0..<n])"
  by (simp add: sorted_wrt_map)

lemma markApplied_indexes:
  "ap_indexes (markApplied n st) =
     ap_indexes st @ map ((+) (ap_index st)) [0..<min n (100 - length (ap_indexes st))]"
  by (simp add: markApplied_def capped_push)

lemma report_ok_report:
  assumes "report_ok st" "files \<noteq> []" "fd_filePath ` set details = set files"
  shows "report_ok (snd (report files details n description st))"
proof -
  let ?st = "snd (report files details n description st)"
  have fields: "ap_indexes ?st = ap_indexes st @ map ((+) (ap_index st)) [0..<min n (100 - length (ap_indexes st))]"
    "ap_appliedTotal ?st = ap_appliedTotal st + n" "ap_index ?st = ap_index st + n"
    "ap_touched ?st = foldl (\<lambda>xs f. set_add f xs) (ap_touched st) files" "ap_details ?st = ap_details st @ details"
    by (simp_all add: report_def Let_def markApplied_def capped_push)
  note st = assms(1) [unfolded report_ok_def]
  have "length (ap_indexes ?st) = min 100 (ap_appliedTotal ?st)" using st by (simp add: fields)
  moreover have "sorted_wrt (<) (ap_indexes ?st)"
    using st by (auto simp: fields sorted_wrt_append sorted_wrt_upt_shift)
  moreover have "\<forall>j \<in> set (ap_indexes ?st). j < ap_index ?st" using st by (auto simp: fields)
  moreover have "distinct (ap_touched ?st)" "set (ap_touched ?st) = set (ap_touched st) \<union> set files"
    using st by (simp_all add: fields touched_fold touched_distinct)
  moreover have "fd_filePath ` set (ap_details ?st) = set (ap_touched ?st)"
    using st assms(3) by (simp add: fields touched_fold image_Un)
  moreover have "ap_appliedTotal ?st \<le> ap_index ?st" using st by (simp add: fields)
  moreover have "ap_touched ?st \<noteq> []"
    using \<open>set (ap_touched ?st) = set (ap_touched st) \<union> set files\<close> assms(2) by (cases "ap_touched ?st") auto
  ultimately show ?thesis unfolding report_ok_def by blast
qed

text \<open>A step of the commit keeps the report in order and moves on by the size of its operation.\<close>

definition advances :: "nat \<Rightarrow> 'fs applying \<Rightarrow> commit_error option \<times> 'fs applying \<Rightarrow> bool" where
  "advances n st r \<longleftrightarrow>
     report_ok (snd r) \<and>
     (if fst r = None then ap_index (snd r) = ap_index st + n else ap_index (snd r) = ap_index st)"

lemma advances_then:
  assumes "advances 0 st r" "\<And>st'. report_ok st' \<Longrightarrow> ap_index st' = ap_index st \<Longrightarrow> advances n st' (f st')"
  shows "advances n st (then_do r f)"
proof (cases r)
  case (Pair e st')
  with assms show ?thesis by (cases e) (auto simp: advances_def then_do_def)
qed

lemma advances_on_disk: "report_ok st \<Longrightarrow> advances 0 st (on_disk call st)"
  by (auto simp: advances_def on_disk_def split: prod.splits)

lemma advances_announce: "report_ok st \<Longrightarrow> advances 0 st (announce events st)"
  by (simp add: advances_def announce_def)

lemma advances_report:
  "report_ok st \<Longrightarrow> files \<noteq> [] \<Longrightarrow> fd_filePath ` set details = set files \<Longrightarrow>
   advances n st (report files details n description st)"
  using report_ok_report [of st files details n description]
  by (simp add: advances_def) (simp add: report_def markApplied_def Let_def)

lemmas advances_intros = advances_then advances_on_disk advances_announce advances_report

lemma advances_0: "report_ok st \<Longrightarrow> advances 0 st (None, st)"
  by (simp add: advances_def)

lemma advances_error: "report_ok st \<Longrightarrow> advances n st (Some e, st)"
  by (simp add: advances_def)

lemma advances_skip: "report_ok st \<Longrightarrow> advances n st (None, skipOperation n st)"
  using report_ok_skip [of st n] by (simp add: advances_def) (simp add: skipOperation_def)

lemma detail_paths [simp]:
  "fd_filePath (unknown_detail p b) = p" "fd_filePath (text_detail p edits c u) = p"
  by (simp_all add: unknown_detail_def text_detail_def)

lemma commit_op_advances:
  assumes "report_ok st"
  shows "advances (operationSize prepared i oper) st (commit_op d cwd prepared (i, oper) st)"
proof (cases "i \<in> set (pf_ignored prepared)")
  case False
  show ?thesis
  proof (cases oper rule: op_uris.cases)
    case (1 p)
    then show ?thesis using False assms
      by (auto simp: commit_op_def commit_text_def operationSize_def Let_def advances_error advances_skip
               intro!: advances_intros split: option.splits sum.splits)
  next
    case (2 uri opts)
    then show ?thesis using False assms
      by (auto simp: commit_op_def commit_create_def operationSize_def Let_def intro!: advances_intros)
  next
    case (3 oldUri newUri opts)
    then show ?thesis using False assms
      by (auto simp: commit_op_def commit_rename_def operationSize_def Let_def advances_0 intro!: advances_intros)
  next
    case (4 uri opts)
    then show ?thesis using False assms
      by (auto simp: commit_op_def commit_delete_def operationSize_def Let_def intro!: advances_intros)
  qed
qed (simp add: commit_op_def assms advances_skip)

definition plan_size :: "preflight \<Rightarrow> (nat \<times> plan_op) list \<Rightarrow> nat" where
  "plan_size prepared xs = sum_list (map (\<lambda>(i, oper). operationSize prepared i oper) xs)"

lemma commit_all_advances:
  assumes "report_ok st"
  shows "report_ok (snd (commit_all d cwd prepared xs st)) \<and>
         ap_index (snd (commit_all d cwd prepared xs st)) \<le> ap_index st + plan_size prepared xs \<and>
         (fst (commit_all d cwd prepared xs st) = None \<longrightarrow>
            ap_index (snd (commit_all d cwd prepared xs st)) = ap_index st + plan_size prepared xs)"
  using assms
proof (induction xs arbitrary: st)
  case (Cons x xs)
  obtain i oper where x: "x = (i, oper)" by (cases x)
  note step = commit_op_advances [OF Cons.prems, of prepared i oper d cwd]
  show ?case
  proof (cases "commit_op d cwd prepared x st")
    case (Pair e st')
    with step x Cons.IH [of st'] show ?thesis
      by (cases e) (auto simp: advances_def then_do_def plan_size_def)
  qed
qed (simp add: plan_size_def)

lemma count_total:
  "snd (foldl (count_op prepared) acc xs) = snd acc + plan_size prepared xs"
  by (induction xs arbitrary: acc) (auto simp: count_op_def plan_size_def Let_def split: prod.splits)

definition counted :: "operation_counts \<Rightarrow> nat" where
  "counted c = oc_textEdits c + oc_create c + oc_rename c + oc_delete c"

lemma count_kinds:
  "counted (fst (foldl (count_op prepared) acc xs)) = counted (fst acc) + plan_size prepared xs"
proof (induction xs arbitrary: acc)
  case (Cons x xs)
  obtain i oper where x: "x = (i, oper)" by (cases x)
  have "counted (fst (count_op prepared acc x)) = counted (fst acc) + operationSize prepared i oper"
    by (cases acc; cases oper rule: op_uris.cases) (auto simp: x count_op_def counted_def operationSize_def Let_def)
  with Cons show ?case by (simp add: x plan_size_def)
qed (simp add: plan_size_def)

end
