(* ===== verification/Edit_Text.thy ===== *)
theory Edit_Text
  imports Edit_Report Edit_Properties
begin

text \<open>
  Text edits from the wire to the disk: an edit without resource operations that passes the
  preflight is applied as a whole, each file gets the text its edits describe, and every other
  file keeps its text.
\<close>

section \<open>What is asked of the disk\<close>

abbreviation disk_kernel :: "'fs disk \<Rightarrow> 'fs \<Rightarrow> kernel" where
  "disk_kernel d fs \<equiv> en_kernel (dk_env d fs)"

abbreviation reads :: "'fs disk \<Rightarrow> 'fs \<Rightarrow> js_text \<Rightarrow> string + js_text" where
  "reads d fs p \<equiv> en_readFile (dk_env d fs) p"

text \<open>A string without a lone surrogate: \<open>writeFile\<close> encodes it in UTF-8 without loss.\<close>

fun well_formed_text :: "js_text \<Rightarrow> bool" where
  "well_formed_text [] = True"
| "well_formed_text [c] = (\<not> is_high c \<and> \<not> is_low c)"
| "well_formed_text (c # d # cs) =
     (if is_high c then is_low d \<and> well_formed_text cs
      else \<not> is_low c \<and> well_formed_text (d # cs))"

text \<open>
  A file that can be read has a real path and the same text under every spelling of it. If it
  is one of the writable files \<open>W\<close> (given by their real paths), a well-formed text can be
  written to it: then it has the new text, no other file changes and no name resolves
  differently. Nothing is asked of other files and other texts.
\<close>

definition text_disk :: "'fs disk \<Rightarrow> ('fs \<Rightarrow> bool) \<Rightarrow> (js_text \<Rightarrow> bool) \<Rightarrow> bool" where
  "text_disk d I W \<longleftrightarrow>
     (\<forall>fs p c. I fs \<longrightarrow> reads d fs p = Inr c \<longrightarrow>
        (\<exists>r. k_realpath (disk_kernel d fs) p = Inr r \<and>
             (\<forall>q. k_realpath (disk_kernel d fs) q = Inr r \<longrightarrow> reads d fs q = Inr c) \<and>
             (\<forall>c'. W r \<longrightarrow> well_formed_text c' \<longrightarrow> (\<exists>fs'. dk_writeFile d p c' fs = (None, fs') \<and> I fs' \<and> disk_kernel d fs' = disk_kernel d fs \<and>
                (\<forall>q. reads d fs' q = (if k_realpath (disk_kernel d fs) q = Inr r then Inr c' else reads d fs q))))))"

lemma text_diskD:
  assumes "text_disk d I W" "I fs" "reads d fs p = Inr c" "k_realpath (disk_kernel d fs) p = Inr r"
  shows "(\<forall>q. k_realpath (disk_kernel d fs) q = Inr r \<longrightarrow> reads d fs q = Inr c) \<and>
         (\<forall>c'. W r \<longrightarrow> well_formed_text c' \<longrightarrow> (\<exists>fs'. dk_writeFile d p c' fs = (None, fs') \<and> I fs' \<and> disk_kernel d fs' = disk_kernel d fs \<and>
                (\<forall>q. reads d fs' q = (if k_realpath (disk_kernel d fs) q = Inr r then Inr c' else reads d fs q))))"
proof -
  from assms(1) [unfolded text_disk_def, rule_format, OF assms(2,3)] show ?thesis
    unfolding assms(4) by (elim exE conjE) simp
qed

lemma text_disk_same:
  assumes "text_disk d I W" "I fs" "reads d fs p = Inr c" "k_realpath (disk_kernel d fs) p = Inr r"
    "k_realpath (disk_kernel d fs) q = Inr r"
  shows "reads d fs q = Inr c"
  using text_diskD [OF assms(1-4)] assms(5) by blast

lemma text_disk_write:
  assumes "text_disk d I W" "I fs" "reads d fs p = Inr c" "k_realpath (disk_kernel d fs) p = Inr r"
    "W r" "well_formed_text c'"
  obtains fs' where "dk_writeFile d p c' fs = (None, fs')" "I fs'" "disk_kernel d fs' = disk_kernel d fs"
    "\<And>q. reads d fs' q = (if k_realpath (disk_kernel d fs) q = Inr r then Inr c' else reads d fs q)"
  using text_diskD [OF assms(1-4), THEN conjunct2, THEN spec, of c'] assms(5,6) by blast

section \<open>The target of a URL\<close>

definition existing_url :: "kernel \<Rightarrow> js_text \<Rightarrow> bool" where
  "existing_url k uri =
     (case k_fileURLToPath k uri of
        None \<Rightarrow> False
      | Some disk \<Rightarrow> rooted disk \<and> BACKSLASH \<notin> set disk \<and>
          (case k_realpath k disk of Inl _ \<Rightarrow> False | Inr r \<Rightarrow> BACKSLASH \<notin> set r))"

lemma existing_urlE:
  assumes "realpath_laws k" "existing_url k uri"
  obtains r where "k_realpath k (uriToDiskPath k uri) = Inr r" "uriToPath k uri = r" "pathIndexKey k uri = r"
    "is_identity k r" "k_realpath k r = Inr r" "r \<noteq> []"
proof -
  obtain disk r where disk: "k_fileURLToPath k uri = Some disk" "rooted disk" "BACKSLASH \<notin> set disk"
    "k_realpath k disk = Inr r" "BACKSLASH \<notin> set r"
    using assms(2) by (auto simp: existing_url_def split: option.splits sum.splits)
  have "normalizeFilePath k disk = r"
    using normalizeFilePath_rooted [OF assms(1) disk(2,3)] kernelRealPath_hit [OF disk(4)] by simp
  moreover note real = realpath_lawsD(2,3) [OF assms(1) disk(4)]
  moreover have "r \<noteq> []" using real(1) by (auto elim: canonicalE simp: abs_path_def)
  ultimately show thesis using disk that [of r] kernelRealPath_hit [OF real(2)]
    by (simp add: uriToDiskPath_def uriToPath_def pathIndexKey_def normalizeEphemeralMapKey_def toPosix_id is_identity_def)
qed

section \<open>The preflight of a text operation\<close>

definition quiet :: "preflight \<Rightarrow> bool" where
  "quiet st = (pf_moves st = [] \<and> pf_tombstones st = [] \<and> pf_ignored st = [])"

lemma record_origin_frame:
  "foldl_throw (record_origin k options content) st origins = Inr st' \<Longrightarrow>
   pf_heap st' = pf_heap st \<and> pf_virtual st' = pf_virtual st \<and> pf_text st' = pf_text st \<and>
   pf_moves st' = pf_moves st \<and> pf_tombstones st' = pf_tombstones st \<and> pf_ignored st' = pf_ignored st"
  by (induction origins arbitrary: st) (fastforce simp: record_origin_def split: sum.splits elim!: bind_okE)+

lemma physical_quiet: "quiet st \<Longrightarrow> p \<noteq> [] \<Longrightarrow> physical k st p = Some p"
  by (cases p) (simp_all add: physical_def resolveVirtualPath_def quiet_def)

lemma stateFor_fresh:
  assumes "quiet st" "is_identity k p" "p \<noteq> []" "jm_get (pf_virtual st) p = None" "stateFor k p st = Inr (r, st')"
  shows "vf_content (vf st' r) = None" "pf_virtual st' = jm_set p r (pf_virtual st)"
    "pf_text st' = pf_text st" "quiet st'"
proof -
  have "\<not> isTombstoned k st p" using assms(1) by (simp add: isTombstoned_def quiet_def)
  moreover have key: "normalizeMapKey k p = p" using identity_forms(1) [OF assms(2)] by (simp add: normalizeMapKey_def)
  ultimately obtain stat where st': "r = length (pf_heap st)"
    "st' = st\<lparr>pf_heap := pf_heap st @ [\<lparr>vf_exists = (stat \<noteq> None), vf_directory = (stat = Some IsDirectory), vf_content = None\<rparr>],
              pf_virtual := jm_set p (length (pf_heap st)) (pf_virtual st)\<rparr>"
    using assms(4,5) physical_quiet [OF assms(1,3), of k]
    by (auto simp: stateFor_def key Let_def alloc_def split: sum.splits)
  show "vf_content (vf st' r) = None" "pf_virtual st' = jm_set p r (pf_virtual st)"
    "pf_text st' = pf_text st" "quiet st'"
    using assms(1) by (simp_all add: st' vf_def quiet_def)
qed

lemma contentFor_fresh:
  assumes "quiet st" "p \<noteq> []" "vf_content (vf st r) = None" "contentFor env options p r st = Inr (content, st')"
  shows "en_readFile env p = Inr content" "pf_virtual st' = pf_virtual st" "pf_text st' = pf_text st" "quiet st'"
  using assms physical_quiet [OF assms(1,2), of "en_kernel env"]
  by (auto simp: contentFor_def set_vf_def quiet_def Let_def split: if_splits sum.splits)

lemma preflight_text_fresh:
  assumes "realpath_laws (en_kernel env)" "existing_url (en_kernel env) (pe_uri p)" "quiet st"
    and "jm_get (pf_virtual st) (pathIndexKey (en_kernel env) (pe_uri p)) = None"
    and "preflight_text env base options i p st = Inr st'"
  shows "quiet st'" "jm_keys (pf_virtual st') = jm_keys (pf_virtual st) @ [pathIndexKey (en_kernel env) (pe_uri p)]"
    "\<exists>content es updated. en_readFile env (pathIndexKey (en_kernel env) (pe_uri p)) = Inr content \<and>
       normalizeTextEditsForContent (pathIndexKey (en_kernel env)) content (pe_edits p) (encoding_of options) = Inr es \<and>
       applyTextEditsToString (pathIndexKey (en_kernel env)) content es UTF16 = Inr updated \<and>
       pf_text st' = jm_set i es (pf_text st)"
proof -
  let ?k = "en_kernel env"
  obtain key where key: "uriToPath ?k (pe_uri p) = key" "pathIndexKey ?k (pe_uri p) = key" "is_identity ?k key" "key \<noteq> []"
    by (rule existing_urlE [OF assms(1,2)]) blast
  from assms(5) [unfolded preflight_text_def Let_def]
  obtain filePath r st1 content st2 es st3 updated where
    run: "confine env base (pe_uri p) = Inr filePath" "stateFor ?k filePath st = Inr (r, st1)"
      "contentFor env options filePath r st1 = Inr (content, st2)" "normalize_edits ?k options content (pe_edits p) = Inr es"
      "foldl_throw (record_origin ?k options content) (st2\<lparr>pf_text := jm_set i es (pf_text st2)\<rparr>) (pe_origins p) = Inr st3"
      "lift_error BadEdits (applyTextEditsToString (pathIndexKey ?k) content es UTF16) = Inr updated"
      "st' = set_vf r ((vf st3 r)\<lparr>vf_content := Some updated\<rparr>) st3"
    by (auto elim!: bind_okE)
  have path: "filePath = key" using confineD [OF run(1)] key(1) by simp
  note fresh = stateFor_fresh [OF assms(3) key(3,4) _ run(2) [unfolded path]]
  have none: "jm_get (pf_virtual st) key = None" using assms(4) key(2) by simp
  note s1 = fresh [OF none]
  note s2 = contentFor_fresh [OF s1(4) key(4) s1(1) run(3) [unfolded path]]
  note s3 = record_origin_frame [OF run(5)]
  show "quiet st'" using s2(4) s3 by (simp add: run(7) set_vf_def quiet_def)
  have "key \<notin> set (jm_keys (pf_virtual st))" using none by (simp add: map_of_eq_None_iff)
  then show "jm_keys (pf_virtual st') = jm_keys (pf_virtual st) @ [pathIndexKey ?k (pe_uri p)]"
    using s1(2) s2(2) s3 key(2) by (simp add: run(7) set_vf_def jm_set_notin)
  have "normalizeTextEditsForContent (pathIndexKey ?k) content (pe_edits p) (encoding_of options) = Inr es"
    "applyTextEditsToString (pathIndexKey ?k) content es UTF16 = Inr updated"
    using run(4,6) by (auto simp: normalize_edits_def lift_error_def split: sum.splits)
  then show "\<exists>content es updated. en_readFile env (pathIndexKey ?k (pe_uri p)) = Inr content \<and>
       normalizeTextEditsForContent (pathIndexKey ?k) content (pe_edits p) (encoding_of options) = Inr es \<and>
       applyTextEditsToString (pathIndexKey ?k) content es UTF16 = Inr updated \<and>
       pf_text st' = jm_set i es (pf_text st)"
    using s1(3) s2(1,3) s3 key(2) by (auto simp: run(7) set_vf_def)
qed

section \<open>The preflight of a text plan\<close>

definition text_ops :: "(nat \<times> pending_edits) list \<Rightarrow> (nat \<times> plan_op) list" where
  "text_ops ips = map (\<lambda>(i, p). (i, TextOp p)) ips"

text \<open>What the preflight has recorded of a text operation.\<close>

definition prepared_text :: "edit_env \<Rightarrow> apply_options \<Rightarrow> preflight \<Rightarrow> nat \<Rightarrow> pending_edits \<Rightarrow> bool" where
  "prepared_text env options prepared i p \<longleftrightarrow>
     (\<exists>content es updated. en_readFile env (pathIndexKey (en_kernel env) (pe_uri p)) = Inr content \<and>
        normalizeTextEditsForContent (pathIndexKey (en_kernel env)) content (pe_edits p) (encoding_of options) = Inr es \<and>
        applyTextEditsToString (pathIndexKey (en_kernel env)) content es UTF16 = Inr updated \<and>
        jm_get (pf_text prepared) i = Some es)"

lemma preflight_texts:
  assumes "realpath_laws (en_kernel env)" "\<And>i p. (i, p) \<in> set ips \<Longrightarrow> existing_url (en_kernel env) (pe_uri p)"
    and "distinct (map fst ips)" "quiet st"
    and "distinct (jm_keys (pf_virtual st) @ map (\<lambda>(i, p). pathIndexKey (en_kernel env) (pe_uri p)) ips)"
    and "foldl_throw (preflight_op env base options) st (text_ops ips) = Inr st'"
  shows "quiet st' \<and> (\<forall>(i, p) \<in> set ips. prepared_text env options st' i p) \<and>
         (\<forall>i. i \<notin> fst ` set ips \<longrightarrow> jm_get (pf_text st') i = jm_get (pf_text st) i)"
  using assms(2-)
proof (induction ips arbitrary: st)
  case (Cons x ips)
  obtain i p where x: "x = (i, p)" by (cases x)
  obtain st1 where step: "preflight_text env base options i p st = Inr st1"
    and rest: "foldl_throw (preflight_op env base options) st1 (text_ops ips) = Inr st'"
    using Cons.prems(5) by (auto simp: text_ops_def x split: sum.splits)
  have none: "jm_get (pf_virtual st) (pathIndexKey (en_kernel env) (pe_uri p)) = None"
    using Cons.prems(4) by (auto simp: x map_of_eq_None_iff)
  have "existing_url (en_kernel env) (pe_uri p)" by (rule Cons.prems(1) [of i]) (simp add: x)
  note fresh = preflight_text_fresh [OF assms(1) this Cons.prems(3) none step]
  have "distinct (jm_keys (pf_virtual st1) @ map (\<lambda>(i, p). pathIndexKey (en_kernel env) (pe_uri p)) ips)"
    using Cons.prems(4) by (simp add: fresh(2) x)
  then have IH: "quiet st' \<and> (\<forall>(i, p) \<in> set ips. prepared_text env options st' i p) \<and>
      (\<forall>i. i \<notin> fst ` set ips \<longrightarrow> jm_get (pf_text st') i = jm_get (pf_text st1) i)"
  proof (rule Cons.IH [OF _ _ fresh(1) _ rest, rotated 2])
    show "existing_url (en_kernel env) (pe_uri p)" if "(i, p) \<in> set ips" for i p
      by (rule Cons.prems(1) [of i]) (simp add: that)
    show "distinct (map fst ips)" using Cons.prems(2) by simp
  qed
  moreover have "i \<notin> fst ` set ips" using Cons.prems(2) by (simp add: x)
  ultimately have "jm_get (pf_text st') i = jm_get (pf_text st1) i" by blast
  with fresh(3) have "prepared_text env options st' i p" unfolding prepared_text_def by (auto simp: jm_get_set)
  with IH fresh(3) show ?case by (auto simp: x jm_get_set)
qed (simp add: text_ops_def)

section \<open>The plan of a text edit\<close>

fun is_text_change :: "document_change \<Rightarrow> bool" where
  "is_text_change (TextChange _) = True"
| "is_text_change (ResourceChange _) = False"

text \<open>Each path has one operation, and no operation is pending twice.\<close>

definition text_planner :: "(js_text \<Rightarrow> js_text) \<Rightarrow> planner \<Rightarrow> bool" where
  "text_planner pathKey st \<longleftrightarrow>
     plan_inv pathKey st \<and>
     (\<exists>ps. pl_ops st = map TextOp ps \<and> distinct (map (pathKey \<circ> pe_uri) ps) \<and>
           set (map (pathKey \<circ> pe_uri) ps) \<inter> set (jm_keys (pl_pending st)) = {})"

lemma queue_ops: "queue pathKey uri edits version origin st = Inr st' \<Longrightarrow> pl_ops st' = pl_ops st"
  by (auto simp: queue_def Let_def split: option.splits if_splits)

lemma text_planner_start:
  "plan_inv pathKey st \<Longrightarrow> pl_ops st = [] \<Longrightarrow> text_planner pathKey st"
  by (auto simp: text_planner_def intro: exI [of _ "[]"])

lemma flushUri_text:
  assumes "text_planner pathKey st" shows "text_planner pathKey (flushUri pathKey uri st)"
proof (cases "jm_get (pl_pending st) (pathKey uri)")
  case (Some item)
  obtain ps where ps: "plan_inv pathKey st" "pl_ops st = map TextOp ps" "distinct (map (pathKey \<circ> pe_uri) ps)"
    "set (map (pathKey \<circ> pe_uri) ps) \<inter> set (jm_keys (pl_pending st)) = {}"
    using assms unfolding text_planner_def by blast
  have key: "pathKey (pe_uri item) = pathKey uri" by (rule plan_invD(2) [OF ps(1) Some])
  have "pathKey uri \<in> set (jm_keys (pl_pending st))" by (rule jm_get_key [OF Some])
  then have new: "pathKey uri \<notin> set (map (pathKey \<circ> pe_uri) ps)" using ps(4) by blast
  have flush: "pl_ops (flushUri pathKey uri st) = map TextOp (ps @ [item])"
    "jm_keys (pl_pending (flushUri pathKey uri st)) = filter (\<lambda>k. k \<noteq> pathKey uri) (jm_keys (pl_pending st))"
    using Some ps(2) by (simp_all add: flushUri_def Let_def jm_keys_delete)
  have "distinct (map (pathKey \<circ> pe_uri) (ps @ [item]))" using ps(3) new by (simp add: key)
  moreover have "set (map (pathKey \<circ> pe_uri) (ps @ [item])) \<inter> set (jm_keys (pl_pending (flushUri pathKey uri st))) = {}"
    unfolding flush(2) using ps(4) by (auto simp: key)
  ultimately show ?thesis
    unfolding text_planner_def using flushUri_inv [OF ps(1)] flush(1) by blast
qed (use assms in \<open>simp add: flushUri_def\<close>)

lemma plan_text_only:
  assumes "list_all is_text_change (we_documentChanges edit)" "plan_parsed pathKey False edit = Inr planned"
  obtains ps where "planned = map TextOp ps" "distinct (map (pathKey \<circ> pe_uri) ps)"
proof -
  obtain st1 st2 where run: "foldl_throw (plan_changes_entry pathKey False) empty_planner (we_changes edit) = Inr st1"
    "foldl_throw (plan_document_change pathKey False) st1
       (zip [0..<length (we_documentChanges edit)] (we_documentChanges edit)) = Inr st2"
    "planned = pl_ops (flush_rest pathKey st2)"
    using assms(2) by (auto simp: plan_parsed_def split: sum.splits)
  let ?Q = "\<lambda>st. plan_inv pathKey st \<and> pl_ops st = []"
  have "?Q st1"
  proof (rule foldl_throw_inv [OF run(1)])
    show "?Q empty_planner" by (simp add: plan_inv_empty) (simp add: empty_planner_def)
  qed (auto simp: plan_changes_entry_def queue_ops intro: queue_inv)
  then have "?Q st2"
  proof (rule foldl_throw_inv [OF run(2)])
    fix a x b
    assume "x \<in> set (zip [0..<length (we_documentChanges edit)] (we_documentChanges edit))" "?Q a"
      and step: "plan_document_change pathKey False a x = Inr b"
    then have "is_text_change (snd x)" using assms(1) by (metis in_set_zipE list_all_iff prod.collapse)
    then obtain c where "snd x = TextChange c" by (cases "snd x") auto
    with step \<open>?Q a\<close> show "?Q b" by (auto simp: plan_document_change_def queue_ops intro: queue_inv)
  qed
  then have "text_planner pathKey st2" by (simp add: text_planner_start)
  then have "text_planner pathKey (foldl (\<lambda>s item. flushUri pathKey (pe_uri item) s) st2 items)" for items
    by (induction items arbitrary: st2) (simp_all add: flushUri_text)
  then show thesis using that unfolding run(3) flush_rest_def text_planner_def by blast
qed

section \<open>The commit of a text plan\<close>

lemma apply_no_edits: "applyTextEditsToString pathKey content [] enc = Inr updated \<Longrightarrow> updated = content"
  by (auto simp: applyTextEditsToString_def normalizeTextEditsForContent_def validateTextEdits_def
      sortEditsForApplication_def js_sort_def Let_def split: sum.splits)

lemma commit_text_step:
  assumes "text_disk d I W" "I (ap_fs st)" "disk_kernel d (ap_fs st) = k"
    and "reads d (ap_fs st) (uriToDiskPath k uri) = Inr content" "k_realpath k (uriToDiskPath k uri) = Inr r"
    and "applyTextEditsToString (pathIndexKey k) content es UTF16 = Inr updated"
    and "W r" "well_formed_text updated"
  obtains st' where "commit_text d cwd es uri st = (None, st')" "I (ap_fs st')" "disk_kernel d (ap_fs st') = k"
    "\<And>q. reads d (ap_fs st') q = (if k_realpath k q = Inr r then Inr updated else reads d (ap_fs st) q)"
proof (cases "es = []")
  case True
  have "reads d (ap_fs st) q = Inr content" if "k_realpath k q = Inr r" for q
    using text_disk_same [OF assms(1,2,4)] assms(3,5) that by blast
  moreover have "updated = content" using assms(6) True apply_no_edits by blast
  ultimately show thesis using assms(2,3) True that [of "skipOperation 0 st"]
    by (auto simp: commit_text_def skipOperation_def Let_def)
next
  case False
  obtain fs' where fs': "dk_writeFile d (uriToDiskPath k uri) updated (ap_fs st) = (None, fs')" "I fs'"
    "disk_kernel d fs' = k" "\<And>q. reads d fs' q = (if k_realpath k q = Inr r then Inr updated else reads d (ap_fs st) q)"
    using text_disk_write [OF assms(1,2,4), of r updated] assms(3,5,7,8) by metis
  have "\<exists>st'. commit_text d cwd es uri st = (None, st') \<and> ap_fs st' = fs'"
    using False assms(3,4,6) fs'(1)
    by (simp add: commit_text_def kernel_now_def on_disk_def Let_def report_def markApplied_def)
  with fs' that show thesis by metis
qed

text \<open>What the commit is about to write for an operation.\<close>

definition will_write :: "'fs disk \<Rightarrow> kernel \<Rightarrow> preflight \<Rightarrow> 'fs \<Rightarrow> nat \<Rightarrow> pending_edits \<Rightarrow> js_text \<Rightarrow> bool" where
  "will_write d k prepared fs i p updated \<longleftrightarrow>
     (\<exists>content es. reads d fs (uriToDiskPath k (pe_uri p)) = Inr content \<and> jm_get (pf_text prepared) i = Some es \<and>
        applyTextEditsToString (pathIndexKey k) content es UTF16 = Inr updated)"

lemma commit_texts:
  assumes "text_disk d I W" "pf_ignored prepared = []" "I (ap_fs st)" "disk_kernel d (ap_fs st) = k"
    and "\<forall>(i, p) \<in> set ips. k_realpath k (uriToDiskPath k (pe_uri p)) = Inr (pathIndexKey k (pe_uri p))"
    and "\<forall>(i, p) \<in> set ips. will_write d k prepared (ap_fs st) i p (result p)"
    and "distinct (map (\<lambda>(i, p). pathIndexKey k (pe_uri p)) ips)"
    and "\<forall>(i, p) \<in> set ips. W (pathIndexKey k (pe_uri p)) \<and> well_formed_text (result p)"
  shows "\<exists>st'. commit_all d cwd prepared (text_ops ips) st = (None, st') \<and>
           (\<forall>(i, p) \<in> set ips. reads d (ap_fs st') (uriToDiskPath k (pe_uri p)) = Inr (result p)) \<and>
           (\<forall>q. (\<forall>(i, p) \<in> set ips. k_realpath k q \<noteq> Inr (pathIndexKey k (pe_uri p))) \<longrightarrow>
                reads d (ap_fs st') q = reads d (ap_fs st) q)"
  using assms(3-)
proof (induction ips arbitrary: st)
  case Nil
  then show ?case by (simp add: text_ops_def)
next
  case (Cons x ips)
  obtain i p where x: "x = (i, p)" by (cases x)
  let ?key = "pathIndexKey k (pe_uri p)" and ?disk = "uriToDiskPath k (pe_uri p)"
  have "will_write d k prepared (ap_fs st) i p (result p)" using Cons.prems(4) by (simp add: x)
  then obtain content es where es: "reads d (ap_fs st) ?disk = Inr content" "jm_get (pf_text prepared) i = Some es"
    "applyTextEditsToString (pathIndexKey k) content es UTF16 = Inr (result p)" unfolding will_write_def by blast
  have real: "k_realpath k ?disk = Inr ?key" using Cons.prems(3) by (simp add: x)
  have can: "W ?key" "well_formed_text (result p)" using Cons.prems(6) by (simp_all add: x)
  obtain st1 where st1: "commit_text d cwd es (pe_uri p) st = (None, st1)" "I (ap_fs st1)" "disk_kernel d (ap_fs st1) = k"
    "\<And>q. reads d (ap_fs st1) q = (if k_realpath k q = Inr ?key then Inr (result p) else reads d (ap_fs st) q)"
    by (rule commit_text_step [OF assms(1) Cons.prems(1,2) es(1) real es(3) can]) blast
  have other: "pathIndexKey k (pe_uri p') \<noteq> ?key" if "(i', p') \<in> set ips" for i' p'
    using Cons.prems(5) that by (force simp: x)
  have kept: "\<forall>(i, p) \<in> set ips. k_realpath k (uriToDiskPath k (pe_uri p)) = Inr (pathIndexKey k (pe_uri p))"
    using Cons.prems(3) by simp
  have will: "\<forall>(i, p) \<in> set ips. will_write d k prepared (ap_fs st1) i p (result p)"
  proof (rule ballI, clarify)
    fix i' p' assume m: "(i', p') \<in> set ips"
    have "will_write d k prepared (ap_fs st) i' p' (result p')" using Cons.prems(4) m by auto
    moreover have "k_realpath k (uriToDiskPath k (pe_uri p')) \<noteq> Inr ?key" using kept m other [OF m] by auto
    ultimately show "will_write d k prepared (ap_fs st1) i' p' (result p')" by (simp add: will_write_def st1(4))
  qed
  have "distinct (map (\<lambda>(i, p). pathIndexKey k (pe_uri p)) ips)" using Cons.prems(5) by simp
  moreover have "\<forall>(i, p) \<in> set ips. W (pathIndexKey k (pe_uri p)) \<and> well_formed_text (result p)"
    using Cons.prems(6) by simp
  ultimately obtain st' where IH: "commit_all d cwd prepared (text_ops ips) st1 = (None, st')"
    "\<forall>(i, p) \<in> set ips. reads d (ap_fs st') (uriToDiskPath k (pe_uri p)) = Inr (result p)"
    "\<forall>q. (\<forall>(i, p) \<in> set ips. k_realpath k q \<noteq> Inr (pathIndexKey k (pe_uri p))) \<longrightarrow>
         reads d (ap_fs st') q = reads d (ap_fs st1) q" using Cons.IH [OF st1(2,3) kept will] by blast
  have "\<forall>(i, p') \<in> set ips. k_realpath k ?disk \<noteq> Inr (pathIndexKey k (pe_uri p'))"
    unfolding real using other by force
  with IH(3) have "reads d (ap_fs st') ?disk = Inr (result p)" using st1(4) real by simp
  with IH st1 es(2) assms(2) show ?case
    by (intro exI [of _ st']) (auto simp: x text_ops_def commit_op_def)
qed

section \<open>From the wire to the disk\<close>

definition text_result :: "edit_env \<Rightarrow> apply_options \<Rightarrow> pending_edits \<Rightarrow> js_text \<Rightarrow> edit_error + js_text" where
  "text_result env options p content =
     applyTextEditsToString (pathIndexKey (en_kernel env)) content (pe_edits p) (encoding_of options)"

text \<open>What the preflight of a text plan leaves for the commit.\<close>

lemma text_plan_prepared:
  assumes "text_disk d I W" "I fs" "realpath_laws (disk_kernel d fs)"
    and "\<And>p. p \<in> set ps \<Longrightarrow> existing_url (disk_kernel d fs) (pe_uri p)"
    and "distinct (map (pathIndexKey (disk_kernel d fs) \<circ> pe_uri) ps)"
    and "preflightWorkspaceEdit (dk_env d fs) (map TextOp ps) cwd options = Inr prepared"
    and "\<forall>p content. p \<in> set ps \<longrightarrow>
           reads d fs (uriToDiskPath (disk_kernel d fs) (pe_uri p)) = Inr content \<longrightarrow> content = [] \<or> last content \<noteq> CR"
    and "(i, p) \<in> set (zip [0..<length ps] ps)"
  shows "pf_ignored prepared = [] \<and>
         (\<exists>content updated. reads d fs (uriToDiskPath (disk_kernel d fs) (pe_uri p)) = Inr content \<and>
            text_result (dk_env d fs) options p content = Inr updated \<and>
            will_write d (disk_kernel d fs) prepared fs i p updated)"
proof -
  let ?k = "disk_kernel d fs" and ?env = "dk_env d fs" and ?ips = "zip [0..<length ps] ps"
  have member: "p \<in> set ps" if "(i, p) \<in> set ?ips" for i p using that by (rule set_zip_rightD)
  obtain base where run: "foldl_throw (preflight_op ?env base options) empty_preflight (text_ops ?ips) = Inr prepared"
    using assms(6) unfolding preflightWorkspaceEdit_def by (rule bind_okE) (simp add: text_ops_def zip_map2)
  have keys: "map (\<lambda>(i, p). pathIndexKey ?k (pe_uri p)) ?ips = map (pathIndexKey ?k \<circ> pe_uri) ps"
    by (rule nth_equalityI) simp_all
  have all: "quiet prepared \<and> (\<forall>(i, p) \<in> set ?ips. prepared_text ?env options prepared i p) \<and>
      (\<forall>i. i \<notin> fst ` set ?ips \<longrightarrow> jm_get (pf_text prepared) i = jm_get (pf_text empty_preflight) i)"
    by (rule preflight_texts [OF assms(3) assms(4) [OF member] _ _ _ run])
       (use assms(5) in \<open>simp_all add: keys quiet_def empty_preflight_def\<close>)
  then obtain content es updated where es: "reads d fs (pathIndexKey ?k (pe_uri p)) = Inr content"
    "normalizeTextEditsForContent (pathIndexKey ?k) content (pe_edits p) (encoding_of options) = Inr es"
    "applyTextEditsToString (pathIndexKey ?k) content es UTF16 = Inr updated" "jm_get (pf_text prepared) i = Some es"
    using assms(8) unfolding prepared_text_def by blast
  have "k_realpath ?k (uriToDiskPath ?k (pe_uri p)) = Inr (pathIndexKey ?k (pe_uri p))"
    "k_realpath ?k (pathIndexKey ?k (pe_uri p)) = Inr (pathIndexKey ?k (pe_uri p))"
    by (rule existing_urlE [OF assms(3) assms(4) [OF member [OF assms(8)]]], simp)+
  from text_disk_same [OF assms(1,2) es(1) this(2,1)]
  have same: "reads d fs (uriToDiskPath ?k (pe_uri p)) = Inr content" .
  from normalized_again [OF assms(7) [rule_format, OF member [OF assms(8)] same] es(2)] es same all show ?thesis
    by (auto simp: text_result_def will_write_def applyTextEditsToString_def quiet_def)
qed

text \<open>The commit of a text plan that passed the preflight.\<close>

lemma committed_text_plan:
  assumes "text_disk d I W" "I fs" "realpath_laws (disk_kernel d fs)"
    and "\<forall>p \<in> set ps. existing_url (disk_kernel d fs) (pe_uri p)"
    and "distinct (map (pathIndexKey (disk_kernel d fs) \<circ> pe_uri) ps)"
    and "preflightWorkspaceEdit (dk_env d fs) (map TextOp ps) cwd options = Inr prepared"
    and "\<forall>p content. p \<in> set ps \<longrightarrow>
           reads d fs (uriToDiskPath (disk_kernel d fs) (pe_uri p)) = Inr content \<longrightarrow> content = [] \<or> last content \<noteq> CR"
    and "\<forall>p \<in> set ps. W (pathIndexKey (disk_kernel d fs) (pe_uri p))"
    and "\<forall>p content updated. p \<in> set ps \<longrightarrow>
           reads d fs (uriToDiskPath (disk_kernel d fs) (pe_uri p)) = Inr content \<longrightarrow>
           text_result (dk_env d fs) options p content = Inr updated \<longrightarrow> well_formed_text updated"
  shows "\<exists>st. commit_all d cwd prepared (zip [0..<length ps] (map TextOp ps)) (start_applying fs) = (None, st) \<and>
    (\<forall>p \<in> set ps. \<exists>content updated. reads d fs (uriToDiskPath (disk_kernel d fs) (pe_uri p)) = Inr content \<and>
       text_result (dk_env d fs) options p content = Inr updated \<and>
       reads d (ap_fs st) (uriToDiskPath (disk_kernel d fs) (pe_uri p)) = Inr updated) \<and>
    (\<forall>q. (\<forall>p. p \<in> set ps \<longrightarrow>
         k_realpath (disk_kernel d fs) q \<noteq> k_realpath (disk_kernel d fs) (uriToDiskPath (disk_kernel d fs) (pe_uri p))) \<longrightarrow>
       reads d (ap_fs st) q = reads d fs q)"
proof -
  let ?k = "disk_kernel d fs" and ?env = "dk_env d fs"
  let ?ips = "zip [0..<length ps] ps"
  have member: "p \<in> set ps" if "(i, p) \<in> set ?ips" for i p using that by (rule set_zip_rightD)
  have exist: "existing_url ?k (pe_uri p)" if "p \<in> set ps" for p
    using assms(4) that by blast
  have target: "k_realpath ?k (uriToDiskPath ?k (pe_uri p)) = Inr (pathIndexKey ?k (pe_uri p))" if "p \<in> set ps" for p
    by (rule existing_urlE [OF assms(3) exist [OF that]]) simp
  define result where "result p = projr (text_result ?env options p (projr (reads d fs (uriToDiskPath ?k (pe_uri p)))))" for p
  have prep: "pf_ignored prepared = [] \<and> will_write d ?k prepared fs i p (result p) \<and>
      (\<exists>content. reads d fs (uriToDiskPath ?k (pe_uri p)) = Inr content \<and> text_result ?env options p content = Inr (result p))"
    if "(i, p) \<in> set ?ips" for i p
    using text_plan_prepared [OF assms(1-3) exist assms(5,6,7) that] by (auto simp: result_def)
  have indexed: "zip [0..<length ps] (map TextOp ps) = text_ops ?ips" by (simp add: text_ops_def zip_map2)
  have "map (\<lambda>(i, p). pathIndexKey ?k (pe_uri p)) ?ips = map (pathIndexKey ?k \<circ> pe_uri) ps"
    by (rule nth_equalityI) simp_all
  with assms(5) have distinct: "distinct (map (\<lambda>(i, p). pathIndexKey ?k (pe_uri p)) ?ips)" by simp
  have ignored: "pf_ignored prepared = []"
  proof (cases ps)
    case Nil
    then show ?thesis using assms(6)
      by (auto simp: preflightWorkspaceEdit_def empty_preflight_def elim!: bind_okE)
  next
    case (Cons p rest)
    then show ?thesis using prep [of 0 p] by (auto simp: upt_rec)
  qed
  have start: "ap_fs (start_applying fs) = fs" by (simp add: start_applying_def)
  have real: "\<forall>(i, p) \<in> set ?ips. k_realpath ?k (uriToDiskPath ?k (pe_uri p)) = Inr (pathIndexKey ?k (pe_uri p))"
    using target member by blast
  have will: "\<forall>(i, p) \<in> set ?ips. will_write d ?k prepared fs i p (result p)" using prep by blast
  have can: "\<forall>(i, p) \<in> set ?ips. W (pathIndexKey ?k (pe_uri p)) \<and> well_formed_text (result p)"
    using prep member assms(8,9) by blast
  obtain st where st: "commit_all d cwd prepared (text_ops ?ips) (start_applying fs) = (None, st)"
    "\<forall>(i, p) \<in> set ?ips. reads d (ap_fs st) (uriToDiskPath ?k (pe_uri p)) = Inr (result p)"
    "\<forall>q. (\<forall>(i, p) \<in> set ?ips. k_realpath ?k q \<noteq> Inr (pathIndexKey ?k (pe_uri p))) \<longrightarrow> reads d (ap_fs st) q = reads d fs q"
    using commit_texts [OF assms(1) ignored, of "start_applying fs", unfolded start, OF assms(2) refl real will distinct can, of cwd]
    by (elim exE conjE) (rule that)
  have indexes: "\<exists>i. (i, p) \<in> set ?ips" if "p \<in> set ps" for p
    using that by (force simp: in_set_conv_nth set_zip)
  have written: "\<exists>content updated. reads d fs (uriToDiskPath ?k (pe_uri p)) = Inr content \<and>
      text_result ?env options p content = Inr updated \<and> reads d (ap_fs st) (uriToDiskPath ?k (pe_uri p)) = Inr updated"
    if "p \<in> set ps" for p
    using indexes [OF that] prep st(2) by blast
  have untouched: "reads d (ap_fs st) q = reads d fs q"
    if "\<forall>p. p \<in> set ps \<longrightarrow> k_realpath ?k q \<noteq> k_realpath ?k (uriToDiskPath ?k (pe_uri p))" for q
  proof (rule st(3) [rule_format], clarify)
    fix i p assume "(i, p) \<in> set ?ips" "k_realpath ?k q = Inr (pathIndexKey ?k (pe_uri p))"
    with that target [of p] member [of i p] show False by metis
  qed
  show ?thesis unfolding indexed using st(1) written untouched by blast
qed

text \<open>
  C7: a text edit reaches the disk as a whole. Take a workspace edit without resource operations
  that passes the preflight, on a disk where the targets can be written and what is written
  to them is what they hold next: the targets are existing files, named by rooted file URLs,
  without a backslash in the path or the real path, that are writable and whose text does
  not end in a carriage return, and the text the edit makes of each holds no lone surrogate.
  Then it is applied to the end; every file of the plan holds the text its edits (in the
  server's encoding) make of the text it held, and every other file holds what it held. When a
  write fails the edit stops half way, as the code documents; this states nothing of it.
\<close>

theorem text_edit_reaches_disk:
  assumes "text_disk d I W" "I fs" "realpath_laws (disk_kernel d fs)"
    and "parseWorkspaceEdit edit = Inr parsed" "list_all is_text_change (we_documentChanges parsed)"
    and "planWorkspaceEdit (pathIndexKey (disk_kernel d fs)) False edit = Inr planned"
    and "preflightWorkspaceEdit (dk_env d fs) planned cwd options = Inr prepared"
    and "list_all (\<lambda>oper. list_all (existing_url (disk_kernel d fs)) (op_uris oper)) planned"
    and "\<forall>p content. TextOp p \<in> set planned \<longrightarrow>
           reads d fs (uriToDiskPath (disk_kernel d fs) (pe_uri p)) = Inr content \<longrightarrow> content = [] \<or> last content \<noteq> CR"
    and "\<forall>p r. TextOp p \<in> set planned \<longrightarrow>
           k_realpath (disk_kernel d fs) (uriToDiskPath (disk_kernel d fs) (pe_uri p)) = Inr r \<longrightarrow> W r"
    and "\<forall>p content updated. TextOp p \<in> set planned \<longrightarrow>
           reads d fs (uriToDiskPath (disk_kernel d fs) (pe_uri p)) = Inr content \<longrightarrow>
           text_result (dk_env d fs) options p content = Inr updated \<longrightarrow> well_formed_text updated"
  shows "(\<exists>r. out_answer (applyWorkspaceEdit d edit cwd options observe fs) = AppliedAll r) \<and>
         (\<forall>p. TextOp p \<in> set planned \<longrightarrow>
            (\<exists>content updated. reads d fs (uriToDiskPath (disk_kernel d fs) (pe_uri p)) = Inr content \<and>
               text_result (dk_env d fs) options p content = Inr updated \<and>
               reads d (out_fs (applyWorkspaceEdit d edit cwd options observe fs))
                 (uriToDiskPath (disk_kernel d fs) (pe_uri p)) = Inr updated)) \<and>
         (\<forall>q. (\<forall>p. TextOp p \<in> set planned \<longrightarrow>
                 k_realpath (disk_kernel d fs) q \<noteq> k_realpath (disk_kernel d fs) (uriToDiskPath (disk_kernel d fs) (pe_uri p))) \<longrightarrow>
            reads d (out_fs (applyWorkspaceEdit d edit cwd options observe fs)) q = reads d fs q)"
proof -
  let ?k = "disk_kernel d fs"
  have "plan_parsed (pathIndexKey ?k) False parsed = Inr planned" using assms(4,6) by (simp add: planWorkspaceEdit_def)
  then obtain ps where ps: "planned = map TextOp ps" "distinct (map (pathIndexKey ?k \<circ> pe_uri) ps)"
    by (rule plan_text_only [OF assms(5)])
  have exist: "\<forall>p \<in> set ps. existing_url ?k (pe_uri p)"
    using assms(8) by (auto simp: ps(1) list_all_iff)
  have cr: "\<forall>p content. p \<in> set ps \<longrightarrow>
      reads d fs (uriToDiskPath ?k (pe_uri p)) = Inr content \<longrightarrow> content = [] \<or> last content \<noteq> CR"
    using assms(9) by (auto simp: ps(1))
  have writable: "\<forall>p \<in> set ps. W (pathIndexKey ?k (pe_uri p))"
  proof
    fix p assume p: "p \<in> set ps"
    have "k_realpath ?k (uriToDiskPath ?k (pe_uri p)) = Inr (pathIndexKey ?k (pe_uri p))"
      by (rule existing_urlE [OF assms(3) exist [rule_format, OF p]]) simp
    with assms(10) p show "W (pathIndexKey ?k (pe_uri p))" by (auto simp: ps(1))
  qed
  have encoded: "\<forall>p content updated. p \<in> set ps \<longrightarrow> reads d fs (uriToDiskPath ?k (pe_uri p)) = Inr content \<longrightarrow>
      text_result (dk_env d fs) options p content = Inr updated \<longrightarrow> well_formed_text updated"
    using assms(11) by (auto simp: ps(1))
  obtain st where st: "commit_all d cwd prepared (zip [0..<length planned] planned) (start_applying fs) = (None, st)"
    and written: "\<forall>p \<in> set ps. \<exists>content updated. reads d fs (uriToDiskPath ?k (pe_uri p)) = Inr content \<and>
       text_result (dk_env d fs) options p content = Inr updated \<and> reads d (ap_fs st) (uriToDiskPath ?k (pe_uri p)) = Inr updated"
    and untouched: "\<forall>q. (\<forall>p. p \<in> set ps \<longrightarrow> k_realpath ?k q \<noteq> k_realpath ?k (uriToDiskPath ?k (pe_uri p))) \<longrightarrow>
       reads d (ap_fs st) q = reads d fs q"
    using committed_text_plan [OF assms(1-3) exist ps(2) assms(7) [unfolded ps(1)] cr writable encoded]
    unfolding ps(1) length_map by blast
  note out = apply_accepted [OF assms(6,7) st, of observe]
  show ?thesis unfolding out using written untouched by (auto simp: ps(1) Let_def)
qed

end
