(* ===== verification/Edit_Merge.thy ===== *)
theory Edit_Merge
  imports Edit_Wire
begin

text \<open>
  Merging the workspace edits of several servers, \<open>flattenWorkspaceTextEdits\<close> and
  \<open>mergeWorkspaceTextEditsByPriority\<close> of \<open>src/clients/lsp/edits.ts\<close>: the text edits of each
  file are kept in the order of the servers, exact duplicates collapse, and an edit that
  overlaps one already kept is dropped and counted.
\<close>

section \<open>One edit, by file\<close>

definition push_edits ::
  "(js_text \<Rightarrow> js_text) \<Rightarrow> (js_text, js_text \<times> text_edit list) jmap \<Rightarrow> js_text \<times> text_edit list \<Rightarrow>
   (js_text, js_text \<times> text_edit list) jmap" where
  "push_edits pathKey buckets entry =
     (if snd entry = [] then buckets
      else
        let key = pathKey (fst entry)
        in case jm_get buckets key of
             Some (uri, edits) \<Rightarrow> jm_set key (uri, edits @ snd entry) buckets
           | None \<Rightarrow> jm_set key entry buckets)"

definition text_changes :: "document_change list \<Rightarrow> (js_text \<times> text_edit list) list" where
  "text_changes docs =
     List.map_filter (\<lambda>d. case d of TextChange doc \<Rightarrow> Some (td_uri doc, td_edits doc) | ResourceChange _ \<Rightarrow> None) docs"

definition flattenWorkspaceTextEdits ::
  "(js_text \<Rightarrow> js_text) \<Rightarrow> wire \<Rightarrow> parse_error + (js_text \<times> text_edit list) list" where
  "flattenWorkspaceTextEdits pathKey edit =
     (case parseWorkspaceEdit edit of
        Inl err \<Rightarrow> Inl err
      | Inr parsed \<Rightarrow>
          Inr (map snd (foldl (push_edits pathKey) []
                 (we_changes parsed @ text_changes (we_documentChanges parsed)))))"

section \<open>The merge\<close>

record merge_entry =
  me_serverId :: string
  me_clientKey :: "string option"
  me_edit :: "wire option"

record merge_bucket =
  mb_uri :: js_text
  mb_edits :: "text_edit list"
  mb_sourceClientKeys :: "string list"

record edit_merger =
  em_merged :: "(js_text, merge_bucket) jmap"
  em_seenExact :: "js_text set"
  em_droppedConflicts :: nat
  em_inputEditCount :: nat
  em_serverIds :: "string list"

definition empty_merger :: edit_merger where
  "empty_merger = \<lparr>em_merged = [], em_seenExact = {}, em_droppedConflicts = 0, em_inputEditCount = 0,
                   em_serverIds = []\<rparr>"

text \<open>One edit for the bucket at hand.\<close>

definition merge_one ::
  "(js_text \<Rightarrow> js_text) \<Rightarrow> string \<Rightarrow> js_text \<Rightarrow> merge_bucket \<times> edit_merger \<Rightarrow> text_edit \<Rightarrow>
   merge_bucket \<times> edit_merger" where
  "merge_one pathKey clientKey uri st edit =
     (let (bucket, m0) = st;
          m = m0\<lparr>em_inputEditCount := em_inputEditCount m0 + 1\<rparr>;
          exactKey = (if isEmptyRange (te_range edit) then None else Some (textEditKey pathKey uri edit))
      in if exactKey \<noteq> None \<and> the exactKey \<in> em_seenExact m then (bucket, m)
         else if list_ex (\<lambda>existing. rangesOverlap (te_range existing) (te_range edit)) (mb_edits bucket)
         then (bucket, m\<lparr>em_droppedConflicts := em_droppedConflicts m + 1\<rparr>)
         else (bucket\<lparr>mb_edits := mb_edits bucket @ [edit],
                      mb_sourceClientKeys :=
                        (if clientKey \<in> set (mb_sourceClientKeys bucket) then mb_sourceClientKeys bucket
                         else mb_sourceClientKeys bucket @ [clientKey])\<rparr>,
               if exactKey \<noteq> None then m\<lparr>em_seenExact := insert (the exactKey) (em_seenExact m)\<rparr> else m))"

definition merge_file ::
  "(js_text \<Rightarrow> js_text) \<Rightarrow> string \<Rightarrow> edit_merger \<Rightarrow> js_text \<times> text_edit list \<Rightarrow> edit_merger" where
  "merge_file pathKey clientKey m entry =
     (let key = pathKey (fst entry);
          bucket0 = (case jm_get (em_merged m) key of
                       Some b \<Rightarrow> b
                     | None \<Rightarrow> \<lparr>mb_uri = fst entry, mb_edits = [], mb_sourceClientKeys = []\<rparr>);
          (bucket, m') = foldl (merge_one pathKey clientKey (fst entry)) (bucket0, m) (snd entry)
      in if mb_edits bucket \<noteq> [] then m'\<lparr>em_merged := jm_set key bucket (em_merged m')\<rparr> else m')"

definition merge_server ::
  "(js_text \<Rightarrow> js_text) \<Rightarrow> edit_merger \<Rightarrow> merge_entry \<Rightarrow> parse_error + edit_merger" where
  "merge_server pathKey m0 entry =
     (let m = m0\<lparr>em_serverIds := em_serverIds m0 @ [me_serverId entry]\<rparr>;
          clientKey = (case me_clientKey entry of Some k \<Rightarrow> k | None \<Rightarrow> me_serverId entry)
      in case me_edit entry of
           None \<Rightarrow> Inr m
         | Some edit \<Rightarrow>
             (case flattenWorkspaceTextEdits pathKey edit of
                Inl err \<Rightarrow> Inl err
              | Inr files \<Rightarrow> Inr (foldl (merge_file pathKey clientKey) m files)))"

record merge_result =
  mr_changes :: "(js_text, text_edit list) jmap"
  mr_droppedConflicts :: nat
  mr_inputEditCount :: nat
  mr_serverIds :: "string list"
  mr_sourceClientKeys :: "(js_text, string list) jmap"

fun merge_servers ::
  "(js_text \<Rightarrow> js_text) \<Rightarrow> edit_merger \<Rightarrow> merge_entry list \<Rightarrow> parse_error + edit_merger" where
  "merge_servers pathKey m [] = Inr m"
| "merge_servers pathKey m (entry # rest) =
     (case merge_server pathKey m entry of Inl err \<Rightarrow> Inl err | Inr m' \<Rightarrow> merge_servers pathKey m' rest)"

definition mergeWorkspaceTextEditsByPriority ::
  "(js_text \<Rightarrow> js_text) \<Rightarrow> merge_entry list \<Rightarrow> parse_error + merge_result" where
  "mergeWorkspaceTextEditsByPriority pathKey servers =
     (case merge_servers pathKey empty_merger servers of
        Inl err \<Rightarrow> Inl err
      | Inr m \<Rightarrow>
          Inr \<lparr>mr_changes = foldl (\<lambda>c (key, b). jm_set (mb_uri b) (mb_edits b) c) [] (em_merged m),
               mr_droppedConflicts = em_droppedConflicts m,
               mr_inputEditCount = em_inputEditCount m,
               mr_serverIds = em_serverIds m,
               mr_sourceClientKeys =
                 foldl (\<lambda>c (key, b). jm_set key (mb_sourceClientKeys b) c) [] (em_merged m)\<rparr>)"

section \<open>What is kept\<close>

definition kept_ok :: "text_edit list \<Rightarrow> bool" where
  "kept_ok es \<longleftrightarrow> sorted_wrt disjoint_edits es \<and> list_all (\<lambda>e. valid_range (te_range e)) es"

definition key_text :: "js_text \<Rightarrow> text_edit \<Rightarrow> js_text" where
  "key_text key e = textEditKey (\<lambda>uri. uri) key e"

lemma textEditKey_key_text: "textEditKey pathKey uri e = key_text (pathKey uri) e"
  by (simp add: key_text_def textEditKey_def)

text \<open>One edit is kept, repeats a key seen before, or overlaps a kept edit and is counted.\<close>

lemma merge_one_step:
  assumes "merge_one pathKey c uri (b, m) e = (b', m')" "kept_ok (mb_edits b)" "valid_range (te_range e)"
  shows "kept_ok (mb_edits b')" "em_merged m' = em_merged m" "mb_uri b' = mb_uri b"
    "prefix (mb_edits b) (mb_edits b')" "em_seenExact m \<subseteq> em_seenExact m'"
    "em_seenExact m' \<subseteq> em_seenExact m \<union> key_text (pathKey uri) ` set (mb_edits b')"
    "e \<in> set (mb_edits b') \<or> key_text (pathKey uri) e \<in> em_seenExact m \<or>
     list_ex (\<lambda>x. rangesOverlap (te_range x) (te_range e)) (mb_edits b)"
  using assms
  by (auto simp: merge_one_def Let_def kept_ok_def sorted_wrt_append list_ex_iff textEditKey_key_text split: if_splits)

text \<open>An edit is accounted for in a bucket, or by a key of some bucket.\<close>

definition stands_for :: "text_edit list \<Rightarrow> text_edit \<Rightarrow> bool" where
  "stands_for es e = list_ex (\<lambda>x. x = e \<or> rangesOverlap (te_range x) (te_range e)) es"

lemma stands_for_prefix: "prefix es es' \<Longrightarrow> stands_for es e \<Longrightarrow> stands_for es' e"
  using set_mono_prefix by (fastforce simp: stands_for_def list_ex_iff)

lemma merge_fold_step:
  assumes "foldl (merge_one pathKey c uri) (b, m) es = (b', m')" "kept_ok (mb_edits b)"
    "list_all (\<lambda>e. valid_range (te_range e)) es"
  shows "kept_ok (mb_edits b') \<and> em_merged m' = em_merged m \<and> mb_uri b' = mb_uri b \<and>
    prefix (mb_edits b) (mb_edits b') \<and> em_seenExact m \<subseteq> em_seenExact m' \<and>
    em_seenExact m' \<subseteq> em_seenExact m \<union> key_text (pathKey uri) ` set (mb_edits b') \<and>
    (\<forall>e \<in> set es. stands_for (mb_edits b') e \<or> key_text (pathKey uri) e \<in> em_seenExact m')"
  using assms
proof (induction es arbitrary: b m)
  case (Cons e es)
  obtain b1 m1 where s: "merge_one pathKey c uri (b, m) e = (b1, m1)" by fastforce
  from Cons.prems(3) have "valid_range (te_range e)" by simp
  note one = merge_one_step [OF s Cons.prems(2) this]
  have rest: "foldl (merge_one pathKey c uri) (b1, m1) es = (b', m')" using Cons.prems(1) s by simp
  from Cons.prems(3) have "list_all (\<lambda>e. valid_range (te_range e)) es" by simp
  note ih = Cons.IH [OF rest one(1) this]
  have "stands_for (mb_edits b1) e \<or> key_text (pathKey uri) e \<in> em_seenExact m1"
    using one(4,5,7) set_mono_prefix by (fastforce simp: stands_for_def list_ex_iff)
  then have "stands_for (mb_edits b') e \<or> key_text (pathKey uri) e \<in> em_seenExact m'"
    using ih stands_for_prefix by blast
  moreover have "em_seenExact m' \<subseteq> em_seenExact m \<union> key_text (pathKey uri) ` set (mb_edits b')"
    using ih one(6) set_mono_prefix by blast
  moreover have "prefix (mb_edits b) (mb_edits b')" using ih one(4) by (meson prefix_order.trans)
  ultimately show ?case using ih one(2,3,5) by auto
qed auto

section \<open>The whole merge\<close>

definition merger_inv :: "(js_text \<Rightarrow> js_text) \<Rightarrow> edit_merger \<Rightarrow> bool" where
  "merger_inv pathKey m \<longleftrightarrow>
     jm_wf (em_merged m) \<and>
     (\<forall>key b. jm_get (em_merged m) key = Some b \<longrightarrow>
        pathKey (mb_uri b) = key \<and> kept_ok (mb_edits b) \<and> mb_edits b \<noteq> []) \<and>
     (\<forall>t \<in> em_seenExact m. \<exists>key b x. jm_get (em_merged m) key = Some b \<and> x \<in> set (mb_edits b) \<and> t = key_text key x)"

definition merger_le :: "edit_merger \<Rightarrow> edit_merger \<Rightarrow> bool" where
  "merger_le m m' \<longleftrightarrow>
     (\<forall>key b. jm_get (em_merged m) key = Some b \<longrightarrow>
        (\<exists>b'. jm_get (em_merged m') key = Some b' \<and> prefix (mb_edits b) (mb_edits b'))) \<and>
     em_seenExact m \<subseteq> em_seenExact m'"

definition accounted :: "(js_text \<Rightarrow> js_text) \<Rightarrow> edit_merger \<Rightarrow> js_text \<Rightarrow> text_edit \<Rightarrow> bool" where
  "accounted pathKey m uri e \<longleftrightarrow>
     (\<exists>b. jm_get (em_merged m) (pathKey uri) = Some b \<and> stands_for (mb_edits b) e) \<or>
     key_text (pathKey uri) e \<in> em_seenExact m"

lemma merger_le_refl: "merger_le m m"
  by (simp add: merger_le_def)

lemma merger_le_trans: "merger_le m m' \<Longrightarrow> merger_le m' m'' \<Longrightarrow> merger_le m m''"
  unfolding merger_le_def by (meson order_trans prefix_order.trans)

lemma accounted_mono: "accounted pathKey m uri e \<Longrightarrow> merger_le m m' \<Longrightarrow> accounted pathKey m' uri e"
  unfolding accounted_def merger_le_def by (meson stands_for_prefix subsetD)

lemma merge_file_step:
  assumes inv: "merger_inv pathKey m" and valid: "list_all (\<lambda>e. valid_range (te_range e)) (snd entry)"
  shows "merger_inv pathKey (merge_file pathKey c m entry) \<and> merger_le m (merge_file pathKey c m entry) \<and>
         (\<forall>e \<in> set (snd entry). accounted pathKey (merge_file pathKey c m entry) (fst entry) e)"
proof -
  let ?k = "pathKey (fst entry)"
  define b0 where "b0 = (case jm_get (em_merged m) ?k of Some b \<Rightarrow> b
      | None \<Rightarrow> \<lparr>mb_uri = fst entry, mb_edits = [], mb_sourceClientKeys = []\<rparr>)"
  obtain b' m' where f: "foldl (merge_one pathKey c (fst entry)) (b0, m) (snd entry) = (b', m')" by fastforce
  have b0: "kept_ok (mb_edits b0)" "pathKey (mb_uri b0) = ?k"
    using inv by (auto simp: b0_def merger_inv_def kept_ok_def split: option.splits)
  note step = merge_fold_step [OF f b0(1) valid]
  have res: "merge_file pathKey c m entry =
      (if mb_edits b' \<noteq> [] then m'\<lparr>em_merged := jm_set ?k b' (em_merged m')\<rparr> else m')"
    by (simp add: merge_file_def Let_def b0_def [symmetric] f)
  show ?thesis
  proof (cases "mb_edits b' = []")
    case True
    then have "jm_get (em_merged m) ?k = None"
      using step inv by (auto simp: b0_def merger_inv_def split: option.splits)
    with True step inv show ?thesis
      by (auto simp: res merger_inv_def merger_le_def accounted_def stands_for_def)
  next
    case False
    have old: "jm_get (em_merged m) ?k = Some b \<Longrightarrow> prefix (mb_edits b) (mb_edits b')" for b
      using step by (simp add: b0_def)
    have seen: "\<exists>key b x. jm_get (jm_set ?k b' (em_merged m)) key = Some b \<and> x \<in> set (mb_edits b) \<and> t = key_text key x"
      if t: "t \<in> em_seenExact m'" for t
    proof (cases "t \<in> em_seenExact m")
      case True
      then obtain key b x where kb: "jm_get (em_merged m) key = Some b" "x \<in> set (mb_edits b)" "t = key_text key x"
        using inv by (auto simp: merger_inv_def)
      show ?thesis
      proof (cases "key = ?k")
        case True
        with kb old have "x \<in> set (mb_edits b')" using set_mono_prefix by blast
        with True kb show ?thesis by (intro exI [of _ ?k] exI [of _ b'] exI [of _ x]) (simp add: jm_get_set)
      next
        case False
        with kb show ?thesis by (intro exI [of _ key] exI [of _ b] exI [of _ x]) (simp add: jm_get_set)
      qed
    next
      case False
      with t step obtain x where "x \<in> set (mb_edits b')" "t = key_text ?k x" by blast
      then show ?thesis by (intro exI [of _ ?k] exI [of _ b'] exI [of _ x]) (simp add: jm_get_set)
    qed
    have "merger_inv pathKey (m'\<lparr>em_merged := jm_set ?k b' (em_merged m')\<rparr>)"
      using inv step b0 False seen by (auto simp: merger_inv_def jm.wf_put jm_get_set)
    moreover have "merger_le m (m'\<lparr>em_merged := jm_set ?k b' (em_merged m')\<rparr>)"
      using step old by (auto simp: merger_le_def jm_get_set)
    ultimately show ?thesis using False step by (auto simp: res accounted_def jm_get_set)
  qed
qed

section \<open>Parsed edits have ranges in order\<close>

lemma parseTextEdits_valid:
  "parseTextEdits v c = Inr es \<Longrightarrow> list_all (\<lambda>e. valid_range (te_range e)) es"
proof -
  have "isTextEdit w = Some e \<Longrightarrow> valid_range (te_range e)" for w e
    by (auto simp: isTextEdit_def isRange_def valid_range_def split: if_splits option.splits wire.splits)
  then show "parseTextEdits v c = Inr es \<Longrightarrow> ?thesis"
    by (auto simp: parseTextEdits_def list_all_iff split: wire.splits if_splits)
qed

lemma parseTextDocumentEdit_valid:
  "parseTextDocumentEdit v c = Inr (Some d) \<Longrightarrow> list_all (\<lambda>e. valid_range (te_range e)) (td_edits d)"
  by (auto simp: parseTextDocumentEdit_def Let_def dest: parseTextEdits_valid split: if_splits wire.splits sum.splits)

definition valid_edits :: "text_edit list \<Rightarrow> bool" where
  "valid_edits es = list_all (\<lambda>e. valid_range (te_range e)) es"

definition valid_files :: "(js_text \<times> text_edit list) list \<Rightarrow> bool" where
  "valid_files files = list_all (\<lambda>f. valid_edits (snd f)) files"

lemma valid_files_simps [simp]:
  "valid_files []" "valid_files (f # fs) = (valid_edits (snd f) \<and> valid_files fs)"
  "valid_files (fs @ gs) = (valid_files fs \<and> valid_files gs)"
  by (simp_all add: valid_files_def)

lemma map_throw_all:
  assumes "map_throw f xs = Inr ys" "\<And>x y. f x = Inr y \<Longrightarrow> P y" "y \<in> set ys" shows "P y"
  using assms unfolding map_throw_Inr list_all2_conv_all_nth in_set_conv_nth by metis

lemma parse_changes_valid:
  assumes "map_throw (\<lambda>(uri, edits). map_sum id (Pair uri) (parseTextEdits edits (InChanges uri))) xs = Inr files"
  shows "valid_files files"
proof -
  have one: "valid_edits (snd y)"
    if "(case x of (uri, edits) \<Rightarrow> map_sum id (Pair uri) (parseTextEdits edits (InChanges uri))) = Inr y" for x y
    using that by (cases x; cases "parseTextEdits (snd x) (InChanges (fst x))")
      (auto simp: valid_edits_def dest: parseTextEdits_valid)
  have "valid_edits (snd y)" if "y \<in> set files" for y
    using map_throw_all [OF assms, of "\<lambda>y. valid_edits (snd y)", OF one that] .
  then show ?thesis by (simp add: valid_files_def list_all_iff)
qed

lemma parse_change_valid: "parse_change x = Inr (TextChange d) \<Longrightarrow> valid_edits (td_edits d)"
proof -
  assume parse: "parse_change x = Inr (TextChange d)"
  have "map_sum id ResourceChange r \<noteq> Inr (TextChange d)" for r :: "parse_error + resource_op"
    by (cases r) auto
  with parse show ?thesis
    by (auto simp: parse_change_def valid_edits_def dest: parseTextDocumentEdit_valid split: sum.splits option.splits)
qed

lemma text_changes_valid:
  assumes "map_throw parse_change xs = Inr docs" shows "valid_files (text_changes docs)"
proof -
  have "valid_edits (td_edits d)" if "TextChange d \<in> set docs" for d
    using map_throw_all [OF assms, of "\<lambda>y. \<forall>d. y = TextChange d \<longrightarrow> valid_edits (td_edits d)"]
      parse_change_valid that by blast
  then show ?thesis
    by (auto simp: valid_files_def text_changes_def list_all_iff List.map_filter_def split: document_change.splits)
qed

lemma parseWorkspaceEdit_valid:
  assumes "parseWorkspaceEdit w = Inr parsed"
  shows "valid_files (we_changes parsed @ text_changes (we_documentChanges parsed))"
proof -
  have "valid_files (text_changes [])" by (simp add: text_changes_def List.map_filter_def)
  then show ?thesis
    using assms
    by (auto simp: parseWorkspaceEdit_def Let_def dest: parse_changes_valid text_changes_valid
        split: if_splits sum.splits wire.splits)
qed

lemma push_edits_valid:
  assumes "valid_files (map snd buckets)" "valid_edits (snd entry)"
  shows "valid_files (map snd (push_edits pathKey buckets entry))"
proof -
  have upd: "valid_files (map snd (jm_set k f bs))" if "valid_files (map snd bs)" "valid_edits (snd f)" for k f bs
    using that by (induction bs) auto
  have old: "jm_get buckets k = Some f \<Longrightarrow> valid_edits (snd f)" for k f
    using assms(1) jm_get_in by (fastforce simp: valid_files_def list_all_iff)
  show ?thesis
  proof (cases "jm_get buckets (pathKey (fst entry))")
    case None
    then show ?thesis using assms upd [of buckets entry] by (simp add: push_edits_def)
  next
    case (Some f)
    have "valid_edits (snd (fst f, snd f @ snd entry))" using old [OF Some] assms(2) by (simp add: valid_edits_def)
    from upd [OF assms(1) this] Some assms(1) show ?thesis by (simp add: push_edits_def case_prod_unfold)
  qed
qed

lemma push_all_valid:
  "valid_files xs \<Longrightarrow> valid_files (map snd bs) \<Longrightarrow> valid_files (map snd (foldl (push_edits pathKey) bs xs))"
  by (induction xs arbitrary: bs) (simp_all add: push_edits_valid)

lemma flatten_valid:
  assumes "flattenWorkspaceTextEdits pathKey w = Inr files" shows "valid_files files"
proof -
  from assms obtain parsed where parsed: "parseWorkspaceEdit w = Inr parsed"
    "files = map snd (foldl (push_edits pathKey) [] (we_changes parsed @ text_changes (we_documentChanges parsed)))"
    by (auto simp: flattenWorkspaceTextEdits_def split: sum.splits)
  show ?thesis unfolding parsed(2)
    by (rule push_all_valid [OF parseWorkspaceEdit_valid [OF parsed(1)]]) simp
qed

section \<open>All servers\<close>

lemma merge_files_step:
  assumes "merger_inv pathKey m" "valid_files files"
  shows "merger_inv pathKey (foldl (merge_file pathKey c) m files) \<and>
         merger_le m (foldl (merge_file pathKey c) m files) \<and>
         list_all (\<lambda>(uri, es). list_all (accounted pathKey (foldl (merge_file pathKey c) m files) uri) es) files"
  using assms
proof (induction files arbitrary: m)
  case (Cons f files)
  let ?m = "merge_file pathKey c m f"
  from Cons.prems have one: "merger_inv pathKey ?m \<and> merger_le m ?m \<and> (\<forall>e \<in> set (snd f). accounted pathKey ?m (fst f) e)"
    by (intro merge_file_step) (simp_all add: valid_edits_def)
  with Cons.IH [of ?m] Cons.prems have ih: "merger_inv pathKey (foldl (merge_file pathKey c) ?m files)"
    "merger_le ?m (foldl (merge_file pathKey c) ?m files)"
    "list_all (\<lambda>(uri, es). list_all (accounted pathKey (foldl (merge_file pathKey c) ?m files) uri) es) files"
    by simp_all
  have "list_all (accounted pathKey (foldl (merge_file pathKey c) ?m files) (fst f)) (snd f)"
    using one ih(2) accounted_mono by (auto simp: list_all_iff)
  with ih one merger_le_trans show ?case by (auto simp: case_prod_unfold)
qed (simp add: merger_le_refl)

text \<open>What one server proposed is accounted for.\<close>

definition entry_accounted :: "(js_text \<Rightarrow> js_text) \<Rightarrow> (js_text \<Rightarrow> text_edit \<Rightarrow> bool) \<Rightarrow> merge_entry \<Rightarrow> bool" where
  "entry_accounted pathKey acc entry =
     (case me_edit entry of
        None \<Rightarrow> True
      | Some w \<Rightarrow> (case flattenWorkspaceTextEdits pathKey w of
                     Inl _ \<Rightarrow> False
                   | Inr files \<Rightarrow> list_all (\<lambda>(uri, es). list_all (acc uri) es) files))"

lemma entry_accounted_mono:
  "entry_accounted pathKey acc entry \<Longrightarrow> (\<And>uri e. acc uri e \<Longrightarrow> acc' uri e) \<Longrightarrow> entry_accounted pathKey acc' entry"
  by (auto simp: entry_accounted_def list_all_iff split: option.splits sum.splits)

lemma merge_server_step:
  assumes "merger_inv pathKey m" "merge_server pathKey m entry = Inr m'"
  shows "merger_inv pathKey m' \<and> merger_le m m' \<and> entry_accounted pathKey (accounted pathKey m') entry"
proof -
  let ?m = "m\<lparr>em_serverIds := em_serverIds m @ [me_serverId entry]\<rparr>"
  have inv: "merger_inv pathKey ?m" using assms(1) by (simp add: merger_inv_def)
  have le: "merger_le ?m m2 = merger_le m m2" for m2 by (simp add: merger_le_def)
  show ?thesis
  proof (cases "me_edit entry")
    case None
    with assms(2) inv le merger_le_refl [of ?m] show ?thesis by (auto simp: merge_server_def Let_def entry_accounted_def)
  next
    case (Some w)
    then obtain files where files: "flattenWorkspaceTextEdits pathKey w = Inr files"
      using assms(2) by (auto simp: merge_server_def Let_def split: sum.splits)
    with Some assms(2) merge_files_step [OF inv flatten_valid [OF files]] le show ?thesis
      by (auto simp: merge_server_def Let_def entry_accounted_def)
  qed
qed

lemma merge_servers_step:
  assumes "merger_inv pathKey m" "merge_servers pathKey m servers = Inr m'"
  shows "merger_inv pathKey m' \<and> merger_le m m' \<and> list_all (entry_accounted pathKey (accounted pathKey m')) servers"
  using assms
proof (induction servers arbitrary: m)
  case (Cons s servers)
  then obtain m1 where m1: "merge_server pathKey m s = Inr m1" "merge_servers pathKey m1 servers = Inr m'"
    by (auto split: sum.splits)
  note one = merge_server_step [OF Cons.prems(1) m1(1)]
  then have "merger_inv pathKey m1" by simp
  note ih = Cons.IH [OF this m1(2)]
  have "entry_accounted pathKey (accounted pathKey m') s"
    using entry_accounted_mono [of pathKey "accounted pathKey m1" s] one ih accounted_mono by blast
  with ih one merger_le_trans show ?case by auto
qed (simp add: merger_le_refl)

lemma fold_set_distinct:
  assumes "distinct (map f xs)" "set (map f xs) \<inter> set (map fst c) = {}"
  shows "foldl (\<lambda>c x. jm_set (f x) (g x) c) c xs = c @ map (\<lambda>x. (f x, g x)) xs"
  using assms
proof (induction xs arbitrary: c)
  case (Cons x xs)
  then have "f x \<notin> set (jm_keys c)" by auto
  with Cons.IH [of "c @ [(f x, g x)]"] Cons.prems show ?case by (simp add: jm_set_notin)
qed simp

lemma merged_changes:
  assumes "merger_inv pathKey m"
  shows "foldl (\<lambda>c (key, b). jm_set (mb_uri b) (mb_edits b) c) [] (em_merged m) =
         map (\<lambda>x. (mb_uri (snd x), mb_edits (snd x))) (em_merged m)"
proof -
  have key: "pathKey (mb_uri (snd x)) = fst x" if "x \<in> set (em_merged m)" for x
    using that assms jm_in_get [of "em_merged m" "fst x" "snd x"] by (auto simp: merger_inv_def)
  have "distinct (map (pathKey \<circ> (\<lambda>x. mb_uri (snd x))) (em_merged m))"
  proof -
    have "map (pathKey \<circ> (\<lambda>x. mb_uri (snd x))) (em_merged m) = jm_keys (em_merged m)"
      using key by simp
    then show ?thesis using assms by (simp only: merger_inv_def jm_wf_def)
  qed
  then have "distinct (map (\<lambda>x. mb_uri (snd x)) (em_merged m))" by (metis distinct_map map_map)
  from fold_set_distinct [OF this, of "[]" "\<lambda>x. mb_edits (snd x)"] show ?thesis
    by (simp add: case_prod_unfold)
qed

lemma merger_inv_empty: "merger_inv pathKey empty_merger"
  by (simp add: merger_inv_def empty_merger_def)

text \<open>The edits of the result that a proposed edit gave way to or is among.\<close>

definition accounted_in ::
  "(js_text \<Rightarrow> js_text) \<Rightarrow> (js_text \<times> text_edit list) list \<Rightarrow> js_text \<Rightarrow> text_edit \<Rightarrow> bool" where
  "accounted_in pathKey changes uri e =
     list_ex (\<lambda>(u, es). (pathKey u = pathKey uri \<and> stands_for es e) \<or>
                        list_ex (\<lambda>x. textEditKey pathKey u x = textEditKey pathKey uri e) es) changes"

lemma accounted_in_result:
  assumes "merger_inv pathKey m" "accounted pathKey m uri e"
  shows "accounted_in pathKey (map (\<lambda>x. (mb_uri (snd x), mb_edits (snd x))) (em_merged m)) uri e"
proof -
  have key: "pathKey (mb_uri b) = key" if "jm_get (em_merged m) key = Some b" for key b
    using that assms(1) by (simp add: merger_inv_def)
  from assms(2) consider b where "jm_get (em_merged m) (pathKey uri) = Some b" "stands_for (mb_edits b) e"
    | key b x where "jm_get (em_merged m) key = Some b" "x \<in> set (mb_edits b)"
        "key_text (pathKey uri) e = key_text key x"
    using assms(1) unfolding accounted_def merger_inv_def by blast
  then show ?thesis
  proof cases
    case 1
    then show ?thesis using key [OF 1(1)] jm_get_in [OF 1(1)]
      by (force simp: accounted_in_def list_ex_iff)
  next
    case 2
    then show ?thesis using key [OF 2(1)] jm_get_in [OF 2(1)]
      by (force simp: accounted_in_def list_ex_iff textEditKey_key_text)
  qed
qed

text \<open>
  C31: merging the edits of several servers gives edits that can be applied. Every file of the
  result passes the validation unchanged, so no two kept edits overlap; and every edit a
  server proposed is kept, or overlaps a kept edit of the same file, or has the key of a kept
  replacement.
\<close>

theorem merged_edits_are_applicable:
  assumes "mergeWorkspaceTextEditsByPriority pathKey servers = Inr result"
  shows "list_all (\<lambda>(uri, es). validateTextEdits pathKey' es = Inr es) (mr_changes result) \<and>
         list_all (entry_accounted pathKey (accounted_in pathKey (mr_changes result))) servers"
proof -
  from assms obtain m where m: "merge_servers pathKey empty_merger servers = Inr m"
    and res: "mr_changes result = foldl (\<lambda>c (key, b). jm_set (mb_uri b) (mb_edits b) c) [] (em_merged m)"
    by (auto simp: mergeWorkspaceTextEditsByPriority_def split: sum.splits)
  note all = merge_servers_step [OF merger_inv_empty m]
  then have inv: "merger_inv pathKey m" by simp
  note changes = res [unfolded merged_changes [OF inv]]
  have "kept_ok (mb_edits b)" if "(key, b) \<in> set (em_merged m)" for key b
    using that inv jm_in_get [of "em_merged m" key b] by (auto simp: merger_inv_def)
  then have "list_all (\<lambda>(uri, es). validateTextEdits pathKey' es = Inr es) (mr_changes result)"
    by (auto simp: changes list_all_iff kept_ok_def intro: validate_disjoint)
  moreover have "list_all (entry_accounted pathKey (accounted_in pathKey (mr_changes result))) servers"
    using all entry_accounted_mono [OF _ accounted_in_result [OF inv]]
    by (auto simp: changes list_all_iff)
  ultimately show ?thesis ..
qed

definition wire_changes :: "string \<Rightarrow> (nat \<times> nat \<times> string) list \<Rightarrow> wire" where
  "wire_changes uri edits =
     WObj [(units ''changes'', WObj [(units uri, WArr (map (\<lambda>(s, e, t).
        WObj [(units ''range'', WObj
                [(units ''start'', WObj [(units ''line'', WNum (Fin 0)), (units ''character'', WNum (Fin (of_nat s)))]),
                 (units ''end'', WObj [(units ''line'', WNum (Fin 0)), (units ''character'', WNum (Fin (of_nat e)))])]),
              (units ''newText'', WStr (units t))]) edits))])]"

definition demo_servers :: "merge_entry list" where
  "demo_servers =
     [\<lparr>me_serverId = ''a'', me_clientKey = None, me_edit = Some (wire_changes ''f'' [(0, 2, ''x'')])\<rparr>,
      \<lparr>me_serverId = ''b'', me_clientKey = None, me_edit = Some (wire_changes ''f'' [(1, 3, ''y''), (3, 4, ''z'')])\<rparr>]"

theorem merged_edits_are_applicable_witness:
  "case mergeWorkspaceTextEditsByPriority id demo_servers of
     Inl _ \<Rightarrow> False
   | Inr result \<Rightarrow> mr_droppedConflicts result = 1 \<and>
       list_all (\<lambda>(uri, es). validateTextEdits id es = Inr es) (mr_changes result)"
proof -
  have "case mergeWorkspaceTextEditsByPriority id demo_servers of
      Inl _ \<Rightarrow> False | Inr result \<Rightarrow> mr_droppedConflicts result = 1" by code_simp
  then show ?thesis using merged_edits_are_applicable [of id demo_servers] by (auto split: sum.splits)
qed

text \<open>
  The key of an edit joins the path, four numbers and the new text with colons. A path that
  ends in a colon and digits makes the key ambiguous across files: the replacement of one
  file is then taken for a duplicate of the other's and left out.
\<close>

lemma edit_keys_collide_across_files:
  "textEditKey id (units ''a'') (demo_edit 1 2 3 4 ''5:x'') = textEditKey id (units ''a:1'') (demo_edit 2 3 4 5 ''x'')"
  by code_simp

end
