(* ===== verification/Tree_Disk.thy ===== *)
theory Tree_Disk
  imports Edit_Text Edit_Merge
begin

text \<open>
  File trees as disks: an executable instance of the disk that \<open>Edit_Commit\<close> takes as a
  parameter, with the laws of \<open>Edit_Text\<close> and the witnesses of the theorems on applied edits.
\<close>

section \<open>The calls\<close>

definition tree_at :: "js_text list \<Rightarrow> js_text \<Rightarrow> js_text list" where
  "tree_at cwd p = (if isAbsolute p then [] else cwd)"

text \<open>The entry a path names, its last name not followed.\<close>

definition tree_entry :: "file_tree \<Rightarrow> js_text list \<Rightarrow> js_text \<Rightarrow> string + js_text list" where
  "tree_entry t cwd p =
     (case rev (segs p) of
        [] \<Rightarrow> Inl ''EBUSY''
      | m # up \<Rightarrow>
          (case tree_resolve t (tree_at cwd p) (rev up) of
             Inl e \<Rightarrow> Inl e
           | Inr cur \<Rightarrow> if tree_dir t cur \<and> plain m then Inr (cur @ [m]) else Inl ''ENOTDIR''))"

definition tree_write :: "js_text list \<Rightarrow> js_text \<Rightarrow> js_text \<Rightarrow> file_tree \<Rightarrow> string option \<times> file_tree" where
  "tree_write cwd p c t =
     (case tree_resolve t (tree_at cwd p) (segs p) of
        Inr ss \<Rightarrow>
          (case map_of t ss of Some (Text _) \<Rightarrow> (None, AList.update ss (Text c) t) | _ \<Rightarrow> (Some ''EISDIR'', t))
      | Inl code \<Rightarrow>
          (case tree_entry t cwd p of
             Inl e \<Rightarrow> (Some e, t)
           | Inr ss \<Rightarrow> (None, AList.update ss (Text c) t)))"

definition tree_write_new :: "js_text list \<Rightarrow> js_text \<Rightarrow> js_text \<Rightarrow> file_tree \<Rightarrow> string option \<times> file_tree" where
  "tree_write_new cwd p c t =
     (case tree_lstat t cwd p of Inr _ \<Rightarrow> (Some ''EEXIST'', t) | Inl _ \<Rightarrow> tree_write cwd p c t)"

fun tree_mkdirs :: "js_text list \<Rightarrow> js_text list \<Rightarrow> file_tree \<Rightarrow> string option \<times> file_tree" where
  "tree_mkdirs cur [] t = (if tree_dir t cur then None else Some ''EEXIST'', t)"
| "tree_mkdirs cur (s # ss) t =
     (case tree_step t cur s of
        Inr cur' \<Rightarrow> tree_mkdirs cur' ss t
      | Inl code \<Rightarrow>
          if code = ''ENOENT'' then tree_mkdirs (cur @ [s]) ss (t @ [(cur @ [s], Dir)]) else (Some code, t))"

definition tree_rm :: "js_text list \<Rightarrow> js_text \<Rightarrow> bool \<Rightarrow> bool \<Rightarrow> file_tree \<Rightarrow> string option \<times> file_tree" where
  "tree_rm cwd p recursive force t =
     (case tree_entry t cwd p of
        Inl e \<Rightarrow> (if force then None else Some e, t)
      | Inr ss \<Rightarrow>
          (case map_of t ss of
             None \<Rightarrow> (if force then None else Some ''ENOENT'', t)
           | Some node \<Rightarrow>
               if node = Dir \<and> \<not> recursive then (Some ''ERR_FS_EISDIR'', t)
               else (None, filter (\<lambda>e. take (length ss) (fst e) \<noteq> ss) t)))"

definition tree_rename :: "js_text list \<Rightarrow> js_text \<Rightarrow> js_text \<Rightarrow> file_tree \<Rightarrow> string option \<times> file_tree" where
  "tree_rename cwd old new t =
     (case (tree_entry t cwd old, tree_entry t cwd new) of
        (Inl e, _) \<Rightarrow> (Some e, t)
      | (_, Inl e) \<Rightarrow> (Some e, t)
      | (Inr a, Inr b) \<Rightarrow>
          if map_of t a = None then (Some ''ENOENT'', t)
          else if map_of t b = Some Dir then (Some ''EEXIST'', t)
          else (None, map (\<lambda>(ss, n). (if take (length a) ss = a then b @ drop (length a) ss else ss, n))
                        (filter (\<lambda>e. fst e \<noteq> b) t)))"

definition tree_disk :: "js_text list \<Rightarrow> file_tree disk" where
  "tree_disk cwd =
     \<lparr>dk_env = (\<lambda>t. tree_env t cwd), dk_writeFile = tree_write cwd, dk_writeNew = tree_write_new cwd,
      dk_mkdir = (\<lambda>p t. tree_mkdirs (tree_at cwd p) (segs p) t), dk_rm = tree_rm cwd, dk_rename = tree_rename cwd\<rparr>"

section \<open>Writing a file of the tree\<close>

text \<open>Trees that differ in the text of a file only resolve every path alike.\<close>

lemma text_update_map:
  "map_of t ss = Some (Text c) \<Longrightarrow>
   map_of (AList.update ss (Text c') t) p = (if p = ss then Some (Text c') else map_of t p)"
  by (simp add: update_conv')

lemma text_update_step:
  assumes "map_of t ss = Some (Text c)"
  shows "tree_dir (AList.update ss (Text c') t) = tree_dir t" "tree_step (AList.update ss (Text c') t) = tree_step t"
proof -
  note upd = text_update_map [OF assms, of c']
  show dir: "tree_dir (AList.update ss (Text c') t) = tree_dir t"
    using assms by (auto simp: tree_dir_def upd fun_eq_iff)
  show "tree_step (AList.update ss (Text c') t) = tree_step t"
    using assms by (intro ext) (auto simp: tree_step_def dir upd)
qed

lemma text_update_resolve:
  assumes "map_of t ss = Some (Text c)"
  shows "tree_resolve (AList.update ss (Text c') t) = tree_resolve t"
proof (intro ext)
  show "tree_resolve (AList.update ss (Text c') t) cur xs = tree_resolve t cur xs" for cur xs
    by (induction xs arbitrary: cur) (simp_all add: text_update_step [OF assms] split: sum.split)
qed

lemma text_update_kernel:
  assumes "map_of t ss = Some (Text c)"
  shows "tree_kernel (AList.update ss (Text c') t) cwd decode = tree_kernel t cwd decode"
  using assms
  by (auto simp: tree_kernel_def tree_realpath_def tree_lstat_def text_update_resolve [OF assms]
      text_update_step [OF assms] text_update_map [OF assms] fun_eq_iff split: list.splits sum.splits option.splits)

lemma in_set_update_other: "e \<in> set (AList.update k v t) \<Longrightarrow> fst e \<noteq> k \<Longrightarrow> e \<in> set t"
  by (induction t) (auto split: if_splits)

lemma text_update_wf:
  assumes "map_of t ss = Some (Text c)" "wf_tree t" shows "wf_tree (AList.update ss (Text c') t)"
proof -
  note upd = text_update_map [OF assms(1), of c']
  have real: "real_node (AList.update ss (Text c') t) = real_node t"
    using assms(1) by (auto simp: real_node_def upd fun_eq_iff)
  have entry: "wf_entry (AList.update ss (Text c') t) = wf_entry t"
    unfolding wf_entry_def real text_update_step [OF assms(1)] by (rule refl)
  have old: "wf_entry t (ss, Text c)" using assms map_of_SomeD by (fastforce simp: wf_tree_def list_all_iff)
  have "wf_entry (AList.update ss (Text c') t) e" if "e \<in> set (AList.update ss (Text c') t)" for e
  proof (cases "fst e = ss")
    case True
    have "distinct (map fst (AList.update ss (Text c') t))" using assms(2) by (simp add: wf_tree_def distinct_update)
    then have "e = (ss, Text c')" using that True upd [of ss] by (metis map_of_is_SomeI option.inject prod.collapse)
    then show ?thesis using old unfolding entry by (simp add: wf_entry_def)
  next
    case False
    then have "e \<in> set t" using that by (rule in_set_update_other [rotated])
    then show ?thesis using assms(2) unfolding entry by (simp add: wf_tree_def list_all_iff)
  qed
  then show ?thesis using assms(2) by (simp add: wf_tree_def list_all_iff distinct_update)
qed

lemma tree_read_Inr:
  "tree_read t cwd p = Inr c \<Longrightarrow>
   \<exists>ss. tree_resolve t (tree_at cwd p) (segs p) = Inr ss \<and> map_of t ss = Some (Text c)"
  by (auto simp: tree_read_def tree_at_def split: sum.splits option.splits tree_node.splits)

lemma tree_realpath_Inr:
  "tree_realpath t cwd p = Inr r \<longleftrightarrow> (\<exists>ss. tree_resolve t (tree_at cwd p) (segs p) = Inr ss \<and> r = abs_path ss)"
  by (cases "tree_resolve t (tree_at cwd p) (segs p)") (auto simp: tree_realpath_def tree_at_def)

lemma tree_resolve_plain:
  assumes "wf_tree t" "real_node t cwd" "tree_resolve t (tree_at cwd p) (segs p) = Inr ss"
  shows "list_all plain ss"
proof -
  have "real_node t (tree_at cwd p)" using assms(2) by (simp add: tree_at_def real_node_def)
  from real_node_plain [OF assms(1) tree_resolve_real [OF assms(1) this assms(3)]] show ?thesis .
qed

lemma tree_text_disk: "text_disk (tree_disk cwd) (\<lambda>t. wf_tree t \<and> real_node t cwd) W"
  unfolding text_disk_def
proof (intro allI impI, elim conjE)
  fix t p c assume wf: "wf_tree t" "real_node t cwd" and read: "reads (tree_disk cwd) t p = Inr c"
  have env: "dk_env (tree_disk cwd) = (\<lambda>t. tree_env t cwd)" "\<And>t. en_readFile (tree_env t cwd) = tree_read t cwd"
    "\<And>t. k_realpath (en_kernel (tree_env t cwd)) = tree_realpath t cwd"
    "\<And>t. en_kernel (tree_env t cwd) = tree_kernel t cwd decode_url" "dk_writeFile (tree_disk cwd) = tree_write cwd"
    by (simp_all add: tree_disk_def tree_env_def tree_kernel_def)
  obtain ss where ss: "tree_resolve t (tree_at cwd p) (segs p) = Inr ss" "map_of t ss = Some (Text c)"
    using tree_read_Inr [of t cwd p c] read by (auto simp: env)
  have plain: "list_all plain ss" by (rule tree_resolve_plain [OF wf ss(1)])
  have same: "tree_realpath t cwd q = Inr (abs_path ss) \<longleftrightarrow> tree_resolve t (tree_at cwd q) (segs q) = Inr ss" for q
    using tree_resolve_plain [OF wf, of q] plain by (auto simp: tree_realpath_Inr abs_path_inject)
  have other: "tree_read (AList.update ss (Text c') t) cwd q =
      (if tree_realpath t cwd q = Inr (abs_path ss) then Inr c' else tree_read t cwd q)" for c' q
    unfolding same
    by (auto simp: tree_read_def tree_at_def text_update_resolve [OF ss(2)] text_update_map [OF ss(2)] split: sum.splits)
  have wf': "wf_tree (AList.update ss (Text c') t) \<and> real_node (AList.update ss (Text c') t) cwd" for c'
    using text_update_wf [OF ss(2) wf(1)] wf(2) by (auto simp: real_node_def text_update_map [OF ss(2)])
  have wrote: "tree_write cwd p c' t = (None, AList.update ss (Text c') t)" for c'
    using ss by (simp add: tree_write_def)
  show "\<exists>r. k_realpath (disk_kernel (tree_disk cwd) t) p = Inr r \<and>
      (\<forall>q. k_realpath (disk_kernel (tree_disk cwd) t) q = Inr r \<longrightarrow> reads (tree_disk cwd) t q = Inr c) \<and>
      (\<forall>c'. W r \<longrightarrow> well_formed_text c' \<longrightarrow> (\<exists>fs'. dk_writeFile (tree_disk cwd) p c' t = (None, fs') \<and> (wf_tree fs' \<and> real_node fs' cwd) \<and>
         disk_kernel (tree_disk cwd) fs' = disk_kernel (tree_disk cwd) t \<and>
         (\<forall>q. reads (tree_disk cwd) fs' q =
            (if k_realpath (disk_kernel (tree_disk cwd) t) q = Inr r then Inr c' else reads (tree_disk cwd) t q))))"
    unfolding env(1,2,3,5)
  proof (intro exI [of _ "abs_path ss"] conjI allI impI)
    show "tree_realpath t cwd p = Inr (abs_path ss)" using ss(1) same by blast
    show "tree_read t cwd q = Inr c" if "tree_realpath t cwd q = Inr (abs_path ss)" for q
      using that ss(2) unfolding same by (simp add: tree_read_def tree_at_def)
    show "\<exists>fs'. tree_write cwd p c' t = (None, fs') \<and> (wf_tree fs' \<and> real_node fs' cwd) \<and>
        en_kernel (tree_env fs' cwd) = en_kernel (tree_env t cwd) \<and>
        (\<forall>q. tree_read fs' cwd q = (if tree_realpath t cwd q = Inr (abs_path ss) then Inr c' else tree_read t cwd q))" for c'
      using wrote other wf' text_update_kernel [OF ss(2)] by (simp add: env(4))
  qed
qed

section \<open>Applied edits\<close>

text \<open>An edit of \<open>/w/src/a\<close>, spelled through a link to the directory.\<close>

definition linked_tree :: file_tree where
  "linked_tree =
     map (\<lambda>(ss, n). (map units ss, n))
       [([''w''], Dir), ([''w'', ''s''], Dir), ([''w'', ''s'', ''a''], Text (units ''x'')),
        ([''w'', ''s'', ''b''], Text (units ''q'')), ([''w'', ''l''], Link [units ''w'', units ''s''])]"

definition linked_disk :: "file_tree disk" where
  "linked_disk = tree_disk [units ''w'']"

definition linked_edit :: wire where
  "linked_edit = wire_changes ''file:///w/l/a'' [(0, 1, ''yz'')]"

definition linked_op :: pending_edits where
  "linked_op = \<lparr>pe_uri = units ''file:///w/l/a'', pe_edits = [demo_edit 0 0 0 1 ''yz''], pe_version = None, pe_origins = []\<rparr>"

theorem text_edit_reaches_disk_witness:
  "reads linked_disk (out_fs (applyWorkspaceEdit linked_disk linked_edit (units ''/w'') no_options True linked_tree))
     (units ''/w/l/a'') = Inr (units ''yz'') \<and>
   reads linked_disk (out_fs (applyWorkspaceEdit linked_disk linked_edit (units ''/w'') no_options True linked_tree))
     (units ''/w/s/b'') = Inr (units ''q'')"
proof -
  let ?k = "disk_kernel linked_disk linked_tree"
  have disk: "text_disk linked_disk (\<lambda>t. wf_tree t \<and> real_node t [units ''w'']) (\<lambda>r. r = units ''/w/s/a'')"
    unfolding linked_disk_def by (rule tree_text_disk)
  have wf: "wf_tree linked_tree \<and> real_node linked_tree [units ''w'']" by code_simp
  have laws: "realpath_laws ?k"
    unfolding linked_disk_def by (simp add: tree_disk_def) (rule tree_env_laws, use wf in simp_all)
  have parsed: "parseWorkspaceEdit linked_edit =
      Inr \<lparr>we_changes = [(units ''file:///w/l/a'', [demo_edit 0 0 0 1 ''yz''])], we_documentChanges = []\<rparr>" by code_simp
  have plan: "planWorkspaceEdit (pathIndexKey ?k) False linked_edit = Inr [TextOp linked_op]" by code_simp
  have "\<not> isl (preflightWorkspaceEdit (dk_env linked_disk linked_tree) [TextOp linked_op] (units ''/w'') no_options)" by code_simp
  then obtain prepared where prepared:
    "preflightWorkspaceEdit (dk_env linked_disk linked_tree) [TextOp linked_op] (units ''/w'') no_options = Inr prepared"
    by (metis sum.collapse(2))
  have url: "list_all (\<lambda>oper. list_all (existing_url ?k) (op_uris oper)) [TextOp linked_op]" by code_simp
  have path: "uriToDiskPath ?k (pe_uri linked_op) = units ''/w/l/a''" by code_simp
  have before: "reads linked_disk linked_tree (units ''/w/l/a'') = Inr (units ''x'')"
    "text_result (dk_env linked_disk linked_tree) no_options linked_op (units ''x'') = Inr (units ''yz'')"
    "k_realpath ?k (units ''/w/s/b'') \<noteq> k_realpath ?k (units ''/w/l/a'')"
    "reads linked_disk linked_tree (units ''/w/s/b'') = Inr (units ''q'')" by code_simp+
  have cr: "\<forall>p content. TextOp p \<in> set [TextOp linked_op] \<longrightarrow>
      reads linked_disk linked_tree (uriToDiskPath ?k (pe_uri p)) = Inr content \<longrightarrow> content = [] \<or> last content \<noteq> CR"
    using before(1) by (auto simp: path) (simp add: units_def CR_def)
  have real: "k_realpath ?k (units ''/w/l/a'') = Inr (units ''/w/s/a'')" "well_formed_text (units ''yz'')" by code_simp+
  have writable: "\<forall>p r. TextOp p \<in> set [TextOp linked_op] \<longrightarrow>
      k_realpath ?k (uriToDiskPath ?k (pe_uri p)) = Inr r \<longrightarrow> r = units ''/w/s/a''"
    using real(1) by (simp add: path)
  have encoded: "\<forall>p content updated. TextOp p \<in> set [TextOp linked_op] \<longrightarrow>
      reads linked_disk linked_tree (uriToDiskPath ?k (pe_uri p)) = Inr content \<longrightarrow>
      text_result (dk_env linked_disk linked_tree) no_options p content = Inr updated \<longrightarrow> well_formed_text updated"
    using before(1,2) real(2) by (simp add: path)
  show ?thesis
    using text_edit_reaches_disk [OF disk wf laws parsed _ plan prepared url cr writable encoded, of True] before
    by (simp add: path)
qed

text \<open>
  the report of an edit counts what was done. Whatever the disk does, the result of an
  applied edit, and the partial result that an edit failing half way carries, count no more
  operations as applied than the plan has; the counts by kind add up to the total; the sampled
  indexes are ascending positions of operations, all of them up to a hundred; the touched
  files are the files of the details, each once; and a partial result names a file.
\<close>

theorem report_counts_what_was_done:
  assumes "out_answer (applyWorkspaceEdit d edit cwd options observe fs) \<in> {AppliedAll r, MidApplication e r}"
  shows "ae_appliedOperationTotal r \<le> ae_operationTotal r \<and>
         counted (ae_operationCounts r) = ae_operationTotal r \<and>
         length (ae_appliedOperationIndexes r) = min 100 (ae_appliedOperationTotal r) \<and>
         sorted_wrt (<) (ae_appliedOperationIndexes r) \<and>
         list_all (\<lambda>j. j < ae_operationTotal r) (ae_appliedOperationIndexes r) \<and>
         distinct (ae_files r) \<and> set (map fd_filePath (ae_fileDetails r)) = set (ae_files r) \<and>
         (out_answer (applyWorkspaceEdit d edit cwd options observe fs) = MidApplication e r \<longrightarrow> ae_files r \<noteq> [])"
proof -
  obtain planned where planned: "planWorkspaceEdit (pathIndexKey (disk_kernel d fs)) False edit = Inr planned"
    using assms by (auto simp: applyWorkspaceEdit_def Let_def split: sum.splits)
  obtain prepared where prepared: "preflightWorkspaceEdit (dk_env d fs) planned cwd options = Inr prepared"
    using assms apply_refused [OF planned, of cwd options] by (cases "preflightWorkspaceEdit (dk_env d fs) planned cwd options")
      (auto simp: fail_apply_def start_applying_def Let_def)
  let ?xs = "zip [0..<length planned] planned"
  obtain err st where st: "commit_all d cwd prepared ?xs (start_applying fs) = (err, st)"
    by (cases "commit_all d cwd prepared ?xs (start_applying fs)")
  note answer = apply_accepted(2) [OF planned prepared st, of observe]
  have r: "r = makeResult (foldl (count_op prepared) (no_counts, 0) ?xs) st" "err \<noteq> None \<longrightarrow> ap_touched st \<noteq> []"
    using assms unfolding answer by (auto simp: Let_def split: option.splits if_splits)
  have "report_ok st" "ap_index st \<le> plan_size prepared ?xs"
    using commit_all_advances [OF report_ok_start, of d cwd prepared ?xs fs] st by (simp_all add: start_applying_def)
  moreover have "counted no_counts = 0" by (simp add: counted_def no_counts_def)
  ultimately show ?thesis
    using r(2) unfolding answer
    by (auto simp: r(1) makeResult_def count_total count_kinds report_ok_def list_all_iff Let_def split: option.splits)
qed

definition answer_result :: "apply_answer \<Rightarrow> applied_edit option" where
  "answer_result a = (case a of AppliedAll r \<Rightarrow> Some r | MidApplication _ r \<Rightarrow> Some r | Refused _ \<Rightarrow> None)"

theorem report_counts_what_was_done_witness:
  "\<exists>r. answer_result (out_answer (applyWorkspaceEdit linked_disk linked_edit (units ''/w'') no_options True linked_tree)) = Some r \<and>
       ae_appliedOperationTotal r = 1 \<and> ae_appliedOperationTotal r \<le> ae_operationTotal r"
proof -
  let ?a = "out_answer (applyWorkspaceEdit linked_disk linked_edit (units ''/w'') no_options True linked_tree)"
  have "case ?a of AppliedAll r \<Rightarrow> ae_appliedOperationTotal r = 1 | _ \<Rightarrow> False" by code_simp
  then obtain r where r: "?a = AppliedAll r" "ae_appliedOperationTotal r = 1" by (cases ?a) auto
  then have "?a \<in> {AppliedAll r, MidApplication (CommitError (DiskError [])) r}" by simp
  from report_counts_what_was_done [OF this] r show ?thesis by (auto simp: answer_result_def)
qed

text \<open>A disk that writes down the paths it is asked to change.\<close>

definition logging_disk :: "js_text list disk" where
  "logging_disk =
     \<lparr>dk_env = (\<lambda>_. tree_env linked_tree [units ''w'']),
      dk_writeFile = (\<lambda>p c paths. (None, p # paths)), dk_writeNew = (\<lambda>p c paths. (None, p # paths)),
      dk_mkdir = (\<lambda>p paths. (None, p # paths)), dk_rm = (\<lambda>p r f paths. (None, p # paths)),
      dk_rename = (\<lambda>p q paths. (None, p # q # paths))\<rparr>"

theorem edit_writes_only_planned_paths_witness:
  "set (out_fs (applyWorkspaceEdit logging_disk linked_edit (units ''/w'') no_options True [])) \<subseteq> {units ''/w/l/a'', units ''/w/l''}"
proof -
  let ?k = "tree_kernel linked_tree [units ''w''] decode_url" and ?Q = "\<lambda>paths. set paths \<subseteq> {units ''/w/l/a'', units ''/w/l''}"
  have decode: "k_fileURLToPath (en_kernel (dk_env logging_disk fs)) = k_fileURLToPath ?k" for fs
    by (simp add: logging_disk_def tree_env_def)
  have plan: "planWorkspaceEdit (pathIndexKey (en_kernel (dk_env logging_disk []))) False linked_edit = Inr [TextOp linked_op]"
    by code_simp
  have "plannedDiskPaths ?k [TextOp linked_op] = [units ''/w/l/a'']" "dirname (units ''/w/l/a'') = units ''/w/l''" by code_simp+
  then have "keeps logging_disk ?Q (set (plannedDiskPaths ?k [TextOp linked_op]))"
    by (simp add: keeps_def logging_disk_def)
  from edit_writes_only_planned_paths [OF decode plan this, of "units ''/w''" no_options True] show ?thesis by simp
qed

section \<open>A rename that only changes case\<close>

text \<open>
  A disk that ignores case, with one file below \<open>/w\<close>: the state is the name on disk and the
  text, or nothing. A rename of the file to another case with \<open>overwrite\<close> passes the preflight,
  since source and destination are one entry; the commit removes the destination first, which
  is the source, and the rename then finds nothing. The file is gone.
\<close>

definition lower_text :: "js_text \<Rightarrow> js_text" where
  "lower_text p = map (\<lambda>c. if 65 \<le> c \<and> c \<le> 90 then c + 32 else c) p"

type_synonym one_file = "(js_text \<times> js_text) option"

definition names_file :: "one_file \<Rightarrow> js_text \<Rightarrow> bool" where
  "names_file fs p = (case fs of None \<Rightarrow> False | Some (name, _) \<Rightarrow> lower_text p = lower_text name)"

definition one_realpath :: "one_file \<Rightarrow> js_text \<Rightarrow> string + js_text" where
  "one_realpath fs p =
     (if p \<in> {units ''/'', units ''/w''} then Inr p
      else if names_file fs p then Inr (fst (the fs)) else Inl ''ENOENT'')"

definition one_env :: "one_file \<Rightarrow> edit_env" where
  "one_env fs =
     \<lparr>en_kernel = \<lparr>k_realpath = one_realpath fs,
        k_lstat = (\<lambda>p. map_sum id (\<lambda>_. if names_file fs p then IsOther else IsDirectory) (one_realpath fs p)),
        k_cwd = units ''/w'', k_fileURLToPath = decode_url, k_lower = lower_text, k_windowsForm = id\<rparr>,
      en_url = (\<lambda>uri. map_option (\<lambda>_. \<lparr>url_protocol = ''file:'', url_host = [], url_hostname = []\<rparr>) (decode_url uri)),
      en_fsIdentity = (\<lambda>p. if names_file fs p then Inr (1, 7) else Inl ''ENOENT''),
      en_readFile = (\<lambda>p. if names_file fs p then Inr (snd (the fs)) else Inl ''ENOENT'')\<rparr>"

definition one_disk :: "one_file disk" where
  "one_disk =
     \<lparr>dk_env = one_env, dk_writeFile = (\<lambda>p c fs. (None, Some (p, c))), dk_writeNew = (\<lambda>p c fs. (None, Some (p, c))),
      dk_mkdir = (\<lambda>p fs. (None, fs)),
      dk_rm = (\<lambda>p r force fs. if names_file fs p then (None, None) else (if force then None else Some ''ENOENT'', fs)),
      dk_rename = (\<lambda>p q fs. if names_file fs p then (None, Some (q, snd (the fs))) else (Some ''ENOENT'', fs))\<rparr>"

definition case_rename :: "bool \<Rightarrow> wire" where
  "case_rename overwrite =
     WObj [(units ''documentChanges'', WArr
       [WObj [(units ''kind'', WStr (units ''rename'')), (units ''oldUri'', WStr (units ''file:///w/foo'')),
              (units ''newUri'', WStr (units ''file:///w/Foo'')),
              (units ''options'', WObj [(units ''overwrite'', WBool overwrite)])]])]"

lemma case_rename_without_overwrite:
  "out_fs (applyWorkspaceEdit one_disk (case_rename False) (units ''/w'') no_options True (Some (units ''/w/foo'', units ''x''))) =
     Some (units ''/w/Foo'', units ''x'')"
  by code_simp

lemma case_rename_with_overwrite_loses_file:
  "out_fs (applyWorkspaceEdit one_disk (case_rename True) (units ''/w'') no_options True (Some (units ''/w/foo'', units ''x''))) = None"
  "out_answer (applyWorkspaceEdit one_disk (case_rename True) (units ''/w'') no_options True (Some (units ''/w/foo'', units ''x''))) =
     Refused (CommitError (DiskError ''ENOENT''))"
  by code_simp+

end
