(* ===== verification/Mutation_Queue.thy ===== *)
theory Mutation_Queue
  imports Js_Sort Line_Evidence "HOL-Library.List_Lexorder"
begin

text \<open>
  Writers of several files, \<open>withHostFileMutationQueues\<close> of
  \<open>src/clients/file-mutation-queue.ts\<close>. A writer resolves its paths to keys, drops duplicate
  keys, sorts them and enters the host's queue of each key in that order, one inside the other;
  its own work runs in the innermost, and the queues are left in reverse. Entering the queue of
  a key resolves the key once more.

  The host's queue of a key runs one entry at a time. In what order it admits waiting entries is
  left open: any waiting writer may be admitted to a key that nobody is inside of. \<open>realpath\<close>
  is \<open>realpathOrResolveAsync\<close>.
\<close>

section \<open>The order of entry\<close>

definition compareOrdinal :: "js_text \<Rightarrow> js_text \<Rightarrow> int" where
  "compareOrdinal a b = (if a < b then -1 else if b < a then 1 else 0)"

interpretation co: js_comparator compareOrdinal
  by unfold_locales (auto simp: compareOrdinal_def split: if_splits)

text \<open>\<open>[...new Set(keys)]\<close>.\<close>

fun js_unique :: "'a set \<Rightarrow> 'a list \<Rightarrow> 'a list" where
  "js_unique seen [] = []"
| "js_unique seen (x # xs) = (if x \<in> seen then js_unique seen xs else x # js_unique (insert x seen) xs)"

definition queue_keys :: "(js_text \<Rightarrow> js_text) \<Rightarrow> js_text list \<Rightarrow> js_text list" where
  "queue_keys realpath filePaths = js_sort compareOrdinal (js_unique {} (map realpath filePaths))"

lemma js_unique_spec: "distinct (js_unique seen xs) \<and> set (js_unique seen xs) = set xs - seen"
  by (induction xs arbitrary: seen) auto

lemma queue_keys_set: "set (queue_keys realpath filePaths) = realpath ` set filePaths"
  by (simp add: queue_keys_def js_unique_spec)

lemma queue_keys_ascending: "sorted_wrt (<) (queue_keys realpath filePaths)"
proof -
  let ?ks = "queue_keys realpath filePaths"
  have "sorted_wrt (\<lambda>a b. compareOrdinal a b \<le> 0) ?ks"
    unfolding queue_keys_def by (rule co.sorted_js_sort)
  then have "sorted ?ks" by (rule sorted_wrt_mono_rel [rotated]) (auto simp: compareOrdinal_def split: if_splits)
  moreover have "distinct ?ks" by (simp add: queue_keys_def js_unique_spec)
  ultimately show ?thesis by (simp add: strict_sorted_iff)
qed

section \<open>Writers and the host's queues\<close>

text \<open>
  A writer is inside the first \<open>n\<close> of its queues while it enters (and runs once it is inside all
  of them), or while it leaves.
\<close>

datatype phase = Entering nat | Leaving nat

definition inside :: "js_text list \<Rightarrow> phase \<Rightarrow> js_text set" where
  "inside keys p = (case p of Entering n \<Rightarrow> set (take n keys) | Leaving n \<Rightarrow> set (take n keys))"

record writer =
  w_paths :: "js_text list"
  w_phase :: phase

definition writer_keys :: "(js_text \<Rightarrow> js_text) \<Rightarrow> writer \<Rightarrow> js_text list" where
  "writer_keys realpath w = map realpath (queue_keys realpath (w_paths w))"

definition writer_inside :: "(js_text \<Rightarrow> js_text) \<Rightarrow> writer \<Rightarrow> js_text set" where
  "writer_inside realpath w = inside (writer_keys realpath w) (w_phase w)"

definition key_free :: "(js_text \<Rightarrow> js_text) \<Rightarrow> writer list \<Rightarrow> js_text \<Rightarrow> bool" where
  "key_free realpath ws key = list_all (\<lambda>w. key \<notin> writer_inside realpath w) ws"

text \<open>What writer \<open>i\<close> may do next; \<open>None\<close> when it waits or has finished.\<close>

definition next_phase :: "(js_text \<Rightarrow> js_text) \<Rightarrow> writer list \<Rightarrow> nat \<Rightarrow> phase option" where
  "next_phase realpath ws i =
     (let keys = writer_keys realpath (ws ! i)
      in case w_phase (ws ! i) of
           Entering n \<Rightarrow>
             if n < length keys then (if key_free realpath ws (keys ! n) then Some (Entering (Suc n)) else None)
             else Some (Leaving n)
         | Leaving (Suc n) \<Rightarrow> Some (Leaving n)
         | Leaving 0 \<Rightarrow> None)"

inductive writer_step :: "(js_text \<Rightarrow> js_text) \<Rightarrow> writer list \<Rightarrow> writer list \<Rightarrow> bool"
  for realpath :: "js_text \<Rightarrow> js_text" where
  advance: "i < length ws \<Longrightarrow> next_phase realpath ws i = Some p \<Longrightarrow>
            writer_step realpath ws (ws[i := (ws ! i)\<lparr>w_phase := p\<rparr>])"

definition finished :: "writer list \<Rightarrow> bool" where
  "finished ws = list_all (\<lambda>w. w_phase w = Leaving 0) ws"

inductive_cases writer_stepE: "writer_step realpath ws ws'"

section \<open>Mutual exclusion\<close>

definition exclusive :: "(js_text \<Rightarrow> js_text) \<Rightarrow> writer list \<Rightarrow> bool" where
  "exclusive realpath ws \<longleftrightarrow>
     (\<forall>i j. i < length ws \<longrightarrow> j < length ws \<longrightarrow> i \<noteq> j \<longrightarrow>
        writer_inside realpath (ws ! i) \<inter> writer_inside realpath (ws ! j) = {})"

definition within :: "(js_text \<Rightarrow> js_text) \<Rightarrow> writer \<Rightarrow> bool" where
  "within realpath w =
     (case w_phase w of Entering n \<Rightarrow> n \<le> length (writer_keys realpath w)
      | Leaving n \<Rightarrow> n \<le> length (writer_keys realpath w))"

lemma writer_keys_phase [simp]: "writer_keys realpath (w\<lparr>w_phase := p\<rparr>) = writer_keys realpath w"
  by (simp add: writer_keys_def)

lemma step_inside:
  assumes "next_phase realpath ws i = Some p" "within realpath (ws ! i)"
  shows "within realpath ((ws ! i)\<lparr>w_phase := p\<rparr>)"
    and "writer_inside realpath ((ws ! i)\<lparr>w_phase := p\<rparr>) \<subseteq>
         writer_inside realpath (ws ! i) \<union> {k. key_free realpath ws k}"
  using assms
  by (auto simp: next_phase_def Let_def within_def writer_inside_def inside_def take_Suc_conv_app_nth
      split: phase.splits nat.splits if_splits dest: in_set_takeD set_take_subset_set_take [THEN subsetD, rotated])

lemma step_exclusive:
  assumes "writer_step realpath ws ws'" "exclusive realpath ws" "list_all (within realpath) ws"
  shows "exclusive realpath ws' \<and> list_all (within realpath) ws'"
  using assms(1)
proof cases
  case (advance i p)
  then have i: "within realpath (ws ! i)" using assms(3) by (simp add: list_all_length)
  note st = step_inside [OF advance(3) i]
  let ?w = "(ws ! i)\<lparr>w_phase := p\<rparr>"
  have other: "writer_inside realpath ?w \<inter> writer_inside realpath (ws ! j) = {}"
    if "j < length ws" "j \<noteq> i" for j
  proof -
    have "writer_inside realpath (ws ! i) \<inter> writer_inside realpath (ws ! j) = {}"
      using assms(2) advance(2) that by (auto simp: exclusive_def)
    moreover have "k \<notin> writer_inside realpath (ws ! j)" if "key_free realpath ws k" for k
      using that \<open>j < length ws\<close> by (simp add: key_free_def list_all_length)
    ultimately show ?thesis using st(2) by blast
  qed
  have "writer_inside realpath (ws' ! a) \<inter> writer_inside realpath (ws' ! b) = {}"
    if "a < length ws'" "b < length ws'" "a \<noteq> b" for a b
  proof -
    have "a < length ws" "b < length ws" using that by (simp_all add: advance(1))
    with that(3) show ?thesis
      using other [of a] other [of b] assms(2) unfolding advance(1) exclusive_def
      by (cases "a = i"; cases "b = i") (simp_all add: nth_list_update Int_commute)
  qed
  then have "exclusive realpath ws'" by (simp add: exclusive_def)
  moreover have "list_all (within realpath) ws'"
    using assms(3) st(1) advance(2) by (auto simp: advance(1) list_all_length nth_list_update)
  ultimately show ?thesis ..
qed

section \<open>No deadlock\<close>

text \<open>What a writer has left to do; every step of the system makes the sum smaller.\<close>

definition remaining :: "(js_text \<Rightarrow> js_text) \<Rightarrow> writer \<Rightarrow> nat" where
  "remaining realpath w =
     (case w_phase w of Entering n \<Rightarrow> 2 * length (writer_keys realpath w) + 1 - n | Leaving n \<Rightarrow> n)"

lemma step_remaining:
  assumes "writer_step realpath ws ws'" "list_all (within realpath) ws"
  shows "sum_list (map (remaining realpath) ws') < sum_list (map (remaining realpath) ws)"
  using assms(1)
proof cases
  case (advance i p)
  let ?w = "(ws ! i)\<lparr>w_phase := p\<rparr>"
  have "within realpath (ws ! i)" using assms(2) advance(2) by (simp add: list_all_length)
  then have less: "remaining realpath ?w < remaining realpath (ws ! i)"
    using advance(3)
    by (auto simp: next_phase_def Let_def remaining_def within_def split: phase.splits nat.splits if_splits)
  have "ws = take i ws @ ws ! i # drop (Suc i) ws" using advance(2) by (rule id_take_nth_drop)
  then have "sum_list (map (remaining realpath) ws) =
      sum_list (map (remaining realpath) (take i ws @ ws ! i # drop (Suc i) ws))" by simp
  moreover have "ws' = take i ws @ ?w # drop (Suc i) ws"
    using advance(1,2) by (simp add: upd_conv_take_nth_drop)
  ultimately show ?thesis using less by simp
qed

text \<open>The writer that waits for the greatest key is not blocked.\<close>

definition waits_for :: "(js_text \<Rightarrow> js_text) \<Rightarrow> writer \<Rightarrow> js_text option" where
  "waits_for realpath w =
     (case w_phase w of
        Entering n \<Rightarrow> if n < length (writer_keys realpath w) then Some (writer_keys realpath w ! n) else None
      | Leaving n \<Rightarrow> None)"

lemma ascending_inside:
  assumes "sorted_wrt (<) (writer_keys realpath w)" "waits_for realpath w = Some k" "k' \<in> writer_inside realpath w"
  shows "k' < k"
  using assms
  by (auto simp: waits_for_def writer_inside_def inside_def in_set_conv_nth sorted_wrt_iff_nth_less
      split: phase.splits if_splits)

lemma idle_or_waiting:
  assumes "next_phase realpath ws i = None"
  shows "w_phase (ws ! i) = Leaving 0 \<or>
         (\<exists>k. waits_for realpath (ws ! i) = Some k \<and> \<not> key_free realpath ws k)"
  using assms by (auto simp: next_phase_def Let_def waits_for_def split: phase.splits nat.splits if_splits)

lemma progress:
  assumes asc: "\<And>w. sorted_wrt (<) (writer_keys realpath w)" and "\<not> finished ws"
  shows "\<exists>ws'. writer_step realpath ws ws'"
proof (rule ccontr)
  assume "\<nexists>ws'. writer_step realpath ws ws'"
  then have stuck: "next_phase realpath ws i = None" if "i < length ws" for i
    using that by (cases "next_phase realpath ws i") (auto intro: writer_step.intros)
  let ?K = "{k. \<exists>w \<in> set ws. waits_for realpath w = Some k}"
  have fin: "finite ?K" by (rule finite_surj [of "set ws" _ "\<lambda>w. the (waits_for realpath w)"]) force+
  from assms(2) obtain i where "i < length ws" "w_phase (ws ! i) \<noteq> Leaving 0"
    by (auto simp: finished_def list_all_length)
  then have "?K \<noteq> {}" using idle_or_waiting [OF stuck] nth_mem by blast
  note max = Max_in [OF fin this] Max_ge [OF fin]
  from max(1) obtain i where i: "i < length ws" "waits_for realpath (ws ! i) = Some (Max ?K)"
    by (auto simp: in_set_conv_nth)
  then have "w_phase (ws ! i) \<noteq> Leaving 0" by (auto simp: waits_for_def)
  with i idle_or_waiting [OF stuck [OF i(1)]] have "\<not> key_free realpath ws (Max ?K)" by simp
  then obtain j where j: "j < length ws" "Max ?K \<in> writer_inside realpath (ws ! j)"
    by (auto simp: key_free_def list_all_length)
  then have "w_phase (ws ! j) \<noteq> Leaving 0" by (auto simp: writer_inside_def inside_def)
  with idle_or_waiting [OF stuck [OF j(1)]] obtain k where k: "waits_for realpath (ws ! j) = Some k" by blast
  with j have "k \<le> Max ?K" using max(2) nth_mem by blast
  moreover have "Max ?K < k" by (rule ascending_inside [OF asc k j(2)])
  ultimately show False by simp
qed

lemma runs_to_the_end:
  assumes asc: "\<And>w. sorted_wrt (<) (writer_keys realpath w)"
  shows "exclusive realpath ws \<Longrightarrow> list_all (within realpath) ws \<Longrightarrow>
         \<exists>ws'. (writer_step realpath)\<^sup>*\<^sup>* ws ws' \<and> finished ws'"
proof (induction "sum_list (map (remaining realpath) ws)" arbitrary: ws rule: less_induct)
  case less
  show ?case
  proof (cases "finished ws")
    case False
    then obtain ws1 where s: "writer_step realpath ws ws1" using progress [OF asc] by blast
    with less step_exclusive [OF s] step_remaining [OF s] obtain ws'
      where "(writer_step realpath)\<^sup>*\<^sup>* ws1 ws'" "finished ws'" by blast
    with s show ?thesis by (meson converse_rtranclp_into_rtranclp)
  qed auto
qed

lemma writer_keys_ascending:
  assumes "\<And>p. realpath (realpath p) = realpath p"
  shows "sorted_wrt (<) (writer_keys realpath w)"
proof -
  have "map realpath (queue_keys realpath (w_paths w)) = queue_keys realpath (w_paths w)"
    by (rule map_idI) (use queue_keys_set [of realpath "w_paths w"] assms in auto)
  then show ?thesis by (simp add: writer_keys_def queue_keys_ascending)
qed

lemma run_exclusive:
  assumes "(writer_step realpath)\<^sup>*\<^sup>* ws ws'" "exclusive realpath ws" "list_all (within realpath) ws"
  shows "exclusive realpath ws' \<and> list_all (within realpath) ws'"
  using assms by (induction rule: rtranclp_induct) (auto dest: step_exclusive)

lemma start_exclusive:
  assumes "list_all (\<lambda>w. w_phase w = Entering 0) ws"
  shows "exclusive realpath ws \<and> list_all (within realpath) ws"
  using assms by (auto simp: list_all_length exclusive_def within_def writer_inside_def inside_def)

text \<open>
  C22: writers of several files never deadlock and never overlap. Whatever files they name, in
  whatever order and spelling, and however the host interleaves them: two writers are never
  inside the queue of the same key, every step brings the system closer to its end, and from
  every state it can reach all of them can finish. Resolving a path twice gives what
  resolving it once gives.
\<close>

theorem mutation_queues_never_deadlock:
  assumes "\<And>p. realpath (realpath p) = realpath p"
    and "list_all (\<lambda>w. w_phase w = Entering 0) ws0"
    and "(writer_step realpath)\<^sup>*\<^sup>* ws0 ws"
  shows "exclusive realpath ws \<and>
         (\<forall>ws'. writer_step realpath ws ws' \<longrightarrow>
            sum_list (map (remaining realpath) ws') < sum_list (map (remaining realpath) ws)) \<and>
         (\<exists>ws'. (writer_step realpath)\<^sup>*\<^sup>* ws ws' \<and> finished ws')"
proof -
  have asc: "sorted_wrt (<) (writer_keys realpath w)" for w by (rule writer_keys_ascending) (rule assms(1))
  from assms(2) have start: "exclusive realpath ws0" "list_all (within realpath) ws0"
    by (simp_all add: start_exclusive)
  from run_exclusive [OF assms(3) start]
  have inv: "exclusive realpath ws" "list_all (within realpath) ws" by simp_all
  from inv runs_to_the_end [OF asc inv] step_remaining [OF _ inv(2)] show ?thesis by blast
qed

text \<open>Two writers that name the same two files in opposite orders; the first is inside one queue.\<close>

definition demo_writers :: "nat \<Rightarrow> writer list" where
  "demo_writers n =
     [\<lparr>w_paths = [[98], [97]], w_phase = Entering n\<rparr>, \<lparr>w_paths = [[97], [98], [97]], w_phase = Entering 0\<rparr>]"

theorem mutation_queues_never_deadlock_witness:
  "next_phase id (demo_writers 1) 1 = None \<and>
   (\<exists>ws'. (writer_step id)\<^sup>*\<^sup>* (demo_writers 1) ws' \<and> finished ws')"
proof -
  have "next_phase id (demo_writers 0) 0 = Some (Entering 1)" by code_simp
  then have "writer_step id (demo_writers 0) ((demo_writers 0)[0 := (demo_writers 0 ! 0)\<lparr>w_phase := Entering 1\<rparr>])"
    by (intro writer_step.intros) (simp_all add: demo_writers_def)
  then have "(writer_step id)\<^sup>*\<^sup>* (demo_writers 0) (demo_writers 1)" by (simp add: demo_writers_def)
  moreover have "list_all (\<lambda>w. w_phase w = Entering 0) (demo_writers 0)" by (simp add: demo_writers_def)
  moreover have "next_phase id (demo_writers 1) 1 = None" by code_simp
  ultimately show ?thesis using mutation_queues_never_deadlock [of id "demo_writers 0" "demo_writers 1"] by simp
qed

end
