(* ===== verification/Single_Flight.thy ===== *)
theory Single_Flight
  imports Lens_Prelude
begin

text \<open>
  At most one execution per key, \<open>src/clients/single-flight.ts\<close>. Flights are objects with
  identity, so they live in a heap (a list; a flight's identity is its position) and the map
  of \<open>createSingleFlight\<close> holds identities.

  Time is a counter that every event advances. A value a pass yields is named by the time its
  pass began, which is what freshness is about; a flight is in one of three states: a pass that
  began at some time is running; its chain has returned, but the reaction that releases the
  key and settles the promise is still queued; or it is settled. \<open>callers\<close> records who was
  handed which promise, and when.
\<close>

datatype outcome = Value nat | Failed

datatype flight_state =
    Passing nat
  | Returned nat outcome
  | Settled nat outcome

record flight =
  fl_key :: string
  fl_generation :: nat
  fl_rerunRequested :: bool
  fl_state :: flight_state
  fl_epoch :: nat

record single_flight =
  sf_coalesceTrailing :: bool
  sf_generation :: nat
  sf_heap :: "flight list"
  sf_flights :: "(string, nat) jmap"
  sf_now :: nat
  sf_epoch :: nat
  sf_callers :: "(nat \<times> nat) list"

definition createSingleFlight :: "bool \<Rightarrow> single_flight" where
  "createSingleFlight coalesceTrailing =
     \<lparr>sf_coalesceTrailing = coalesceTrailing, sf_generation = 0, sf_heap = [], sf_flights = [],
      sf_now = 0, sf_epoch = 0, sf_callers = []\<rparr>"

section \<open>Operations\<close>

definition release :: "string \<Rightarrow> nat \<Rightarrow> single_flight \<Rightarrow> single_flight" where
  "release key flight sf =
     (if jm_get (sf_flights sf) key \<noteq> Some flight then sf
      else sf\<lparr>sf_flights := jm_delete key (sf_flights sf)\<rparr>)"

definition start_flight :: "string \<Rightarrow> single_flight \<Rightarrow> single_flight" where
  "start_flight key sf =
     sf\<lparr>sf_heap := sf_heap sf @ [\<lparr>fl_key = key, fl_generation = sf_generation sf,
                                 fl_rerunRequested = False, fl_state = Passing (sf_now sf),
                                 fl_epoch = sf_epoch sf\<rparr>],
        sf_flights := jm_set key (length (sf_heap sf)) (sf_flights sf),
        sf_callers := sf_callers sf @ [(length (sf_heap sf), sf_now sf)]\<rparr>"

text \<open>
  \<open>run\<close>: a caller joins the flight of its key and generation, or starts one, whose first pass
  begins at once.
\<close>

definition run :: "string \<Rightarrow> single_flight \<Rightarrow> single_flight" where
  "run key sf =
     (case jm_get (sf_flights sf) key of
        Some existing \<Rightarrow>
          if fl_generation (sf_heap sf ! existing) = sf_generation sf
          then sf\<lparr>sf_heap := (if sf_coalesceTrailing sf
                              then (sf_heap sf)[existing := (sf_heap sf ! existing)\<lparr>fl_rerunRequested := True\<rparr>]
                              else sf_heap sf),
                  sf_callers := sf_callers sf @ [(existing, sf_now sf)]\<rparr>
          else start_flight key sf
      | None \<Rightarrow> start_flight key sf)"

text \<open>
  The chain of a flight resumes after a pass: it begins another one when a rerun was requested,
  and returns otherwise. A pass that throws ends the chain.
\<close>

definition pass_ends :: "nat \<Rightarrow> bool \<Rightarrow> single_flight \<Rightarrow> single_flight" where
  "pass_ends i ok sf =
     (if i < length (sf_heap sf) then
        let f = sf_heap sf ! i in
        (case fl_state f of
           Passing began \<Rightarrow>
             sf\<lparr>sf_heap := (sf_heap sf)[i :=
                (if ok \<and> fl_rerunRequested f then f\<lparr>fl_rerunRequested := False, fl_state := Passing (sf_now sf)\<rparr>
                 else f\<lparr>fl_state := Returned (sf_now sf) (if ok then Value began else Failed)\<rparr>)]\<rparr>
         | _ \<Rightarrow> sf)
      else sf)"

text \<open>The reaction to the chain: the key is released and the shared promise settled.\<close>

definition settle :: "nat \<Rightarrow> single_flight \<Rightarrow> single_flight" where
  "settle i sf =
     (if i < length (sf_heap sf) then
        let f = sf_heap sf ! i in
        (case fl_state f of
           Returned r out \<Rightarrow>
             (release (fl_key f) i sf)\<lparr>sf_heap := (sf_heap sf)[i := f\<lparr>fl_state := Settled r out\<rparr>]\<rparr>
         | _ \<Rightarrow> sf)
      else sf)"

definition sf_clear :: "single_flight \<Rightarrow> single_flight" where
  "sf_clear sf = sf\<lparr>sf_flights := [], sf_epoch := Suc (sf_epoch sf)\<rparr>"

definition sf_has :: "single_flight \<Rightarrow> string \<Rightarrow> bool" where
  "sf_has sf key = jm_has (sf_flights sf) key"

definition hasPendingRerun :: "single_flight \<Rightarrow> string \<Rightarrow> bool" where
  "hasPendingRerun sf key =
     (case jm_get (sf_flights sf) key of None \<Rightarrow> False | Some i \<Rightarrow> fl_rerunRequested (sf_heap sf ! i))"

definition sf_size :: "single_flight \<Rightarrow> nat" where
  "sf_size sf = length (sf_flights sf)"

section \<open>Runs\<close>

datatype sf_event = Run string | PassEnds nat bool | Settle nat | Clear | BumpGeneration

fun sf_react :: "sf_event \<Rightarrow> single_flight \<Rightarrow> single_flight" where
  "sf_react (Run key) sf = run key sf"
| "sf_react (PassEnds i ok) sf = pass_ends i ok sf"
| "sf_react (Settle i) sf = settle i sf"
| "sf_react Clear sf = sf_clear sf"
| "sf_react BumpGeneration sf = sf\<lparr>sf_generation := Suc (sf_generation sf)\<rparr>"

definition sf_apply :: "sf_event \<Rightarrow> single_flight \<Rightarrow> single_flight" where
  "sf_apply e sf = (sf_react e sf)\<lparr>sf_now := Suc (sf_now sf)\<rparr>"

section \<open>The invariant\<close>

definition unsettled :: "flight \<Rightarrow> bool" where
  "unsettled f = (case fl_state f of Settled _ _ \<Rightarrow> False | _ \<Rightarrow> True)"

text \<open>
  The flights that belong to the present: their generation is current and no \<open>clear\<close> came since
  they began. \<open>fl_epoch\<close> and \<open>sf_epoch\<close> count the calls of \<open>clear\<close>; no operation reads them, they
  are history for the proof, and the statements on exclusion do not mention them.
\<close>

definition current :: "single_flight \<Rightarrow> flight \<Rightarrow> bool" where
  "current sf f = (unsettled f \<and> fl_generation f = sf_generation sf \<and> fl_epoch f = sf_epoch sf)"

text \<open>What a caller that was handed the promise of \<open>f\<close> at time \<open>a\<close> can expect.\<close>

definition fresh_for :: "flight \<Rightarrow> nat \<Rightarrow> bool" where
  "fresh_for f a =
     (case fl_state f of
        Passing began \<Rightarrow> a \<le> began \<or> fl_rerunRequested f
      | Returned r (Value began) \<Rightarrow> a \<le> began \<or> r \<le> a
      | Settled r (Value began) \<Rightarrow> a \<le> began \<or> r \<le> a
      | _ \<Rightarrow> True)"

definition returned_by :: "nat \<Rightarrow> flight \<Rightarrow> bool" where
  "returned_by t f = (case fl_state f of Returned r _ \<Rightarrow> r < t | Settled r _ \<Rightarrow> r < t | Passing _ \<Rightarrow> True)"

definition heap_ok :: "single_flight \<Rightarrow> bool" where
  "heap_ok sf \<longleftrightarrow>
     (\<forall>i < length (sf_heap sf). let f = sf_heap sf ! i in
        fl_generation f \<le> sf_generation sf \<and> fl_epoch f \<le> sf_epoch sf \<and> returned_by (sf_now sf) f)"

text \<open>The map names unsettled flights of its keys, and every current flight is in it.\<close>

definition map_ok :: "single_flight \<Rightarrow> bool" where
  "map_ok sf \<longleftrightarrow>
     (\<forall>key i. jm_get (sf_flights sf) key = Some i \<longrightarrow>
        i < length (sf_heap sf) \<and> fl_key (sf_heap sf ! i) = key \<and> unsettled (sf_heap sf ! i)) \<and>
     (\<forall>i < length (sf_heap sf). current sf (sf_heap sf ! i) \<longrightarrow>
        jm_get (sf_flights sf) (fl_key (sf_heap sf ! i)) = Some i)"

definition callers_ok :: "single_flight \<Rightarrow> bool" where
  "callers_ok sf \<longleftrightarrow>
     (\<forall>(i, a) \<in> set (sf_callers sf). i < length (sf_heap sf) \<and> a < sf_now sf \<and>
        (sf_coalesceTrailing sf \<longrightarrow> fresh_for (sf_heap sf ! i) a))"

definition sf_inv :: "single_flight \<Rightarrow> bool" where
  "sf_inv sf \<longleftrightarrow> heap_ok sf \<and> map_ok sf \<and> callers_ok sf"

lemmas sf_inv_defs = sf_inv_def heap_ok_def map_ok_def callers_ok_def Let_def

lemma sf_inv_create: "sf_inv (createSingleFlight c)"
  by (simp add: sf_inv_defs createSingleFlight_def)

lemma sf_inv_now: "sf_inv sf \<Longrightarrow> sf_inv (sf\<lparr>sf_now := Suc (sf_now sf)\<rparr>)"
  by (auto simp: sf_inv_defs returned_by_def current_def less_Suc_eq split: flight_state.splits)

text \<open>Replacing one flight of the heap.\<close>

lemma sf_inv_replace:
  assumes inv: "sf_inv sf" and i: "i < length (sf_heap sf)"
    and same: "fl_key f = fl_key (sf_heap sf ! i)" "fl_generation f = fl_generation (sf_heap sf ! i)"
      "fl_epoch f = fl_epoch (sf_heap sf ! i)" "unsettled f" "unsettled (sf_heap sf ! i)"
    and ret: "returned_by (Suc (sf_now sf)) f"
    and fresh: "\<And>a. (i, a) \<in> set callers \<Longrightarrow> a \<le> sf_now sf \<Longrightarrow> sf_coalesceTrailing sf \<Longrightarrow> fresh_for f a"
    and callers: "set callers \<subseteq> set (sf_callers sf) \<union> {(i, sf_now sf)}"
  shows "sf_inv (sf\<lparr>sf_heap := (sf_heap sf)[i := f], sf_callers := callers, sf_now := Suc (sf_now sf)\<rparr>)"
proof -
  have "heap_ok sf" "map_ok sf" "callers_ok sf" using inv by (simp_all add: sf_inv_def)
  then have "heap_ok (sf\<lparr>sf_heap := (sf_heap sf)[i := f], sf_callers := callers, sf_now := Suc (sf_now sf)\<rparr>)"
    using i same ret
    by (auto simp: heap_ok_def Let_def nth_list_update returned_by_def less_Suc_eq split: flight_state.splits)
  moreover have "map_ok (sf\<lparr>sf_heap := (sf_heap sf)[i := f], sf_callers := callers, sf_now := Suc (sf_now sf)\<rparr>)"
    using \<open>map_ok sf\<close> i same by (auto simp: map_ok_def current_def nth_list_update)
  moreover have "callers_ok (sf\<lparr>sf_heap := (sf_heap sf)[i := f], sf_callers := callers, sf_now := Suc (sf_now sf)\<rparr>)"
  proof -
    have old: "j < length (sf_heap sf) \<and> a \<le> sf_now sf" if "(j, a) \<in> set callers" for j a
      using subsetD [OF callers that] \<open>callers_ok sf\<close> i by (auto simp: callers_ok_def)
    have other: "fresh_for (sf_heap sf ! j) a" if "(j, a) \<in> set callers" "j \<noteq> i" "sf_coalesceTrailing sf" for j a
      using subsetD [OF callers that(1)] \<open>callers_ok sf\<close> that(2,3) by (auto simp: callers_ok_def)
    have "(j, a) \<in> set callers \<Longrightarrow> j < length (sf_heap sf) \<and> a < Suc (sf_now sf) \<and>
        (sf_coalesceTrailing sf \<longrightarrow> fresh_for ((sf_heap sf)[i := f] ! j) a)" for j a
      using old [of j a] other [of j a] fresh [of a] i by (cases "j = i") auto
    then show ?thesis unfolding callers_ok_def by auto
  qed
  ultimately show ?thesis by (simp add: sf_inv_def)
qed

section \<open>Every event keeps the invariant\<close>

lemma sf_inv_mapped:
  assumes "sf_inv sf" "jm_get (sf_flights sf) key = Some i"
  shows "i < length (sf_heap sf)" "fl_key (sf_heap sf ! i) = key" "unsettled (sf_heap sf ! i)"
  using assms by (auto simp: sf_inv_defs)

lemma sf_inv_returned: "sf_inv sf \<Longrightarrow> i < length (sf_heap sf) \<Longrightarrow> returned_by (sf_now sf) (sf_heap sf ! i)"
  by (simp add: sf_inv_defs)

lemma sf_inv_caller:
  "sf_inv sf \<Longrightarrow> (i, a) \<in> set (sf_callers sf) \<Longrightarrow>
   i < length (sf_heap sf) \<and> a < sf_now sf \<and> (sf_coalesceTrailing sf \<longrightarrow> fresh_for (sf_heap sf ! i) a)"
  by (auto simp: sf_inv_defs)

lemma start_flight_inv:
  assumes inv: "sf_inv sf"
    and none: "\<And>i. jm_get (sf_flights sf) key = Some i \<Longrightarrow> fl_generation (sf_heap sf ! i) \<noteq> sf_generation sf"
  shows "sf_inv ((start_flight key sf)\<lparr>sf_now := Suc (sf_now sf)\<rparr>)"
proof -
  have parts: "heap_ok sf" "map_ok sf" "callers_ok sf" using inv by (simp_all add: sf_inv_def)
  have nocur: "\<not> current sf (sf_heap sf ! i)" if "i < length (sf_heap sf)" "fl_key (sf_heap sf ! i) = key" for i
    using that parts(2) none by (auto simp: map_ok_def current_def)
  have "heap_ok ((start_flight key sf)\<lparr>sf_now := Suc (sf_now sf)\<rparr>)"
    using parts(1)
    by (auto simp: heap_ok_def start_flight_def Let_def nth_append returned_by_def less_Suc_eq split: flight_state.splits)
  moreover have "map_ok ((start_flight key sf)\<lparr>sf_now := Suc (sf_now sf)\<rparr>)"
    using parts(2) nocur
    by (fastforce simp: map_ok_def start_flight_def jm_get_set nth_append current_def unsettled_def less_Suc_eq)
  moreover have "callers_ok ((start_flight key sf)\<lparr>sf_now := Suc (sf_now sf)\<rparr>)"
    using parts(3) by (fastforce simp: callers_ok_def start_flight_def nth_append fresh_for_def)
  ultimately show ?thesis by (simp add: sf_inv_def)
qed

lemma run_flight_inv: assumes "sf_inv sf" shows "sf_inv ((run key sf)\<lparr>sf_now := Suc (sf_now sf)\<rparr>)"
proof (cases "\<exists>i. jm_get (sf_flights sf) key = Some i \<and> fl_generation (sf_heap sf ! i) = sf_generation sf")
  case True
  then obtain i where i: "jm_get (sf_flights sf) key = Some i" "fl_generation (sf_heap sf ! i) = sf_generation sf" by blast
  note mapped = sf_inv_mapped [OF assms i(1)]
  let ?f = "if sf_coalesceTrailing sf then (sf_heap sf ! i)\<lparr>fl_rerunRequested := True\<rparr> else sf_heap sf ! i"
  have ret: "returned_by (sf_now sf) (sf_heap sf ! i)" by (rule sf_inv_returned [OF assms mapped(1)])
  have run: "(run key sf)\<lparr>sf_now := Suc (sf_now sf)\<rparr> =
      sf\<lparr>sf_heap := (sf_heap sf)[i := ?f], sf_callers := sf_callers sf @ [(i, sf_now sf)], sf_now := Suc (sf_now sf)\<rparr>"
    using i mapped(1) by (simp add: run_def)
  show ?thesis unfolding run
  proof (rule sf_inv_replace [OF assms mapped(1)])
    show "returned_by (Suc (sf_now sf)) ?f"
      using ret by (auto simp: returned_by_def split: flight_state.splits)
    show "fresh_for ?f a" if "(i, a) \<in> set (sf_callers sf @ [(i, sf_now sf)])" "a \<le> sf_now sf" "sf_coalesceTrailing sf" for a
      using that sf_inv_caller [OF assms, of i a] ret mapped(3)
      by (auto simp: fresh_for_def returned_by_def unsettled_def split: flight_state.splits outcome.splits)
  qed (use mapped in \<open>auto simp: unsettled_def\<close>)
next
  case False
  then have "run key sf = start_flight key sf" by (auto simp: run_def split: option.splits)
  with False show ?thesis using start_flight_inv [OF assms] by simp
qed

lemma pass_ends_inv: assumes "sf_inv sf" shows "sf_inv ((pass_ends i ok sf)\<lparr>sf_now := Suc (sf_now sf)\<rparr>)"
proof (cases "i < length (sf_heap sf) \<and> (\<exists>t. fl_state (sf_heap sf ! i) = Passing t)")
  case True
  then obtain t where t: "i < length (sf_heap sf)" "fl_state (sf_heap sf ! i) = Passing t" by blast
  let ?f = "sf_heap sf ! i"
  let ?f' = "if ok \<and> fl_rerunRequested ?f then ?f\<lparr>fl_rerunRequested := False, fl_state := Passing (sf_now sf)\<rparr>
     else ?f\<lparr>fl_state := Returned (sf_now sf) (if ok then Value t else Failed)\<rparr>"
  have eq: "(pass_ends i ok sf)\<lparr>sf_now := Suc (sf_now sf)\<rparr> =
      sf\<lparr>sf_heap := (sf_heap sf)[i := ?f'], sf_callers := sf_callers sf, sf_now := Suc (sf_now sf)\<rparr>"
    using t by (simp add: pass_ends_def)
  show ?thesis unfolding eq
  proof (rule sf_inv_replace [OF assms t(1)])
    show "fresh_for ?f' a" if "(i, a) \<in> set (sf_callers sf)" "a \<le> sf_now sf" "sf_coalesceTrailing sf" for a
      using that sf_inv_caller [OF assms that(1)] t by (auto simp: fresh_for_def)
  qed (use t in \<open>auto simp: unsettled_def returned_by_def\<close>)
next
  case False
  then have "pass_ends i ok sf = sf" by (auto simp: pass_ends_def Let_def split: flight_state.splits)
  then show ?thesis using sf_inv_now [OF assms] by simp
qed

lemma settle_inv: assumes "sf_inv sf" shows "sf_inv ((settle i sf)\<lparr>sf_now := Suc (sf_now sf)\<rparr>)"
proof (cases "i < length (sf_heap sf) \<and> (\<exists>r out. fl_state (sf_heap sf ! i) = Returned r out)")
  case True
  then obtain r out where r: "i < length (sf_heap sf)" "fl_state (sf_heap sf ! i) = Returned r out" by blast
  let ?f = "sf_heap sf ! i" let ?f' = "?f\<lparr>fl_state := Settled r out\<rparr>"
  let ?m = "if jm_get (sf_flights sf) (fl_key ?f) \<noteq> Some i then sf_flights sf else jm_delete (fl_key ?f) (sf_flights sf)"
  let ?s = "sf\<lparr>sf_heap := (sf_heap sf)[i := ?f'], sf_flights := ?m, sf_now := Suc (sf_now sf)\<rparr>"
  have eq: "(settle i sf)\<lparr>sf_now := Suc (sf_now sf)\<rparr> = ?s"
    using r by (simp add: settle_def release_def Let_def)
  have parts: "heap_ok sf" "map_ok sf" "callers_ok sf" using assms by (simp_all add: sf_inv_def)
  have "heap_ok ?s"
    using parts(1) r
    by (auto simp: heap_ok_def Let_def nth_list_update returned_by_def less_Suc_eq split: flight_state.splits)
  moreover have "map_ok ?s"
  proof -
    have mp: "fl_key (sf_heap sf ! j) = key" if "jm_get (sf_flights sf) key = Some j" for key j
      by (rule sf_inv_mapped(2) [OF assms that])
    have m: "jm_get ?m key =
        (if jm_get (sf_flights sf) key = Some i then None else jm_get (sf_flights sf) key)" for key
    proof (cases "key = fl_key ?f")
      case True
      then show ?thesis by (simp add: jm_get_delete)
    next
      case False
      with mp [of key i] have "jm_get (sf_flights sf) key \<noteq> Some i" by blast
      with False show ?thesis by (simp add: jm_get_delete)
    qed
    have got: "jm_get (sf_flights sf) key = Some j \<and> j \<noteq> i" if "jm_get ?m key = Some j" for key j
      using that unfolding m by (simp split: if_splits)
    have kept: "jm_get ?m (fl_key (sf_heap sf ! j)) = Some j"
      if "j < length (sf_heap sf)" "current sf (sf_heap sf ! j)" "j \<noteq> i" for j
    proof -
      have "jm_get (sf_flights sf) (fl_key (sf_heap sf ! j)) = Some j"
        using parts(2) that by (simp add: map_ok_def)
      with that(3) show ?thesis unfolding m by simp
    qed
    have cur: "current ?s f = current sf f" for f by (simp add: current_def)
    have "\<not> current sf ?f'" by (simp add: current_def unsettled_def)
    have fields: "sf_flights ?s = ?m" "sf_heap ?s = (sf_heap sf)[i := ?f']" by simp_all
    show ?thesis unfolding map_ok_def fields cur
    proof (intro conjI allI impI)
      fix key j assume "jm_get ?m key = Some j"
      from got [OF this] sf_inv_mapped [OF assms, of key j]
      show "j < length ((sf_heap sf)[i := ?f'])" "fl_key ((sf_heap sf)[i := ?f'] ! j) = key"
        "unsettled ((sf_heap sf)[i := ?f'] ! j)" by simp_all
    next
      fix j assume j: "j < length ((sf_heap sf)[i := ?f'])" "current sf ((sf_heap sf)[i := ?f'] ! j)"
      with \<open>\<not> current sf ?f'\<close> have "j \<noteq> i" by auto
      with j have "j < length (sf_heap sf)" "current sf (sf_heap sf ! j)" by simp_all
      from kept [OF this \<open>j \<noteq> i\<close>] \<open>j \<noteq> i\<close>
      show "jm_get ?m (fl_key ((sf_heap sf)[i := ?f'] ! j)) = Some j" by (simp only: nth_list_update_neq not_sym)
    qed
  qed
  moreover have "callers_ok ?s"
  proof -
    have "fresh_for ?f' a = fresh_for ?f a" for a using r by (simp add: fresh_for_def)
    then have "(j, a) \<in> set (sf_callers sf) \<Longrightarrow> j < length (sf_heap sf) \<and> a < Suc (sf_now sf) \<and>
        (sf_coalesceTrailing sf \<longrightarrow> fresh_for ((sf_heap sf)[i := ?f'] ! j) a)" for j a
      using sf_inv_caller [OF assms, of j a] r(1) by (cases "j = i") auto
    then show ?thesis by (auto simp: callers_ok_def)
  qed
  ultimately show ?thesis by (simp only: eq sf_inv_def)
next
  case False
  then have "settle i sf = sf" by (auto simp: settle_def Let_def split: flight_state.splits)
  then show ?thesis using sf_inv_now [OF assms] by simp
qed

lemma heap_generations:
  "sf_inv sf \<Longrightarrow> i < length (sf_heap sf) \<Longrightarrow>
   fl_generation (sf_heap sf ! i) \<le> sf_generation sf \<and> fl_epoch (sf_heap sf ! i) \<le> sf_epoch sf"
  by (simp add: sf_inv_defs)

text \<open>A reset or a bump leaves no current flight behind, so the map need not name any.\<close>

lemma sf_inv_stale:
  assumes inv: "sf_inv sf" and same: "sf_heap sf' = sf_heap sf" "sf_callers sf' = sf_callers sf"
      "sf_now sf' = sf_now sf" "sf_coalesceTrailing sf' = sf_coalesceTrailing sf"
    and m: "sf_flights sf' = [] \<or> sf_flights sf' = sf_flights sf"
    and later: "sf_generation sf \<le> sf_generation sf'" "sf_epoch sf \<le> sf_epoch sf'"
      "sf_generation sf < sf_generation sf' \<or> sf_epoch sf < sf_epoch sf'"
  shows "sf_inv sf'"
proof -
  have parts: "heap_ok sf" "map_ok sf" "callers_ok sf" using inv by (simp_all add: sf_inv_def)
  have "heap_ok sf'" using parts(1) later(1,2) order_trans unfolding heap_ok_def same Let_def by blast
  moreover have "\<not> current sf' (sf_heap sf ! i)" if "i < length (sf_heap sf)" for i
    using heap_generations [OF inv that] later by (auto simp: current_def)
  then have "map_ok sf'" using parts(2) m unfolding map_ok_def same by auto
  moreover have "callers_ok sf'" using parts(3) unfolding callers_ok_def same by blast
  ultimately show ?thesis by (simp add: sf_inv_def)
qed

lemma clear_inv: "sf_inv sf \<Longrightarrow> sf_inv (sf_clear sf)"
  by (rule sf_inv_stale [of sf]) (simp_all add: sf_clear_def)

lemma bump_inv: "sf_inv sf \<Longrightarrow> sf_inv (sf\<lparr>sf_generation := Suc (sf_generation sf)\<rparr>)"
  by (rule sf_inv_stale [of sf]) simp_all

interpretation sfm: event_machine sf_apply sf_inv
proof
  fix sf e assume inv: "sf_inv sf"
  then show "sf_inv (sf_apply e sf)"
  proof (cases e)
    case Clear
    then show ?thesis using sf_inv_now [OF clear_inv [OF inv]] by (simp add: sf_apply_def sf_clear_def)
  next
    case BumpGeneration
    then show ?thesis using sf_inv_now [OF bump_inv [OF inv]] by (simp add: sf_apply_def)
  qed (simp_all add: sf_apply_def run_flight_inv pass_ends_inv settle_inv)
qed

section \<open>Properties\<close>

lemma distinct_filter_keys:
  assumes "\<And>i j. i < length xs \<Longrightarrow> j < length xs \<Longrightarrow> P (xs ! i) \<Longrightarrow> P (xs ! j) \<Longrightarrow> f (xs ! i) = f (xs ! j) \<Longrightarrow> i = j"
  shows "distinct (map f (filter P xs))"
  using assms
proof (induction xs)
  case (Cons x xs)
  have "distinct (map f (filter P xs))"
    by (rule Cons.IH) (use Cons.prems [of "Suc _" "Suc _"] in auto)
  moreover have "P x \<Longrightarrow> f x \<notin> f ` set (filter P xs)"
    using Cons.prems [of 0 "Suc _"] by (auto simp: in_set_conv_nth)
  ultimately show ?case by auto
qed simp

text \<open>A flight that runs and that a caller of the present generation would join.\<close>

definition running :: "single_flight \<Rightarrow> flight \<Rightarrow> bool" where
  "running sf f = (unsettled f \<and> fl_generation f = sf_generation sf)"

text \<open>What an event that is not a reset does to the flights there are, and to those it adds.\<close>

lemma sf_apply_flights:
  assumes "e \<noteq> Clear"
  shows "sf_epoch (sf_apply e sf) = sf_epoch sf"
    and "sf_generation sf \<le> sf_generation (sf_apply e sf)"
    and "length (sf_heap sf) \<le> length (sf_heap (sf_apply e sf))"
    and "i < length (sf_heap sf) \<Longrightarrow>
           fl_epoch (sf_heap (sf_apply e sf) ! i) = fl_epoch (sf_heap sf ! i) \<and>
           fl_generation (sf_heap (sf_apply e sf) ! i) = fl_generation (sf_heap sf ! i)"
    and "length (sf_heap sf) \<le> i \<Longrightarrow> i < length (sf_heap (sf_apply e sf)) \<Longrightarrow>
           fl_epoch (sf_heap (sf_apply e sf) ! i) = sf_epoch sf"
proof -
  note defs = sf_apply_def run_def start_flight_def pass_ends_def settle_def release_def Let_def
  show "sf_epoch (sf_apply e sf) = sf_epoch sf" "sf_generation sf \<le> sf_generation (sf_apply e sf)"
      "length (sf_heap sf) \<le> length (sf_heap (sf_apply e sf))"
    using assms by (cases e; auto simp: defs split: option.split flight_state.split)+
  have upd: "fl_epoch (xs[j := f] ! i) = fl_epoch (xs ! i) \<and> fl_generation (xs[j := f] ! i) = fl_generation (xs ! i)"
    if "fl_epoch f = fl_epoch (xs ! j)" "fl_generation f = fl_generation (xs ! j)" for xs :: "flight list" and j f
    using that by (cases "i = j"; cases "j < length xs") (simp_all add: list_update_beyond)
  show "fl_epoch (sf_heap (sf_apply e sf) ! i) = fl_epoch (sf_heap sf ! i) \<and>
      fl_generation (sf_heap (sf_apply e sf) ! i) = fl_generation (sf_heap sf ! i)" if "i < length (sf_heap sf)"
    using assms that upd
    by (cases e) (auto simp: defs nth_append split: option.split flight_state.split)
  show "fl_epoch (sf_heap (sf_apply e sf) ! i) = sf_epoch sf"
    if "length (sf_heap sf) \<le> i" "i < length (sf_heap (sf_apply e sf))"
    using assms that
    by (cases e) (auto simp: defs nth_append split: option.splits flight_state.splits if_splits)
qed

text \<open>Along a run without a reset: the first \<open>n\<close> flights keep their generations, the others have the epoch.\<close>

definition started_since :: "nat \<Rightarrow> single_flight \<Rightarrow> bool" where
  "started_since n sf \<longleftrightarrow> n \<le> length (sf_heap sf) \<and>
     (\<forall>i < length (sf_heap sf). n \<le> i \<longrightarrow> fl_epoch (sf_heap sf ! i) = sf_epoch sf)"

lemma started_since_step: "e \<noteq> Clear \<Longrightarrow> started_since n sf \<Longrightarrow> started_since n (sf_apply e sf)"
  unfolding started_since_def proof (intro conjI allI impI)
  assume e: "e \<noteq> Clear" and s: "n \<le> length (sf_heap sf) \<and>
     (\<forall>i < length (sf_heap sf). n \<le> i \<longrightarrow> fl_epoch (sf_heap sf ! i) = sf_epoch sf)"
  note steps = sf_apply_flights [where e = e and sf = sf, OF e]
  show "n \<le> length (sf_heap (sf_apply e sf))" using s steps(3) by simp
  fix i assume i: "i < length (sf_heap (sf_apply e sf))" "n \<le> i"
  show "fl_epoch (sf_heap (sf_apply e sf) ! i) = sf_epoch (sf_apply e sf)"
    using s i steps(1) steps(4) [of i] steps(5) [of i] by (cases "i < length (sf_heap sf)") auto
qed

lemma started_since_run:
  "list_all (\<lambda>e. e \<noteq> Clear) es \<Longrightarrow> started_since n sf \<Longrightarrow> started_since n (fold sf_apply es sf)"
  by (induction es arbitrary: sf) (simp_all add: started_since_step)

definition outdated :: "nat \<Rightarrow> single_flight \<Rightarrow> bool" where
  "outdated n sf \<longleftrightarrow> n \<le> length (sf_heap sf) \<and> (\<forall>i < n. fl_generation (sf_heap sf ! i) < sf_generation sf)"

lemma outdated_step: "e \<noteq> Clear \<Longrightarrow> outdated n sf \<Longrightarrow> outdated n (sf_apply e sf)"
  unfolding outdated_def proof (intro conjI allI impI)
  assume e: "e \<noteq> Clear" and s: "n \<le> length (sf_heap sf) \<and>
     (\<forall>i < n. fl_generation (sf_heap sf ! i) < sf_generation sf)"
  note steps = sf_apply_flights [where e = e and sf = sf, OF e]
  show "n \<le> length (sf_heap (sf_apply e sf))" using s steps(3) by simp
  fix i assume i: "i < n"
  then show "fl_generation (sf_heap (sf_apply e sf) ! i) < sf_generation (sf_apply e sf)"
    using s steps(2) steps(4) [of i] by force
qed

lemma outdated_run: "list_all (\<lambda>e. e \<noteq> Clear) es \<Longrightarrow> outdated n sf \<Longrightarrow> outdated n (fold sf_apply es sf)"
  by (induction es arbitrary: sf) (simp_all add: outdated_step)

lemma outdated_bump: "sf_inv sf \<Longrightarrow> outdated (length (sf_heap sf)) (sf_apply BumpGeneration sf)"
  by (auto simp: outdated_def sf_apply_def sf_inv_defs less_Suc_eq_le)

lemma map_names_unsettled:
  assumes "sf_inv sf"
  shows "list_all (\<lambda>(key, i). i < length (sf_heap sf) \<and> fl_key (sf_heap sf ! i) = key \<and> unsettled (sf_heap sf ! i))
        (map (\<lambda>key. (key, the (jm_get (sf_flights sf) key))) (jm_keys (sf_flights sf)))"
proof -
  have "i < length (sf_heap sf) \<and> fl_key (sf_heap sf ! i) = key \<and> unsettled (sf_heap sf ! i)"
    if "jm_get (sf_flights sf) key = Some i" for key i using sf_inv_mapped [OF assms that] by blast
  moreover have "\<exists>i. jm_get (sf_flights sf) key = Some i" if "key \<in> set (jm_keys (sf_flights sf))" for key
    using that by (metis map_of_eq_None_iff not_None_eq set_map)
  ultimately have "key \<in> set (jm_keys (sf_flights sf)) \<Longrightarrow>
      the (jm_get (sf_flights sf) key) < length (sf_heap sf) \<and>
      fl_key (sf_heap sf ! the (jm_get (sf_flights sf) key)) = key \<and>
      unsettled (sf_heap sf ! the (jm_get (sf_flights sf) key))" for key
    by (metis option.sel)
  then show ?thesis unfolding list_all_iff set_map by blast
qed

lemma running_since_distinct:
  assumes "sf_inv sf" "started_since n sf"
  shows "distinct (map fl_key (filter (running sf) (drop n (sf_heap sf))))"
proof (rule distinct_filter_keys)
  fix i j
  assume ij: "i < length (drop n (sf_heap sf))" "j < length (drop n (sf_heap sf))"
    and r: "running sf (drop n (sf_heap sf) ! i)" "running sf (drop n (sf_heap sf) ! j)"
    and k: "fl_key (drop n (sf_heap sf) ! i) = fl_key (drop n (sf_heap sf) ! j)"
  have n: "n \<le> length (sf_heap sf)" using assms(2) by (simp add: started_since_def)
  have cur: "jm_get (sf_flights sf) (fl_key (sf_heap sf ! (n + m))) = Some (n + m)"
    if "m < length (drop n (sf_heap sf))" "running sf (drop n (sf_heap sf) ! m)" for m
  proof -
    have m: "n + m < length (sf_heap sf)" using that(1) n by simp
    moreover have "current sf (sf_heap sf ! (n + m))"
      using assms(2) m that n by (simp add: started_since_def running_def current_def)
    moreover have "map_ok sf" using assms(1) by (simp add: sf_inv_def)
    ultimately show ?thesis unfolding map_ok_def by blast
  qed
  have "sf_heap sf ! (n + m) = drop n (sf_heap sf) ! m" for m using n by simp
  with cur [OF ij(1) r(1)] cur [OF ij(2) r(2)] k have "Some (n + i) = Some (n + j)" by metis
  then show "i = j" by simp
qed

text \<open>
  C28: one execution per key between resets. After any calls, settlements, resets and generation
  bumps (\<open>earlier\<close>) take any events without a reset (\<open>later\<close>): of the flights started since,
  no two that still run in the present generation share a key. When nothing came before, or
  the last thing before was a bump of the generation (the pairing the interface asks for),
  this holds of all flights. In every case each flight a new caller can join is unsettled and
  has the key it is found under: a late settlement never evicts its successor and a settled
  or failed flight never keeps its key.
\<close>

theorem single_flight_is_exclusive:
  assumes "list_all (\<lambda>e. e \<noteq> Clear) later"
  shows "let before = fold sf_apply earlier (createSingleFlight coalesceTrailing);
             sf = fold sf_apply later before
   in distinct (map fl_key (filter (running sf) (drop (length (sf_heap before)) (sf_heap sf)))) \<and>
      (earlier = [] \<or> last earlier = BumpGeneration \<longrightarrow>
         distinct (map fl_key (filter (running sf) (sf_heap sf)))) \<and>
      list_all (\<lambda>(key, i). i < length (sf_heap sf) \<and> fl_key (sf_heap sf ! i) = key \<and> unsettled (sf_heap sf ! i))
        (map (\<lambda>key. (key, the (jm_get (sf_flights sf) key))) (jm_keys (sf_flights sf)))"
proof -
  define before where "before = fold sf_apply earlier (createSingleFlight coalesceTrailing)"
  define sf where "sf = fold sf_apply later before"
  let ?n = "length (sf_heap before)"
  have inv: "sf_inv sf" unfolding sf_def before_def by (intro sfm.run_inv sf_inv_create)
  have since: "started_since ?n sf"
    unfolding sf_def by (rule started_since_run [OF assms]) (simp add: started_since_def)
  note late = running_since_distinct [OF inv since]
  have "distinct (map fl_key (filter (running sf) (sf_heap sf)))" if "earlier = [] \<or> last earlier = BumpGeneration"
  proof -
    have "outdated ?n sf"
    proof (cases "earlier = []")
      case True
      then show ?thesis by (simp add: outdated_def before_def createSingleFlight_def)
    next
      case False
      with that obtain es where es: "earlier = es @ [BumpGeneration]" by (metis append_butlast_last_id)
      let ?s = "fold sf_apply es (createSingleFlight coalesceTrailing)"
      have "before = sf_apply BumpGeneration ?s" by (simp add: before_def es)
      moreover have "outdated (length (sf_heap ?s)) (sf_apply BumpGeneration ?s)"
        by (rule outdated_bump [OF sfm.run_inv [OF sf_inv_create]])
      ultimately have "outdated ?n before" by (simp add: sf_apply_def)
      then show ?thesis unfolding sf_def by (rule outdated_run [OF assms])
    qed
    then have "\<not> running sf f" if "f \<in> set (take ?n (sf_heap sf))" for f
      using that by (auto simp: outdated_def running_def in_set_conv_nth dest: less_imp_neq)
    then have "filter (running sf) (take ?n (sf_heap sf)) = []" by (simp add: filter_empty_conv)
    then have "filter (running sf) (sf_heap sf) = filter (running sf) (drop ?n (sf_heap sf))"
      by (metis append_take_drop_id filter_append self_append_conv2)
    with late show ?thesis by simp
  qed
  with late map_names_unsettled [OF inv] show ?thesis
    unfolding before_def [symmetric] sf_def [symmetric] Let_def by blast
qed

theorem single_flight_is_exclusive_witness:
  "let sf = fold sf_apply [Run ''k'', PassEnds 0 True, Settle 0, Run ''k'']
              (fold sf_apply [Run ''k'', Clear, BumpGeneration] (createSingleFlight False))
   in distinct (map fl_key (filter (running sf) (sf_heap sf)))"
proof -
  have "list_all (\<lambda>e. e \<noteq> Clear) [Run ''k'', PassEnds 0 True, Settle 0, Run ''k'']"
    "last [Run ''k'', Clear, BumpGeneration] = BumpGeneration" by simp_all
  with single_flight_is_exclusive [of "[Run ''k'', PassEnds 0 True, Settle 0, Run ''k'']" "[Run ''k'', Clear, BumpGeneration]" False]
  show ?thesis unfolding Let_def by blast
qed

text \<open>A reset without a bump: the flight it forgets and the next one run side by side.\<close>

lemma reset_alone_admits_two:
  "let sf = fold sf_apply [Run ''k'', Clear, Run ''k''] (createSingleFlight False)
   in map fl_key (filter (running sf) (sf_heap sf)) = [''k'', ''k'']"
  by code_simp

text \<open>
  C29: a coalesced caller gets a fresh answer. With trailing reruns, whatever the order of
  calls and passes, a caller whose promise is settled with a value was handed the result of a
  pass that began no earlier than its call; the exception is a call that came after the last
  pass had returned.
\<close>

theorem coalesced_result_is_fresh:
  "let sf = fold sf_apply events (createSingleFlight True)
   in list_all (\<lambda>(i, called). case fl_state (sf_heap sf ! i) of
                   Settled returned (Value began) \<Rightarrow> called \<le> began \<or> returned \<le> called
                 | _ \<Rightarrow> True) (sf_callers sf)"
proof -
  define sf where "sf = fold sf_apply events (createSingleFlight True)"
  have inv: "sf_inv sf" unfolding sf_def by (rule sfm.run_inv [OF sf_inv_create])
  have "sf_coalesceTrailing (fold sf_apply es s) = sf_coalesceTrailing s" for es s
  proof (induction es arbitrary: s)
    case (Cons e es)
    have "sf_coalesceTrailing (sf_apply e s) = sf_coalesceTrailing s"
      by (cases e) (auto simp: sf_apply_def run_def start_flight_def pass_ends_def settle_def release_def
          sf_clear_def Let_def split: option.splits flight_state.splits)
    with Cons show ?case by simp
  qed simp
  then have "sf_coalesceTrailing sf" by (simp add: sf_def createSingleFlight_def)
  with sf_inv_caller [OF inv] have "fresh_for (sf_heap sf ! i) a" if "(i, a) \<in> set (sf_callers sf)" for i a
    using that by blast
  then show ?thesis
    by (fastforce simp: sf_def [symmetric] Let_def list_all_iff fresh_for_def split: flight_state.splits outcome.splits)
qed

text \<open>
  The exception is real. A call that arrives between the return of the chain and the reaction
  that releases the key joins the finished flight, sets a rerun bit nobody reads any more, and
  is settled with the value of a pass that began, and ended, before the call.
\<close>

lemma late_joiner_gets_an_older_value:
  "let sf = fold sf_apply [Run ''k'', PassEnds 0 True, Run ''k'', Settle 0] (createSingleFlight True)
   in sf_callers sf = [(0, 0), (0, 2)] \<and> map fl_state (sf_heap sf) = [Settled 1 (Value 0)]"
  by code_simp

end
