(* ===== verification/Write_Ordering.thy ===== *)
theory Write_Ordering
  imports Lens_Prelude
begin

text \<open>
  \<open>src/clients/write-ordering-guard.ts\<close>: the guard in front of the per-key caches that
  concurrent pipeline runs feed. A write carries an ordering token; a write whose token is
  below the last one seen for its key is dropped. A write without a token always goes
  through and leaves the guard as it was.

  Tokens are integers; the source's doubles are exact below \<open>2 ^ 53\<close>, and
  \<open>writeOrderToken_exact\<close> gives the range of turns in which every token stays there.
\<close>

section \<open>Definitions\<close>

type_synonym 'k wog = "('k, int) jmap"

definition writeOrderToken :: "int option \<Rightarrow> int option \<Rightarrow> int option" where
  "writeOrderToken turnIndex writeIndex =
     (case turnIndex of
        None \<Rightarrow> None
      | Some t \<Rightarrow> (case writeIndex of None \<Rightarrow> None | Some w \<Rightarrow> Some (t * 2 ^ 32 + w)))"

definition shouldWrite :: "'k \<Rightarrow> int option \<Rightarrow> 'k wog \<Rightarrow> bool \<times> 'k wog" where
  "shouldWrite key token g =
     (case token of
        None \<Rightarrow> (True, g)
      | Some t \<Rightarrow>
          (case jm_get g key of
             Some prev \<Rightarrow> if t < prev then (False, g) else (True, jm_set key t g)
           | None \<Rightarrow> (True, jm_set key t g)))"

definition nextToken :: "'k \<Rightarrow> 'k wog \<Rightarrow> int \<times> 'k wog" where
  "nextToken key g =
     (let nxt = (case jm_get g key of Some prev \<Rightarrow> prev | None \<Rightarrow> 0) + 1
      in (nxt, jm_set key nxt g))"

definition wog_delete :: "'k \<Rightarrow> 'k wog \<Rightarrow> 'k wog" where
  "wog_delete key g = jm_delete key g"

definition wog_clear :: "'k wog \<Rightarrow> 'k wog" where
  "wog_clear g = []"

text \<open>A burst of writes, in arrival order: the verdict of each and the final guard.\<close>

fun wog_run :: "('k \<times> int option) list \<Rightarrow> 'k wog \<Rightarrow> bool list \<times> 'k wog" where
  "wog_run [] g = ([], g)"
| "wog_run ((key, token) # reqs) g =
     (let (ok, g') = shouldWrite key token g; (oks, g'') = wog_run reqs g' in (ok # oks, g''))"

text \<open>What the verdict of a write should be: no earlier write of the key had a larger token.\<close>

definition not_superseded :: "('k \<times> int option) list \<Rightarrow> 'k \<times> int option \<Rightarrow> bool" where
  "not_superseded earlier req =
     (case req of (key, token) \<Rightarrow>
        case token of
          None \<Rightarrow> True
        | Some t \<Rightarrow> list_all (\<lambda>(k, u). k = key \<longrightarrow> (case u of None \<Rightarrow> True | Some t' \<Rightarrow> t' \<le> t)) earlier)"

section \<open>The guard tracks the largest token of each key\<close>

definition covers :: "'k wog \<Rightarrow> ('k \<times> int option) list \<Rightarrow> bool" where
  "covers g reqs =
     (\<forall>k. (case jm_get g k of
             None \<Rightarrow> (\<forall>t. (k, Some t) \<notin> set reqs)
           | Some m \<Rightarrow> (k, Some m) \<in> set reqs \<and> (\<forall>t. (k, Some t) \<in> set reqs \<longrightarrow> t \<le> m)))"

lemma covers_step:
  assumes "covers g reqs"
  shows "covers (snd (shouldWrite key token g)) (reqs @ [(key, token)])"
proof -
  have "case jm_get (snd (shouldWrite key token g)) k of
          None \<Rightarrow> (\<forall>t. (k, Some t) \<notin> set (reqs @ [(key, token)]))
        | Some m \<Rightarrow> (k, Some m) \<in> set (reqs @ [(key, token)]) \<and>
                    (\<forall>t. (k, Some t) \<in> set (reqs @ [(key, token)]) \<longrightarrow> t \<le> m)" for k
    using assms [unfolded covers_def, rule_format, of k]
    by (cases token; cases "jm_get g key"; cases "k = key")
       (auto simp: shouldWrite_def jm_get_set split: option.splits if_splits intro: order.trans)
  then show ?thesis by (simp add: covers_def)
qed

lemma shouldWrite_verdict:
  assumes "covers g reqs"
  shows "fst (shouldWrite key token g) = not_superseded reqs (key, token)"
proof (cases token)
  case None
  then show ?thesis by (simp add: shouldWrite_def not_superseded_def)
next
  case (Some t)
  have spec: "not_superseded reqs (key, token) = (\<forall>t'. (key, Some t') \<in> set reqs \<longrightarrow> t' \<le> t)"
    using Some by (auto simp: not_superseded_def list_all_iff split: option.splits)
  show ?thesis
    using assms [unfolded covers_def, rule_format, of key] Some unfolding spec
    by (auto simp: shouldWrite_def split: option.splits if_splits intro: order.trans)
qed

lemma wog_run_verdicts:
  "covers g reqs \<Longrightarrow> fst (wog_run more g) =
     map (\<lambda>i. not_superseded (reqs @ take i more) (more ! i)) [0..<length more]"
proof (induction more arbitrary: g reqs)
  case Nil
  then show ?case by simp
next
  case (Cons req more)
  obtain key token where req: "req = (key, token)" by fastforce
  have cov: "covers (snd (shouldWrite key token g)) (reqs @ [req])"
    using covers_step [OF Cons.prems] req by simp
  have "fst (wog_run (req # more) g) =
          fst (shouldWrite key token g) # fst (wog_run more (snd (shouldWrite key token g)))"
    by (simp add: req split: prod.splits)
  also have "\<dots> = not_superseded reqs req #
        map (\<lambda>i. not_superseded ((reqs @ [req]) @ take i more) (more ! i)) [0..<length more]"
    using Cons.IH [OF cov] shouldWrite_verdict [OF Cons.prems] req by simp
  also have "\<dots> = map (\<lambda>i. not_superseded (reqs @ take i (req # more)) ((req # more) ! i))
                      [0..<length (req # more)]"
    by (simp add: upt_conv_Cons map_Suc_upt [symmetric] del: upt_Suc)
  finally show ?case .
qed

section \<open>Properties\<close>

text \<open>
  Out-of-order writers never overwrite a newer result: in any burst of writes to a fresh
  guard, the write at position \<open>i\<close> is let through exactly when no earlier write of the same
  key carried a larger token (a write without a token is always let through).
\<close>

theorem shouldWrite_drops_exactly_superseded:
  "fst (wog_run reqs []) =
     map (\<lambda>i. not_superseded (take i reqs) (reqs ! i)) [0..<length reqs]"
  using wog_run_verdicts [of "[]" "[]" reqs] by (simp add: covers_def)

text \<open>
  The token of a write orders by turn first and by write index inside a turn, as long as
  write indices stay below \<open>2 ^ 32\<close>.
\<close>

theorem writeOrderToken_lexicographic:
  assumes "0 \<le> w1" "w1 < 2 ^ 32" "0 \<le> w2" "w2 < 2 ^ 32"
    and "writeOrderToken (Some t1) (Some w1) = Some a"
    and "writeOrderToken (Some t2) (Some w2) = Some b"
  shows "a < b \<longleftrightarrow> t1 < t2 \<or> (t1 = t2 \<and> w1 < w2)"
proof -
  have ab: "a = t1 * 2 ^ 32 + w1" "b = t2 * 2 ^ 32 + w2"
    using assms(5,6) by (simp_all add: writeOrderToken_def)
  consider "t1 + 1 \<le> t2" | "t1 = t2" | "t2 + 1 \<le> t1" by linarith
  then show ?thesis
  proof cases
    case 1
    then have "(t1 + 1) * 2 ^ 32 \<le> t2 * 2 ^ 32" by (rule mult_right_mono) simp
    with 1 assms(1-4) ab show ?thesis by (simp add: algebra_simps)
  next
    case 2
    with ab show ?thesis by simp
  next
    case 3
    then have "(t2 + 1) * 2 ^ 32 \<le> t1 * 2 ^ 32" by (rule mult_right_mono) simp
    with 3 assms(1-4) ab show ?thesis by (simp add: algebra_simps)
  qed
qed

theorem writeOrderToken_lexicographic_witness:
  "writeOrderToken (Some 1) (Some 0) = Some 4294967296 \<and>
   writeOrderToken (Some 0) (Some 4294967295) = Some 4294967295 \<and>
   (4294967295::int) < 4294967296"
proof -
  have a: "writeOrderToken (Some 0) (Some 4294967295) = Some 4294967295"
    and b: "writeOrderToken (Some 1) (Some 0) = Some 4294967296"
    by (simp_all add: writeOrderToken_def)
  have "(4294967295::int) < 4294967296 \<longleftrightarrow> (0::int) < 1 \<or> ((0::int) = 1 \<and> (4294967295::int) < 0)"
    by (rule writeOrderToken_lexicographic [OF _ _ _ _ a b]) simp_all
  with a b show ?thesis by simp
qed

lemma writeOrderToken_exact:
  assumes "0 \<le> t" "t < 2 ^ 21" "0 \<le> w" "w < 2 ^ 32"
    and "writeOrderToken (Some t) (Some w) = Some a"
  shows "0 \<le> a \<and> a < 2 ^ 53"
proof -
  have a: "a = t * 2 ^ 32 + w" using assms(5) by (simp add: writeOrderToken_def)
  have "t \<le> 2 ^ 21 - 1" using assms(2) by simp
  then have "t * 2 ^ 32 \<le> (2 ^ 21 - 1) * 2 ^ 32" by (rule mult_right_mono) simp
  with assms a show ?thesis by simp
qed

text \<open>A token handed out by \<open>nextToken\<close> is never below one already seen for the key.\<close>

lemma nextToken_fresh:
  assumes "nextToken key g = (t, g')" and "jm_get g key = Some prev"
  shows "prev < t \<and> fst (shouldWrite key (Some t) g')"
  using assms by (auto simp: nextToken_def shouldWrite_def Let_def jm_get_set)

end
