(* ===== verification/Watch_Queue.thy ===== *)
theory Watch_Queue
  imports Lens_Prelude
begin

text \<open>
  \<open>src/clients/lsp/watch-queue.ts\<close>: the per-client queue that batches
  \<open>workspace/didChangeWatchedFiles\<close>. The state is the pending map (URI to change type) and
  whether the debounce timer is armed. What the queue sends is part of the state here: \<open>sent\<close>
  lists the batches given to \<open>flushFn\<close>, oldest first, and \<open>createdCalls\<close> the URI lists given
  to \<open>onCreated\<close>. The callbacks do not call back into the queue. Times are milliseconds, and
  an unknown client start (\<open>Infinity\<close> in the source) is \<open>None\<close>.
\<close>

section \<open>Definitions\<close>

definition FILE_CREATED :: int where "FILE_CREATED = 1"
definition FILE_CHANGED :: int where "FILE_CHANGED = 2"
definition FILE_DELETED :: int where "FILE_DELETED = 3"

definition WATCH_BIRTH_MARGIN_MS :: int where "WATCH_BIRTH_MARGIN_MS = 100"

lemmas file_types = FILE_CREATED_def FILE_CHANGED_def FILE_DELETED_def

definition watchedTypeForOpen :: "int \<Rightarrow> int option \<Rightarrow> int" where
  "watchedTypeForOpen birthtimeMs clientStartedAtMs =
     (case clientStartedAtMs of
        None \<Rightarrow> FILE_CHANGED
      | Some started \<Rightarrow>
          if birthtimeMs \<ge> started - WATCH_BIRTH_MARGIN_MS then FILE_CREATED else FILE_CHANGED)"

record watch_queue =
  pending :: "(string, int) jmap"
  timer :: bool
  sent :: "(string \<times> int) list list"
  createdCalls :: "string list list"

definition new_WatchedFilesQueue :: watch_queue where
  "new_WatchedFilesQueue = \<lparr>pending = [], timer = False, sent = [], createdCalls = []\<rparr>"

definition merged_type :: "int option \<Rightarrow> int \<Rightarrow> int" where
  "merged_type held type =
     (if held = Some FILE_CREATED \<and> type = FILE_CHANGED then FILE_CREATED else type)"

definition wq_enqueue :: "string \<Rightarrow> int \<Rightarrow> watch_queue \<Rightarrow> watch_queue" where
  "wq_enqueue uri type q =
     q\<lparr>pending := jm_set uri (merged_type (jm_get (pending q) uri) type) (pending q), timer := True\<rparr>"

definition wq_flush :: "watch_queue \<Rightarrow> watch_queue" where
  "wq_flush q =
     (let q = q\<lparr>timer := False\<rparr> in
      if pending q = [] then q
      else
        let changes = pending q;
            q = q\<lparr>pending := [], sent := sent q @ [changes]\<rparr>;
            created = map fst (filter (\<lambda>(uri, type). type = FILE_CREATED) changes)
        in if created \<noteq> [] then q\<lparr>createdCalls := createdCalls q @ [created]\<rparr> else q)"

definition wq_flushIfCreated :: "watch_queue \<Rightarrow> watch_queue" where
  "wq_flushIfCreated q =
     (if list_ex (\<lambda>(uri, type). type = FILE_CREATED) (pending q) then wq_flush q else q)"

definition wq_cancel :: "watch_queue \<Rightarrow> watch_queue" where
  "wq_cancel q = q\<lparr>timer := False, pending := []\<rparr>"

definition wq_size :: "watch_queue \<Rightarrow> nat" where
  "wq_size q = length (pending q)"

text \<open>The queue as a machine. \<open>Fire\<close> is the debounce timer: it runs only while armed.\<close>

datatype wq_event = Enqueue string int | Fire | FlushNow | FlushIfCreated | Cancel

fun wq_apply :: "wq_event \<Rightarrow> watch_queue \<Rightarrow> watch_queue" where
  "wq_apply (Enqueue uri type) q = wq_enqueue uri type q"
| "wq_apply Fire q = (if timer q then wq_flush q else q)"
| "wq_apply FlushNow q = wq_flush q"
| "wq_apply FlushIfCreated q = wq_flushIfCreated q"
| "wq_apply Cancel q = wq_cancel q"

section \<open>Invariant\<close>

text \<open>
  The timer is armed exactly while changes wait, so no change is left without a flush to come;
  every batch, sent or waiting, names a URI once; a sent batch is not empty.
\<close>

definition wq_inv :: "watch_queue \<Rightarrow> bool" where
  "wq_inv q = ((timer q \<longleftrightarrow> pending q \<noteq> []) \<and> jm_wf (pending q) \<and>
               list_all (\<lambda>b. jm_wf b \<and> b \<noteq> []) (sent q))"

lemma wq_enqueue_inv: "wq_inv q \<Longrightarrow> wq_inv (wq_enqueue uri type q)"
  by (simp add: wq_inv_def wq_enqueue_def jm.wf_put)

lemma wq_flush_inv: "wq_inv q \<Longrightarrow> wq_inv (wq_flush q)"
  by (auto simp: wq_inv_def wq_flush_def Let_def)

lemma wq_apply_inv: "wq_inv q \<Longrightarrow> wq_inv (wq_apply e q)"
  by (cases e)
     (auto simp: wq_enqueue_inv wq_flush_inv wq_flushIfCreated_def wq_cancel_def,
      auto simp: wq_inv_def)

interpretation wq: event_machine wq_apply wq_inv
  by unfold_locales (rule wq_apply_inv)

lemma wq_inv_new: "wq_inv new_WatchedFilesQueue"
  by (simp add: wq_inv_def new_WatchedFilesQueue_def)

section \<open>A Created is not downgraded inside a window\<close>

definition enqueue_all :: "(string \<times> int) list \<Rightarrow> watch_queue \<Rightarrow> watch_queue" where
  "enqueue_all changes q = fold (\<lambda>(uri, type). wq_enqueue uri type) changes q"

lemma enqueue_all_simps [simp]:
  "enqueue_all [] q = q"
  "enqueue_all ((uri, type) # changes) q = enqueue_all changes (wq_enqueue uri type q)"
  by (simp_all add: enqueue_all_def)

lemma enqueue_get:
  "jm_get (pending (wq_enqueue uri type q)) uri' =
     (if uri' = uri then Some (merged_type (jm_get (pending q) uri) type) else jm_get (pending q) uri')"
  by (simp add: wq_enqueue_def jm_get_set)

lemma created_survives:
  assumes "jm_get (pending q) uri = Some FILE_CREATED"
    and "list_all (\<lambda>(u, type). u = uri \<longrightarrow> type = FILE_CREATED \<or> type = FILE_CHANGED) changes"
  shows "jm_get (pending (enqueue_all changes q)) uri = Some FILE_CREATED"
  using assms
proof (induction changes arbitrary: q)
  case (Cons c changes)
  obtain u type where c: "c = (u, type)" by fastforce
  from Cons.prems c have "jm_get (pending (wq_enqueue u type q)) uri = Some FILE_CREATED"
    by (auto simp: enqueue_get merged_type_def)
  with Cons.prems(2) c show ?case by (simp add: Cons.IH)
qed simp

lemma sent_flush: "pending q \<noteq> [] \<Longrightarrow> sent (wq_flush q) = sent q @ [pending q]"
  by (simp add: wq_flush_def Let_def)

lemma sent_enqueue_all [simp]: "sent (enqueue_all changes q) = sent q"
  by (induction changes arbitrary: q) (auto simp: wq_enqueue_def)

section \<open>Properties\<close>

text \<open>
  Whatever the order of enqueues, timer expiries, flushes and cancellations, the debounce
  timer is armed exactly while changes are waiting, and every notification sent names each
  URI at most once and is not empty.
\<close>

theorem watch_queue_timer_armed_iff_pending:
  "let q = fold wq_apply es new_WatchedFilesQueue in
     (timer q \<longleftrightarrow> pending q \<noteq> []) \<and> list_all (\<lambda>b. distinct (map fst b) \<and> b \<noteq> []) (sent q)"
  using wq.run_inv [OF wq_inv_new, of es] by (simp add: wq_inv_def jm_wf_def Let_def)

text \<open>
  A file announced as Created stays Created for the server: when the rest of the window
  brings only Created or Changed for that URI (and anything for other URIs), the one
  notification the flush sends carries Created for it, and \<open>onCreated\<close> is told of it.
\<close>

theorem created_never_downgraded:
  assumes "list_all (\<lambda>(u, type). u = uri \<longrightarrow> type = FILE_CREATED \<or> type = FILE_CHANGED) changes"
  shows "let q' = wq_flush (enqueue_all changes (wq_enqueue uri FILE_CREATED q)) in
           (uri, FILE_CREATED) \<in> set (last (sent q')) \<and>
           length (sent q') = Suc (length (sent q)) \<and>
           uri \<in> set (last (createdCalls q'))"
proof -
  let ?q = "enqueue_all changes (wq_enqueue uri FILE_CREATED q)"
  have "jm_get (pending (wq_enqueue uri FILE_CREATED q)) uri = Some FILE_CREATED"
    by (simp add: enqueue_get merged_type_def)
  then have get: "jm_get (pending ?q) uri = Some FILE_CREATED"
    using assms by (rule created_survives)
  then have mem: "(uri, FILE_CREATED) \<in> set (pending ?q)" by (rule jm_get_in)
  then have ne: "pending ?q \<noteq> []" by auto
  have created: "uri \<in> set (map fst (filter (\<lambda>(uri, type). type = FILE_CREATED) (pending ?q)))"
    using mem by force
  have "sent ?q = sent q" by (simp add: wq_enqueue_def)
  with ne mem created show ?thesis
    by (auto simp: wq_flush_def Let_def filter_empty_conv)
qed

theorem created_never_downgraded_witness:
  "(''a.py'', FILE_CREATED) \<in> set (last (sent (wq_flush
      (enqueue_all [(''b.py'', FILE_DELETED), (''a.py'', FILE_CHANGED)]
         (wq_enqueue ''a.py'' FILE_CREATED new_WatchedFilesQueue)))))"
proof -
  have h: "list_all (\<lambda>(u, type). u = ''a.py'' \<longrightarrow> type = FILE_CREATED \<or> type = FILE_CHANGED)
             [(''b.py'', FILE_DELETED), (''a.py'', FILE_CHANGED)]"
    by simp
  show ?thesis
    using created_never_downgraded [OF h] by (simp add: Let_def)
qed

end
