(* ===== verification/Generation_Guard.thy ===== *)
theory Generation_Guard
  imports Bounded_Cache
begin

text \<open>
  \<open>src/clients/generation-guard.ts\<close>: capture a generation before an \<open>await\<close>, check it before
  the write that follows. A \<open>GenerationSource\<close> is one counter; a \<open>GenerationMap\<close> keeps one
  stamp per key in a \<open>BoundedFifoMap\<close> and draws every stamp from one ticket counter, so that
  forgetting or evicting a key can never make an outstanding handle current again.

  The key normaliser is an argument of every operation, because the program's own one reads
  the file system and may answer differently at the check than at the capture.
  The degradation ledger and the latency row are sinks nothing here reads; the per-source
  tallies, which are the guard's own state, are modelled.
\<close>

section \<open>Sources\<close>

datatype decl_error = EmptyName

definition MAX_DECLARED_SOURCES :: nat where "MAX_DECLARED_SOURCES = 128"

definition declare_source :: "string \<Rightarrow> string list \<Rightarrow> decl_error + string list" where
  "declare_source name declared =
     (if js_trim name = [] then Inl EmptyName
      else if length declared < MAX_DECLARED_SOURCES 
           then Inr (if name \<in> set declared then declared else declared @ [name])
      else Inr declared)"

record fence_tally =
  guarded :: nat
  dropped :: nat

definition OTHER_SOURCES :: string where "OTHER_SOURCES = ''(other)''"

definition tallyFence ::
  "string list \<Rightarrow> string \<Rightarrow> bool \<Rightarrow> (string, fence_tally) jmap \<Rightarrow> (string, fence_tally) jmap" where
  "tallyFence declared sourceName isDrop tallies =
     (let key = (if sourceName \<in> set declared then sourceName else OTHER_SOURCES);
          tally = (case jm_get tallies key of Some t \<Rightarrow> t | None \<Rightarrow> \<lparr>guarded = 0, dropped = 0\<rparr>);
          tally = tally\<lparr>guarded := guarded tally + 1\<rparr>;
          tally = (if isDrop then tally\<lparr>dropped := dropped tally + 1\<rparr> else tally)
      in jm_set key tally tallies)"

text \<open>A handle on a plain counter: the generation it captured.\<close>

definition source_bump :: "nat \<Rightarrow> nat" where
  "source_bump generation = generation + 1"

definition source_isCurrent :: "nat \<Rightarrow> nat \<Rightarrow> bool" where
  "source_isCurrent captured generation = (generation = captured)"

section \<open>Generation maps\<close>

record gen_map =
  stamps :: "(string, nat) fifo_map"
  nextTicket :: nat
  invalidations :: nat

record gen_handle =
  h_key :: string
  h_generation :: nat
  h_invalidations :: nat

definition DEFAULT_MAX_KEYS :: int where "DEFAULT_MAX_KEYS = 512"

definition createGenerationMap :: "int option \<Rightarrow> gen_map" where
  "createGenerationMap maxKeys =
     \<lparr>stamps = new_BoundedFifoMap (max 1 (case maxKeys of Some m \<Rightarrow> m | None \<Rightarrow> DEFAULT_MAX_KEYS)),
      nextTicket = 0, invalidations = 0\<rparr>"

definition gm_read :: "gen_map \<Rightarrow> string \<Rightarrow> nat" where
  "gm_read g key = (case fifo_get (stamps g) key of Some n \<Rightarrow> n | None \<Rightarrow> 0)"

definition gm_issue :: "string \<Rightarrow> gen_map \<Rightarrow> nat \<times> gen_map" where
  "gm_issue key g =
     (let t = nextTicket g + 1;
          st = fst (fifo_delete key (stamps g))
      in case fifo_set key t st of (st', evicted) \<Rightarrow>
           (t, g\<lparr>nextTicket := t, stamps := st', invalidations := invalidations g + length evicted\<rparr>))"

definition gm_current :: "(string \<Rightarrow> string) \<Rightarrow> gen_map \<Rightarrow> string \<Rightarrow> nat" where
  "gm_current normKey g key = gm_read g (normKey key)"

definition gm_bump :: "(string \<Rightarrow> string) \<Rightarrow> string \<Rightarrow> gen_map \<Rightarrow> nat \<times> gen_map" where
  "gm_bump normKey key g = gm_issue (normKey key) (g\<lparr>invalidations := invalidations g + 1\<rparr>)"

definition gm_capture :: "(string \<Rightarrow> string) \<Rightarrow> string \<Rightarrow> gen_map \<Rightarrow> gen_handle \<times> gen_map" where
  "gm_capture normKey key g =
     (let normalized = normKey key;
          (stamp, g') = (if gm_read g normalized \<noteq> 0 then (gm_read g normalized, g)
                         else gm_issue normalized g)
      in (\<lparr>h_key = key, h_generation = stamp, h_invalidations = invalidations g'\<rparr>, g'))"

definition gm_forget :: "(string \<Rightarrow> string) \<Rightarrow> string \<Rightarrow> gen_map \<Rightarrow> gen_map" where
  "gm_forget normKey key g =
     g\<lparr>invalidations := invalidations g + 1, stamps := fst (fifo_delete (normKey key) (stamps g))\<rparr>"

definition gm_clear :: "gen_map \<Rightarrow> gen_map" where
  "gm_clear g = g\<lparr>invalidations := invalidations g + 1, stamps := fifo_clear (stamps g)\<rparr>"

definition gm_size :: "gen_map \<Rightarrow> nat" where
  "gm_size g = fifo_size (stamps g)"

text \<open>What a handle reads at check time, with the fast path of the source, and its two uses.\<close>

definition handle_read :: "(string \<Rightarrow> string) \<Rightarrow> gen_map \<Rightarrow> gen_handle \<Rightarrow> nat" where
  "handle_read normKey g h =
     (if invalidations g = h_invalidations h then h_generation h
      else gm_read g (normKey (h_key h)))"

definition handle_isCurrent :: "(string \<Rightarrow> string) \<Rightarrow> gen_map \<Rightarrow> gen_handle \<Rightarrow> bool" where
  "handle_isCurrent normKey g h = (handle_read normKey g h = h_generation h)"

definition guardedWrite ::
  "(string \<Rightarrow> string) \<Rightarrow> string list \<Rightarrow> string \<Rightarrow> gen_map \<Rightarrow> gen_handle \<Rightarrow> ('s \<Rightarrow> 's \<times> 'r) \<Rightarrow>
     's \<times> (string, fence_tally) jmap \<Rightarrow> ('s \<times> (string, fence_tally) jmap) \<times> 'r option" where
  "guardedWrite normKey declared tallyName g h act st =
     (case st of (s, tallies) \<Rightarrow>
        if handle_read normKey g h \<noteq> h_generation h
        then ((s, tallyFence declared tallyName True tallies), None)
        else (case act s of (s', r) \<Rightarrow> ((s', tallyFence declared tallyName False tallies), Some r)))"

text \<open>
  The map as a machine. Every event carries the normaliser as it answers when the operation
  runs: two events of a run may resolve one spelling to two keys.
\<close>

datatype gm_event =
    GBump "string \<Rightarrow> string" string
  | GCapture "string \<Rightarrow> string" string
  | GForget "string \<Rightarrow> string" string
  | GClear

fun gm_apply :: "gm_event \<Rightarrow> gen_map \<Rightarrow> gen_map" where
  "gm_apply (GBump normKey key) g = snd (gm_bump normKey key g)"
| "gm_apply (GCapture normKey key) g = snd (gm_capture normKey key g)"
| "gm_apply (GForget normKey key) g = gm_forget normKey key g"
| "gm_apply GClear g = gm_clear g"

text \<open>The event bumps or forgets the normalised key, or clears the map.\<close>

fun invalidates :: "string \<Rightarrow> gm_event \<Rightarrow> bool" where
  "invalidates normalized (GBump normKey key) = (normKey key = normalized)"
| "invalidates normalized (GCapture normKey key) = False"
| "invalidates normalized (GForget normKey key) = (normKey key = normalized)"
| "invalidates normalized GClear = True"

section \<open>Invariants\<close>

definition gm_inv :: "gen_map \<Rightarrow> bool" where
  "gm_inv g = (fifo_ok (stamps g) \<and>
     (\<forall>k v. fifo_get (stamps g) k = Some v \<longrightarrow> 0 < v \<and> v \<le> nextTicket g) \<and>
     (\<forall>k k' v. fifo_get (stamps g) k = Some v \<longrightarrow> fifo_get (stamps g) k' = Some v \<longrightarrow> k = k'))"

lemma fifo_get_delete:
  "fifo_get (fst (fifo_delete k m)) k' = (if k' = k then None else fifo_get m k')"
  by (simp add: fifo_delete_def fifo_get_def jm_get_delete)

text \<open>What issuing a stamp does to the lookups, from the capped-container contract.\<close>

lemma gm_issue_get:
  assumes "fifo_ok (stamps g)" and "gm_issue k g = (t, g')"
  shows "fifo_get (stamps g') k = Some t"
    and "k' \<noteq> k \<Longrightarrow> fifo_get (stamps g') k' = fifo_get (stamps g) k' \<or>
           (fifo_get (stamps g') k' = None \<and> invalidations g < invalidations g')"
    and "t = Suc (nextTicket g)" and "nextTicket g' = t" and "invalidations g \<le> invalidations g'"
    and "fifo_ok (stamps g')"
proof -
  let ?st = "fst (fifo_delete k (stamps g))"
  have ok: "fifo_ok ?st" using assms(1) by (rule fifo_ok_delete)
  then have pos: "0 < maxEntries ?st" by (simp add: fifo_ok_def)
  obtain st' evicted where set: "fifo_set k (nextTicket g + 1) ?st = (st', evicted)" by fastforce
  have g': "t = nextTicket g + 1" "g' = g\<lparr>nextTicket := nextTicket g + 1, stamps := st',
              invalidations := invalidations g + length evicted\<rparr>"
    using assms(2) set by (auto simp: gm_issue_def Let_def)
  show "fifo_get (stamps g') k = Some t"
    using fifo.get_set_same [OF ok pos, of k "nextTicket g + 1"] g' set by simp
  show "k' \<noteq> k \<Longrightarrow> fifo_get (stamps g') k' = fifo_get (stamps g) k' \<or>
           (fifo_get (stamps g') k' = None \<and> invalidations g < invalidations g')"
    using fifo.get_set_other [OF ok, of k' k "nextTicket g + 1"] g' set
    by (auto simp: fifo_get_delete split: if_splits)
  show "t = Suc (nextTicket g)" "nextTicket g' = t" "invalidations g \<le> invalidations g'"
    using g' by simp_all
  show "fifo_ok (stamps g')" using fifo_ok_set [OF ok, of k "nextTicket g + 1"] g' set by simp
qed

lemma gm_issue_inv:
  assumes "gm_inv g" and "gm_issue k g = (t, g')"
  shows "gm_inv g'"
proof -
  have ok: "fifo_ok (stamps g)" using assms(1) by (simp add: gm_inv_def)
  note get = gm_issue_get [OF ok assms(2)]
  have old: "fifo_get (stamps g) k' = Some v" if "fifo_get (stamps g') k' = Some v" "k' \<noteq> k" for k' v
    using that get(2) [of k'] by auto
  have bounded: "v \<le> nextTicket g" and uniq: "fifo_get (stamps g) k'' = Some v \<Longrightarrow> k' = k''"
    if "fifo_get (stamps g) k' = Some v" for k' k'' v
    using assms(1) that unfolding gm_inv_def by blast+
  have "0 < v \<and> v \<le> nextTicket g'" if "fifo_get (stamps g') k' = Some v" for k' v
    using that assms(1) get(1,3,4) old [of k' v]
    by (cases "k' = k") (auto simp: gm_inv_def le_SucI)
  moreover have "k1 = k2" if k12: "fifo_get (stamps g') k1 = Some v" "fifo_get (stamps g') k2 = Some v" for k1 k2 v
  proof -
    have other: False if "k' \<noteq> k" "fifo_get (stamps g') k' = Some t" for k'
      using bounded [OF old [OF that(2,1)]] get(3) by simp
    show ?thesis
    proof (cases "v = t")
      case True
      with k12 other show ?thesis by metis
    next
      case False
      with k12 get(1) have "k1 \<noteq> k" "k2 \<noteq> k" by auto
      with k12 old uniq show ?thesis by metis
    qed
  qed
  ultimately show ?thesis using get(6) unfolding gm_inv_def by blast
qed

lemma gm_capture_cases:
  obtains "gm_read g (normKey k) \<noteq> 0" and "snd (gm_capture normKey k g) = g"
      and "h_generation (fst (gm_capture normKey k g)) = gm_read g (normKey k)"
  | t g' where "gm_read g (normKey k) = 0" and "gm_issue (normKey k) g = (t, g')"
      and "snd (gm_capture normKey k g) = g'" and "h_generation (fst (gm_capture normKey k g)) = t"
  by (cases "gm_read g (normKey k) = 0"; cases "gm_issue (normKey k) g")
     (auto simp: gm_capture_def Let_def)

lemma gm_inv_invalidations [simp]: "gm_inv (g\<lparr>invalidations := n\<rparr>) = gm_inv g"
  by (simp add: gm_inv_def)

lemma gm_apply_inv: "gm_inv g \<Longrightarrow> gm_inv (gm_apply e g)"
proof (cases e)
  case (GBump normKey k)
  assume "gm_inv g"
  then show ?thesis
    using GBump gm_issue_inv [of "g\<lparr>invalidations := invalidations g + 1\<rparr>" "normKey k"]
    by (cases "gm_issue (normKey k) (g\<lparr>invalidations := invalidations g + 1\<rparr>)") (simp add: gm_bump_def)
next
  case (GCapture normKey k)
  assume "gm_inv g"
  then show ?thesis
    using GCapture by (cases rule: gm_capture_cases [of g normKey k]) (auto simp: gm_issue_inv)
next
  case (GForget normKey k)
  assume "gm_inv g"
  then show ?thesis
    using GForget fifo_ok_delete [of "stamps g" "normKey k"]
    by (auto simp: gm_forget_def gm_inv_def fifo_get_delete split: if_splits)
next
  case GClear
  assume "gm_inv g"
  then show ?thesis
    using GClear fifo_ok_clear [of "stamps g"]
    by (auto simp: gm_clear_def gm_inv_def fifo_clear_def fifo_get_def)
qed

interpretation gm: event_machine gm_apply gm_inv
  by unfold_locales (rule gm_apply_inv)

lemma gm_inv_new: "gm_inv (createGenerationMap maxKeys)"
  by (simp add: gm_inv_def createGenerationMap_def fifo_ok_new)
     (simp add: new_BoundedFifoMap_def fifo_get_def)


section \<open>Handles\<close>

text \<open>
  A handle taken from the map under the normalised key \<open>n\<close>: its stamp has been issued, no
  other key ever holds it, and while nothing was invalidated since the capture the key does.
\<close>

definition handle_ok :: "string \<Rightarrow> gen_handle \<Rightarrow> gen_map \<Rightarrow> bool" where
  "handle_ok n h g =
     (gm_inv g \<and> 0 < h_generation h \<and> h_generation h \<le> nextTicket g \<and>
      h_invalidations h \<le> invalidations g \<and>
      (\<forall>k. fifo_get (stamps g) k = Some (h_generation h) \<longrightarrow> k = n) \<and>
      (invalidations g = h_invalidations h \<longrightarrow> fifo_get (stamps g) n = Some (h_generation h)))"

text \<open>A handle whose key lost the stamp it captured.\<close>

definition handle_dead :: "string \<Rightarrow> gen_handle \<Rightarrow> gen_map \<Rightarrow> bool" where
  "handle_dead n h g =
     (handle_ok n h g \<and> (\<forall>k. fifo_get (stamps g) k \<noteq> Some (h_generation h)))"

lemma gm_read_pos: "gm_inv g \<Longrightarrow> 0 < t \<Longrightarrow> (gm_read g k = t) = (fifo_get (stamps g) k = Some t)"
  by (auto simp: gm_read_def split: option.splits)

text \<open>The effect of any event on the lookups of a key.\<close>

lemma gm_apply_get:
  assumes "gm_inv g"
  shows "fifo_get (stamps (gm_apply e g)) k = fifo_get (stamps g) k
       \<or> (invalidations g < invalidations (gm_apply e g) \<and>
           (fifo_get (stamps (gm_apply e g)) k = None))
       \<or> (\<exists>t > nextTicket g. fifo_get (stamps (gm_apply e g)) k = Some t \<and>
            (invalidations g < invalidations (gm_apply e g) \<or> fifo_get (stamps g) k = None))"
proof (cases e)
  case (GBump normKey key)
  let ?g = "g\<lparr>invalidations := invalidations g + 1\<rparr>"
  obtain t g' where iss: "gm_issue (normKey key) ?g = (t, g')" by fastforce
  have ok: "fifo_ok (stamps ?g)" using assms by (simp add: gm_inv_def)
  show ?thesis
    using GBump iss gm_issue_get(1,3,5) [OF ok iss] gm_issue_get(2) [OF ok iss, of k]
    by (cases "k = normKey key") (auto simp: gm_bump_def)
next
  case (GCapture normKey key)
  show ?thesis
  proof (cases rule: gm_capture_cases [of g normKey key])
    case 1
    with GCapture show ?thesis by simp
  next
    case (2 t g')
    have ok: "fifo_ok (stamps g)" using assms by (simp add: gm_inv_def)
    have none: "fifo_get (stamps g) (normKey key) = None"
      using 2(1) assms by (auto simp: gm_read_def gm_inv_def split: option.splits)
    show ?thesis
      using GCapture 2 none gm_issue_get(1,3,5) [OF ok 2(2)] gm_issue_get(2) [OF ok 2(2), of k]
      by (cases "k = normKey key") auto
  qed
next
  case (GForget normKey key)
  then show ?thesis by (simp add: gm_forget_def fifo_get_delete)
next
  case GClear
  then show ?thesis by (simp add: gm_clear_def fifo_clear_def fifo_get_def)
qed

lemma gm_issue_mono:
  assumes "gm_inv g"
  shows "nextTicket g \<le> nextTicket (snd (gm_issue k g)) \<and>
         invalidations g \<le> invalidations (snd (gm_issue k g))"
  using assms gm_issue_get(3-5) [of g k] by (cases "gm_issue k g") (auto simp: gm_inv_def)

lemma gm_apply_mono:
  assumes "gm_inv g"
  shows "nextTicket g \<le> nextTicket (gm_apply e g) \<and>
         invalidations g \<le> invalidations (gm_apply e g)"
proof (cases e)
  case (GBump normKey k)
  with gm_issue_mono [of "g\<lparr>invalidations := invalidations g + 1\<rparr>" "normKey k"] assms
  show ?thesis by (simp add: gm_bump_def)
next
  case (GCapture normKey k)
  then show ?thesis
    using gm_issue_mono [OF assms, of "normKey k"]
    by (cases rule: gm_capture_cases [of g normKey k]) simp_all
qed (simp_all add: gm_forget_def gm_clear_def)

lemma gm_apply_keeps:
  assumes "gm_inv g" and "fifo_get (stamps (gm_apply e g)) k = Some t" and "t \<le> nextTicket g"
  shows "fifo_get (stamps g) k = Some t"
  using gm_apply_get [OF assms(1), of e k] assms(2,3) by auto

lemma handle_ok_step:
  assumes "handle_ok n h g"
  shows "handle_ok n h (gm_apply e g)"
proof -
  have inv: "gm_inv g" and le: "h_generation h \<le> nextTicket g" using assms by (simp_all add: handle_ok_def)
  have "k = n" if "fifo_get (stamps (gm_apply e g)) k = Some (h_generation h)" for k
    using gm_apply_keeps [OF inv that le] assms by (simp add: handle_ok_def)
  moreover have "fifo_get (stamps (gm_apply e g)) n = Some (h_generation h)"
    if "invalidations (gm_apply e g) = h_invalidations h"
  proof -
    have same: "invalidations (gm_apply e g) = invalidations g"
      using that gm_apply_mono [OF inv, of e] assms by (simp add: handle_ok_def)
    with that assms have "fifo_get (stamps g) n = Some (h_generation h)" by (simp add: handle_ok_def)
    with gm_apply_get [OF inv, of e n] same show ?thesis by auto
  qed
  moreover have "h_generation h \<le> nextTicket (gm_apply e g)" "h_invalidations h \<le> invalidations (gm_apply e g)"
      "0 < h_generation h"
    using gm_apply_mono [OF inv, of e] assms by (simp_all add: handle_ok_def)
  ultimately show ?thesis
    using gm_apply_inv [OF inv, of e] unfolding handle_ok_def by blast
qed

lemma handle_dead_step:
  assumes "handle_dead n h g"
  shows "handle_dead n h (gm_apply e g)"
proof -
  have ok: "handle_ok n h g" and inv: "gm_inv g" and le: "h_generation h \<le> nextTicket g"
    using assms by (simp_all add: handle_dead_def handle_ok_def)
  show ?thesis
    using assms handle_ok_step [OF ok, of e] gm_apply_keeps [OF inv _ le, of e] unfolding handle_dead_def by blast
qed

interpretation live: event_machine gm_apply "handle_ok n h" for n h
  by unfold_locales (rule handle_ok_step)

interpretation dead: event_machine gm_apply "handle_dead n h" for n h
  by unfold_locales (rule handle_dead_step)

lemma invalidates_dead:
  assumes "handle_ok n h g" and "invalidates n e"
  shows "handle_dead n h (gm_apply e g)"
proof -
  have lost: "fifo_get (stamps (gm_apply e g)) n \<noteq> Some (h_generation h)"
  proof (cases e)
    case (GBump normKey k)
    let ?g = "g\<lparr>invalidations := invalidations g + 1\<rparr>"
    obtain t g' where iss: "gm_issue (normKey k) ?g = (t, g')" by fastforce
    have ok: "fifo_ok (stamps ?g)" using assms(1) by (simp add: handle_ok_def gm_inv_def)
    show ?thesis
      using gm_issue_get(1,3) [OF ok iss] assms GBump iss by (auto simp: gm_bump_def handle_ok_def)
  next
    case (GCapture normKey k)
    with assms show ?thesis by simp
  next
    case (GForget normKey k)
    with assms show ?thesis by (simp add: gm_forget_def fifo_get_delete)
  next
    case GClear
    then show ?thesis by (simp add: gm_clear_def fifo_clear_def fifo_get_def)
  qed
  have "handle_ok n h (gm_apply e g)" by (rule handle_ok_step [OF assms(1)])
  with lost show ?thesis unfolding handle_dead_def handle_ok_def by blast
qed

text \<open>An event that invalidates any key moves the counter a handle compares first.\<close>

lemma invalidates_moves:
  assumes "gm_inv g" and "invalidates m e"
  shows "invalidations g < invalidations (gm_apply e g)"
proof (cases e)
  case (GBump normKey k)
  with gm_issue_mono [of "g\<lparr>invalidations := invalidations g + 1\<rparr>" "normKey k"] assms show ?thesis
    by (simp add: gm_bump_def)
qed (use assms in \<open>simp_all add: gm_forget_def gm_clear_def\<close>)

lemma run_mono: "gm_inv g \<Longrightarrow> invalidations g \<le> invalidations (fold gm_apply es g)"
proof (induction es arbitrary: g)
  case (Cons e es)
  with gm_apply_mono [OF Cons.prems, of e] Cons.IH [OF gm_apply_inv [OF Cons.prems, of e]] show ?case by simp
qed simp

lemma handle_ok_capture:
  assumes "gm_inv g" and "gm_capture normKey k g = (h, g')"
  shows "handle_ok (normKey k) h g'" and "h_key h = k" and "h_invalidations h = invalidations g'"
proof -
  have h: "h = fst (gm_capture normKey k g)" and g': "g' = snd (gm_capture normKey k g)"
    using assms(2) by simp_all
  show key: "h_key h = k" "h_invalidations h = invalidations g'"
    using h g' by (auto simp: gm_capture_def Let_def split: prod.splits)
  have get: "gm_inv g' \<and> fifo_get (stamps g') (normKey k) = Some (h_generation h)"
  proof (cases rule: gm_capture_cases [of g normKey k])
    case 1
    then show ?thesis
      using h g' assms(1) by (auto simp: gm_read_def split: option.splits)
  next
    case (2 t g'')
    then show ?thesis
      using h g' gm_issue_inv [OF assms(1) 2(2)] gm_issue_get(1) [of g "normKey k"] assms(1)
      by (auto simp: gm_inv_def)
  qed
  then show "handle_ok (normKey k) h g'"
    using key unfolding handle_ok_def gm_inv_def by auto
qed

section \<open>Properties\<close>

text \<open>
  The fast path of a handle is sound: after any sequence of operations, with the key resolved
  at the check as at the capture, comparing the invalidation counter first answers exactly
  what reading the key's stamp would answer.
\<close>

theorem handle_fast_path_exact:
  assumes "gm_inv g" and "gm_capture normKey k g = (h, g')" and "atCheck k = normKey k"
  shows "handle_isCurrent atCheck (fold gm_apply es g') h
       \<longleftrightarrow> gm_current atCheck (fold gm_apply es g') k = h_generation h"
proof -
  let ?g = "fold gm_apply es g'"
  have ok: "handle_ok (normKey k) h ?g"
    by (rule live.run_inv [OF handle_ok_capture(1) [OF assms(1,2)]])
  have key: "h_key h = k" by (rule handle_ok_capture(2) [OF assms(1,2)])
  show ?thesis
    using ok gm_read_pos [of ?g "h_generation h" "normKey k"] assms(3)
    by (auto simp: handle_isCurrent_def handle_read_def gm_current_def handle_ok_def key)
qed

theorem handle_fast_path_exact_witness:
  "let (h, g) = gm_capture id ''/repo'' (createGenerationMap (Some 1)) in
     \<not> handle_isCurrent id (fold gm_apply [GCapture id ''/other''] g) h"
proof -
  obtain h g where c: "gm_capture id ''/repo'' (createGenerationMap (Some 1)) = (h, g)" by fastforce
  have "gm_current id (fold gm_apply [GCapture id ''/other''] g) ''/repo'' \<noteq> h_generation h"
    using c by (auto simp: gm_capture_def createGenerationMap_def gm_read_def gm_issue_def Let_def
        fifo_get_def fifo_delete_def fifo_set_eq fifo_wf_def jm_wf_def new_BoundedFifoMap_def gm_current_def)
  then show ?thesis
    using handle_fast_path_exact [OF gm_inv_new c, of id "[GCapture id ''/other'']"] c by simp
qed

text \<open>
  C40: A late write is fenced. The normaliser may answer differently at the capture, at every
  event and at the check. When, after the capture, the map was cleared, or a bump or forget
  reached the key as the capture resolved it or the key as the check resolves it, then
  whatever other operations run before and after (first-use captures, evictions and
  re-stamping of the same key included) \<open>guardedWrite\<close> leaves the guarded state as it is and
  returns nothing.
\<close>

theorem stale_write_is_fenced:
  assumes "gm_inv g" and "gm_capture atCapture k g = (h, g')"
    and "list_ex (invalidates (atCapture k)) es \<or> list_ex (invalidates (atCheck k)) es"
  shows "fst (fst (guardedWrite atCheck declared name (fold gm_apply es g') h act (s, tallies))) = s
       \<and> snd (guardedWrite atCheck declared name (fold gm_apply es g') h act (s, tallies)) = None"
proof -
  let ?g = "fold gm_apply es g'"
  note cap = handle_ok_capture [OF assms(1,2)]
  have ok: "handle_ok (atCapture k) h ?g" by (rule live.run_inv [OF cap(1)])
  obtain m es1 e es2 where m: "m = atCapture k \<or> m = atCheck k"
    and es: "es = es1 @ e # es2" and inv: "invalidates m e"
    using assms(3) unfolding list_ex_iff by (elim disjE bexE) (blast dest: split_list)+
  let ?g1 = "fold gm_apply es1 g'"
  have ok1: "handle_ok (atCapture k) h ?g1" by (rule live.run_inv [OF cap(1)])
  then have gm1: "gm_inv ?g1" by (simp add: handle_ok_def)
  have moved: "invalidations ?g \<noteq> h_invalidations h"
    using run_mono [of g' es1] run_mono [OF gm_apply_inv [OF gm1, of e], of es2] invalidates_moves [OF gm1 inv] cap(1,3)
    by (simp add: es handle_ok_def)
  have "fifo_get (stamps ?g) (atCheck k) \<noteq> Some (h_generation h)"
  proof (cases "atCheck k = atCapture k")
    case True
    with m inv invalidates_dead [OF ok1, of e] have "handle_dead (atCapture k) h (gm_apply e ?g1)" by auto
    from dead.run_inv [OF this, of es2] show ?thesis by (simp add: es handle_dead_def)
  qed (use ok in \<open>auto simp: handle_ok_def\<close>)
  then have "handle_read atCheck ?g h \<noteq> h_generation h"
    using gm_read_pos [of ?g "h_generation h" "atCheck k"] ok moved cap(2)
    by (auto simp: handle_ok_def handle_read_def)
  then show ?thesis by (simp add: guardedWrite_def)
qed

text \<open>The path comes into existence between the capture and the bump: the check sees the new key.\<close>

theorem stale_write_is_fenced_witness:
  "let (h, g) = gm_capture id ''/repo'' (createGenerationMap None) in
     snd (guardedWrite (\<lambda>_. ''/real'') [''cache''] ''cache''
            (fold gm_apply [GBump (\<lambda>_. ''/real'') ''/repo'', GCapture id ''/repo''] g) h
            (\<lambda>s::nat. (s + 1, s)) (0, [])) = None"
proof -
  obtain h g where c: "gm_capture id ''/repo'' (createGenerationMap None) = (h, g)" by fastforce
  have "list_ex (invalidates (id ''/repo'')) [GBump (\<lambda>_. ''/real'') ''/repo'', GCapture id ''/repo''] \<or>
        list_ex (invalidates ((\<lambda>_. ''/real'') ''/repo'')) [GBump (\<lambda>_. ''/real'') ''/repo'', GCapture id ''/repo'']"
    by simp
  from stale_write_is_fenced [OF gm_inv_new c this, where act = "\<lambda>s::nat. (s + 1, s)"] c
  show ?thesis by simp
qed

text \<open>
  The limit of the fence: a bump that resolved the spelling to another key than the capture
  does not reach the handle, and when the normaliser answers at the check as at the capture
  again (a link removed in the meantime), the handle is current.
\<close>

theorem bump_under_another_answer_misses:
  "let (h, g) = gm_capture id ''/repo'' (createGenerationMap None) in
     handle_isCurrent id (gm_apply (GBump (\<lambda>_. ''/real'') ''/repo'') g) h"
  by code_simp

end
