(* ===== verification/Config_Records.thy ===== *)
theory Config_Records
  imports Config_Provenance
begin

text \<open>
  Bounded, redacted validation records: \<open>src/clients/config-core/records.ts\<close>.

  A reason is one constructor per template of the source, carrying the structural facts the
  template interpolates. The secret redactor (\<open>redactSecrets\<close>) is a parameter. The collector
  keeps records up to its limit and counts the rest, except a whole-configuration verdict
  (\<open>PILENS_CFG_0008\<close>), which is kept however full it is.
\<close>

section \<open>Records\<close>

datatype diagnostic_code =
  CFG_0001 | CFG_0002 | CFG_0003 | CFG_0004 | CFG_0005 | CFG_0006 | CFG_0007 | CFG_0008

datatype reason =
    NestingExceeds nat
  | RefersToItself
  | NotJsonData string
  | ExpectedObject string
  | ExpectedArray string
  | ExpectedScalar string string
  | StringTooShort jnum
  | NotOneOf "jval list"
  | UnknownField
  | UnsafeKey
  | NoticesSuppressed int nat
  | ValidationFailed string
  | ResolutionFailed string

record migration_record =
  mr_code :: diagnostic_code
  mr_file :: string
  mr_key :: string
  mr_subject :: string
  mr_reason :: reason
  mr_tier :: "source_tier option"

definition DEGRADATION_ENTRIES_PER_KIND :: nat where "DEGRADATION_ENTRIES_PER_KIND = 20"

definition MAX_MIGRATION_RECORDS :: nat where
  "MAX_MIGRATION_RECORDS = DEGRADATION_ENTRIES_PER_KIND"

definition MAX_RECORD_KEY_LENGTH :: nat where "MAX_RECORD_KEY_LENGTH = 120"

definition UNBOUNDED_RECORD_CODES :: "diagnostic_code list" where
  "UNBOUNDED_RECORD_CODES = [CFG_0008]"

definition migrationSubject :: "string \<Rightarrow> string \<Rightarrow> string" where
  "migrationSubject file key = (if length key > 0 then file @ [CHR 0x00] @ key else file)"

definition stripControlCharacters :: "string \<Rightarrow> string" where
  "stripControlCharacters s =
     map (\<lambda>c. let code = (of_char c :: nat) in if code < 0x20 \<or> code = 0x7f then CHR '' '' else c) s"

definition boundedKeyLabel :: "(string \<Rightarrow> string) \<Rightarrow> string \<Rightarrow> string" where
  "boundedKeyLabel redactSecrets key =
     (let printable = js_trim (stripControlCharacters key);
          bounded = (if length printable > MAX_RECORD_KEY_LENGTH
                     then take MAX_RECORD_KEY_LENGTH printable @ ''...'' else printable)
      in redactSecrets bounded)"

fun jsonTypeName :: "jval \<Rightarrow> string" where
  "jsonTypeName JNull = ''null''"
| "jsonTypeName (JArr _) = ''array''"
| "jsonTypeName JUndef = ''undefined''"
| "jsonTypeName (JBool _) = ''boolean''"
| "jsonTypeName (JNum _) = ''number''"
| "jsonTypeName (JStr _) = ''string''"
| "jsonTypeName (JObj _) = ''object''"
| "jsonTypeName (JOther t) = t"

section \<open>The collector\<close>

record record_anchor =
  anchor_file :: string
  anchor_tier :: "source_tier option"

definition UNANCHORED_RECORD_LABEL :: string where
  "UNANCHORED_RECORD_LABEL = ''(config resolution)''"

record collector =
  kept :: "migration_record list"
  dropped :: int
  limit :: int

definition new_MigrationRecordCollector :: "int \<Rightarrow> int \<Rightarrow> collector" where
  "new_MigrationRecordCollector bound priorDropped =
     \<lparr>kept = [], dropped = max 0 priorDropped, limit = max 0 bound\<rparr>"

definition mrc_add :: "collector \<Rightarrow> migration_record \<Rightarrow> collector" where
  "mrc_add c r =
     (if int (length (kept c)) \<ge> limit c then
        if mr_code r \<in> set UNBOUNDED_RECORD_CODES then c\<lparr>kept := kept c @ [r]\<rparr>
        else c\<lparr>dropped := dropped c + 1\<rparr>
      else c\<lparr>kept := kept c @ [r]\<rparr>)"

definition finalize :: "collector \<Rightarrow> record_anchor option \<Rightarrow> migration_record list" where
  "finalize c anchor =
     (if dropped c = 0 then kept c
      else let file = (case anchor of Some a \<Rightarrow> anchor_file a | None \<Rightarrow> UNANCHORED_RECORD_LABEL)
           in kept c @
              [\<lparr>mr_code = CFG_0007, mr_file = file, mr_key = [],
                mr_subject = migrationSubject file [],
                mr_reason = NoticesSuppressed (dropped c) MAX_MIGRATION_RECORDS,
                mr_tier = (case anchor of Some a \<Rightarrow> anchor_tier a | None \<Rightarrow> None)\<rparr>])"

definition finalizeRecords ::
  "migration_record list \<Rightarrow> record_anchor option \<Rightarrow> int \<Rightarrow> migration_record list" where
  "finalizeRecords records anchor priorDropped =
     (let c = foldl mrc_add
                (new_MigrationRecordCollector (int MAX_MIGRATION_RECORDS - 1) priorDropped) records
      in finalize c anchor)"

section \<open>Lemmas\<close>

definition is_verdict :: "migration_record \<Rightarrow> bool" where
  "is_verdict r = (mr_code r \<in> set UNBOUNDED_RECORD_CODES)"

text \<open>A full collector keeps only verdicts; one with room keeps the first records that fit.\<close>

lemma collect_full:
  "limit c \<le> int (length (kept c)) \<Longrightarrow>
     foldl mrc_add c rs =
       c\<lparr>kept := kept c @ filter is_verdict rs,
         dropped := dropped c + int (length (filter (\<lambda>r. \<not> is_verdict r) rs))\<rparr>"
  by (induction rs arbitrary: c) (auto simp: mrc_add_def is_verdict_def)

lemma collect_spec:
  assumes "int (length (kept c)) + int room = limit c"
  shows "foldl mrc_add c rs =
     c\<lparr>kept := kept c @ take room rs @ filter is_verdict (drop room rs),
       dropped := dropped c + int (length (filter (\<lambda>r. \<not> is_verdict r) (drop room rs)))\<rparr>"
  using assms
proof (induction rs arbitrary: c room)
  case Nil
  then show ?case by simp
next
  case (Cons r rs)
  show ?case
  proof (cases room)
    case 0
    with Cons.prems show ?thesis by (simp add: collect_full del: foldl_Cons)
  next
    case (Suc room')
    with Cons.prems have "mrc_add c r = c\<lparr>kept := kept c @ [r]\<rparr>" by (simp add: mrc_add_def)
    with Suc Cons.prems Cons.IH [of "c\<lparr>kept := kept c @ [r]\<rparr>" room'] show ?thesis by simp
  qed
qed

lemma collect_new:
  "foldl mrc_add (new_MigrationRecordCollector (int n) prior) rs =
     \<lparr>kept = take n rs @ filter is_verdict (drop n rs),
      dropped = max 0 prior + int (length (filter (\<lambda>r. \<not> is_verdict r) (drop n rs))), limit = int n\<rparr>"
  by (subst collect_spec [of _ n]) (simp_all add: new_MigrationRecordCollector_def)

lemma is_verdict_iff: "is_verdict = (\<lambda>r. mr_code r = CFG_0008)"
  by (simp add: fun_eq_iff is_verdict_def UNBOUNDED_RECORD_CODES_def)

lemma finalize_parts:
  "\<exists>overflow. finalize c anchor = kept c @ overflow \<and>
     map mr_reason overflow = (if dropped c = 0 then [] else [NoticesSuppressed (dropped c) 20])"
  by (simp add: finalize_def Let_def MAX_MIGRATION_RECORDS_def DEGRADATION_ENTRIES_PER_KIND_def)

lemma finalizeRecords_eq:
  "finalizeRecords rs anchor prior =
     finalize \<lparr>kept = take 19 rs @ filter is_verdict (drop 19 rs),
       dropped = max 0 prior + int (length (filter (\<lambda>r. \<not> is_verdict r) (drop 19 rs))), limit = 19\<rparr> anchor"
proof -
  have "int MAX_MIGRATION_RECORDS - 1 = int 19"
    by (simp add: MAX_MIGRATION_RECORDS_def DEGRADATION_ENTRIES_PER_KIND_def)
  then show ?thesis
    unfolding finalizeRecords_def Let_def by (simp only: collect_new) simp
qed

section \<open>Properties\<close>

text \<open>
  bounding a record list loses no information silently. The first nineteen records are
  shown, every later whole-configuration verdict is shown too, and all the others, together with
  those an earlier bound had dropped, are counted by exactly one closing record, which is present
  exactly when that count is not zero.
\<close>

theorem finalizeRecords_accounts_for_every_record:
  "\<exists>overflow.
     finalizeRecords rs anchor prior =
       take 19 rs @ filter (\<lambda>r. mr_code r = CFG_0008) (drop 19 rs) @ overflow \<and>
     (let n = max 0 prior + int (length (filter (\<lambda>r. mr_code r \<noteq> CFG_0008) (drop 19 rs)))
      in map mr_reason overflow = (if n = 0 then [] else [NoticesSuppressed n 20]))"
  using finalize_parts [of "\<lparr>kept = take 19 rs @ filter is_verdict (drop 19 rs),
      dropped = max 0 prior + int (length (filter (\<lambda>r. \<not> is_verdict r) (drop 19 rs))), limit = 19\<rparr>" anchor]
  unfolding finalizeRecords_eq by (simp only: is_verdict_iff Let_def collector.simps append_assoc)

text \<open>
  a key label quoted in a record is bounded and printable: before redaction it has at most
  123 characters and no control character, so one notice cannot be split over two lines.
\<close>

theorem boundedKeyLabel_bounded_printable:
  "\<exists>label. boundedKeyLabel redact key = redact label \<and> length label \<le> 123 \<and>
     list_all (\<lambda>c. 0x20 \<le> (of_char c :: nat) \<and> (of_char c :: nat) \<noteq> 0x7f) label"
proof -
  define printable where "printable = js_trim (stripControlCharacters key)"
  have clean: "0x20 \<le> (of_char c :: nat) \<and> (of_char c :: nat) \<noteq> 0x7f"
    if "c \<in> set (stripControlCharacters key)" for c
    using that by (auto simp: stripControlCharacters_def Let_def split: if_splits)
  have "set printable \<subseteq> set (stripControlCharacters key)"
    unfolding printable_def by (auto simp: js_trim_def dest!: set_dropWhileD)
  with clean have ok: "list_all (\<lambda>c. 0x20 \<le> (of_char c :: nat) \<and> (of_char c :: nat) \<noteq> 0x7f) printable"
    by (auto simp: list_all_iff)
  then have "list_all (\<lambda>c. 0x20 \<le> (of_char c :: nat) \<and> (of_char c :: nat) \<noteq> 0x7f)
      (take MAX_RECORD_KEY_LENGTH printable @ ''...'')"
    by (auto simp: list_all_iff dest: in_set_takeD)
  with ok show ?thesis
    unfolding boundedKeyLabel_def Let_def printable_def [symmetric]
    by (auto simp: MAX_RECORD_KEY_LENGTH_def)
qed

end
