(* ===== verification/Config_Normalize.thy ===== *)
theory Config_Normalize
  imports Config_Records
begin

text \<open>
  The validating half of the config pipeline: \<open>src/clients/config-core/normalize.ts\<close>.

  \<open>walk\<close> recurses on the levels still allowed, \<open>MAX_CONFIG_DEPTH + 1 - depth\<close>, so the depth
  bound of the code is what makes it terminate. \<open>None\<close> is the sentinel \<open>DROPPED\<close>. The
  collector is threaded; the path is passed down, since every \<open>push\<close> of the source is undone by
  its \<open>pop\<close>. The regular expressions of a schema and the secret redactor are the fields of a
  \<open>walk_env\<close>. A value is a tree, so the check for a value that contains itself cannot fire, and
  no operation of the walk throws, so the catch block of \<open>validate\<close> is not reached.
\<close>

section \<open>Definitions\<close>

record walk_env =
  we_re :: regex
  we_redact :: "string \<Rightarrow> string"

record walk_context =
  wc_file :: string
  wc_tier :: "source_tier option"

type_synonym walker = "jval \<Rightarrow> schema option \<Rightarrow> string list \<Rightarrow> collector \<Rightarrow> jval option \<times> collector"

definition OPEN_SCHEMA :: schema where
  "OPEN_SCHEMA = [(''additionalProperties'', JBool True)]"

text \<open>\<open>"/" + path.join("/")\<close>, or the empty string for the root.\<close>

definition pointerOf :: "string list \<Rightarrow> string" where
  "pointerOf path = (if path = [] then [] else ''/'' @ js_join ''/'' path)"

definition walk_record ::
  "walk_env \<Rightarrow> walk_context \<Rightarrow> diagnostic_code \<Rightarrow> string \<Rightarrow> reason \<Rightarrow> collector \<Rightarrow> collector" where
  "walk_record env ctx code entry_key why c =
     (let key = boundedKeyLabel (we_redact env) entry_key in
      mrc_add c \<lparr>mr_code = code, mr_file = wc_file ctx, mr_key = key,
                 mr_subject = migrationSubject (wc_file ctx) key, mr_reason = why,
                 mr_tier = wc_tier ctx\<rparr>)"

definition claimsChildren :: "schema option \<Rightarrow> bool" where
  "claimsChildren schema =
     (schema \<noteq> None \<and>
      (isSchemaNode (node_get schema ''properties'') \<or>
       isSchemaNode (node_get schema ''patternProperties'') \<or>
       node_get schema ''additionalProperties'' \<noteq> JUndef))"

fun isConfigScalar :: "jval \<Rightarrow> bool" where
  "isConfigScalar JNull = True"
| "isConfigScalar (JStr _) = True"
| "isConfigScalar (JBool _) = True"
| "isConfigScalar (JNum n) = num_isFinite n"
| "isConfigScalar _ = False"

text \<open>
  \<open>Object.is\<close> between a schema literal and a scalar value is equality of values: \<open>NaN\<close> is
  itself and \<open>-0\<close> is not \<open>0\<close>.
\<close>

definition checkEnum ::
  "walk_env \<Rightarrow> walk_context \<Rightarrow> jval \<Rightarrow> schema option \<Rightarrow> string list \<Rightarrow> collector \<Rightarrow> bool \<times> collector" where
  "checkEnum env ctx v schema path c =
     (case node_get schema ''enum'' of
        JArr allowed \<Rightarrow>
          if list_ex (\<lambda>candidate. candidate = v) allowed then (True, c)
          else (False, walk_record env ctx CFG_0005 (pointerOf path) (NotOneOf allowed) c)
      | _ \<Rightarrow> (True, c))"

definition accept_if :: "jval \<Rightarrow> bool \<times> collector \<Rightarrow> jval option \<times> collector" where
  "accept_if v checked = (if fst checked then Some v else None, snd checked)"

definition walkLeaf :: "walk_env \<Rightarrow> walk_context \<Rightarrow> walker" where
  "walkLeaf env ctx v schema path c =
     (if \<not> isConfigScalar v
      then (None, walk_record env ctx CFG_0005 (pointerOf path) (NotJsonData (jsonTypeName v)) c)
      else accept_if v (checkEnum env ctx v schema path c))"

fun scalar_check :: "string \<Rightarrow> jval \<Rightarrow> bool" where
  "scalar_check declared (JStr _) = (declared = ''string'')"
| "scalar_check declared (JNum n) =
     (declared = ''number'' \<and> num_isFinite n \<or> declared = ''integer'' \<and> num_isInteger n)"
| "scalar_check declared (JBool _) = (declared = ''boolean'')"
| "scalar_check declared JNull = (declared = ''null'')"
| "scalar_check declared _ = False"

text \<open>\<open>value.length < minLength\<close> for a number that need not be finite.\<close>

fun shorter_than :: "nat \<Rightarrow> jnum \<Rightarrow> bool" where
  "shorter_than n (Fin q) = (of_nat n < q)"
| "shorter_than n PosInf = True"
| "shorter_than n _ = False"

definition too_short :: "string \<Rightarrow> schema option \<Rightarrow> jval \<Rightarrow> jnum option" where
  "too_short declared schema v =
     (case (node_get schema ''minLength'', v) of
        (JNum minLength, JStr s) \<Rightarrow>
          if declared = ''string'' \<and> shorter_than (length s) minLength then Some minLength else None
      | _ \<Rightarrow> None)"

definition walkScalar ::
  "walk_env \<Rightarrow> walk_context \<Rightarrow> string \<Rightarrow> walker" where
  "walkScalar env ctx declared v schema path c =
     (if \<not> scalar_check declared v
      then (None, walk_record env ctx CFG_0005 (pointerOf path)
                    (ExpectedScalar declared (jsonTypeName v)) c)
      else case too_short declared schema v of
             Some minLength \<Rightarrow>
               (None, walk_record env ctx CFG_0005 (pointerOf path) (StringTooShort minLength) c)
           | None \<Rightarrow> accept_if v (checkEnum env ctx v schema path c))"

text \<open>The schema a child is walked with, \<open>None\<close> when the child is an unknown field to drop.\<close>

definition effective_schema ::
  "regex \<Rightarrow> schema option \<Rightarrow> additional_policy \<Rightarrow> string \<Rightarrow> schema option option" where
  "effective_schema re schema policy name =
     (case propertySchema re schema name of
        Some child \<Rightarrow> Some (Some child)
      | None \<Rightarrow>
          (case policy of Drop \<Rightarrow> None | Keep \<Rightarrow> Some None | Validate s \<Rightarrow> Some (Some s)))"

definition rejectUnsafeKey ::
  "walk_env \<Rightarrow> walk_context \<Rightarrow> string \<Rightarrow> string list \<Rightarrow> collector \<Rightarrow> bool \<times> collector" where
  "rejectUnsafeKey env ctx name path c =
     (if \<not> isUnsafeConfigKey name then (False, c)
      else (True, walk_record env ctx CFG_0006 (pointerOf (path @ [name])) UnsafeKey c))"

definition object_step ::
  "walk_env \<Rightarrow> walk_context \<Rightarrow> walker \<Rightarrow> schema option \<Rightarrow> string list \<Rightarrow>
   jobj \<times> collector \<Rightarrow> string \<times> jval \<Rightarrow> jobj \<times> collector" where
  "object_step env ctx child schema path st entry =
     (let (out, c) = st; (name, v) = entry; (refused, c') = rejectUnsafeKey env ctx name path c in
      if refused then (out, c')
      else case effective_schema (we_re env) schema (additionalPropertyPolicy schema) name of
             None \<Rightarrow>
               (out, walk_record env ctx CFG_0004 (pointerOf (path @ [name])) UnknownField c')
           | Some effective \<Rightarrow>
               (case child v effective (path @ [name]) c' of
                  (Some walked, c'') \<Rightarrow> (fst (safeAssign name walked out), c'')
                | (None, c'') \<Rightarrow> (out, c'')))"

definition walkObject :: "walk_env \<Rightarrow> walk_context \<Rightarrow> walker \<Rightarrow> walker" where
  "walkObject env ctx child v schema path c =
     (if \<not> isPlainObject v
      then (None, walk_record env ctx CFG_0005 (pointerOf path) (ExpectedObject (jsonTypeName v)) c)
      else let (out, c') = foldl (object_step env ctx child schema path) ([], c) (obj_of v)
           in (Some (JObj out), c'))"

definition array_step ::
  "walker \<Rightarrow> schema option \<Rightarrow> string list \<Rightarrow>
   jval list \<times> collector \<Rightarrow> nat \<times> jval \<Rightarrow> jval list \<times> collector" where
  "array_step child items path st entry =
     (let (out, c) = st in
      case child (snd entry) items (path @ [show_nat (fst entry)]) c of
        (Some walked, c') \<Rightarrow> (out @ [walked], c')
      | (None, c') \<Rightarrow> (out, c'))"

definition walkArray :: "walk_env \<Rightarrow> walk_context \<Rightarrow> walker \<Rightarrow> walker" where
  "walkArray env ctx child v schema path c =
     (if \<not> isArray v
      then (None, walk_record env ctx CFG_0005 (pointerOf path) (ExpectedArray (jsonTypeName v)) c)
      else let (out, c') = foldl (array_step child (itemsSchema schema) path) ([], c)
                             (zip [0..<length (arr_of v)] (arr_of v))
           in (Some (JArr out), c'))"

definition walkOpaque :: "walk_env \<Rightarrow> walk_context \<Rightarrow> walker \<Rightarrow> walker" where
  "walkOpaque env ctx child v schema path c =
     (if isPlainObject v then
        walkObject env ctx child v (if claimsChildren schema then schema else Some OPEN_SCHEMA) path c
      else if isArray v then walkArray env ctx child v schema path c
      else walkLeaf env ctx v schema path c)"

primrec walk :: "walk_env \<Rightarrow> walk_context \<Rightarrow> nat \<Rightarrow> walker" where
  "walk env ctx 0 = (\<lambda>v schema path c.
     (None, walk_record env ctx CFG_0005 (pointerOf path) (NestingExceeds MAX_CONFIG_DEPTH) c))"
| "walk env ctx (Suc levels) = (\<lambda>v schema path c.
     (case schemaType schema of
        Some declared \<Rightarrow>
          if declared = ''object'' then walkObject env ctx (walk env ctx levels) v schema path c
          else if declared = ''array'' then walkArray env ctx (walk env ctx levels) v schema path c
          else if isKnownSchemaType (Some declared) then walkScalar env ctx declared v schema path c
          else walkOpaque env ctx (walk env ctx levels) v schema path c
      | None \<Rightarrow> walkOpaque env ctx (walk env ctx levels) v schema path c))"

text \<open>\<open>validate(raw, schema, {file, tier, collector})\<close>: the value, and the collector after it.\<close>

definition validate ::
  "walk_env \<Rightarrow> jval \<Rightarrow> schema \<Rightarrow> walk_context \<Rightarrow> collector \<Rightarrow> jval \<times> collector" where
  "validate env raw schema ctx c =
     (let (walked, c') = walk env ctx (Suc MAX_CONFIG_DEPTH) raw (Some schema) [] c
      in (case walked of None \<Rightarrow> JUndef | Some v \<Rightarrow> v, c'))"

section \<open>The walk as a pure function of value and schema\<close>

lemma pointerOf_pointer_of: "pointerOf path = pointer_of path"
proof (cases path)
  case (Cons p ps)
  have "js_join ''/'' (p # ps) = p @ pointer_of ps" for p
    by (induction ps arbitrary: p) simp_all
  with Cons show ?thesis by (simp add: pointerOf_def)
qed (simp add: pointerOf_def)

text \<open>Every record is either kept or counted.\<close>

definition noted :: "collector \<Rightarrow> int" where
  "noted c = int (length (kept c)) + dropped c"

lemma noted_add [simp]: "noted (mrc_add c r) = noted c + 1"
  by (simp add: noted_def mrc_add_def)

lemma noted_walk_record [simp]: "noted (walk_record env ctx code key why c) = noted c + 1"
  by (simp add: walk_record_def Let_def)

text \<open>What a parser produces: own keys distinct and in enumeration order at every level.\<close>

fun wf_value :: "jval \<Rightarrow> bool" where
  "wf_value (JObj fs) =
     (distinct (map fst fs) \<and> keys_ordered (map fst fs) \<and>
      list_all (\<lambda>(k, v). wf_value v) fs)"
| "wf_value (JArr items) = list_all wf_value items"
| "wf_value _ = True"

text \<open>
  The reference: what is kept of a value, and how many notices it causes, with no collector and
  no path.
\<close>

definition enum_ok :: "jval \<Rightarrow> schema option \<Rightarrow> bool" where
  "enum_ok v schema =
     (case node_get schema ''enum'' of JArr allowed \<Rightarrow> v \<in> set allowed | _ \<Rightarrow> True)"

datatype node_kind = ObjectNode "schema option" | ArrayNode "schema option" | ScalarNode "jval \<Rightarrow> bool"

definition node_kind_of :: "jval \<Rightarrow> schema option \<Rightarrow> node_kind" where
  "node_kind_of v schema =
     (let opaque =
        (if isPlainObject v then ObjectNode (if claimsChildren schema then schema else Some OPEN_SCHEMA)
         else if isArray v then ArrayNode (itemsSchema schema)
         else ScalarNode (\<lambda>v. isConfigScalar v \<and> enum_ok v schema))
      in case schemaType schema of
           None \<Rightarrow> opaque
         | Some declared \<Rightarrow>
             if declared = ''object'' then ObjectNode schema
             else if declared = ''array'' then ArrayNode (itemsSchema schema)
             else if isKnownSchemaType (Some declared) then
               ScalarNode (\<lambda>v. scalar_check declared v \<and> too_short declared schema v = None \<and> enum_ok v schema)
             else opaque)"

definition child_schema :: "walk_env \<Rightarrow> schema option \<Rightarrow> string \<Rightarrow> schema option option" where
  "child_schema env schema name =
     (if isUnsafeConfigKey name then None
      else effective_schema (we_re env) schema (additionalPropertyPolicy schema) name)"

definition keep_field ::
  "(jval \<Rightarrow> schema option \<Rightarrow> jval option) \<Rightarrow> walk_env \<Rightarrow> schema option \<Rightarrow> string \<times> jval \<Rightarrow>
   (string \<times> jval) option" where
  "keep_field nf env schema entry =
     (case child_schema env schema (fst entry) of
        None \<Rightarrow> None
      | Some s \<Rightarrow> map_option (Pair (fst entry)) (nf (snd entry) s))"

definition field_notices ::
  "(jval \<Rightarrow> schema option \<Rightarrow> nat) \<Rightarrow> walk_env \<Rightarrow> schema option \<Rightarrow> string \<times> jval \<Rightarrow> nat" where
  "field_notices count env schema entry =
     (case child_schema env schema (fst entry) of None \<Rightarrow> 1 | Some s \<Rightarrow> count (snd entry) s)"

primrec normal_form :: "walk_env \<Rightarrow> nat \<Rightarrow> jval \<Rightarrow> schema option \<Rightarrow> jval option" where
  "normal_form env 0 = (\<lambda>v schema. None)"
| "normal_form env (Suc levels) = (\<lambda>v schema.
     (case node_kind_of v schema of
        ObjectNode s \<Rightarrow>
          (case v of
             JObj fs \<Rightarrow> Some (JObj (List.map_filter (keep_field (normal_form env levels) env s) fs))
           | _ \<Rightarrow> None)
      | ArrayNode s \<Rightarrow>
          (case v of
             JArr items \<Rightarrow> Some (JArr (List.map_filter (\<lambda>x. normal_form env levels x s) items))
           | _ \<Rightarrow> None)
      | ScalarNode ok \<Rightarrow> if ok v then Some v else None))"

primrec notices :: "walk_env \<Rightarrow> nat \<Rightarrow> jval \<Rightarrow> schema option \<Rightarrow> nat" where
  "notices env 0 = (\<lambda>v schema. 1)"
| "notices env (Suc levels) = (\<lambda>v schema.
     (case node_kind_of v schema of
        ObjectNode s \<Rightarrow>
          (case v of
             JObj fs \<Rightarrow> sum_list (map (field_notices (notices env levels) env s) fs)
           | _ \<Rightarrow> 1)
      | ArrayNode s \<Rightarrow>
          (case v of JArr items \<Rightarrow> sum_list (map (\<lambda>x. notices env levels x s) items) | _ \<Rightarrow> 1)
      | ScalarNode ok \<Rightarrow> if ok v then 0 else 1))"

section \<open>The walk computes the reference\<close>

text \<open>A walker implements a reference on well-formed values.\<close>

definition implements :: "walker \<Rightarrow> (jval \<Rightarrow> schema option \<Rightarrow> jval option) \<Rightarrow> (jval \<Rightarrow> schema option \<Rightarrow> nat) \<Rightarrow> bool" where
  "implements w nf count \<longleftrightarrow>
     (\<forall>v s path c. wf_value v \<longrightarrow>
        fst (w v s path c) = nf v s \<and> noted (snd (w v s path c)) = noted c + int (count v s))"

lemma implementsD:
  assumes "implements w nf count" and "wf_value v"
  shows "fst (w v s path c) = nf v s" and "noted (snd (w v s path c)) = noted c + int (count v s)"
  using assms by (auto simp: implements_def)

lemma keys_ordered_remove: "keys_ordered (xs @ k # ys) \<Longrightarrow> keys_ordered (xs @ ys)"
  by (induction xs) (auto split: if_splits)

lemma object_step_spec:
  assumes "implements child nf count" and "wf_value v"
    and "keys_ordered (map fst out @ [k])" and "k \<notin> set (map fst out)"
  shows "fst (object_step env ctx child schema path (out, c) (k, v)) =
           (case keep_field nf env schema (k, v) of None \<Rightarrow> out | Some e \<Rightarrow> out @ [e])"
    and "noted (snd (object_step env ctx child schema path (out, c) (k, v))) =
           noted c + int (field_notices count env schema (k, v))"
proof -
  let ?eff = "effective_schema (we_re env) schema (additionalPropertyPolicy schema) k"
  show "fst (object_step env ctx child schema path (out, c) (k, v)) =
           (case keep_field nf env schema (k, v) of None \<Rightarrow> out | Some e \<Rightarrow> out @ [e])"
  proof (cases "isUnsafeConfigKey k")
    case True
    then show ?thesis
      by (simp add: object_step_def rejectUnsafeKey_def keep_field_def child_schema_def)
  next
    case False
    show ?thesis
    proof (cases ?eff)
      case (Some s)
      obtain r c' where w: "child v s (path @ [k]) c = (r, c')" by fastforce
      with implementsD(1) [OF assms(1,2), of s "path @ [k]" c] have "r = nf v s" by simp
      with False Some w show ?thesis
        by (cases "nf v s")
          (simp_all add: object_step_def rejectUnsafeKey_def keep_field_def child_schema_def
             safeAssign_def obj_put_append [OF assms(3,4)])
    qed (use False in \<open>simp add: object_step_def rejectUnsafeKey_def keep_field_def child_schema_def\<close>)
  qed
  show "noted (snd (object_step env ctx child schema path (out, c) (k, v))) =
           noted c + int (field_notices count env schema (k, v))"
  proof (cases "isUnsafeConfigKey k \<or> ?eff = None")
    case True
    then show ?thesis
      by (auto simp: object_step_def rejectUnsafeKey_def field_notices_def child_schema_def)
  next
    case False
    then obtain s where s: "?eff = Some s" by auto
    obtain r c' where w: "child v s (path @ [k]) c = (r, c')" by fastforce
    with implementsD(2) [OF assms(1,2), of s "path @ [k]" c] False s show ?thesis
      by (cases r) (simp_all add: object_step_def rejectUnsafeKey_def field_notices_def child_schema_def)
  qed
qed

lemma object_fold:
  assumes child: "implements child nf count"
  shows "keys_ordered (map fst out @ map fst fs) \<Longrightarrow> distinct (map fst out @ map fst fs) \<Longrightarrow>
     list_all (\<lambda>(k, v). wf_value v) fs \<Longrightarrow>
     fst (foldl (object_step env ctx child schema path) (out, c) fs) =
       out @ List.map_filter (keep_field nf env schema) fs \<and>
     noted (snd (foldl (object_step env ctx child schema path) (out, c) fs)) =
       noted c + int (sum_list (map (field_notices count env schema) fs))"
proof (induction fs arbitrary: out c)
  case Nil
  then show ?case by (simp add: List.map_filter_simps)
next
  case (Cons e fs)
  obtain k v where e: "e = (k, v)" by fastforce
  let ?kept = "keep_field nf env schema (k, v)"
  define out' where "out' = (case ?kept of None \<Rightarrow> out | Some e \<Rightarrow> out @ [e])"
  have v: "wf_value v" and k: "k \<notin> set (map fst out)"
    and ord: "keys_ordered (map fst out @ [k])"
    using Cons.prems e keys_ordered_append1 [of "map fst out @ [k]" "map fst fs"] by auto
  obtain out1 c1 where step: "object_step env ctx child schema path (out, c) (k, v) = (out1, c1)"
    by fastforce
  have out1: "out1 = out'" and c1: "noted c1 = noted c + int (field_notices count env schema (k, v))"
    using object_step_spec [OF child v ord k, of env ctx schema path c] step by (simp_all add: out'_def)
  have fst_kept: "?kept = Some x \<Longrightarrow> fst x = k" for x
    by (auto simp: keep_field_def split: option.splits)
  have "keys_ordered (map fst out' @ map fst fs)" "distinct (map fst out' @ map fst fs)"
    using Cons.prems e fst_kept keys_ordered_remove [of "map fst out" k "map fst fs"]
    by (auto simp: out'_def split: option.splits)
  from Cons.IH [OF this, of c1] Cons.prems(3) step out1 c1 e show ?case
    by (auto simp: out'_def List.map_filter_simps split: option.splits)
qed

lemma array_fold:
  assumes child: "implements child nf count"
  shows "list_all (\<lambda>(i, v). wf_value v) es \<Longrightarrow>
     fst (foldl (array_step child items path) (out, c) es) =
       out @ List.map_filter (\<lambda>x. nf x items) (map snd es) \<and>
     noted (snd (foldl (array_step child items path) (out, c) es)) =
       noted c + int (sum_list (map (\<lambda>x. count x items) (map snd es)))"
proof (induction es arbitrary: out c)
  case Nil
  then show ?case by (simp add: List.map_filter_simps)
next
  case (Cons e es)
  obtain i v where e: "e = (i, v)" by fastforce
  with Cons.prems have v: "wf_value v" by simp
  obtain r c' where w: "child v items (path @ [show_nat i]) c = (r, c')" by fastforce
  with implementsD [OF child v, of items "path @ [show_nat i]" c]
  have "r = nf v items" "noted c' = noted c + int (count v items)" by simp_all
  with w e Cons show ?case
    by (cases "nf v items") (simp_all add: array_step_def List.map_filter_simps)
qed

lemma zip_upt_snd: "map snd (zip [0..<length xs] xs) = xs"
  by simp

lemma walkObject_implements:
  assumes child: "implements child nf count" and v: "wf_value v"
  shows "fst (walkObject env ctx child v schema path c) =
      (case v of JObj fs \<Rightarrow> Some (JObj (List.map_filter (keep_field nf env schema) fs)) | _ \<Rightarrow> None)"
    and "noted (snd (walkObject env ctx child v schema path c)) = noted c +
      int (case v of JObj fs \<Rightarrow> sum_list (map (field_notices count env schema) fs) | _ \<Rightarrow> 1)"
proof -
  have obj: "fst (walkObject env ctx child v schema path c) =
        Some (JObj (List.map_filter (keep_field nf env schema) fs)) \<and>
      noted (snd (walkObject env ctx child v schema path c)) =
        noted c + int (sum_list (map (field_notices count env schema) fs))" if "v = JObj fs" for fs
    using object_fold [OF child, of "[]" fs env ctx schema path c] v that
    by (auto simp: walkObject_def Let_def case_prod_beta)
  then show "fst (walkObject env ctx child v schema path c) =
      (case v of JObj fs \<Rightarrow> Some (JObj (List.map_filter (keep_field nf env schema) fs)) | _ \<Rightarrow> None)"
    and "noted (snd (walkObject env ctx child v schema path c)) = noted c +
      int (case v of JObj fs \<Rightarrow> sum_list (map (field_notices count env schema) fs) | _ \<Rightarrow> 1)"
    by (cases v; simp add: walkObject_def)+
qed

lemma walkArray_implements:
  assumes child: "implements child nf count" and v: "wf_value v"
  shows "fst (walkArray env ctx child v schema path c) =
      (case v of JArr xs \<Rightarrow> Some (JArr (List.map_filter (\<lambda>x. nf x (itemsSchema schema)) xs)) | _ \<Rightarrow> None)"
    and "noted (snd (walkArray env ctx child v schema path c)) = noted c +
      int (case v of JArr xs \<Rightarrow> sum_list (map (\<lambda>x. count x (itemsSchema schema)) xs) | _ \<Rightarrow> 1)"
proof -
  have arr: "fst (walkArray env ctx child v schema path c) =
        Some (JArr (List.map_filter (\<lambda>x. nf x (itemsSchema schema)) xs)) \<and>
      noted (snd (walkArray env ctx child v schema path c)) =
        noted c + int (sum_list (map (\<lambda>x. count x (itemsSchema schema)) xs))" if "v = JArr xs" for xs
  proof -
    from v that have "list_all (\<lambda>(i, v). wf_value v) (zip [0..<length xs] xs)"
      by (auto simp: list_all_iff dest: set_zip_rightD)
    from array_fold [OF child this, of "itemsSchema schema" path "[]" c] that show ?thesis
      by (auto simp: walkArray_def Let_def case_prod_beta zip_upt_snd)
  qed
  then show "fst (walkArray env ctx child v schema path c) =
      (case v of JArr xs \<Rightarrow> Some (JArr (List.map_filter (\<lambda>x. nf x (itemsSchema schema)) xs)) | _ \<Rightarrow> None)"
    and "noted (snd (walkArray env ctx child v schema path c)) = noted c +
      int (case v of JArr xs \<Rightarrow> sum_list (map (\<lambda>x. count x (itemsSchema schema)) xs) | _ \<Rightarrow> 1)"
    by (cases v; simp add: walkArray_def)+
qed

lemma checkEnum_spec:
  "fst (checkEnum env ctx v schema path c) = enum_ok v schema"
  "noted (snd (checkEnum env ctx v schema path c)) = noted c + (if enum_ok v schema then 0 else 1)"
  by (auto simp: checkEnum_def enum_ok_def list_ex_iff split: jval.splits)

lemma walkLeaf_spec:
  "fst (walkLeaf env ctx v schema path c) = (if isConfigScalar v \<and> enum_ok v schema then Some v else None)"
  "noted (snd (walkLeaf env ctx v schema path c)) =
     noted c + (if isConfigScalar v \<and> enum_ok v schema then 0 else 1)"
  by (simp_all add: walkLeaf_def accept_if_def checkEnum_spec)

lemma walkScalar_spec:
  "fst (walkScalar env ctx declared v schema path c) =
     (if scalar_check declared v \<and> too_short declared schema v = None \<and> enum_ok v schema
      then Some v else None)"
  "noted (snd (walkScalar env ctx declared v schema path c)) = noted c +
     (if scalar_check declared v \<and> too_short declared schema v = None \<and> enum_ok v schema then 0 else 1)"
  by (simp_all add: walkScalar_def accept_if_def checkEnum_spec split: option.splits)

lemma walk_implements: "implements (walk env ctx levels) (normal_form env levels) (notices env levels)"
proof (induction levels)
  case 0
  then show ?case by (simp add: implements_def)
next
  case (Suc levels)
  note obj = walkObject_implements [OF Suc.IH]
  note arr = walkArray_implements [OF Suc.IH]
  show ?case
    unfolding implements_def
  proof (intro allI impI)
    fix v s path c
    assume v: "wf_value v"
    show "fst (walk env ctx (Suc levels) v s path c) = normal_form env (Suc levels) v s \<and>
        noted (snd (walk env ctx (Suc levels) v s path c)) = noted c + int (notices env (Suc levels) v s)"
      by (simp add: node_kind_of_def walkOpaque_def obj [OF v] arr [OF v] walkLeaf_spec walkScalar_spec
          Let_def split: option.splits)
  qed
qed

section \<open>What the reference guarantees\<close>

text \<open>
  A clean value: JSON data nested at most \<open>n\<close> levels, finite numbers, distinct keys in
  enumeration order, and no key that would modify an object prototype.
\<close>

primrec clean :: "nat \<Rightarrow> jval \<Rightarrow> bool" where
  "clean 0 = (\<lambda>v. False)"
| "clean (Suc n) = (\<lambda>v.
     (case v of
        JObj fs \<Rightarrow>
          distinct (map fst fs) \<and> keys_ordered (map fst fs) \<and>
          list_all (\<lambda>(k, x). \<not> isUnsafeConfigKey k \<and> clean n x) fs
      | JArr xs \<Rightarrow> list_all (clean n) xs
      | _ \<Rightarrow> isConfigScalar v))"

lemma set_map_filter_iff: "y \<in> set (List.map_filter f xs) \<longleftrightarrow> (\<exists>x \<in> set xs. f x = Some y)"
  by (induction xs) (auto simp: List.map_filter_simps split: option.splits)

lemma length_map_filter: "length (List.map_filter f xs) \<le> length xs"
  by (simp add: List.map_filter_def)

lemma map_filter_id_iff: "List.map_filter f xs = xs \<longleftrightarrow> (\<forall>x \<in> set xs. f x = Some x)"
proof (induction xs)
  case (Cons x xs)
  have "List.map_filter f xs \<noteq> x # xs"
    using length_map_filter [of f xs] by (metis Suc_n_not_le_n length_Cons)
  with Cons show ?case by (auto simp: List.map_filter_simps split: option.splits)
qed (simp add: List.map_filter_simps)

lemma map_filter_idem:
  "(\<And>x y. x \<in> set xs \<Longrightarrow> f x = Some y \<Longrightarrow> f y = Some y) \<Longrightarrow>
     List.map_filter f (List.map_filter f xs) = List.map_filter f xs"
  by (auto simp: map_filter_id_iff set_map_filter_iff)

lemma keep_field_Some:
  "keep_field nf env s e = Some e' \<longleftrightarrow>
     (\<exists>cs w. child_schema env s (fst e) = Some cs \<and> nf (snd e) cs = Some w \<and> e' = (fst e, w))"
  by (auto simp: keep_field_def split: option.splits)

lemma keys_ordered_filter: "keys_ordered (map f xs) \<Longrightarrow> keys_ordered (map f (filter P xs))"
  by (induction xs) (auto simp: list_all_iff split: if_splits)

lemma keys_keep_field:
  "map fst (List.map_filter (keep_field nf env s) fs) =
   map fst (filter (\<lambda>e. keep_field nf env s e \<noteq> None) fs)"
proof (induction fs)
  case (Cons e fs)
  have "keep_field nf env s e = Some e' \<Longrightarrow> fst e' = fst e" for e'
    by (auto simp: keep_field_def split: option.splits)
  with Cons show ?case by (cases "keep_field nf env s e") (simp_all add: List.map_filter_simps)
qed (simp add: List.map_filter_simps)

lemma keep_fields_ordered:
  assumes "distinct (map fst fs)" and "keys_ordered (map fst fs)"
  shows "distinct (map fst (List.map_filter (keep_field nf env s) fs))"
    and "keys_ordered (map fst (List.map_filter (keep_field nf env s) fs))"
  using assms by (simp_all add: keys_keep_field distinct_map_filter keys_ordered_filter)

lemma scalar_check_scalar: "scalar_check d v \<Longrightarrow> isConfigScalar v \<and> (\<forall>fs. v \<noteq> JObj fs) \<and> (\<forall>xs. v \<noteq> JArr xs)"
  by (cases v; auto elim: num_isInteger.elims)

lemma node_kind_scalar:
  assumes "node_kind_of v s = ScalarNode ok" and "ok v"
  shows "isConfigScalar v"
  using assms scalar_check_scalar
  by (auto simp: node_kind_of_def Let_def split: option.splits if_splits)

lemma isConfigScalar_clean: "isConfigScalar v \<Longrightarrow> clean (Suc n) v"
  by (cases v) simp_all

lemma normal_form_clean:
  "wf_value v \<Longrightarrow> normal_form env n v s = Some w \<Longrightarrow> clean n w"
proof (induction n arbitrary: v s w)
  case (Suc n)
  show ?case
  proof (cases "node_kind_of v s")
    case (ObjectNode s')
    with Suc.prems obtain fs where v: "v = JObj fs"
      and w: "w = JObj (List.map_filter (keep_field (normal_form env n) env s') fs)"
      by (auto split: jval.splits)
    have "\<not> isUnsafeConfigKey k \<and> clean n x"
      if "(k, x) \<in> set (List.map_filter (keep_field (normal_form env n) env s') fs)" for k x
      using that Suc.IH Suc.prems(1) v
      by (fastforce simp: set_map_filter_iff keep_field_Some child_schema_def list_all_iff split: if_splits)
    moreover have "distinct (map fst fs)" "keys_ordered (map fst fs)"
      using Suc.prems(1) v by simp_all
    ultimately show ?thesis
      using keep_fields_ordered [of fs] by (auto simp: w list_all_iff)
  next
    case (ArrayNode s')
    with Suc.prems obtain xs where v: "v = JArr xs"
      and w: "w = JArr (List.map_filter (\<lambda>x. normal_form env n x s') xs)"
      by (auto split: jval.splits)
    have "clean n x" if "x \<in> set (List.map_filter (\<lambda>x. normal_form env n x s') xs)" for x
      using that Suc.IH Suc.prems(1) v by (force simp: set_map_filter_iff list_all_iff)
    then show ?thesis by (simp add: w list_all_iff)
  next
    case (ScalarNode ok)
    with Suc.prems node_kind_scalar [OF ScalarNode] isConfigScalar_clean [of w n] show ?thesis
      by (auto split: if_splits)
  qed
qed simp

lemma normal_form_unchanged: "normal_form env n v s = Some v \<longleftrightarrow> notices env n v s = 0"
proof (induction n arbitrary: v s)
  case (Suc n)
  show ?case
  proof (cases "node_kind_of v s")
    case (ObjectNode s')
    have "keep_field (normal_form env n) env s' e = Some e \<longleftrightarrow> field_notices (notices env n) env s' e = 0" for e
      using Suc.IH by (cases e) (auto simp: keep_field_Some field_notices_def split: option.splits)
    with ObjectNode show ?thesis
      by (auto simp: map_filter_id_iff sum_list_eq_0_iff split: jval.splits)
  next
    case (ArrayNode s')
    with Suc.IH show ?thesis by (auto simp: map_filter_id_iff sum_list_eq_0_iff split: jval.splits)
  qed auto
qed simp

lemma node_kind_shape:
  "isPlainObject v = isPlainObject w \<Longrightarrow> isArray v = isArray w \<Longrightarrow> node_kind_of v s = node_kind_of w s"
  by (simp add: node_kind_of_def)

lemma normal_form_idem: "normal_form env n v s = Some w \<Longrightarrow> normal_form env n w s = Some w"
proof (induction n arbitrary: v s w)
  case (Suc n)
  show ?case
  proof (cases "node_kind_of v s")
    case (ObjectNode s')
    let ?keep = "keep_field (normal_form env n) env s'"
    from ObjectNode Suc.prems obtain fs where v: "v = JObj fs" and w: "w = JObj (List.map_filter ?keep fs)"
      by (auto split: jval.splits)
    have "List.map_filter ?keep (List.map_filter ?keep fs) = List.map_filter ?keep fs"
      using Suc.IH by (intro map_filter_idem) (auto simp: keep_field_Some)
    moreover have "node_kind_of w s = ObjectNode s'"
      using ObjectNode node_kind_shape [of v w s] v w by simp
    ultimately show ?thesis by (simp add: w)
  next
    case (ArrayNode s')
    let ?keep = "\<lambda>x. normal_form env n x s'"
    from ArrayNode Suc.prems obtain xs where v: "v = JArr xs" and w: "w = JArr (List.map_filter ?keep xs)"
      by (auto split: jval.splits)
    have "List.map_filter ?keep (List.map_filter ?keep xs) = List.map_filter ?keep xs"
      using Suc.IH by (intro map_filter_idem)
    moreover have "node_kind_of w s = ArrayNode s'"
      using ArrayNode node_kind_shape [of v w s] v w by simp
    ultimately show ?thesis by (simp add: w)
  next
    case (ScalarNode ok)
    with Suc.prems show ?thesis by (auto split: if_splits)
  qed
qed simp

lemma normal_form_wf: "wf_value v \<Longrightarrow> normal_form env n v s = Some w \<Longrightarrow> wf_value w"
proof (induction n arbitrary: v s w)
  case (Suc n)
  show ?case
  proof (cases "node_kind_of v s")
    case (ObjectNode s')
    with Suc.prems obtain fs where v: "v = JObj fs"
      and w: "w = JObj (List.map_filter (keep_field (normal_form env n) env s') fs)"
      by (auto split: jval.splits)
    have "wf_value x" if "(k, x) \<in> set (List.map_filter (keep_field (normal_form env n) env s') fs)" for k x
      using that Suc.IH Suc.prems(1) v
      by (fastforce simp: set_map_filter_iff keep_field_Some list_all_iff)
    with Suc.prems(1) keep_fields_ordered [of fs] show ?thesis by (auto simp: v w list_all_iff)
  next
    case (ArrayNode s')
    with Suc.prems obtain xs where v: "v = JArr xs"
      and w: "w = JArr (List.map_filter (\<lambda>x. normal_form env n x s') xs)"
      by (auto split: jval.splits)
    have "wf_value x" if "x \<in> set (List.map_filter (\<lambda>x. normal_form env n x s') xs)" for x
      using that Suc.IH Suc.prems(1) v by (force simp: set_map_filter_iff list_all_iff)
    then show ?thesis by (simp add: w list_all_iff)
  qed (use Suc.prems in \<open>auto split: if_splits\<close>)
qed simp

lemma validate_spec:
  assumes "wf_value raw"
  shows "fst (validate env raw schema ctx c) =
      (case normal_form env 33 raw (Some schema) of None \<Rightarrow> JUndef | Some v \<Rightarrow> v)"
    and "noted (snd (validate env raw schema ctx c)) = noted c + int (notices env 33 raw (Some schema))"
  using implementsD [OF walk_implements [of env ctx 33] assms, of "Some schema" "[]" c]
  by (simp_all add: validate_def MAX_CONFIG_DEPTH_def case_prod_beta Let_def numeral_eq_Suc
      del: walk.simps normal_form.simps notices.simps)

lemma normal_form_defined: "normal_form env n v s = Some w \<Longrightarrow> w \<noteq> JUndef"
  by (induction n) (auto simp: node_kind_of_def Let_def split: node_kind.splits jval.splits if_splits option.splits)

section \<open>Properties\<close>

text \<open>
  A document for the concrete instances: an open object with a hostile key, walked without
  regular expressions and with an identity redactor.
\<close>

definition plain_env :: walk_env where
  "plain_env = \<lparr>we_re = \<lambda>_. None, we_redact = (\<lambda>s. s)\<rparr>"

definition plain_context :: walk_context where
  "plain_context = \<lparr>wc_file = ''.pi-lens.json'', wc_tier = Some Project\<rparr>"

definition open_object :: schema where
  "open_object = [(''type'', JStr ''object''), (''additionalProperties'', JBool True)]"

definition hostile_doc :: jval where
  "hostile_doc = JObj [(''__proto__'', JNull), (''on'', JBool True)]"

lemma normal_form_Suc_apply:
  "normal_form env (Suc n) v s =
     (case node_kind_of v s of
        ObjectNode s \<Rightarrow>
          (case v of
             JObj fs \<Rightarrow> Some (JObj (List.map_filter (keep_field (normal_form env n) env s) fs))
           | _ \<Rightarrow> None)
      | ArrayNode s \<Rightarrow>
          (case v of JArr items \<Rightarrow> Some (JArr (List.map_filter (\<lambda>x. normal_form env n x s) items)) | _ \<Rightarrow> None)
      | ScalarNode ok \<Rightarrow> if ok v then Some v else None)"
  by simp

lemma hostile_doc_validated:
  "wf_value hostile_doc"
  "fst (validate plain_env hostile_doc open_object plain_context c) = JObj [(''on'', JBool True)]"
proof -
  show wf: "wf_value hostile_doc" by (simp add: hostile_doc_def is_array_index_def is_digit_char_def)
  have "normal_form plain_env (Suc (Suc n)) hostile_doc (Some open_object) = Some (JObj [(''on'', JBool True)])" for n
    by (simp add: normal_form_Suc_apply node_kind_of_def schemaType_def node_get_def open_object_def
        hostile_doc_def List.map_filter_simps keep_field_def child_schema_def isUnsafeConfigKey_def
        UNSAFE_CONFIG_KEYS_def effective_schema_def propertySchema_def as_node_def
        additionalPropertyPolicy_def enum_ok_def Let_def del: normal_form.simps)
  from this [of 31] show "fst (validate plain_env hostile_doc open_object plain_context c) = JObj [(''on'', JBool True)]"
    by (simp add: validate_spec [OF wf] del: normal_form.simps)
qed

text \<open>
  Whatever a configuration file holds, what validation lets through is clean: JSON data at
  most 33 levels deep with finite numbers, whose keys are distinct and never \<open>__proto__\<close>,
  \<open>constructor\<close> or \<open>prototype\<close>, at any depth and under any schema.
\<close>

theorem validate_output_clean:
  assumes "wf_value raw" and "fst (validate env raw schema ctx c) \<noteq> JUndef"
  shows "clean 33 (fst (validate env raw schema ctx c))"
  using assms normal_form_clean [OF assms(1), of env 33 "Some schema"]
  by (auto simp: validate_spec split: option.splits)

theorem validate_output_clean_witness:
  "clean 33 (fst (validate plain_env hostile_doc open_object plain_context
     (new_MigrationRecordCollector 20 0)))"
  by (rule validate_output_clean) (simp_all add: hostile_doc_validated)

text \<open>
  no drop is silent. Validation returns the document unchanged exactly when it adds no
  notice to the collector, kept or counted.
\<close>

theorem validate_unchanged_iff_silent:
  assumes "wf_value raw" and "raw \<noteq> JUndef"
  shows "fst (validate env raw schema ctx c) = raw \<longleftrightarrow> noted (snd (validate env raw schema ctx c)) = noted c"
  using assms(2) normal_form_unchanged [of env 33 raw "Some schema"]
    normal_form_idem [of env 33 raw "Some schema"]
  by (auto simp: validate_spec [OF assms(1)] split: option.splits)

theorem validate_unchanged_iff_silent_witness:
  "noted (snd (validate plain_env hostile_doc open_object plain_context
     (new_MigrationRecordCollector 20 0))) \<noteq> noted (new_MigrationRecordCollector 20 0)"
proof -
  have "hostile_doc \<noteq> JUndef" by (simp add: hostile_doc_def)
  from validate_unchanged_iff_silent [OF hostile_doc_validated(1) this,
      of plain_env open_object plain_context "new_MigrationRecordCollector 20 0"]
  show ?thesis by (simp add: hostile_doc_validated) (simp add: hostile_doc_def)
qed

text \<open>
  validation is idempotent. A document that came out of validation passes through it again
  unchanged and without a notice.
\<close>

theorem validate_idempotent:
  assumes "wf_value raw" and "fst (validate env raw schema ctx c) \<noteq> JUndef"
  shows "fst (validate env (fst (validate env raw schema ctx c)) schema ctx' c') =
      fst (validate env raw schema ctx c) \<and>
    noted (snd (validate env (fst (validate env raw schema ctx c)) schema ctx' c')) = noted c'"
proof -
  from assms obtain w where w: "normal_form env 33 raw (Some schema) = Some w"
    by (auto simp: validate_spec split: option.splits)
  then have v: "fst (validate env raw schema ctx c) = w" by (simp add: validate_spec [OF assms(1)])
  have "normal_form env 33 w (Some schema) = Some w" by (rule normal_form_idem [OF w])
  with normal_form_unchanged [of env 33 w "Some schema"] normal_form_wf [OF assms(1) w]
  show ?thesis by (simp add: v validate_spec)
qed

theorem validate_idempotent_witness:
  "fst (validate plain_env (JObj [(''on'', JBool True)]) open_object plain_context
     (new_MigrationRecordCollector 20 0)) = JObj [(''on'', JBool True)]"
  using validate_idempotent [OF hostile_doc_validated(1), of plain_env open_object plain_context
      "new_MigrationRecordCollector 20 0" plain_context "new_MigrationRecordCollector 20 0"]
  by (simp add: hostile_doc_validated)

end
