(* ===== verification/Config_Deny.thy ===== *)
theory Config_Deny
  imports Config_Provenance
begin

text \<open>
  Monotonic deny precedence: \<open>src/clients/config-core/deny.ts\<close>.

  A deny-annotated leaf collects one contribution per tier that sets it. Contributions are taken
  in tier order, ties in caller order (\<open>Array.prototype.sort\<close> is stable, as \<open>sort_key\<close> is).
  The fold key of a primitive member is a \<open>fold_key\<close> instead of the source's prefixed string;
  \<open>String\<close> prints \<open>0\<close> and \<open>-0\<close> alike, so they share one.
\<close>

section \<open>Definitions\<close>

record deny_contribution =
  dc_tier :: source_tier
  dc_file :: "string option"
  dc_trust :: "trust_decision option"
  dc_value :: jval

record deny_resolution =
  dr_value :: jval
  dr_winner :: int
  dr_denied :: bool
  dr_memberWinners :: "nat list"

text \<open>Reading past either end of an array gives \<open>undefined\<close>.\<close>

definition elem_at :: "'a list \<Rightarrow> int \<Rightarrow> 'a option" where
  "elem_at xs i = (if 0 \<le> i \<and> i < int (length xs) then Some (xs ! nat i) else None)"

definition provenanceOfContribution :: "deny_contribution option \<Rightarrow> string \<Rightarrow> provenance option" where
  "provenanceOfContribution src key =
     map_option (\<lambda>s. \<lparr>prov_tier = dc_tier s, prov_file = dc_file s, prov_key = key,
                       prov_trust = dc_trust s\<rparr>) src"

definition denyProvenance ::
  "deny_contribution list \<Rightarrow> deny_resolution \<Rightarrow> string \<Rightarrow> provenance option" where
  "denyProvenance contributions resolution key =
     provenanceOfContribution (elem_at contributions (dr_winner resolution)) key"

definition denyMemberProvenance ::
  "deny_contribution list \<Rightarrow> deny_resolution \<Rightarrow> string \<Rightarrow> provenance list" where
  "denyMemberProvenance contributions resolution key =
     List.map_filter
       (\<lambda>(index, position).
          provenanceOfContribution (elem_at contributions (int index)) (key @ ''/'' @ show_nat position))
       (zip (dr_memberWinners resolution) [0..<length (dr_memberWinners resolution)])"

type_synonym ordered = "(deny_contribution \<times> nat) list"

definition byPrecedence :: "deny_contribution list \<Rightarrow> ordered" where
  "byPrecedence contributions =
     sort_key (\<lambda>entry. tierPrecedence (dc_tier (fst entry)))
       (zip contributions [0..<length contributions])"

definition resolveBooleanDeny :: "deny_contribution list \<Rightarrow> deny_resolution" where
  "resolveBooleanDeny contributions =
     (let ordered = byPrecedence contributions in
      if ordered = [] then
        \<lparr>dr_value = JUndef, dr_winner = -1, dr_denied = False, dr_memberWinners = []\<rparr>
      else
        let denials = filter (\<lambda>entry. dc_value (fst entry) = JBool False) ordered in
        case denials of
          [] \<Rightarrow>
            let final = last ordered in
            \<lparr>dr_value = dc_value (fst final), dr_winner = int (snd final), dr_denied = False,
             dr_memberWinners = []\<rparr>
        | firstDenial # _ \<Rightarrow>
            (case find (\<lambda>entry. isOperatorTier (dc_tier (fst entry))) denials of
               Some operatorDenial \<Rightarrow>
                 \<lparr>dr_value = JBool False, dr_winner = int (snd operatorDenial), dr_denied = True,
                  dr_memberWinners = []\<rparr>
             | None \<Rightarrow>
                 (case find (\<lambda>entry. dc_value (fst entry) = JBool True \<and>
                                     isOperatorTier (dc_tier (fst entry)) \<and>
                                     tierPrecedence (dc_tier (fst entry)) >
                                     tierPrecedence (dc_tier (fst firstDenial))) ordered of
                    Some lift \<Rightarrow>
                      \<lparr>dr_value = JBool True, dr_winner = int (snd lift), dr_denied = False,
                       dr_memberWinners = []\<rparr>
                  | None \<Rightarrow>
                      \<lparr>dr_value = JBool False, dr_winner = int (snd firstDenial), dr_denied = True,
                       dr_memberWinners = []\<rparr>)))"

datatype fold_key = FoldStr string | FoldNum jnum | FoldBool bool | FoldNull

fun primitiveIdentity :: "jval \<Rightarrow> fold_key option" where
  "primitiveIdentity (JStr s) = Some (FoldStr s)"
| "primitiveIdentity (JNum n) = Some (FoldNum (if n = NegZero then Fin 0 else n))"
| "primitiveIdentity (JBool b) = Some (FoldBool b)"
| "primitiveIdentity JNull = Some FoldNull"
| "primitiveIdentity _ = None"

record union_state =
  us_seen :: "fold_key list"
  us_members :: "jval list"
  us_memberWinners :: "nat list"
  us_winner :: int

definition union_push :: "nat \<Rightarrow> jval \<Rightarrow> union_state \<Rightarrow> union_state" where
  "union_push index member st =
     st\<lparr>us_members := us_members st @ [member],
        us_memberWinners := us_memberWinners st @ [index],
        us_winner := (if us_winner st = -1 then int index else us_winner st)\<rparr>"

definition union_member :: "nat \<Rightarrow> union_state \<Rightarrow> jval \<Rightarrow> union_state" where
  "union_member index st member =
     (case primitiveIdentity member of
        Some identity \<Rightarrow>
          if identity \<in> set (us_seen st) then st
          else union_push index member (st\<lparr>us_seen := us_seen st @ [identity]\<rparr>)
      | None \<Rightarrow> union_push index member st)"

definition union_entry :: "union_state \<Rightarrow> deny_contribution \<times> nat \<Rightarrow> union_state" where
  "union_entry st entry =
     (case dc_value (fst entry) of
        JArr members \<Rightarrow> foldl (union_member (snd entry)) st members
      | _ \<Rightarrow> st)"

definition union_start :: union_state where
  "union_start = \<lparr>us_seen = [], us_members = [], us_memberWinners = [], us_winner = -1\<rparr>"

definition resolveArrayDeny :: "deny_contribution list \<Rightarrow> deny_resolution" where
  "resolveArrayDeny contributions =
     (let ordered = byPrecedence contributions;
          st = foldl union_entry union_start ordered
      in if us_winner st = -1 then
           \<lparr>dr_value = JArr (us_members st),
            dr_winner = (if ordered = [] then -1 else int (snd (last ordered))),
            dr_denied = False, dr_memberWinners = us_memberWinners st\<rparr>
         else
           \<lparr>dr_value = JArr (us_members st), dr_winner = us_winner st,
            dr_denied = (length (us_members st) > 0), dr_memberWinners = us_memberWinners st\<rparr>)"

section \<open>The order of contributions\<close>

definition denial :: "deny_contribution \<Rightarrow> bool" where
  "denial c = (dc_value c = JBool False)"

definition operator_allow :: "deny_contribution \<Rightarrow> bool" where
  "operator_allow c = (dc_value c = JBool True \<and> isOperatorTier (dc_tier c))"

lemma set_byPrecedence:
  "set (byPrecedence cs) = {(cs ! i, i) | i. i < length cs}"
  by (auto simp: byPrecedence_def set_zip)

lemma fst_byPrecedence: "fst ` set (byPrecedence cs) = set cs"
  by (force simp: set_byPrecedence in_set_conv_nth image_iff)

lemma ex_byPrecedence: "(\<exists>e \<in> set (byPrecedence cs). P (fst e)) \<longleftrightarrow> (\<exists>c \<in> set cs. P c)"
  using fst_byPrecedence [of cs] by (metis imageE imageI)

lemma byPrecedence_Nil [simp]: "byPrecedence cs = [] \<longleftrightarrow> cs = []"
  by (metis fst_byPrecedence image_is_empty set_empty)

lemma sorted_byPrecedence:
  "sorted_wrt (\<lambda>a b. dc_tier (fst a) \<le> dc_tier (fst b)) (byPrecedence cs)"
  using sorted_sort_key [of "\<lambda>e. tierPrecedence (dc_tier (fst e))" "zip cs [0..<length cs]"]
  by (simp add: byPrecedence_def sorted_map tier_order_simps)

lemma first_denial_lowest:
  assumes "filter (\<lambda>e. dc_value (fst e) = JBool False) (byPrecedence cs) = f # rest"
  shows "fst f \<in> set cs" and "denial (fst f)"
    and "c \<in> set cs \<Longrightarrow> denial c \<Longrightarrow> dc_tier (fst f) \<le> dc_tier c"
proof -
  have "f \<in> set (f # rest)" by simp
  then have "f \<in> set (byPrecedence cs)" and f: "dc_value (fst f) = JBool False"
    unfolding assms [symmetric] by simp_all
  with fst_byPrecedence [of cs] show "fst f \<in> set cs" and "denial (fst f)"
    by (auto simp: denial_def)
  have "sorted_wrt (\<lambda>a b. dc_tier (fst a) \<le> dc_tier (fst b)) (f # rest)"
    unfolding assms [symmetric] by (rule sorted_wrt_filter [OF sorted_byPrecedence])
  moreover assume "c \<in> set cs" and c: "denial c"
  then have "c \<in> fst ` set (byPrecedence cs)" by (simp only: fst_byPrecedence)
  then obtain e where "e \<in> set (byPrecedence cs)" "fst e = c" by auto
  with c have "e \<in> set (f # rest)" unfolding assms [symmetric] by (simp add: denial_def)
  ultimately show "dc_tier (fst f) \<le> dc_tier c" using \<open>fst e = c\<close> by auto
qed

text \<open>The rule of the resolver as a condition on the set of contributions alone.\<close>

definition deny_in_force :: "deny_contribution set \<Rightarrow> bool" where
  "deny_in_force C \<longleftrightarrow>
     (\<exists>d \<in> C. denial d) \<and>
     ((\<exists>d \<in> C. denial d \<and> isOperatorTier (dc_tier d)) \<or>
      \<not> (\<exists>a \<in> C. operator_allow a \<and> (\<exists>d \<in> C. denial d \<and> dc_tier d < dc_tier a)))"

lemma find_None: "find P xs = None \<longleftrightarrow> (\<forall>x \<in> set xs. \<not> P x)"
  by (induction xs) auto

lemma denials_Nil:
  "filter (\<lambda>e. dc_value (fst e) = JBool False) (byPrecedence cs) = [] \<longleftrightarrow> \<not> (\<exists>d \<in> set cs. denial d)"
  using ex_byPrecedence [of cs denial] by (auto simp: filter_empty_conv denial_def)

lemma operator_denial_None:
  "find (\<lambda>e. isOperatorTier (dc_tier (fst e)))
     (filter (\<lambda>e. dc_value (fst e) = JBool False) (byPrecedence cs)) = None \<longleftrightarrow>
   \<not> (\<exists>d \<in> set cs. denial d \<and> isOperatorTier (dc_tier d))"
  using ex_byPrecedence [of cs "\<lambda>d. denial d \<and> isOperatorTier (dc_tier d)"]
  by (fastforce simp: find_None denial_def)

lemma lift_None:
  assumes "filter (\<lambda>e. dc_value (fst e) = JBool False) (byPrecedence cs) = f # rest"
  shows "find (\<lambda>e. dc_value (fst e) = JBool True \<and> isOperatorTier (dc_tier (fst e)) \<and>
                tierPrecedence (dc_tier (fst e)) > tierPrecedence (dc_tier (fst f))) (byPrecedence cs) = None
     \<longleftrightarrow> \<not> (\<exists>a \<in> set cs. operator_allow a \<and> (\<exists>d \<in> set cs. denial d \<and> dc_tier d < dc_tier a))"
proof -
  have "(\<exists>a \<in> set cs. operator_allow a \<and> dc_tier (fst f) < dc_tier a) \<longleftrightarrow>
        (\<exists>a \<in> set cs. operator_allow a \<and> (\<exists>d \<in> set cs. denial d \<and> dc_tier d < dc_tier a))"
    using first_denial_lowest [OF assms] by (meson le_less_trans)
  with ex_byPrecedence [of cs "\<lambda>a. operator_allow a \<and> dc_tier (fst f) < dc_tier a"]
  show ?thesis by (auto simp: find_None operator_allow_def tier_order_simps)
qed

lemma resolveBooleanDeny_denied: "dr_denied (resolveBooleanDeny cs) \<longleftrightarrow> deny_in_force (set cs)"
proof (cases "filter (\<lambda>e. dc_value (fst e) = JBool False) (byPrecedence cs)")
  case Nil
  with denials_Nil [of cs] show ?thesis
    by (simp add: resolveBooleanDeny_def deny_in_force_def Let_def)
next
  case (Cons f rest)
  then have some: "\<exists>d \<in> set cs. denial d" using denials_Nil [of cs] by auto
  from Cons have ne: "cs \<noteq> []" by (auto simp: byPrecedence_def)
  let ?op = "find (\<lambda>e. isOperatorTier (dc_tier (fst e))) (f # rest)"
  let ?lift = "find (\<lambda>e. dc_value (fst e) = JBool True \<and> isOperatorTier (dc_tier (fst e)) \<and>
      tierPrecedence (dc_tier (fst e)) > tierPrecedence (dc_tier (fst f))) (byPrecedence cs)"
  have "dr_denied (resolveBooleanDeny cs) \<longleftrightarrow> ?op \<noteq> None \<or> ?lift = None"
    unfolding resolveBooleanDeny_def Let_def Cons list.case
    by (cases ?op; cases ?lift) (simp_all add: ne del: find.simps)
  also have "\<dots> \<longleftrightarrow> deny_in_force (set cs)"
    using some operator_denial_None [of cs, unfolded Cons] lift_None [OF Cons]
    unfolding deny_in_force_def by (simp del: find.simps)
  finally show ?thesis .
qed

lemma resolveBooleanDeny_value:
  "dr_value (resolveBooleanDeny cs) = JBool False \<longleftrightarrow> dr_denied (resolveBooleanDeny cs)"
proof (cases "filter (\<lambda>e. dc_value (fst e) = JBool False) (byPrecedence cs)")
  case Nil
  then have "byPrecedence cs \<noteq> [] \<Longrightarrow> dc_value (fst (last (byPrecedence cs))) \<noteq> JBool False"
    by (metis (mono_tags, lifting) filter_empty_conv last_in_set)
  with Nil show ?thesis by (simp add: resolveBooleanDeny_def Let_def)
qed (auto simp: resolveBooleanDeny_def Let_def split: option.splits)

section \<open>The union of deny lists\<close>

definition same_member :: "jval \<Rightarrow> jval \<Rightarrow> bool" where
  "same_member m m' =
     (case primitiveIdentity m of None \<Rightarrow> m = m' | Some k \<Rightarrow> primitiveIdentity m' = Some k)"

lemma same_member_refl [simp]: "same_member m m"
  by (simp add: same_member_def split: option.splits)

text \<open>The list the union keeps, as one pass over all members tagged with their contribution.\<close>

definition union_inv :: "(jval \<times> nat) list \<Rightarrow> union_state \<Rightarrow> bool" where
  "union_inv past st \<longleftrightarrow>
     set (us_seen st) = {k. \<exists>m \<in> set (us_members st). primitiveIdentity m = Some k} \<and>
     length (us_memberWinners st) = length (us_members st) \<and>
     set (zip (us_members st) (us_memberWinners st)) \<subseteq> set past \<and>
     (\<forall>(m, i) \<in> set past. \<exists>m' \<in> set (us_members st). same_member m m') \<and>
     distinct (List.map_filter primitiveIdentity (us_members st)) \<and>
     (us_winner st = -1 \<longleftrightarrow> us_members st = [])"

lemma union_inv_start: "union_inv [] union_start"
  by (simp add: union_inv_def union_start_def List.map_filter_def)

lemma union_inv_skip:
  assumes "union_inv past st" and "primitiveIdentity m = Some k" and "k \<in> set (us_seen st)"
  shows "union_inv (past @ [(m, i)]) st"
proof -
  from assms have "\<exists>m' \<in> set (us_members st). same_member m m'"
    by (auto simp: union_inv_def same_member_def)
  with assms(1) show ?thesis by (auto simp: union_inv_def)
qed

lemma union_inv_push:
  assumes inv: "union_inv past st"
    and new: "\<And>k. primitiveIdentity m = Some k \<Longrightarrow> k \<notin> set (us_seen st)"
    and seen: "set seen' = set (us_seen st) \<union> set_option (primitiveIdentity m)"
  shows "union_inv (past @ [(m, i)]) (union_push i m (st\<lparr>us_seen := seen'\<rparr>))"
proof -
  have "\<forall>(m', j) \<in> set past. \<exists>x \<in> set (us_members st @ [m]). same_member m' x"
    using inv unfolding union_inv_def by fastforce
  moreover have "distinct (List.map_filter primitiveIdentity (us_members st @ [m]))"
    using inv new unfolding union_inv_def List.map_filter_def
    by (auto split: option.splits)
  moreover have "set (zip (us_members st @ [m]) (us_memberWinners st @ [i])) \<subseteq> set (past @ [(m, i)])"
    using inv by (auto simp: union_inv_def)
  ultimately show ?thesis
    using inv seen by (auto simp: union_inv_def union_push_def)
qed

lemma union_inv_member:
  assumes "union_inv past st"
  shows "union_inv (past @ [(m, i)]) (union_member i st m)"
proof (cases "primitiveIdentity m")
  case None
  with union_inv_push [OF assms, of m "us_seen st" i] show ?thesis
    by (simp add: union_member_def)
next
  case (Some k)
  show ?thesis
  proof (cases "k \<in> set (us_seen st)")
    case True
    with Some union_inv_skip [OF assms Some] show ?thesis by (simp add: union_member_def)
  next
    case False
    with Some union_inv_push [OF assms, of m "us_seen st @ [k]" i] show ?thesis
      by (simp add: union_member_def)
  qed
qed

lemma union_inv_members:
  "union_inv past st \<Longrightarrow>
     union_inv (past @ map (\<lambda>m. (m, i)) ms) (foldl (union_member i) st ms)"
proof (induction ms arbitrary: past st)
  case (Cons m ms)
  from Cons.IH [OF union_inv_member [OF Cons.prems]] show ?case by simp
qed simp

definition tagged :: "deny_contribution \<times> nat \<Rightarrow> (jval \<times> nat) list" where
  "tagged entry = map (\<lambda>m. (m, snd entry)) (arr_of (dc_value (fst entry)))"

lemma union_inv_entries:
  "union_inv past st \<Longrightarrow> union_inv (past @ concat (map tagged es)) (foldl union_entry st es)"
proof (induction es arbitrary: past st)
  case (Cons e es)
  have "union_inv (past @ tagged e) (union_entry st e)"
    using Cons.prems union_inv_members [OF Cons.prems]
    by (cases "dc_value (fst e)") (simp_all add: union_entry_def tagged_def)
  from Cons.IH [OF this] show ?case by simp
qed simp

section \<open>Properties\<close>

text \<open>The winner is a contribution whenever there is one.\<close>

definition winner_ok :: "deny_contribution list \<Rightarrow> int \<Rightarrow> bool" where
  "winner_ok cs w \<longleftrightarrow> (\<exists>i < length cs. w = int i)"

lemma winner_ok_entry: "e \<in> set (byPrecedence cs) \<Longrightarrow> winner_ok cs (int (snd e))"
  by (auto simp: set_byPrecedence winner_ok_def)

lemma resolveBooleanDeny_winner:
  assumes "cs \<noteq> []" shows "winner_ok cs (dr_winner (resolveBooleanDeny cs))"
proof -
  let ?o = "byPrecedence cs"
  let ?d = "filter (\<lambda>e. dc_value (fst e) = JBool False) ?o"
  have last: "winner_ok cs (int (snd (last ?o)))"
    using assms by (intro winner_ok_entry last_in_set) simp
  have hd: "winner_ok cs (int (snd f))" if "?d = f # rest" for f rest
  proof (rule winner_ok_entry)
    have "f \<in> set ?d" unfolding that by simp
    then show "f \<in> set ?o" by simp
  qed
  have found: "winner_ok cs (int (snd e))" if "find P ?d = Some e \<or> find P ?o = Some e" for P e
    using that find_SomeD [of P ?d e] find_SomeD [of P ?o e] winner_ok_entry [of e cs] by auto
  show ?thesis
  proof (cases ?d)
    case Nil
    with last assms show ?thesis by (simp add: resolveBooleanDeny_def Let_def)
  next
    case (Cons f rest)
    let ?op = "find (\<lambda>e. isOperatorTier (dc_tier (fst e))) (f # rest)"
    let ?lift = "find (\<lambda>e. dc_value (fst e) = JBool True \<and> isOperatorTier (dc_tier (fst e)) \<and>
        tierPrecedence (dc_tier (fst e)) > tierPrecedence (dc_tier (fst f))) ?o"
    have "winner_ok cs (int (snd e))" if "?op = Some e \<or> ?lift = Some e" for e
      using that found [of "\<lambda>e. isOperatorTier (dc_tier (fst e))" e]
        found [of "\<lambda>e. dc_value (fst e) = JBool True \<and> isOperatorTier (dc_tier (fst e)) \<and>
          tierPrecedence (dc_tier (fst e)) > tierPrecedence (dc_tier (fst f))" e]
      unfolding Cons by blast
    with hd [OF Cons] assms show ?thesis
      unfolding resolveBooleanDeny_def Let_def Cons list.case
      by (cases ?op; cases ?lift) (simp_all del: find.simps)
  qed
qed

definition union_winner_ok :: "deny_contribution list \<Rightarrow> union_state \<Rightarrow> bool" where
  "union_winner_ok cs st \<longleftrightarrow> us_winner st = -1 \<or> winner_ok cs (us_winner st)"

lemma union_winner_member:
  "winner_ok cs (int i) \<Longrightarrow> union_winner_ok cs st \<Longrightarrow> union_winner_ok cs (union_member i st m)"
  by (auto simp: union_winner_ok_def union_member_def union_push_def split: option.splits)

lemma union_winner_entry:
  assumes "e \<in> set (byPrecedence cs)" and "union_winner_ok cs st"
  shows "union_winner_ok cs (union_entry st e)"
proof -
  have "union_winner_ok cs (foldl (union_member (snd e)) st ms)" for ms
    using assms(2) by (induction ms arbitrary: st) (simp_all add: union_winner_member winner_ok_entry [OF assms(1)])
  with assms show ?thesis by (simp add: union_entry_def split: jval.splits)
qed

lemma union_winner:
  "union_winner_ok cs st \<Longrightarrow> set es \<subseteq> set (byPrecedence cs) \<Longrightarrow> union_winner_ok cs (foldl union_entry st es)"
  by (induction es arbitrary: st) (simp_all add: union_winner_entry)

lemma resolveArrayDeny_winner:
  assumes "cs \<noteq> []" shows "winner_ok cs (dr_winner (resolveArrayDeny cs))"
proof -
  have "winner_ok cs (int (snd (last (byPrecedence cs))))"
    using assms by (intro winner_ok_entry last_in_set) simp
  with assms union_winner [of cs union_start "byPrecedence cs"] show ?thesis
    by (auto simp: resolveArrayDeny_def Let_def union_winner_ok_def union_start_def)
qed

lemma resolveBooleanDeny_source:
  assumes "cs \<noteq> []"
  shows "dr_value (resolveBooleanDeny cs) \<in> {JBool False, JBool True} \<union> dc_value ` set cs"
proof -
  have "fst (last (byPrecedence cs)) \<in> set cs"
    using assms fst_byPrecedence [of cs] byPrecedence_Nil [of cs] by (metis imageI last_in_set)
  then show ?thesis
    by (auto simp: resolveBooleanDeny_def Let_def split: list.splits option.splits)
qed

lemma find_sorted_least:
  "sorted_wrt R xs \<Longrightarrow> find P xs = Some x \<Longrightarrow> y \<in> set xs \<Longrightarrow> P y \<Longrightarrow> x = y \<or> R x y"
  by (induction xs) (auto split: if_splits)

lemma operator_winner:
  assumes "d \<in> set cs" "denial d" "isOperatorTier (dc_tier d)"
  obtains e where
    "find (\<lambda>e. isOperatorTier (dc_tier (fst e)))
       (filter (\<lambda>e. dc_value (fst e) = JBool False) (byPrecedence cs)) = Some e"
    and "resolveBooleanDeny cs =
       \<lparr>dr_value = JBool False, dr_winner = int (snd e), dr_denied = True, dr_memberWinners = []\<rparr>"
proof -
  let ?denials = "filter (\<lambda>e. dc_value (fst e) = JBool False) (byPrecedence cs)"
  from assms operator_denial_None [of cs] obtain e where
    e: "find (\<lambda>e. isOperatorTier (dc_tier (fst e))) ?denials = Some e" by auto
  from assms(1) have "byPrecedence cs \<noteq> []" by auto
  moreover from e obtain f rest where "?denials = f # rest" by (cases ?denials) auto
  ultimately have "resolveBooleanDeny cs =
      \<lparr>dr_value = JBool False, dr_winner = int (snd e), dr_denied = True, dr_memberWinners = []\<rparr>"
    using e by (simp add: resolveBooleanDeny_def Let_def)
  with e that show thesis by blast
qed

text \<open>
  A boolean deny resolves to \<open>false\<close> exactly when some tier denied and either an operator
  tier did, or no operator allow outranks a denial. The outcome depends on the set of
  contributions alone, never on the order the caller assembled them in.
\<close>

theorem resolveBooleanDeny_exact:
  "dr_value (resolveBooleanDeny cs) = JBool False \<longleftrightarrow> deny_in_force (set cs)"
  by (simp only: resolveBooleanDeny_value resolveBooleanDeny_denied)

text \<open>
  A denial by an operator tier is final. Whatever else any tier contributes, the leaf is
  \<open>false\<close>, it is reported denied, and the provenance names an operator tier that denied, none of
  lower precedence having done so.
\<close>

theorem operator_denial_is_final:
  assumes "d \<in> set cs" "denial d" "isOperatorTier (dc_tier d)"
  shows "\<exists>w. dr_value (resolveBooleanDeny cs) = JBool False \<and> dr_denied (resolveBooleanDeny cs) \<and>
     denyProvenance cs (resolveBooleanDeny cs) key = Some w \<and> isOperatorTier (prov_tier w) \<and>
     prov_tier w \<le> dc_tier d \<and> prov_key w = key"
proof -
  let ?denials = "filter (\<lambda>e. dc_value (fst e) = JBool False) (byPrecedence cs)"
  obtain e where e: "find (\<lambda>e. isOperatorTier (dc_tier (fst e))) ?denials = Some e"
    and r: "resolveBooleanDeny cs =
       \<lparr>dr_value = JBool False, dr_winner = int (snd e), dr_denied = True, dr_memberWinners = []\<rparr>"
    using operator_winner [OF assms] .
  from find_SomeD [OF e] have "e \<in> set (byPrecedence cs)" and op: "isOperatorTier (dc_tier (fst e))"
    by simp_all
  then have at: "snd e < length cs" "cs ! snd e = fst e" by (auto simp: set_byPrecedence)
  obtain i where i: "(d, i) \<in> set (byPrecedence cs)"
    using assms(1) by (auto simp: set_byPrecedence in_set_conv_nth)
  have "dc_tier (fst e) \<le> dc_tier d"
    using find_sorted_least [OF sorted_wrt_filter [OF sorted_byPrecedence] e, of "(d, i)"] i assms
    by (auto simp: denial_def)
  with at op show ?thesis
    by (simp add: r denyProvenance_def provenanceOfContribution_def elem_at_def)
qed

definition dc :: "source_tier \<Rightarrow> jval \<Rightarrow> deny_contribution" where
  "dc tier v = \<lparr>dc_tier = tier, dc_file = None, dc_trust = None, dc_value = v\<rparr>"

theorem operator_denial_is_final_witness:
  "\<exists>w. dr_value (resolveBooleanDeny [dc Cli (JBool True), dc Project (JBool True), dc Global (JBool False)]) =
         JBool False \<and>
       denyProvenance [dc Cli (JBool True), dc Project (JBool True), dc Global (JBool False)]
         (resolveBooleanDeny [dc Cli (JBool True), dc Project (JBool True), dc Global (JBool False)])
         ''/lsp/enabled'' = Some w \<and> isOperatorTier (prov_tier w)"
  using operator_denial_is_final [of "dc Global (JBool False)"
      "[dc Cli (JBool True), dc Project (JBool True), dc Global (JBool False)]" "''/lsp/enabled''"]
  by (auto simp: dc_def denial_def isOperatorTier_def)

lemma deny_in_force_repo:
  assumes force: "deny_in_force C" and keeps: "C \<subseteq> C'"
    and repo: "\<And>c. c \<in> C' - C \<Longrightarrow> isRepoTier (dc_tier c)"
  shows "deny_in_force C'"
proof -
  from force obtain d0 where d0: "d0 \<in> C" "denial d0" by (auto simp: deny_in_force_def)
  show ?thesis
  proof (cases "\<exists>d \<in> C. denial d \<and> isOperatorTier (dc_tier d)")
    case True
    with keeps show ?thesis unfolding deny_in_force_def by blast
  next
    case False
    have "\<not> (operator_allow a \<and> dc_tier d < dc_tier a)"
      if a: "a \<in> C'" and d: "d \<in> C'" "denial d" for a d
    proof
      assume lift: "operator_allow a \<and> dc_tier d < dc_tier a"
      with a repo have "a \<in> C" by (auto simp: operator_allow_def dest: operator_not_repo)
      moreover have "dc_tier d0 < dc_tier a" if "d \<notin> C"
        using repo [of d] that d lift d0 False
        by (cases "dc_tier d"; cases "dc_tier a"; cases "dc_tier d0")
          (auto simp: tier_order_simps isRepoTier_def isOperatorTier_def operator_allow_def)
      ultimately show False
        using force False d0 d lift unfolding deny_in_force_def by blast
    qed
    with d0 keeps show ?thesis unfolding deny_in_force_def by blast
  qed
qed

text \<open>
  repository content cannot lift a denial. When a set of contributions resolves to denied,
  adding any contributions of the tiers that arrive with a checkout, in any position and with any
  values, leaves it denied.
\<close>

theorem repo_tiers_cannot_lift:
  assumes denied: "dr_denied (resolveBooleanDeny cs)"
    and keeps: "set cs \<subseteq> set cs'"
    and repo: "\<And>c. c \<in> set cs' - set cs \<Longrightarrow> isRepoTier (dc_tier c)"
  shows "dr_denied (resolveBooleanDeny cs')"
  using deny_in_force_repo [OF _ keeps repo] denied by (simp only: resolveBooleanDeny_denied)

theorem repo_tiers_cannot_lift_witness:
  "dr_denied (resolveBooleanDeny [dc NestedProject (JBool True), dc Builtin (JBool False), dc Project (JBool True)])"
proof (rule repo_tiers_cannot_lift [of "[dc Builtin (JBool False)]"])
  show "dr_denied (resolveBooleanDeny [dc Builtin (JBool False)])"
    by (simp add: resolveBooleanDeny_denied deny_in_force_def dc_def denial_def operator_allow_def)
qed (auto simp: dc_def isRepoTier_def)

text \<open>
  A shipped denial can weaken a project's denial. With \<open>global: true\<close>, a project's
  \<open>false\<close> alone stands; adding the built-in default \<open>false\<close> makes the resolution \<open>true\<close>,
  because the lift is compared with the first denial only.
\<close>

theorem builtin_denial_lifts_project_denial:
  "dr_value (resolveBooleanDeny [dc Global (JBool True), dc Project (JBool False)]) = JBool False \<and>
   dr_value (resolveBooleanDeny
     [dc Builtin (JBool False), dc Global (JBool True), dc Project (JBool False)]) = JBool True"
  by (simp add: resolveBooleanDeny_def byPrecedence_def dc_def isOperatorTier_def)

lemma resolveArrayDeny_spec:
  "\<exists>ms. dr_value (resolveArrayDeny cs) = JArr ms \<and>
     (\<forall>c m. c \<in> set cs \<and> m \<in> set (arr_of (dc_value c)) \<longrightarrow> (\<exists>m' \<in> set ms. same_member m m')) \<and>
     length (dr_memberWinners (resolveArrayDeny cs)) = length ms \<and>
     (\<forall>k < length ms. let i = dr_memberWinners (resolveArrayDeny cs) ! k
        in i < length cs \<and> ms ! k \<in> set (arr_of (dc_value (cs ! i)))) \<and>
     distinct (List.map_filter primitiveIdentity ms)"
proof -
  define st where "st = foldl union_entry union_start (byPrecedence cs)"
  define all where "all = concat (map tagged (byPrecedence cs))"
  have inv: "union_inv all st"
    using union_inv_entries [OF union_inv_start, of "byPrecedence cs"] by (simp add: st_def all_def)
  have all: "set all = {(m, i). i < length cs \<and> m \<in> set (arr_of (dc_value (cs ! i)))}"
    by (auto simp: all_def tagged_def set_byPrecedence)
  have val: "dr_value (resolveArrayDeny cs) = JArr (us_members st)"
    and win: "dr_memberWinners (resolveArrayDeny cs) = us_memberWinners st"
    by (simp_all add: resolveArrayDeny_def Let_def st_def)
  have "\<exists>m' \<in> set (us_members st). same_member m m'"
    if c: "c \<in> set cs" and m: "m \<in> set (arr_of (dc_value c))" for c m
  proof -
    from c obtain i where "i < length cs" "cs ! i = c" by (auto simp: in_set_conv_nth)
    with m have "(m, i) \<in> set all" by (simp add: all)
    with inv show ?thesis by (auto simp: union_inv_def)
  qed
  moreover have "us_memberWinners st ! k < length cs \<and>
      us_members st ! k \<in> set (arr_of (dc_value (cs ! (us_memberWinners st ! k))))"
    if "k < length (us_members st)" for k
  proof -
    from that inv have "(us_members st ! k, us_memberWinners st ! k) \<in> set all"
      by (force simp: union_inv_def set_zip)
    then show ?thesis by (simp add: all)
  qed
  ultimately show ?thesis
    using inv by (auto simp: val win union_inv_def Let_def)
qed

text \<open>
  a deny list is the union of every tier's list. Every member any tier lists is in the
  result (a primitive by value, anything else as such), every member of the result comes from the
  list of the contribution its provenance names, and no primitive appears twice.
\<close>

theorem resolveArrayDeny_union:
  "\<exists>ms. dr_value (resolveArrayDeny cs) = JArr ms \<and>
     (\<forall>c m. c \<in> set cs \<and> m \<in> set (arr_of (dc_value c)) \<longrightarrow> (\<exists>m' \<in> set ms. same_member m m')) \<and>
     length (dr_memberWinners (resolveArrayDeny cs)) = length ms \<and>
     (\<forall>k < length ms. let i = dr_memberWinners (resolveArrayDeny cs) ! k
        in i < length cs \<and> ms ! k \<in> set (arr_of (dc_value (cs ! i)))) \<and>
     distinct (List.map_filter primitiveIdentity ms)"
  by (rule resolveArrayDeny_spec)

theorem resolveArrayDeny_union_witness:
  "\<exists>ms. dr_value (resolveArrayDeny [dc Project (JArr [JStr ''eslint'']), dc Global (JArr [JStr ''pyright'', JNull])]) =
     JArr ms \<and> (\<exists>m' \<in> set ms. same_member (JStr ''pyright'') m')"
proof -
  let ?cs = "[dc Project (JArr [JStr ''eslint'']), dc Global (JArr [JStr ''pyright'', JNull])]"
  have c: "dc Global (JArr [JStr ''pyright'', JNull]) \<in> set ?cs \<and>
      JStr ''pyright'' \<in> set (arr_of (dc_value (dc Global (JArr [JStr ''pyright'', JNull]))))"
    by (simp add: dc_def)
  obtain ms where "dr_value (resolveArrayDeny ?cs) = JArr ms"
    and "\<forall>c m. c \<in> set ?cs \<and> m \<in> set (arr_of (dc_value c)) \<longrightarrow> (\<exists>m' \<in> set ms. same_member m m')"
    using resolveArrayDeny_union [of ?cs] by blast
  with c show ?thesis by blast
qed

end
