(* ===== verification/Config_Merge.thy ===== *)
theory Config_Merge
  imports Config_Normalize Config_Deny
begin

text \<open>
  The merging half of the config pipeline: \<open>src/clients/config-core/merge.ts\<close>.

  \<open>mergeNode\<close> recurses on the levels still allowed, as \<open>walk\<close> does. \<open>undefined\<close> is
  \<open>JUndef\<close>. The context of the recursion, the provenance map and the record collector, is
  threaded as a \<open>merge_context\<close>.

  The lemmas show that the merged value does not depend on the context, that merging clean values
  gives a clean value, and that the value at a path through declared objects is the merge of the
  contributions projected to that path, which is how a rule about one leaf becomes a rule about
  the whole document.
\<close>

section \<open>Definitions\<close>

record config_source =
  src_tier :: source_tier
  src_file :: "string option"
  src_trust :: "trust_decision option"
  src_value :: jval

record contribution =
  co_source :: config_source
  co_value :: jval
  co_rank :: nat

record merge_context =
  mc_provenance :: prov_map
  mc_collector :: collector

record merge_env = walk_env +
  me_file :: string

type_synonym node_merger =
  "contribution list \<Rightarrow> schema option \<Rightarrow> string \<Rightarrow> merge_context \<Rightarrow> jval \<times> merge_context"

definition merge_record ::
  "merge_env \<Rightarrow> diagnostic_code \<Rightarrow> string \<Rightarrow> reason \<Rightarrow> merge_context \<Rightarrow> merge_context" where
  "merge_record env code entry_key why ctx =
     (let key = boundedKeyLabel (we_redact env) entry_key in
      ctx\<lparr>mc_collector := mrc_add (mc_collector ctx)
            \<lparr>mr_code = code, mr_file = me_file env, mr_key = key,
             mr_subject = migrationSubject (me_file env) key, mr_reason = why, mr_tier = None\<rparr>\<rparr>)"

definition provenanceOf :: "contribution \<Rightarrow> string \<Rightarrow> provenance" where
  "provenanceOf contribution key =
     (let source = co_source contribution in
      \<lparr>prov_tier = src_tier source, prov_file = src_file source, prov_key = key,
       prov_trust = src_trust source\<rparr>)"

definition set_provenance :: "string \<Rightarrow> provenance \<Rightarrow> merge_context \<Rightarrow> merge_context" where
  "set_provenance key entry ctx = ctx\<lparr>mc_provenance := jm_set key entry (mc_provenance ctx)\<rparr>"

definition stamp :: "merge_context \<Rightarrow> contribution \<Rightarrow> string \<Rightarrow> merge_context" where
  "stamp ctx contribution key = set_provenance key (provenanceOf contribution key) ctx"

definition isObjectNode :: "schema option \<Rightarrow> contribution list \<Rightarrow> bool" where
  "isObjectNode schema contributions =
     (let declared = schemaType schema in
      if declared = Some ''object'' then True
      else if isKnownSchemaType declared then False
      else if isSchemaNode (node_get schema ''properties'') then True
      else list_all (\<lambda>entry. isPlainObject (co_value entry)) contributions)"

definition isArrayNode :: "schema option \<Rightarrow> contribution list \<Rightarrow> bool" where
  "isArrayNode schema contributions =
     (let declared = schemaType schema in
      if declared = Some ''array'' then True
      else if isKnownSchemaType declared then False
      else list_all (\<lambda>entry. isArray (co_value entry)) contributions)"

definition deny_contribution_of :: "contribution \<Rightarrow> deny_contribution" where
  "deny_contribution_of entry =
     \<lparr>dc_tier = src_tier (co_source entry), dc_file = src_file (co_source entry),
      dc_trust = src_trust (co_source entry), dc_value = co_value entry\<rparr>"

definition mergeDeny ::
  "contribution list \<Rightarrow> deny_policy \<Rightarrow> string \<Rightarrow> merge_context \<Rightarrow> jval \<times> merge_context" where
  "mergeDeny contributions policy key ctx =
     (let denyContributions = map deny_contribution_of contributions;
          resolution = (case policy of
                          BooleanFalse \<Rightarrow> resolveBooleanDeny denyContributions
                        | ArrayUnion \<Rightarrow> resolveArrayDeny denyContributions);
          ctx1 = (case denyProvenance denyContributions resolution key of
                    Some entry \<Rightarrow> set_provenance key entry ctx
                  | None \<Rightarrow> ctx);
          ctx2 = foldl (\<lambda>ctx member. set_provenance (prov_key member) member ctx) ctx1
                   (denyMemberProvenance denyContributions resolution key)
      in (dr_value resolution, ctx2))"

definition take_winner ::
  "contribution list \<Rightarrow> string \<Rightarrow> merge_context \<Rightarrow> jval \<times> merge_context" where
  "take_winner contributions key ctx =
     (let winner = last contributions in (co_value winner, stamp ctx winner key))"

text \<open>One name of one object: skipped when already collected, refused when unsafe.\<close>

definition collect_name ::
  "merge_env \<Rightarrow> string \<Rightarrow> string list \<times> merge_context \<Rightarrow> string \<Rightarrow> string list \<times> merge_context" where
  "collect_name env key st name =
     (let (names, ctx) = st in
      if name \<in> set names then (names, ctx)
      else if isUnsafeConfigKey name
      then (names, merge_record env CFG_0006 (key @ ''/'' @ name) UnsafeKey ctx)
      else (names @ [name], ctx))"

definition child_contributions :: "contribution list \<Rightarrow> string \<Rightarrow> contribution list" where
  "child_contributions objects name =
     List.map_filter
       (\<lambda>entry. map_option (\<lambda>v. \<lparr>co_source = co_source entry, co_value = v, co_rank = co_rank entry\<rparr>)
                  (map_of (obj_of (co_value entry)) name)) objects"

definition field_step ::
  "merge_env \<Rightarrow> node_merger \<Rightarrow> contribution list \<Rightarrow> schema option \<Rightarrow> string \<Rightarrow>
   jobj \<times> merge_context \<Rightarrow> string \<Rightarrow> jobj \<times> merge_context" where
  "field_step env child objects schema key st name =
     (let (out, ctx) = st;
          (merged, ctx') = child (child_contributions objects name)
                             (propertySchema (we_re env) schema name) (key @ ''/'' @ name) ctx
      in if merged \<noteq> JUndef then (fst (safeAssign name merged out), ctx') else (out, ctx'))"

definition mergeObject :: "merge_env \<Rightarrow> node_merger \<Rightarrow> node_merger" where
  "mergeObject env child contributions schema key ctx =
     (let objects = filter (\<lambda>entry. isConfigObject (co_value entry)) contributions in
      if objects = [] then take_winner contributions key ctx
      else
        let (names, ctx1) =
              foldl (collect_name env key) ([], ctx)
                (concat (map (\<lambda>entry. map fst (obj_of (co_value entry))) objects));
            (out, ctx2) = foldl (field_step env child objects schema key) ([], ctx1) names
        in (JObj out, ctx2))"

definition append_step ::
  "string \<Rightarrow> contribution \<Rightarrow> jval list \<times> merge_context \<Rightarrow> jval \<Rightarrow> jval list \<times> merge_context" where
  "append_step key entry st member =
     (let (out, ctx) = st
      in (out @ [member], stamp ctx entry (key @ ''/'' @ show_nat (length out))))"

definition appendArrays ::
  "contribution list \<Rightarrow> string \<Rightarrow> merge_context \<Rightarrow> jval \<times> merge_context" where
  "appendArrays arrays key ctx =
     (let (out, ctx') =
            foldl (\<lambda>st entry. foldl (append_step key entry) st (arr_of (co_value entry))) ([], ctx) arrays
      in (JArr out, stamp ctx' (hd arrays) key))"

datatype key_identity = KeyStr string | KeyNum jnum

definition keyIdentity :: "jval \<Rightarrow> string \<Rightarrow> key_identity option" where
  "keyIdentity member field =
     (if \<not> isConfigObject member then None
      else case map_of (obj_of member) field of
             Some (JStr s) \<Rightarrow> Some (KeyStr s)
           | Some (JNum n) \<Rightarrow>
               if num_isFinite n then Some (KeyNum (if n = NegZero then Fin 0 else n)) else None
           | _ \<Rightarrow> None)"

record keyed_groups =
  kg_groups :: "(key_identity \<times> contribution list) list"
  kg_unkeyed :: "contribution list"

text \<open>
  The groups are kept in first-seen order, which is what the source's \<open>order\<close> list records.
\<close>

definition group_member ::
  "string \<Rightarrow> contribution \<Rightarrow> keyed_groups \<Rightarrow> jval \<Rightarrow> keyed_groups" where
  "group_member field entry st member =
     (let mine = \<lparr>co_source = co_source entry, co_value = member, co_rank = co_rank entry\<rparr> in
      case keyIdentity member field of
        None \<Rightarrow> st\<lparr>kg_unkeyed := kg_unkeyed st @ [mine]\<rparr>
      | Some identity \<Rightarrow>
          (case map_of (kg_groups st) identity of
             Some grp \<Rightarrow> st\<lparr>kg_groups := AList.update identity (grp @ [mine]) (kg_groups st)\<rparr>
           | None \<Rightarrow> st\<lparr>kg_groups := kg_groups st @ [(identity, [mine])]\<rparr>))"

definition push_merged ::
  "node_merger \<Rightarrow> schema option \<Rightarrow> string \<Rightarrow>
   jval list \<times> merge_context \<Rightarrow> contribution list \<Rightarrow> jval list \<times> merge_context" where
  "push_merged child items key st grp =
     (let (out, ctx) = st;
          (merged, ctx') = child grp items (key @ ''/'' @ show_nat (length out)) ctx
      in if merged \<noteq> JUndef then (out @ [merged], ctx') else (out, ctx'))"

definition mergeKeyedArray ::
  "node_merger \<Rightarrow> contribution list \<Rightarrow> schema option \<Rightarrow> string \<Rightarrow> string \<Rightarrow> merge_context \<Rightarrow>
   jval \<times> merge_context" where
  "mergeKeyedArray child arrays schema field key ctx =
     (let groups = foldl (\<lambda>st entry. foldl (group_member field entry) st (arr_of (co_value entry)))
                     \<lparr>kg_groups = [], kg_unkeyed = []\<rparr> arrays;
          (out, ctx') = foldl (push_merged child (itemsSchema schema) key) ([], ctx)
                          (map snd (kg_groups groups) @ map (\<lambda>entry. [entry]) (kg_unkeyed groups))
      in (JArr out, stamp ctx' (hd arrays) key))"

definition mergeArray :: "merge_env \<Rightarrow> node_merger \<Rightarrow> node_merger" where
  "mergeArray env child contributions schema key ctx =
     (let arrays = filter (\<lambda>entry. isArray (co_value entry)) contributions in
      if arrays = [] then take_winner contributions key ctx
      else
        let strategy = mergeStrategyOf schema in
        case keyedField strategy of
          Some field \<Rightarrow> mergeKeyedArray child arrays schema field key ctx
        | None \<Rightarrow>
            if strategy = ''append'' then appendArrays arrays key ctx
            else let winner = last arrays
                 in (JArr (arr_of (co_value winner)), stamp ctx winner key))"

primrec mergeNode :: "merge_env \<Rightarrow> nat \<Rightarrow> node_merger" where
  "mergeNode env 0 = (\<lambda>contributions schema key ctx.
     if contributions = [] then (JUndef, ctx)
     else (JUndef, merge_record env CFG_0005 key (NestingExceeds MAX_CONFIG_DEPTH) ctx))"
| "mergeNode env (Suc levels) = (\<lambda>contributions schema key ctx.
     if contributions = [] then (JUndef, ctx)
     else case denyPolicyOf schema of
            Some policy \<Rightarrow> mergeDeny contributions policy key ctx
          | None \<Rightarrow>
              if isObjectNode schema contributions
              then mergeObject env (mergeNode env levels) contributions schema key ctx
              else if isArrayNode schema contributions
              then mergeArray env (mergeNode env levels) contributions schema key ctx
              else take_winner contributions key ctx)"

definition source_contributions :: "config_source list \<Rightarrow> contribution list" where
  "source_contributions sources =
     (let ordered = sort_key (\<lambda>source. tierPrecedence (src_tier source)) sources
      in List.map_filter
           (\<lambda>(source, rank). if src_value source = JUndef then None
              else Some \<lparr>co_source = source, co_value = src_value source, co_rank = rank\<rparr>)
           (zip ordered [0..<length ordered]))"

definition merge ::
  "merge_env \<Rightarrow> config_source list \<Rightarrow> schema \<Rightarrow> collector \<Rightarrow> resolved \<times> collector" where
  "merge env sources schema c =
     (let (v, ctx) = mergeNode env (Suc MAX_CONFIG_DEPTH) (source_contributions sources) (Some schema) []
                       \<lparr>mc_provenance = [], mc_collector = c\<rparr>
      in (\<lparr>res_value = v, res_provenance = mc_provenance ctx\<rparr>, mc_collector ctx))"

section \<open>The merged value does not depend on the context\<close>

definition context_free :: "node_merger \<Rightarrow> bool" where
  "context_free child \<longleftrightarrow>
     (\<forall>cs schema key ctx key' ctx'. fst (child cs schema key ctx) = fst (child cs schema key' ctx'))"

lemma context_freeD:
  "context_free child \<Longrightarrow> fst (child cs schema key ctx) = fst (child cs schema key' ctx')"
  by (simp add: context_free_def)

lemma collect_name_indep:
  "fst (foldl (collect_name env key) (names, ctx) xs) = fst (foldl (collect_name env key') (names, ctx') xs)"
proof (induction xs arbitrary: names ctx ctx')
  case (Cons x xs)
  obtain m1 c1 m2 c2 where
    "collect_name env key (names, ctx) x = (m1, c1)" "collect_name env key' (names, ctx') x = (m2, c2)"
    by fastforce
  moreover from this have "m1 = m2" by (auto simp: collect_name_def split: if_splits)
  ultimately show ?case using Cons.IH [of m1 c1 c2] by simp
qed simp

lemma field_step_indep:
  assumes "context_free child"
  shows "fst (foldl (field_step env child objects schema key) (out, ctx) names) =
    fst (foldl (field_step env child objects schema key') (out, ctx') names)"
proof (induction names arbitrary: out ctx ctx')
  case (Cons n names)
  obtain o1 c1 o2 c2 where
    "field_step env child objects schema key (out, ctx) n = (o1, c1)"
    "field_step env child objects schema key' (out, ctx') n = (o2, c2)"
    by fastforce
  moreover from this have "o1 = o2"
    using context_freeD [OF assms, of "child_contributions objects n" "propertySchema (we_re env) schema n"
        "key @ ''/'' @ n" ctx "key' @ ''/'' @ n" ctx']
    by (auto simp: field_step_def Let_def case_prod_beta split: if_splits)
  ultimately show ?case using Cons.IH [of o1 c1 c2] by simp
qed simp

lemma push_merged_indep:
  assumes "context_free child"
  shows "fst (foldl (push_merged child items key) (out, ctx) grps) =
    fst (foldl (push_merged child items key') (out, ctx') grps)"
proof (induction grps arbitrary: out ctx ctx')
  case (Cons g grps)
  obtain o1 c1 o2 c2 where
    "push_merged child items key (out, ctx) g = (o1, c1)"
    "push_merged child items key' (out, ctx') g = (o2, c2)"
    by fastforce
  moreover from this have "o1 = o2"
    using context_freeD [OF assms, of g items "key @ ''/'' @ show_nat (length out)" ctx
        "key' @ ''/'' @ show_nat (length out)" ctx']
    by (auto simp: push_merged_def Let_def case_prod_beta split: if_splits)
  ultimately show ?case using Cons.IH [of o1 c1 c2] by simp
qed simp

lemma append_members:
  "fst (foldl (append_step key entry) st xs) = fst st @ xs"
  by (induction xs arbitrary: st) (simp_all add: append_step_def case_prod_beta)

lemma append_arrays:
  "fst (foldl (\<lambda>st entry. foldl (append_step key entry) st (arr_of (co_value entry))) st arrays) =
     fst st @ concat (map (\<lambda>entry. arr_of (co_value entry)) arrays)"
  by (induction arrays arbitrary: st) (simp_all add: append_members)

lemma mergeObject_indep:
  assumes "context_free child"
  shows "fst (mergeObject env child cs schema key ctx) = fst (mergeObject env child cs schema key' ctx')"
proof -
  let ?objects = "filter (\<lambda>entry. isConfigObject (co_value entry)) cs"
  let ?all = "concat (map (\<lambda>entry. map fst (obj_of (co_value entry))) ?objects)"
  obtain n1 c1 n2 c2 where
    n: "foldl (collect_name env key) ([], ctx) ?all = (n1, c1)"
    "foldl (collect_name env key') ([], ctx') ?all = (n2, c2)" by fastforce
  with collect_name_indep [of env key "[]" ctx ?all key' ctx'] have "n1 = n2" by simp
  with n field_step_indep [OF assms, of env ?objects schema key "[]" c1 n1 key' c2] show ?thesis
    by (simp add: mergeObject_def take_winner_def Let_def case_prod_beta)
qed

lemma mergeArray_indep:
  assumes "context_free child"
  shows "fst (mergeArray env child cs schema key ctx) = fst (mergeArray env child cs schema key' ctx')"
proof -
  have keyed: "fst (mergeKeyedArray child arrays schema field key ctx) =
      fst (mergeKeyedArray child arrays schema field key' ctx')" for arrays field
    using push_merged_indep [OF assms, of "itemsSchema schema" key "[]" ctx _ key' ctx']
    by (simp add: mergeKeyedArray_def Let_def case_prod_beta del: foldl_append)
  have "fst (appendArrays arrays key ctx) = fst (appendArrays arrays key' ctx')" for arrays
    by (simp add: appendArrays_def Let_def case_prod_beta append_arrays)
  with keyed show ?thesis
    by (simp add: mergeArray_def take_winner_def Let_def split: option.splits)
qed

lemma mergeNode_context_free: "context_free (mergeNode env levels)"
proof (induction levels)
  case (Suc levels)
  have "fst (mergeDeny cs policy key ctx) = fst (mergeDeny cs policy key' ctx')" for cs policy key ctx key' ctx'
    by (simp add: mergeDeny_def Let_def)
  then show ?case
    using mergeObject_indep [OF Suc.IH] mergeArray_indep [OF Suc.IH]
    unfolding context_free_def
    by (simp add: take_winner_def Let_def split: option.splits)
qed (simp add: context_free_def)

section \<open>Merging clean values gives a clean value\<close>

definition clean_or_absent :: "nat \<Rightarrow> jval \<Rightarrow> bool" where
  "clean_or_absent n v = (v = JUndef \<or> clean n v)"

definition all_clean :: "nat \<Rightarrow> contribution list \<Rightarrow> bool" where
  "all_clean n cs = list_all (\<lambda>c. clean n (co_value c)) cs"

lemma all_clean_filter: "all_clean n cs \<Longrightarrow> all_clean n (filter P cs)"
  by (simp add: all_clean_def list_all_iff)

lemma clean_winner: "all_clean n cs \<Longrightarrow> cs \<noteq> [] \<Longrightarrow> clean n (fst (take_winner cs key ctx))"
  by (simp add: take_winner_def Let_def all_clean_def list_all_iff)

lemma clean_child_contributions:
  assumes "all_clean (Suc n) objects" shows "all_clean n (child_contributions objects name)"
proof -
  have "clean n v" if "entry \<in> set objects" "map_of (obj_of (co_value entry)) name = Some v" for entry v
    using assms that map_of_SomeD [OF that(2)]
    by (cases "co_value entry") (force simp: all_clean_def list_all_iff)+
  then show ?thesis
    by (auto simp: all_clean_def list_all_iff child_contributions_def set_map_filter_iff)
qed

lemma clean_arr_members:
  "all_clean (Suc n) arrays \<Longrightarrow> entry \<in> set arrays \<Longrightarrow> x \<in> set (arr_of (co_value entry)) \<Longrightarrow> clean n x"
  by (cases "co_value entry") (force simp: all_clean_def list_all_iff)+

definition clean_merger :: "nat \<Rightarrow> node_merger \<Rightarrow> bool" where
  "clean_merger n child \<longleftrightarrow>
     (\<forall>cs schema key ctx. all_clean n cs \<longrightarrow> clean_or_absent n (fst (child cs schema key ctx)))"

lemma clean_field_step:
  assumes child: "clean_merger n child" and objects: "all_clean (Suc n) objects"
  shows "clean (Suc n) (JObj out) \<Longrightarrow>
    clean (Suc n) (JObj (fst (foldl (field_step env child objects schema key) (out, ctx) names)))"
proof (induction names arbitrary: out ctx)
  case (Cons name names)
  let ?r = "child (child_contributions objects name) (propertySchema (we_re env) schema name) (key @ ''/'' @ name) ctx"
  have r: "clean_or_absent n (fst ?r)"
    using child clean_child_contributions [OF objects] by (auto simp: clean_merger_def)
  obtain o1 c1 where step: "field_step env child objects schema key (out, ctx) name = (o1, c1)" by fastforce
  have put: "clean (Suc n) (JObj (obj_put name x out))" if "\<not> isUnsafeConfigKey name" "clean n x" for x
    using Cons.prems that set_obj_put [of name x out] distinct_obj_put [of out name x]
      keys_ordered_obj_put [of out name x]
    by (auto simp: list_all_iff)
  have "clean (Suc n) (JObj o1)"
    using step r Cons.prems put
    by (auto simp: field_step_def safeAssign_def clean_or_absent_def Let_def case_prod_beta split: if_splits)
  from Cons.IH [OF this, of c1] step show ?case by simp
qed simp

lemma clean_push_merged:
  assumes child: "clean_merger n child"
  shows "list_all (all_clean n) grps \<Longrightarrow> list_all (clean n) out \<Longrightarrow>
    list_all (clean n) (fst (foldl (push_merged child items key) (out, ctx) grps))"
proof (induction grps arbitrary: out ctx)
  case (Cons g grps)
  obtain o1 c1 where step: "push_merged child items key (out, ctx) g = (o1, c1)" by fastforce
  have "clean_or_absent n (fst (child g items (key @ ''/'' @ show_nat (length out)) ctx))"
    using child Cons.prems by (simp add: clean_merger_def)
  with step Cons.prems have "list_all (clean n) o1"
    by (auto simp: push_merged_def clean_or_absent_def Let_def case_prod_beta split: if_splits)
  with Cons.IH [of o1 c1] Cons.prems step show ?case by simp
qed simp

definition groups_clean :: "nat \<Rightarrow> keyed_groups \<Rightarrow> bool" where
  "groups_clean n st = (list_all (\<lambda>(i, g). all_clean n g) (kg_groups st) \<and> all_clean n (kg_unkeyed st))"

lemma clean_group_update:
  assumes "list_all (\<lambda>(i, g). all_clean n g) al" and "all_clean n g"
  shows "list_all (\<lambda>(i, g). all_clean n g) (AList.update k g al)"
  using assms by (induction al) auto

lemma clean_group_member:
  assumes st: "groups_clean n st" and member: "clean n member"
  shows "groups_clean n (group_member field entry st member)"
proof -
  let ?mine = "\<lparr>co_source = co_source entry, co_value = member, co_rank = co_rank entry\<rparr>"
  have mine: "all_clean n (g @ [?mine])" if "all_clean n g" for g
    using that member by (simp add: all_clean_def)
  have "all_clean n g" if "map_of (kg_groups st) k = Some g" for k g
    using st map_of_SomeD [OF that] by (auto simp: groups_clean_def list_all_iff)
  then have "groups_clean n (st\<lparr>kg_groups := AList.update k (g @ [?mine]) (kg_groups st)\<rparr>)"
    if "map_of (kg_groups st) k = Some g" for k g
    using st that mine clean_group_update [of n "kg_groups st" "g @ [?mine]" k]
    by (simp add: groups_clean_def)
  with st mine [of "[]"] mine [of "kg_unkeyed st"] show ?thesis
    by (simp add: group_member_def groups_clean_def all_clean_def Let_def split: option.splits)
qed

lemma clean_groups:
  assumes "all_clean (Suc n) arrays"
  shows "groups_clean n (foldl (\<lambda>st entry. foldl (group_member field entry) st (arr_of (co_value entry)))
           \<lparr>kg_groups = [], kg_unkeyed = []\<rparr> arrays)"
proof -
  have members: "groups_clean n (foldl (group_member field entry) st xs)"
    if "groups_clean n st" "\<And>x. x \<in> set xs \<Longrightarrow> clean n x" for st xs entry
    using that by (induction xs arbitrary: st) (simp_all add: clean_group_member)
  have "groups_clean n (foldl (\<lambda>st entry. foldl (group_member field entry) st (arr_of (co_value entry))) st as)"
    if "groups_clean n st" "set as \<subseteq> set arrays" for st as
    using that
  proof (induction as arbitrary: st)
    case (Cons a as)
    with clean_arr_members [OF assms, of a] have "groups_clean n (foldl (group_member field a) st (arr_of (co_value a)))"
      by (intro members) auto
    with Cons show ?case by simp
  qed simp
  then show ?thesis by (simp add: groups_clean_def all_clean_def)
qed

lemma clean_mergeObject:
  assumes child: "clean_merger n child" and cs: "all_clean (Suc n) cs" and ne: "cs \<noteq> []"
  shows "clean (Suc n) (fst (mergeObject env child cs schema key ctx))"
proof -
  have "clean (Suc n) (JObj [])" by simp
  from clean_field_step [OF child all_clean_filter [OF cs] this] clean_winner [OF cs ne, of key ctx]
  show ?thesis by (simp add: mergeObject_def Let_def case_prod_beta del: clean.simps)
qed

lemma clean_arr_of: "clean (Suc n) v \<Longrightarrow> isArray v \<Longrightarrow> clean (Suc n) (JArr (arr_of v))"
  by (cases v) simp_all

lemma clean_mergeArray:
  assumes child: "clean_merger n child" and cs: "all_clean (Suc n) cs" and ne: "cs \<noteq> []"
  shows "clean (Suc n) (fst (mergeArray env child cs schema key ctx))"
proof -
  let ?arrays = "filter (\<lambda>entry. isArray (co_value entry)) cs"
  note arrays = all_clean_filter [OF cs, of "\<lambda>entry. isArray (co_value entry)"]
  have keyed: "clean (Suc n) (fst (mergeKeyedArray child ?arrays schema field key ctx))" for field
  proof -
    define st where "st = foldl (\<lambda>st entry. foldl (group_member field entry) st (arr_of (co_value entry)))
        \<lparr>kg_groups = [], kg_unkeyed = []\<rparr> ?arrays"
    have "groups_clean n st" unfolding st_def by (rule clean_groups [OF arrays])
    then have "list_all (all_clean n) (map snd (kg_groups st) @ map (\<lambda>entry. [entry]) (kg_unkeyed st))"
      by (auto simp: groups_clean_def all_clean_def list_all_iff)
    from clean_push_merged [OF child this, of "[]"] show ?thesis
      by (simp add: mergeKeyedArray_def Let_def case_prod_beta st_def [symmetric] del: foldl_append)
  qed
  have append: "clean (Suc n) (fst (appendArrays ?arrays key ctx))"
    using clean_arr_members [OF arrays]
    by (auto simp: appendArrays_def Let_def case_prod_beta append_arrays list_all_iff)
  have replace: "clean (Suc n) (JArr (arr_of (co_value (last ?arrays))))" if "?arrays \<noteq> []"
  proof -
    from last_in_set [OF that] have "last ?arrays \<in> set cs" "isArray (co_value (last ?arrays))" by auto
    with cs show ?thesis by (intro clean_arr_of) (simp_all add: all_clean_def list_all_iff del: clean.simps)
  qed
  show ?thesis
  proof (cases "?arrays = []")
    case True
    with clean_winner [OF cs ne] show ?thesis by (simp add: mergeArray_def Let_def del: clean.simps)
  next
    case False
    with keyed append replace show ?thesis
      by (simp add: mergeArray_def Let_def del: clean.simps split: option.splits)
  qed
qed

lemma clean_mergeDeny:
  assumes cs: "all_clean (Suc n) cs" and ne: "cs \<noteq> []"
  shows "clean (Suc n) (fst (mergeDeny cs policy key ctx))"
proof (cases policy)
  case BooleanFalse
  have "dr_value (resolveBooleanDeny (map deny_contribution_of cs)) \<in>
      {JBool False, JBool True} \<union> co_value ` set cs"
    using resolveBooleanDeny_source [of "map deny_contribution_of cs"] ne
    by (auto simp: deny_contribution_of_def image_iff)
  with cs BooleanFalse show ?thesis
    by (auto simp: mergeDeny_def Let_def all_clean_def list_all_iff simp del: clean.simps intro: isConfigScalar_clean)
next
  case ArrayUnion
  let ?dcs = "map deny_contribution_of cs"
  obtain ms where ms: "dr_value (resolveArrayDeny ?dcs) = JArr ms"
    and len: "length (dr_memberWinners (resolveArrayDeny ?dcs)) = length ms"
    and src: "\<forall>k < length ms. let i = dr_memberWinners (resolveArrayDeny ?dcs) ! k
        in i < length ?dcs \<and> ms ! k \<in> set (arr_of (dc_value (?dcs ! i)))"
    using resolveArrayDeny_spec [of ?dcs] by blast
  have "clean n m" if "m \<in> set ms" for m
  proof -
    from that obtain k where "k < length ms" "ms ! k = m" by (auto simp: in_set_conv_nth)
    with src obtain i where "i < length cs" "m \<in> set (arr_of (co_value (cs ! i)))"
      by (auto simp: Let_def deny_contribution_of_def)
    with clean_arr_members [OF cs, of "cs ! i" m] show ?thesis by simp
  qed
  with ms ArrayUnion show ?thesis by (simp add: mergeDeny_def Let_def list_all_iff)
qed

lemma clean_mergeNode: "clean_merger n (mergeNode env n)"
proof (induction n)
  case (Suc n)
  show ?case
    unfolding clean_merger_def clean_or_absent_def
    using clean_mergeObject [OF Suc.IH] clean_mergeArray [OF Suc.IH] clean_mergeDeny clean_winner
    by (simp del: clean.simps split: option.splits)
qed (simp add: clean_merger_def clean_or_absent_def)

section \<open>The value at a path\<close>

fun at_path :: "jval \<Rightarrow> string list \<Rightarrow> jval" where
  "at_path v [] = v"
| "at_path v (k # ks) =
     (case map_of (obj_of v) k of Some x \<Rightarrow> at_path x ks | None \<Rightarrow> JUndef)"

fun schema_at :: "regex \<Rightarrow> schema option \<Rightarrow> string list \<Rightarrow> schema option" where
  "schema_at re s [] = s"
| "schema_at re s (k # ks) = schema_at re (propertySchema re s k) ks"

text \<open>Every node above the last is a declared object without a deny annotation.\<close>

fun object_path :: "regex \<Rightarrow> schema option \<Rightarrow> string list \<Rightarrow> bool" where
  "object_path re s [] = True"
| "object_path re s (k # ks) =
     (schemaType s = Some ''object'' \<and> denyPolicyOf s = None \<and> \<not> isUnsafeConfigKey k \<and>
      object_path re (propertySchema re s k) ks)"

fun project :: "contribution list \<Rightarrow> string list \<Rightarrow> contribution list" where
  "project cs [] = cs"
| "project cs (k # ks) = project (child_contributions (filter (\<lambda>c. isConfigObject (co_value c)) cs) k) ks"

lemma mergeNode_Nil [simp]: "mergeNode env n [] schema key ctx = (JUndef, ctx)"
  by (cases n) simp_all

lemma project_Nil [simp]: "project [] p = []"
  by (induction p) (simp_all add: child_contributions_def List.map_filter_simps)

lemma at_path_JUndef [simp]: "at_path JUndef p = JUndef"
  by (cases p) simp_all

lemma collect_name_spec:
  "distinct names \<Longrightarrow>
   distinct (fst (foldl (collect_name env key) (names, ctx) xs)) \<and>
   set (fst (foldl (collect_name env key) (names, ctx) xs)) = set names \<union> {x \<in> set xs. \<not> isUnsafeConfigKey x}"
proof (induction xs arbitrary: names ctx)
  case (Cons x xs)
  obtain n1 c1 where step: "collect_name env key (names, ctx) x = (n1, c1)" by fastforce
  then have "distinct n1" "set n1 = set names \<union> (if isUnsafeConfigKey x then {} else {x})
      \<or> (x \<in> set names \<and> n1 = names)"
    using Cons.prems by (auto simp: collect_name_def split: if_splits)
  with Cons.IH [of n1 c1] step show ?case
    by (auto simp: collect_name_def split: if_splits)
qed simp

lemma field_step_lookup:
  fixes env objects schema start
  assumes cf: "context_free child"
  defines "m \<equiv> \<lambda>k. fst (child (child_contributions objects k) (propertySchema (we_re env) schema k) [] start)"
  shows "(\<forall>n \<in> set names. \<not> isUnsafeConfigKey n) \<Longrightarrow>
    map_of (fst (foldl (field_step env child objects schema key) (out, ctx) names)) k =
      (if k \<in> set names \<and> m k \<noteq> JUndef then Some (m k) else map_of out k)"
proof (induction names arbitrary: out ctx)
  case (Cons n names)
  obtain o1 c1 where step: "field_step env child objects schema key (out, ctx) n = (o1, c1)" by fastforce
  have "fst (child (child_contributions objects n) (propertySchema (we_re env) schema n) (key @ ''/'' @ n) ctx) = m n"
    unfolding m_def by (rule context_freeD [OF cf])
  with step Cons.prems have "o1 = (if m n \<noteq> JUndef then obj_put n (m n) out else out)"
    by (auto simp: field_step_def safeAssign_def Let_def case_prod_beta split: if_splits)
  with Cons.IH [of o1 c1] Cons.prems step show ?case by (auto simp: map_of_obj_put)
qed simp

lemma child_contributions_Nil_iff:
  "child_contributions objects k = [] \<longleftrightarrow>
     (\<forall>entry \<in> set objects. k \<notin> set (map fst (obj_of (co_value entry))))"
  by (auto simp: child_contributions_def List.map_filter_def filter_empty_conv map_of_eq_None_iff)

text \<open>One step: a declared object merges each field on its own.\<close>

lemma mergeNode_field:
  assumes "schemaType s = Some ''object''" and "denyPolicyOf s = None" and safe: "\<not> isUnsafeConfigKey k"
  shows "at_path (fst (mergeNode env (Suc n) cs s key ctx)) [k] =
    fst (mergeNode env n (child_contributions (filter (\<lambda>c. isConfigObject (co_value c)) cs) k)
      (propertySchema (we_re env) s k) key' ctx')"
proof -
  let ?objects = "filter (\<lambda>c. isConfigObject (co_value c)) cs"
  let ?all = "concat (map (\<lambda>entry. map fst (obj_of (co_value entry))) ?objects)"
  let ?m = "fst (mergeNode env n (child_contributions ?objects k) (propertySchema (we_re env) s k) [] ctx')"
  show ?thesis
  proof (cases "?objects = []")
    case True
    have "obj_of (co_value (last cs)) = []" if "cs \<noteq> []"
    proof -
      from that have "\<not> isConfigObject (co_value (last cs))" using True by (metis filter_empty_conv last_in_set)
      then show ?thesis by (cases "co_value (last cs)") simp_all
    qed
    with True assms show ?thesis
      by (simp add: isObjectNode_def mergeObject_def take_winner_def Let_def child_contributions_def
          List.map_filter_simps)
  next
    case False
    then have ne: "cs \<noteq> []" by auto
    obtain names c1 where names: "foldl (collect_name env key) ([], ctx) ?all = (names, c1)" by fastforce
    with collect_name_spec [of "[]" env key ctx ?all]
    have set_names: "set names = {x \<in> set ?all. \<not> isUnsafeConfigKey x}" by simp
    then have safe_names: "\<forall>x \<in> set names. \<not> isUnsafeConfigKey x" by simp
    have "map_of (fst (foldl (field_step env (mergeNode env n) ?objects s key) ([], c1) names)) k =
        (if k \<in> set names \<and> ?m \<noteq> JUndef then Some ?m else None)"
      using field_step_lookup [OF mergeNode_context_free [of env n] safe_names, where env = env
          and objects = ?objects and schema = s and start = ctx' and key = key and out = "[]" and ctx = c1 and k = k]
      by simp
    moreover have "?m = JUndef" if "k \<notin> set names"
    proof -
      from that safe set_names have "child_contributions ?objects k = []"
        by (auto simp: child_contributions_Nil_iff)
      then show ?thesis by simp
    qed
    moreover have "?m = fst (mergeNode env n (child_contributions ?objects k) (propertySchema (we_re env) s k) key' ctx')"
      by (rule context_freeD [OF mergeNode_context_free])
    moreover have "fst (mergeNode env (Suc n) cs s key ctx) =
        JObj (fst (foldl (field_step env (mergeNode env n) ?objects s key) ([], c1) names))"
      using False ne assms names by (simp add: isObjectNode_def mergeObject_def Let_def case_prod_beta)
    ultimately show ?thesis by (auto simp del: mergeNode.simps)
  qed
qed

lemma at_path_append: "at_path v (p @ q) = at_path (at_path v p) q"
  by (induction v p rule: at_path.induct) (auto split: option.splits)

lemma mergeNode_at_path:
  "object_path (we_re env) s p \<Longrightarrow>
     at_path (fst (mergeNode env (n + length p) cs s key ctx)) p =
     fst (mergeNode env n (project cs p) (schema_at (we_re env) s p) key' ctx')"
proof (induction p arbitrary: s cs key ctx)
  case Nil
  then show ?case using context_freeD [OF mergeNode_context_free] by simp
next
  case (Cons k p)
  let ?cs = "child_contributions (filter (\<lambda>c. isConfigObject (co_value c)) cs) k"
  have "at_path (fst (mergeNode env (Suc (n + length p)) cs s key ctx)) ([k] @ p) =
      at_path (fst (mergeNode env (n + length p) ?cs (propertySchema (we_re env) s k) key ctx)) p"
    unfolding at_path_append using Cons.prems by (subst mergeNode_field) simp_all
  with Cons show ?case by (simp del: mergeNode.simps at_path.simps)
qed

section \<open>Every leaf has provenance\<close>

definition from_sources :: "config_source set \<Rightarrow> provenance \<Rightarrow> bool" where
  "from_sources S e =
     (\<exists>s \<in> S. prov_tier e = src_tier s \<and> prov_file e = src_file s \<and> prov_trust e = src_trust s)"

definition prov_ok :: "config_source set \<Rightarrow> prov_map \<Rightarrow> bool" where
  "prov_ok S m = (\<forall>(k, e) \<in> set m. prov_key e = k \<and> from_sources S e)"

text \<open>A node is explained by an entry of its own or, for an object, by those of its fields.\<close>

fun explained :: "prov_map \<Rightarrow> string \<Rightarrow> jval \<Rightarrow> bool" where
  "explained m key (JObj fs) =
     (jm_has m key \<or> list_all (\<lambda>(k, x). explained m (key @ ''/'' @ k) x) fs)"
| "explained m key v = jm_has m key"

lemma explained_own: "jm_has m key \<Longrightarrow> explained m key v"
  by (cases v) simp_all

lemma explained_mono:
  "explained m key v \<Longrightarrow> (\<And>k. jm_has m k \<Longrightarrow> jm_has m' k) \<Longrightarrow> explained m' key v"
  by (induction m key v rule: explained.induct) (fastforce simp: list_all_iff)+

text \<open>What one merge step does to the provenance map.\<close>

definition prov_step :: "config_source set \<Rightarrow> merge_context \<Rightarrow> merge_context \<Rightarrow> bool" where
  "prov_step S ctx ctx' \<longleftrightarrow>
     (\<forall>k. jm_has (mc_provenance ctx) k \<longrightarrow> jm_has (mc_provenance ctx') k) \<and>
     (prov_ok S (mc_provenance ctx) \<longrightarrow> prov_ok S (mc_provenance ctx'))"

lemma prov_step_refl [simp]: "prov_step S ctx ctx"
  by (simp add: prov_step_def)

lemma prov_step_trans: "prov_step S a b \<Longrightarrow> prov_step S b c \<Longrightarrow> prov_step S a c"
  by (auto simp: prov_step_def)

lemma prov_step_record [simp]: "prov_step S ctx (merge_record env code key why ctx)"
  by (simp add: prov_step_def merge_record_def Let_def)

lemma prov_step_set:
  assumes "from_sources S e" and "prov_key e = key"
  shows "prov_step S ctx (set_provenance key e ctx)"
    and "jm_has (mc_provenance (set_provenance key e ctx)) key"
proof -
  have "set (jm_set key e m) \<subseteq> insert (key, e) (set m)" for m :: prov_map
    by (induction m) auto
  with assms show "prov_step S ctx (set_provenance key e ctx)"
    by (fastforce simp: prov_step_def set_provenance_def prov_ok_def jm_has_set)
  show "jm_has (mc_provenance (set_provenance key e ctx)) key"
    by (simp add: set_provenance_def jm_has_set)
qed

lemma prov_step_stamp:
  assumes "co_source c \<in> S"
  shows "prov_step S ctx (stamp ctx c key)" and "jm_has (mc_provenance (stamp ctx c key)) key"
proof -
  have "from_sources S (provenanceOf c key)"
    using assms by (auto simp: from_sources_def provenanceOf_def Let_def)
  moreover have "prov_key (provenanceOf c key) = key" by (simp add: provenanceOf_def Let_def)
  ultimately show "prov_step S ctx (stamp ctx c key)" and "jm_has (mc_provenance (stamp ctx c key)) key"
    by (simp_all add: stamp_def prov_step_set)
qed

lemma explained_step: "prov_step S ctx ctx' \<Longrightarrow> explained (mc_provenance ctx) key v \<Longrightarrow> explained (mc_provenance ctx') key v"
  unfolding prov_step_def by (blast intro: explained_mono)

definition explains :: "config_source set \<Rightarrow> node_merger \<Rightarrow> bool" where
  "explains S child \<longleftrightarrow>
     (\<forall>cs schema key ctx. co_source ` set cs \<subseteq> S \<longrightarrow>
        prov_step S ctx (snd (child cs schema key ctx)) \<and>
        (fst (child cs schema key ctx) \<noteq> JUndef \<longrightarrow>
           explained (mc_provenance (snd (child cs schema key ctx))) key (fst (child cs schema key ctx))))"

lemma explainsD:
  assumes "explains S child" and "co_source ` set cs \<subseteq> S" and "child cs schema key ctx = (v, ctx')"
  shows "prov_step S ctx ctx'" and "v \<noteq> JUndef \<Longrightarrow> explained (mc_provenance ctx') key v"
  using assms unfolding explains_def by (metis fst_conv snd_conv)+

lemma take_winner_explains:
  assumes "cs \<noteq> []" and "co_source ` set cs \<subseteq> S"
  shows "prov_step S ctx (snd (take_winner cs key ctx))"
    and "jm_has (mc_provenance (snd (take_winner cs key ctx))) key"
proof -
  from last_in_set [OF assms(1)] assms(2) have "co_source (last cs) \<in> S" by blast
  then show "prov_step S ctx (snd (take_winner cs key ctx))"
    and "jm_has (mc_provenance (snd (take_winner cs key ctx))) key"
    by (simp_all add: take_winner_def Let_def prov_step_stamp)
qed

lemma collect_name_step: "prov_step S ctx (snd (foldl (collect_name env key) (names, ctx) xs))"
proof (induction xs arbitrary: names ctx)
  case (Cons x xs)
  obtain n1 c1 where step: "collect_name env key (names, ctx) x = (n1, c1)" by fastforce
  then have "prov_step S ctx c1" by (auto simp: collect_name_def split: if_splits)
  with Cons.IH [of c1 n1] step show ?case by (auto intro: prov_step_trans)
qed simp

lemma child_contributions_sources:
  "co_source ` set cs \<subseteq> S \<Longrightarrow> co_source ` set (child_contributions cs k) \<subseteq> S"
  by (auto simp: child_contributions_def set_map_filter_iff image_subset_iff)

definition fields_explained :: "string \<Rightarrow> jobj \<Rightarrow> merge_context \<Rightarrow> bool" where
  "fields_explained key out ctx =
     list_all (\<lambda>(k, x). explained (mc_provenance ctx) (key @ ''/'' @ k) x) out"

lemma field_step_explains:
  assumes child: "explains S child" and objects: "co_source ` set objects \<subseteq> S"
  shows "fields_explained key out ctx \<Longrightarrow>
    prov_step S ctx (snd (foldl (field_step env child objects schema key) (out, ctx) names)) \<and>
    fields_explained key (fst (foldl (field_step env child objects schema key) (out, ctx) names))
      (snd (foldl (field_step env child objects schema key) (out, ctx) names))"
proof (induction names arbitrary: out ctx)
  case (Cons n names)
  obtain v c1 where v: "child (child_contributions objects n) (propertySchema (we_re env) schema n)
      (key @ ''/'' @ n) ctx = (v, c1)" by fastforce
  define o1 where "o1 = (if v \<noteq> JUndef then fst (safeAssign n v out) else out)"
  have step: "field_step env child objects schema key (out, ctx) n = (o1, c1)"
    by (simp add: field_step_def v [simplified] o1_def)
  note ok = explainsD [OF child child_contributions_sources [OF objects] v]
  have old: "fields_explained key out c1"
    using Cons.prems explained_step [OF ok(1)] by (auto simp: fields_explained_def list_all_iff)
  have "fields_explained key (obj_put n v out) c1" if "v \<noteq> JUndef"
    using old ok(2) [OF that] set_obj_put [of n v out] by (auto simp: fields_explained_def list_all_iff)
  with old have "fields_explained key o1 c1" by (simp add: o1_def safeAssign_def)
  from Cons.IH [OF this] step ok(1) show ?case by (auto intro: prov_step_trans)
qed simp

lemma mergeObject_explains:
  assumes child: "explains S child" and cs: "co_source ` set cs \<subseteq> S" and ne: "cs \<noteq> []"
  shows "prov_step S ctx (snd (mergeObject env child cs schema key ctx)) \<and>
    explained (mc_provenance (snd (mergeObject env child cs schema key ctx))) key
      (fst (mergeObject env child cs schema key ctx))"
proof -
  let ?objects = "filter (\<lambda>c. isConfigObject (co_value c)) cs"
  let ?all = "concat (map (\<lambda>entry. map fst (obj_of (co_value entry))) ?objects)"
  obtain names c1 where names: "foldl (collect_name env key) ([], ctx) ?all = (names, c1)" by fastforce
  with collect_name_step [of S ctx env key "[]" ?all] have "prov_step S ctx c1" by simp
  moreover have "co_source ` set ?objects \<subseteq> S" using cs by auto
  note field_step_explains [OF child this, of key "[]" c1 env schema names]
  ultimately show ?thesis
    using take_winner_explains [OF ne cs, where ctx = ctx and key = key] names
    by (auto simp: mergeObject_def Let_def case_prod_beta fields_explained_def explained_own
        intro: prov_step_trans)
qed

lemma append_step_prov:
  assumes "co_source entry \<in> S"
  shows "prov_step S (snd st) (snd (foldl (append_step key entry) st xs))"
proof (induction xs arbitrary: st)
  case (Cons x xs)
  have "prov_step S (snd st) (snd (append_step key entry st x))"
    by (simp add: append_step_def case_prod_beta prov_step_stamp [OF assms])
  from prov_step_trans [OF this Cons.IH] show ?case by simp
qed simp

lemma push_merged_prov:
  assumes child: "explains S child"
  shows "list_all (\<lambda>g. co_source ` set g \<subseteq> S) grps \<Longrightarrow>
    prov_step S (snd st) (snd (foldl (push_merged child items key) st grps))"
proof (induction grps arbitrary: st)
  case (Cons g grps)
  obtain v c1 where v: "child g items (key @ ''/'' @ show_nat (length (fst st))) (snd st) = (v, c1)" by fastforce
  from Cons.prems explainsD(1) [OF child _ v] have "prov_step S (snd st) c1" by simp
  moreover have "snd (push_merged child items key st g) = c1"
    by (simp add: push_merged_def case_prod_beta v [simplified])
  moreover from Cons have "prov_step S (snd (push_merged child items key st g))
      (snd (foldl (push_merged child items key) (push_merged child items key st g) grps))" by simp
  ultimately show ?case by (auto intro: prov_step_trans)
qed simp

definition groups_from :: "config_source set \<Rightarrow> keyed_groups \<Rightarrow> bool" where
  "groups_from S st =
     (list_all (\<lambda>(i, g). co_source ` set g \<subseteq> S) (kg_groups st) \<and> co_source ` set (kg_unkeyed st) \<subseteq> S)"

lemma groups_from_member:
  assumes st: "groups_from S st" and entry: "co_source entry \<in> S"
  shows "groups_from S (group_member field entry st member)"
proof -
  let ?mine = "\<lparr>co_source = co_source entry, co_value = member, co_rank = co_rank entry\<rparr>"
  have upd: "list_all (\<lambda>(i, g). co_source ` set g \<subseteq> S) (AList.update k g al)"
    if "list_all (\<lambda>(i, g). co_source ` set g \<subseteq> S) al" and "co_source ` set g \<subseteq> S" for k g al
    using that by (induction al) auto
  have "list_all (\<lambda>(i, g). co_source ` set g \<subseteq> S) (AList.update k (g @ [?mine]) (kg_groups st))"
    if "map_of (kg_groups st) k = Some g" for k g
  proof (rule upd)
    have "co_source ` set g \<subseteq> S"
      using st map_of_SomeD [OF that] unfolding groups_from_def list_all_iff by fast
    with entry show "co_source ` set (g @ [?mine]) \<subseteq> S" by simp
  qed (use st in \<open>simp add: groups_from_def\<close>)
  with st entry show ?thesis
    by (simp add: group_member_def groups_from_def Let_def split: option.splits)
qed

lemma groups_from_all:
  assumes "co_source ` set arrays \<subseteq> S"
  shows "groups_from S (foldl (\<lambda>st entry. foldl (group_member field entry) st (arr_of (co_value entry)))
           \<lparr>kg_groups = [], kg_unkeyed = []\<rparr> arrays)"
proof -
  have members: "groups_from S st \<Longrightarrow> co_source entry \<in> S \<Longrightarrow>
      groups_from S (foldl (group_member field entry) st xs)" for st xs entry
    by (induction xs arbitrary: st) (simp_all add: groups_from_member)
  have "groups_from S st \<Longrightarrow> co_source ` set as \<subseteq> S \<Longrightarrow>
      groups_from S (foldl (\<lambda>st entry. foldl (group_member field entry) st (arr_of (co_value entry))) st as)"
    for st as
    by (induction as arbitrary: st) (simp_all add: members)
  with assms show ?thesis by (simp add: groups_from_def)
qed

lemma appendArrays_prov:
  assumes "co_source ` set arrays \<subseteq> S"
  shows "prov_step S (snd st)
    (snd (foldl (\<lambda>st entry. foldl (append_step key entry) st (arr_of (co_value entry))) st arrays))"
  using assms
proof (induction arrays arbitrary: st)
  case (Cons a arrays)
  then have "prov_step S (snd st) (snd (foldl (append_step key a) st (arr_of (co_value a))))"
    by (intro append_step_prov) simp
  from prov_step_trans [OF this] Cons show ?case by simp
qed simp

lemma mergeArray_explains:
  assumes child: "explains S child" and cs: "co_source ` set cs \<subseteq> S" and ne: "cs \<noteq> []"
  shows "prov_step S ctx (snd (mergeArray env child cs schema key ctx)) \<and>
    jm_has (mc_provenance (snd (mergeArray env child cs schema key ctx))) key"
proof -
  let ?arrays = "filter (\<lambda>entry. isArray (co_value entry)) cs"
  show ?thesis
  proof (cases "?arrays = []")
    case True
    with take_winner_explains [OF ne cs] show ?thesis by (simp add: mergeArray_def Let_def)
  next
    case False
    have arrays: "co_source ` set ?arrays \<subseteq> S" using cs by auto
    have "hd ?arrays \<in> set ?arrays" "last ?arrays \<in> set ?arrays"
      using hd_in_set [OF False] last_in_set [OF False] by blast+
    with arrays have src: "co_source (hd ?arrays) \<in> S" "co_source (last ?arrays) \<in> S" by blast+
    have keyed: "prov_step S ctx (snd (mergeKeyedArray child ?arrays schema field key ctx)) \<and>
        jm_has (mc_provenance (snd (mergeKeyedArray child ?arrays schema field key ctx))) key" for field
    proof -
      define st where "st = foldl (\<lambda>st entry. foldl (group_member field entry) st (arr_of (co_value entry)))
        \<lparr>kg_groups = [], kg_unkeyed = []\<rparr> ?arrays"
      have "groups_from S st" unfolding st_def by (rule groups_from_all [OF arrays])
      then have "list_all (\<lambda>g. co_source ` set g \<subseteq> S) (map snd (kg_groups st) @ map (\<lambda>entry. [entry]) (kg_unkeyed st))"
        unfolding groups_from_def list_all_iff by fastforce
      from push_merged_prov [OF child this, of "([], ctx)" "itemsSchema schema" key] show ?thesis
        by (auto simp: mergeKeyedArray_def Let_def case_prod_beta st_def [symmetric]
            prov_step_stamp(2) [OF src(1)] simp del: foldl_append
            intro: prov_step_trans [OF _ prov_step_stamp(1) [OF src(1)]])
    qed
    have "prov_step S ctx (snd (appendArrays ?arrays key ctx)) \<and>
        jm_has (mc_provenance (snd (appendArrays ?arrays key ctx))) key"
      using appendArrays_prov [OF arrays, of "([], ctx)" key]
      by (auto simp: appendArrays_def Let_def case_prod_beta prov_step_stamp(2) [OF src(1)]
          intro: prov_step_trans [OF _ prov_step_stamp(1) [OF src(1)]])
    with False keyed prov_step_stamp [OF src(2)] show ?thesis
      by (simp add: mergeArray_def Let_def split: option.splits)
  qed
qed

lemma mergeDeny_explains:
  assumes cs: "co_source ` set cs \<subseteq> S" and ne: "cs \<noteq> []"
  shows "prov_step S ctx (snd (mergeDeny cs policy key ctx)) \<and>
    jm_has (mc_provenance (snd (mergeDeny cs policy key ctx))) key"
proof -
  let ?dcs = "map deny_contribution_of cs"
  define r where "r = (case policy of BooleanFalse \<Rightarrow> resolveBooleanDeny ?dcs | ArrayUnion \<Rightarrow> resolveArrayDeny ?dcs)"
  have win: "winner_ok ?dcs (dr_winner r)"
    using ne resolveBooleanDeny_winner [of ?dcs] resolveArrayDeny_winner [of ?dcs]
    by (cases policy) (simp_all add: r_def)
  have src: "from_sources S e \<and> prov_key e = k"
    if "provenanceOfContribution (elem_at ?dcs i) k = Some e" for i k e
    using that cs nth_mem [of "nat i" cs]
    by (auto simp: provenanceOfContribution_def elem_at_def deny_contribution_of_def from_sources_def
        image_subset_iff split: if_splits)
  obtain e where e: "denyProvenance ?dcs r key = Some e"
    using win by (auto simp: winner_ok_def denyProvenance_def provenanceOfContribution_def elem_at_def)
  with src have e_ok: "from_sources S e" "prov_key e = key" by (auto simp: denyProvenance_def)
  let ?c1 = "set_provenance key e ctx"
  have members: "prov_step S c (foldl (\<lambda>ctx m. set_provenance (prov_key m) m ctx) c ms)"
    if "\<And>m. m \<in> set ms \<Longrightarrow> from_sources S m" for c ms
    using that
  proof (induction ms arbitrary: c)
    case (Cons m ms)
    then have "prov_step S c (set_provenance (prov_key m) m c)" by (simp add: prov_step_set)
    from prov_step_trans [OF this] Cons show ?case by simp
  qed simp
  have "prov_step S ?c1 (snd (mergeDeny cs policy key ctx))"
    using e src unfolding mergeDeny_def Let_def r_def [symmetric]
    by (auto simp: denyMemberProvenance_def set_map_filter_iff intro!: members)
  with prov_step_set [OF e_ok, of ctx] show ?thesis
    by (auto simp: prov_step_def)
qed

lemma mergeNode_explains: "explains S (mergeNode env n)"
proof (induction n)
  case (Suc n)
  show ?case
    unfolding explains_def
  proof (intro allI impI)
    fix cs :: "contribution list" and schema key ctx
    assume cs: "co_source ` set cs \<subseteq> S"
    show "prov_step S ctx (snd (mergeNode env (Suc n) cs schema key ctx)) \<and>
      (fst (mergeNode env (Suc n) cs schema key ctx) \<noteq> JUndef \<longrightarrow>
       explained (mc_provenance (snd (mergeNode env (Suc n) cs schema key ctx))) key
         (fst (mergeNode env (Suc n) cs schema key ctx)))"
    proof (cases "cs = []")
      case False
      with mergeObject_explains [OF Suc.IH cs] mergeArray_explains [OF Suc.IH cs] mergeDeny_explains [OF cs]
        take_winner_explains [OF False cs]
      show ?thesis by (simp add: explained_own split: option.splits)
    qed simp
  qed
qed (simp add: explains_def)

section \<open>Names that contain a slash\<close>

definition slash_contributions :: "contribution list" where
  "slash_contributions =
     [\<lparr>co_source = \<lparr>src_tier = Global, src_file = None, src_trust = None, src_value = JNull\<rparr>,
       co_value = JObj [(''a/b'', JStr ''global'')], co_rank = 0\<rparr>,
      \<lparr>co_source = \<lparr>src_tier = Project, src_file = None, src_trust = None, src_value = JNull\<rparr>,
       co_value = JObj [(''a'', JObj [(''b'', JStr ''project'')])], co_rank = 1\<rparr>]"

lemma mergeNode_Suc_apply:
  "mergeNode env (Suc levels) contributions schema key ctx =
     (if contributions = [] then (JUndef, ctx)
      else case denyPolicyOf schema of
             Some policy \<Rightarrow> mergeDeny contributions policy key ctx
           | None \<Rightarrow>
               if isObjectNode schema contributions
               then mergeObject env (mergeNode env levels) contributions schema key ctx
               else if isArrayNode schema contributions
               then mergeArray env (mergeNode env levels) contributions schema key ctx
               else take_winner contributions key ctx)"
  by simp

text \<open>
  Pointers are built by joining names with a slash and without escaping, so the field
  \<open>a/b\<close> of the root and the field \<open>b\<close> of the object \<open>a\<close> share the pointer
  \<open>/a/b\<close> and the later one overwrites the entry of the earlier: the value of \<open>a/b\<close> comes
  from the global file while its provenance names the project.
\<close>

theorem slash_names_share_a_pointer:
  "\<exists>v ctx'. mergeNode env (Suc (Suc (Suc n))) slash_contributions (Some open_object) [] ctx = (v, ctx') \<and>
     at_path v [''a/b''] = JStr ''global'' \<and>
     map_option prov_tier (provenanceFor (mc_provenance ctx') (pointer_of [''a/b''])) = Some Project"
  by (simp add: mergeNode_Suc_apply slash_contributions_def open_object_def denyPolicyOf_def node_get_def
      isObjectNode_def isArrayNode_def schemaType_def mergeObject_def collect_name_def isUnsafeConfigKey_def
      UNSAFE_CONFIG_KEYS_def field_step_def child_contributions_def List.map_filter_simps propertySchema_def
      as_node_def isKnownSchemaType_def take_winner_def safeAssign_def obj_put_def is_array_index_def
      is_digit_char_def stamp_def set_provenance_def provenanceOf_def provenanceFor.simps update_conv Let_def
      del: mergeNode.simps)

end
