(* ===== verification/Config_Resolve.thy ===== *)
theory Config_Resolve
  imports Config_Merge
begin

text \<open>
  The front door of the config pipeline: \<open>src/clients/config-core/resolve.ts\<close>. Every source is
  validated with one shared collector, then the validated sources are merged.

  Neither half throws in the model, so \<open>resolveConfig\<close> is the try block; the catch block is the
  separate definition \<open>resolve_failed\<close>, which takes the class name of the error.

  The properties are about whole documents: what a deny-annotated or a plain leaf resolves to in
  terms of the raw files, that the result is clean, and that every leaf can be attributed.
\<close>

section \<open>Definitions\<close>

record resolution =
  rs_resolved :: resolved
  rs_records :: "migration_record list"
  rs_droppedRecordCount :: int

text \<open>The last source of the list, when it has a file name.\<close>

definition anchorSource :: "config_source list \<Rightarrow> (string \<times> source_tier) option" where
  "anchorSource sources =
     (if sources = [] then None
      else case src_file (last sources) of
             None \<Rightarrow> None
           | Some file \<Rightarrow> Some (file, src_tier (last sources)))"

definition normalize_source ::
  "merge_env \<Rightarrow> schema \<Rightarrow> config_source list \<times> collector \<Rightarrow> config_source \<Rightarrow> config_source list \<times> collector" where
  "normalize_source env schema st source =
     (let (normalized, c) = st;
          (v, c') = validate (walk_env.truncate env) (src_value source) schema
                      \<lparr>wc_file = (case src_file source of None \<Rightarrow> [] | Some f \<Rightarrow> f),
                       wc_tier = Some (src_tier source)\<rparr> c
      in (normalized @ [source\<lparr>src_value := v\<rparr>], c'))"

definition resolution_of :: "resolved \<Rightarrow> collector \<Rightarrow> resolution" where
  "resolution_of r c =
     \<lparr>rs_resolved = r, rs_records = kept c, rs_droppedRecordCount = dropped c\<rparr>"

definition new_resolution_collector :: "int option \<Rightarrow> collector" where
  "new_resolution_collector maxRecords =
     new_MigrationRecordCollector (case maxRecords of None \<Rightarrow> int MAX_MIGRATION_RECORDS | Some n \<Rightarrow> n) 0"

definition resolveConfig ::
  "merge_env \<Rightarrow> config_source list \<Rightarrow> schema \<Rightarrow> int option \<Rightarrow> resolution" where
  "resolveConfig env sources schema maxRecords =
     (let (normalized, c) = foldl (normalize_source env schema) ([], new_resolution_collector maxRecords) sources;
          (r, c') = merge (env\<lparr>me_file := []\<rparr>) normalized schema c
      in resolution_of r c')"

definition resolve_failed ::
  "merge_env \<Rightarrow> config_source list \<Rightarrow> schema \<Rightarrow> collector \<Rightarrow> string \<Rightarrow> resolution" where
  "resolve_failed env sources schema c errorClass =
     (let anchor = anchorSource sources;
          file = (case anchor of None \<Rightarrow> [] | Some (f, t) \<Rightarrow> f);
          c' = mrc_add c \<lparr>mr_code = CFG_0008, mr_file = file, mr_key = [],
                          mr_subject = migrationSubject file [], mr_reason = ResolutionFailed errorClass,
                          mr_tier = map_option snd anchor\<rparr>;
          (r, _) = merge (env\<lparr>me_file := []\<rparr>) [] schema (new_MigrationRecordCollector (int MAX_MIGRATION_RECORDS) 0)
      in resolution_of r c')"

section \<open>Validated sources\<close>

text \<open>What validation makes of one source, with no collector.\<close>

definition validated :: "merge_env \<Rightarrow> schema \<Rightarrow> config_source \<Rightarrow> jval" where
  "validated env schema source =
     (case normal_form (walk_env.truncate env) 33 (src_value source) (Some schema) of
        None \<Rightarrow> JUndef | Some v \<Rightarrow> v)"

lemma normalize_sources:
  "list_all (\<lambda>s. wf_value (src_value s)) sources \<Longrightarrow>
     fst (foldl (normalize_source env schema) (acc, c) sources) =
     acc @ map (\<lambda>s. s\<lparr>src_value := validated env schema s\<rparr>) sources"
proof (induction sources arbitrary: acc c)
  case (Cons s sources)
  obtain acc' c' where step: "normalize_source env schema (acc, c) s = (acc', c')" by fastforce
  moreover have "acc' = acc @ [s\<lparr>src_value := validated env schema s\<rparr>]"
    using step Cons.prems
    by (auto simp: normalize_source_def validated_def validate_spec(1) case_prod_beta Let_def)
  ultimately show ?case using Cons by simp
qed simp

lemma we_re_truncate [simp]: "we_re (walk_env.truncate env) = we_re env"
  by (simp add: walk_env.defs)

definition resolved_contributions :: "merge_env \<Rightarrow> schema \<Rightarrow> config_source list \<Rightarrow> contribution list" where
  "resolved_contributions env schema sources =
     source_contributions (map (\<lambda>s. s\<lparr>src_value := validated env schema s\<rparr>) sources)"

lemma resolveConfig_value:
  assumes "list_all (\<lambda>s. wf_value (src_value s)) sources"
  shows "res_value (rs_resolved (resolveConfig env sources schema maxRecords)) =
    fst (mergeNode (env\<lparr>me_file := []\<rparr>) 33 (resolved_contributions env schema sources) (Some schema) key ctx)"
proof -
  obtain ns c where n: "foldl (normalize_source env schema) ([], new_resolution_collector maxRecords) sources = (ns, c)"
    by fastforce
  with normalize_sources [OF assms, of env schema "[]" "new_resolution_collector maxRecords"]
  have "ns = map (\<lambda>s. s\<lparr>src_value := validated env schema s\<rparr>) sources" by simp
  then have "res_value (rs_resolved (resolveConfig env sources schema maxRecords)) =
      fst (mergeNode (env\<lparr>me_file := []\<rparr>) 33 (resolved_contributions env schema sources) (Some schema) []
        \<lparr>mc_provenance = [], mc_collector = c\<rparr>)"
    by (simp add: resolveConfig_def n merge_def MAX_CONFIG_DEPTH_def resolution_of_def Let_def case_prod_beta
        resolved_contributions_def del: mergeNode.simps)
  then show ?thesis by (simp only: context_freeD [OF mergeNode_context_free])
qed

lemma validated_clean:
  "wf_value (src_value s) \<Longrightarrow> validated env schema s = JUndef \<or> clean 33 (validated env schema s)"
  by (auto simp: validated_def dest: normal_form_clean split: option.splits)

lemma source_contributions_map_filter:
  "\<exists>ranked. map fst ranked = sort_key (\<lambda>source. tierPrecedence (src_tier source)) sources \<and>
     source_contributions sources = List.map_filter
       (\<lambda>(source, rank). if src_value source = JUndef then None
          else Some \<lparr>co_source = source, co_value = src_value source, co_rank = rank\<rparr>) ranked"
  by (rule exI [of _ "zip (sort_key (\<lambda>source. tierPrecedence (src_tier source)) sources)
        [0..<length (sort_key (\<lambda>source. tierPrecedence (src_tier source)) sources)]"])
    (simp add: source_contributions_def Let_def)

lemma set_source_contributions:
  "c \<in> set (source_contributions sources) \<Longrightarrow>
     co_source c \<in> set sources \<and> co_value c = src_value (co_source c) \<and> co_value c \<noteq> JUndef"
  by (auto simp: source_contributions_def Let_def set_map_filter_iff split: if_splits dest!: set_zip_leftD)

lemma resolved_contributions_clean:
  assumes "list_all (\<lambda>s. wf_value (src_value s)) sources"
  shows "all_clean 33 (resolved_contributions env schema sources)"
  unfolding all_clean_def list_all_iff
proof
  fix c assume "c \<in> set (resolved_contributions env schema sources)"
  with set_source_contributions [of c] assms validated_clean [of _ env schema] show "clean 33 (co_value c)"
    by (fastforce simp: resolved_contributions_def list_all_iff)
qed

section \<open>Paths through contributions\<close>

fun get_path :: "jval \<Rightarrow> string list \<Rightarrow> jval option" where
  "get_path v [] = Some v"
| "get_path v (k # ks) = Option.bind (map_of (obj_of v) k) (\<lambda>x. get_path x ks)"

lemma at_path_get_path: "at_path v p = (case get_path v p of None \<Rightarrow> JUndef | Some x \<Rightarrow> x)"
  by (induction v p rule: at_path.induct) (auto split: option.splits)

definition at_contribution :: "string list \<Rightarrow> contribution \<Rightarrow> contribution option" where
  "at_contribution p c =
     map_option (\<lambda>x. \<lparr>co_source = co_source c, co_value = x, co_rank = co_rank c\<rparr>) (get_path (co_value c) p)"

lemma map_filter_map_filter:
  "List.map_filter g (List.map_filter f xs) = List.map_filter (\<lambda>x. Option.bind (f x) g) xs"
  by (induction xs) (auto simp: List.map_filter_simps split: option.splits)

lemma map_filter_filter: "List.map_filter f (filter P xs) = List.map_filter (\<lambda>x. if P x then f x else None) xs"
  by (induction xs) (auto simp: List.map_filter_simps split: option.splits)

lemma project_at: "project cs p = List.map_filter (at_contribution p) cs"
proof (induction p arbitrary: cs)
  case Nil
  have "at_contribution [] = Some" by (simp add: at_contribution_def fun_eq_iff)
  then show ?case by (simp add: List.map_filter_def)
next
  case (Cons k p)
  have "Option.bind (if isConfigObject (co_value c) then map_option (\<lambda>v. \<lparr>co_source = co_source c, co_value = v, co_rank = co_rank c\<rparr>)
          (map_of (obj_of (co_value c)) k) else None) (at_contribution p) = at_contribution (k # p) c" for c
    by (cases "co_value c"; cases "map_of (obj_of (co_value c)) k") (auto simp: at_contribution_def)
  then show ?case
    by (simp add: Cons.IH child_contributions_def map_filter_filter map_filter_map_filter)
qed

lemma resolve_at_path:
  assumes "list_all (\<lambda>s. wf_value (src_value s)) sources"
    and "object_path (we_re env) (Some schema) p" and "length p \<le> 32"
  shows "at_path (res_value (rs_resolved (resolveConfig env sources schema maxRecords))) p =
    fst (mergeNode (env\<lparr>me_file := []\<rparr>) (Suc (32 - length p))
      (List.map_filter (at_contribution p) (resolved_contributions env schema sources))
      (schema_at (we_re env) (Some schema) p) key ctx)"
proof -
  have "33 = Suc (32 - length p) + length p" using assms(3) by simp
  then show ?thesis
    using mergeNode_at_path [of "env\<lparr>me_file := []\<rparr>" "Some schema" p "Suc (32 - length p)"
        "resolved_contributions env schema sources" key ctx key ctx] assms(2)
    unfolding resolveConfig_value [OF assms(1), of env schema maxRecords key ctx] project_at
    by (simp del: mergeNode.simps)
qed

text \<open>Validation acts on the value at a path as the schema at that path says.\<close>

lemma keep_field_lookup:
  assumes "child_schema env s k = Some cs"
  shows "distinct (map fst fs) \<Longrightarrow>
    map_of (List.map_filter (keep_field nf env s) fs) k = Option.bind (map_of fs k) (\<lambda>x. nf x cs)"
proof (induction fs)
  case (Cons e fs)
  have "map_of (List.map_filter (keep_field nf env s) fs) k = None" if "fst e = k"
  proof -
    from that Cons.prems have "map_of fs k = None" by (simp add: map_of_eq_None_iff)
    with Cons show ?thesis by simp
  qed
  then show ?case
    using Cons assms
    by (cases e; cases "keep_field nf env s e")
      (auto simp: List.map_filter_simps keep_field_def split: option.splits if_splits)
qed (simp add: List.map_filter_simps)

lemma schemaType_node: "schemaType s = Some t \<Longrightarrow> \<exists>node. s = Some node"
  by (cases s) (simp_all add: schemaType_def node_get_def)

lemma object_path_child:
  assumes "object_path re s (k # p)" and "schema_at re s (k # p) = Some leaf"
  obtains cs where "propertySchema re s k = Some cs"
  using assms by (cases p) (auto dest: schemaType_node)

lemma normal_form_get_path:
  assumes "object_path (we_re env) s p" and "schema_at (we_re env) s p = Some leaf" and "wf_value v"
  shows "Option.bind (normal_form env (n + length p) v s) (\<lambda>w. get_path w p) =
    Option.bind (get_path v p) (\<lambda>x. normal_form env n x (Some leaf))"
  using assms
proof (induction p arbitrary: s v)
  case (Cons k p)
  then have kind: "node_kind_of v s = ObjectNode s" by (simp add: node_kind_of_def)
  obtain cs where cs: "propertySchema (we_re env) s k = Some cs"
    using object_path_child [OF Cons.prems(1,2)] .
  with Cons.prems(1) have child: "child_schema env s k = Some (Some cs)"
    by (simp add: child_schema_def effective_schema_def)
  show ?case
  proof (cases "\<exists>fs. v = JObj fs")
    case False
    then have "obj_of v = []" by (cases v) simp_all
    with False kind show ?thesis by (cases v) (simp_all add: normal_form_Suc_apply)
  next
    case True
    then obtain fs where v: "v = JObj fs" by blast
    let ?kept = "List.map_filter (keep_field (normal_form env (n + length p)) env s) fs"
    have nf: "normal_form env (n + length (k # p)) v s = Some (JObj ?kept)"
      using kind by (simp add: v)
    have look: "map_of ?kept k = Option.bind (map_of fs k) (\<lambda>x. normal_form env (n + length p) x (Some cs))"
      using Cons.prems(3) by (intro keep_field_lookup [OF child]) (simp add: v)
    show ?thesis
    proof (cases "map_of fs k")
      case None
      then show ?thesis unfolding nf by (simp add: v look)
    next
      case (Some x)
      from map_of_SomeD [OF Some] Cons.prems(3) have "wf_value x" by (auto simp: v list_all_iff)
      from Cons.IH [OF _ _ this, of "Some cs"] Cons.prems cs Some show ?thesis
        unfolding nf by (simp add: v look)
    qed
  qed
qed simp

section \<open>The contributions at a leaf, in terms of the raw files\<close>

lemma insort_key_map: "insort_key f (g x) (map g xs) = map g (insort_key (f \<circ> g) x xs)"
  by (induction xs) simp_all

lemma sort_key_map: "sort_key f (map g xs) = map g (sort_key (f \<circ> g) xs)"
  by (induction xs) (simp_all add: insort_key_map comp_def)

text \<open>What one source says at a leaf after validation.\<close>

definition says :: "merge_env \<Rightarrow> string list \<Rightarrow> schema \<Rightarrow> config_source \<Rightarrow> jval option" where
  "says env p leaf s =
     Option.bind (get_path (src_value s) p)
       (\<lambda>x. normal_form (walk_env.truncate env) (Suc (32 - length p)) x (Some leaf))"

lemma validated_get_path:
  assumes "wf_value (src_value s)" and "object_path (we_re env) (Some schema) p"
    and "schema_at (we_re env) (Some schema) p = Some leaf" and "length p \<le> 32"
  shows "(if validated env schema s = JUndef then None else get_path (validated env schema s) p) = says env p leaf s"
proof -
  have "33 = Suc (32 - length p) + length p" using assms(4) by simp
  then have "Option.bind (normal_form (walk_env.truncate env) 33 (src_value s) (Some schema)) (\<lambda>w. get_path w p) =
      says env p leaf s"
    using normal_form_get_path [of "walk_env.truncate env" "Some schema" p leaf "src_value s" "Suc (32 - length p)"]
      assms unfolding says_def by simp
  then show ?thesis
    by (cases "normal_form (walk_env.truncate env) 33 (src_value s) (Some schema)")
      (auto simp: validated_def dest: normal_form_defined)
qed

lemma map_filter_cong: "(\<And>x. x \<in> set xs \<Longrightarrow> f x = g x) \<Longrightarrow> List.map_filter f xs = List.map_filter g xs"
  by (induction xs) (simp_all add: List.map_filter_simps split: option.splits)

lemma map_map_filter_zip:
  "length xs = length ys \<Longrightarrow>
     map h (List.map_filter (\<lambda>(x, y). f x y) (zip xs ys)) = List.map_filter (\<lambda>(x, y). map_option h (f x y)) (zip xs ys)"
  by (induction xs ys rule: list_induct2) (auto simp: List.map_filter_simps split: option.splits)

lemma map_filter_zip_fst:
  "length xs = length ys \<Longrightarrow> List.map_filter (\<lambda>(x, y). g x) (zip xs ys) = List.map_filter g xs"
  by (induction xs ys rule: list_induct2) (auto simp: List.map_filter_simps split: option.splits)

lemma map_filter_map: "List.map_filter f (map g xs) = List.map_filter (f \<circ> g) xs"
  by (induction xs) (auto simp: List.map_filter_simps split: option.splits)

text \<open>
  Any view \<open>h\<close> of the contributions at a leaf that ignores the rank lists what the sources say
  there, in tier order.
\<close>

lemma leaf_contributions:
  assumes wf: "list_all (\<lambda>s. wf_value (src_value s)) sources" and path: "object_path (we_re env) (Some schema) p"
    and leaf: "schema_at (we_re env) (Some schema) p = Some leaf" "length p \<le> 32"
    and h: "\<And>s v x r. h \<lparr>co_source = s\<lparr>src_value := v\<rparr>, co_value = x, co_rank = r\<rparr> = h' s x"
  shows "map h (List.map_filter (at_contribution p) (resolved_contributions env schema sources)) =
    List.map_filter (\<lambda>s. map_option (h' s) (says env p leaf s))
      (sort_key (\<lambda>source. tierPrecedence (src_tier source)) sources)"
proof -
  let ?v = "\<lambda>s. s\<lparr>src_value := validated env schema s\<rparr>"
  define ss where "ss = sort_key (\<lambda>source. tierPrecedence (src_tier source)) sources"
  have ss: "sort_key (\<lambda>source. tierPrecedence (src_tier source)) (map ?v sources) = map ?v ss"
    by (simp add: sort_key_map ss_def comp_def)
  let ?f = "\<lambda>source rank. if src_value source = JUndef then None
      else at_contribution p \<lparr>co_source = source, co_value = src_value source, co_rank = rank\<rparr>"
  let ?ranks = "[0..<length ss]"
  have "List.map_filter (at_contribution p) (resolved_contributions env schema sources) =
      List.map_filter (\<lambda>(source, rank). ?f source rank) (zip (map ?v ss) ?ranks)"
    unfolding resolved_contributions_def source_contributions_def Let_def ss map_filter_map_filter
    by (rule map_filter_cong [THEN trans [rotated]]) (auto split: if_splits)
  then have "map h (List.map_filter (at_contribution p) (resolved_contributions env schema sources)) =
      List.map_filter (\<lambda>(source, rank). map_option h (?f source rank)) (zip (map ?v ss) ?ranks)"
    by (simp add: map_map_filter_zip)
  also have "\<dots> = List.map_filter (\<lambda>(s, rank). map_option (h' s) (says env p leaf s)) (zip ss ?ranks)"
  proof -
    have "map_option h (?f (?v s) rank) = map_option (h' s) (says env p leaf s)" if "s \<in> set ss" for s rank
    proof -
      from that wf have "wf_value (src_value s)" by (simp add: ss_def list_all_iff)
      from validated_get_path [OF this path leaf, symmetric] show ?thesis
        by (simp add: at_contribution_def option.map_comp comp_def h)
    qed
    then show ?thesis
      unfolding zip_map1 map_filter_map by (intro map_filter_cong) (auto dest!: set_zip_leftD)
  qed
  also have "\<dots> = List.map_filter (\<lambda>s. map_option (h' s) (says env p leaf s)) ss"
    by (rule map_filter_zip_fst) simp
  finally show ?thesis by (simp only: ss_def)
qed

section \<open>Attribution\<close>

lemma explained_at:
  "explained m key v \<Longrightarrow> get_path v p = Some x \<Longrightarrow> \<not> isConfigObject x \<Longrightarrow>
     \<exists>q r. p = q @ r \<and> jm_has m (key @ pointer_of q)"
proof (induction p arbitrary: key v)
  case Nil
  then show ?case by (cases v) (auto intro!: exI [of _ "[]"])
next
  case (Cons k p)
  show ?case
  proof (cases "jm_has m key")
    case True
    then show ?thesis by (intro exI [of _ "[]"] exI [of _ "k # p"]) simp
  next
    case False
    from Cons.prems(2) obtain y where y: "map_of (obj_of v) k = Some y" "get_path y p = Some x"
      by (auto simp: bind_eq_Some_conv)
    then obtain fs where v: "v = JObj fs" by (cases v) simp_all
    from y(1) map_of_SomeD have "(k, y) \<in> set fs" by (fastforce simp: v)
    with Cons.prems(1) False have "explained m (key @ ''/'' @ k) y" by (auto simp: v list_all_iff)
    from Cons.IH [OF this y(2) Cons.prems(3)] obtain q r where
      "p = q @ r" "jm_has m (key @ ''/'' @ k @ pointer_of q)" by auto
    then show ?thesis by (intro exI [of _ "k # q"] exI [of _ r]) simp
  qed
qed

lemma pointer_of_hd: "pointer_of r = [] \<or> hd (pointer_of r) = CHR ''/''"
  by (cases r) simp_all

lemma resolveConfig_provenance:
  fixes env schema maxRecords sources
  assumes wf: "list_all (\<lambda>s. wf_value (src_value s)) sources"
  defines "r \<equiv> rs_resolved (resolveConfig env sources schema maxRecords)"
  defines "S \<equiv> (\<lambda>s. s\<lparr>src_value := validated env schema s\<rparr>) ` set sources"
  shows "prov_ok S (res_provenance r)" and "res_value r \<noteq> JUndef \<Longrightarrow> explained (res_provenance r) [] (res_value r)"
proof -
  obtain ns c where n: "foldl (normalize_source env schema) ([], new_resolution_collector maxRecords) sources = (ns, c)"
    by fastforce
  with normalize_sources [OF wf, of env schema "[]" "new_resolution_collector maxRecords"]
  have ns: "ns = map (\<lambda>s. s\<lparr>src_value := validated env schema s\<rparr>) sources" by simp
  obtain v ctx where m: "mergeNode (env\<lparr>me_file := []\<rparr>) 33 (source_contributions ns) (Some schema) []
      \<lparr>mc_provenance = [], mc_collector = c\<rparr> = (v, ctx)" by fastforce
  have r: "res_value r = v" "res_provenance r = mc_provenance ctx"
    using m by (simp_all add: r_def resolveConfig_def n merge_def MAX_CONFIG_DEPTH_def resolution_of_def
        Let_def case_prod_beta del: mergeNode.simps)
  have "co_source ` set (source_contributions ns) \<subseteq> S"
    by (auto simp: S_def ns dest!: set_source_contributions)
  note ok = explainsD [OF mergeNode_explains this m]
  from ok(1) show "prov_ok S (res_provenance r)" by (simp add: r prov_step_def prov_ok_def)
  from ok(2) show "res_value r \<noteq> JUndef \<Longrightarrow> explained (res_provenance r) [] (res_value r)" by (simp add: r)
qed

section \<open>Properties\<close>

text \<open>A small catalog for the concrete instances: a deny switch and a plain string.\<close>

definition demo_schema :: schema where
  "demo_schema =
     [(''type'', JStr ''object''),
      (''properties'', JObj
         [(''lsp'', JObj [(''type'', JStr ''boolean''), (''x-deny'', JStr ''boolean-false'')]),
          (''theme'', JObj [(''type'', JStr ''string'')])])]"

definition demo_env :: merge_env where
  "demo_env = \<lparr>we_re = \<lambda>_. None, we_redact = (\<lambda>s. s), me_file = []\<rparr>"

definition demo_source :: "source_tier \<Rightarrow> jobj \<Rightarrow> config_source" where
  "demo_source tier fs =
     \<lparr>src_tier = tier, src_file = Some ''pi-lens.json'', src_trust = None, src_value = JObj fs\<rparr>"

definition demo_global :: config_source where
  "demo_global = demo_source Global [(''lsp'', JBool False), (''theme'', JStr ''dark'')]"

definition demo_project :: config_source where
  "demo_project = demo_source Project [(''lsp'', JBool True), (''theme'', JStr ''light'')]"

lemmas demo_defs = demo_schema_def demo_env_def demo_source_def demo_global_def demo_project_def

text \<open>The votes on a deny leaf: the booleans the raw sources hold at its path.\<close>

definition deny_votes :: "config_source list \<Rightarrow> string list \<Rightarrow> deny_contribution set" where
  "deny_votes sources p =
     {\<lparr>dc_tier = src_tier s, dc_file = src_file s, dc_trust = src_trust s, dc_value = JBool b\<rparr> | s b.
        s \<in> set sources \<and> get_path (src_value s) p = Some (JBool b)}"

text \<open>A path to a boolean leaf annotated \<open>x-deny: boolean-false\<close>, without an enumeration.\<close>

definition deny_leaf :: "merge_env \<Rightarrow> schema \<Rightarrow> string list \<Rightarrow> bool" where
  "deny_leaf env schema p \<longleftrightarrow>
     object_path (we_re env) (Some schema) p \<and> length p \<le> 32 \<and>
     (case schema_at (we_re env) (Some schema) p of
        None \<Rightarrow> False
      | Some leaf \<Rightarrow> schemaType (Some leaf) = Some ''boolean'' \<and>
          denyPolicyOf (Some leaf) = Some BooleanFalse \<and> \<not> isArray (node_get (Some leaf) ''enum''))"

lemma boolean_normal_form:
  assumes "schemaType (Some leaf) = Some ''boolean''" and "\<not> isArray (node_get (Some leaf) ''enum'')"
  shows "normal_form env (Suc n) x (Some leaf) = Some y \<longleftrightarrow> x = y \<and> (\<exists>b. y = JBool b)"
proof -
  have "node_kind_of x (Some leaf) = ScalarNode (\<lambda>v. scalar_check ''boolean'' v \<and>
      too_short ''boolean'' (Some leaf) v = None \<and> enum_ok v (Some leaf))"
    using assms by (simp add: node_kind_of_def isKnownSchemaType_def SCHEMA_TYPES_def)
  moreover have "enum_ok v (Some leaf)" for v
    using assms(2) by (cases "node_get (Some leaf) ''enum''") (simp_all add: enum_ok_def)
  moreover have "scalar_check ''boolean'' v \<longleftrightarrow> (\<exists>b. v = JBool b)" for v by (cases v) simp_all
  moreover have "too_short ''boolean'' (Some leaf) v = None" for v
    by (cases "node_get (Some leaf) ''minLength''"; cases v) (simp_all add: too_short_def)
  ultimately show ?thesis by auto
qed

lemma resolved_deny_value:
  assumes wf: "list_all (\<lambda>s. wf_value (src_value s)) sources" and "deny_leaf env schema p"
  shows "\<exists>cs. at_path (res_value (rs_resolved (resolveConfig env sources schema maxRecords))) p =
      dr_value (resolveBooleanDeny cs) \<and> set cs = deny_votes sources p"
proof -
  obtain leaf where path: "object_path (we_re env) (Some schema) p" "length p \<le> 32"
    and leaf: "schema_at (we_re env) (Some schema) p = Some leaf"
    and bool: "schemaType (Some leaf) = Some ''boolean''" "\<not> isArray (node_get (Some leaf) ''enum'')"
    and deny: "denyPolicyOf (Some leaf) = Some BooleanFalse"
    using assms(2) by (auto simp: deny_leaf_def split: option.splits)
  define ls where "ls = List.map_filter (at_contribution p) (resolved_contributions env schema sources)"
  define cs where "cs = map deny_contribution_of ls"
  have "cs = List.map_filter (\<lambda>s. map_option (\<lambda>x. \<lparr>dc_tier = src_tier s, dc_file = src_file s,
      dc_trust = src_trust s, dc_value = x\<rparr>) (says env p leaf s))
      (sort_key (\<lambda>source. tierPrecedence (src_tier source)) sources)"
    unfolding cs_def ls_def
    by (rule leaf_contributions [OF wf path(1) leaf path(2)]) (simp add: deny_contribution_of_def)
  then have "set cs = deny_votes sources p"
    by (auto simp: set_map_filter_iff says_def deny_votes_def boolean_normal_form [OF bool] bind_eq_Some_conv
        simp del: normal_form.simps) blast
  moreover have "at_path (res_value (rs_resolved (resolveConfig env sources schema maxRecords))) p =
      fst (mergeNode (env\<lparr>me_file := []\<rparr>) (Suc (32 - length p)) ls (Some leaf) [] \<lparr>mc_provenance = [], mc_collector = new_resolution_collector maxRecords\<rparr>)"
    using resolve_at_path [OF wf path] by (simp only: ls_def leaf)
  then have "at_path (res_value (rs_resolved (resolveConfig env sources schema maxRecords))) p =
      dr_value (resolveBooleanDeny cs)"
    using deny by (auto simp: mergeDeny_def Let_def cs_def resolveBooleanDeny_def [of "[]"])
  ultimately show ?thesis by blast
qed

lemma resolved_denial_iff:
  assumes "list_all (\<lambda>s. wf_value (src_value s)) sources" and "deny_leaf env schema p"
  shows "at_path (res_value (rs_resolved (resolveConfig env sources schema maxRecords))) p = JBool False \<longleftrightarrow>
    deny_in_force (deny_votes sources p)"
  using resolved_deny_value [OF assms, of maxRecords]
  by (metis resolveBooleanDeny_value resolveBooleanDeny_denied)

lemma demo_wf:
  "wf_value (src_value demo_global)" "wf_value (src_value demo_project)"
  by (simp_all add: demo_defs is_array_index_def is_digit_char_def)

lemma demo_lsp_path: "deny_leaf demo_env demo_schema [''lsp'']"
  by (simp add: deny_leaf_def demo_defs schemaType_def node_get_def denyPolicyOf_def propertySchema_def
      isUnsafeConfigKey_def UNSAFE_CONFIG_KEYS_def)

lemma demo_global_denies: "deny_in_force (deny_votes [demo_global] [''lsp''])"
  by (auto simp: deny_in_force_def deny_votes_def demo_defs denial_def isOperatorTier_def)

text \<open>
  The rule as \<open>clients/config-core/deny.ts\<close> puts it in one sentence: a denial from an operator
  tier is never lifted, and a denial from any other tier is lifted only by an explicit operator
  allow of higher precedence. So some denial stands.
\<close>

definition documented_denial :: "deny_contribution set \<Rightarrow> bool" where
  "documented_denial C \<longleftrightarrow>
     (\<exists>d \<in> C. denial d \<and>
        (isOperatorTier (dc_tier d) \<or> \<not> (\<exists>a \<in> C. operator_allow a \<and> dc_tier d < dc_tier a)))"

text \<open>Where the code parts from it: a shipped denial that an operator allow lifts takes all others along.\<close>

definition shipped_denial_lifted :: "deny_contribution set \<Rightarrow> bool" where
  "shipped_denial_lifted C \<longleftrightarrow>
     (\<exists>d \<in> C. denial d \<and> dc_tier d = Builtin) \<and> (\<exists>a \<in> C. operator_allow a) \<and>
     \<not> (\<exists>d \<in> C. denial d \<and> isOperatorTier (dc_tier d))"

lemma allow_above_repo:
  "operator_allow a \<Longrightarrow> \<not> isOperatorTier (dc_tier d) \<Longrightarrow> \<not> isOperatorTier (dc_tier d') \<Longrightarrow>
   dc_tier d' \<noteq> Builtin \<Longrightarrow> dc_tier d' < dc_tier a \<Longrightarrow> dc_tier d < dc_tier a"
  by (cases "dc_tier d"; cases "dc_tier a"; cases "dc_tier d'")
     (auto simp: tier_order_simps isOperatorTier_def operator_allow_def)

lemma allow_above_builtin: "operator_allow a \<Longrightarrow> dc_tier d = Builtin \<Longrightarrow> dc_tier d < dc_tier a"
  by (cases "dc_tier a") (auto simp: tier_order_simps isOperatorTier_def operator_allow_def)

lemma deny_in_force_documented:
  "deny_in_force C \<longleftrightarrow> documented_denial C \<and> \<not> shipped_denial_lifted C"
proof (cases "\<exists>d \<in> C. denial d \<and> isOperatorTier (dc_tier d)")
  case True
  then show ?thesis unfolding deny_in_force_def documented_denial_def shipped_denial_lifted_def by blast
next
  case False
  have "documented_denial C \<and> \<not> shipped_denial_lifted C \<Longrightarrow> deny_in_force C"
    using False allow_above_repo unfolding deny_in_force_def documented_denial_def shipped_denial_lifted_def by blast
  moreover have "deny_in_force C \<Longrightarrow> documented_denial C \<and> \<not> shipped_denial_lifted C"
    using False allow_above_builtin unfolding deny_in_force_def documented_denial_def shipped_denial_lifted_def by blast
  ultimately show ?thesis by blast
qed

text \<open>
  C24: what the whole pipeline makes of a deny-annotated switch. For any files, whatever else they
  contain, the resolved value at the path of a boolean deny leaf is \<open>false\<close> exactly when the
  documented rule leaves a denial standing among the booleans the files hold at that path,
  with one exception: when the built-in default denies, some operator tier allows and no
  operator tier denies, the value is not \<open>false\<close>, also where the rule keeps the denial of a
  project that no allow of higher precedence lifts.
\<close>

theorem resolved_denial_exact:
  assumes "list_all (\<lambda>s. wf_value (src_value s)) sources" and "deny_leaf env schema p"
  shows "at_path (res_value (rs_resolved (resolveConfig env sources schema maxRecords))) p = JBool False \<longleftrightarrow>
    documented_denial (deny_votes sources p) \<and> \<not> shipped_denial_lifted (deny_votes sources p)"
  unfolding deny_in_force_documented [symmetric] by (rule resolved_denial_iff [OF assms])

theorem resolved_denial_exact_witness:
  "at_path (res_value (rs_resolved (resolveConfig demo_env [demo_global] demo_schema None))) [''lsp''] = JBool False"
  using resolved_denial_exact [OF _ demo_lsp_path, of "[demo_global]" None] demo_wf
    demo_global_denies [unfolded deny_in_force_documented] by simp

text \<open>
  C3: a checkout cannot re-enable what is denied. If a set of sources resolves a deny switch to
  \<open>false\<close>, then adding any files of the repository tiers, whatever they contain and wherever they
  stand in the list, still resolves it to \<open>false\<close>.
\<close>

theorem checkout_cannot_reenable:
  assumes "list_all (\<lambda>s. wf_value (src_value s)) sources'" and "deny_leaf env schema p"
    and "at_path (res_value (rs_resolved (resolveConfig env sources schema maxRecords))) p = JBool False"
    and keeps: "set sources \<subseteq> set sources'"
    and repo: "\<And>s. s \<in> set sources' - set sources \<Longrightarrow> isRepoTier (src_tier s)"
  shows "at_path (res_value (rs_resolved (resolveConfig env sources' schema maxRecords))) p = JBool False"
proof -
  have wf: "list_all (\<lambda>s. wf_value (src_value s)) sources" using assms(1) keeps by (auto simp: list_all_iff)
  have "deny_in_force (deny_votes sources p)"
    using assms(3) by (simp only: resolved_denial_iff [OF wf assms(2)])
  then have "deny_in_force (deny_votes sources' p)"
    by (rule deny_in_force_repo) (use keeps repo in \<open>fastforce simp: deny_votes_def\<close>)+
  then show ?thesis by (simp only: resolved_denial_iff [OF assms(1,2)])
qed

theorem checkout_cannot_reenable_witness:
  "at_path (res_value (rs_resolved (resolveConfig demo_env [demo_project, demo_global] demo_schema None))) [''lsp''] =
     JBool False"
proof (rule checkout_cannot_reenable [OF _ demo_lsp_path])
  show "at_path (res_value (rs_resolved (resolveConfig demo_env [demo_global] demo_schema None))) [''lsp''] = JBool False"
    using demo_wf demo_global_denies by (subst resolved_denial_iff [OF _ demo_lsp_path]) simp_all
qed (auto simp: demo_wf, simp add: demo_defs isRepoTier_def)

text \<open>
  plain settings are last-tier-wins. At the path of a scalar leaf without a deny annotation,
  the resolved value is the one held by the last source, in tier order with ties in list order,
  among those whose value there satisfies the leaf's schema, and absent when there is none.
\<close>

theorem plain_leaf_last_tier_wins:
  assumes wf: "list_all (\<lambda>s. wf_value (src_value s)) sources"
    and path: "object_path (we_re env) (Some schema) p" "length p \<le> 32"
    and leaf: "schema_at (we_re env) (Some schema) p = Some leaf" "denyPolicyOf (Some leaf) = None"
    and scalar: "schemaType (Some leaf) = Some t" "t \<in> {''string'', ''number'', ''integer'', ''boolean'', ''null''}"
  shows "at_path (res_value (rs_resolved (resolveConfig env sources schema maxRecords))) p =
    (let vs = List.map_filter
           (\<lambda>s. Option.bind (get_path (src_value s) p)
              (\<lambda>x. if scalar_check t x \<and> too_short t (Some leaf) x = None \<and> enum_ok x (Some leaf)
                   then Some x else None))
           (sort_key (\<lambda>s. tierPrecedence (src_tier s)) sources)
     in if vs = [] then JUndef else last vs)"
proof -
  have known: "isKnownSchemaType (Some t)" "t \<noteq> ''object''" "t \<noteq> ''array''"
    using scalar(2) by (auto simp: isKnownSchemaType_def SCHEMA_TYPES_def)
  have nf: "normal_form env' (Suc n) x (Some leaf) =
      (if scalar_check t x \<and> too_short t (Some leaf) x = None \<and> enum_ok x (Some leaf) then Some x else None)"
    for env' n x
    using known scalar(1) by (simp add: node_kind_of_def)
  define ls where "ls = List.map_filter (at_contribution p) (resolved_contributions env schema sources)"
  have vals: "map co_value ls = List.map_filter (\<lambda>s. map_option (\<lambda>x. x) (says env p leaf s))
      (sort_key (\<lambda>source. tierPrecedence (src_tier source)) sources)"
    unfolding ls_def by (rule leaf_contributions [OF wf path(1) leaf(1) path(2)]) simp
  have "at_path (res_value (rs_resolved (resolveConfig env sources schema maxRecords))) p =
      fst (mergeNode (env\<lparr>me_file := []\<rparr>) (Suc (32 - length p)) ls (Some leaf) []
        \<lparr>mc_provenance = [], mc_collector = new_resolution_collector maxRecords\<rparr>)"
    using resolve_at_path [OF wf path] by (simp only: ls_def leaf)
  also have "\<dots> = (if ls = [] then JUndef else last (map co_value ls))"
    using leaf(2) scalar(1) known
    by (simp add: isObjectNode_def isArrayNode_def take_winner_def Let_def last_map)
  also have "\<dots> = (if map co_value ls = [] then JUndef else last (map co_value ls))" by simp
  finally show ?thesis
    unfolding vals says_def nf Let_def by (simp add: option.map_id0 [unfolded id_def])
qed

theorem plain_leaf_last_tier_wins_witness:
  "at_path (res_value (rs_resolved (resolveConfig demo_env [demo_project, demo_global] demo_schema None))) [''theme''] =
     JStr ''light''"
proof -
  let ?leaf = "[(''type'', JStr ''string'')]"
  have path: "object_path (we_re demo_env) (Some demo_schema) [''theme'']"
    and leaf: "schema_at (we_re demo_env) (Some demo_schema) [''theme''] = Some ?leaf"
    and scalar: "schemaType (Some ?leaf) = Some ''string''" "denyPolicyOf (Some ?leaf) = None"
    by (simp_all add: demo_defs schemaType_def node_get_def denyPolicyOf_def propertySchema_def
        isUnsafeConfigKey_def UNSAFE_CONFIG_KEYS_def)
  have "at_path (res_value (rs_resolved (resolveConfig demo_env [demo_project, demo_global] demo_schema None))) [''theme''] =
      last [JStr ''dark'', JStr ''light'']"
    by (subst plain_leaf_last_tier_wins [OF _ path _ leaf scalar(2) scalar(1)])
      (simp_all add: demo_wf, simp add: demo_defs List.map_filter_simps too_short_def node_get_def enum_ok_def)
  then show ?thesis by simp
qed

text \<open>
  C26: whatever the files hold, the resolved configuration is clean: at most 33 levels deep,
  finite numbers, distinct keys, and no key that would modify an object prototype.
\<close>

theorem resolved_config_clean:
  assumes "list_all (\<lambda>s. wf_value (src_value s)) sources"
  shows "res_value (rs_resolved (resolveConfig env sources schema maxRecords)) = JUndef \<or>
    clean 33 (res_value (rs_resolved (resolveConfig env sources schema maxRecords)))"
  using clean_mergeNode [of 33 "env\<lparr>me_file := []\<rparr>"] resolved_contributions_clean [OF assms, of env schema]
  by (auto simp: clean_merger_def clean_or_absent_def resolveConfig_value [OF assms, where key = "[]"
        and ctx = "\<lparr>mc_provenance = [], mc_collector = new_resolution_collector maxRecords\<rparr>"])

theorem resolved_config_clean_witness:
  "res_value (rs_resolved (resolveConfig demo_env [demo_project, demo_global] demo_schema None)) = JUndef \<or>
    clean 33 (res_value (rs_resolved (resolveConfig demo_env [demo_project, demo_global] demo_schema None)))"
  by (rule resolved_config_clean) (simp add: demo_wf)

text \<open>
  every leaf can be attributed. For every value in the resolved configuration that is not an
  object, asking for the provenance of its pointer answers with the tier, the file and the trust
  decision of one of the sources.
\<close>

theorem every_leaf_attributed:
  assumes wf: "list_all (\<lambda>s. wf_value (src_value s)) sources"
    and leaf: "get_path (res_value (rs_resolved (resolveConfig env sources schema maxRecords))) p = Some x"
      "x \<noteq> JUndef" "\<not> isConfigObject x"
  shows "\<exists>e. \<exists>s \<in> set sources.
    provenanceFor (res_provenance (rs_resolved (resolveConfig env sources schema maxRecords))) (pointer_of p) = Some e \<and>
    prov_tier e = src_tier s \<and> prov_file e = src_file s \<and> prov_trust e = src_trust s"
proof -
  let ?r = "rs_resolved (resolveConfig env sources schema maxRecords)"
  have "res_value ?r \<noteq> JUndef" using leaf by (cases p) auto
  from explained_at [OF resolveConfig_provenance(2) [OF wf this] leaf(1,3)]
  obtain q r where q: "p = q @ r" "map_of (res_provenance ?r) (pointer_of q) \<noteq> None"
    by (auto simp: jm_has_def)
  from provenanceFor_below [OF q(2) pointer_of_hd [of r]] obtain e where
    e: "provenanceFor (res_provenance ?r) (pointer_of p) = Some e" by (auto simp: q(1))
  from provenanceFor_in [OF e] resolveConfig_provenance(1) [OF wf, of env schema maxRecords]
  have "from_sources ((\<lambda>s. s\<lparr>src_value := validated env schema s\<rparr>) ` set sources) e"
    by (auto simp: prov_ok_def)
  with e show ?thesis by (auto simp: from_sources_def)
qed

theorem every_leaf_attributed_witness:
  "\<exists>e. \<exists>s \<in> {demo_global}.
    provenanceFor (res_provenance (rs_resolved (resolveConfig demo_env [demo_global] demo_schema None))) ''/lsp'' = Some e \<and>
    prov_tier e = src_tier s"
proof -
  let ?v = "res_value (rs_resolved (resolveConfig demo_env [demo_global] demo_schema None))"
  have "at_path ?v [''lsp''] = JBool False"
    using demo_wf demo_global_denies by (subst resolved_denial_iff [OF _ demo_lsp_path]) simp_all
  then have "get_path ?v [''lsp''] = Some (JBool False)"
    by (simp add: at_path_get_path split: option.splits)
  from every_leaf_attributed [OF _ this] demo_wf show ?thesis by auto
qed

text \<open>
  The record of a failed resolution names the last source the caller listed, whatever its
  tier, and not the source of highest precedence.
\<close>

lemma failure_anchor_is_last_listed:
  "anchorSource [demo_source Cli [], demo_source Global []] = Some (''pi-lens.json'', Global) \<and> Global < Cli"
  by (simp add: anchorSource_def demo_source_def tier_order_simps)

end
