(* ===== verification/Line_Ranges.thy ===== *)
theory Line_Ranges
  imports Line_Evidence
begin

text \<open>
  Ranges of line numbers, as \<open>src/clients/read-guard.ts\<close> merges them in
  \<open>composeAuthoredRanges\<close> and in \<open>checkCoverage\<close>: sort by start, then extend the last merged
  range while the next one overlaps or touches it. Merging preserves the set of lines, and the
  result is separated, so a block of lines lies in one merged range exactly when each of its lines
  lies in one of the given ranges.
\<close>

definition merge_step :: "line_range list \<Rightarrow> line_range \<Rightarrow> line_range list" where
  "merge_step merged r =
     (if merged \<noteq> [] \<and> fst r \<le> snd (last merged) + 1
      then butlast merged @ [(fst (last merged), max (snd (last merged)) (snd r))]
      else merged @ [r])"

definition merge_ranges :: "line_range list \<Rightarrow> line_range list" where
  "merge_ranges rs = foldl merge_step [] (sort_key fst rs)"

definition lines_of :: "line_range list \<Rightarrow> int set" where
  "lines_of rs = (\<Union>r \<in> set rs. {fst r..snd r})"

definition within :: "line_range list \<Rightarrow> line_range \<Rightarrow> bool" where
  "within rs r = list_ex (\<lambda>m. fst r \<ge> fst m \<and> snd r \<le> snd m) rs"

section \<open>Lemmas\<close>

definition separated :: "line_range list \<Rightarrow> bool" where
  "separated rs = sorted_wrt (\<lambda>a b. snd a + 1 < fst b \<and> fst a \<le> fst b) rs"

lemma lines_of_simps [simp]:
  "lines_of [] = {}" "lines_of (r # rs) = {fst r..snd r} \<union> lines_of rs"
  "lines_of (rs @ rs') = lines_of rs \<union> lines_of rs'"
  by (auto simp: lines_of_def)

lemma merge_step_lines:
  assumes "merged \<noteq> [] \<Longrightarrow> fst (last merged) \<le> fst r"
  shows "lines_of (merge_step merged r) = lines_of merged \<union> {fst r..snd r}"
proof (cases "merged \<noteq> [] \<and> fst r \<le> snd (last merged) + 1")
  case True
  then obtain ms m where m: "merged = ms @ [m]" by (metis rev_exhaust)
  have "{fst m..max (snd m) (snd r)} = {fst m..snd m} \<union> {fst r..snd r}"
    using True assms by (auto simp: m)
  with True show ?thesis by (auto simp: merge_step_def m)
qed (auto simp: merge_step_def)

lemma merge_step_separated:
  assumes "separated merged" and "merged \<noteq> [] \<Longrightarrow> fst (last merged) \<le> fst r"
  shows "separated (merge_step merged r)"
    and "fst (last (merge_step merged r)) \<le> fst r"
proof -
  show "separated (merge_step merged r)"
  proof (cases merged rule: rev_cases)
    case Nil
    then show ?thesis by (simp add: merge_step_def separated_def)
  next
    case (snoc ms m)
    with assms have "sorted_wrt (\<lambda>a b. snd a + 1 < fst b \<and> fst a \<le> fst b) (ms @ [m])" "fst m \<le> fst r"
      by (simp_all add: separated_def)
    then show ?thesis by (force simp: snoc merge_step_def separated_def sorted_wrt_append)
  qed
  show "fst (last (merge_step merged r)) \<le> fst r" using assms(2) by (simp add: merge_step_def)
qed

lemma merge_fold:
  "sorted (map fst rs) \<Longrightarrow> separated merged \<Longrightarrow>
   (merged \<noteq> [] \<Longrightarrow> \<forall>r \<in> set rs. fst (last merged) \<le> fst r) \<Longrightarrow>
   separated (foldl merge_step merged rs) \<and>
   lines_of (foldl merge_step merged rs) = lines_of merged \<union> lines_of rs"
proof (induction rs arbitrary: merged)
  case (Cons r rs)
  then have r: "merged \<noteq> [] \<Longrightarrow> fst (last merged) \<le> fst r" by simp
  note step = merge_step_separated [OF Cons.prems(2) r]
  have "\<forall>r' \<in> set rs. fst (last (merge_step merged r)) \<le> fst r'"
    using step(2) Cons.prems(1) by force
  with Cons.IH [OF _ step(1)] Cons.prems(1) merge_step_lines [of merged r, OF r] show ?case by auto
qed simp

lemma merge_ranges_lines: "lines_of (merge_ranges rs) = lines_of rs"
  and merge_ranges_separated: "separated (merge_ranges rs)"
proof -
  have "lines_of (sort_key fst rs) = lines_of rs" by (simp add: lines_of_def)
  with merge_fold [of "sort_key fst rs" "[]"] show "lines_of (merge_ranges rs) = lines_of rs"
    "separated (merge_ranges rs)" by (simp_all add: merge_ranges_def separated_def)
qed

lemma within_lines: "within rs (a, b) \<Longrightarrow> {a..b} \<subseteq> lines_of rs"
proof -
  assume "within rs (a, b)"
  then obtain m where m: "m \<in> set rs" "fst m \<le> a" "b \<le> snd m" by (auto simp: within_def list_ex_iff)
  then have "{a..b} \<subseteq> {fst m..snd m}" by simp
  with m(1) show "{a..b} \<subseteq> lines_of rs" by (auto simp: lines_of_def)
qed

lemma separated_within:
  assumes sep: "separated rs" and "a \<le> b" and sub: "{a..b} \<subseteq> lines_of rs"
  shows "within rs (a, b)"
proof -
  obtain m where m: "m \<in> set rs" "fst m \<le> a" "a \<le> snd m"
    using assms by (fastforce simp: lines_of_def)
  have "b \<le> snd m"
  proof (rule ccontr)
    assume "\<not> b \<le> snd m"
    with m have "snd m + 1 \<in> {a..b}" by auto
    with sub obtain m' where m': "m' \<in> set rs" "fst m' \<le> snd m + 1" "snd m + 1 \<le> snd m'"
      by (fastforce simp: lines_of_def)
    from m(1) m'(1) obtain i j where ij: "i < length rs" "rs ! i = m" "j < length rs" "rs ! j = m'"
      by (auto simp: in_set_conv_nth)
    consider "i < j" | "i = j" | "j < i" by linarith
    then show False
      using sep ij m m' unfolding separated_def sorted_wrt_iff_nth_less by cases force+
  qed
  with m show ?thesis by (auto simp: within_def list_ex_iff)
qed

lemma within_merge_ranges: "a \<le> b \<Longrightarrow> within (merge_ranges rs) (a, b) \<longleftrightarrow> {a..b} \<subseteq> lines_of rs"
  using within_lines [of "merge_ranges rs" a b] separated_within [OF merge_ranges_separated, of a b rs]
  by (auto simp: merge_ranges_lines)

end
