(* ===== verification/Authored_Bytes.thy ===== *)
theory Authored_Bytes
  imports Line_Ranges
begin

text \<open>
  Session authorship evidence and the per-file record cap of \<open>src/clients/read-guard.ts\<close>: the
  identity of the bytes the conversation last wrote to a file, when they count as intact, which
  lines a partial write credits, and which records a full file gives up.

  The sha256 of a file's bytes is part of the disk observation. \<open>authoredBytesIntact\<close> refreshes
  the recorded times when only they moved, so it returns the updated entry.
\<close>

section \<open>Definitions\<close>

record authored_bytes =
  ab_size :: int
  ab_mtimeMs :: int
  ab_ctimeMs :: int
  ab_hash :: "string option"
  ab_toolCallId :: "string option"
  ab_retired :: bool
  ab_ranges :: "line_range list option"
  ab_lineCount :: "int option"

definition ABSENT_SIZE :: int where "ABSENT_SIZE = -1"

definition observeAuthoredBytes ::
  "disk \<Rightarrow> string \<Rightarrow> string option \<Rightarrow> line_range list option \<Rightarrow> authored_bytes" where
  "observeAuthoredBytes disk path knownHash authoredRanges =
     (case disk path of
        Some f \<Rightarrow>
          \<lparr>ab_size = df_size f, ab_mtimeMs = df_mtimeMs f, ab_ctimeMs = df_ctimeMs f,
           ab_hash = (case knownHash of
                        Some h \<Rightarrow> Some h
                      | None \<Rightarrow> if df_size f \<le> READ_BINDING_MAX_BYTES then Some (df_sha256 f) else None),
           ab_toolCallId = None, ab_retired = False, ab_ranges = authoredRanges,
           ab_lineCount = map_option (\<lambda>_. int (length (splitLines (df_text f)))) authoredRanges\<rparr>
      | None \<Rightarrow>
          \<lparr>ab_size = ABSENT_SIZE, ab_mtimeMs = 0, ab_ctimeMs = 0, ab_hash = None, ab_toolCallId = None,
           ab_retired = False, ab_ranges = None, ab_lineCount = None\<rparr>)"

definition composeAuthoredRanges ::
  "authored_bytes \<Rightarrow> line_range list \<Rightarrow> int option \<Rightarrow> line_range list" where
  "composeAuthoredRanges previous next_ranges nextLineCount =
     merge_ranges
       (if ab_lineCount previous \<noteq> None \<and> nextLineCount = ab_lineCount previous
        then (case ab_ranges previous of None \<Rightarrow> [] | Some rs \<Rightarrow> rs) @ next_ranges
        else next_ranges)"

definition authoredRangeCovers ::
  "authored_bytes \<Rightarrow> line_range option \<Rightarrow> line_range list option \<Rightarrow> bool" where
  "authoredRangeCovers authored touchedLines editRanges =
     (case ab_ranges authored of
        None \<Rightarrow> True
      | Some authoredRanges \<Rightarrow>
          (case (case editRanges of
                   Some rs \<Rightarrow> Some rs
                 | None \<Rightarrow> map_option (\<lambda>r. [r]) touchedLines) of
             None \<Rightarrow> False
           | Some requested \<Rightarrow> list_all (within authoredRanges) requested))"

definition authoredBytesIntact :: "disk \<Rightarrow> string \<Rightarrow> authored_bytes \<Rightarrow> bool \<times> authored_bytes" where
  "authoredBytesIntact disk path authored =
     (case disk path of
        None \<Rightarrow> (ab_size authored = ABSENT_SIZE, authored)
      | Some f \<Rightarrow>
          if df_size f = ab_size authored \<and> df_mtimeMs f = ab_mtimeMs authored \<and>
             df_ctimeMs f = ab_ctimeMs authored then (True, authored)
          else if ab_hash authored = None \<or> df_size f \<noteq> ab_size authored then (False, authored)
          else if Some (df_sha256 f) \<noteq> ab_hash authored then (False, authored)
          else (True, authored\<lparr>ab_mtimeMs := df_mtimeMs f, ab_ctimeMs := df_ctimeMs f\<rparr>))"

definition READ_GUARD_MAX_RECORDS_PER_FILE :: nat where "READ_GUARD_MAX_RECORDS_PER_FILE = 128"

record trim_result =
  tr_evictedCount :: nat
  tr_evictedCreditCount :: nat
  tr_evictedGenuineCount :: nat

text \<open>The two loops that choose the positions to evict: credits first, then any, oldest first.\<close>

definition evict_credits :: "nat \<Rightarrow> read_record list \<Rightarrow> nat list" where
  "evict_credits excess records =
     foldl (\<lambda>evicted i. if length evicted < excess \<and> rr_searchCredit (records ! i) \<noteq> None
                        then evicted @ [i] else evicted) [] [0..<length records]"

definition evict_rest :: "nat \<Rightarrow> read_record list \<Rightarrow> nat list \<Rightarrow> nat list" where
  "evict_rest excess records credits =
     foldl (\<lambda>evicted i. if length evicted < excess \<and> i \<notin> set evicted then evicted @ [i] else evicted)
       credits [0..<length records]"

definition enforceRecordCapForFile :: "read_record list \<Rightarrow> read_record list \<times> trim_result" where
  "enforceRecordCapForFile records =
     (if length records \<le> READ_GUARD_MAX_RECORDS_PER_FILE
      then (records, \<lparr>tr_evictedCount = 0, tr_evictedCreditCount = 0, tr_evictedGenuineCount = 0\<rparr>)
      else
        let excess = length records - READ_GUARD_MAX_RECORDS_PER_FILE;
            credits = evict_credits excess records;
            evicted = evict_rest excess records credits
        in (map ((!) records) (filter (\<lambda>i. i \<notin> set evicted) [0..<length records]),
            \<lparr>tr_evictedCount = excess, tr_evictedCreditCount = length credits,
             tr_evictedGenuineCount = excess - length credits\<rparr>))"

section \<open>The record cap\<close>

lemma fold_take_filter:
  "foldl (\<lambda>ev i. if length ev < k \<and> P i then ev @ [i] else ev) ev is = ev @ take (k - length ev) (filter P is)"
proof (induction "is" arbitrary: ev)
  case (Cons i "is")
  have "length ev < k \<Longrightarrow> k - length ev = Suc (k - Suc (length ev))" by simp
  with Cons show ?case by auto
qed simp

lemma evict_credits_eq:
  "evict_credits excess records =
     take excess (filter (\<lambda>i. rr_searchCredit (records ! i) \<noteq> None) [0..<length records])"
  by (simp add: evict_credits_def fold_take_filter)

lemma fold_take_fresh:
  "distinct is \<Longrightarrow>
   foldl (\<lambda>ev i. if length ev < k \<and> i \<notin> set ev then ev @ [i] else ev) ev is =
     ev @ take (k - length ev) (filter (\<lambda>i. i \<notin> set ev) is)"
proof (induction "is" arbitrary: ev)
  case (Cons i "is")
  have same: "filter (\<lambda>j. j \<notin> set (ev @ [i])) is = filter (\<lambda>j. j \<notin> set ev) is"
    using Cons.prems by (intro filter_cong) auto
  have "length ev < k \<Longrightarrow> k - length ev = Suc (k - Suc (length ev))" by simp
  with Cons.prems Cons.IH [of "ev @ [i]"] Cons.IH [of ev] show ?case
    unfolding same by auto
qed simp

lemma evict_rest_eq:
  "evict_rest excess records credits =
     credits @ take (excess - length credits) (filter (\<lambda>i. i \<notin> set credits) [0..<length records])"
  by (simp add: evict_rest_def fold_take_fresh)

lemma filter_notin_take: "distinct xs \<Longrightarrow> filter (\<lambda>x. x \<notin> set (take k xs)) xs = drop k xs"
proof -
  assume "distinct xs"
  then have d: "set (take k xs) \<inter> set (drop k xs) = {}"
    by (simp add: set_take_disj_set_drop_if_distinct)
  then have "filter (\<lambda>x. x \<notin> set (take k xs)) (drop k xs) = drop k xs"
    by (auto simp: filter_id_conv)
  then have "filter (\<lambda>x. x \<notin> set (take k xs)) (take k xs @ drop k xs) = drop k xs"
    by (simp del: append_take_drop_id)
  then show ?thesis by simp
qed

text \<open>
  The positions kept among the credits and among the genuine records, where \<open>C\<close> and \<open>G\<close> are the
  positions of both kinds.
\<close>

lemma kept_positions:
  fixes P :: "nat \<Rightarrow> bool" and "is" :: "nat list" and e :: nat
  assumes d: "distinct is"
  defines "C \<equiv> filter P is" and "G \<equiv> filter (\<lambda>i. \<not> P i) is"
  defines "ev \<equiv> take e C @ take (e - length (take e C)) (filter (\<lambda>i. i \<notin> set (take e C)) is)"
  shows "filter (\<lambda>i. P i \<and> i \<notin> set ev) is = drop e C"
    and "filter (\<lambda>i. \<not> P i \<and> i \<notin> set ev) is = drop (e - length C) G"
proof -
  have dC: "distinct C" "distinct G" using d by (simp_all add: C_def G_def)
  have CG: "set (take e C) \<subseteq> {i. P i}" using set_take_subset [of e C] by (auto simp: C_def)
  have "filter (\<lambda>i. P i \<and> i \<notin> set ev) is = filter (\<lambda>i. i \<notin> set ev) C"
    and "filter (\<lambda>i. \<not> P i \<and> i \<notin> set ev) is = filter (\<lambda>i. i \<notin> set ev) G"
    by (simp_all add: C_def G_def conj_commute)
  moreover have "filter (\<lambda>i. i \<notin> set ev) C = drop e C \<and> filter (\<lambda>i. i \<notin> set ev) G = drop (e - length C) G"
  proof (cases "e \<le> length C")
    case True
    then have "ev = take e C" by (simp add: ev_def)
    moreover have "filter (\<lambda>i. i \<notin> set (take e C)) G = G"
      unfolding filter_id_conv using CG by (auto simp: G_def)
    ultimately show ?thesis using True filter_notin_take [OF dC(1)] by simp
  next
    case False
    then have "filter (\<lambda>i. i \<notin> set (take e C)) is = G"
      by (auto simp: C_def G_def intro: filter_cong)
    with False have ev: "ev = C @ take (e - length C) G" by (simp add: ev_def)
    have "filter (\<lambda>i. i \<notin> set ev) G = filter (\<lambda>i. i \<notin> set (take (e - length C) G)) G"
      by (rule filter_cong) (auto simp: ev C_def G_def)
    moreover have "filter (\<lambda>i. i \<notin> set ev) C = []" by (auto simp: ev filter_empty_conv)
    ultimately show ?thesis using False filter_notin_take [OF dC(2)] by simp
  qed
  ultimately show "filter (\<lambda>i. P i \<and> i \<notin> set ev) is = drop e C"
    and "filter (\<lambda>i. \<not> P i \<and> i \<notin> set ev) is = drop (e - length C) G" by simp_all
qed

lemma filter_nth: "map ((!) xs) (filter (\<lambda>i. P (xs ! i)) [0..<length xs]) = filter P xs"
proof -
  have "map ((!) xs) (filter (P \<circ> (!) xs) [0..<length xs]) = filter P (map ((!) xs) [0..<length xs])"
    by (simp add: filter_map)
  then show ?thesis by (simp add: map_nth o_def)
qed

abbreviation (input) is_credit :: "read_record \<Rightarrow> bool" where
  "is_credit r \<equiv> rr_searchCredit r \<noteq> None"

lemma cap_drops:
  fixes records :: "read_record list"
  assumes "length records > READ_GUARD_MAX_RECORDS_PER_FILE"
  defines "e \<equiv> length records - READ_GUARD_MAX_RECORDS_PER_FILE"
    and "c \<equiv> filter is_credit records" and "g \<equiv> filter (\<lambda>r. \<not> is_credit r) records"
    and "kept \<equiv> fst (enforceRecordCapForFile records)"
  shows "filter is_credit kept = drop e c" "filter (\<lambda>r. \<not> is_credit r) kept = drop (e - length c) g"
proof -
  let ?is = "[0..<length records]"
  let ?P = "\<lambda>i. is_credit (records ! i)"
  have lenC: "length (filter ?P ?is) = length c"
    unfolding c_def filter_nth [of records is_credit, symmetric] by simp
  note pos = kept_positions [of ?is ?P e, OF distinct_upt]
  define ev where "ev = evict_rest e records (evict_credits e records)"
  have kept: "kept = map ((!) records) (filter (\<lambda>i. i \<notin> set ev) ?is)"
    using assms(1) by (simp add: kept_def enforceRecordCapForFile_def Let_def e_def ev_def)
  have part: "filter Q kept = map ((!) records) (filter (\<lambda>i. Q (records ! i) \<and> i \<notin> set ev) ?is)" for Q
    by (simp add: kept filter_map o_def conj_commute)
  show "filter is_credit kept = drop e c"
    unfolding part unfolding ev_def evict_rest_eq evict_credits_eq pos(1)
    by (simp add: drop_map [symmetric] filter_nth [of records is_credit, simplified] c_def)
  show "filter (\<lambda>r. \<not> is_credit r) kept = drop (e - length c) g"
    unfolding part unfolding ev_def evict_rest_eq evict_credits_eq pos(2) lenC
    by (simp add: drop_map [symmetric] filter_nth [of records "\<lambda>r. \<not> is_credit r", simplified] g_def)
qed

lemma length_filter_split: "length xs = length (filter P xs) + length (filter (\<lambda>x. \<not> P x) xs)"
  using sum_length_filter_compl [of P xs] by simp

lemma record_cap_parts:
  fixes records :: "read_record list"
  defines "kept \<equiv> fst (enforceRecordCapForFile records)"
    and "genuine \<equiv> filter (\<lambda>r. \<not> is_credit r) records" and "credits \<equiv> filter is_credit records"
  shows "filter (\<lambda>r. \<not> is_credit r) kept = lastn READ_GUARD_MAX_RECORDS_PER_FILE genuine"
    and "filter is_credit kept = lastn (READ_GUARD_MAX_RECORDS_PER_FILE - length genuine) credits"
proof -
  let ?m = "READ_GUARD_MAX_RECORDS_PER_FILE"
  have len: "length records = length credits + length genuine"
    using length_filter_split [of records is_credit] by (simp add: credits_def genuine_def)
  have "filter (\<lambda>r. \<not> is_credit r) kept = lastn ?m genuine \<and>
        filter is_credit kept = lastn (?m - length genuine) credits"
  proof (cases "length records \<le> ?m")
    case True
    then show ?thesis using len
      by (simp add: kept_def enforceRecordCapForFile_def genuine_def credits_def lastn_all)
  next
    case False
    then have drops: "filter is_credit kept = drop (length records - ?m) credits"
        "filter (\<lambda>r. \<not> is_credit r) kept = drop (length records - ?m - length credits) genuine"
      using cap_drops [of records] by (simp_all add: kept_def genuine_def credits_def)
    have "drop (length records - ?m) credits = drop (length credits - (?m - length genuine)) credits"
      using len False by (cases "length genuine \<le> ?m") simp_all
    with drops len show ?thesis by (simp add: lastn_def)
  qed
  then show "filter (\<lambda>r. \<not> is_credit r) kept = lastn ?m genuine"
    "filter is_credit kept = lastn (?m - length genuine) credits" by simp_all
qed

lemma length_record_cap:
  "length (fst (enforceRecordCapForFile records)) = min READ_GUARD_MAX_RECORDS_PER_FILE (length records)"
proof -
  let ?m = "READ_GUARD_MAX_RECORDS_PER_FILE" and ?kept = "fst (enforceRecordCapForFile records)"
  have "length ?kept = length (filter is_credit ?kept) + length (filter (\<lambda>r. \<not> is_credit r) ?kept)"
    by (rule length_filter_split)
  also have "\<dots> = min (?m - length (filter (\<lambda>r. \<not> is_credit r) records)) (length (filter is_credit records)) +
      min ?m (length (filter (\<lambda>r. \<not> is_credit r) records))"
    unfolding record_cap_parts length_lastn ..
  also have "\<dots> = min ?m (length (filter is_credit records) + length (filter (\<lambda>r. \<not> is_credit r) records))"
    by linarith
  finally show ?thesis unfolding length_filter_split [of records is_credit, symmetric] .
qed

text \<open>
  The per-file record cap gives up credits before genuine views and old records before new
  ones: of the genuine records the newest 128 stay, of the search credits the newest that still
  fit beside all genuine ones, and never more than 128 in all.
\<close>

theorem record_cap_keeps_newest_genuine:
  "let kept = fst (enforceRecordCapForFile records);
       genuine = filter (\<lambda>r. rr_searchCredit r = None) records;
       credits = filter (\<lambda>r. rr_searchCredit r \<noteq> None) records
   in filter (\<lambda>r. rr_searchCredit r = None) kept = lastn 128 genuine \<and>
      filter (\<lambda>r. rr_searchCredit r \<noteq> None) kept = lastn (128 - length genuine) credits \<and>
      length kept = min 128 (length records)"
  using record_cap_parts [of records] length_record_cap [of records]
  by (simp add: READ_GUARD_MAX_RECORDS_PER_FILE_def Let_def)

end
