(* ===== verification/File_Time.thy ===== *)
theory File_Time
  imports Line_Evidence
begin

text \<open>
  File stamps per session: \<open>src/clients/file-time.ts\<close>. The module-level map is the state, a
  \<open>FileTime\<close> instance is its session id. \<open>path.resolve\<close> and the clock are parameters; the disk
  is that of \<open>Line_Evidence\<close>. \<open>assert\<close> throws, so it returns a sum.
\<close>

section \<open>Definitions\<close>

record file_stamp =
  fs_readAt :: int
  fs_mtime :: "int option"
  fs_ctime :: "int option"
  fs_size :: "int option"

type_synonym file_times = "(string, (string, file_stamp) jmap) jmap"

datatype file_time_error = NotRead string | Modified string

definition createStamp :: "disk \<Rightarrow> int \<Rightarrow> string \<Rightarrow> file_stamp" where
  "createStamp disk now path =
     (case disk path of
        Some f \<Rightarrow> \<lparr>fs_readAt = now, fs_mtime = Some (df_mtime f), fs_ctime = Some (df_ctime f),
                   fs_size = Some (df_size f)\<rparr>
      | None \<Rightarrow> \<lparr>fs_readAt = now, fs_mtime = None, fs_ctime = None, fs_size = None\<rparr>)"

definition session_reads :: "string \<Rightarrow> file_times \<Rightarrow> (string, file_stamp) jmap" where
  "session_reads sid st = (case jm_get st sid of None \<Rightarrow> [] | Some m \<Rightarrow> m)"

definition ft_read :: "(string \<Rightarrow> string) \<Rightarrow> disk \<Rightarrow> int \<Rightarrow> string \<Rightarrow> string \<Rightarrow> file_times \<Rightarrow> file_times" where
  "ft_read resolve disk now sid path st =
     (let absolutePath = resolve path
      in jm_set sid (jm_set absolutePath (createStamp disk now absolutePath) (session_reads sid st)) st)"

definition ft_get :: "(string \<Rightarrow> string) \<Rightarrow> string \<Rightarrow> string \<Rightarrow> file_times \<Rightarrow> file_stamp option" where
  "ft_get resolve sid path st = jm_get (session_reads sid st) (resolve path)"

definition stamp_moved :: "file_stamp \<Rightarrow> file_stamp \<Rightarrow> bool" where
  "stamp_moved current recorded =
     (fs_mtime current \<noteq> fs_mtime recorded \<or> fs_ctime current \<noteq> fs_ctime recorded \<or>
      fs_size current \<noteq> fs_size recorded)"

definition ft_assert ::
  "(string \<Rightarrow> string) \<Rightarrow> disk \<Rightarrow> int \<Rightarrow> string \<Rightarrow> string \<Rightarrow> file_times \<Rightarrow> file_time_error + unit" where
  "ft_assert resolve disk now sid path st =
     (let absolutePath = resolve path in
      case jm_get (session_reads sid st) absolutePath of
        None \<Rightarrow> Inl (NotRead absolutePath)
      | Some recorded \<Rightarrow>
          if stamp_moved (createStamp disk now absolutePath) recorded then Inl (Modified absolutePath)
          else Inr ())"

definition ft_hasChanged ::
  "(string \<Rightarrow> string) \<Rightarrow> disk \<Rightarrow> int \<Rightarrow> string \<Rightarrow> string \<Rightarrow> file_times \<Rightarrow> bool" where
  "ft_hasChanged resolve disk now sid path st =
     (let absolutePath = resolve path in
      case jm_get (session_reads sid st) absolutePath of
        None \<Rightarrow> True
      | Some recorded \<Rightarrow> stamp_moved (createStamp disk now absolutePath) recorded)"

definition ft_clear :: "string \<Rightarrow> file_times \<Rightarrow> file_times" where
  "ft_clear sid st = jm_delete sid st"

definition ft_clearFile :: "(string \<Rightarrow> string) \<Rightarrow> string \<Rightarrow> string \<Rightarrow> file_times \<Rightarrow> file_times" where
  "ft_clearFile resolve sid path st =
     (case jm_get st sid of
        None \<Rightarrow> st
      | Some m \<Rightarrow> jm_set sid (jm_delete (resolve path) m) st)"

definition clearAllSessions :: "file_times \<Rightarrow> file_times" where
  "clearAllSessions st = []"

section \<open>Lemmas\<close>

lemma stamp_moved_same: "\<not> stamp_moved (createStamp disk now p) (createStamp disk now' p)"
  by (simp add: stamp_moved_def createStamp_def split: option.splits)

lemma session_reads_set [simp]:
  "session_reads sid' (jm_set sid m st) = (if sid' = sid then m else session_reads sid' st)"
  by (simp add: session_reads_def jm_get_set)

lemma hasChanged_after_read:
  "ft_hasChanged resolve disk now' sid path (ft_read resolve disk now sid path st) = False"
  by (simp add: ft_hasChanged_def ft_read_def Let_def jm_get_set stamp_moved_same)

lemma hasChanged_other_read:
  "resolve path' \<noteq> resolve path \<Longrightarrow>
     ft_hasChanged resolve disk' now' sid path (ft_read resolve disk now sid path' st) =
     ft_hasChanged resolve disk' now' sid path st"
  by (simp add: ft_hasChanged_def ft_read_def Let_def jm_get_set)

section \<open>Properties\<close>

text \<open>The operations of a session on its stamps.\<close>

datatype ft_op = FtRead disk int string | FtClear | FtClearFile string

fun ft_apply :: "(string \<Rightarrow> string) \<Rightarrow> string \<Rightarrow> ft_op \<Rightarrow> file_times \<Rightarrow> file_times" where
  "ft_apply resolve sid (FtRead disk now path) st = ft_read resolve disk now sid path st"
| "ft_apply resolve sid FtClear st = ft_clear sid st"
| "ft_apply resolve sid (FtClearFile path) st = ft_clearFile resolve sid path st"

lemma session_reads_other: "sid' \<noteq> sid \<Longrightarrow> session_reads sid' (ft_apply resolve sid op st) = session_reads sid' st"
  by (cases op)
    (auto simp: ft_read_def ft_clear_def ft_clearFile_def session_reads_def Let_def jm_get_set jm_get_delete
      split: option.splits)

text \<open>
  Sessions do not disturb each other's stamps. Whatever reads and clears another session
  performs, what this session is told about a file (changed or not, and the outcome of
  \<open>assert\<close>) stays the same.
\<close>

theorem file_times_sessions_isolated:
  assumes "sid' \<noteq> sid"
  shows "ft_hasChanged resolve disk now sid' path (fold (ft_apply resolve sid) ops st) =
      ft_hasChanged resolve disk now sid' path st \<and>
    ft_assert resolve disk now sid' path (fold (ft_apply resolve sid) ops st) =
      ft_assert resolve disk now sid' path st"
proof -
  have "session_reads sid' (fold (ft_apply resolve sid) ops st) = session_reads sid' st"
    by (induction ops arbitrary: st) (simp_all add: session_reads_other [OF assms])
  then show ?thesis by (simp add: ft_hasChanged_def ft_assert_def)
qed

theorem file_times_sessions_isolated_witness:
  "ft_hasChanged (\<lambda>p. p) demo_disk 5 ''s1'' ''/a.ts''
     (fold (ft_apply (\<lambda>p. p) ''s2'') [FtRead (\<lambda>_. None) 2 ''/a.ts'', FtClear]
        (ft_read (\<lambda>p. p) demo_disk 1 ''s1'' ''/a.ts'' [])) = False"
proof -
  have "''s1'' \<noteq> ''s2''" by simp
  note file_times_sessions_isolated [OF this, of "\<lambda>p. p" demo_disk 5 "''/a.ts''"
      "[FtRead (\<lambda>_. None) 2 ''/a.ts'', FtClear]" "ft_read (\<lambda>p. p) demo_disk 1 ''s1'' ''/a.ts'' []"]
  then show ?thesis by (simp only: hasChanged_after_read)
qed

text \<open>
  A stamp detects every change of size or times and nothing else. After a read, the file
  counts as changed exactly when its modification time, change time or size on disk differ from
  those at the read, a file that vanished or appeared included; \<open>assert\<close> agrees.
\<close>

theorem file_time_detects_exactly_stat_changes:
  "ft_hasChanged resolve disk' now' sid path (ft_read resolve disk now sid path st) =
     (map_option (\<lambda>f. (df_mtime f, df_ctime f, df_size f)) (disk' (resolve path)) \<noteq>
      map_option (\<lambda>f. (df_mtime f, df_ctime f, df_size f)) (disk (resolve path))) \<and>
   (ft_assert resolve disk' now' sid path st' = Inr () \<longleftrightarrow> \<not> ft_hasChanged resolve disk' now' sid path st')"
  by (auto simp: ft_hasChanged_def ft_assert_def ft_read_def Let_def jm_get_set stamp_moved_def createStamp_def
      split: option.splits)

end
