(* ===== verification/Guard_State.thy ===== *)
theory Guard_State
  imports Authored_Bytes File_Time Bounded_Cache
begin

text \<open>
  The state of the class \<open>ReadGuard\<close> (\<open>src/clients/read-guard.ts\<close>) and the operations that
  keep its containers: eviction, idle timers, caps, recording reads, licences and the end of an
  authorship.

  What the methods observe of their environment is the record \<open>world\<close>: the disk, the clock, the
  canonical key of a path (\<open>normalizeFilePath\<close>, which resolves links on the file system), \<open>path.resolve\<close>,
  the platform, the digests, and the test of a compiled regular expression. Logs and degradation
  counters are not part of the state. \<open>EditRecord.precedingReads\<close>, an alias of the live read list that only
  the summary reads, is left out. An idle timer is the stamp its closure holds;
  \<open>idleTimerFired\<close> is its callback.
\<close>

section \<open>Environment\<close>

record world =
  w_disk :: disk
  w_now :: int
  w_key :: "string \<Rightarrow> string"
  w_resolve :: "string \<Rightarrow> string"
  w_win32 :: bool
  w_sha :: text_hash
  w_hashText :: "string \<Rightarrow> nat \<Rightarrow> string"
  w_regexTest :: "string \<Rightarrow> string \<Rightarrow> bool"

definition js_lower :: "char \<Rightarrow> char" where
  "js_lower c =
     (let n = of_char c :: nat
      in if 65 \<le> n \<and> n \<le> 90 \<or> 192 \<le> n \<and> n \<le> 222 \<and> n \<noteq> 215 then char_of (n + 32) else c)"

definition normalizeEphemeralMapKey :: "bool \<Rightarrow> string \<Rightarrow> string" where
  "normalizeEphemeralMapKey win32 filePath =
     (if \<not> win32 \<and> CHR 92 \<notin> set filePath then filePath
      else let slashed = map (\<lambda>c. if c = CHR 92 then CHR ''/'' else c) filePath
           in if win32 then map js_lower slashed else slashed)"

definition CORRELATION_ID_MAX :: nat where "CORRELATION_ID_MAX = 64"
definition CORRELATION_ID_HASH_LENGTH :: nat where "CORRELATION_ID_HASH_LENGTH = 16"

definition correlation_char :: "char \<Rightarrow> bool" where
  "correlation_char c =
     (let n = of_char c :: nat
      in 97 \<le> n \<and> n \<le> 122 \<or> 65 \<le> n \<and> n \<le> 90 \<or> 48 \<le> n \<and> n \<le> 57 \<or> c \<in> set ''._:-'')"

definition sanitizeCorrelationId :: "(string \<Rightarrow> nat \<Rightarrow> string) \<Rightarrow> string option \<Rightarrow> string option" where
  "sanitizeCorrelationId hashText rawId =
     (case rawId of
        None \<Rightarrow> None
      | Some raw \<Rightarrow>
          let trimmed = js_trim raw;
              sanitized = map (\<lambda>c. if correlation_char c then c else CHR ''_'') trimmed
          in if length sanitized \<le> CORRELATION_ID_MAX then (if sanitized \<noteq> [] then Some sanitized else None)
             else Some (take (CORRELATION_ID_MAX - CORRELATION_ID_HASH_LENGTH - 1) sanitized @ ''-'' @
                        hashText trimmed CORRELATION_ID_HASH_LENGTH))"

section \<open>State\<close>

datatype guard_mode = ModeBlock | ModeWarn | ModeOff
datatype exemption_mode = ExemptAllow | ExemptWarn | ExemptBlock

record guard_config =
  c_enabled :: bool
  c_mode :: guard_mode
  c_contextLines :: int
  c_exemptions :: "(string \<times> exemption_mode) list"

definition DEFAULT_CONFIG :: guard_config where
  "DEFAULT_CONFIG =
     \<lparr>c_enabled = True, c_mode = ModeBlock, c_contextLines = 3,
      c_exemptions = [(''*.md'', ExemptWarn), (''*.txt'', ExemptAllow), (''*.log'', ExemptAllow)]\<rparr>"

datatype edit_verdict = Allowed | Blocked | Warned

text \<open>The message of a verdict, by its kind and the values the text mentions.\<close>

datatype verdict_reason =
    AuthorshipRetired string
  | AuthorshipRange string
  | ZeroRead string bool
  | BindingMismatch string int
  | FileModified string int
  | OutOfRange string line_range
  | RangeStale string line_range "(line_range \<times> line_range) option"

record edit_record =
  er_filePath :: string
  er_tool :: string
  er_touchedLines :: line_range
  er_verdict :: edit_verdict
  er_reason :: "verdict_reason option"
  er_timestamp :: int

record pending_creation =
  pc_turnIndex :: int
  pc_writeIndex :: int
  pc_toolCallId :: "string option"

record file_trim_stats =
  ts_totalEvicted :: nat
  ts_evictedCreditCount :: nat
  ts_evictedGenuineCount :: nat
  ts_trimEventCount :: nat

record guard =
  g_config :: guard_config
  g_reads :: "(string, read_record list) jmap"
  g_edits :: "(string, edit_record list) jmap"
  g_fileLastUsed :: "(string, int) jmap"
  g_fileIdleTimers :: "(string, int) jmap"
  g_consumedReadFiles :: "string set"
  g_fileTime :: file_times
  g_exemptions :: "string set"
  g_pendingCreations :: "(string, pending_creation) jmap"
  g_writtenThisSession :: "(string, authored_bytes) jmap"
  g_checkedPathsByCall :: "(string, string list) fifo_map"
  g_expiredWrites :: "string bounded_set"
  g_knownPathIndex :: "(string, string) jmap"
  g_trimAccumulators :: "(string, file_trim_stats) jmap"
  g_branchEpoch :: nat
  g_sessionId :: string

definition READ_GUARD_MAX_FILES :: nat where "READ_GUARD_MAX_FILES = 256"
definition READ_GUARD_MAX_EDITS_PER_FILE :: nat where "READ_GUARD_MAX_EDITS_PER_FILE = 256"
definition READ_GUARD_MAX_UNCONSUMED_FILES :: nat where "READ_GUARD_MAX_UNCONSUMED_FILES = 4096"
definition READ_GUARD_MAX_AUTHORED_FILES :: nat where
  "READ_GUARD_MAX_AUTHORED_FILES = READ_GUARD_MAX_UNCONSUMED_FILES"
definition READ_GUARD_MAX_CHECKED_CALLS :: nat where "READ_GUARD_MAX_CHECKED_CALLS = 16"
definition READ_GUARD_MAX_CHECKED_PATHS_PER_CALL :: nat where "READ_GUARD_MAX_CHECKED_PATHS_PER_CALL = 128"

definition new_ReadGuard :: "string \<Rightarrow> guard_config \<Rightarrow> nat \<Rightarrow> file_times \<Rightarrow> guard" where
  "new_ReadGuard sessionId config epoch stamps_now =
     \<lparr>g_config = config, g_reads = [], g_edits = [], g_fileLastUsed = [], g_fileIdleTimers = [],
      g_consumedReadFiles = {}, g_fileTime = stamps_now, g_exemptions = {}, g_pendingCreations = [],
      g_writtenThisSession = [],
      g_checkedPathsByCall = new_BoundedFifoMap (int READ_GUARD_MAX_CHECKED_CALLS),
      g_expiredWrites = new_BoundedFifoMap (int READ_GUARD_MAX_FILES), g_knownPathIndex = [],
      g_trimAccumulators = [], g_branchEpoch = epoch, g_sessionId = sessionId\<rparr>"

definition reads_of :: "guard \<Rightarrow> string \<Rightarrow> read_record list" where
  "reads_of g path = (case jm_get (g_reads g) path of None \<Rightarrow> [] | Some rs \<Rightarrow> rs)"

definition edits_of :: "guard \<Rightarrow> string \<Rightarrow> edit_record list" where
  "edits_of g path = (case jm_get (g_edits g) path of None \<Rightarrow> [] | Some es \<Rightarrow> es)"

section \<open>Eviction, timers, caps\<close>

datatype eviction_reason = FileCapConsumed | FileCapUnconsumed | IdleTimeout | ExternalDelete

definition clearFileTimer :: "string \<Rightarrow> guard \<Rightarrow> guard" where
  "clearFileTimer path g = g\<lparr>g_fileIdleTimers := jm_delete path (g_fileIdleTimers g)\<rparr>"

definition noteExpiredWrite :: "string \<Rightarrow> guard \<Rightarrow> guard" where
  "noteExpiredWrite path g =
     (if bset_has (g_expiredWrites g) path then g
      else g\<lparr>g_expiredWrites := fst (bset_add path (g_expiredWrites g))\<rparr>)"

definition evictFile :: "string \<Rightarrow> eviction_reason \<Rightarrow> guard \<Rightarrow> guard" where
  "evictFile path reason g =
     (let g1 = clearFileTimer path g;
          droppedAuthorship = jm_has (g_writtenThisSession g1) path;
          g2 = g1\<lparr>g_reads := jm_delete path (g_reads g1),
                  g_edits := jm_delete path (g_edits g1),
                  g_fileLastUsed := jm_delete path (g_fileLastUsed g1),
                  g_consumedReadFiles := g_consumedReadFiles g1 - {path},
                  g_writtenThisSession := jm_delete path (g_writtenThisSession g1),
                  g_knownPathIndex := filter (\<lambda>(_, stored). stored \<noteq> path) (g_knownPathIndex g1)\<rparr>
      in if reason = IdleTimeout \<and> droppedAuthorship then noteExpiredWrite path g2 else g2)"

definition drop_retired :: "(string \<times> authored_bytes) \<Rightarrow> int \<times> guard \<Rightarrow> int \<times> guard" where
  "drop_retired entry st =
     (if fst st \<le> 0 \<or> \<not> ab_retired (snd entry) then st
      else (fst st - 1,
            (snd st)\<lparr>g_writtenThisSession := jm_delete (fst entry) (g_writtenThisSession (snd st))\<rparr>))"

definition drop_live :: "string \<Rightarrow> int \<times> guard \<Rightarrow> int \<times> guard" where
  "drop_live path st =
     (if fst st \<le> 0 then st
      else (fst st - 1,
            noteExpiredWrite path
              ((snd st)\<lparr>g_writtenThisSession := jm_delete path (g_writtenThisSession (snd st))\<rparr>)))"

definition enforceAuthorshipCap :: "guard \<Rightarrow> guard" where
  "enforceAuthorshipCap g =
     (let excess = int (length (g_writtenThisSession g)) - int READ_GUARD_MAX_AUTHORED_FILES
      in if excess \<le> 0 then g
         else let st = fold drop_retired (g_writtenThisSession g) (excess, g)
              in snd (fold drop_live (jm_keys (g_writtenThisSession (snd st))) st))"

text \<open>An outstanding read: recorded and not yet consumed by a published edit.\<close>

definition outstanding :: "guard \<Rightarrow> string \<Rightarrow> bool" where
  "outstanding g path = (jm_has (g_reads g) path \<and> path \<notin> g_consumedReadFiles g)"

definition touchFile :: "int \<Rightarrow> string \<Rightarrow> guard \<Rightarrow> guard" where
  "touchFile now path g =
     (let g1 = clearFileTimer path (g\<lparr>g_fileLastUsed := jm_set path now (g_fileLastUsed g)\<rparr>)
      in if outstanding g1 path then g1
         else g1\<lparr>g_fileIdleTimers := jm_set path now (g_fileIdleTimers g1)\<rparr>)"

definition idleTimerFired :: "string \<Rightarrow> guard \<Rightarrow> guard" where
  "idleTimerFired path g =
     (case jm_get (g_fileIdleTimers g) path of
        None \<Rightarrow> g
      | Some stamp \<Rightarrow>
          if jm_get (g_fileLastUsed g) path \<noteq> Some stamp then g
          else if outstanding g path then g
          else evictFile path IdleTimeout g)"

definition last_used :: "guard \<Rightarrow> string \<Rightarrow> int" where
  "last_used g path = (case jm_get (g_fileLastUsed g) path of None \<Rightarrow> 0 | Some t \<Rightarrow> t)"

text \<open>The head of the eligible paths sorted by last use; an empty path is no victim.\<close>

definition cap_victim :: "(string \<Rightarrow> bool) \<Rightarrow> guard \<Rightarrow> string option" where
  "cap_victim eligible g =
     (case sort_key (last_used g) (filter eligible (jm_keys (g_reads g))) of
        [] \<Rightarrow> None
      | victim # _ \<Rightarrow> if victim = [] then None else Some victim)"

lemma cap_victim_in: "cap_victim eligible g = Some v \<Longrightarrow> v \<in> set (jm_keys (g_reads g)) \<and> eligible v"
proof -
  assume v: "cap_victim eligible g = Some v"
  then obtain rest where "sort_key (last_used g) (filter eligible (jm_keys (g_reads g))) = v # rest"
    by (auto simp: cap_victim_def split: list.splits if_splits)
  then have "v \<in> set (sort_key (last_used g) (filter eligible (jm_keys (g_reads g))))" by (simp del: set_sort)
  then show ?thesis by simp
qed

lemma noteExpiredWrite_simps [simp]:
  "g_reads (noteExpiredWrite p g) = g_reads g"
  "g_edits (noteExpiredWrite p g) = g_edits g"
  "g_fileLastUsed (noteExpiredWrite p g) = g_fileLastUsed g"
  "g_fileIdleTimers (noteExpiredWrite p g) = g_fileIdleTimers g"
  "g_consumedReadFiles (noteExpiredWrite p g) = g_consumedReadFiles g"
  "g_fileTime (noteExpiredWrite p g) = g_fileTime g"
  "g_exemptions (noteExpiredWrite p g) = g_exemptions g"
  "g_writtenThisSession (noteExpiredWrite p g) = g_writtenThisSession g"
  "g_config (noteExpiredWrite p g) = g_config g"
  "g_checkedPathsByCall (noteExpiredWrite p g) = g_checkedPathsByCall g"
  "g_branchEpoch (noteExpiredWrite p g) = g_branchEpoch g"
  "g_sessionId (noteExpiredWrite p g) = g_sessionId g"
  "g_knownPathIndex (noteExpiredWrite p g) = g_knownPathIndex g"
  "g_pendingCreations (noteExpiredWrite p g) = g_pendingCreations g"
  "g_trimAccumulators (noteExpiredWrite p g) = g_trimAccumulators g"
  by (simp_all add: noteExpiredWrite_def)

lemma evictFile_simps [simp]:
  "g_reads (evictFile p r g) = jm_delete p (g_reads g)"
  "g_edits (evictFile p r g) = jm_delete p (g_edits g)"
  "g_fileLastUsed (evictFile p r g) = jm_delete p (g_fileLastUsed g)"
  "g_fileIdleTimers (evictFile p r g) = jm_delete p (g_fileIdleTimers g)"
  "g_consumedReadFiles (evictFile p r g) = g_consumedReadFiles g - {p}"
  "g_writtenThisSession (evictFile p r g) = jm_delete p (g_writtenThisSession g)"
  "g_fileTime (evictFile p r g) = g_fileTime g"
  "g_exemptions (evictFile p r g) = g_exemptions g"
  "g_config (evictFile p r g) = g_config g"
  "g_checkedPathsByCall (evictFile p r g) = g_checkedPathsByCall g"
  "g_branchEpoch (evictFile p r g) = g_branchEpoch g"
  "g_sessionId (evictFile p r g) = g_sessionId g"
  "g_pendingCreations (evictFile p r g) = g_pendingCreations g"
  by (simp_all add: evictFile_def clearFileTimer_def Let_def)

lemma length_jm_delete_less: "k \<in> set (jm_keys m) \<Longrightarrow> length (jm_delete k m) < length m"
  unfolding AList.delete_eq by (induction m) (auto intro: le_imp_less_Suc)

function evict_consumed :: "guard \<Rightarrow> guard" where
  "evict_consumed g =
     (if length (g_reads g) > READ_GUARD_MAX_FILES then
        (case cap_victim (\<lambda>p. p \<in> g_consumedReadFiles g) g of
           None \<Rightarrow> g
         | Some victim \<Rightarrow> evict_consumed (evictFile victim FileCapConsumed g))
      else g)"
  by pat_completeness auto
termination
  by (relation "measure (\<lambda>g. length (g_reads g))")
     (auto dest!: cap_victim_in intro!: length_jm_delete_less)

function evict_unconsumed :: "guard \<Rightarrow> guard" where
  "evict_unconsumed g =
     (if length (g_reads g) > READ_GUARD_MAX_UNCONSUMED_FILES then
        (case cap_victim (\<lambda>p. p \<notin> g_consumedReadFiles g) g of
           None \<Rightarrow> g
         | Some victim \<Rightarrow> evict_unconsumed (evictFile victim FileCapUnconsumed g))
      else g)"
  by pat_completeness auto
termination
  by (relation "measure (\<lambda>g. length (g_reads g))")
     (auto dest!: cap_victim_in intro!: length_jm_delete_less)

definition enforceFileCap :: "guard \<Rightarrow> guard" where
  "enforceFileCap g = evict_unconsumed (evict_consumed g)"

declare evict_consumed.simps [simp del] evict_unconsumed.simps [simp del]

section \<open>Correlation ids\<close>

lemma js_trim_id:
  assumes "s \<noteq> []" "\<not> is_js_space (hd s)" "\<not> is_js_space (last s)"
  shows "js_trim s = s"
proof -
  have "dropWhile is_js_space s = s" using assms(1,2) by (cases s) simp_all
  moreover obtain ys y where s: "s = ys @ [y]" using assms(1) by (metis rev_exhaust)
  moreover have "dropWhile is_js_space (rev s) = rev s" using assms(3) by (simp add: s)
  ultimately show ?thesis by (simp add: js_trim_def)
qed

lemma correlation_char_no_space: "correlation_char c \<Longrightarrow> \<not> is_js_space c"
  by (auto simp: correlation_char_def is_js_space_def Let_def)

lemma sanitize_clean:
  assumes "s \<noteq> []" "length s \<le> CORRELATION_ID_MAX" "list_all correlation_char s"
  shows "sanitizeCorrelationId h (Some s) = Some s"
proof -
  have "correlation_char (hd s)" "correlation_char (last s)" using assms(1,3) by (simp_all add: list_all_iff)
  then have "js_trim s = s" using assms(1) correlation_char_no_space by (intro js_trim_id) simp_all
  moreover have "map (\<lambda>c. if correlation_char c then c else CHR ''_'') s = s"
    using assms(3) by (intro map_idI) (simp add: list_all_iff)
  ultimately show ?thesis using assms(1,2) by (simp add: sanitizeCorrelationId_def)
qed

lemma sanitize_shape:
  assumes hash: "\<And>s. length (h s 16) = 16 \<and> list_all correlation_char (h s 16)"
    and out: "sanitizeCorrelationId h (Some raw) = Some t"
  shows "t \<noteq> [] \<and> length t \<le> CORRELATION_ID_MAX \<and> list_all correlation_char t"
proof -
  have us: "correlation_char (CHR ''_'')" "correlation_char (CHR ''-'')" by (simp_all add: correlation_char_def)
  let ?s = "map (\<lambda>c. if correlation_char c then c else CHR ''_'') (js_trim raw)"
  have s: "list_all correlation_char ?s" using us by (auto simp: list_all_iff)
  show ?thesis
  proof (cases "length ?s \<le> CORRELATION_ID_MAX")
    case True
    with out have "t = ?s" by (simp add: sanitizeCorrelationId_def Let_def split: if_splits)
    moreover have "?s \<noteq> []" using out True by (simp add: sanitizeCorrelationId_def Let_def split: if_splits)
    ultimately show ?thesis using True s by (simp only: simp_thms)
  next
    case False
    with out have t: "t = take 47 ?s @ ''-'' @ h (js_trim raw) 16"
      by (simp add: sanitizeCorrelationId_def Let_def CORRELATION_ID_MAX_def CORRELATION_ID_HASH_LENGTH_def)
    have "list_all correlation_char (take 47 ?s)"
      using s unfolding list_all_iff by (meson in_set_takeD)
    moreover have "length (take 47 ?s) \<le> 47" by simp
    ultimately show ?thesis
      using hash [of "js_trim raw"] us unfolding t CORRELATION_ID_MAX_def list_all_append length_append by simp
  qed
qed

text \<open>
  Correlation ids are bounded and stable. With a digest of sixteen characters of the allowed
  alphabet, every id the guard keys its licences by is non-empty, at most 64 characters of that
  alphabet, and sanitizing it again changes nothing, so both sides of a call agree on the key.
\<close>

theorem correlation_ids_bounded_and_stable:
  assumes "\<And>s. length (h s 16) = 16 \<and> list_all correlation_char (h s 16)"
    and "sanitizeCorrelationId h (Some raw) = Some t"
  shows "t \<noteq> [] \<and> length t \<le> 64 \<and> list_all correlation_char t \<and> sanitizeCorrelationId h (Some t) = Some t"
  using sanitize_shape [OF assms] sanitize_clean [of t h] by (simp add: CORRELATION_ID_MAX_def)

theorem correlation_ids_bounded_and_stable_witness:
  "sanitizeCorrelationId (\<lambda>_ n. replicate n (CHR ''0'')) (Some ''call_1'') = Some ''call_1''"
proof -
  let ?h = "\<lambda>_ n. replicate n (CHR ''0'')"
  have in_id: "sanitizeCorrelationId ?h (Some '' call/1'') = Some ''call_1''"
    by (simp add: sanitizeCorrelationId_def js_trim_def is_js_space_def correlation_char_def CORRELATION_ID_MAX_def Let_def)
  have "length (?h s 16) = 16 \<and> list_all correlation_char (?h s 16)" for s :: string
    by (simp add: list_all_iff correlation_char_def)
  from correlation_ids_bounded_and_stable [OF this in_id] show ?thesis by simp
qed

text \<open>
  Sanitizing merges distinct ids. Two host call ids that differ in a character outside the
  alphabet, or in surrounding white space, share one key, whatever the digest.
\<close>

theorem correlation_ids_collide:
  "sanitizeCorrelationId h (Some ''call/1'') = sanitizeCorrelationId h (Some ''call_1'') \<and>
   sanitizeCorrelationId h (Some ''call/1'') = sanitizeCorrelationId h (Some '' call/1 '')"
  by (simp add: sanitizeCorrelationId_def js_trim_def is_js_space_def correlation_char_def CORRELATION_ID_MAX_def Let_def)

end
