(* ===== verification/Guard_Records.thy ===== *)
theory Guard_Records
  imports Guard_State
begin

text \<open>
  Recording what the conversation saw and wrote: the operations of \<open>ReadGuard\<close> that add or drop
  read records, hand out and consume licences, and credit or end authorship.
\<close>

section \<open>Reads\<close>

definition dropProvisionalReads :: "guard \<Rightarrow> nat \<times> guard" where
  "dropProvisionalReads g =
     (sum_list (map (\<lambda>(_, records). length (filter rr_provisional records)) (g_reads g)),
      g\<lparr>g_reads :=
          filter (\<lambda>(_, records). records \<noteq> [])
            (map (\<lambda>(path, records). (path, filter (\<lambda>r. \<not> rr_provisional r) records)) (g_reads g))\<rparr>)"

definition provisional_source :: "string \<Rightarrow> string" where
  "provisional_source toolCallId = ''native-read:'' @ toolCallId @ '':provisional''"

fun drop_capture :: "string \<Rightarrow> (string, read_record list) jmap \<Rightarrow> (string, read_record list) jmap option" where
  "drop_capture source [] = None"
| "drop_capture source ((path, records) # rest) =
     (if list_ex (\<lambda>r. rr_source r = Some source) records then
        (let kept = remove1 (the (find (\<lambda>r. rr_source r = Some source) records)) records
         in Some (if kept = [] then rest else (path, kept) # rest))
      else map_option (\<lambda>m. (path, records) # m) (drop_capture source rest))"

definition dropProvisionalReadByCall :: "string \<Rightarrow> guard \<Rightarrow> bool \<times> guard" where
  "dropProvisionalReadByCall toolCallId g =
     (case drop_capture (provisional_source toolCallId) (g_reads g) of
        None \<Rightarrow> (False, g)
      | Some reads \<Rightarrow> (True, g\<lparr>g_reads := reads\<rparr>))"

record read_opts =
  ro_supersedes :: "string option"
  ro_stampFileTime :: bool
  ro_captureLineHashes :: bool

definition default_read_opts :: read_opts where
  "default_read_opts = \<lparr>ro_supersedes = None, ro_stampFileTime = True, ro_captureLineHashes = True\<rparr>"

definition stored_record :: "world \<Rightarrow> read_opts \<Rightarrow> read_record \<Rightarrow> read_record" where
  "stored_record w opts record =
     record\<lparr>rr_filePath := w_key w (rr_filePath record),
            rr_lineHashes :=
              (case rr_lineHashes record of
                 Some hashes \<Rightarrow> Some hashes
               | None \<Rightarrow>
                   if \<not> ro_captureLineHashes opts \<or>
                      hashedWindow (rr_effectiveOffset record) (rr_effectiveLimit record) = None then None
                   else scan_hashes (w_disk w) (w_key w (rr_filePath record))
                          (rr_effectiveOffset record) (rr_effectiveLimit record))\<rparr>"

definition note_trim :: "string \<Rightarrow> trim_result \<Rightarrow> guard \<Rightarrow> guard" where
  "note_trim path tr g =
     (if tr_evictedCount tr = 0 then g
      else
        let acc = (case jm_get (g_trimAccumulators g) path of
                     Some a \<Rightarrow> a
                   | None \<Rightarrow> \<lparr>ts_totalEvicted = 0, ts_evictedCreditCount = 0, ts_evictedGenuineCount = 0,
                              ts_trimEventCount = 0\<rparr>)
        in g\<lparr>g_trimAccumulators := jm_set path
               \<lparr>ts_totalEvicted = ts_totalEvicted acc + tr_evictedCount tr,
                ts_evictedCreditCount = ts_evictedCreditCount acc + tr_evictedCreditCount tr,
                ts_evictedGenuineCount = ts_evictedGenuineCount acc + tr_evictedGenuineCount tr,
                ts_trimEventCount = ts_trimEventCount acc + 1\<rparr> (g_trimAccumulators g)\<rparr>)"

definition stamp_file :: "world \<Rightarrow> string \<Rightarrow> guard \<Rightarrow> guard" where
  "stamp_file w path g =
     g\<lparr>g_fileTime := ft_read (w_resolve w) (w_disk w) (w_now w) (g_sessionId g) path (g_fileTime g)\<rparr>"

definition recordRead :: "world \<Rightarrow> read_opts \<Rightarrow> read_record \<Rightarrow> guard \<Rightarrow> guard" where
  "recordRead w opts record g =
     (let filePath = w_key w (rr_filePath record);
          g1 = (case ro_supersedes opts of
                  None \<Rightarrow> g
                | Some toolCallId \<Rightarrow> snd (dropProvisionalReadByCall toolCallId g));
          g2 = g1\<lparr>g_knownPathIndex :=
                   jm_set (normalizeEphemeralMapKey (w_win32 w) (rr_filePath record)) filePath
                     (g_knownPathIndex g1)\<rparr>;
          arr = reads_of g2 filePath @ [stored_record w opts record];
          trim = enforceRecordCapForFile arr;
          g3 = g2\<lparr>g_consumedReadFiles := g_consumedReadFiles g2 - {filePath},
                  g_reads := jm_set filePath (fst trim) (g_reads g2)\<rparr>;
          g4 = note_trim filePath (snd trim) (enforceFileCap (touchFile (w_now w) filePath g3))
      in if ro_stampFileTime opts then stamp_file w filePath g4 else g4)"

definition recordSymbolRead ::
  "world \<Rightarrow> string \<Rightarrow> symbol_info \<Rightarrow> int \<Rightarrow> int \<Rightarrow> string option \<Rightarrow> guard \<Rightarrow> guard" where
  "recordSymbolRead w filePath symbol turnIndex writeIndex toolCallId g =
     (let span = max 1 (sy_endLine symbol - sy_startLine symbol + 1)
      in recordRead w default_read_opts
           \<lparr>rr_filePath = filePath, rr_requestedOffset = sy_startLine symbol, rr_requestedLimit = span,
            rr_effectiveOffset = sy_startLine symbol, rr_effectiveLimit = span, rr_expandedByLsp = False,
            rr_enclosingSymbol = Some symbol, rr_lineHashes = None, rr_contentBinding = None,
            rr_searchCredit = None, rr_turnIndex = turnIndex, rr_writeIndex = writeIndex,
            rr_timestamp = w_now w, rr_source = None, rr_provisional = False,
            rr_toolCallId = toolCallId\<rparr> g)"

text \<open>The lines a creation read credits, and their hashes when the written text is known.\<close>

definition creation_evidence :: "world \<Rightarrow> string \<Rightarrow> js_text option \<Rightarrow> (nat \<times> line_hashes option) option" where
  "creation_evidence w filePath writtenContent =
     (case writtenContent of
        Some content \<Rightarrow> Some (deliveredLineEvidence content 1)
      | None \<Rightarrow> map_option (\<lambda>lines. (length lines, None)) (read_lines (w_disk w) filePath))"

definition injectCreationRead ::
  "world \<Rightarrow> string \<Rightarrow> int \<Rightarrow> int \<Rightarrow> string option \<Rightarrow> js_text option \<Rightarrow> guard \<Rightarrow> guard" where
  "injectCreationRead w filePath turnIndex writeIndex toolCallId writtenContent g =
     (case creation_evidence w filePath writtenContent of
        None \<Rightarrow> g
      | Some (lineCount, lineHashes) \<Rightarrow>
          if lineCount = 0 then g
          else recordRead w default_read_opts
                 \<lparr>rr_filePath = filePath, rr_requestedOffset = 1, rr_requestedLimit = int lineCount,
                  rr_effectiveOffset = 1, rr_effectiveLimit = int lineCount, rr_expandedByLsp = False,
                  rr_enclosingSymbol = None, rr_lineHashes = lineHashes, rr_contentBinding = None,
                  rr_searchCredit = None, rr_turnIndex = turnIndex, rr_writeIndex = writeIndex,
                  rr_timestamp = w_now w, rr_source = None, rr_provisional = False,
                  rr_toolCallId = toolCallId\<rparr> g)"

section \<open>Licences and the end of an authorship\<close>

fun add_checked :: "(string \<Rightarrow> string) \<Rightarrow> string list \<Rightarrow> string list \<Rightarrow> string list" where
  "add_checked key [] checked = checked"
| "add_checked key (p # ps) checked =
     (if length checked \<ge> READ_GUARD_MAX_CHECKED_PATHS_PER_CALL then checked
      else add_checked key ps (if key p \<in> set checked then checked else checked @ [key p]))"

definition noteCheckedPaths :: "world \<Rightarrow> string option \<Rightarrow> string list \<Rightarrow> guard \<Rightarrow> guard" where
  "noteCheckedPaths w rawToolCallId rawPaths g =
     (case sanitizeCorrelationId (w_hashText w) rawToolCallId of
        None \<Rightarrow> g
      | Some toolCallId \<Rightarrow>
          if rawPaths = [] then g
          else case fifo_get (g_checkedPathsByCall g) toolCallId of
                 None \<Rightarrow>
                   g\<lparr>g_checkedPathsByCall :=
                       fst (fifo_set toolCallId (add_checked (w_key w) rawPaths []) (g_checkedPathsByCall g))\<rparr>
               | Some checked \<Rightarrow>
                   g\<lparr>g_checkedPathsByCall := (g_checkedPathsByCall g)
                       \<lparr>entries := jm_set toolCallId (add_checked (w_key w) rawPaths checked)
                                     (entries (g_checkedPathsByCall g))\<rparr>\<rparr>)"

definition consumeCheckedAtCall :: "world \<Rightarrow> string option \<Rightarrow> string \<Rightarrow> guard \<Rightarrow> bool \<times> guard" where
  "consumeCheckedAtCall w rawToolCallId filePath g =
     (case sanitizeCorrelationId (w_hashText w) rawToolCallId of
        None \<Rightarrow> (False, g)
      | Some callId \<Rightarrow>
          let licensedPath = w_key w filePath
          in case fifo_get (g_checkedPathsByCall g) callId of
               None \<Rightarrow> (False, g)
             | Some checked \<Rightarrow>
                 if licensedPath \<notin> set checked then (False, g)
                 else
                   let left = filter (\<lambda>p. p \<noteq> licensedPath) checked
                   in (True,
                       g\<lparr>g_checkedPathsByCall :=
                           (if left = [] then fst (fifo_delete callId (g_checkedPathsByCall g))
                            else (g_checkedPathsByCall g)
                              \<lparr>entries := jm_set callId left (entries (g_checkedPathsByCall g))\<rparr>)\<rparr>))"

definition retireIfChanged :: "world \<Rightarrow> string \<Rightarrow> guard \<Rightarrow> bool \<times> guard" where
  "retireIfChanged w filePath g =
     (case jm_get (g_writtenThisSession g) filePath of
        None \<Rightarrow> (False, g)
      | Some authored \<Rightarrow>
          if ab_retired authored then (False, g)
          else
            let (intact, refreshed) = authoredBytesIntact (w_disk w) filePath authored
            in if intact
               then (False, g\<lparr>g_writtenThisSession := jm_set filePath refreshed (g_writtenThisSession g)\<rparr>)
               else (True, g\<lparr>g_writtenThisSession :=
                               jm_set filePath (refreshed\<lparr>ab_retired := True\<rparr>) (g_writtenThisSession g)\<rparr>))"

definition retireChangedAuthorship :: "world \<Rightarrow> string \<Rightarrow> guard \<Rightarrow> bool \<times> guard" where
  "retireChangedAuthorship w rawFilePath g = retireIfChanged w (w_key w rawFilePath) g"

definition fileTimeMoved :: "world \<Rightarrow> string \<Rightarrow> guard \<Rightarrow> bool" where
  "fileTimeMoved w filePath g =
     ft_hasChanged (w_resolve w) (w_disk w) (w_now w) (g_sessionId g) (w_key w filePath) (g_fileTime g)"

definition diskMovedSinceStamp :: "world \<Rightarrow> string \<Rightarrow> guard \<Rightarrow> bool" where
  "diskMovedSinceStamp w filePath g =
     (ft_get (w_resolve w) (g_sessionId g) (w_key w filePath) (g_fileTime g) \<noteq> None \<and>
      ft_hasChanged (w_resolve w) (w_disk w) (w_now w) (g_sessionId g) (w_key w filePath) (g_fileTime g))"

section \<open>Writes\<close>

datatype authorship_kind = Partial | WholeFile | Unknown

record write_opts =
  wo_branchEpoch :: "nat option"
  wo_stampFileTime :: bool
  wo_writtenContent :: "js_text option"
  wo_toolCallId :: "string option"
  wo_contentHash :: "string option"
  wo_authoredRanges :: "line_range list option"
  wo_authorship :: "authorship_kind option"
  wo_allowFirstAuthorship :: bool
  wo_advanceAuthorship :: "bool option"

definition default_write_opts :: write_opts where
  "default_write_opts =
     \<lparr>wo_branchEpoch = None, wo_stampFileTime = True, wo_writtenContent = None, wo_toolCallId = None,
      wo_contentHash = None, wo_authoredRanges = None, wo_authorship = None,
      wo_allowFirstAuthorship = True, wo_advanceAuthorship = None\<rparr>"

definition mayAdvanceAuthorship :: "world \<Rightarrow> string \<Rightarrow> write_opts \<Rightarrow> guard \<Rightarrow> bool \<times> guard" where
  "mayAdvanceAuthorship w filePath opts g =
     (case wo_advanceAuthorship opts of
        None \<Rightarrow> (True, g)
      | Some advance \<Rightarrow>
          if \<not> advance then (False, g) else consumeCheckedAtCall w (wo_toolCallId opts) filePath g)"

text \<open>
  The entry a credit stores. \<open>keeps\<close>, \<open>nextRanges\<close> and \<open>composedRanges\<close> are the locals of
  \<open>creditAuthorship\<close>.
\<close>

definition credit_keeps :: "write_opts \<Rightarrow> read_record list \<Rightarrow> bool" where
  "credit_keeps opts reads =
     (wo_authorship opts \<noteq> Some Unknown \<or> list_ex (\<lambda>read. rr_toolCallId read \<noteq> None) reads)"

definition credit_next_ranges ::
  "write_opts \<Rightarrow> bool \<Rightarrow> authored_bytes option \<Rightarrow> line_range list option" where
  "credit_next_ranges opts keeps existing =
     (case existing of
        None \<Rightarrow> wo_authoredRanges opts
      | Some old \<Rightarrow>
          if keeps \<and> ab_ranges old = None then None
          else Some (case wo_authoredRanges opts of None \<Rightarrow> [] | Some rs \<Rightarrow> rs))"

definition credited_entry :: "world \<Rightarrow> string \<Rightarrow> write_opts \<Rightarrow> bool \<Rightarrow> authored_bytes option \<Rightarrow> authored_bytes" where
  "credited_entry w filePath opts keeps existing =
     (let nextRanges = credit_next_ranges opts keeps existing;
          observed = observeAuthoredBytes (w_disk w) filePath (wo_contentHash opts) nextRanges;
          composedRanges =
            (case (nextRanges, existing) of
               (Some next_ranges, Some old) \<Rightarrow>
                 if keeps \<and> ab_ranges old \<noteq> None
                 then Some (composeAuthoredRanges old next_ranges (ab_lineCount observed))
                 else nextRanges
             | _ \<Rightarrow> nextRanges);
          toolCallId = (case wo_toolCallId opts of
                          Some t \<Rightarrow> Some t
                        | None \<Rightarrow> (case existing of None \<Rightarrow> None | Some old \<Rightarrow> ab_toolCallId old))
      in observed\<lparr>ab_ranges := composedRanges, ab_toolCallId := toolCallId\<rparr>)"

definition creditAuthorship :: "world \<Rightarrow> string \<Rightarrow> write_opts \<Rightarrow> guard \<Rightarrow> guard" where
  "creditAuthorship w filePath opts g =
     (let existing = jm_get (g_writtenThisSession g) filePath in
      if existing = None \<and> \<not> wo_allowFirstAuthorship opts then g
      else if existing \<noteq> None \<and> ab_retired (the existing) then g
      else
        let (may, g1) = (if existing = None then (True, g) else mayAdvanceAuthorship w filePath opts g)
        in if \<not> may then snd (retireIfChanged w filePath g1)
           else if wo_authorship opts = Some Unknown \<and> existing = None then g1
           else
             let keeps = credit_keeps opts (reads_of g1 filePath);
                 entry = credited_entry w filePath opts keeps existing
             in enforceAuthorshipCap
                  (g1\<lparr>g_writtenThisSession := jm_set filePath entry (jm_delete filePath (g_writtenThisSession g1))\<rparr>))"

definition noteCreatedFile :: "world \<Rightarrow> string \<Rightarrow> int \<Rightarrow> int \<Rightarrow> string option \<Rightarrow> guard \<Rightarrow> guard" where
  "noteCreatedFile w filePath turnIndex writeIndex toolCallId g =
     g\<lparr>g_pendingCreations := jm_set (normalizeEphemeralMapKey (w_win32 w) filePath)
         \<lparr>pc_turnIndex = turnIndex, pc_writeIndex = writeIndex, pc_toolCallId = toolCallId\<rparr>
         (g_pendingCreations g)\<rparr>"

text \<open>The write is indexed, stamped, credited, and consumes the outstanding reads of the file.\<close>

definition write_landed :: "world \<Rightarrow> string \<Rightarrow> string \<Rightarrow> write_opts \<Rightarrow> guard \<Rightarrow> guard" where
  "write_landed w filePath creationKey opts g =
     (let g1 = g\<lparr>g_knownPathIndex := jm_set creationKey filePath (g_knownPathIndex g)\<rparr>;
          g2 = (if wo_stampFileTime opts then stamp_file w filePath g1 else g1);
          g3 = creditAuthorship w filePath opts g2;
          g4 = (if jm_has (g_reads g3) filePath
                then g3\<lparr>g_consumedReadFiles := insert filePath (g_consumedReadFiles g3)\<rparr> else g3)
      in enforceFileCap (touchFile (w_now w) filePath g4))"

definition recordWritten :: "world \<Rightarrow> string \<Rightarrow> write_opts \<Rightarrow> guard \<Rightarrow> guard" where
  "recordWritten w rawFilePath opts g =
     (if wo_branchEpoch opts \<noteq> None \<and> wo_branchEpoch opts \<noteq> Some (g_branchEpoch g) then g
      else
        let filePath = w_key w rawFilePath;
            creationKey = normalizeEphemeralMapKey (w_win32 w) rawFilePath;
            g5 = write_landed w filePath creationKey opts g
        in case jm_get (g_pendingCreations g5) creationKey of
             None \<Rightarrow> g5
           | Some creation \<Rightarrow>
               injectCreationRead w filePath (pc_turnIndex creation) (pc_writeIndex creation)
                 (pc_toolCallId creation) (wo_writtenContent opts)
                 (g5\<lparr>g_pendingCreations := jm_delete creationKey (g_pendingCreations g5)\<rparr>))"

end
