(* ===== verification/Guard_Check.thy ===== *)
theory Guard_Check
  imports Guard_Records
begin

text \<open>
  The decision of the read guard, \<open>ReadGuard.checkEdit\<close>, and the checks it is made of. The
  messages are values of \<open>verdict_reason\<close>. The source compares read records by reference, so a
  view of a line is a position in the file's list of reads.
\<close>

section \<open>Definitions\<close>

subsection \<open>Verdicts\<close>

datatype verdict_action = Allow | Block | Warn

datatype snapshot_status = SnapMatch | SnapMismatch | SnapUnavailable

record snapshot_validation =
  sv_status :: snapshot_status
  sv_missingLines :: "int list"
  sv_mismatchedLines :: "int list"
  sv_shouldBlock :: bool

type_synonym relocation = "line_range \<times> line_range"

record verdict_details =
  vd_editRange :: line_range
  vd_readRanges :: "line_range list"
  vd_symbolRanges :: "(string \<times> int \<times> int) list"
  vd_snapshot :: "snapshot_validation option"
  vd_relocation :: "relocation option"

record verdict =
  v_action :: verdict_action
  v_reason :: "verdict_reason option"
  v_details :: "verdict_details option"
  v_relocation :: "relocation option"

definition blockOrWarn ::
  "guard \<Rightarrow> verdict_reason \<Rightarrow> verdict_details option \<Rightarrow> guard_mode option \<Rightarrow> verdict" where
  "blockOrWarn g message details overrideMode =
     \<lparr>v_action = (if (case overrideMode of Some m \<Rightarrow> m | None \<Rightarrow> c_mode (g_config g)) = ModeWarn
                  then Warn else Block),
      v_reason = Some message, v_details = details, v_relocation = None\<rparr>"

definition allow_verdict :: verdict where
  "allow_verdict = \<lparr>v_action = Allow, v_reason = None, v_details = None, v_relocation = None\<rparr>"

fun mapVerdictAction :: "verdict_action \<Rightarrow> edit_verdict" where
  "mapVerdictAction Allow = Allowed"
| "mapVerdictAction Block = Blocked"
| "mapVerdictAction Warn = Warned"

definition recordEdit :: "world \<Rightarrow> string \<Rightarrow> string \<Rightarrow> line_range \<Rightarrow> verdict \<Rightarrow> guard \<Rightarrow> guard" where
  "recordEdit w filePath tool touchedLines v g =
     (let g1 = touchFile (w_now w) filePath g;
          arr = edits_of g1 filePath @
            [\<lparr>er_filePath = filePath, er_tool = tool, er_touchedLines = touchedLines,
              er_verdict = mapVerdictAction (v_action v), er_reason = v_reason v, er_timestamp = w_now w\<rparr>];
          kept = (if length arr > READ_GUARD_MAX_EDITS_PER_FILE
                  then drop (length arr - READ_GUARD_MAX_EDITS_PER_FILE) arr else arr)
      in g1\<lparr>g_edits := jm_set filePath kept (g_edits g1)\<rparr>)"

definition recordVerdict ::
  "world \<Rightarrow> string \<Rightarrow> string \<Rightarrow> line_range option \<Rightarrow> verdict \<Rightarrow> guard \<Rightarrow> guard" where
  "recordVerdict w filePath tool touchedLines v g =
     recordEdit w filePath tool (case touchedLines of Some r \<Rightarrow> r | None \<Rightarrow> (1, 1)) v g"

subsection \<open>Exemptions\<close>

fun collapse_stars :: "string \<Rightarrow> string" where
  "collapse_stars (a # b # rest) =
     (if a = CHR ''*'' \<and> b = CHR ''*'' then collapse_stars (b # rest) else a # collapse_stars (b # rest))"
| "collapse_stars s = s"

text \<open>The three replacements of the source, in order: backslashes, dots, stars.\<close>

definition pattern_regex :: "string \<Rightarrow> string" where
  "pattern_regex pattern =
     (let replace = (\<lambda>x y. concat \<circ> map (\<lambda>c. if c = x then y else [c]))
      in ''^'' @ replace (CHR ''*'') ''.*''
                   (replace (CHR ''.'') [CHR 92, CHR ''.'']
                     (replace (CHR 92) [CHR 92, CHR 92] (collapse_stars pattern))) @ ''$'')"

definition matchesPattern :: "world \<Rightarrow> string \<Rightarrow> string \<Rightarrow> bool" where
  "matchesPattern w filePath pattern =
     (if starts_with pattern ''*'' then ends_with filePath (drop 1 pattern)
      else if CHR ''*'' \<in> set pattern then w_regexTest w (pattern_regex pattern) filePath
      else filePath = pattern)"

definition getExemptionMode :: "world \<Rightarrow> guard \<Rightarrow> string \<Rightarrow> exemption_mode option" where
  "getExemptionMode w g filePath =
     map_option snd (find (\<lambda>(pattern, _). matchesPattern w filePath pattern) (c_exemptions (g_config g)))"

subsection \<open>Coverage\<close>

definition padded_range :: "int \<Rightarrow> read_record \<Rightarrow> line_range" where
  "padded_range ctx read =
     (max 1 (rr_effectiveOffset read - ctx), rr_effectiveOffset read + rr_effectiveLimit read - 1 + ctx)"

text \<open>The first pass: \<open>Some viaSymbol\<close> at the first confirmed read that covers the edit.\<close>

fun first_cover :: "int \<Rightarrow> line_range \<Rightarrow> read_record list \<Rightarrow> bool option" where
  "first_cover ctx edit [] = None"
| "first_cover ctx edit (read # reads) =
     (if rr_provisional read then first_cover ctx edit reads
      else if fst edit \<ge> fst (padded_range ctx read) \<and> snd edit \<le> snd (padded_range ctx read) then Some False
      else case rr_enclosingSymbol read of
             None \<Rightarrow> first_cover ctx edit reads
           | Some symbol \<Rightarrow>
               if sy_startLine symbol \<le> fst edit \<and> sy_endLine symbol \<ge> snd edit then Some True
               else first_cover ctx edit reads)"

definition checkCoverage :: "guard \<Rightarrow> string \<Rightarrow> line_range \<Rightarrow> bool \<times> bool" where
  "checkCoverage g filePath touchedLines =
     (let reads = reads_of g filePath; ctx = c_contextLines (g_config g)
      in case first_cover ctx touchedLines reads of
           Some viaSymbol \<Rightarrow> (True, viaSymbol)
         | None \<Rightarrow>
             (within (merge_ranges (map (padded_range ctx) (filter (\<lambda>r. \<not> rr_provisional r) reads))) touchedLines,
              False))"

subsection \<open>Freshness by line hashes\<close>

definition ranges_to_check :: "line_range \<Rightarrow> line_range list option \<Rightarrow> line_range list" where
  "ranges_to_check touchedLines editRanges =
     (case editRanges of
        Some rs \<Rightarrow> if length rs > 1 then rs else [touchedLines]
      | None \<Rightarrow> [touchedLines])"

definition readRangeHashesStillMatch :: "read_record \<Rightarrow> js_text list \<Rightarrow> line_range \<Rightarrow> bool" where
  "readRangeHashesStillMatch read lines rng =
     list_all (\<lambda>n. readRangeCoversLine read n \<and> line_matches lines read n) [fst rng..snd rng]"

definition readHashesStillMatch :: "read_record \<Rightarrow> js_text list \<Rightarrow> bool" where
  "readHashesStillMatch read lines =
     (case rr_lineHashes read of
        None \<Rightarrow> False
      | Some hashes \<Rightarrow>
          hashes \<noteq> [] \<and>
          list_all (\<lambda>(n, expected). map_option lineContentHash (line_at lines n) = Some expected) hashes)"

definition canIgnoreStalenessByHashes ::
  "world \<Rightarrow> string \<Rightarrow> read_record list \<Rightarrow> line_range option \<Rightarrow> line_range list option \<Rightarrow> bool" where
  "canIgnoreStalenessByHashes w filePath reads touchedLines editRanges =
     (case read_lines (w_disk w) filePath of
        None \<Rightarrow> False
      | Some lines \<Rightarrow>
          (case touchedLines of
             None \<Rightarrow> reads \<noteq> [] \<and> readHashesStillMatch (last reads) lines
           | Some touched \<Rightarrow>
               list_all (\<lambda>rng. list_all (\<lambda>n. case newestViewOfLine reads n of
                                               None \<Rightarrow> False
                                             | Some i \<Rightarrow> readRangeHashesStillMatch (reads ! i) lines (n, n))
                                        [fst rng..snd rng])
                 (ranges_to_check touched editRanges)))"

text \<open>
  \<open>validateRangeSnapshot\<close>: lines that cannot be checked are missing; the others are grouped in
  runs that share one view, and each run is compared with the disk.
\<close>

definition run_step ::
  "read_record list \<Rightarrow> (nat \<times> line_range) list \<times> int list \<Rightarrow> int \<Rightarrow> (nat \<times> line_range) list \<times> int list" where
  "run_step reads st n =
     (case newestViewOfLine reads n of
        None \<Rightarrow> (fst st, snd st @ [n])
      | Some i \<Rightarrow>
          if recorded_hash (reads ! i) n = None then (fst st, snd st @ [n])
          else if fst st \<noteq> [] \<and> fst (last (fst st)) = i \<and> snd (snd (last (fst st))) = n - 1
          then (butlast (fst st) @ [(i, fst (snd (last (fst st))), n)], snd st)
          else (fst st @ [(i, n, n)], snd st))"

definition validateRangeSnapshot :: "world \<Rightarrow> guard \<Rightarrow> string \<Rightarrow> line_range \<Rightarrow> snapshot_validation" where
  "validateRangeSnapshot w g filePath rng =
     (let reads = reads_of g filePath;
          (runs, missing) = foldl (run_step reads) ([], []) [fst rng..snd rng];
          mismatched = concat (map (\<lambda>(i, r).
             se_mismatched (currentLinesMatchReadSnapshot (w_disk w) filePath (reads ! i) r)) runs);
          status = (if mismatched \<noteq> [] then SnapMismatch else if missing = [] then SnapMatch else SnapUnavailable)
      in \<lparr>sv_status = status, sv_missingLines = missing, sv_mismatchedLines = mismatched,
          sv_shouldBlock = (status = SnapMismatch)\<rparr>)"

text \<open>\<open>bound\<close> is the position of the bound read.\<close>

definition newerReadSupersedesBinding ::
  "world \<Rightarrow> string \<Rightarrow> read_record list \<Rightarrow> nat \<Rightarrow> line_range option \<Rightarrow> line_range list option \<Rightarrow> bool" where
  "newerReadSupersedesBinding w filePath fileReads bound touchedLines editRanges =
     (case touchedLines of
        None \<Rightarrow> False
      | Some touched \<Rightarrow>
          list_ex (\<lambda>candidate.
              \<not> rr_provisional candidate \<and>
              list_all (\<lambda>rng. let evidence = currentLinesMatchReadSnapshot (w_disk w) filePath candidate rng
                              in se_checked evidence \<and> se_matches evidence)
                (ranges_to_check touched editRanges))
            (rev (drop (bound + 1) fileReads)))"

subsection \<open>Relocation\<close>

definition RELOCATION_WINDOW_MIN :: int where "RELOCATION_WINDOW_MIN = 40"
definition RELOCATION_WINDOW_PER_EDIT :: int where "RELOCATION_WINDOW_PER_EDIT = 20"
definition RELOCATION_WINDOW_MAX :: int where "RELOCATION_WINDOW_MAX = 400"

definition relocation_window :: "guard \<Rightarrow> string \<Rightarrow> int" where
  "relocation_window g filePath =
     min RELOCATION_WINDOW_MAX
       (max RELOCATION_WINDOW_MIN
         (int (length (filter (\<lambda>e. er_verdict e \<noteq> Blocked) (edits_of g filePath))) * RELOCATION_WINDOW_PER_EDIT))"

text \<open>The 1-based starts at which the wanted hashes appear among the current ones.\<close>

definition match_starts :: "string list \<Rightarrow> string list \<Rightarrow> int list" where
  "match_starts currentHashes wanted =
     map (\<lambda>i. int i + 1)
       (filter (\<lambda>i. take (length wanted) (drop i currentHashes) = wanted)
         [0..<length currentHashes + 1 - length wanted])"

definition wanted_hashes :: "read_record list \<Rightarrow> nat \<Rightarrow> line_range \<Rightarrow> string list option" where
  "wanted_hashes reads source rng =
     (if list_all (\<lambda>n. recorded_hash (reads ! source) n \<noteq> None \<and> newestViewOfLine reads n = Some source)
           [fst rng..snd rng]
      then Some (map (\<lambda>n. the (recorded_hash (reads ! source) n)) [fst rng..snd rng]) else None)"

definition findRelocation ::
  "world \<Rightarrow> guard \<Rightarrow> string \<Rightarrow> read_record list \<Rightarrow> line_range \<Rightarrow> relocation option" where
  "findRelocation w g filePath reads rng =
     (let span = snd rng - fst rng + 1
      in if span < 2 then None
         else
           case newestViewOfLine reads (fst rng) of
             None \<Rightarrow> None
           | Some source \<Rightarrow>
               if rr_lineHashes (reads ! source) = None then None
               else
                 case wanted_hashes reads source rng of
                   None \<Rightarrow> None
                 | Some wanted \<Rightarrow>
                     (case read_lines (w_disk w) filePath of
                        None \<Rightarrow> None
                      | Some lines \<Rightarrow>
                          let matchStarts = match_starts (map lineContentHash lines) wanted;
                              window = relocation_window g filePath;
                              local_starts = filter (\<lambda>s. s \<ge> fst rng - window \<and> s \<le> snd rng + window) matchStarts;
                              newStart =
                                (if length matchStarts = 1 then Some (hd matchStarts)
                                 else if length matchStarts > 1 \<and> length local_starts = 1
                                 then Some (hd local_starts) else None)
                          in case newStart of
                               None \<Rightarrow> None
                             | Some s \<Rightarrow> if s = fst rng then None else Some (rng, (s, s + span - 1))))"

subsection \<open>The edit check\<close>

record check_opts =
  co_skipSnapshotCheck :: bool
  co_oldTextResolved :: bool

definition default_check_opts :: check_opts where
  "default_check_opts = \<lparr>co_skipSnapshotCheck = False, co_oldTextResolved = False\<rparr>"

definition symbol_ranges :: "read_record list \<Rightarrow> (string \<times> int \<times> int) list" where
  "symbol_ranges reads =
     List.map_filter (\<lambda>r. map_option (\<lambda>s. (sy_name s, sy_startLine s, sy_endLine s)) (rr_enclosingSymbol r)) reads"

definition read_ranges :: "read_record list \<Rightarrow> line_range list" where
  "read_ranges reads = map (\<lambda>r. (rr_effectiveOffset r, rr_effectiveOffset r + rr_effectiveLimit r - 1)) reads"

text \<open>The zero-read branch: only an intact authorship that covers the edit lets it pass.\<close>

definition check_zero_read ::
  "world \<Rightarrow> string \<Rightarrow> line_range option \<Rightarrow> line_range list option \<Rightarrow> guard_mode option \<Rightarrow> guard \<Rightarrow> verdict \<times> guard" where
  "check_zero_read w filePath touchedLines editRanges effectiveMode g0 =
     (let g = snd (retireChangedAuthorship w filePath g0)
      in case jm_get (g_writtenThisSession g) filePath of
           Some authored \<Rightarrow>
             if ab_retired authored then (blockOrWarn g (AuthorshipRetired filePath) None effectiveMode, g)
             else if authoredRangeCovers authored touchedLines editRanges then
               (allow_verdict,
                if ab_ranges authored = None
                then injectCreationRead w filePath 0 0 (ab_toolCallId authored) None g else g)
             else (blockOrWarn g (AuthorshipRange filePath) None effectiveMode, g)
         | None \<Rightarrow>
             (blockOrWarn g (ZeroRead filePath (bset_has (g_expiredWrites g) filePath)) None effectiveMode, g))"

text \<open>The position of the newest read with a content binding.\<close>

definition last_bound :: "read_record list \<Rightarrow> nat option" where
  "last_bound reads = find (\<lambda>i. rr_contentBinding (reads ! i) \<noteq> None) (rev [0..<length reads])"

definition binding_stale ::
  "world \<Rightarrow> string \<Rightarrow> read_record list \<Rightarrow> line_range option \<Rightarrow> line_range list option \<Rightarrow> nat option" where
  "binding_stale w filePath fileReads touchedLines editRanges =
     (case last_bound fileReads of
        None \<Rightarrow> None
      | Some i \<Rightarrow>
          (case rr_contentBinding (fileReads ! i) of
             None \<Rightarrow> None
           | Some binding \<Rightarrow>
               if \<not> currentContentMatchesBinding (w_disk w) (w_sha w) filePath binding \<and>
                  \<not> newerReadSupersedesBinding w filePath fileReads i touchedLines editRanges
               then Some i else None))"

text \<open>One range: \<open>None\<close> when it passes, else the verdict.\<close>

definition check_range ::
  "world \<Rightarrow> guard \<Rightarrow> string \<Rightarrow> nat \<Rightarrow> check_opts \<Rightarrow> guard_mode option \<Rightarrow> line_range \<Rightarrow> verdict option" where
  "check_range w g filePath rangeCount opts effectiveMode rng =
     (let fileReads = reads_of g filePath in
      if \<not> fst (checkCoverage g filePath rng) then
        Some (blockOrWarn g (OutOfRange filePath rng)
                (Some \<lparr>vd_editRange = rng, vd_readRanges = read_ranges fileReads,
                       vd_symbolRanges = symbol_ranges fileReads, vd_snapshot = None, vd_relocation = None\<rparr>)
                (if co_oldTextResolved opts then Some ModeWarn else effectiveMode))
      else
        let snapshot = validateRangeSnapshot w g filePath rng
        in if sv_shouldBlock snapshot \<and> \<not> co_skipSnapshotCheck opts then
             let relocated = findRelocation w g filePath fileReads rng;
                 v = blockOrWarn g (RangeStale filePath rng relocated)
                       (Some \<lparr>vd_editRange = rng, vd_readRanges = read_ranges fileReads,
                              vd_symbolRanges = symbol_ranges fileReads, vd_snapshot = Some snapshot,
                              vd_relocation = relocated\<rparr>)
                       effectiveMode
             in Some (if relocated \<noteq> None \<and> rangeCount = 1 then v\<lparr>v_relocation := relocated\<rparr> else v)
           else None)"

fun first_some :: "('a \<Rightarrow> 'b option) \<Rightarrow> 'a list \<Rightarrow> 'b option" where
  "first_some f [] = None"
| "first_some f (x # xs) = (case f x of Some y \<Rightarrow> Some y | None \<Rightarrow> first_some f xs)"

text \<open>The checks on a file with reads.\<close>

definition check_read_file ::
  "world \<Rightarrow> string \<Rightarrow> line_range option \<Rightarrow> line_range list option \<Rightarrow> check_opts \<Rightarrow> guard_mode option \<Rightarrow> guard \<Rightarrow> verdict" where
  "check_read_file w filePath touchedLines editRanges opts effectiveMode g =
     (let fileReads = reads_of g filePath in
      case binding_stale w filePath fileReads touchedLines editRanges of
        Some i \<Rightarrow> blockOrWarn g (BindingMismatch filePath (rr_timestamp (fileReads ! i))) None effectiveMode
      | None \<Rightarrow>
          if ft_hasChanged (w_resolve w) (w_disk w) (w_now w) (g_sessionId g) filePath (g_fileTime g) \<and>
             \<not> co_oldTextResolved opts \<and>
             \<not> canIgnoreStalenessByHashes w filePath fileReads touchedLines editRanges
          then blockOrWarn g (FileModified filePath (rr_timestamp (last fileReads))) None effectiveMode
          else
            case touchedLines of
              None \<Rightarrow> allow_verdict
            | Some touched \<Rightarrow>
                let ranges = ranges_to_check touched editRanges
                in case first_some (check_range w g filePath (length ranges) opts effectiveMode) ranges of
                     Some v \<Rightarrow> v
                   | None \<Rightarrow> allow_verdict)"

definition checkEdit ::
  "world \<Rightarrow> string \<Rightarrow> line_range option \<Rightarrow> line_range list option \<Rightarrow> check_opts \<Rightarrow> guard \<Rightarrow> verdict \<times> guard" where
  "checkEdit w rawFilePath touchedLines editRanges opts g =
     (let filePath = w_key w rawFilePath;
          g1 = (if jm_has (g_reads g) filePath \<or> jm_has (g_edits g) filePath
                then touchFile (w_now w) filePath g else g);
          finish = (\<lambda>(v, h). (v, recordVerdict w filePath ''edit'' touchedLines v h))
      in if filePath \<in> g_exemptions g1 then
           finish (allow_verdict, g1\<lparr>g_exemptions := g_exemptions g1 - {filePath}\<rparr>)
         else
           let exemptionMode = getExemptionMode w g1 filePath
           in if exemptionMode = Some ExemptAllow then finish (allow_verdict, g1)
              else
                let effectiveMode = (if exemptionMode = Some ExemptWarn then Some ModeWarn else None)
                in if reads_of g1 filePath = []
                   then finish (check_zero_read w filePath touchedLines editRanges effectiveMode g1)
                   else finish (check_read_file w filePath touchedLines editRanges opts effectiveMode g1, g1))"

end
