(* ===== verification/Guard_Session.thy ===== *)
theory Guard_Session
  imports Guard_Check
begin

text \<open>
  The session side of \<open>ReadGuard\<close>: known paths, exemptions, queries, and what survives a move to
  another branch of the conversation or a resume (\<open>retainBranch\<close>, \<open>exportState\<close>/\<open>importBranch\<close>,
  \<open>exportAuthorship\<close>/\<open>importAuthorship\<close>). A field of a persisted row, which arrives as
  \<open>unknown\<close>, is absent, of a wrong type, or a typed value.
\<close>

section \<open>Definitions\<close>

definition isNewFile :: "world \<Rightarrow> string \<Rightarrow> bool" where
  "isNewFile w filePath = (w_disk w filePath = None)"

definition hasKnownPath :: "world \<Rightarrow> string \<Rightarrow> guard \<Rightarrow> bool" where
  "hasKnownPath w filePath g =
     (case jm_get (g_knownPathIndex g) (normalizeEphemeralMapKey (w_win32 w) filePath) of
        None \<Rightarrow> False
      | Some stored \<Rightarrow> jm_has (g_reads g) stored \<or> jm_has (g_writtenThisSession g) stored)"

definition getTrackedPaths :: "guard \<Rightarrow> string list" where
  "getTrackedPaths g =
     jm_keys (g_reads g) @ filter (\<lambda>p. \<not> jm_has (g_reads g) p) (jm_keys (g_writtenThisSession g))"

definition forgetPath :: "world \<Rightarrow> string \<Rightarrow> guard \<Rightarrow> guard" where
  "forgetPath w filePath g =
     (case jm_get (g_knownPathIndex g) (normalizeEphemeralMapKey (w_win32 w) filePath) of
        Some stored \<Rightarrow> evictFile stored ExternalDelete g
      | None \<Rightarrow> evictFile (w_key w filePath) ExternalDelete g)"

definition addExemption :: "world \<Rightarrow> string \<Rightarrow> guard \<Rightarrow> guard" where
  "addExemption w filePath g = g\<lparr>g_exemptions := insert (w_key w filePath) (g_exemptions g)\<rparr>"

definition getReadHistory :: "world \<Rightarrow> string \<Rightarrow> guard \<Rightarrow> read_record list \<times> guard" where
  "getReadHistory w filePath g =
     (let key = w_key w filePath;
          g1 = (if jm_has (g_reads g) key then touchFile (w_now w) key g else g)
      in (reads_of g1 key, g1))"

definition getEditHistory :: "world \<Rightarrow> string \<Rightarrow> guard \<Rightarrow> edit_record list \<times> guard" where
  "getEditHistory w filePath g =
     (let key = w_key w filePath;
          g1 = (if jm_has (g_edits g) key then touchFile (w_now w) key g else g)
      in (edits_of g1 key, g1))"

definition contentMatchesLastRead :: "world \<Rightarrow> string \<Rightarrow> guard \<Rightarrow> bool option \<times> guard" where
  "contentMatchesLastRead w filePath g =
     (let (reads, g1) = getReadHistory w filePath g
      in (case find (\<lambda>r. case rr_contentBinding r of None \<Rightarrow> False | Some b \<Rightarrow> cb_fullFile b) (rev reads) of
            None \<Rightarrow> None
          | Some r \<Rightarrow> map_option (currentContentMatchesBinding (w_disk w) (w_sha w) filePath) (rr_contentBinding r),
          g1))"

definition getTrimStats :: "world \<Rightarrow> string \<Rightarrow> guard \<Rightarrow> file_trim_stats option" where
  "getTrimStats w filePath g = jm_get (g_trimAccumulators g) (w_key w filePath)"

subsection \<open>Branches\<close>

definition on_branch :: "string set \<Rightarrow> string option \<Rightarrow> bool" where
  "on_branch onBranch callId = (case callId of None \<Rightarrow> False | Some c \<Rightarrow> c \<in> onBranch)"

definition kept_reads :: "string set \<Rightarrow> read_record list \<Rightarrow> read_record list" where
  "kept_reads onBranch records = filter (\<lambda>r. on_branch onBranch (rr_toolCallId r)) records"

definition retainBranch :: "string set \<Rightarrow> guard \<Rightarrow> (nat \<times> nat) \<times> guard" where
  "retainBranch onBranch g =
     ((sum_list (map (\<lambda>(_, records). length (kept_reads onBranch records)) (g_reads g)),
       sum_list (map (\<lambda>(_, records). length records - length (kept_reads onBranch records)) (g_reads g))),
      g\<lparr>g_reads := filter (\<lambda>(_, records). records \<noteq> [])
                      (map (\<lambda>(path, records). (path, kept_reads onBranch records)) (g_reads g)),
        g_writtenThisSession :=
          filter (\<lambda>(_, authored). on_branch onBranch (ab_toolCallId authored)) (g_writtenThisSession g),
        g_edits := [],
        g_expiredWrites := fifo_clear (g_expiredWrites g),
        g_pendingCreations := [],
        g_checkedPathsByCall := fifo_clear (g_checkedPathsByCall g),
        g_fileTime := ft_clear (g_sessionId g) (g_fileTime g),
        g_branchEpoch := g_branchEpoch g + 1\<rparr>)"

definition releaseFileTime :: "guard \<Rightarrow> guard" where
  "releaseFileTime g = g\<lparr>g_fileTime := ft_clear (g_sessionId g) (g_fileTime g)\<rparr>"

subsection \<open>Persisted reads\<close>

definition READ_GUARD_STATE_VERSION :: int where "READ_GUARD_STATE_VERSION = 2"

record persisted_state =
  ps_version :: int
  ps_reads :: "(string \<times> read_record list) list"

definition exportState :: "guard \<Rightarrow> persisted_state" where
  "exportState g = \<lparr>ps_version = READ_GUARD_STATE_VERSION, ps_reads = g_reads g\<rparr>"

definition import_read ::
  "world \<Rightarrow> string set \<Rightarrow> string \<Rightarrow> read_record \<Rightarrow> (nat \<times> nat) \<times> guard \<Rightarrow> (nat \<times> nat) \<times> guard" where
  "import_read w onBranch filePath read st =
     (if w_disk w filePath = None \<or> \<not> on_branch onBranch (rr_toolCallId read)
      then ((fst (fst st), snd (fst st) + 1), snd st)
      else ((fst (fst st) + 1, snd (fst st)),
            recordRead w \<lparr>ro_supersedes = None, ro_stampFileTime = False, ro_captureLineHashes = True\<rparr>
              (read\<lparr>rr_filePath := filePath,
                    rr_lineHashes := Some (case rr_lineHashes read of None \<Rightarrow> [] | Some h \<Rightarrow> h)\<rparr>) (snd st)))"

definition import_file ::
  "world \<Rightarrow> string set \<Rightarrow> string \<times> read_record list \<Rightarrow> (nat \<times> nat) \<times> guard \<Rightarrow> (nat \<times> nat) \<times> guard" where
  "import_file w onBranch entry st = fold (import_read w onBranch (w_key w (fst entry))) (snd entry) st"

definition importBranch ::
  "world \<Rightarrow> persisted_state option \<Rightarrow> string set \<Rightarrow> guard \<Rightarrow> (nat \<times> nat) \<times> guard" where
  "importBranch w state onBranch g =
     (case state of
        None \<Rightarrow> ((0, 0), g)
      | Some st \<Rightarrow>
          if ps_version st \<noteq> READ_GUARD_STATE_VERSION then ((0, 0), g)
          else fold (import_file w onBranch) (ps_reads st) ((0, 0), g))"

subsection \<open>Persisted authorship\<close>

datatype 'a untyped = Absent | IllTyped | Typed 'a

record authorship_row =
  ar_filePath :: "string untyped"
  ar_size :: "int untyped"
  ar_mtimeMs :: "int untyped"
  ar_ctimeMs :: "int untyped"
  ar_hash :: "string untyped"
  ar_toolCallId :: "string untyped"
  ar_retired :: "unit untyped"
  ar_ranges :: "line_range list untyped"
  ar_lineCount :: "int untyped"

record persisted_authorship =
  pa_written :: "string list"
  pa_entries :: "authorship_row list"

definition untyped_of :: "'a option \<Rightarrow> 'a untyped" where
  "untyped_of v = (case v of None \<Rightarrow> Absent | Some x \<Rightarrow> Typed x)"

fun typed_value :: "'a untyped \<Rightarrow> 'a option" where
  "typed_value (Typed x) = Some x"
| "typed_value _ = None"

definition exportAuthorship :: "guard \<Rightarrow> persisted_authorship" where
  "exportAuthorship g =
     \<lparr>pa_written = map fst (filter (\<lambda>(_, a). \<not> ab_retired a) (g_writtenThisSession g)),
      pa_entries =
        map (\<lambda>(path, a).
          \<lparr>ar_filePath = Typed path, ar_size = Typed (ab_size a), ar_mtimeMs = Typed (ab_mtimeMs a),
           ar_ctimeMs = Typed (ab_ctimeMs a), ar_hash = untyped_of (ab_hash a),
           ar_toolCallId = untyped_of (ab_toolCallId a),
           ar_retired = (if ab_retired a then Typed () else Absent),
           ar_ranges = untyped_of (ab_ranges a), ar_lineCount = untyped_of (ab_lineCount a)\<rparr>)
          (g_writtenThisSession g)\<rparr>"

text \<open>The entry a row denotes, when every field passes its check and its write is on the branch.\<close>

definition row_entry :: "string set \<Rightarrow> authorship_row \<Rightarrow> authored_bytes option" where
  "row_entry onBranch row =
     (case (ar_size row, ar_mtimeMs row, ar_ctimeMs row) of
        (Typed bytes, Typed mtimeMs, Typed ctimeMs) \<Rightarrow>
          if on_branch onBranch (typed_value (ar_toolCallId row)) \<and> ar_hash row \<noteq> IllTyped \<and>
             ar_retired row \<noteq> IllTyped \<and> ar_ranges row \<noteq> IllTyped \<and> ar_lineCount row \<noteq> IllTyped
          then Some \<lparr>ab_size = bytes, ab_mtimeMs = mtimeMs, ab_ctimeMs = ctimeMs,
                     ab_hash = typed_value (ar_hash row), ab_toolCallId = typed_value (ar_toolCallId row),
                     ab_retired = (ar_retired row = Typed ()), ab_ranges = typed_value (ar_ranges row),
                     ab_lineCount = typed_value (ar_lineCount row)\<rparr>
          else None
      | _ \<Rightarrow> None)"

definition import_row ::
  "world \<Rightarrow> string set \<Rightarrow> authorship_row \<Rightarrow> (nat \<times> nat) \<times> guard \<Rightarrow> (nat \<times> nat) \<times> guard" where
  "import_row w onBranch row st =
     (case ar_filePath row of
        Typed path \<Rightarrow>
          (case row_entry onBranch row of
             None \<Rightarrow> ((fst (fst st), snd (fst st) + 1), snd st)
           | Some entry \<Rightarrow>
               ((fst (fst st) + 1, snd (fst st)),
                (snd st)\<lparr>g_knownPathIndex :=
                           jm_set (normalizeEphemeralMapKey (w_win32 w) path) (w_key w path)
                             (g_knownPathIndex (snd st)),
                         g_writtenThisSession :=
                           jm_set (w_key w path) entry (g_writtenThisSession (snd st))\<rparr>))
      | _ \<Rightarrow> st)"

definition importAuthorship ::
  "world \<Rightarrow> persisted_authorship \<Rightarrow> string set \<Rightarrow> guard \<Rightarrow> (nat \<times> nat) \<times> guard" where
  "importAuthorship w payload onBranch g =
     (let ((imported, dropped), g1) = fold (import_row w onBranch) (pa_entries payload) ((0, 0), g);
          withEntry = List.map_filter (\<lambda>row. typed_value (ar_filePath row)) (pa_entries payload);
          orphans = length (filter (\<lambda>p. p \<notin> set withEntry) (pa_written payload))
      in ((imported, dropped + orphans), enforceAuthorshipCap g1))"

end
