(* ===== verification/Guard_Lines.thy ===== *)
theory Guard_Lines
  imports Guard_Session
begin

text \<open>
  What the line checks of the read guard decide, stated over sets of lines: which lines the
  confirmed reads cover, what hash the agent last saw of a line, what hash the disk holds, and
  when a line is verified or stale.
\<close>

section \<open>Specification\<close>

definition confirmed :: "read_record list \<Rightarrow> read_record set" where
  "confirmed reads = {r \<in> set reads. \<not> rr_provisional r}"

text \<open>The lines of the confirmed reads, each widened by the context lines.\<close>

definition covered_lines :: "int \<Rightarrow> read_record list \<Rightarrow> int set" where
  "covered_lines ctx reads = (\<Union>r \<in> confirmed reads. {fst (padded_range ctx r)..snd (padded_range ctx r)})"

definition symbol_covers :: "read_record list \<Rightarrow> int set \<Rightarrow> bool" where
  "symbol_covers reads lines =
     (\<exists>r \<in> confirmed reads. \<exists>symbol. rr_enclosingSymbol r = Some symbol \<and>
        lines \<subseteq> {sy_startLine symbol..sy_endLine symbol})"

text \<open>The hash the agent last saw of a line, and the hash of the line on disk.\<close>

definition seen_hash :: "read_record list \<Rightarrow> int \<Rightarrow> string option" where
  "seen_hash reads n =
     (case newestViewOfLine reads n of None \<Rightarrow> None | Some i \<Rightarrow> recorded_hash (reads ! i) n)"

definition disk_hash :: "disk \<Rightarrow> string \<Rightarrow> int \<Rightarrow> string option" where
  "disk_hash disk path n =
     (case read_lines disk path of None \<Rightarrow> None | Some lines \<Rightarrow> map_option lineContentHash (line_at lines n))"

definition verified_line :: "disk \<Rightarrow> string \<Rightarrow> read_record list \<Rightarrow> int \<Rightarrow> bool" where
  "verified_line disk path reads n = (seen_hash reads n \<noteq> None \<and> disk_hash disk path n = seen_hash reads n)"

definition stale_line :: "disk \<Rightarrow> string \<Rightarrow> read_record list \<Rightarrow> int \<Rightarrow> bool" where
  "stale_line disk path reads n = (seen_hash reads n \<noteq> None \<and> disk_hash disk path n \<noteq> seen_hash reads n)"

section \<open>Views\<close>

lemma find_rev_upt_Some:
  assumes "find P (rev [0..<n]) = Some i"
  shows "i < n" "P i" "\<And>j. i < j \<Longrightarrow> j < n \<Longrightarrow> \<not> P j"
proof -
  obtain m where m: "m < length (rev [0..<n])" "P (rev [0..<n] ! m)" "i = rev [0..<n] ! m"
    "\<forall>j<m. \<not> P (rev [0..<n] ! j)" using assms unfolding find_Some_iff by blast
  have nth: "k < n \<Longrightarrow> rev [0..<n] ! k = n - Suc k" for k by (simp add: rev_nth)
  show "i < n" "P i" using m nth by auto
  fix j assume "i < j" "j < n"
  with m nth have "n - Suc j < m" "rev [0..<n] ! (n - Suc j) = j" by auto
  with m(4) show "\<not> P j" by metis
qed

lemma newestView_Some:
  assumes "newestViewOfLine reads n = Some i"
  shows "i < length reads" "\<not> rr_provisional (reads ! i)" "readRangeCoversLine (reads ! i) n"
  using find_rev_upt_Some [OF assms [unfolded newestViewOfLine_def]] by simp_all

lemma newestView_last:
  assumes "reads \<noteq> []" "\<not> rr_provisional (last reads)" "readRangeCoversLine (last reads) n"
  shows "newestViewOfLine reads n = Some (length reads - 1)"
proof -
  obtain m where m: "length reads = Suc m" using assms(1) by (cases reads) simp_all
  then have "reads ! m = last reads" using assms(1) by (simp add: last_conv_nth)
  with m assms(2,3) show ?thesis by (simp add: newestViewOfLine_def)
qed

lemma line_matches_hash:
  "read_lines disk path = Some lines \<Longrightarrow>
     line_matches lines r n \<longleftrightarrow> recorded_hash r n \<noteq> None \<and> disk_hash disk path n = recorded_hash r n"
  by (auto simp: line_matches_def disk_hash_def split: option.splits)

section \<open>Coverage\<close>

lemma first_cover_iff:
  "first_cover ctx (s, e) reads \<noteq> None \<longleftrightarrow>
     (\<exists>r \<in> confirmed reads. fst (padded_range ctx r) \<le> s \<and> e \<le> snd (padded_range ctx r) \<or>
        (\<exists>symbol. rr_enclosingSymbol r = Some symbol \<and> sy_startLine symbol \<le> s \<and> e \<le> sy_endLine symbol))"
  by (induction reads) (auto simp: confirmed_def split: option.splits if_splits)

lemma covered_lines_eq:
  "covered_lines ctx reads = lines_of (map (padded_range ctx) (filter (\<lambda>r. \<not> rr_provisional r) reads))"
  by (auto simp: covered_lines_def lines_of_def confirmed_def)

lemma checkCoverage_iff:
  assumes "s \<le> e"
  shows "fst (checkCoverage g path (s, e)) \<longleftrightarrow>
    {s..e} \<subseteq> covered_lines (c_contextLines (g_config g)) (reads_of g path) \<or>
    symbol_covers (reads_of g path) {s..e}"
proof -
  let ?reads = "reads_of g path" and ?ctx = "c_contextLines (g_config g)"
  have single: "\<exists>r \<in> confirmed ?reads. fst (padded_range ?ctx r) \<le> s \<and> e \<le> snd (padded_range ?ctx r) \<Longrightarrow>
      {s..e} \<subseteq> covered_lines ?ctx ?reads"
    unfolding covered_lines_def by (elim bexE, rule subset_trans [OF _ UN_upper]) auto
  have symb: "symbol_covers ?reads {s..e} \<longleftrightarrow>
      (\<exists>r \<in> confirmed ?reads. \<exists>symbol. rr_enclosingSymbol r = Some symbol \<and>
         sy_startLine symbol \<le> s \<and> e \<le> sy_endLine symbol)"
    using assms by (simp add: symbol_covers_def)
  have merged: "within (merge_ranges (map (padded_range ?ctx) (filter (\<lambda>r. \<not> rr_provisional r) ?reads))) (s, e) \<longleftrightarrow>
      {s..e} \<subseteq> covered_lines ?ctx ?reads"
    unfolding covered_lines_eq by (rule within_merge_ranges [OF assms])
  show ?thesis
  proof (cases "first_cover ?ctx (s, e) ?reads")
    case None
    then have "\<not> symbol_covers ?reads {s..e}"
      using first_cover_iff [of ?ctx s e ?reads] symb by auto
    with None merged show ?thesis by (simp add: checkCoverage_def Let_def)
  next
    case (Some v)
    then have "{s..e} \<subseteq> covered_lines ?ctx ?reads \<or> symbol_covers ?reads {s..e}"
      using first_cover_iff [of ?ctx s e ?reads] symb single by auto
    with Some show ?thesis by (simp add: checkCoverage_def Let_def)
  qed
qed

section \<open>The snapshot of a range\<close>

abbreviation (input) run_lines :: "(nat \<times> line_range) list \<Rightarrow> int list" where
  "run_lines runs \<equiv> concat (map (\<lambda>(i, a, b). [a..b]) runs)"

text \<open>The runs group exactly the checkable lines, each run under the newest view of its lines.\<close>

definition runs_ok :: "read_record list \<Rightarrow> int list \<Rightarrow> (nat \<times> line_range) list \<times> int list \<Rightarrow> bool" where
  "runs_ok reads nums st =
     ((\<forall>(i, a, b) \<in> set (fst st). a \<le> b \<and>
         (\<forall>n \<in> {a..b}. newestViewOfLine reads n = Some i \<and> recorded_hash (reads ! i) n \<noteq> None)) \<and>
      run_lines (fst st) = filter (\<lambda>n. seen_hash reads n \<noteq> None) nums \<and>
      snd st = filter (\<lambda>n. seen_hash reads n = None) nums)"

lemma run_step_ok:
  assumes "runs_ok reads nums st"
  shows "runs_ok reads (nums @ [n]) (run_step reads st n)"
proof (cases "seen_hash reads n")
  case None
  then have "run_step reads st n = (fst st, snd st @ [n])"
    by (auto simp: run_step_def seen_hash_def split: option.splits)
  with None assms show ?thesis by (simp add: runs_ok_def)
next
  case (Some h)
  then obtain i where i: "newestViewOfLine reads n = Some i" "recorded_hash (reads ! i) n = Some h"
    by (auto simp: seen_hash_def split: option.splits)
  show ?thesis
  proof (cases "fst st \<noteq> [] \<and> fst (last (fst st)) = i \<and> snd (snd (last (fst st))) = n - 1")
    case False
    then have "run_step reads st n = (fst st @ [(i, n, n)], snd st)" using i by (auto simp: run_step_def)
    with Some i assms show ?thesis by (auto simp: runs_ok_def)
  next
    case True
    then obtain rs a where rs: "fst st = rs @ [(i, a, n - 1)]"
      by (metis append_butlast_last_id prod.collapse)
    have le: "a \<le> n - 1" and lines: "\<forall>k \<in> {a..n - 1}. newestViewOfLine reads k = Some i \<and>
        recorded_hash (reads ! i) k \<noteq> None" using assms by (auto simp: runs_ok_def rs)
    have up: "[a..n] = [a..n - 1] @ [n]" using le by (intro upto_rec2) simp
    have all: "\<forall>k \<in> {a..n}. newestViewOfLine reads k = Some i \<and> recorded_hash (reads ! i) k \<noteq> None"
    proof
      fix k assume "k \<in> {a..n}"
      then have "k \<in> {a..n - 1} \<or> k = n" by auto
      with lines i show "newestViewOfLine reads k = Some i \<and> recorded_hash (reads ! i) k \<noteq> None" by auto
    qed
    have "run_step reads st n = (rs @ [(i, a, n)], snd st)" using i True by (simp add: run_step_def rs)
    with Some all le assms show ?thesis by (auto simp: runs_ok_def rs up)
  qed
qed

lemma runs_ok_fold: "runs_ok reads done_lines st \<Longrightarrow> runs_ok reads (done_lines @ nums) (foldl (run_step reads) st nums)"
proof (induction nums arbitrary: done_lines st)
  case (Cons n nums)
  from Cons.IH [OF run_step_ok [OF Cons.prems, of n]] show ?case by simp
qed simp

lemma run_mismatched:
  assumes "a \<le> b" and view: "\<forall>n \<in> {a..b}. newestViewOfLine reads n = Some i \<and> recorded_hash (reads ! i) n \<noteq> None"
  shows "se_mismatched (currentLinesMatchReadSnapshot disk path (reads ! i) (a, b)) =
    filter (stale_line disk path reads) [a..b]"
proof -
  have nomiss: "filter (\<lambda>n. \<not> readRangeCoversLine (reads ! i) n \<or> recorded_hash (reads ! i) n = None) [a..b] = []"
    using view newestView_Some(3) by (fastforce simp: filter_empty_conv)
  show ?thesis
  proof (cases "read_lines disk path")
    case None
    have "\<forall>n \<in> set [a..b]. stale_line disk path reads n"
      using view None by (auto simp: stale_line_def disk_hash_def seen_hash_def)
    then have "filter (stale_line disk path reads) [a..b] = [a..b]" by (simp add: filter_id_conv)
    with nomiss None show ?thesis by (simp add: currentLinesMatchReadSnapshot_def Let_def)
  next
    case (Some lines)
    have "filter (\<lambda>n. \<not> line_matches lines (reads ! i) n) [a..b] = filter (stale_line disk path reads) [a..b]"
      using view by (intro filter_cong) (auto simp: line_matches_hash [OF Some] stale_line_def seen_hash_def)
    with nomiss Some show ?thesis by (simp add: currentLinesMatchReadSnapshot_def Let_def)
  qed
qed

lemma validate_lines:
  fixes w :: world and g :: guard and path :: string and s e :: int
  defines "sv \<equiv> validateRangeSnapshot w g path (s, e)"
  shows "sv_mismatchedLines sv = filter (stale_line (w_disk w) path (reads_of g path)) [s..e]"
    and "sv_missingLines sv = filter (\<lambda>n. seen_hash (reads_of g path) n = None) [s..e]"
proof -
  let ?reads = "reads_of g path" and ?stale = "stale_line (w_disk w) path (reads_of g path)"
  obtain runs missing where st: "foldl (run_step ?reads) ([], []) [s..e] = (runs, missing)" by fastforce
  have "runs_ok ?reads [] ([], [])" by (simp add: runs_ok_def)
  from runs_ok_fold [OF this, of "[s..e]"] have ok: "runs_ok ?reads [s..e] (runs, missing)" by (simp add: st)
  have "concat (map (\<lambda>(i, r). se_mismatched (currentLinesMatchReadSnapshot (w_disk w) path (?reads ! i) r)) runs)
      = concat (map (\<lambda>(i, a, b). filter ?stale [a..b]) runs)"
    using ok by (intro arg_cong [where f = concat] map_cong refl)
      (auto simp: runs_ok_def intro!: run_mismatched)
  also have "\<dots> = filter ?stale (run_lines runs)"
    by (simp add: filter_concat o_def case_prod_unfold)
  also have "\<dots> = filter ?stale [s..e]"
    using ok by (auto simp: runs_ok_def stale_line_def intro!: filter_cong)
  finally show "sv_mismatchedLines sv = filter ?stale [s..e]"
    by (simp add: sv_def validateRangeSnapshot_def st Let_def)
  show "sv_missingLines sv = filter (\<lambda>n. seen_hash ?reads n = None) [s..e]"
    using ok by (simp add: sv_def validateRangeSnapshot_def st Let_def runs_ok_def)
qed

lemma validate_blocks_iff:
  "sv_shouldBlock (validateRangeSnapshot w g path (s, e)) \<longleftrightarrow>
     (\<exists>n \<in> {s..e}. stale_line (w_disk w) path (reads_of g path) n)"
proof -
  have "sv_shouldBlock (validateRangeSnapshot w g path (s, e)) \<longleftrightarrow>
      sv_mismatchedLines (validateRangeSnapshot w g path (s, e)) \<noteq> []"
    by (simp add: validateRangeSnapshot_def Let_def split: prod.splits)
  then show ?thesis by (auto simp: validate_lines filter_empty_conv)
qed

section \<open>Relocation\<close>

text \<open>The lines the agent last saw at \<open>[s..e]\<close> appear on disk from line \<open>t\<close> on.\<close>

definition run_at :: "disk \<Rightarrow> string \<Rightarrow> read_record list \<Rightarrow> line_range \<Rightarrow> int \<Rightarrow> bool" where
  "run_at disk path reads rng t =
     (\<forall>k \<in> {0..snd rng - fst rng}. seen_hash reads (fst rng + k) \<noteq> None \<and>
        disk_hash disk path (t + k) = seen_hash reads (fst rng + k))"

lemma take_drop_eq_iff:
  "take (length ys) (drop i xs) = ys \<longleftrightarrow> i + length ys \<le> length xs \<and> (\<forall>k < length ys. xs ! (i + k) = ys ! k)"
  if "i \<le> length xs"
proof -
  have "take (length ys) (drop i xs) = ys \<longleftrightarrow>
      length ys \<le> length xs - i \<and> (\<forall>k < length ys. drop i xs ! k = ys ! k)"
    unfolding list_eq_iff_nth_eq by auto
  with that show ?thesis by auto
qed

lemma mem_match_starts:
  "ws \<noteq> [] \<Longrightarrow> t \<in> set (match_starts hs ws) \<longleftrightarrow>
     1 \<le> t \<and> nat (t - 1) + length ws \<le> length hs \<and> (\<forall>k < length ws. hs ! (nat (t - 1) + k) = ws ! k)"
proof -
  assume ne: "ws \<noteq> []"
  have "t \<in> set (match_starts hs ws) \<longleftrightarrow>
      (\<exists>i. t = int i + 1 \<and> i + length ws \<le> length hs \<and> take (length ws) (drop i hs) = ws)"
    by (auto simp: match_starts_def)
  also have "\<dots> \<longleftrightarrow> (\<exists>i. t = int i + 1 \<and> i + length ws \<le> length hs \<and> (\<forall>k < length ws. hs ! (i + k) = ws ! k))"
    using take_drop_eq_iff [of _ hs ws] by (metis add_leE)
  also have "\<dots> \<longleftrightarrow> 1 \<le> t \<and> nat (t - 1) + length ws \<le> length hs \<and> (\<forall>k < length ws. hs ! (nat (t - 1) + k) = ws ! k)"
    by (auto intro: exI [of _ "nat (t - 1)"])
  finally show ?thesis .
qed

lemma disk_hash_at:
  "read_lines disk path = Some lines \<Longrightarrow>
     disk_hash disk path n =
       (if 1 \<le> n \<and> n \<le> int (length lines) then Some (map lineContentHash lines ! nat (n - 1)) else None)"
  by (auto simp: disk_hash_def line_at_def)

lemma match_starts_run_at:
  assumes lines: "read_lines disk path = Some lines" and se: "s \<le> e"
    and src: "newestViewOfLine reads s = Some src" and ws: "wanted_hashes reads src (s, e) = Some ws"
  shows "t \<in> set (match_starts (map lineContentHash lines) ws) \<longleftrightarrow> run_at disk path reads (s, e) t"
proof -
  have all: "\<forall>n \<in> {s..e}. recorded_hash (reads ! src) n \<noteq> None \<and> newestViewOfLine reads n = Some src"
    and ws_eq: "ws = map (\<lambda>n. the (recorded_hash (reads ! src) n)) [s..e]"
    using ws by (auto simp: wanted_hashes_def list_all_iff split: if_splits)
  have len: "length ws = nat (e - s + 1)" by (simp add: ws_eq)
  have seen: "seen_hash reads (s + int k) = Some (ws ! k)" if "k < length ws" for k
  proof -
    have "s + int k \<in> {s..e}" using that len by auto
    with all that show ?thesis by (auto simp: ws_eq nth_upto seen_hash_def)
  qed
  let ?hs = "map lineContentHash lines"
  have "run_at disk path reads (s, e) t \<longleftrightarrow> (\<forall>k < length ws. disk_hash disk path (t + int k) = Some (ws ! k))"
  proof
    assume run: "run_at disk path reads (s, e) t"
    show "\<forall>k < length ws. disk_hash disk path (t + int k) = Some (ws ! k)"
    proof (intro allI impI)
      fix k assume k: "k < length ws"
      then have "int k \<in> {0..e - s}" using len by auto
      with run have "disk_hash disk path (t + int k) = seen_hash reads (s + int k)"
        by (auto simp: run_at_def)
      with seen [OF k] show "disk_hash disk path (t + int k) = Some (ws ! k)" by simp
    qed
  next
    assume d: "\<forall>k < length ws. disk_hash disk path (t + int k) = Some (ws ! k)"
    show "run_at disk path reads (s, e) t" unfolding run_at_def
    proof
      fix k assume "k \<in> {0..snd (s, e) - fst (s, e)}"
      then obtain m where m: "k = int m" "m < length ws" using len by (auto intro: that [of "nat k"])
      with d seen show "seen_hash reads (fst (s, e) + k) \<noteq> None \<and>
          disk_hash disk path (t + k) = seen_hash reads (fst (s, e) + k)" by simp
    qed
  qed
  also have "\<dots> \<longleftrightarrow> 1 \<le> t \<and> nat (t - 1) + length ws \<le> length ?hs \<and>
      (\<forall>k < length ws. ?hs ! (nat (t - 1) + k) = ws ! k)"
  proof -
    have pos: "0 < length ws" using se len by simp
    have idx: "nat (t + int k - 1) = nat (t - 1) + k" if "1 \<le> t" for k using that by auto
    have "(\<forall>k < length ws. disk_hash disk path (t + int k) = Some (ws ! k)) \<longleftrightarrow>
        (\<forall>k < length ws. 1 \<le> t + int k \<and> t + int k \<le> int (length lines) \<and> ?hs ! nat (t + int k - 1) = ws ! k)"
      by (auto simp: disk_hash_at [OF lines] split: if_splits)
    also have "\<dots> \<longleftrightarrow> 1 \<le> t \<and> t + int (length ws - 1) \<le> int (length lines) \<and>
        (\<forall>k < length ws. ?hs ! (nat (t - 1) + k) = ws ! k)" (is "?L \<longleftrightarrow> ?R")
    proof
      assume ?L
      then have "1 \<le> t" "t + int (length ws - 1) \<le> int (length lines)"
        using pos by (force dest: spec [of _ 0], auto dest!: spec [of _ "length ws - 1"])
      with \<open>?L\<close> idx show ?R by metis
    next
      assume ?R
      then show ?L using idx by auto
    qed
    finally show ?thesis using pos by auto
  qed
  finally show ?thesis
  proof -
    assume run: "run_at disk path reads (s, e) t \<longleftrightarrow> 1 \<le> t \<and> nat (t - 1) + length ws \<le> length ?hs \<and>
      (\<forall>k < length ws. ?hs ! (nat (t - 1) + k) = ws ! k)"
    have "ws \<noteq> []" using len se by auto
    from mem_match_starts [OF this, of t ?hs] run show ?thesis by (simp only:)
  qed
qed

lemma singleton_hd: "length xs = 1 \<Longrightarrow> set xs = {hd xs}"
  by (cases xs) auto

lemma findRelocation_Some:
  assumes rel: "findRelocation w g path reads (s, e) = Some (from_range, (a, b))"
  shows "from_range = (s, e) \<and> s < e \<and> a \<noteq> s \<and> b - a = e - s \<and>
    run_at (w_disk w) path reads (s, e) a \<and>
    (\<forall>t. run_at (w_disk w) path reads (s, e) t \<longrightarrow>
       t = a \<or> t < s - relocation_window g path \<or> t > e + relocation_window g path)"
proof -
  obtain src ws lines where src: "newestViewOfLine reads s = Some src"
      and ws: "wanted_hashes reads src (s, e) = Some ws" and hashed: "rr_lineHashes (reads ! src) \<noteq> None"
      and lines: "read_lines (w_disk w) path = Some lines" and span: "s < e"
    using rel by (auto simp: findRelocation_def Let_def split: if_splits option.splits)
  define ms where "ms = match_starts (map lineContentHash lines) ws"
  define win where "win = relocation_window g path"
  define near where "near = filter (\<lambda>t. t \<ge> s - win \<and> t \<le> e + win) ms"
  have ms: "t \<in> set ms \<longleftrightarrow> run_at (w_disk w) path reads (s, e) t" for t
    unfolding ms_def using match_starts_run_at [OF lines less_imp_le [OF span] src ws] .
  have "(case (if length ms = 1 then Some (hd ms) else if length ms > 1 \<and> length near = 1 then Some (hd near)
                else None) of
           None \<Rightarrow> None
         | Some t \<Rightarrow> if t = s then None else Some ((s, e), (t, t + (e - s + 1) - 1))) = Some (from_range, (a, b))"
    (is "?choice = _")
  proof -
    from span have "\<not> e - s + 1 < 2" by simp
    then have "findRelocation w g path reads (s, e) = ?choice"
      unfolding findRelocation_def Let_def fst_conv snd_conv ms_def near_def win_def
      by (simp only: src ws lines hashed option.case if_False if_True simp_thms)
    with rel show ?thesis by simp
  qed
  then have new: "from_range = (s, e)" "a \<noteq> s" "b = a + (e - s)"
      "length ms = 1 \<and> a = hd ms \<or> length near = 1 \<and> a = hd near"
    by (auto split: if_splits)
  from new(4) show ?thesis
  proof
    assume "length ms = 1 \<and> a = hd ms"
    then have "set ms = {a}" by (simp add: singleton_hd)
    with ms new span show ?thesis by auto
  next
    assume "length near = 1 \<and> a = hd near"
    then have "set near = {a}" by (simp add: singleton_hd)
    then have "{t \<in> set ms. t \<ge> s - win \<and> t \<le> e + win} = {a}" by (simp add: near_def)
    then have iff: "t \<in> set ms \<and> t \<ge> s - win \<and> t \<le> e + win \<longleftrightarrow> t = a" for t
      unfolding set_eq_iff by simp
    have "a \<in> set ms" using iff [of a] by simp
    moreover have "t = a \<or> t < s - win \<or> t > e + win" if "t \<in> set ms" for t
      using iff [of t] that by linarith
    ultimately show ?thesis using new(1-3) span unfolding ms win_def by simp
  qed
qed

section \<open>The record cap and the newest view\<close>

lemma newestView_snoc:
  "newestViewOfLine (xs @ [y]) n =
     (if \<not> rr_provisional y \<and> readRangeCoversLine y n then Some (length xs) else newestViewOfLine xs n)"
proof -
  have "find (\<lambda>i. \<not> rr_provisional ((xs @ [y]) ! i) \<and> readRangeCoversLine ((xs @ [y]) ! i) n) (rev [0..<length xs]) =
      find (\<lambda>i. \<not> rr_provisional (xs ! i) \<and> readRangeCoversLine (xs ! i) n) (rev [0..<length xs])"
    by (rule find_cong) (auto simp: nth_append)
  then show ?thesis by (simp add: newestViewOfLine_def)
qed

lemma newestView_replicate:
  "\<not> readRangeCoversLine y n \<Longrightarrow> newestViewOfLine (xs @ replicate k y) n = newestViewOfLine xs n"
proof (induction k)
  case (Suc k)
  then show ?case
    using newestView_snoc [of "xs @ replicate k y" y n] by (simp add: replicate_append_same [symmetric])
qed simp

lemma cap_without_credits:
  assumes "length (filter (\<lambda>r. \<not> is_credit r) records) = READ_GUARD_MAX_RECORDS_PER_FILE"
  shows "fst (enforceRecordCapForFile records) = filter (\<lambda>r. \<not> is_credit r) records"
proof -
  let ?kept = "fst (enforceRecordCapForFile records)"
  have "filter is_credit ?kept = []" "filter (\<lambda>r. \<not> is_credit r) ?kept = filter (\<lambda>r. \<not> is_credit r) records"
    using record_cap_parts [of records] assms by (simp_all add: lastn_def)
  moreover from this(1) have "filter (\<lambda>r. \<not> is_credit r) ?kept = ?kept" by (simp add: filter_id_conv filter_empty_conv)
  ultimately show ?thesis by simp
qed

definition first_line_read :: read_record where
  "first_line_read = demo_read\<lparr>rr_requestedLimit := 1, rr_effectiveLimit := 1,
     rr_lineHashes := scan_hashes demo_disk ''/a.ts'' 1 1\<rparr>"

definition other_line_read :: read_record where
  "other_line_read = demo_read\<lparr>rr_requestedOffset := 2, rr_effectiveOffset := 2, rr_requestedLimit := 1,
     rr_effectiveLimit := 1, rr_lineHashes := None\<rparr>"

definition search_hit :: read_record where
  "search_hit = first_line_read\<lparr>rr_lineHashes := Some [(1, ''-'')],
     rr_searchCredit := Some \<lparr>sc_marginBefore = 0, sc_marginAfter = 0, sc_reason = MatchLinesOnly\<rparr>\<rparr>"

text \<open>
  The record cap can lift a block. A line was read, then shown differently by a search hit, so
  the check finds it stale; 127 reads of other lines later the cap drops the hit, because credits
  go first, and the check judges the line by the older read again and finds it verified. The
  agent's newest view of the line has not changed.
\<close>

theorem record_cap_can_lift_a_block:
  "let reads = [first_line_read, search_hit] @ replicate 127 other_line_read;
       kept = fst (enforceRecordCapForFile reads)
   in stale_line demo_disk ''/a.ts'' reads 1 \<and> verified_line demo_disk ''/a.ts'' kept 1"
proof -
  let ?reads = "[first_line_read, search_hit] @ replicate 127 other_line_read"
  have cov: "\<not> readRangeCoversLine other_line_read 1" "readRangeCoversLine search_hit 1"
      "readRangeCoversLine first_line_read 1" "\<not> rr_provisional search_hit" "\<not> rr_provisional first_line_read"
    by (simp_all add: readRangeCoversLine_def other_line_read_def search_hit_def first_line_read_def demo_read_def)
  have credit: "is_credit search_hit" "\<not> is_credit first_line_read" "\<not> is_credit other_line_read"
    by (simp_all add: search_hit_def first_line_read_def other_line_read_def demo_read_def)
  have kept: "fst (enforceRecordCapForFile ?reads) = [first_line_read] @ replicate 127 other_line_read"
    using credit by (subst cap_without_credits) (simp_all add: READ_GUARD_MAX_RECORDS_PER_FILE_def)
  have views: "newestViewOfLine ?reads 1 = Some 1"
      "newestViewOfLine ([first_line_read] @ replicate 127 other_line_read) 1 = Some 0"
    unfolding newestView_replicate [OF cov(1)]
    using newestView_snoc [of "[first_line_read]" search_hit 1] newestView_snoc [of "[]" first_line_read 1] cov
    by simp_all
  have f: "demo_disk ''/a.ts'' = Some \<lparr>df_size = 4, df_mtimeMs = 7, df_ctimeMs = 7, df_mtime = 7, df_ctime = 7,
      df_text = demo_text, df_sha256 = ''ab''\<rparr>" (is "_ = Some ?f") by (simp add: demo_disk_def)
  have lines: "read_lines demo_disk ''/a.ts'' = Some (splitLines demo_text)" by (simp add: read_lines_def f)
  have win: "hashedWindow (rr_effectiveOffset first_line_read) (rr_effectiveLimit first_line_read) = Some (1, 1)"
    by (simp add: first_line_read_def demo_read_def hashedWindow_def READ_HASH_MAX_LINES_def)
  have m: "line_matches (splitLines demo_text) first_line_read 1"
    using fresh_line_matches(1) [where disk = demo_disk and path = "''/a.ts''", OF f _ win, of 1]
    by (simp add: demo_lines SCAN_MAX_BYTES_def) (simp add: first_line_read_def demo_read_def)
  have hit: "recorded_hash search_hit 1 = Some ''-''" by (simp add: search_hit_def recorded_hash_def)
  have "disk_hash demo_disk ''/a.ts'' 1 \<noteq> Some ''-''"
    using arg_cong [of _ "''-''" length]
    by (auto simp: disk_hash_def lines line_at_def lineContentHash_def hex8_def)
  with views m hit kept show ?thesis
    by (simp add: Let_def stale_line_def verified_line_def seen_hash_def line_matches_hash [OF lines])
qed

text \<open>
  C35: A relocation is content-verified and unambiguous. When the guard says that the lines the agent
  read at \<open>[s..e]\<close> now stand at \<open>[a..b]\<close>, the two ranges have the same length of at least two
  lines, every line at the new place has the hash the agent last saw at the old place, and no
  other place within the relocation window of the old one has the same run of lines.
\<close>

theorem relocation_is_content_verified:
  assumes "findRelocation w g path reads (s, e) = Some (from_range, (a, b))"
  shows "from_range = (s, e) \<and> s < e \<and> a \<noteq> s \<and> b - a = e - s \<and>
    run_at (w_disk w) path reads (s, e) a \<and>
    (\<forall>t. run_at (w_disk w) path reads (s, e) t \<longrightarrow>
       t = a \<or> t < s - relocation_window g path \<or> t > e + relocation_window g path)"
  using assms by (rule findRelocation_Some)

text \<open>A file whose two lines moved down by one.\<close>

definition moved_disk :: disk where
  "moved_disk = (\<lambda>_. Some \<lparr>df_size = 5, df_mtimeMs = 8, df_ctimeMs = 8, df_mtime = 8, df_ctime = 8,
     df_text = [120, LF, 97, LF, 98], df_sha256 = ''cd''\<rparr>)"

definition moved_world :: world where
  "moved_world =
     \<lparr>w_disk = moved_disk, w_now = 9, w_key = (\<lambda>p. p), w_resolve = (\<lambda>p. p), w_win32 = False,
      w_sha = (\<lambda>_. ''ab''), w_hashText = (\<lambda>s n. take n s), w_regexTest = (\<lambda>_ _. False)\<rparr>"

definition moved_read :: read_record where
  "moved_read = demo_read\<lparr>rr_lineHashes := Some [(1, lineContentHash [97]), (2, lineContentHash [98])]\<rparr>"

lemma moved_hashes: "lineContentHash [120] \<noteq> lineContentHash [97]"
  by (simp add: lineContentHash_def hex8_inject is_space16_def fnv1a_def fnv_step_def)

theorem relocation_is_content_verified_witness:
  "run_at moved_disk ''/a.ts'' [moved_read] (1, 2) 2"
proof -
  let ?g = "new_ReadGuard ''s'' DEFAULT_CONFIG 0 []"
  have lines: "read_lines moved_disk ''/a.ts'' = Some [[120], [97], [98]]"
    by (simp add: read_lines_def moved_disk_def splitLines_def LF_def CR_def)
  have view: "newestViewOfLine [moved_read] n = Some 0" if "n \<in> {1, 2}" for n
    using that newestView_snoc [of "[]" moved_read n]
    by (auto simp: moved_read_def demo_read_def readRangeCoversLine_def)
  have rec: "recorded_hash moved_read 1 = Some (lineContentHash [97])"
      "recorded_hash moved_read 2 = Some (lineContentHash [98])"
    by (simp_all add: moved_read_def recorded_hash_def)
  have "wanted_hashes [moved_read] 0 (1, 2) = Some [lineContentHash [97], lineContentHash [98]]"
    using view by (simp add: wanted_hashes_def upto.simps rec)
  moreover have "match_starts (map lineContentHash [[120], [97], [98]]) [lineContentHash [97], lineContentHash [98]] = [2]"
    using moved_hashes by (simp add: match_starts_def upt_rec)
  ultimately have "findRelocation moved_world ?g ''/a.ts'' [moved_read] (1, 2) = Some ((1, 2), (2, 3))"
    using view [of 1] lines by (simp add: findRelocation_def moved_world_def Let_def moved_read_def)
  from relocation_is_content_verified [OF this] show ?thesis by (simp add: moved_world_def)
qed

end
