(* ===== verification/Guard_Decision.thy ===== *)
theory Guard_Decision
  imports Guard_Lines
begin

text \<open>
  The edit check as a specification: an edit passes exactly when its lines are vouched for, by the
  reads of the file or, when there are none, by an authorship whose bytes are still on disk.
\<close>

section \<open>Specification\<close>

definition edit_lines :: "line_range \<Rightarrow> line_range list option \<Rightarrow> int set" where
  "edit_lines touched editRanges = lines_of (ranges_to_check touched editRanges)"

definition ranges_ok :: "line_range \<Rightarrow> line_range list option \<Rightarrow> bool" where
  "ranges_ok touched editRanges = (\<forall>r \<in> set (ranges_to_check touched editRanges). fst r \<le> snd r)"

text \<open>A confirmed record that delivered a line whose hash is still the one on disk.\<close>

definition delivers :: "disk \<Rightarrow> string \<Rightarrow> read_record \<Rightarrow> int \<Rightarrow> bool" where
  "delivers disk path r n =
     (readRangeCoversLine r n \<and> recorded_hash r n \<noteq> None \<and> disk_hash disk path n = recorded_hash r n)"

text \<open>
  The newest content binding, if there is one, matches the disk, or a later confirmed read
  delivered every edited line as it is on disk.
\<close>

definition binding_vouches :: "world \<Rightarrow> string \<Rightarrow> read_record list \<Rightarrow> int set \<Rightarrow> bool" where
  "binding_vouches w path reads lines =
     (case last_bound reads of
        None \<Rightarrow> True
      | Some i \<Rightarrow>
          currentContentMatchesBinding (w_disk w) (w_sha w) path (the (rr_contentBinding (reads ! i))) \<or>
          (\<exists>r \<in> set (drop (i + 1) reads). \<not> rr_provisional r \<and> (\<forall>n \<in> lines. delivers (w_disk w) path r n)))"

abbreviation (input) file_moved :: "world \<Rightarrow> guard \<Rightarrow> string \<Rightarrow> bool" where
  "file_moved w g path \<equiv>
     ft_hasChanged (w_resolve w) (w_disk w) (w_now w) (g_sessionId g) path (g_fileTime g)"

text \<open>
  Reads vouch for an edit: every range is covered, no edited line differs from what the agent
  last saw of it, and if the file moved since its stamp, every edited line is verified.
\<close>

definition reads_vouch ::
  "world \<Rightarrow> guard \<Rightarrow> string \<Rightarrow> line_range \<Rightarrow> line_range list option \<Rightarrow> bool" where
  "reads_vouch w g path touched editRanges =
     (let reads = reads_of g path; lines = edit_lines touched editRanges in
      (\<forall>r \<in> set (ranges_to_check touched editRanges).
         {fst r..snd r} \<subseteq> covered_lines (c_contextLines (g_config g)) reads \<or>
         symbol_covers reads {fst r..snd r}) \<and>
      (\<forall>n \<in> lines. \<not> stale_line (w_disk w) path reads n) \<and>
      (file_moved w g path \<longrightarrow> (\<forall>n \<in> lines. verified_line (w_disk w) path reads n)) \<and>
      binding_vouches w path reads lines)"

definition bytes_unchanged :: "disk \<Rightarrow> string \<Rightarrow> authored_bytes \<Rightarrow> bool" where
  "bytes_unchanged disk path a =
     (case disk path of
        None \<Rightarrow> ab_size a = ABSENT_SIZE
      | Some f \<Rightarrow>
          df_size f = ab_size a \<and>
          (df_mtimeMs f = ab_mtimeMs a \<and> df_ctimeMs f = ab_ctimeMs a \<or> ab_hash a = Some (df_sha256 f)))"

definition authorship_vouches ::
  "world \<Rightarrow> guard \<Rightarrow> string \<Rightarrow> line_range \<Rightarrow> line_range list option \<Rightarrow> bool" where
  "authorship_vouches w g path touched editRanges =
     (\<exists>a. jm_get (g_writtenThisSession g) path = Some a \<and> \<not> ab_retired a \<and>
        bytes_unchanged (w_disk w) path a \<and>
        (case ab_ranges a of
           None \<Rightarrow> True
         | Some own \<Rightarrow>
             (\<forall>r \<in> set (case editRanges of Some rs \<Rightarrow> rs | None \<Rightarrow> [touched]).
                \<exists>m \<in> set own. fst m \<le> fst r \<and> snd r \<le> snd m)))"

section \<open>Frames\<close>

lemma touchFile_simps [simp]:
  "g_reads (touchFile t p g) = g_reads g"
  "g_edits (touchFile t p g) = g_edits g"
  "g_consumedReadFiles (touchFile t p g) = g_consumedReadFiles g"
  "g_fileTime (touchFile t p g) = g_fileTime g"
  "g_exemptions (touchFile t p g) = g_exemptions g"
  "g_writtenThisSession (touchFile t p g) = g_writtenThisSession g"
  "g_config (touchFile t p g) = g_config g"
  "g_checkedPathsByCall (touchFile t p g) = g_checkedPathsByCall g"
  "g_branchEpoch (touchFile t p g) = g_branchEpoch g"
  "g_sessionId (touchFile t p g) = g_sessionId g"
  "g_knownPathIndex (touchFile t p g) = g_knownPathIndex g"
  "g_pendingCreations (touchFile t p g) = g_pendingCreations g"
  "g_expiredWrites (touchFile t p g) = g_expiredWrites g"
  "g_trimAccumulators (touchFile t p g) = g_trimAccumulators g"
  by (simp_all add: touchFile_def clearFileTimer_def Let_def)

lemma reads_of_cong: "g_reads g = g_reads h \<Longrightarrow> reads_of g p = reads_of h p"
  by (simp add: reads_of_def)

lemma reads_of_touchFile [simp]: "reads_of (touchFile t q g) p = reads_of g p"
  by (simp add: reads_of_def)

lemma recordVerdict_simps [simp]:
  "g_reads (recordVerdict w p tool t v g) = g_reads g"
  "g_fileTime (recordVerdict w p tool t v g) = g_fileTime g"
  "g_exemptions (recordVerdict w p tool t v g) = g_exemptions g"
  "g_writtenThisSession (recordVerdict w p tool t v g) = g_writtenThisSession g"
  "g_config (recordVerdict w p tool t v g) = g_config g"
  "g_consumedReadFiles (recordVerdict w p tool t v g) = g_consumedReadFiles g"
  "g_checkedPathsByCall (recordVerdict w p tool t v g) = g_checkedPathsByCall g"
  "g_branchEpoch (recordVerdict w p tool t v g) = g_branchEpoch g"
  "g_sessionId (recordVerdict w p tool t v g) = g_sessionId g"
  "g_knownPathIndex (recordVerdict w p tool t v g) = g_knownPathIndex g"
  "g_pendingCreations (recordVerdict w p tool t v g) = g_pendingCreations g"
  "g_expiredWrites (recordVerdict w p tool t v g) = g_expiredWrites g"
  by (simp_all add: recordVerdict_def recordEdit_def Let_def)

section \<open>The checks meet the specification\<close>

lemma snapshot_delivers:
  assumes "s \<le> e"
  shows "se_checked (currentLinesMatchReadSnapshot disk path r (s, e)) \<and>
      se_matches (currentLinesMatchReadSnapshot disk path r (s, e)) \<longleftrightarrow>
    (\<forall>n \<in> {s..e}. delivers disk path r n)"
proof (cases "read_lines disk path")
  case None
  have "s \<in> {s..e}" using assms by simp
  with None show ?thesis
    by (force simp: currentLinesMatchReadSnapshot_def Let_def delivers_def disk_hash_def)
next
  case (Some lines)
  show ?thesis
    by (auto simp: currentLinesMatchReadSnapshot_def Let_def delivers_def filter_empty_conv Some
        line_matches_hash [OF Some])
qed

lemma lines_of_ball: "(\<forall>n \<in> lines_of rs. P n) \<longleftrightarrow> (\<forall>r \<in> set rs. \<forall>n \<in> {fst r..snd r}. P n)"
  by (auto simp: lines_of_def)

lemma supersedes_iff:
  assumes "ranges_ok touched editRanges"
  shows "newerReadSupersedesBinding w path reads i (Some touched) editRanges \<longleftrightarrow>
    (\<exists>r \<in> set (drop (i + 1) reads). \<not> rr_provisional r \<and>
       (\<forall>n \<in> edit_lines touched editRanges. delivers (w_disk w) path r n))"
proof -
  have "list_all (\<lambda>rng. let evidence = currentLinesMatchReadSnapshot (w_disk w) path r rng
            in se_checked evidence \<and> se_matches evidence) (ranges_to_check touched editRanges) \<longleftrightarrow>
      (\<forall>n \<in> edit_lines touched editRanges. delivers (w_disk w) path r n)" for r
    using assms snapshot_delivers [of "fst _" "snd _" "w_disk w" path r]
    unfolding list_all_iff Let_def edit_lines_def lines_of_ball ranges_ok_def by (metis prod.collapse)
  then show ?thesis by (simp add: newerReadSupersedesBinding_def list_ex_iff)
qed

lemma last_bound_Some: "last_bound reads = Some i \<Longrightarrow> i < length reads \<and> rr_contentBinding (reads ! i) \<noteq> None"
  using find_rev_upt_Some(1,2) [of "\<lambda>i. rr_contentBinding (reads ! i) \<noteq> None" "length reads" i]
  by (simp add: last_bound_def)

lemma binding_stale_iff:
  assumes "ranges_ok touched editRanges"
  shows "binding_stale w path reads (Some touched) editRanges = None \<longleftrightarrow>
    binding_vouches w path reads (edit_lines touched editRanges)"
  using supersedes_iff [OF assms, of w path reads] last_bound_Some [of reads]
  by (auto simp: binding_stale_def binding_vouches_def split: option.splits)

lemma edit_lines_nonempty: "ranges_ok touched editRanges \<Longrightarrow> edit_lines touched editRanges \<noteq> {}"
proof -
  assume ok: "ranges_ok touched editRanges"
  have "ranges_to_check touched editRanges \<noteq> []" by (auto simp: ranges_to_check_def split: option.splits)
  then obtain r where "r \<in> set (ranges_to_check touched editRanges)" by (meson list.set_sel(1))
  moreover have "fst r \<in> {fst r..snd r}" using ok calculation by (simp add: ranges_ok_def)
  ultimately have "fst r \<in> edit_lines touched editRanges" unfolding edit_lines_def lines_of_def by (rule UN_I)
  then show ?thesis by blast
qed

lemma canIgnore_iff:
  assumes "ranges_ok touched editRanges"
  shows "canIgnoreStalenessByHashes w path reads (Some touched) editRanges \<longleftrightarrow>
    (\<forall>n \<in> edit_lines touched editRanges. verified_line (w_disk w) path reads n)"
proof (cases "read_lines (w_disk w) path")
  case None
  then have "\<not> verified_line (w_disk w) path reads n" for n by (auto simp: verified_line_def disk_hash_def)
  with None edit_lines_nonempty [OF assms] show ?thesis by (auto simp: canIgnoreStalenessByHashes_def)
next
  case (Some lines)
  have "(case newestViewOfLine reads n of None \<Rightarrow> False
        | Some i \<Rightarrow> readRangeHashesStillMatch (reads ! i) lines (n, n)) \<longleftrightarrow>
      verified_line (w_disk w) path reads n" for n
    using newestView_Some(3) [of reads n]
    by (auto simp: readRangeHashesStillMatch_def verified_line_def seen_hash_def line_matches_hash [OF Some]
        split: option.splits)
  then show ?thesis
    by (simp add: canIgnoreStalenessByHashes_def Some list_all_iff edit_lines_def lines_of_ball)
qed

lemma first_some_None: "first_some f xs = None \<longleftrightarrow> (\<forall>x \<in> set xs. f x = None)"
  by (induction xs) (auto split: option.splits)

lemma first_some_Some: "first_some f xs = Some y \<Longrightarrow> \<exists>x \<in> set xs. f x = Some y"
  by (induction xs) (auto split: option.splits)

text \<open>How a denied edit is answered: the mode of a pattern exemption comes before that of the guard.\<close>

definition denial :: "guard \<Rightarrow> guard_mode option \<Rightarrow> verdict_action" where
  "denial g mode =
     (if (case mode of Some m \<Rightarrow> m | None \<Rightarrow> c_mode (g_config g)) = ModeWarn then Warn else Block)"

lemma blockOrWarn_action: "v_action (blockOrWarn g m d mode) = denial g mode"
  by (simp add: blockOrWarn_def denial_def)

lemma check_range_action:
  "check_range w g path k default_check_opts mode rng = Some v \<Longrightarrow> v_action v = denial g mode"
  by (auto simp: check_range_def default_check_opts_def blockOrWarn_action Let_def split: if_splits)

lemma check_range_passes:
  assumes "fst r \<le> snd r"
  shows "check_range w g path k default_check_opts mode r = None \<longleftrightarrow>
    ({fst r..snd r} \<subseteq> covered_lines (c_contextLines (g_config g)) (reads_of g path) \<or>
     symbol_covers (reads_of g path) {fst r..snd r}) \<and>
    (\<forall>n \<in> {fst r..snd r}. \<not> stale_line (w_disk w) path (reads_of g path) n)"
  using checkCoverage_iff [OF assms, of g path] validate_blocks_iff [of w g path "fst r" "snd r"]
  by (auto simp: check_range_def default_check_opts_def Let_def)

lemma check_ranges_pass:
  assumes ok: "ranges_ok touched editRanges"
  shows "first_some (check_range w g path k default_check_opts mode) (ranges_to_check touched editRanges) = None \<longleftrightarrow>
      (\<forall>r \<in> set (ranges_to_check touched editRanges).
         {fst r..snd r} \<subseteq> covered_lines (c_contextLines (g_config g)) (reads_of g path) \<or>
         symbol_covers (reads_of g path) {fst r..snd r}) \<and>
      (\<forall>n \<in> edit_lines touched editRanges. \<not> stale_line (w_disk w) path (reads_of g path) n)"
  using check_range_passes [of _ w g path] ok
  unfolding first_some_None edit_lines_def lines_of_ball ranges_ok_def by blast

lemma vouched_read_file:
  assumes ok: "ranges_ok touched editRanges" and v: "reads_vouch w g path touched editRanges"
  shows "check_read_file w path (Some touched) editRanges default_check_opts mode g = allow_verdict"
proof -
  have "binding_stale w path (reads_of g path) (Some touched) editRanges = None"
      "file_moved w g path \<longrightarrow> canIgnoreStalenessByHashes w path (reads_of g path) (Some touched) editRanges"
    using v unfolding binding_stale_iff [OF ok] canIgnore_iff [OF ok] reads_vouch_def Let_def by blast+
  moreover have "first_some (check_range w g path k default_check_opts mode) (ranges_to_check touched editRanges)
      = None" for k
    using v unfolding check_ranges_pass [OF ok] reads_vouch_def Let_def by blast
  ultimately show ?thesis by (auto simp: check_read_file_def Let_def)
qed

lemma check_read_file_action:
  assumes ok: "ranges_ok touched editRanges"
  shows "v_action (check_read_file w path (Some touched) editRanges default_check_opts mode g) =
    (if reads_vouch w g path touched editRanges then Allow else denial g mode)"
proof -
  let ?ranges = "ranges_to_check touched editRanges" and ?reads = "reads_of g path"
  let ?check = "check_range w g path (length ?ranges) default_check_opts mode"
  note passes = check_ranges_pass [OF ok, of w g path]
  have vouch: "reads_vouch w g path touched editRanges \<longleftrightarrow>
      first_some ?check ?ranges = None \<and>
      \<not> (file_moved w g path \<and> \<not> canIgnoreStalenessByHashes w path ?reads (Some touched) editRanges) \<and>
      binding_stale w path ?reads (Some touched) editRanges = None"
    unfolding passes canIgnore_iff [OF ok] binding_stale_iff [OF ok] reads_vouch_def Let_def by blast
  have act: "first_some ?check ?ranges = Some v \<Longrightarrow> v_action v = denial g mode" for v
    using first_some_Some [of ?check ?ranges v] check_range_action by blast
  show ?thesis
    unfolding vouch
    by (auto simp: check_read_file_def Let_def blockOrWarn_action allow_verdict_def default_check_opts_def
        [THEN arg_cong [where f = co_oldTextResolved]] act [simplified] split: option.splits)
qed

lemma authoredBytesIntact_iff: "fst (authoredBytesIntact disk path a) \<longleftrightarrow> bytes_unchanged disk path a"
  by (auto simp: authoredBytesIntact_def bytes_unchanged_def split: option.splits)

lemma authoredBytesIntact_keeps [simp]:
  "ab_ranges (snd (authoredBytesIntact disk path a)) = ab_ranges a"
  "ab_retired (snd (authoredBytesIntact disk path a)) = ab_retired a"
  "ab_toolCallId (snd (authoredBytesIntact disk path a)) = ab_toolCallId a"
  "ab_size (snd (authoredBytesIntact disk path a)) = ab_size a"
  "ab_hash (snd (authoredBytesIntact disk path a)) = ab_hash a"
  by (auto simp: authoredBytesIntact_def split: option.splits)

lemma retireIfChanged_simps [simp]:
  "g_reads (snd (retireIfChanged w p g)) = g_reads g"
  "g_edits (snd (retireIfChanged w p g)) = g_edits g"
  "g_config (snd (retireIfChanged w p g)) = g_config g"
  "g_fileTime (snd (retireIfChanged w p g)) = g_fileTime g"
  "g_exemptions (snd (retireIfChanged w p g)) = g_exemptions g"
  "g_consumedReadFiles (snd (retireIfChanged w p g)) = g_consumedReadFiles g"
  "g_checkedPathsByCall (snd (retireIfChanged w p g)) = g_checkedPathsByCall g"
  "g_expiredWrites (snd (retireIfChanged w p g)) = g_expiredWrites g"
  "g_branchEpoch (snd (retireIfChanged w p g)) = g_branchEpoch g"
  "g_sessionId (snd (retireIfChanged w p g)) = g_sessionId g"
  by (auto simp: retireIfChanged_def Let_def split: option.splits prod.splits)

lemma denial_retire [simp]: "denial (snd (retireIfChanged w p g)) mode = denial g mode"
  by (simp add: denial_def split: option.split)

lemma retireIfChanged_entry:
  "jm_get (g_writtenThisSession (snd (retireIfChanged w p g))) p =
     (case jm_get (g_writtenThisSession g) p of
        None \<Rightarrow> None
      | Some a \<Rightarrow>
          if ab_retired a then Some a
          else if bytes_unchanged (w_disk w) p a then Some (snd (authoredBytesIntact (w_disk w) p a))
          else Some ((snd (authoredBytesIntact (w_disk w) p a))\<lparr>ab_retired := True\<rparr>))"
  by (auto simp: retireIfChanged_def authoredBytesIntact_iff [symmetric] Let_def jm_get_set
      split: option.splits prod.splits)

lemma authoredRangeCovers_iff:
  "authoredRangeCovers a (Some touched) editRanges \<longleftrightarrow>
     (case ab_ranges a of
        None \<Rightarrow> True
      | Some own \<Rightarrow>
          (\<forall>r \<in> set (case editRanges of Some rs \<Rightarrow> rs | None \<Rightarrow> [touched]).
             \<exists>m \<in> set own. fst m \<le> fst r \<and> snd r \<le> snd m))"
  by (auto simp: authoredRangeCovers_def list_all_iff within_def list_ex_iff split: option.splits)

lemma check_zero_read_action:
  assumes key: "w_key w p = p"
  shows "v_action (fst (check_zero_read w p (Some touched) editRanges mode g)) =
    (if authorship_vouches w g p touched editRanges then Allow else denial g mode)"
proof (cases "jm_get (g_writtenThisSession g) p")
  case None
  then show ?thesis
    by (simp add: check_zero_read_def retireChangedAuthorship_def key Let_def retireIfChanged_entry
        authorship_vouches_def blockOrWarn_action)
next
  case (Some a)
  have covers: "authoredRangeCovers (snd (authoredBytesIntact (w_disk w) p a)) (Some touched) editRanges =
      authoredRangeCovers a (Some touched) editRanges"
    by (simp add: authoredRangeCovers_def)
  have "authorship_vouches w g p touched editRanges \<longleftrightarrow>
      \<not> ab_retired a \<and> bytes_unchanged (w_disk w) p a \<and> authoredRangeCovers a (Some touched) editRanges"
    unfolding authorship_vouches_def authoredRangeCovers_iff Some by simp
  then show ?thesis
    by (simp add: check_zero_read_def retireChangedAuthorship_def key Let_def retireIfChanged_entry Some
        covers blockOrWarn_action allow_verdict_def)
qed

lemma fold_changes_only:
  assumes "g_reads h = g_reads g" "g_config h = g_config g" "g_fileTime h = g_fileTime g" "g_sessionId h = g_sessionId g"
    "g_writtenThisSession h = g_writtenThisSession g"
  shows "reads_vouch w h p t er = reads_vouch w g p t er" "authorship_vouches w h p t er = authorship_vouches w g p t er"
    "getExemptionMode w h p = getExemptionMode w g p" "reads_of h p = reads_of g p"
  using assms reads_of_cong [of h g p]
  by (simp_all add: reads_vouch_def authorship_vouches_def getExemptionMode_def)

lemma checkEdit_action:
  assumes key: "w_key w (w_key w raw) = w_key w raw" and ranges: "ranges_ok touched editRanges"
  shows "v_action (fst (checkEdit w raw (Some touched) editRanges default_check_opts g)) =
    (if w_key w raw \<in> g_exemptions g \<or> getExemptionMode w g (w_key w raw) = Some ExemptAllow then Allow
     else if (if reads_of g (w_key w raw) = [] then authorship_vouches w g (w_key w raw) touched editRanges
              else reads_vouch w g (w_key w raw) touched editRanges) then Allow
     else if getExemptionMode w g (w_key w raw) = Some ExemptWarn \<or> c_mode (g_config g) = ModeWarn then Warn
     else Block)"
proof -
  let ?p = "w_key w raw"
  let ?mode = "if getExemptionMode w g ?p = Some ExemptWarn then Some ModeWarn else None"
  define h where "h = (if jm_has (g_reads g) ?p \<or> jm_has (g_edits g) ?p then touchFile (w_now w) ?p g else g)"
  have h: "g_reads h = g_reads g" "g_config h = g_config g" "g_fileTime h = g_fileTime g"
      "g_sessionId h = g_sessionId g" "g_writtenThisSession h = g_writtenThisSession g"
      "g_exemptions h = g_exemptions g" by (simp_all add: h_def)
  note same = fold_changes_only [OF h(1-5)]
  have "fst (checkEdit w raw (Some touched) editRanges default_check_opts g) =
      (if ?p \<in> g_exemptions g \<or> getExemptionMode w g ?p = Some ExemptAllow then allow_verdict
       else if reads_of h ?p = [] then fst (check_zero_read w ?p (Some touched) editRanges ?mode h)
       else check_read_file w ?p (Some touched) editRanges default_check_opts ?mode h)"
    unfolding checkEdit_def h_def [symmetric] Let_def
    by (auto simp: h same split_beta)
  then show ?thesis
    using check_zero_read_action [OF key, of touched editRanges ?mode h]
      check_read_file_action [OF ranges, of w ?p ?mode h]
    by (simp add: same h allow_verdict_def denial_def)
qed

section \<open>Properties\<close>

text \<open>
  C1: An edit is allowed exactly on evidence or by an exemption. Without content-match options, and
  for an edit whose ranges are not empty, \<open>checkEdit\<close> allows an edit of a file that has a one-time
  exemption or a pattern exemption that allows. Any other file with reads it allows exactly when
  every edited range is covered by confirmed reads, no edited line differs on disk from what
  the agent last saw of it, every edited line is hash-verified if the file moved since its
  stamp, and a stale content binding is superseded: then authorship plays no part. A file
  without reads it allows exactly when the conversation's own bytes are still on disk, were
  never retired, and span the edited lines. Every other edit gets a warning when the guard or
  a pattern exemption says so, and is blocked otherwise.
\<close>

theorem edit_allowed_exactly_on_evidence:
  assumes key: "w_key w (w_key w raw) = w_key w raw" and ranges: "ranges_ok touched editRanges"
  shows "v_action (fst (checkEdit w raw (Some touched) editRanges default_check_opts g)) =
    (if w_key w raw \<in> g_exemptions g \<or> getExemptionMode w g (w_key w raw) = Some ExemptAllow then Allow
     else if (if reads_of g (w_key w raw) = [] then authorship_vouches w g (w_key w raw) touched editRanges
              else reads_vouch w g (w_key w raw) touched editRanges) then Allow
     else if getExemptionMode w g (w_key w raw) = Some ExemptWarn \<or> c_mode (g_config g) = ModeWarn then Warn
     else Block)"
  using assms by (rule checkEdit_action)

text \<open>A world with the two-line file, and a guard whose conversation wrote that file.\<close>

definition demo_world :: world where
  "demo_world =
     \<lparr>w_disk = demo_disk, w_now = 9, w_key = (\<lambda>p. p), w_resolve = (\<lambda>p. p), w_win32 = False,
      w_sha = (\<lambda>_. ''ab''), w_hashText = (\<lambda>s n. take n s), w_regexTest = (\<lambda>_ _. False)\<rparr>"

definition demo_guard :: guard where
  "demo_guard = new_ReadGuard ''s'' DEFAULT_CONFIG 0 []"

definition demo_author :: guard where
  "demo_author = demo_guard\<lparr>g_writtenThisSession :=
     [(''/a.ts'', \<lparr>ab_size = 4, ab_mtimeMs = 3, ab_ctimeMs = 3, ab_hash = Some ''ab'', ab_toolCallId = Some ''c1'',
        ab_retired = False, ab_ranges = Some [(2, 2)], ab_lineCount = Some 2\<rparr>)]\<rparr>"

lemma demo_exemption:
  "g_config g = DEFAULT_CONFIG \<Longrightarrow> getExemptionMode demo_world g ''/a.ts'' = None"
  by (simp add: getExemptionMode_def DEFAULT_CONFIG_def matchesPattern_def starts_with_def ends_with_def)

theorem edit_allowed_exactly_on_evidence_witness:
  "v_action (fst (checkEdit demo_world ''/a.ts'' (Some (2, 2)) None default_check_opts demo_guard)) = Block \<and>
   v_action (fst (checkEdit demo_world ''/a.ts'' (Some (2, 2)) None default_check_opts demo_author)) = Allow \<and>
   v_action (fst (checkEdit demo_world ''/a.ts'' (Some (1, 2)) None default_check_opts demo_author)) = Block"
proof -
  have conf: "g_config demo_guard = DEFAULT_CONFIG" "g_config demo_author = DEFAULT_CONFIG"
    by (simp_all add: demo_author_def demo_guard_def new_ReadGuard_def)
  have key: "w_key demo_world ''/a.ts'' = ''/a.ts''" by (simp add: demo_world_def)
  have check: "v_action (fst (checkEdit demo_world ''/a.ts'' (Some (a, 2)) None default_check_opts g)) =
      (if authorship_vouches demo_world g ''/a.ts'' (a, 2) None then Allow else Block)"
    if "g = demo_guard \<or> g = demo_author" "a \<le> 2" for g a
  proof -
    have "g_exemptions g = {}" "reads_of g ''/a.ts'' = []" "g_config g = DEFAULT_CONFIG" "c_mode DEFAULT_CONFIG \<noteq> ModeWarn"
      using that(1) by (auto simp: demo_author_def demo_guard_def new_ReadGuard_def reads_of_def DEFAULT_CONFIG_def)
    moreover have "ranges_ok (a, 2) None" using that(2) by (simp add: ranges_ok_def ranges_to_check_def)
    ultimately show ?thesis
      using edit_allowed_exactly_on_evidence [of demo_world "''/a.ts''" "(a, 2)" None g] key demo_exemption [of g]
      by simp
  qed
  have "bytes_unchanged (w_disk demo_world) ''/a.ts'' (the (jm_get (g_writtenThisSession demo_author) ''/a.ts''))"
    by (simp add: bytes_unchanged_def demo_world_def demo_disk_def demo_author_def)
  then have "authorship_vouches demo_world demo_author ''/a.ts'' (2, 2) None"
    "\<not> authorship_vouches demo_world demo_author ''/a.ts'' (1, 2) None"
    "\<not> authorship_vouches demo_world demo_guard ''/a.ts'' (2, 2) None"
    by (simp_all add: authorship_vouches_def demo_author_def demo_guard_def new_ReadGuard_def)
  with check show ?thesis by simp
qed

end
