(* ===== verification/Guard_Liveness.thy ===== *)
theory Guard_Liveness
  imports Guard_Decision
begin

text \<open>
  What a recorded read is good for: the caps never drop it while it is outstanding, the record
  cap keeps it, and an edit of its lines passes as long as the text of the file is the same.
\<close>

section \<open>The file cap spares outstanding reads\<close>

lemma evict_consumed_frame:
  "g_fileTime (evict_consumed g) = g_fileTime g \<and> g_config (evict_consumed g) = g_config g \<and>
   g_sessionId (evict_consumed g) = g_sessionId g \<and> g_exemptions (evict_consumed g) = g_exemptions g \<and>
   g_branchEpoch (evict_consumed g) = g_branchEpoch g \<and>
   g_checkedPathsByCall (evict_consumed g) = g_checkedPathsByCall g \<and>
   g_pendingCreations (evict_consumed g) = g_pendingCreations g \<and>
   g_expiredWrites (evict_consumed g) = g_expiredWrites g"
proof (induction g rule: evict_consumed.induct)
  case (1 g)
  then show ?case
    by (subst (1 2 3 4 5 6 7 8) evict_consumed.simps)
       (auto simp: evictFile_def clearFileTimer_def Let_def split: option.splits)
qed

lemma evict_consumed_keeps:
  "q \<notin> g_consumedReadFiles g \<Longrightarrow>
     jm_get (g_reads (evict_consumed g)) q = jm_get (g_reads g) q \<and>
     jm_get (g_writtenThisSession (evict_consumed g)) q = jm_get (g_writtenThisSession g) q \<and>
     q \<notin> g_consumedReadFiles (evict_consumed g)"
proof (induction g rule: evict_consumed.induct)
  case (1 g)
  show ?case
  proof (cases "length (g_reads g) > READ_GUARD_MAX_FILES")
    case True
    show ?thesis
    proof (cases "cap_victim (\<lambda>p. p \<in> g_consumedReadFiles g) g")
      case None
      then show ?thesis using "1.prems" by (subst (1 2 3) evict_consumed.simps) simp
    next
      case (Some v)
      with cap_victim_in [OF this] "1.prems" have "v \<noteq> q" by auto
      with "1.IH" [OF True Some] "1.prems" show ?thesis
        by (subst (1 2 3) evict_consumed.simps) (simp add: True Some jm_get_delete)
    qed
  next
    case False
    then show ?thesis using "1.prems" by (subst (1 2 3) evict_consumed.simps) simp
  qed
qed

lemma evict_consumed_length: "length (g_reads (evict_consumed g)) \<le> length (g_reads g)"
proof (induction g rule: evict_consumed.induct)
  case (1 g)
  then show ?case
    by (subst evict_consumed.simps) (force split: option.splits intro: order_trans [OF _ length_jm_delete])
qed

lemma evict_unconsumed_id: "length (g_reads g) \<le> READ_GUARD_MAX_UNCONSUMED_FILES \<Longrightarrow> evict_unconsumed g = g"
  by (subst evict_unconsumed.simps) simp

lemma enforceFileCap_keeps:
  assumes "q \<notin> g_consumedReadFiles g" "length (g_reads g) \<le> READ_GUARD_MAX_UNCONSUMED_FILES"
  shows "jm_get (g_reads (enforceFileCap g)) q = jm_get (g_reads g) q"
    and "g_fileTime (enforceFileCap g) = g_fileTime g" and "g_config (enforceFileCap g) = g_config g"
    and "g_sessionId (enforceFileCap g) = g_sessionId g" and "g_exemptions (enforceFileCap g) = g_exemptions g"
  using evict_consumed_keeps [OF assms(1)] evict_consumed_frame [of g]
    evict_unconsumed_id [of "evict_consumed g"] evict_consumed_length [of g] assms(2)
  by (simp_all add: enforceFileCap_def)

section \<open>The record cap keeps the newest genuine read\<close>

lemma cap_keeps_last:
  assumes "rr_searchCredit r = None"
  shows "fst (enforceRecordCapForFile (rs @ [r])) \<noteq> [] \<and> last (fst (enforceRecordCapForFile (rs @ [r]))) = r"
proof (cases "length (rs @ [r]) \<le> READ_GUARD_MAX_RECORDS_PER_FILE")
  case True
  then show ?thesis by (simp add: enforceRecordCapForFile_def)
next
  case False
  let ?rs = "rs @ [r]"
  let ?n = "length rs" and ?e = "length ?rs - READ_GUARD_MAX_RECORDS_PER_FILE"
  define c where "c = evict_credits ?e ?rs"
  define ev where "ev = evict_rest ?e ?rs c"
  have c: "set c \<subseteq> {i. i < Suc ?n \<and> rr_searchCredit (?rs ! i) \<noteq> None}" "length c \<le> ?e"
    using set_take_subset [of ?e "filter (\<lambda>i. rr_searchCredit (?rs ! i) \<noteq> None) [0..<length ?rs]"]
    by (auto simp: c_def evict_credits_eq)
  have nc: "?n \<notin> set c" using c(1) assms by auto
  define R where "R = filter (\<lambda>i. i \<notin> set c) [0..<?n]"
  have ev: "ev = c @ take (?e - length c) (R @ [?n])"
    using nc by (simp add: ev_def evict_rest_eq R_def)
  have dc: "distinct c" unfolding c_def evict_credits_eq by (intro distinct_take distinct_filter distinct_upt)
  have "length R + length c \<ge> ?n"
  proof -
    have "card (set [0..<?n] - set c) \<ge> ?n - length c"
      using diff_card_le_card_Diff [of "set c" "set [0..<?n]"] distinct_card [OF dc] by simp
    moreover have "set R = set [0..<?n] - set c" "distinct R" by (auto simp: R_def)
    ultimately show ?thesis using distinct_card [of R] by simp
  qed
  then have "?e - length c \<le> length R"
    using c(2) by (simp add: READ_GUARD_MAX_RECORDS_PER_FILE_def)
  then have "take (?e - length c) (R @ [?n]) = take (?e - length c) R" by simp
  then have "?n \<notin> set ev"
    using nc set_take_subset [of "?e - length c" R] by (auto simp: ev R_def)
  then have "fst (enforceRecordCapForFile ?rs) =
      map ((!) ?rs) (filter (\<lambda>i. i \<notin> set ev) [0..<?n] @ [?n])"
    using False by (simp add: enforceRecordCapForFile_def Let_def c_def ev_def)
  then show ?thesis by simp
qed

section \<open>A recorded read\<close>

lemma note_trim_simps [simp]:
  "g_reads (note_trim p tr g) = g_reads g" "g_fileTime (note_trim p tr g) = g_fileTime g"
  "g_config (note_trim p tr g) = g_config g" "g_sessionId (note_trim p tr g) = g_sessionId g"
  "g_exemptions (note_trim p tr g) = g_exemptions g" "g_edits (note_trim p tr g) = g_edits g"
  "g_consumedReadFiles (note_trim p tr g) = g_consumedReadFiles g"
  "g_writtenThisSession (note_trim p tr g) = g_writtenThisSession g"
  "g_checkedPathsByCall (note_trim p tr g) = g_checkedPathsByCall g"
  "g_expiredWrites (note_trim p tr g) = g_expiredWrites g"
  by (simp_all add: note_trim_def Let_def)

lemma stamp_file_simps [simp]:
  "g_reads (stamp_file w p g) = g_reads g" "g_config (stamp_file w p g) = g_config g"
  "g_sessionId (stamp_file w p g) = g_sessionId g" "g_exemptions (stamp_file w p g) = g_exemptions g"
  "g_edits (stamp_file w p g) = g_edits g" "g_consumedReadFiles (stamp_file w p g) = g_consumedReadFiles g"
  "g_writtenThisSession (stamp_file w p g) = g_writtenThisSession g"
  "g_checkedPathsByCall (stamp_file w p g) = g_checkedPathsByCall g"
  "g_expiredWrites (stamp_file w p g) = g_expiredWrites g"
  by (simp_all add: stamp_file_def)

lemma recordRead_reads:
  assumes cap: "length (g_reads g) < READ_GUARD_MAX_UNCONSUMED_FILES" and sup: "ro_supersedes opts = None"
  shows "reads_of (recordRead w opts r g) (w_key w (rr_filePath r)) =
      fst (enforceRecordCapForFile (reads_of g (w_key w (rr_filePath r)) @ [stored_record w opts r]))"
    and "g_config (recordRead w opts r g) = g_config g"
    and "g_sessionId (recordRead w opts r g) = g_sessionId g"
    and "g_exemptions (recordRead w opts r g) = g_exemptions g"
proof -
  let ?p = "w_key w (rr_filePath r)"
  let ?kept = "fst (enforceRecordCapForFile (reads_of g ?p @ [stored_record w opts r]))"
  define h where "h = touchFile (w_now w) ?p
    (g\<lparr>g_knownPathIndex := jm_set (normalizeEphemeralMapKey (w_win32 w) (rr_filePath r)) ?p (g_knownPathIndex g),
       g_consumedReadFiles := g_consumedReadFiles g - {?p}, g_reads := jm_set ?p ?kept (g_reads g)\<rparr>)"
  have "length (g_reads h) \<le> READ_GUARD_MAX_UNCONSUMED_FILES"
    using cap by (simp add: h_def length_jm_set)
  moreover have "?p \<notin> g_consumedReadFiles h" by (simp add: h_def)
  ultimately have keep: "jm_get (g_reads (enforceFileCap h)) ?p = Some ?kept"
      "g_config (enforceFileCap h) = g_config g" "g_sessionId (enforceFileCap h) = g_sessionId g"
      "g_exemptions (enforceFileCap h) = g_exemptions g"
    using enforceFileCap_keeps [of ?p h] by (simp_all add: h_def jm_get_set)
  have rr: "recordRead w opts r g =
      (let g4 = note_trim ?p (snd (enforceRecordCapForFile (reads_of g ?p @ [stored_record w opts r]))) (enforceFileCap h)
       in if ro_stampFileTime opts then stamp_file w ?p g4 else g4)"
    by (simp add: recordRead_def sup h_def Let_def reads_of_def)
  show "reads_of (recordRead w opts r g) ?p = ?kept"
    by (simp add: rr Let_def reads_of_def keep)
  show "g_config (recordRead w opts r g) = g_config g" "g_sessionId (recordRead w opts r g) = g_sessionId g"
    "g_exemptions (recordRead w opts r g) = g_exemptions g"
    by (simp_all add: rr Let_def keep)
qed

text \<open>A last record that delivers every edited line as it is on disk vouches for the edit.\<close>

lemma last_read_vouches:
  fixes g :: guard and path :: string
  defines "reads \<equiv> reads_of g path"
  assumes ne: "reads \<noteq> []" and conf: "\<not> rr_provisional (last reads)" "rr_contentBinding (last reads) = None"
    and ctx: "0 \<le> c_contextLines (g_config g)"
    and pos: "\<forall>n \<in> edit_lines touched editRanges. 1 \<le> n \<and> delivers (w_disk w) path (last reads) n"
  shows "reads_vouch w g path touched editRanges"
proof -
  let ?lines = "edit_lines touched editRanges" and ?l = "last reads"
  have verified: "verified_line (w_disk w) path reads n" if "n \<in> ?lines" for n
  proof -
    have d: "readRangeCoversLine ?l n" "recorded_hash ?l n \<noteq> None" "disk_hash (w_disk w) path n = recorded_hash ?l n"
      using pos that by (auto simp: delivers_def)
    from newestView_last [OF ne conf(1) d(1)] d(2,3) ne show ?thesis
      by (simp add: verified_line_def seen_hash_def last_conv_nth)
  qed
  then have "\<forall>n \<in> ?lines. verified_line (w_disk w) path reads n \<and> \<not> stale_line (w_disk w) path reads n"
    by (auto simp: verified_line_def stale_line_def)
  moreover have "{fst r..snd r} \<subseteq> covered_lines (c_contextLines (g_config g)) reads"
    if "r \<in> set (ranges_to_check touched editRanges)" for r
  proof
    fix n assume n: "n \<in> {fst r..snd r}"
    with that have "n \<in> ?lines" by (auto simp: edit_lines_def lines_of_def)
    with pos have "1 \<le> n" "readRangeCoversLine ?l n" by (auto simp: delivers_def)
    moreover have "?l \<in> confirmed reads" using ne conf by (simp add: confirmed_def)
    ultimately show "n \<in> covered_lines (c_contextLines (g_config g)) reads"
      using ctx by (auto simp: covered_lines_def padded_range_def readRangeCoversLine_def intro!: bexI [of _ ?l])
  qed
  moreover have "binding_vouches w path reads ?lines"
  proof (cases "last_bound reads")
    case (Some i)
    with last_bound_Some [OF Some] conf(2) ne have "i + 1 < length reads"
      by (metis Suc_eq_plus1 Suc_lessI diff_Suc_1 last_conv_nth)
    then have "?l \<in> set (drop (i + 1) reads)" by (metis last_drop last_in_set drop_eq_Nil not_less)
    with Some conf(1) pos show ?thesis by (auto simp: binding_vouches_def)
  qed (simp add: binding_vouches_def)
  ultimately show ?thesis by (auto simp: reads_vouch_def Let_def reads_def)
qed

section \<open>Properties\<close>

lemma vouched_edit_allowed:
  assumes ok: "ranges_ok touched editRanges" and ne: "reads_of g (w_key w raw) \<noteq> []"
    and v: "reads_vouch w g (w_key w raw) touched editRanges"
  shows "fst (checkEdit w raw (Some touched) editRanges default_check_opts g) = allow_verdict"
proof -
  let ?p = "w_key w raw"
  define h where "h = (if jm_has (g_reads g) ?p \<or> jm_has (g_edits g) ?p then touchFile (w_now w) ?p g else g)"
  have h: "g_reads h = g_reads g" "g_config h = g_config g" "g_fileTime h = g_fileTime g"
      "g_sessionId h = g_sessionId g" "g_writtenThisSession h = g_writtenThisSession g" by (simp_all add: h_def)
  note same = fold_changes_only [OF h]
  have "check_read_file w ?p (Some touched) editRanges default_check_opts mode h = allow_verdict" for mode
    using vouched_read_file [OF ok] v by (simp add: same)
  then show ?thesis using ne unfolding checkEdit_def h_def [symmetric] Let_def by (simp add: same)
qed



end
