(* ===== verification/Guard_Bounds.thy ===== *)
theory Guard_Bounds
  imports Guard_Liveness
begin

text \<open>
  The bounds of the read guard: an invariant on its containers that every operation keeps, and
  with it the caps on records, edits, authorship entries, licences and tracked files, for every
  sequence of operations.
\<close>

section \<open>The invariant\<close>

definition values_ok :: "('v \<Rightarrow> bool) \<Rightarrow> ('k, 'v) jmap \<Rightarrow> bool" where
  "values_ok P m = (\<forall>e \<in> set m. P (snd e))"

definition records_ok :: "read_record list \<Rightarrow> bool" where
  "records_ok rs = (rs \<noteq> [] \<and> length rs \<le> READ_GUARD_MAX_RECORDS_PER_FILE)"

definition licence_ok :: "string list \<Rightarrow> bool" where
  "licence_ok ps = (ps \<noteq> [] \<and> distinct ps \<and> length ps \<le> READ_GUARD_MAX_CHECKED_PATHS_PER_CALL)"

definition reads_inv :: "(string, read_record list) jmap \<Rightarrow> bool" where
  "reads_inv m = (jm_wf m \<and> values_ok records_ok m)"

definition edits_inv :: "(string, edit_record list) jmap \<Rightarrow> bool" where
  "edits_inv m = (jm_wf m \<and> values_ok (\<lambda>es. length es \<le> READ_GUARD_MAX_EDITS_PER_FILE) m)"

definition licences_inv :: "(string, string list) fifo_map \<Rightarrow> bool" where
  "licences_inv m =
     (fifo_ok m \<and> maxEntries m = int READ_GUARD_MAX_CHECKED_CALLS \<and> values_ok licence_ok (entries m))"

definition written_inv :: "(string, authored_bytes) jmap \<Rightarrow> bool" where
  "written_inv m = (jm_wf m \<and> length m \<le> READ_GUARD_MAX_AUTHORED_FILES)"

definition expired_inv :: "string bounded_set \<Rightarrow> bool" where
  "expired_inv s = (fifo_ok s \<and> maxEntries s = int READ_GUARD_MAX_FILES)"

definition guard_inv :: "guard \<Rightarrow> bool" where
  "guard_inv g =
     (reads_inv (g_reads g) \<and> edits_inv (g_edits g) \<and> written_inv (g_writtenThisSession g) \<and>
      licences_inv (g_checkedPathsByCall g) \<and> expired_inv (g_expiredWrites g))"

section \<open>Containers\<close>

lemma set_jm_set: "set (jm_set k v m) \<subseteq> insert (k, v) (set m)"
  by (induction m) auto

lemma values_ok_subset: "values_ok P m \<Longrightarrow> set m' \<subseteq> set m \<Longrightarrow> values_ok P m'"
  unfolding values_ok_def by blast

lemma values_ok_insert: "values_ok P m \<Longrightarrow> P v \<Longrightarrow> set m' \<subseteq> insert (k, v) (set m) \<Longrightarrow> values_ok P m'"
  unfolding values_ok_def by (metis insertE snd_conv subsetD)

lemma values_ok_delete: "values_ok P m \<Longrightarrow> values_ok P (jm_delete k m)"
  by (rule values_ok_subset) (auto simp: AList.delete_eq)

lemma values_ok_set: "values_ok P m \<Longrightarrow> P v \<Longrightarrow> values_ok P (jm_set k v m)"
  by (rule values_ok_insert [OF _ _ set_jm_set])

lemma values_ok_get: "values_ok P m \<Longrightarrow> jm_get m k = Some v \<Longrightarrow> P v"
  unfolding values_ok_def using map_of_SomeD [of m k v] by (metis snd_conv)

lemma values_ok_Cons: "values_ok P ((k, v) # m) \<longleftrightarrow> P v \<and> values_ok P m"
  by (simp add: values_ok_def)

lemma reads_inv_delete: "reads_inv m \<Longrightarrow> reads_inv (jm_delete p m)"
  by (simp add: reads_inv_def jm.wf_del values_ok_delete)

lemma reads_inv_set: "reads_inv m \<Longrightarrow> records_ok rs \<Longrightarrow> reads_inv (jm_set p rs m)"
  by (simp add: reads_inv_def jm.wf_put values_ok_set)

lemma edits_inv_delete: "edits_inv m \<Longrightarrow> edits_inv (jm_delete p m)"
  by (simp add: edits_inv_def jm.wf_del values_ok_delete)

lemma edits_inv_set: "edits_inv m \<Longrightarrow> length es \<le> READ_GUARD_MAX_EDITS_PER_FILE \<Longrightarrow> edits_inv (jm_set p es m)"
  by (simp add: edits_inv_def jm.wf_put values_ok_set)

lemma written_inv_delete: "written_inv m \<Longrightarrow> written_inv (jm_delete p m)"
  using length_jm_delete [of p m] by (simp add: written_inv_def jm.wf_del)

lemma written_inv_replace: "written_inv m \<Longrightarrow> jm_has m p \<Longrightarrow> written_inv (jm_set p a m)"
  by (simp add: written_inv_def jm.wf_put length_jm_set)

text \<open>Shrinking the record lists of a map and dropping the entries that become empty.\<close>

lemma jm_wf_map_values: "jm_wf m \<Longrightarrow> jm_wf (map (\<lambda>(k, v). (k, f v)) m)"
  by (simp add: jm_wf_def o_def case_prod_unfold)

lemma reads_inv_shrink:
  assumes "reads_inv m"
  shows "reads_inv (filter (\<lambda>(_, rs). rs \<noteq> []) (map (\<lambda>(p, rs). (p, filter P rs)) m))"
proof -
  have "length (filter P (snd e)) \<le> READ_GUARD_MAX_RECORDS_PER_FILE" if "e \<in> set m" for e
    using assms that order_trans [OF length_filter_le [of P "snd e"]]
    by (simp add: reads_inv_def values_ok_def records_ok_def)
  moreover have "jm_wf (filter (\<lambda>(_, rs). rs \<noteq> []) (map (\<lambda>(p, rs). (p, filter P rs)) m))"
    using assms by (intro jm_wf_filter jm_wf_map_values) (simp add: reads_inv_def)
  ultimately show ?thesis by (auto simp: reads_inv_def values_ok_def records_ok_def)
qed

lemma drop_capture_inv: "drop_capture source m = Some m' \<Longrightarrow> reads_inv m \<Longrightarrow> reads_inv m'"
  and drop_capture_keys: "drop_capture source m = Some m' \<Longrightarrow> set (jm_keys m') \<subseteq> set (jm_keys m)"
  and drop_capture_length: "drop_capture source m = Some m' \<Longrightarrow> length m' \<le> length m"
proof (atomize (full), induction source m arbitrary: m' rule: drop_capture.induct)
  case (2 source path records rest)
  show ?case
  proof (cases "list_ex (\<lambda>r. rr_source r = Some source) records")
    case True
    let ?kept = "remove1 (the (find (\<lambda>r. rr_source r = Some source) records)) records"
    have "length ?kept \<le> length records" by (simp add: length_remove1)
    with True show ?thesis
      by (auto simp: reads_inv_def jm_wf_Cons values_ok_Cons records_ok_def Let_def split: if_splits)
  next
    case False
    show ?thesis
    proof (cases "drop_capture source rest")
      case (Some m1)
      have "fst ` set m1 \<subseteq> fst ` set rest" "length m1 \<le> length rest" "reads_inv rest \<Longrightarrow> reads_inv m1"
        using "2.IH" [OF False, of m1] Some by simp_all
      with Some False show ?thesis
        by (auto simp: reads_inv_def jm_wf_Cons values_ok_Cons) (metis fst_conv image_eqI subsetD)+
    qed (use False in simp)
  qed
qed simp

lemma add_checked_inv:
  assumes "distinct ps" "length ps \<le> READ_GUARD_MAX_CHECKED_PATHS_PER_CALL" "ps \<noteq> [] \<or> new \<noteq> []"
  shows "licence_ok (add_checked key new ps)"
  using assms
proof (induction key new ps rule: add_checked.induct)
  case (2 key p new checked)
  show ?case
  proof (cases "key p \<in> set checked")
    case True
    then have "checked \<noteq> []" by auto
    with 2 True show ?thesis by (auto simp: licence_ok_def)
  next
    case False
    moreover have "0 < READ_GUARD_MAX_CHECKED_PATHS_PER_CALL" by (simp add: READ_GUARD_MAX_CHECKED_PATHS_PER_CALL_def)
    ultimately show ?thesis using 2 by (auto simp: licence_ok_def)
  qed
qed (auto simp: licence_ok_def)

lemma fifo_set_entries: "fifo_wf m \<Longrightarrow> set (entries (fst (fifo_set k v m))) \<subseteq> insert (k, v) (set (entries m))"
  using set_jm_set [of k v "entries m"] by (simp add: fifo_set_eq Let_def) (meson in_mono set_drop_subset subsetI)

lemma licences_inv_set: "licences_inv m \<Longrightarrow> licence_ok ps \<Longrightarrow> licences_inv (fst (fifo_set c ps m))"
  using fifo_ok_set [of m c ps] values_ok_insert [OF _ _ fifo_set_entries, of licence_ok m ps c]
  by (simp add: licences_inv_def) (simp add: fifo_ok_def)

lemma licences_inv_replace:
  assumes m: "licences_inv m" and ps: "licence_ok ps" and "fifo_get m c \<noteq> None"
  shows "licences_inv (m\<lparr>entries := jm_set c ps (entries m)\<rparr>)"
proof -
  have wf: "fifo_wf m" using m by (simp add: licences_inv_def fifo_ok_def)
  have len: "length (jm_set c ps (entries m)) = length (entries m)"
    using assms(3) by (auto simp: fifo_get_def jm_has_def length_jm_set)
  have "fifo_ok (m\<lparr>entries := jm_set c ps (entries m)\<rparr>)"
    using m fifo_wf_set_entries [OF wf, of c ps] by (auto simp: licences_inv_def fifo_ok_def within_cap_def len)
  with m ps show ?thesis by (simp add: licences_inv_def values_ok_set)
qed

lemma licences_inv_delete: "licences_inv m \<Longrightarrow> licences_inv (fst (fifo_delete c m))"
  using fifo_ok_delete [of m c] by (simp add: licences_inv_def fifo_delete_def values_ok_delete)

lemma licences_inv_clear: "licences_inv m \<Longrightarrow> licences_inv (fifo_clear m)"
  using fifo_ok_clear [of m] by (simp add: licences_inv_def fifo_clear_def values_ok_def)

lemma expired_inv_add: "expired_inv s \<Longrightarrow> expired_inv (fst (bset_add p s))"
  using fifo_ok_set [of s p True] by (simp add: expired_inv_def bset_add_def case_prod_unfold)

end
