(* ===== verification/Guard_Invariant.thy ===== *)
theory Guard_Invariant
  imports Guard_Bounds
begin

text \<open>
  Every operation of the read guard keeps the invariant of \<open>Guard_Bounds\<close>: the guard is an event
  machine, and the caps hold after every sequence of operations.
\<close>

section \<open>Primitive steps\<close>

text \<open>The invariant reads five fields; an update of the others keeps it.\<close>

lemma guard_inv_cong:
  "g_reads h = g_reads g \<Longrightarrow> g_edits h = g_edits g \<Longrightarrow> g_writtenThisSession h = g_writtenThisSession g \<Longrightarrow>
   g_checkedPathsByCall h = g_checkedPathsByCall g \<Longrightarrow> g_expiredWrites h = g_expiredWrites g \<Longrightarrow>
   guard_inv h = guard_inv g"
  by (simp add: guard_inv_def)

lemma guard_inv_frame [simp]:
  "guard_inv (touchFile t p g) = guard_inv g"
  "guard_inv (stamp_file w p g) = guard_inv g"
  "guard_inv (note_trim p tr g) = guard_inv g"
  "guard_inv (g\<lparr>g_knownPathIndex := ix\<rparr>) = guard_inv g"
  "guard_inv (g\<lparr>g_consumedReadFiles := c\<rparr>) = guard_inv g"
  "guard_inv (g\<lparr>g_exemptions := x\<rparr>) = guard_inv g"
  "guard_inv (g\<lparr>g_pendingCreations := pc\<rparr>) = guard_inv g"
  "guard_inv (g\<lparr>g_fileTime := ft\<rparr>) = guard_inv g"
  by (rule guard_inv_cong; simp)+

lemma guard_inv_updates:
  "guard_inv g \<Longrightarrow> reads_inv m \<Longrightarrow> guard_inv (g\<lparr>g_reads := m\<rparr>)"
  "guard_inv g \<Longrightarrow> edits_inv ed \<Longrightarrow> guard_inv (g\<lparr>g_edits := ed\<rparr>)"
  "guard_inv g \<Longrightarrow> written_inv ws \<Longrightarrow> guard_inv (g\<lparr>g_writtenThisSession := ws\<rparr>)"
  "guard_inv g \<Longrightarrow> licences_inv l \<Longrightarrow> guard_inv (g\<lparr>g_checkedPathsByCall := l\<rparr>)"
  "guard_inv g \<Longrightarrow> expired_inv x \<Longrightarrow> guard_inv (g\<lparr>g_expiredWrites := x\<rparr>)"
  by (simp_all add: guard_inv_def)

lemma guard_invD:
  "guard_inv g \<Longrightarrow> reads_inv (g_reads g)" "guard_inv g \<Longrightarrow> edits_inv (g_edits g)"
  "guard_inv g \<Longrightarrow> written_inv (g_writtenThisSession g)" "guard_inv g \<Longrightarrow> licences_inv (g_checkedPathsByCall g)"
  "guard_inv g \<Longrightarrow> expired_inv (g_expiredWrites g)"
  by (simp_all add: guard_inv_def)

lemma noteExpiredWrite_inv: "guard_inv g \<Longrightarrow> guard_inv (noteExpiredWrite p g)"
  by (simp add: noteExpiredWrite_def guard_inv_updates(5) expired_inv_add guard_invD)

lemma evictFile_inv: "guard_inv g \<Longrightarrow> guard_inv (evictFile p reason g)"
proof -
  assume g: "guard_inv g"
  have "expired_inv (g_expiredWrites (evictFile p reason g))"
    using guard_invD(5) [OF g]
    by (auto simp: evictFile_def clearFileTimer_def Let_def noteExpiredWrite_def expired_inv_add)
  with g show ?thesis
    by (simp add: guard_inv_def reads_inv_delete edits_inv_delete written_inv_delete)
qed

lemma evict_consumed_inv: "guard_inv g \<Longrightarrow> guard_inv (evict_consumed g)"
proof (induction g rule: evict_consumed.induct)
  case (1 g)
  then show ?case by (subst evict_consumed.simps) (auto split: option.splits intro: evictFile_inv)
qed

lemma evict_unconsumed_inv: "guard_inv g \<Longrightarrow> guard_inv (evict_unconsumed g)"
proof (induction g rule: evict_unconsumed.induct)
  case (1 g)
  then show ?case by (subst evict_unconsumed.simps) (auto split: option.splits intro: evictFile_inv)
qed

lemma enforceFileCap_inv: "guard_inv g \<Longrightarrow> guard_inv (enforceFileCap g)"
  by (simp add: enforceFileCap_def evict_consumed_inv evict_unconsumed_inv)

section \<open>The authorship cap\<close>

lemma length_jm_delete_in: "jm_wf m \<Longrightarrow> k \<in> set (jm_keys m) \<Longrightarrow> length (jm_delete k m) = length m - 1"
proof (induction m)
  case (Cons e m)
  obtain a b where e: "e = (a, b)" by fastforce
  show ?case
  proof (cases "a = k")
    case True
    with Cons.prems e have "jm_delete k m = m" by (intro jm_delete_notin) (simp add: jm_wf_Cons)
    with True e show ?thesis by simp
  next
    case False
    with Cons e have "jm_wf m" "k \<in> set (jm_keys m)" by (auto simp: jm_wf_Cons)
    moreover from this have "0 < length m" by auto
    ultimately show ?thesis using False e Cons.IH by simp
  qed
qed simp

definition cap_state :: "int \<times> guard \<Rightarrow> bool" where
  "cap_state st =
     (jm_wf (g_writtenThisSession (snd st)) \<and> 0 \<le> fst st \<and>
      int (length (g_writtenThisSession (snd st))) = int READ_GUARD_MAX_AUTHORED_FILES + fst st \<and>
      reads_inv (g_reads (snd st)) \<and> edits_inv (g_edits (snd st)) \<and>
      licences_inv (g_checkedPathsByCall (snd st)) \<and> expired_inv (g_expiredWrites (snd st)))"

lemma drop_written_state:
  assumes "cap_state st" "0 < fst st" "p \<in> set (jm_keys (g_writtenThisSession (snd st)))"
  shows "cap_state (fst st - 1, (snd st)\<lparr>g_writtenThisSession := jm_delete p (g_writtenThisSession (snd st))\<rparr>)"
  using assms length_jm_delete_in [of "g_writtenThisSession (snd st)" p]
    length_pos_if_in_set [of p "jm_keys (g_writtenThisSession (snd st))"]
  by (auto simp: cap_state_def jm.wf_del)

lemma noteExpired_cap_state: "cap_state (n, g) \<Longrightarrow> cap_state (n, noteExpiredWrite p g)"
  by (simp add: cap_state_def) (simp add: noteExpiredWrite_def expired_inv_add)

lemma drop_retired_fold:
  assumes "cap_state st" "distinct (map fst es)" "fst ` set es \<subseteq> set (jm_keys (g_writtenThisSession (snd st)))"
  shows "cap_state (fold drop_retired es st)"
  using assms
proof (induction es arbitrary: st)
  case (Cons e es)
  have "cap_state (drop_retired e st) \<and>
      fst ` set es \<subseteq> set (jm_keys (g_writtenThisSession (snd (drop_retired e st))))"
  proof (cases "fst st \<le> 0 \<or> \<not> ab_retired (snd e)")
    case True
    with Cons.prems show ?thesis by (simp add: drop_retired_def)
  next
    case False
    with Cons.prems drop_written_state [of st "fst e"] show ?thesis
      by (auto simp: drop_retired_def jm_keys_delete) (metis fst_conv image_eqI)
  qed
  with Cons show ?case by simp
qed simp

lemma drop_live_fold:
  assumes "cap_state st" "distinct ks" "set ks \<subseteq> set (jm_keys (g_writtenThisSession (snd st)))" "fst st \<le> int (length ks)"
  shows "cap_state (fold drop_live ks st) \<and> fst (fold drop_live ks st) = 0"
  using assms
proof (induction ks arbitrary: st)
  case Nil
  then show ?case by (auto simp: cap_state_def)
next
  case (Cons k ks)
  show ?case
  proof (cases "fst st \<le> 0")
    case True
    then have "fold drop_live xs st = st" for xs by (induction xs) (simp_all add: drop_live_def)
    with True Cons.prems(1) show ?thesis unfolding cap_state_def by (metis order_antisym)
  next
    case False
    let ?st = "drop_live k st"
    have "cap_state ?st" "set ks \<subseteq> set (jm_keys (g_writtenThisSession (snd ?st)))" "fst ?st \<le> int (length ks)"
      using False Cons.prems noteExpired_cap_state drop_written_state [of st k]
      by (auto simp: drop_live_def jm_keys_delete)
    with Cons show ?thesis by simp
  qed
qed

lemma enforceAuthorshipCap_inv:
  assumes g: "reads_inv (g_reads g)" "edits_inv (g_edits g)" "jm_wf (g_writtenThisSession g)"
      "licences_inv (g_checkedPathsByCall g)" "expired_inv (g_expiredWrites g)"
  shows "guard_inv (enforceAuthorshipCap g)"
proof (cases "length (g_writtenThisSession g) \<le> READ_GUARD_MAX_AUTHORED_FILES")
  case True
  with g show ?thesis by (simp add: enforceAuthorshipCap_def Let_def guard_inv_def written_inv_def)
next
  case False
  define excess where "excess = int (length (g_writtenThisSession g)) - int READ_GUARD_MAX_AUTHORED_FILES"
  define st where "st = fold drop_retired (g_writtenThisSession g) (excess, g)"
  have "cap_state (excess, g)" using g False by (simp add: cap_state_def excess_def)
  then have st: "cap_state st"
    unfolding st_def using g(3) by (intro drop_retired_fold) (simp_all add: jm_wf_def)
  then have "cap_state (fold drop_live (jm_keys (g_writtenThisSession (snd st))) st) \<and>
      fst (fold drop_live (jm_keys (g_writtenThisSession (snd st))) st) = 0"
    by (intro drop_live_fold) (auto simp: cap_state_def jm_wf_def)
  with False show ?thesis
    by (simp add: enforceAuthorshipCap_def Let_def excess_def [symmetric] st_def [symmetric])
       (auto simp: cap_state_def guard_inv_def written_inv_def excess_def)
qed

section \<open>Operations\<close>

lemma records_ok_cap:
  assumes "rs \<noteq> []"
  shows "records_ok (fst (enforceRecordCapForFile rs))"
proof -
  have "0 < length (fst (enforceRecordCapForFile rs))"
    unfolding length_record_cap using assms by (simp add: READ_GUARD_MAX_RECORDS_PER_FILE_def)
  then have "fst (enforceRecordCapForFile rs) \<noteq> []" by (rule length_greater_0_conv [THEN iffD1])
  then show ?thesis by (simp add: records_ok_def length_record_cap)
qed

lemma dropProvisionalReadByCall_inv: "guard_inv g \<Longrightarrow> guard_inv (snd (dropProvisionalReadByCall c g))"
  using drop_capture_inv [of "provisional_source c" "g_reads g"]
  by (auto simp: dropProvisionalReadByCall_def guard_invD intro: guard_inv_updates split: option.splits)

lemma dropProvisionalReads_inv: "guard_inv g \<Longrightarrow> guard_inv (snd (dropProvisionalReads g))"
  by (simp add: dropProvisionalReads_def guard_inv_updates reads_inv_shrink guard_invD)

lemma recordRead_inv: "guard_inv g \<Longrightarrow> guard_inv (recordRead w opts r g)"
proof -
  assume "guard_inv g"
  define h where "h = (case ro_supersedes opts of None \<Rightarrow> g | Some c \<Rightarrow> snd (dropProvisionalReadByCall c g))"
  have h: "guard_inv h"
    using \<open>guard_inv g\<close> by (auto simp: h_def dropProvisionalReadByCall_inv split: option.splits)
  let ?arr = "reads_of h (w_key w (rr_filePath r)) @ [stored_record w opts r]"
  have "guard_inv (h\<lparr>g_knownPathIndex := ix, g_consumedReadFiles := c,
      g_reads := jm_set p (fst (enforceRecordCapForFile ?arr)) (g_reads h)\<rparr>)" for ix c p
    using h by (intro guard_inv_updates(1) reads_inv_set records_ok_cap) (simp_all add: guard_invD)
  then have "guard_inv (enforceFileCap (touchFile t q (h\<lparr>g_knownPathIndex := ix, g_consumedReadFiles := c,
      g_reads := jm_set p (fst (enforceRecordCapForFile ?arr)) (g_reads h)\<rparr>)))" for ix c p t q
    by (intro enforceFileCap_inv) simp
  moreover have "reads_of (h\<lparr>g_knownPathIndex := ix\<rparr>) q = reads_of h q" for ix q by (simp add: reads_of_def)
  ultimately show ?thesis unfolding recordRead_def h_def [symmetric] Let_def by simp
qed

lemma injectCreationRead_inv: "guard_inv g \<Longrightarrow> guard_inv (injectCreationRead w p t i c content g)"
  by (auto simp: injectCreationRead_def recordRead_inv split: option.splits prod.splits)

lemma jm_has_get: "jm_get m k = Some v \<Longrightarrow> jm_has m k"
  by (simp add: jm_has_def)

lemma retireIfChanged_inv: "guard_inv g \<Longrightarrow> guard_inv (snd (retireIfChanged w p g))"
  by (auto simp: retireIfChanged_def Let_def jm_has_get guard_invD intro!: guard_inv_updates written_inv_replace
      split: option.splits prod.splits)

lemma noteCheckedPaths_inv: "guard_inv g \<Longrightarrow> guard_inv (noteCheckedPaths w c ps g)"
proof (cases "sanitizeCorrelationId (w_hashText w) c")
  case (Some call)
  assume g: "guard_inv g"
  note lic = guard_invD(4) [OF g]
  show ?thesis
  proof (cases "fifo_get (g_checkedPathsByCall g) call")
    case None
    with g lic Some show ?thesis
      by (auto simp: noteCheckedPaths_def READ_GUARD_MAX_CHECKED_PATHS_PER_CALL_def
          intro!: guard_inv_updates licences_inv_set add_checked_inv)
  next
    case (Some checked)
    then have "licence_ok checked"
      using lic values_ok_get [of licence_ok "entries (g_checkedPathsByCall g)" call checked]
      by (simp add: licences_inv_def fifo_get_def)
    then have "licence_ok (add_checked (w_key w) ps checked)"
      by (intro add_checked_inv) (simp_all add: licence_ok_def)
    with g lic Some \<open>sanitizeCorrelationId (w_hashText w) c = Some call\<close> show ?thesis
      by (auto simp: noteCheckedPaths_def intro!: guard_inv_updates licences_inv_replace)
  qed
qed (simp add: noteCheckedPaths_def)

lemma consumeCheckedAtCall_inv: "guard_inv g \<Longrightarrow> guard_inv (snd (consumeCheckedAtCall w c p g))"
proof (cases "sanitizeCorrelationId (w_hashText w) c")
  case (Some call)
  assume g: "guard_inv g"
  note lic = guard_invD(4) [OF g]
  show ?thesis
  proof (cases "fifo_get (g_checkedPathsByCall g) call")
    case (Some checked)
    let ?left = "filter (\<lambda>q. q \<noteq> w_key w p) checked"
    have "licence_ok checked"
      using lic Some values_ok_get [of licence_ok "entries (g_checkedPathsByCall g)" call checked]
      by (simp add: licences_inv_def fifo_get_def)
    then have "?left \<noteq> [] \<Longrightarrow> licence_ok ?left"
      using order_trans [OF length_filter_le] by (auto simp: licence_ok_def)
    with g lic Some \<open>sanitizeCorrelationId (w_hashText w) c = Some call\<close> show ?thesis
      by (auto simp: consumeCheckedAtCall_def Let_def
          intro!: guard_inv_updates licences_inv_replace licences_inv_delete)
  qed (use g Some in \<open>simp add: consumeCheckedAtCall_def Let_def\<close>)
qed (simp add: consumeCheckedAtCall_def)

lemma mayAdvanceAuthorship_inv: "guard_inv g \<Longrightarrow> guard_inv (snd (mayAdvanceAuthorship w p opts g))"
  by (simp add: mayAdvanceAuthorship_def consumeCheckedAtCall_inv split: option.splits)

lemma consumeCheckedAtCall_frame [simp]:
  "g_writtenThisSession (snd (consumeCheckedAtCall w c p g)) = g_writtenThisSession g"
  "g_reads (snd (consumeCheckedAtCall w c p g)) = g_reads g"
  by (simp_all add: consumeCheckedAtCall_def Let_def split: option.splits)

lemma mayAdvanceAuthorship_frame [simp]:
  "g_writtenThisSession (snd (mayAdvanceAuthorship w p opts g)) = g_writtenThisSession g"
  "g_reads (snd (mayAdvanceAuthorship w p opts g)) = g_reads g"
  by (simp_all add: mayAdvanceAuthorship_def split: option.splits)

lemma creditAuthorship_inv:
  assumes g: "guard_inv g"
  shows "guard_inv (creditAuthorship w p opts g)"
proof -
  define existing where "existing = jm_get (g_writtenThisSession g) p"
  define res where "res = (if existing = None then (True, g) else mayAdvanceAuthorship w p opts g)"
  have h: "guard_inv (snd res)" using g by (simp add: res_def mayAdvanceAuthorship_inv)
  have "guard_inv (enforceAuthorshipCap
      ((snd res)\<lparr>g_writtenThisSession := jm_set p a (jm_delete p (g_writtenThisSession (snd res)))\<rparr>))" for a
    using guard_invD [OF h]
    by (intro enforceAuthorshipCap_inv) (simp_all add: written_inv_def jm.wf_put jm.wf_del)
  with g h show ?thesis
    unfolding creditAuthorship_def existing_def [symmetric] Let_def res_def [symmetric]
    by (simp add: case_prod_unfold retireIfChanged_inv)
qed

lemma write_landed_inv: "guard_inv g \<Longrightarrow> guard_inv (write_landed w p c opts g)"
  unfolding write_landed_def Let_def by (intro enforceFileCap_inv) (simp add: creditAuthorship_inv)

lemma recordWritten_inv: "guard_inv g \<Longrightarrow> guard_inv (recordWritten w raw opts g)"
  by (simp add: recordWritten_def Let_def write_landed_inv injectCreationRead_inv split: option.split)

lemma recordVerdict_inv: "guard_inv g \<Longrightarrow> guard_inv (recordVerdict w p tool t v g)"
  by (auto simp: recordVerdict_def recordEdit_def Let_def guard_invD intro!: guard_inv_updates(2) edits_inv_set)

lemma check_zero_read_inv: "guard_inv g \<Longrightarrow> guard_inv (snd (check_zero_read w p t er mode g))"
  by (auto simp: check_zero_read_def retireChangedAuthorship_def Let_def retireIfChanged_inv
      intro!: injectCreationRead_inv split: option.splits)

lemma checkEdit_inv: "guard_inv g \<Longrightarrow> guard_inv (snd (checkEdit w raw t er opts g))"
proof -
  assume g: "guard_inv g"
  define h where "h = (if jm_has (g_reads g) (w_key w raw) \<or> jm_has (g_edits g) (w_key w raw)
    then touchFile (w_now w) (w_key w raw) g else g)"
  have h: "guard_inv h" using g by (simp add: h_def)
  show ?thesis
    unfolding checkEdit_def h_def [symmetric] Let_def
    by (simp add: case_prod_unfold recordVerdict_inv check_zero_read_inv h)
qed

lemma retainBranch_inv:
  assumes g: "guard_inv g"
  shows "guard_inv (snd (retainBranch B g))"
proof -
  have "written_inv (filter P (g_writtenThisSession g))" for P
    using guard_invD(3) [OF g] order_trans [OF length_filter_le] by (auto simp: written_inv_def jm_wf_filter)
  moreover have "reads_inv (filter (\<lambda>(_, records). records \<noteq> [])
      (map (\<lambda>(path, records). (path, kept_reads B records)) (g_reads g)))"
    unfolding kept_reads_def by (rule reads_inv_shrink [OF guard_invD(1) [OF g]])
  moreover have "expired_inv (fifo_clear (g_expiredWrites g))"
    using guard_invD(5) [OF g] fifo_ok_clear by (auto simp: expired_inv_def fifo_clear_def)
  ultimately show ?thesis
    using guard_invD(4) [OF g] by (simp add: retainBranch_def guard_inv_def licences_inv_clear edits_inv_def values_ok_def)
qed

lemma forgetPath_inv: "guard_inv g \<Longrightarrow> guard_inv (forgetPath w raw g)"
  by (simp add: forgetPath_def evictFile_inv split: option.splits)

lemma idleTimerFired_inv: "guard_inv g \<Longrightarrow> guard_inv (idleTimerFired p g)"
  by (simp add: idleTimerFired_def evictFile_inv split: option.splits)

lemma importBranch_inv: "guard_inv g \<Longrightarrow> guard_inv (snd (importBranch w state B g))"
proof -
  have rd: "guard_inv (snd (fold (import_read w B p) rs st))" if "guard_inv (snd st)" for p rs st
    using that by (induction rs arbitrary: st) (auto simp: import_read_def recordRead_inv)
  have "guard_inv (snd (fold (import_file w B) es st))" if "guard_inv (snd st)" for es st
    using that by (induction es arbitrary: st) (auto simp: import_file_def rd)
  then show "guard_inv g \<Longrightarrow> ?thesis" by (auto simp: importBranch_def split: option.splits)
qed

lemma importAuthorship_inv:
  assumes g: "guard_inv g"
  shows "guard_inv (snd (importAuthorship w payload B g))"
proof -
  let ?frame = "\<lambda>h. jm_wf (g_writtenThisSession h) \<and> g_reads h = g_reads g \<and> g_edits h = g_edits g \<and>
      g_checkedPathsByCall h = g_checkedPathsByCall g \<and> g_expiredWrites h = g_expiredWrites g"
  have "?frame (snd (fold (import_row w B) rows st))" if "?frame (snd st)" for rows st
    using that
    by (induction rows arbitrary: st) (auto simp: import_row_def jm.wf_put split: untyped.splits option.splits)
  from this [of "((0, 0), g)"] guard_invD [OF g] show ?thesis
    by (auto simp: importAuthorship_def Let_def case_prod_unfold written_inv_def intro!: enforceAuthorshipCap_inv)
qed

end
