(* ===== verification/Guard_Run.thy ===== *)
theory Guard_Run
  imports Guard_Invariant
begin

text \<open>
  Runs of the read guard: its operations as events, each with the world it observes, and the
  properties that hold after every sequence of them.
\<close>

section \<open>Events\<close>

datatype guard_event =
    RecordRead world read_opts read_record
  | RecordSymbolRead world string symbol_info int int "string option"
  | DropProvisionalReads
  | DropProvisionalReadByCall string
  | NoteCheckedPaths world "string option" "string list"
  | RetireChangedAuthorship world string
  | NoteCreatedFile world string int int "string option"
  | RecordWritten world string write_opts
  | CheckEdit world string "line_range option" "line_range list option" check_opts
  | AddExemption world string
  | ForgetPath world string
  | IdleTimerFired string
  | GetReadHistory world string
  | GetEditHistory world string
  | RetainBranch "string set"
  | ReleaseFileTime
  | ImportBranch world "persisted_state option" "string set"
  | ImportAuthorship world persisted_authorship "string set"

fun guard_apply :: "guard_event \<Rightarrow> guard \<Rightarrow> guard" where
  "guard_apply (RecordRead w opts r) g = recordRead w opts r g"
| "guard_apply (RecordSymbolRead w p s t i c) g = recordSymbolRead w p s t i c g"
| "guard_apply DropProvisionalReads g = snd (dropProvisionalReads g)"
| "guard_apply (DropProvisionalReadByCall c) g = snd (dropProvisionalReadByCall c g)"
| "guard_apply (NoteCheckedPaths w c ps) g = noteCheckedPaths w c ps g"
| "guard_apply (RetireChangedAuthorship w p) g = snd (retireChangedAuthorship w p g)"
| "guard_apply (NoteCreatedFile w p t i c) g = noteCreatedFile w p t i c g"
| "guard_apply (RecordWritten w p opts) g = recordWritten w p opts g"
| "guard_apply (CheckEdit w p t er opts) g = snd (checkEdit w p t er opts g)"
| "guard_apply (AddExemption w p) g = addExemption w p g"
| "guard_apply (ForgetPath w p) g = forgetPath w p g"
| "guard_apply (IdleTimerFired p) g = idleTimerFired p g"
| "guard_apply (GetReadHistory w p) g = snd (getReadHistory w p g)"
| "guard_apply (GetEditHistory w p) g = snd (getEditHistory w p g)"
| "guard_apply (RetainBranch B) g = snd (retainBranch B g)"
| "guard_apply ReleaseFileTime g = releaseFileTime g"
| "guard_apply (ImportBranch w s B) g = snd (importBranch w s B g)"
| "guard_apply (ImportAuthorship w a B) g = snd (importAuthorship w a B g)"

lemma guard_apply_inv: "guard_inv g \<Longrightarrow> guard_inv (guard_apply e g)"
  by (cases e)
    (simp_all add: recordRead_inv recordSymbolRead_def dropProvisionalReads_inv dropProvisionalReadByCall_inv
      noteCheckedPaths_inv retireChangedAuthorship_def retireIfChanged_inv noteCreatedFile_def recordWritten_inv
      checkEdit_inv addExemption_def forgetPath_inv idleTimerFired_inv getReadHistory_def getEditHistory_def
      retainBranch_inv releaseFileTime_def importBranch_inv importAuthorship_inv Let_def)

interpretation rg: event_machine guard_apply guard_inv
  by unfold_locales (rule guard_apply_inv)

lemma new_ReadGuard_inv: "guard_inv (new_ReadGuard sid cfg epoch fts)"
  by (simp add: guard_inv_def new_ReadGuard_def reads_inv_def edits_inv_def written_inv_def licences_inv_def
      expired_inv_def values_ok_def fifo_ok_new READ_GUARD_MAX_CHECKED_CALLS_def READ_GUARD_MAX_FILES_def)
     (simp add: new_BoundedFifoMap_def)

section \<open>Bounds\<close>

text \<open>
  C37: The guard is bounded. After every sequence of operations, in any order and on any disk, a
  file holds between one and 128 read records and at most 256 edit records, at most 4096 files
  carry an authorship, and at most 16 calls hold licences, for at most 128 paths each.
\<close>

theorem guard_bounds:
  "let g = fold guard_apply events (new_ReadGuard sid cfg epoch fts) in
     list_all (\<lambda>(_, records). records \<noteq> [] \<and> length records \<le> 128) (g_reads g) \<and>
     list_all (\<lambda>(_, edits). length edits \<le> 256) (g_edits g) \<and>
     length (g_writtenThisSession g) \<le> 4096 \<and>
     length (entries (g_checkedPathsByCall g)) \<le> 16 \<and>
     list_all (\<lambda>(_, paths). length paths \<le> 128) (entries (g_checkedPathsByCall g))"
proof -
  have "guard_inv (fold guard_apply events (new_ReadGuard sid cfg epoch fts))"
    by (rule rg.run_inv [OF new_ReadGuard_inv])
  then show ?thesis
    by (auto simp: guard_inv_def reads_inv_def edits_inv_def written_inv_def licences_inv_def values_ok_def
        records_ok_def licence_ok_def fifo_ok_def within_cap_def list_all_iff READ_GUARD_MAX_RECORDS_PER_FILE_def
        READ_GUARD_MAX_EDITS_PER_FILE_def READ_GUARD_MAX_AUTHORED_FILES_def READ_GUARD_MAX_UNCONSUMED_FILES_def
        READ_GUARD_MAX_CHECKED_CALLS_def READ_GUARD_MAX_CHECKED_PATHS_PER_CALL_def Let_def)
qed

end
