(* ===== verification/Guard_Authorship.thy ===== *)
theory Guard_Authorship
  imports Guard_Run
begin

text \<open>
  Authorship and licences over runs: an ended authorship is never resumed, a write that no check
  guarded never re-baselines one, a licence is spent once, and a write captured before a branch
  move is not credited after it.
\<close>

section \<open>Frames of the epoch\<close>

lemma evict_consumed_epoch [simp]: "g_branchEpoch (evict_consumed g) = g_branchEpoch g"
  using evict_consumed_frame [of g] by simp

lemma evict_unconsumed_epoch [simp]: "g_branchEpoch (evict_unconsumed g) = g_branchEpoch g"
proof (induction g rule: evict_unconsumed.induct)
  case (1 g)
  then show ?case by (subst evict_unconsumed.simps) (simp split: option.splits)
qed

lemma noteExpired_fold_epoch:
  "g_branchEpoch (snd (fold drop_live ks st)) = g_branchEpoch (snd st)"
  "g_branchEpoch (snd (fold drop_retired es st)) = g_branchEpoch (snd st)"
proof -
  show "g_branchEpoch (snd (fold drop_live ks st)) = g_branchEpoch (snd st)"
    by (induction ks arbitrary: st) (simp_all add: drop_live_def)
  show "g_branchEpoch (snd (fold drop_retired es st)) = g_branchEpoch (snd st)"
    by (induction es arbitrary: st) (simp_all add: drop_retired_def)
qed

lemma enforceAuthorshipCap_epoch [simp]: "g_branchEpoch (enforceAuthorshipCap g) = g_branchEpoch g"
  by (simp add: enforceAuthorshipCap_def Let_def noteExpired_fold_epoch)

lemma recordRead_epoch [simp]: "g_branchEpoch (recordRead w opts r g) = g_branchEpoch g"
  by (simp add: recordRead_def Let_def enforceFileCap_def stamp_file_def note_trim_def
      dropProvisionalReadByCall_def split: option.splits)

lemma injectCreationRead_epoch [simp]: "g_branchEpoch (injectCreationRead w p t i c content g) = g_branchEpoch g"
  by (simp add: injectCreationRead_def split: option.splits prod.splits)

lemma creditAuthorship_epoch [simp]: "g_branchEpoch (creditAuthorship w p opts g) = g_branchEpoch g"
proof -
  have "g_branchEpoch (snd (mayAdvanceAuthorship w p opts g)) = g_branchEpoch g"
    by (simp add: mayAdvanceAuthorship_def consumeCheckedAtCall_def Let_def split: option.splits)
  then show ?thesis by (simp add: creditAuthorship_def Let_def case_prod_unfold)
qed

lemma recordWritten_epoch [simp]: "g_branchEpoch (recordWritten w raw opts g) = g_branchEpoch g"
proof -
  have "g_branchEpoch (write_landed w p c opts g) = g_branchEpoch g" for p c
    by (simp add: write_landed_def Let_def enforceFileCap_def stamp_file_def)
  then show ?thesis by (simp add: recordWritten_def Let_def split: option.split)
qed

lemma checkEdit_epoch [simp]: "g_branchEpoch (snd (checkEdit w raw t er opts g)) = g_branchEpoch g"
proof -
  have "g_branchEpoch (snd (check_zero_read w p t er mode h)) = g_branchEpoch h" for p mode h
    by (simp add: check_zero_read_def retireChangedAuthorship_def Let_def split: option.split)
  then show ?thesis unfolding checkEdit_def Let_def by (simp add: case_prod_unfold)
qed

lemma importBranch_epoch [simp]: "g_branchEpoch (snd (importBranch w s B g)) = g_branchEpoch g"
proof -
  have rd: "g_branchEpoch (snd (fold (import_read w B p) rs st)) = g_branchEpoch (snd st)" for p rs st
    by (induction rs arbitrary: st) (simp_all add: import_read_def)
  have "g_branchEpoch (snd (fold (import_file w B) es st)) = g_branchEpoch (snd st)" for es st
    by (induction es arbitrary: st) (simp_all add: import_file_def rd)
  then show ?thesis by (simp add: importBranch_def split: option.split)
qed

lemma importAuthorship_epoch [simp]: "g_branchEpoch (snd (importAuthorship w a B g)) = g_branchEpoch g"
proof -
  have "g_branchEpoch (snd (fold (import_row w B) rows st)) = g_branchEpoch (snd st)" for rows st
    by (induction rows arbitrary: st) (simp_all add: import_row_def split: untyped.split option.split)
  then show ?thesis by (simp add: importAuthorship_def Let_def case_prod_unfold)
qed

lemma guard_apply_epoch:
  "g_branchEpoch (guard_apply e g) = (case e of RetainBranch _ \<Rightarrow> g_branchEpoch g + 1 | _ \<Rightarrow> g_branchEpoch g)"
  by (cases e)
    (simp_all add: recordSymbolRead_def dropProvisionalReads_def dropProvisionalReadByCall_def noteCheckedPaths_def
      retireChangedAuthorship_def noteCreatedFile_def addExemption_def forgetPath_def idleTimerFired_def
      getReadHistory_def getEditHistory_def retainBranch_def releaseFileTime_def Let_def split: option.split)

lemma run_epoch:
  "g_branchEpoch (fold guard_apply events g) =
     g_branchEpoch g + length (filter (\<lambda>e. case e of RetainBranch _ \<Rightarrow> True | _ \<Rightarrow> False) events)"
  by (induction events arbitrary: g) (simp_all add: guard_apply_epoch split: guard_event.split)

section \<open>Frames of authorship\<close>

text \<open>An entry is kept as it is or dropped.\<close>

definition written_shrinks :: "guard \<Rightarrow> guard \<Rightarrow> bool" where
  "written_shrinks g h =
     (\<forall>p. jm_get (g_writtenThisSession h) p \<in> {None, jm_get (g_writtenThisSession g) p})"

lemma written_shrinks_refl [simp]: "g_writtenThisSession h = g_writtenThisSession g \<Longrightarrow> written_shrinks g h"
  by (simp add: written_shrinks_def)

lemma written_shrinks_trans [trans]: "written_shrinks g h \<Longrightarrow> written_shrinks h k \<Longrightarrow> written_shrinks g k"
  by (fastforce simp: written_shrinks_def)

lemma evictFile_shrinks: "written_shrinks g (evictFile p r g)"
  by (simp add: written_shrinks_def jm_get_delete)

lemma evict_consumed_shrinks: "written_shrinks g (evict_consumed g)"
proof (induction g rule: evict_consumed.induct)
  case (1 g)
  then show ?case
    by (subst evict_consumed.simps) (auto intro: written_shrinks_trans evictFile_shrinks split: option.split)
qed

lemma evict_unconsumed_shrinks: "written_shrinks g (evict_unconsumed g)"
proof (induction g rule: evict_unconsumed.induct)
  case (1 g)
  then show ?case
    by (subst evict_unconsumed.simps) (auto intro: written_shrinks_trans evictFile_shrinks split: option.split)
qed

lemma enforceFileCap_shrinks: "written_shrinks g (enforceFileCap g)"
  unfolding enforceFileCap_def by (rule written_shrinks_trans [OF evict_consumed_shrinks evict_unconsumed_shrinks])

lemma recordRead_shrinks: "written_shrinks g (recordRead w opts r g)"
proof -
  define g1 where "g1 = (case ro_supersedes opts of None \<Rightarrow> g | Some c \<Rightarrow> snd (dropProvisionalReadByCall c g))"
  have g1: "g_writtenThisSession g1 = g_writtenThisSession g"
    by (simp add: g1_def dropProvisionalReadByCall_def split: option.split)
  have cap: "jm_get (g_writtenThisSession (enforceFileCap h)) p = None \<or>
      jm_get (g_writtenThisSession (enforceFileCap h)) p = jm_get (g_writtenThisSession g) p"
    if "g_writtenThisSession h = g_writtenThisSession g" for h p
    using enforceFileCap_shrinks [of h] that by (simp add: written_shrinks_def)
  show ?thesis
    unfolding recordRead_def g1_def [symmetric] Let_def written_shrinks_def by (simp add: cap g1)
qed

lemma injectCreationRead_shrinks: "written_shrinks g (injectCreationRead w p t i c content g)"
  by (simp add: injectCreationRead_def recordRead_shrinks split: option.split prod.split)

lemma drop_live_shrinks: "written_shrinks (snd st) (snd (fold drop_live ks st))"
proof (induction ks arbitrary: st)
  case (Cons k ks)
  have "written_shrinks (snd st) (snd (drop_live k st))"
    by (simp add: written_shrinks_def drop_live_def jm_get_delete)
  from written_shrinks_trans [OF this Cons.IH] show ?case by simp
qed simp

lemma drop_retired_shrinks: "written_shrinks (snd st) (snd (fold drop_retired es st))"
proof (induction es arbitrary: st)
  case (Cons e es)
  have "written_shrinks (snd st) (snd (drop_retired e st))"
    by (simp add: written_shrinks_def drop_retired_def jm_get_delete)
  from written_shrinks_trans [OF this Cons.IH] show ?case by simp
qed simp

lemma enforceAuthorshipCap_shrinks: "written_shrinks g (enforceAuthorshipCap g)"
proof -
  have "written_shrinks g (snd (fold drop_live ks (fold drop_retired es (n, g))))" for ks es n
    using written_shrinks_trans [OF drop_retired_shrinks [of "(n, g)" es] drop_live_shrinks] by simp
  then show ?thesis by (simp add: enforceAuthorshipCap_def Let_def)
qed

section \<open>Ended authorship\<close>

text \<open>The entry of \<open>p\<close> is dropped or stays the retired entry \<open>a\<close>.\<close>

definition still_retired :: "string \<Rightarrow> authored_bytes \<Rightarrow> guard \<Rightarrow> bool" where
  "still_retired p a h = (jm_get (g_writtenThisSession h) p \<in> {None, Some a})"

lemma still_retired_cong: "g_writtenThisSession h = g_writtenThisSession g \<Longrightarrow> still_retired p a h = still_retired p a g"
  by (simp add: still_retired_def)

lemma still_retired_shrinks: "written_shrinks g h \<Longrightarrow> still_retired p a g \<Longrightarrow> still_retired p a h"
  unfolding still_retired_def written_shrinks_def by (metis insertE insertI1 singletonD)

lemma retireIfChanged_still:
  "ab_retired a \<Longrightarrow> jm_get (g_writtenThisSession g) p = Some a \<Longrightarrow>
     jm_get (g_writtenThisSession (snd (retireIfChanged w q g))) p = Some a"
  by (cases "q = p")
     (auto simp: retireIfChanged_def Let_def jm_get_set split: option.splits prod.splits)

lemma creditAuthorship_still:
  assumes a: "ab_retired a" "jm_get (g_writtenThisSession g) p = Some a"
  shows "still_retired p a (creditAuthorship w q opts g)"
proof (cases "q = p")
  case True
  with a show ?thesis by (simp add: creditAuthorship_def still_retired_def)
next
  case False
  let ?ex = "jm_get (g_writtenThisSession g) q"
  define res where "res = (if ?ex = None then (True, g) else mayAdvanceAuthorship w q opts g)"
  have written: "g_writtenThisSession (snd res) = g_writtenThisSession g" by (simp add: res_def)
  have retire: "still_retired p a (snd (retireIfChanged w q (snd res)))"
    using retireIfChanged_still [OF a(1), of "snd res"] a(2) written by (simp add: still_retired_def)
  have cap: "still_retired p a (enforceAuthorshipCap
      ((snd res)\<lparr>g_writtenThisSession := jm_set q b (jm_delete q (g_writtenThisSession (snd res)))\<rparr>))" for b
    by (rule still_retired_shrinks [OF enforceAuthorshipCap_shrinks])
       (use a False written in \<open>simp add: still_retired_def jm_get_set jm_get_delete\<close>)
  have "still_retired p a g" "still_retired p a (snd res)" using a written by (simp_all add: still_retired_def)
  with retire cap show ?thesis
    unfolding creditAuthorship_def Let_def res_def [symmetric] by (simp add: case_prod_unfold)
qed

lemma recordWritten_still:
  assumes a: "ab_retired a" "jm_get (g_writtenThisSession g) p = Some a"
  shows "still_retired p a (recordWritten w raw opts g)"
proof -
  have landed: "still_retired p a (write_landed w q c opts g)" for q c
  proof -
    define g2 where "g2 = (let g1 = g\<lparr>g_knownPathIndex := jm_set c q (g_knownPathIndex g)\<rparr>
      in if wo_stampFileTime opts then stamp_file w q g1 else g1)"
    have "g_writtenThisSession g2 = g_writtenThisSession g" by (simp add: g2_def Let_def)
    then have "still_retired p a (creditAuthorship w q opts g2)" using creditAuthorship_still a by simp
    then show ?thesis
      unfolding write_landed_def Let_def g2_def [unfolded Let_def, symmetric]
      by (intro still_retired_shrinks [OF enforceFileCap_shrinks]) (simp add: still_retired_def)
  qed
  then have "still_retired p a (injectCreationRead w q t i c' content (write_landed w q c opts g\<lparr>g_pendingCreations := pc\<rparr>))"
    for q c t i c' content pc
    by (intro still_retired_shrinks [OF injectCreationRead_shrinks]) (simp add: still_retired_def)
  with landed a show ?thesis
    by (simp add: recordWritten_def Let_def split: option.split) (simp add: still_retired_def)
qed

lemma checkEdit_still:
  assumes a: "ab_retired a" "jm_get (g_writtenThisSession g) p = Some a"
  shows "still_retired p a (snd (checkEdit w raw t er opts g))"
proof -
  have zero: "still_retired p a (snd (check_zero_read w q t er mode h))"
    if "jm_get (g_writtenThisSession h) p = Some a" for q mode h
  proof -
    have "still_retired p a (snd (retireChangedAuthorship w q h))"
      using retireIfChanged_still [OF a(1) that] by (simp add: still_retired_def retireChangedAuthorship_def)
    then show ?thesis
      by (auto simp: check_zero_read_def Let_def split: option.split
          intro: still_retired_shrinks [OF injectCreationRead_shrinks])
  qed
  have verdict: "still_retired p a (recordVerdict w q tool t' v h) = still_retired p a h" for q tool t' v h
    by (rule still_retired_cong) simp
  define h where "h = (if jm_has (g_reads g) (w_key w raw) \<or> jm_has (g_edits g) (w_key w raw)
    then touchFile (w_now w) (w_key w raw) g else g)"
  have h: "jm_get (g_writtenThisSession h) p = Some a" using a by (simp add: h_def)
  then have "still_retired p a h" "still_retired p a (h\<lparr>g_exemptions := x\<rparr>)" for x
    by (simp_all add: still_retired_def)
  then show ?thesis
    unfolding checkEdit_def Let_def h_def [symmetric] by (simp add: case_prod_unfold verdict zero [OF h])
qed

lemma importBranch_shrinks: "written_shrinks g (snd (importBranch w s B g))"
proof -
  have rd: "written_shrinks (snd st) (snd (fold (import_read w B p) rs st))" for p rs st
  proof (induction rs arbitrary: st)
    case (Cons r rs)
    have "written_shrinks (snd st) (snd (import_read w B p r st))" by (simp add: import_read_def recordRead_shrinks)
    from written_shrinks_trans [OF this Cons.IH] show ?case by simp
  qed simp
  have "written_shrinks (snd st) (snd (fold (import_file w B) es st))" for es st
  proof (induction es arbitrary: st)
    case (Cons e es)
    have "written_shrinks (snd st) (snd (import_file w B e st))" by (simp add: import_file_def rd)
    from written_shrinks_trans [OF this Cons.IH] show ?case by simp
  qed simp
  from this [of "((0, 0), g)"] show ?thesis by (simp add: importBranch_def split: option.split)
qed

lemma retainBranch_written:
  "jm_wf (g_writtenThisSession g) \<Longrightarrow>
   jm_get (g_writtenThisSession (snd (retainBranch B g))) p =
     (case jm_get (g_writtenThisSession g) p of
        None \<Rightarrow> None
      | Some a \<Rightarrow> if on_branch B (ab_toolCallId a) then Some a else None)"
proof -
  have "distinct (map fst m) \<Longrightarrow> map_of (filter (\<lambda>(_, a). P a) m) p =
      (case map_of m p of None \<Rightarrow> None | Some a \<Rightarrow> if P a then Some a else None)" for m :: "(string \<times> authored_bytes) list" and P
  proof (induction m)
    case (Cons e m)
    then have "fst e \<notin> fst ` set (filter (\<lambda>(_, a). P a) m)" by auto
    with Cons show ?case by (cases e) (auto simp: map_of_eq_None_iff split: option.split)
  qed simp
  then show "jm_wf (g_writtenThisSession g) \<Longrightarrow> ?thesis" by (simp add: retainBranch_def jm_wf_def)
qed

section \<open>Properties\<close>

text \<open>What an import leaves under a path: what was there, nothing, or the entry of one of its rows.\<close>

definition row_for :: "world \<Rightarrow> persisted_authorship \<Rightarrow> string set \<Rightarrow> string \<Rightarrow> authored_bytes \<Rightarrow> bool" where
  "row_for w payload B p entry =
     (\<exists>row \<in> set (pa_entries payload). \<exists>path.
        ar_filePath row = Typed path \<and> w_key w path = p \<and> row_entry B row = Some entry)"

lemma import_rows_written:
  "jm_get (g_writtenThisSession (snd (fold (import_row w B) rows st))) p = jm_get (g_writtenThisSession (snd st)) p \<or>
   (\<exists>row \<in> set rows. \<exists>path entry. ar_filePath row = Typed path \<and> w_key w path = p \<and> row_entry B row = Some entry \<and>
      jm_get (g_writtenThisSession (snd (fold (import_row w B) rows st))) p = Some entry)"
proof (induction rows arbitrary: st)
  case (Cons row rows)
  have "jm_get (g_writtenThisSession (snd (import_row w B row st))) p = jm_get (g_writtenThisSession (snd st)) p \<or>
      (\<exists>path entry. ar_filePath row = Typed path \<and> w_key w path = p \<and> row_entry B row = Some entry \<and>
         jm_get (g_writtenThisSession (snd (import_row w B row st))) p = Some entry)"
    by (auto simp: import_row_def jm_get_set split: untyped.split option.split)
  with Cons.IH [of "import_row w B row st"] show ?case by auto
qed simp

lemma importAuthorship_written:
  "jm_get (g_writtenThisSession (snd (importAuthorship w payload B g))) p \<in> {None, jm_get (g_writtenThisSession g) p} \<or>
   (\<exists>entry. row_for w payload B p entry \<and>
      jm_get (g_writtenThisSession (snd (importAuthorship w payload B g))) p = Some entry)"
proof -
  let ?f = "snd (fold (import_row w B) (pa_entries payload) ((0, 0), g))"
  have "snd (importAuthorship w payload B g) = enforceAuthorshipCap ?f"
    by (simp add: importAuthorship_def Let_def case_prod_unfold)
  moreover have "jm_get (g_writtenThisSession (enforceAuthorshipCap ?f)) p \<in> {None, jm_get (g_writtenThisSession ?f) p}"
    using enforceAuthorshipCap_shrinks [of ?f] unfolding written_shrinks_def by blast
  moreover have "jm_get (g_writtenThisSession ?f) p = jm_get (g_writtenThisSession g) p \<or>
      (\<exists>entry. row_for w payload B p entry \<and> jm_get (g_writtenThisSession ?f) p = Some entry)"
    using import_rows_written [of w B "pa_entries payload" "((0, 0), g)" p] unfolding row_for_def snd_conv by blast
  ultimately show ?thesis by (metis insertE insertI1 insertI2 singletonD)
qed

text \<open>
  C27: An ended authorship is not resumed. Once another writer changed the bytes and the entry of
  a file is retired, an operation of the guard leaves the entry retired as it is or drops it: a
  later write, a check, a bridge record, a branch move. The one exception is the import of
  persisted authorship: it may put the entry of one of its rows in the place, a row of this
  file whose fields pass their checks and whose write is on the branch.
\<close>

theorem retired_authorship_never_resumes:
  assumes retired: "ab_retired a" and entry: "jm_get (g_writtenThisSession g) p = Some a"
    and wf: "guard_inv g"
  shows "jm_get (g_writtenThisSession (guard_apply e g)) p \<in> {None, Some a} \<or>
    (\<exists>w payload B imported. e = ImportAuthorship w payload B \<and> row_for w payload B p imported \<and>
       jm_get (g_writtenThisSession (guard_apply e g)) p = Some imported)"
proof (cases "\<exists>w payload B. e = ImportAuthorship w payload B")
  case True
  then obtain w payload B where e: "e = ImportAuthorship w payload B" by blast
  have "jm_get (g_writtenThisSession (guard_apply e g)) p \<in> {None, Some a} \<or>
      (\<exists>entry. row_for w payload B p entry \<and> jm_get (g_writtenThisSession (guard_apply e g)) p = Some entry)"
    using importAuthorship_written [of w payload B g p] unfolding e entry guard_apply.simps .
  then show ?thesis
  proof
    assume "\<exists>entry. row_for w payload B p entry \<and> jm_get (g_writtenThisSession (guard_apply e g)) p = Some entry"
    then obtain entry where "row_for w payload B p entry" "jm_get (g_writtenThisSession (guard_apply e g)) p = Some entry"
      by (elim exE conjE)
    with e show ?thesis by (intro disjI2 exI conjI)
  qed (rule disjI1)
next
  case not_import: False
  have g: "still_retired p a g" using entry by (simp add: still_retired_def)
  have wfw: "jm_wf (g_writtenThisSession g)" using wf by (simp add: guard_inv_def written_inv_def)
  have same: "g_writtenThisSession h = g_writtenThisSession g \<Longrightarrow> still_retired p a h" for h
    using g by (simp add: still_retired_def)
  have "still_retired p a (guard_apply e g)"
  proof (cases e)
    case (RetainBranch B)
    then show ?thesis using retainBranch_written [OF wfw, of B p] entry by (simp add: still_retired_def)
  next
    case (RetireChangedAuthorship w q)
    then show ?thesis
      using retireIfChanged_still [OF retired entry] by (simp add: still_retired_def retireChangedAuthorship_def)
  next
    case (ForgetPath w q)
    then show ?thesis
      using still_retired_shrinks [OF evictFile_shrinks g] by (simp add: forgetPath_def split: option.split)
  next
    case (IdleTimerFired q)
    then show ?thesis
      using still_retired_shrinks [OF evictFile_shrinks g] g by (simp add: idleTimerFired_def split: option.split)
  qed (use not_import g in \<open>simp_all add: recordSymbolRead_def still_retired_shrinks [OF recordRead_shrinks]
      still_retired_shrinks [OF importBranch_shrinks] recordWritten_still [OF retired entry]
      checkEdit_still [OF retired entry] same dropProvisionalReads_def dropProvisionalReadByCall_def
      noteCheckedPaths_def noteCreatedFile_def addExemption_def getReadHistory_def getEditHistory_def
      releaseFileTime_def Let_def split: option.split\<close>)
  then show ?thesis by (simp add: still_retired_def)
qed

theorem retired_authorship_never_resumes_witness:
  "let a = \<lparr>ab_size = 4, ab_mtimeMs = 3, ab_ctimeMs = 3, ab_hash = None, ab_toolCallId = None,
             ab_retired = True, ab_ranges = None, ab_lineCount = None\<rparr>
   in jm_get (g_writtenThisSession (guard_apply (RecordWritten demo_world ''/a.ts'' default_write_opts)
        (demo_guard\<lparr>g_writtenThisSession := [(''/a.ts'', a)]\<rparr>))) ''/a.ts'' \<in> {None, Some a}"
proof -
  let ?a = "\<lparr>ab_size = 4, ab_mtimeMs = 3, ab_ctimeMs = 3, ab_hash = None, ab_toolCallId = None,
             ab_retired = True, ab_ranges = None, ab_lineCount = None\<rparr>"
  let ?g = "demo_guard\<lparr>g_writtenThisSession := [(''/a.ts'', ?a)]\<rparr>"
  have "guard_inv ?g"
    unfolding demo_guard_def
    by (intro guard_inv_updates new_ReadGuard_inv)
       (simp add: written_inv_def jm_wf_def READ_GUARD_MAX_AUTHORED_FILES_def READ_GUARD_MAX_UNCONSUMED_FILES_def)
  from retired_authorship_never_resumes [OF _ _ this, where p = "''/a.ts''" and a = ?a
      and e = "RecordWritten demo_world ''/a.ts'' default_write_opts"]
  show ?thesis by (simp add: Let_def)
qed

text \<open>
  A write that no check guarded never vouches for what it wrote. When a write lands on a file
  with a live authorship but may not advance it (no licence for this path from its own call, or no
  pre-write check at all), the entry keeps the size, the digest, the lines and the call of the earlier
  write, and is retired exactly when the disk no longer holds those bytes.
\<close>

theorem unchecked_write_never_rebaselines:
  assumes "jm_get (g_writtenThisSession g) p = Some a" and "\<not> ab_retired a"
    and "\<not> fst (mayAdvanceAuthorship w p opts g)"
  shows "\<exists>b. jm_get (g_writtenThisSession (creditAuthorship w p opts g)) p = Some b \<and>
    ab_size b = ab_size a \<and> ab_hash b = ab_hash a \<and> ab_ranges b = ab_ranges a \<and>
    ab_toolCallId b = ab_toolCallId a \<and>
    (ab_retired b \<longleftrightarrow> \<not> bytes_unchanged (w_disk w) p a)"
proof -
  let ?h = "snd (mayAdvanceAuthorship w p opts g)"
  have "jm_get (g_writtenThisSession ?h) p = Some a" using assms(1) by simp
  then have "jm_get (g_writtenThisSession (snd (retireIfChanged w p ?h))) p =
      (if bytes_unchanged (w_disk w) p a then Some (snd (authoredBytesIntact (w_disk w) p a))
       else Some ((snd (authoredBytesIntact (w_disk w) p a))\<lparr>ab_retired := True\<rparr>))"
    using retireIfChanged_entry [of w p ?h] assms(2) by simp
  moreover have "creditAuthorship w p opts g = snd (retireIfChanged w p ?h)"
    using assms by (simp add: creditAuthorship_def Let_def case_prod_unfold)
  ultimately show ?thesis using assms(2) by auto
qed

theorem unchecked_write_never_rebaselines_witness:
  "\<exists>b. jm_get (g_writtenThisSession (creditAuthorship (demo_world\<lparr>w_disk := (\<lambda>_. None)\<rparr>) ''/a.ts''
       (default_write_opts\<lparr>wo_advanceAuthorship := Some True, wo_toolCallId := Some ''c9''\<rparr>) demo_author)) ''/a.ts'' = Some b \<and>
     ab_retired b"
proof -
  let ?w = "demo_world\<lparr>w_disk := (\<lambda>_. None)\<rparr>"
  let ?opts = "default_write_opts\<lparr>wo_advanceAuthorship := Some True, wo_toolCallId := Some ''c9''\<rparr>"
  let ?a = "\<lparr>ab_size = 4, ab_mtimeMs = 3, ab_ctimeMs = 3, ab_hash = Some ''ab'', ab_toolCallId = Some ''c1'',
        ab_retired = False, ab_ranges = Some [(2, 2)], ab_lineCount = Some 2\<rparr>"
  have "jm_get (g_writtenThisSession demo_author) ''/a.ts'' = Some ?a" by (simp add: demo_author_def)
  moreover have "\<not> fst (mayAdvanceAuthorship ?w ''/a.ts'' ?opts demo_author)"
    by (simp add: mayAdvanceAuthorship_def consumeCheckedAtCall_def default_write_opts_def demo_author_def
        demo_guard_def new_ReadGuard_def new_BoundedFifoMap_def fifo_get_def Let_def split: option.split)
  moreover have "\<not> bytes_unchanged (w_disk ?w) ''/a.ts'' ?a" by (simp add: bytes_unchanged_def ABSENT_SIZE_def)
  ultimately show ?thesis
    using unchecked_write_never_rebaselines [of demo_author "''/a.ts''" ?a ?w ?opts] by auto
qed

text \<open>
  A licence is spent once. Whatever the guard holds, after a call has consumed its licence for
  a path it has none: the second write of the same call to the same path may not advance an authorship.
\<close>

theorem licence_is_single_use:
  "\<not> fst (consumeCheckedAtCall w call p (snd (consumeCheckedAtCall w call p g)))"
  by (auto simp: consumeCheckedAtCall_def fifo_get_def fifo_delete_def Let_def jm_get_set jm_get_delete
      split: option.splits)

text \<open>
  A write captured before a branch move is not credited after it. If a deferred writer captured
  the epoch of a guard and the conversation then moved to another branch, amid any other
  operations, its write leaves the guard untouched.
\<close>

theorem write_before_branch_move_ignored:
  assumes "RetainBranch B \<in> set events" and "wo_branchEpoch opts = Some (g_branchEpoch g)"
  shows "recordWritten w p opts (fold guard_apply events g) = fold guard_apply events g"
proof -
  have "filter (\<lambda>e. case e of RetainBranch _ \<Rightarrow> True | _ \<Rightarrow> False) events \<noteq> []"
    using assms(1) by (auto simp: filter_empty_conv split: guard_event.splits)
  then have "g_branchEpoch (fold guard_apply events g) \<noteq> g_branchEpoch g" by (simp add: run_epoch)
  with assms(2) show ?thesis by (simp add: recordWritten_def)
qed

theorem write_before_branch_move_ignored_witness:
  "recordWritten demo_world ''/a.ts'' (default_write_opts\<lparr>wo_branchEpoch := Some 0\<rparr>)
     (fold guard_apply [DropProvisionalReads, RetainBranch {}] demo_guard) =
   fold guard_apply [DropProvisionalReads, RetainBranch {}] demo_guard"
  by (rule write_before_branch_move_ignored [where B = "{}"])
     (simp_all add: demo_guard_def new_ReadGuard_def)

end
