(* ===== verification/Guard_Branch.thy ===== *)
theory Guard_Branch
  imports Guard_Authorship
begin

text \<open>
  Branch moves, resumes and exemptions: what the guard still trusts after the conversation moved,
  and that a saved read-set is restored as it was.
\<close>

section \<open>After a branch move\<close>

lemma map_of_kept:
  "distinct (map fst m) \<Longrightarrow>
   map_of (filter (\<lambda>(_, rs). rs \<noteq> []) (map (\<lambda>(p, rs). (p, f rs)) m)) q =
     (case map_of m q of None \<Rightarrow> None | Some rs \<Rightarrow> if f rs = [] then None else Some (f rs))"
proof (induction m)
  case (Cons e m)
  obtain k rs where e: "e = (k, rs)" by fastforce
  have "map_of m k = None" using Cons.prems by (simp add: e map_of_eq_None_iff)
  moreover have "distinct (map fst m)" using Cons.prems by simp
  ultimately show ?case using Cons.IH by (auto simp: e split: option.split)
qed simp

lemma retainBranch_reads:
  assumes "guard_inv g"
  shows "reads_of (snd (retainBranch B g)) p = kept_reads B (reads_of g p)"
proof -
  have "distinct (map fst (g_reads g))" using assms by (simp add: guard_inv_def reads_inv_def jm_wf_def)
  from map_of_kept [OF this, of "kept_reads B" p] show ?thesis
    by (auto simp: reads_of_def retainBranch_def kept_reads_def split: option.split)
qed

lemma retainBranch_simps [simp]:
  "g_config (snd (retainBranch B g)) = g_config g" "g_exemptions (snd (retainBranch B g)) = g_exemptions g"
  "g_sessionId (snd (retainBranch B g)) = g_sessionId g"
  by (simp_all add: retainBranch_def)

lemma retainBranch_moved: "file_moved w (snd (retainBranch B g)) p"
  by (simp add: retainBranch_def ft_hasChanged_def ft_clear_def session_reads_def jm_get_delete Let_def)

lemma verified_delivers:
  assumes "verified_line disk p reads n"
  shows "\<exists>r \<in> set reads. \<not> rr_provisional r \<and> delivers disk p r n"
proof -
  obtain i where i: "newestViewOfLine reads n = Some i" "recorded_hash (reads ! i) n \<noteq> None"
      "disk_hash disk p n = recorded_hash (reads ! i) n"
    using assms by (auto simp: verified_line_def seen_hash_def split: option.splits)
  with newestView_Some [OF i(1)] show ?thesis by (auto simp: delivers_def intro!: bexI [of _ "reads ! i"])
qed


lemma demo_author_inv: "guard_inv demo_author"
  unfolding demo_author_def demo_guard_def
  by (intro guard_inv_updates new_ReadGuard_inv)
     (simp add: written_inv_def jm_wf_def READ_GUARD_MAX_AUTHORED_FILES_def READ_GUARD_MAX_UNCONSUMED_FILES_def)


section \<open>Resume\<close>

lemma evict_consumed_none: "g_consumedReadFiles g = {} \<Longrightarrow> evict_consumed g = g"
  by (subst evict_consumed.simps) (simp add: cap_victim_def)

definition import_opts :: read_opts where
  "import_opts = \<lparr>ro_supersedes = None, ro_stampFileTime = False, ro_captureLineHashes = True\<rparr>"

definition resumed :: "string \<Rightarrow> read_record \<Rightarrow> read_record" where
  "resumed p r =
     r\<lparr>rr_filePath := p, rr_lineHashes := Some (case rr_lineHashes r of None \<Rightarrow> [] | Some h \<Rightarrow> h)\<rparr>"

lemma recordRead_roomy:
  assumes "g_consumedReadFiles g = {}" "length (jm_set p [] (g_reads g)) \<le> READ_GUARD_MAX_UNCONSUMED_FILES"
    "w_key w p = p" "length (reads_of g p) < READ_GUARD_MAX_RECORDS_PER_FILE"
  shows "g_reads (recordRead w import_opts (resumed p r) g) = jm_set p (reads_of g p @ [resumed p r]) (g_reads g)"
    and "g_consumedReadFiles (recordRead w import_opts (resumed p r) g) = {}"
proof -
  have st: "stored_record w import_opts (resumed p r) = resumed p r"
    using assms(3) by (simp add: stored_record_def resumed_def)
  have cap: "fst (enforceRecordCapForFile (reads_of g p @ [resumed p r])) = reads_of g p @ [resumed p r]"
    using assms(4) by (simp add: enforceRecordCapForFile_def)
  define h where "h = touchFile (w_now w) p
    (g\<lparr>g_knownPathIndex := jm_set (normalizeEphemeralMapKey (w_win32 w) p) p (g_knownPathIndex g),
       g_consumedReadFiles := g_consumedReadFiles g - {p},
       g_reads := jm_set p (reads_of g p @ [resumed p r]) (g_reads g)\<rparr>)"
  have "length (g_reads h) \<le> READ_GUARD_MAX_UNCONSUMED_FILES"
    using assms(2) by (simp add: h_def length_jm_set)
  then have "enforceFileCap h = h"
    using assms(1) by (simp add: enforceFileCap_def evict_consumed_none evict_unconsumed_id h_def)
  moreover have "recordRead w import_opts (resumed p r) g =
      note_trim p (snd (enforceRecordCapForFile (reads_of g p @ [resumed p r]))) (enforceFileCap h)"
    using assms(3) by (simp add: recordRead_def import_opts_def [THEN arg_cong [where f = ro_supersedes]]
        import_opts_def [THEN arg_cong [where f = ro_stampFileTime]] st cap [unfolded reads_of_def] h_def Let_def reads_of_def
        resumed_def [THEN arg_cong [where f = rr_filePath]])
  ultimately show "g_reads (recordRead w import_opts (resumed p r) g) = jm_set p (reads_of g p @ [resumed p r]) (g_reads g)"
    "g_consumedReadFiles (recordRead w import_opts (resumed p r) g) = {}"
    using assms(1) by (simp_all add: h_def)
qed

lemma import_read_eq:
  "import_read w B p r st =
     (if w_disk w p = None \<or> \<not> on_branch B (rr_toolCallId r) then ((fst (fst st), snd (fst st) + 1), snd st)
      else ((fst (fst st) + 1, snd (fst st)), recordRead w import_opts (resumed p r) (snd st)))"
  by (simp add: import_read_def import_opts_def resumed_def)

text \<open>Importing the records of one file appends its on-branch records and touches no other file.\<close>

lemma import_reads_file:
  assumes "g_consumedReadFiles (snd st) = {}" "w_key w p = p"
    "length (jm_set p [] (g_reads (snd st))) \<le> READ_GUARD_MAX_UNCONSUMED_FILES"
    "length (reads_of (snd st) p) + length rs \<le> READ_GUARD_MAX_RECORDS_PER_FILE"
  shows "let g' = snd (fold (import_read w B p) rs st) in
    reads_of g' p = reads_of (snd st) p @ (if w_disk w p = None then [] else map (resumed p) (kept_reads B rs)) \<and>
    (\<forall>q. q \<noteq> p \<longrightarrow> jm_get (g_reads g') q = jm_get (g_reads (snd st)) q) \<and>
    length (g_reads g') \<le> length (jm_set p [] (g_reads (snd st))) \<and> g_consumedReadFiles g' = {}"
  using assms
proof (induction rs arbitrary: st)
  case Nil
  then show ?case by (simp add: kept_reads_def length_jm_set)
next
  case (Cons r rs)
  show ?case
  proof (cases "w_disk w p = None \<or> \<not> on_branch B (rr_toolCallId r)")
    case True
    define st1 where "st1 = ((fst (fst st), snd (fst st) + 1), snd st)"
    have "import_read w B p r st = st1" using True by (simp add: import_read_eq st1_def)
    moreover have "snd st1 = snd st" by (simp add: st1_def)
    ultimately show ?thesis using Cons.IH [of st1] Cons.prems True by (auto simp: kept_reads_def Let_def)
  next
    case False
    define st1 where "st1 = import_read w B p r st"
    have snd1: "snd st1 = recordRead w import_opts (resumed p r) (snd st)" using False by (auto simp: st1_def import_read_eq)
    note room = recordRead_roomy [OF Cons.prems(1,3,2), of r]
    have "length (reads_of (snd st) p) < READ_GUARD_MAX_RECORDS_PER_FILE" using Cons.prems(4) by simp
    note g1 = room [OF this, folded snd1]
    have r1: "reads_of (snd st1) p = reads_of (snd st) p @ [resumed p r]"
      by (simp add: reads_of_def [of "snd st1"] g1(1) jm_get_set)
    have len: "length (jm_set p [] (g_reads (snd st1))) = length (jm_set p [] (g_reads (snd st)))"
      by (simp add: g1(1) length_jm_set jm_has_set)
    have oth: "q \<noteq> p \<Longrightarrow> jm_get (g_reads (snd st1)) q = jm_get (g_reads (snd st)) q" for q
      by (simp add: g1(1) jm_get_set)
    from Cons.IH [of st1] Cons.prems False r1 len oth g1(2) show ?thesis
      by (auto simp: Let_def kept_reads_def st1_def [symmetric])
  qed
qed

lemma import_files:
  assumes "distinct (map fst es)" "\<forall>e \<in> set es. fst e \<notin> set (jm_keys (g_reads (snd st)))"
    "\<forall>e \<in> set es. w_key w (fst e) = fst e" "values_ok records_ok es" "g_consumedReadFiles (snd st) = {}"
    "length (g_reads (snd st)) + length es \<le> READ_GUARD_MAX_UNCONSUMED_FILES"
  shows "reads_of (snd (fold (import_file w B) es st)) q =
    (case map_of es q of
       None \<Rightarrow> reads_of (snd st) q
     | Some rs \<Rightarrow> if w_disk w q = None then [] else map (resumed q) (kept_reads B rs))"
  using assms
proof (induction es arbitrary: st)
  case (Cons e es)
  obtain p rs where e: "e = (p, rs)" by fastforce
  have p: "w_key w p = p" "jm_get (g_reads (snd st)) p = None" "records_ok rs" "p \<notin> fst ` set es"
    using Cons.prems by (auto simp: e values_ok_Cons map_of_eq_None_iff)
  then have fresh: "reads_of (snd st) p = []" "length (jm_set p [] (g_reads (snd st))) = Suc (length (g_reads (snd st)))"
    by (simp_all add: reads_of_def length_jm_set jm_has_def)
  define st1 where "st1 = import_file w B e st"
  have s1: "reads_of (snd st1) p = (if w_disk w p = None then [] else map (resumed p) (kept_reads B rs))"
      "\<And>q. q \<noteq> p \<Longrightarrow> jm_get (g_reads (snd st1)) q = jm_get (g_reads (snd st)) q"
      "length (g_reads (snd st1)) \<le> Suc (length (g_reads (snd st)))" "g_consumedReadFiles (snd st1) = {}"
    using import_reads_file [of st w p rs B] Cons.prems(5,6) p fresh
    by (simp_all add: st1_def import_file_def e records_ok_def Let_def)
  have "\<forall>x \<in> set es. fst x \<notin> set (jm_keys (g_reads (snd st1)))"
  proof
    fix x assume x: "x \<in> set es"
    then have "fst x \<noteq> p" "jm_get (g_reads (snd st)) (fst x) = None"
      using p(4) Cons.prems(2) by (auto simp: map_of_eq_None_iff)
    with s1(2) show "fst x \<notin> set (jm_keys (g_reads (snd st1)))" by (metis image_set map_of_eq_None_iff)
  qed
  with Cons.IH [of st1] Cons.prems s1(3,4)
  have "reads_of (snd (fold (import_file w B) es st1)) q =
      (case map_of es q of None \<Rightarrow> reads_of (snd st1) q
       | Some rs \<Rightarrow> if w_disk w q = None then [] else map (resumed q) (kept_reads B rs))"
    by (simp add: values_ok_Cons e)
  moreover have "map_of es p = None" using p(4) by (simp add: map_of_eq_None_iff)
  moreover have "q \<noteq> p \<Longrightarrow> reads_of (snd st1) q = reads_of (snd st) q" using s1(2) by (simp add: reads_of_def)
  ultimately show ?case using s1(1) by (auto simp: e st1_def split: option.split)
qed simp

text \<open>
  C34: A resume restores the read-set of the branch. Exporting a guard's reads and importing them
  into a fresh guard gives every file that still exists exactly its records whose tool result is on
  the branch, in order, with the hashes taken at read time (records without hashes get none, they
  are not re-hashed from today's disk), and gives a vanished file none.
\<close>

theorem resume_restores_branch_reads:
  assumes inv: "guard_inv g" and size: "length (g_reads g) \<le> READ_GUARD_MAX_UNCONSUMED_FILES"
    and keys: "\<forall>e \<in> set (g_reads g). w_key w (fst e) = fst e"
  shows "reads_of (snd (importBranch w (Some (exportState g)) B (new_ReadGuard sid cfg epoch fts))) p =
    (if w_disk w p = None then [] else map (resumed p) (kept_reads B (reads_of g p)))"
proof -
  have "distinct (map fst (g_reads g))" "values_ok records_ok (g_reads g)"
    using inv by (simp_all add: guard_inv_def reads_inv_def jm_wf_def)
  from import_files [OF this(1) _ keys this(2), of "((0, 0), new_ReadGuard sid cfg epoch fts)" B p] size
  show ?thesis
    by (auto simp: importBranch_def exportState_def new_ReadGuard_def reads_of_def kept_reads_def split: option.split)
qed

theorem resume_restores_branch_reads_witness:
  "let g = demo_guard\<lparr>g_reads := [(''/a.ts'', [demo_read\<lparr>rr_toolCallId := Some ''c1''\<rparr>, demo_read])]\<rparr>
   in reads_of (snd (importBranch demo_world (Some (exportState g)) {''c1''} demo_guard)) ''/a.ts'' =
        map (resumed ''/a.ts'') [demo_read\<lparr>rr_toolCallId := Some ''c1''\<rparr>]"
proof -
  let ?g = "demo_guard\<lparr>g_reads := [(''/a.ts'', [demo_read\<lparr>rr_toolCallId := Some ''c1''\<rparr>, demo_read])]\<rparr>"
  have "guard_inv ?g"
    unfolding demo_guard_def
    by (intro guard_inv_updates new_ReadGuard_inv)
       (simp add: reads_inv_def values_ok_def records_ok_def jm_wf_def READ_GUARD_MAX_RECORDS_PER_FILE_def)
  from resume_restores_branch_reads [OF this, of demo_world "{''c1''}" "''s''" DEFAULT_CONFIG 0 "[]" "''/a.ts''"]
  show ?thesis
    by (simp add: demo_guard_def [symmetric] READ_GUARD_MAX_UNCONSUMED_FILES_def Let_def)
       (simp add: demo_world_def demo_disk_def reads_of_def kept_reads_def on_branch_def demo_read_def)
qed

text \<open>
  An exemption is good for one edit. After \<open>/lens-allow-edit\<close> on a file the next check of that
  file allows, whatever the disk and the reads say, and consumes the exemption.
\<close>

theorem exemption_is_one_time:
  "let (v, h) = checkEdit w raw touchedLines editRanges opts (addExemption w raw g)
   in v = allow_verdict \<and> w_key w raw \<notin> g_exemptions h \<and> g_reads h = g_reads g \<and>
      g_exemptions h = g_exemptions g - {w_key w raw}"
  by (simp add: checkEdit_def addExemption_def Let_def case_prod_unfold)

end
