(* ===== verification/Spec2Isabelle.thy ===== *)
theory Spec2Isabelle
  imports Spawn_Cooldown Oldtext_Patch Indent_Retarget Bounded_Pid_Lock Process_Spec Race_Aggregation Tree_Disk Mutation_Queue Single_Flight Bounded_Cache Write_Ordering Watch_Queue Generation_Guard Config_Resolve Guard_Branch
begin

text \<open>
  A verification library for pi-lens (\<open>src/\<close>), an extension of a coding agent that watches what
  the agent reads and writes: it keeps edits honest, runs language servers and linters behind
  them and reports what they find.

  \<^bold>\<open>The program and the parts modelled.\<close> An edit of the agent first passes the \<^emph>\<open>read guard\<close>, which
  knows what the conversation has seen and written of a file. A refactoring that a language
  server proposes is a \<^emph>\<open>workspace edit\<close>: it is parsed, planned, checked against a virtual file
  tree and written, inside the \<^emph>\<open>mutation queues\<close> of its files. Both speak about files by their
  \<^emph>\<open>path identity\<close>. What is switched on is decided by the \<^emph>\<open>configuration core\<close>, which merges files of
  several trust tiers; a command it describes passes the \<^emph>\<open>trust gate\<close> before anything is spawned.
  Several instances share their files through \<^emph>\<open>file locks\<close>. What degrades on the way is counted
  in the \<^emph>\<open>degradation ledger\<close>. Around them stand small concurrency helpers: bounded caches, a write
  ordering guard, a generation guard, the watched-files queue, the single flight and the race
  over the answers of several language servers.

  \<^bold>\<open>Conventions.\<close> JavaScript's \<open>Map\<close> is an association list in insertion order, a string of the edit
  path a list of 16-bit code units, a thrown error the left side of a sum, an object shared by
  two containers a position in a heap, module state a record that is passed on. What the code
  asks of the system (the clock, the disk, \<open>realpath\<close>, a hash function, the URL parser) is an
  argument; what is relied on is a named hypothesis, with a witness that meets it. Definitions
  compute, and witnesses evaluate them.

  \<^bold>\<open>Foundations.\<close>
  \<^item> \<open>Lens_Prelude\<close>: maps, lists, strings; the locales \<open>keyed_store\<close>, \<open>deletable_store\<close> for maps and \<open>event_machine\<close> for runs.
  \<^item> \<open>Js_Sort\<close>: \<open>Array.prototype.sort\<close>; the locale \<open>js_comparator\<close> with its interpretations for the
    edit order and the ordinal order of strings.
  \<^item> \<open>Posix_Path\<close>: Node's \<open>path\<close> on POSIX; \<open>File_Tree\<close>, \<open>Tree_Disk\<close>: executable file trees with links.

  \<^bold>\<open>Read guard\<close> (\<open>src/clients/read-guard.ts\<close>, \<open>file-time.ts\<close>). \<open>Line_Ranges\<close>, \<open>Line_Evidence\<close>: ranges
  of lines, line hashes, snapshots against the disk. \<open>File_Time\<close>, \<open>Authored_Bytes\<close>: file stamps and
  authorship. \<open>Guard_State\<close>, \<open>Guard_Records\<close>, \<open>Guard_Check\<close>, \<open>Guard_Session\<close>: the class
  \<open>ReadGuard\<close>, one definition per method, over a world that gives time, disk and branch.
  \<open>Guard_Lines\<close>, \<open>Guard_Decision\<close>: what \<open>checkEdit\<close> decides, as a specification on sets of lines.
  \<open>Guard_Liveness\<close>: a read licenses an edit. \<open>Guard_Bounds\<close>, \<open>Guard_Invariant\<close>, \<open>Guard_Run\<close>: the
  caps after every sequence of operations. \<open>Guard_Authorship\<close>, \<open>Guard_Branch\<close>: what is never
  trusted again, and what a branch move or a resume keeps.

  \<^bold>\<open>Path identity\<close> (\<open>src/clients/path-utils.ts\<close>). \<open>Path_Identity\<close>: the walk over \<open>realpath\<close>, map keys,
  equality, containment, the directory walk. \<open>Path_Fixpoint\<close>, \<open>Path_Properties\<close>: a key is its own
  key, and the containment tests agree, for any \<open>realpath\<close> that keeps \<open>realpath_laws\<close>.

  \<^bold>\<open>Workspace edits\<close> (\<open>src/clients/lsp/edits.ts\<close> and the helpers it calls). \<open>Text_Lines\<close>,
  \<open>Text_Edits\<close>, \<open>Edit_Order\<close>, \<open>Edit_Apply\<close>, \<open>Edit_Positions\<close>, \<open>Edit_Properties\<close>: edits of one
  text, their validation, the position encodings, and that the in-place application equals one
  simultaneous replacement. \<open>Edit_Wire\<close>, \<open>Edit_Plan\<close>, \<open>Edit_Plan_Order\<close>, \<open>Edit_Merge\<close>: parsing, the
  planner, its order, the merge of several servers. \<open>Edit_Preflight\<close>, \<open>Edit_Confinement\<close>: every
  check before the first write, and that an accepted edit stays in the workspace.
  \<open>Edit_Commit\<close>, \<open>Edit_Report\<close>, \<open>Edit_Text\<close>: the writes on any disk, the report, and text edits
  from the wire to the disk. \<open>Mutation_Queue\<close> (\<open>file-mutation-queue.ts\<close>): writers of several
  files never deadlock.

  \<^bold>\<open>Repair of edits\<close> (\<open>oldtext-autopatch.ts\<close>, \<open>host-edit-normalize.ts\<close>, \<open>dispatch/indent-detect.ts\<close>,
  \<open>indent-retarget.ts\<close>). \<open>Oldtext_Patch\<close>: the match space of the host's edit tool, the line range of a
  unique match, which the read guard takes for a read, and the repair of trailing white space.
  \<open>Indent_Detect\<close>: the lexer of comments and template literals, and the style a text shows.
  \<open>Indent_Retarget\<close>: the new text of an edit follows the correction of its old text.

  \<^bold>\<open>Configuration core\<close> (\<open>src/clients/config-core/\<close>). \<open>Config_Values\<close>, \<open>Config_Provenance\<close>,
  \<open>Config_Records\<close>, \<open>Config_Deny\<close>, \<open>Config_Normalize\<close>, \<open>Config_Merge\<close>, \<open>Config_Resolve\<close> follow the files
  of the same names: validation returns clean data and is idempotent, denial is monotonic, a
  checkout cannot switch a denied tool back on, every leaf is attributed.

  \<^bold>\<open>Concurrency helpers.\<close> \<open>Bounded_Cache\<close>, \<open>Write_Ordering\<close>, \<open>Generation_Guard\<close>, \<open>Watch_Queue\<close>,
  \<open>Single_Flight\<close> follow the files of the same names; asynchronous code is a machine whose
  events are the calls and the settlements of promises, in any order.
  \<open>Race_Aggregation\<close> (\<open>lsp/aggregation.ts\<close>): the race resolves once, in server order, and with
  auxiliaries not before every language server has answered. \<open>Spawn_Cooldown\<close>
  (\<open>spawn-timeout-cooldown.ts\<close>): a command that timed out is skipped in every lane.

  \<^bold>\<open>File locks\<close> (\<open>src/clients/generation-lock.ts\<close>, \<open>bounded-pid-file-lock.ts\<close>). \<open>Generation_Lock\<close>: the
  functions of the lock over a directory of inodes, and a machine in which every file system
  call of every contender is a step that can fail, between crashes, heartbeats and any clock.
  \<open>Generation_Lock_Safety\<close>: one owner of the top generation in every run, and mutual exclusion
  while leases are kept. \<open>Generation_Lock_Wait\<close>: the functions are runs of the machine, and the
  waiting loop ends. \<open>Bounded_Pid_Lock\<close>: the bridge to the old lock file keeps a live holder alone
  against every whole attempt; \<open>late_removal_admits_two\<close> shows the interleaving in which it does
  not. \<open>Retry_Loop\<close>: the loops as partial functions; its locale \<open>timed_retry\<close> gives termination.

  \<^bold>\<open>Trust gate\<close> (\<open>project-trust.ts\<close>, \<open>config-core/process-spec.ts\<close>). \<open>Process_Spec\<close>: the latched
  decision, the validation of a described process, the gate, the refusal it counts in the
  ledger and the redacted projection.

  \<^bold>\<open>Degradation ledger\<close> (\<open>degradation-ledger.ts\<close>). \<open>Degradation_Ledger\<close>: groups, latches, tallies and
  durable rows; they are bounded, and count as a ledger without bounds does.

  \<^bold>\<open>Bounds and fuel.\<close> No definition runs on fuel: loops are structural recursions, have a measure
  (\<open>ancestors\<close>: the length of the path) or, where they wait for others, are partial functions
  whose termination is a theorem. Caps are those of the source (32 levels of configuration,
  100 sampled indexes, the caps on reads and authorships). Recursion over configuration values
  stops at the source's depth bound, which is the recursion argument.

  \<^bold>\<open>Hypotheses.\<close> \<open>realpath_laws\<close>: a real path is canonical and its own real path, nothing below a
  refused directory resolves, a name is looked up where its directory resolves to. \<open>text_disk\<close>: a
  readable file that is writable can be written with any text that has no lone surrogate, and
  writing it changes no other file. Both are proved of all well-formed file trees. The theorems on paths exclude backslashes: with them the code
  misbehaves, as \<open>backslash_link_escapes\<close> and \<open>backslash_key_moves\<close> show.

  \<^bold>\<open>Not modelled.\<close> Windows paths (another dialect of the path module), the display of edits, the
  content guard of renames; the quarantine variant of the pid-file lock, which renames
  directories; the ledger's rows about other modules and its rendering; chunked reading of files (the text as a whole is modelled);
  language servers, tool runners, installers, the review graph, the tree-sitter and ast-grep
  clients, the git guard, the delivery of findings and the dispatch pipeline, which are drivers of other processes and of libraries;
  log lines, telemetry, rendering and the entry points of the host.

  \<^bold>\<open>Limits of the models.\<close> The strings of \<open>Process_Spec\<close> have 8-bit characters, so the byte length
  of text outside Latin-1 is not represented. In the waiting loops of the locks a wait moves the
  clock on by its length; a clock that steps back during a wait is not covered by the
  termination theorems (it is by the exclusion theorems). \<open>pc_after\<close> does not tell an attempt
  that found the lock held from one that threw. In a race the two reactions of a promise happen at
  once, and \<open>proper_race\<close> excludes predicates that throw. The disk of the read guard gives a file's
  stat and text together, so a stat that succeeds before a read that fails is not expressible.
  The accumulator of the edit merge is a map, so a file named \<open>__proto__\<close> is not treated
  apart. A writer of the mutation queues resolves its paths by one function at both of its
  resolutions. The clear counter of \<open>Single_Flight\<close> is history for the proof, which no operation
  reads.
\<close>

end
